(* ===== verification/Lot_Prelude.thy ===== *)
theory Lot_Prelude
  imports Main "HOL-Library.Word"
begin

text \<open>
  Shared vocabulary of the development: the machine types of the crates, the
  atomic read-modify-write operations of \<open>core::sync::atomic\<close> the sources use,
  and the generic lemmas on lists and words that the component theories share.
\<close>

unbundle bit_operations_syntax

named_theorems atomic_simps \<open>unfolding rules for the atomic operations\<close>
named_theorems lot_simps \<open>unfolding rules for the steps of the parking lot\<close>

section \<open>Machine types\<close>

type_synonym u8 = "8 word"
type_synonym u32 = "32 word"
type_synonym u64 = "64 word"
type_synonym usize = "64 word"

text \<open>
  A thread is identified by the address of its \<open>ThreadData\<close>; a raw pointer
  \<open>*const ThreadData\<close> is \<open>None\<close> (null) or the identity of a thread.
\<close>

type_synonym tid = nat
type_synonym td_ptr = "tid option"

section \<open>Atomic operations\<close>

text \<open>
  \<open>Result<T, T>\<close> is a sum: \<open>Inr\<close> is \<open>Ok\<close>, \<open>Inl\<close> is \<open>Err\<close>. Every operation maps the
  stored value to the returned value and the value stored afterwards. The weak
  exchange may fail spuriously, which is its first argument.
\<close>

definition compare_exchange :: "'a \<Rightarrow> 'a \<Rightarrow> 'a \<Rightarrow> ('a + 'a) \<times> 'a" where
  [atomic_simps]: "compare_exchange current new v =
     (if v = current then (Inr v, new) else (Inl v, v))"

definition compare_exchange_weak :: "bool \<Rightarrow> 'a \<Rightarrow> 'a \<Rightarrow> 'a \<Rightarrow> ('a + 'a) \<times> 'a" where
  [atomic_simps]: "compare_exchange_weak spurious current new v =
     (if spurious then (Inl v, v) else compare_exchange current new v)"

definition fetch_and :: "'a::len word \<Rightarrow> 'a word \<Rightarrow> 'a word \<times> 'a word" where
  [atomic_simps]: "fetch_and m v = (v, v AND m)"

definition fetch_or :: "'a::len word \<Rightarrow> 'a word \<Rightarrow> 'a word \<times> 'a word" where
  [atomic_simps]: "fetch_or m v = (v, v OR m)"

definition fetch_add :: "'a::len word \<Rightarrow> 'a word \<Rightarrow> 'a word \<times> 'a word" where
  [atomic_simps]: "fetch_add d v = (v, v + d)"

definition fetch_sub :: "'a::len word \<Rightarrow> 'a word \<Rightarrow> 'a word \<times> 'a word" where
  [atomic_simps]: "fetch_sub d v = (v, v - d)"

text \<open>\<open>checked_add\<close> of the integer types: \<open>None\<close> on overflow.\<close>

definition checked_add :: "'a::len word \<Rightarrow> 'a word \<Rightarrow> 'a word option" where
  "checked_add a b = (if unat a + unat b < 2 ^ LENGTH('a) then Some (a + b) else None)"

lemma checked_add_code [code]:
  "checked_add a b = (if a \<le> a + b then Some (a + b) else None)" for a b :: "'a::len word"
proof -
  have "a \<le> a + b \<longleftrightarrow> int (unat a + unat b) < int (2 ^ LENGTH('a))" by (simp add: no_olen_add)
  then show ?thesis unfolding checked_add_def of_nat_less_iff by simp
qed

lemma checked_add_Some_unat:
  "checked_add a b = Some c \<Longrightarrow> unat c = unat a + unat b"
  for a b c :: "'a::len word"
  by (auto simp: checked_add_def unat_word_ariths split: if_splits)

section \<open>Lists\<close>

lemma filter_remove1_neq:
  "\<not> P x \<Longrightarrow> filter P (remove1 x xs) = filter P xs"
  by (induction xs) auto

lemma filter_remove1_eq:
  "P x \<Longrightarrow> filter P (remove1 x xs) = remove1 x (filter P xs)"
  by (induction xs) auto

lemma filter_neq_id [simp]: "c \<notin> set xs \<Longrightarrow> filter (\<lambda>t. t \<noteq> c) xs = xs"
  by (auto intro: filter_True)

lemma hd_filter_split:
  assumes "filter P xs = y # ys"
  shows "\<exists>us vs. xs = us @ y # vs \<and> (\<forall>u\<in>set us. \<not> P u) \<and> P y \<and> ys = filter P vs"
  using assms filter_eq_ConsD by metis

end
