(* ===== verification/Spin_Wait.thy ===== *)
theory Spin_Wait
  imports Lot_Prelude
begin

text \<open>
  The exponential backoff counter of \<open>core/src/spinwait.rs\<close>. The two ways of
  wasting time (\<open>cpu_relax\<close> and \<open>thread_yield\<close>) are reported as a value, so that
  what \<open>spin\<close> does on each call can be stated.
\<close>

record SpinWait =
  counter :: u32

datatype relax = CpuRelax u32 | ThreadYield

definition SpinWait_new :: SpinWait where
  "SpinWait_new = \<lparr>counter = 0\<rparr>"

definition SpinWait_reset :: "SpinWait \<Rightarrow> SpinWait" where
  "SpinWait_reset s = s\<lparr>counter := 0\<rparr>"

text \<open>
  \<open>spin\<close>: the returned flag, the counter and the relaxing action, none when the
  threshold has been reached.
\<close>

definition spin :: "SpinWait \<Rightarrow> bool \<times> SpinWait \<times> relax option" where
  "spin s = (if counter s \<ge> 10 then (False, s, None)
     else (let c = counter s + 1 in
       (True, s\<lparr>counter := c\<rparr>,
        Some (if c \<le> 3 then CpuRelax (push_bit (unat c) 1) else ThreadYield))))"

definition spin_no_yield :: "SpinWait \<Rightarrow> SpinWait \<times> relax" where
  "spin_no_yield s =
     (let c = counter s + 1; c' = (if c > 10 then 10 else c)
      in (s\<lparr>counter := c'\<rparr>, CpuRelax (push_bit (unat c') 1)))"

fun spins :: "nat \<Rightarrow> SpinWait \<Rightarrow> SpinWait" where
  "spins 0 s = s"
| "spins (Suc n) s = spins n (fst (snd (spin s)))"

definition spin_ok :: "SpinWait \<Rightarrow> bool" where
  "spin_ok s \<longleftrightarrow> counter s \<le> 10"

lemma spin_counter:
  "counter s \<le> 10 \<Longrightarrow> unat (counter (fst (snd (spin s)))) = min 10 (unat (counter s) + 1)"
  by (auto simp: spin_def Let_def word_le_nat_alt unat_word_ariths)

lemma spin_ok_step: "spin_ok s \<Longrightarrow> spin_ok (fst (snd (spin s)))"
  using spin_counter [of s] by (simp add: spin_ok_def word_le_nat_alt)

lemma spins_counter:
  "spin_ok s \<Longrightarrow> unat (counter (spins n s)) = min 10 (unat (counter s) + n)"
proof (induction n arbitrary: s)
  case 0
  then show ?case by (simp add: spin_ok_def word_le_nat_alt)
next
  case (Suc n)
  have "unat (counter (spins n (fst (snd (spin s))))) =
      min 10 (unat (counter (fst (snd (spin s)))) + n)"
    using Suc.prems by (intro Suc.IH spin_ok_step)
  then show ?case
    using Suc.prems spin_counter [of s] by (simp add: spin_ok_def)
qed

text \<open>
  Starting from a fresh counter, exactly the first ten calls of \<open>spin\<close> return
  true and every later call returns false, so a spin loop guarded by \<open>spin\<close> ends.
\<close>

theorem spin_true_exactly_ten_times:
  "fst (spin (spins n SpinWait_new)) \<longleftrightarrow> n < 10"
proof -
  have "unat (counter (spins n SpinWait_new)) = min 10 n"
    using spins_counter [of SpinWait_new n] by (simp add: SpinWait_new_def spin_ok_def)
  then show ?thesis
    by (auto simp: spin_def Let_def word_le_nat_alt)
qed

end
