(* ===== verification/Hash_Table.thy ===== *)
theory Hash_Table
  imports Lot_Prelude
begin

text \<open>
  The fair-unlock timer, the bucket array and the hash function of
  \<open>core/src/parking_lot.rs\<close>. An \<open>Instant\<close> is its number of nanoseconds, and the clock
  reading of an operation is an argument. A debug-build arithmetic panic is \<open>None\<close>.
\<close>

section \<open>Fair timeouts\<close>

record FairTimeout =
  timeout :: nat
  seed :: u32

definition FairTimeout_new :: "nat \<Rightarrow> u32 \<Rightarrow> FairTimeout" where
  "FairTimeout_new t s = \<lparr>timeout = t, seed = s\<rparr>"

definition xorshift :: "u32 \<Rightarrow> u32" where
  "xorshift s0 =
     (let s1 = s0 XOR push_bit 13 s0;
          s2 = s1 XOR drop_bit 17 s1
      in s2 XOR push_bit 5 s2)"

definition gen_u32 :: "FairTimeout \<Rightarrow> u32 \<times> FairTimeout" where
  "gen_u32 f = (let s = xorshift (seed f) in (s, f\<lparr>seed := s\<rparr>))"

definition should_timeout :: "nat \<Rightarrow> FairTimeout \<Rightarrow> bool \<times> FairTimeout" where
  "should_timeout now f =
     (if now > timeout f then
        (let (r, f') = gen_u32 f; nanos = unat (r mod 1000000)
         in (True, f'\<lparr>timeout := now + nanos\<rparr>))
      else (False, f))"

section \<open>Sizes and hashing\<close>

definition LOAD_FACTOR :: nat where
  "LOAD_FACTOR = 3"

text \<open>The \<open>usize\<close> methods used by \<open>HashTable::new\<close>.\<close>

fun npo2_exponent :: "nat \<Rightarrow> nat" where
  "npo2_exponent n = (if n \<le> 1 then 0 else Suc (npo2_exponent ((n + 1) div 2)))"

declare npo2_exponent.simps [simp del]

definition next_power_of_two :: "nat \<Rightarrow> nat" where
  "next_power_of_two n = 2 ^ npo2_exponent n"

fun bit_length :: "nat \<Rightarrow> nat" where
  "bit_length n = (if n = 0 then 0 else Suc (bit_length (n div 2)))"

declare bit_length.simps [simp del]

definition leading_zeros64 :: "nat \<Rightarrow> nat" where
  "leading_zeros64 n = 64 - bit_length n"

definition hash_bits_of_size :: "nat \<Rightarrow> nat" where
  "hash_bits_of_size new_size = leading_zeros64 0 - leading_zeros64 new_size - 1"

definition hash :: "usize \<Rightarrow> nat \<Rightarrow> nat option" where
  "hash key bits =
     (if 1 \<le> bits \<and> bits \<le> 64
      then Some (unat (drop_bit (64 - bits) (key * 0x9E3779B97F4A7C15)))
      else None)"

definition hash32 :: "32 word \<Rightarrow> nat \<Rightarrow> nat option" where
  "hash32 key bits =
     (if 1 \<le> bits \<and> bits \<le> 32
      then Some (unat (drop_bit (32 - bits) (key * 0x9E3779B9)))
      else None)"

section \<open>Buckets and tables\<close>

text \<open>
  The bucket's \<open>WordLock\<close> is represented by the thread that holds it. The pointer
  to the previous table is kept for leak detectors only and has no component here.
\<close>

record Bucket =
  mutex :: "tid option"
  queue_head :: td_ptr
  queue_tail :: td_ptr
  fair_timeout :: FairTimeout

definition Bucket_new :: "nat \<Rightarrow> u32 \<Rightarrow> Bucket" where
  "Bucket_new t s = \<lparr>mutex = None, queue_head = None, queue_tail = None,
     fair_timeout = FairTimeout_new t s\<rparr>"

record HashTable =
  entries :: "Bucket list"
  hash_bits :: nat

definition HashTable_new :: "nat \<Rightarrow> nat \<Rightarrow> HashTable option" where
  "HashTable_new now num_threads =
     (let new_size = next_power_of_two (num_threads * LOAD_FACTOR)
      in if new_size < 2 ^ 64 then
        Some \<lparr>entries = map (\<lambda>i. Bucket_new now (word_of_nat i + 1)) [0..<new_size],
              hash_bits = hash_bits_of_size new_size\<rparr>
      else None)"

section \<open>The pseudorandom generator\<close>

lemma push_bit_13_fixpoint: "push_bit 13 x = x \<Longrightarrow> x = 0" for x :: u32
proof -
  assume *: "push_bit 13 x = x"
  then have "x = push_bit 13 (push_bit 13 (push_bit 13 x))" by simp
  also have "\<dots> = push_bit 39 x" by simp
  also have "\<dots> = 0" by (rule bit_eqI) (simp add: bit_simps)
  finally show ?thesis .
qed

lemma push_bit_5_fixpoint: "push_bit 5 x = x \<Longrightarrow> x = 0" for x :: u32
proof -
  assume *: "push_bit 5 x = x"
  then have "x = push_bit 5 (push_bit 5 (push_bit 5 (push_bit 5
      (push_bit 5 (push_bit 5 (push_bit 5 x))))))" by simp
  also have "\<dots> = push_bit 35 x" by simp
  also have "\<dots> = 0" by (rule bit_eqI) (simp add: bit_simps)
  finally show ?thesis .
qed

lemma drop_bit_17_fixpoint: "drop_bit 17 x = x \<Longrightarrow> x = 0" for x :: u32
proof -
  assume *: "drop_bit 17 x = x"
  then have "x = drop_bit 17 (drop_bit 17 x)" by simp
  also have "\<dots> = drop_bit 34 x" by simp
  also have "\<dots> = 0" by (rule bit_eqI) (simp add: bit_simps bit_imp_le_length)
  finally show ?thesis .
qed

lemma xor_shift_inj:
  fixes f :: "u32 \<Rightarrow> u32"
  assumes lin: "\<And>x y. f (x XOR y) = f x XOR f y"
    and fix0: "\<And>x. f x = x \<Longrightarrow> x = 0"
    and eq: "a XOR f a = b XOR f b"
  shows "a = b"
proof -
  have "f (a XOR b) = a XOR b"
    unfolding lin using eq by (auto simp: bit_eq_iff bit_xor_iff)
  then have "a XOR b = 0" by (rule fix0)
  then show ?thesis by (auto simp: bit_eq_iff bit_xor_iff)
qed

lemma xorshift_inj: "xorshift a = xorshift b \<Longrightarrow> a = b"
proof -
  define f where "f x = x XOR push_bit 13 x" for x :: u32
  define g where "g x = x XOR drop_bit 17 x" for x :: u32
  define h where "h x = x XOR push_bit 5 x" for x :: u32
  assume "xorshift a = xorshift b"
  then have "h (g (f a)) = h (g (f b))"
    by (simp add: xorshift_def Let_def f_def g_def h_def)
  then have "g (f a) = g (f b)"
    unfolding h_def by (rule xor_shift_inj [where f = "push_bit 5", OF push_bit_xor, rotated])
      (erule push_bit_5_fixpoint)
  then have "f a = f b"
    unfolding g_def by (rule xor_shift_inj [where f = "drop_bit 17", OF drop_bit_xor, rotated])
      (erule drop_bit_17_fixpoint)
  then show ?thesis
    unfolding f_def by (rule xor_shift_inj [where f = "push_bit 13", OF push_bit_xor, rotated])
      (erule push_bit_13_fixpoint)
qed

lemma xorshift_0 [simp]: "xorshift 0 = 0"
  by (simp add: xorshift_def)

lemma xorshift_eq_0_iff [simp]: "xorshift a = 0 \<longleftrightarrow> a = 0"
  using xorshift_inj [of a 0] by auto

lemma should_timeout_seed:
  "seed f \<noteq> 0 \<Longrightarrow> seed (snd (should_timeout now f)) \<noteq> 0"
  by (simp add: should_timeout_def gen_u32_def Let_def)

lemma should_timeout_window:
  assumes "should_timeout now f = (True, f')"
  shows "timeout f < now" and "now \<le> timeout f'" and "timeout f' < now + 1000000"
proof -
  have "unat (xorshift (seed f) mod 1000000) < 1000000"
    by (simp add: unat_mod)
  then show "timeout f < now" "now \<le> timeout f'" "timeout f' < now + 1000000"
    using assms by (auto simp: should_timeout_def gen_u32_def Let_def split: if_splits)
qed

section \<open>Sizes\<close>

lemma npo2_exponent_upper: "n \<le> 2 ^ npo2_exponent n"
proof (induction n rule: npo2_exponent.induct)
  case (1 n)
  then show ?case by (cases "n \<le> 1") (auto simp: npo2_exponent.simps [of n])
qed

lemma npo2_exponent_lower: "1 < n \<Longrightarrow> 2 ^ npo2_exponent n < 2 * n"
proof (induction n rule: npo2_exponent.induct)
  case (1 n)
  show ?case
  proof (cases "n = 2")
    case True
    then show ?thesis by (simp add: npo2_exponent.simps)
  next
    case False
    define m where "m = (n + 1) div 2"
    define a :: nat where "a = 2 ^ npo2_exponent m"
    from False "1.prems" have m: "1 < m" "2 * m \<le> n + 1" by (auto simp: m_def)
    with "1.IH" "1.prems" have "a < 2 * m" by (auto simp: m_def a_def)
    moreover have "even a"
      unfolding a_def using m(1) by (subst npo2_exponent.simps) simp
    ultimately have "a < n" using m(2) by presburger
    moreover have "2 ^ npo2_exponent n = 2 * a"
      using "1.prems" by (simp add: npo2_exponent.simps [of n] m_def a_def)
    ultimately show ?thesis by linarith
  qed
qed

lemma bit_length_power: "bit_length (2 ^ k) = Suc k"
proof (induction k)
  case 0
  show ?case by (simp add: bit_length.simps [of "Suc 0"] bit_length.simps [of 0])
next
  case (Suc k)
  then show ?case by (simp add: bit_length.simps [of "2 * 2 ^ k"])
qed

lemma hash_bits_of_power:
  assumes "k < 64"
  shows "hash_bits_of_size (2 ^ k) = k"
  using assms by (simp add: hash_bits_of_size_def leading_zeros64_def bit_length_power
      bit_length.simps [of 0])

lemma unat_drop_bit_div: "unat (drop_bit n w) = unat w div 2 ^ n" for w :: "'a::len word"
  using unat_drop_bit_eq [of n w] by (simp add: drop_bit_eq_div [where 'a = nat])

lemma unat_top_bits:
  fixes w :: "'a::len word"
  assumes "b \<le> LENGTH('a)"
  shows "unat (drop_bit (LENGTH('a) - b) w) < 2 ^ b"
proof -
  have "unat w < 2 ^ LENGTH('a)" by simp
  also have "(2::nat) ^ LENGTH('a) = 2 ^ b * 2 ^ (LENGTH('a) - b)"
    using assms by (simp add: power_add [symmetric])
  finally show ?thesis by (simp add: unat_drop_bit_div less_mult_imp_div_less)
qed

lemma hash_bound: "hash k bits = Some i \<Longrightarrow> i < 2 ^ bits"
  using unat_top_bits [of bits "k * 0x9E3779B97F4A7C15"]
  by (auto simp: hash_def split: if_splits)

lemma hash32_bound: "hash32 k bits = Some i \<Longrightarrow> i < 2 ^ bits"
  using unat_top_bits [of bits "k * 0x9E3779B9"]
  by (auto simp: hash32_def split: if_splits)

text \<open>A table is usable when its size is the power of two its hash bits say.\<close>

definition table_ok :: "HashTable \<Rightarrow> bool" where
  "table_ok tb \<longleftrightarrow> 1 \<le> hash_bits tb \<and> hash_bits tb < 64 \<and> length (entries tb) = 2 ^ hash_bits tb"

lemma table_ok_hash:
  assumes "table_ok tb"
  obtains i where "hash k (hash_bits tb) = Some i" and "i < length (entries tb)"
  using assms hash_bound [of k "hash_bits tb"] by (auto simp: table_ok_def hash_def)

lemma HashTable_new_ok:
  assumes "HashTable_new now n = Some tb" and "0 < n"
  shows "table_ok tb" and "LOAD_FACTOR * n \<le> length (entries tb)"
proof -
  let ?e = "npo2_exponent (n * LOAD_FACTOR)"
  have size: "2 ^ ?e < (2::nat) ^ 64"
    and tb: "length (entries tb) = 2 ^ ?e" "hash_bits tb = hash_bits_of_size (2 ^ ?e)"
    using assms(1) by (auto simp: HashTable_new_def Let_def next_power_of_two_def split: if_splits)
  have e: "?e < 64" using size by (rule power_less_imp_less_exp [rotated]) simp
  have "n * LOAD_FACTOR \<le> 2 ^ ?e" by (rule npo2_exponent_upper)
  moreover have "1 < n * LOAD_FACTOR" using assms(2) by (simp add: LOAD_FACTOR_def)
  ultimately have "1 \<le> ?e" by (cases ?e) (auto simp del: One_nat_def)
  with e tb show "table_ok tb"
    by (simp add: table_ok_def hash_bits_of_power)
  show "LOAD_FACTOR * n \<le> length (entries tb)"
    using npo2_exponent_upper [of "n * LOAD_FACTOR"] tb by (simp add: mult.commute)
qed

lemma HashTable_new_Some:
  assumes "0 < n" and "n * LOAD_FACTOR \<le> 2 ^ 62"
  shows "\<exists>tb. HashTable_new now n = Some tb"
proof -
  have "1 < n * LOAD_FACTOR" using assms(1) by (simp add: LOAD_FACTOR_def)
  then have "2 ^ npo2_exponent (n * LOAD_FACTOR) < 2 * (n * LOAD_FACTOR)"
    by (rule npo2_exponent_lower)
  also have "\<dots> \<le> 2 * 2 ^ 62" using assms(2) by (rule mult_le_mono2)
  also have "\<dots> < 2 ^ 64" by simp
  finally have "2 ^ npo2_exponent (n * LOAD_FACTOR) < (2::nat) ^ 64" .
  then show ?thesis by (simp add: HashTable_new_def Let_def next_power_of_two_def)
qed

end
