(* ===== verification/Thread_Parker.thy ===== *)
theory Thread_Parker
  imports Lot_Prelude
begin

text \<open>
  The platform thread parkers under \<open>core/src/thread_parker/\<close> and the contract of
  the trait \<open>ThreadParkerT\<close> of \<open>mod.rs\<close> as a locale.

  The contract is about the flag a parker keeps, not about the system call that
  puts the thread to sleep. \<open>prepare\<close>, \<open>unpark_lock\<close> and \<open>unpark\<close> are the calls of
  the same names; \<open>expire\<close> is what \<open>park_until\<close> does once the deadline has passed: the
  value it returns and what it leaves in the parker; \<open>timed_out\<close> is the check made
  under the queue lock, \<open>None\<close> where the call blocks until the unparker is done.
\<close>

section \<open>The contract\<close>

locale thread_parker =
  fixes prepare :: "'p \<Rightarrow> 'p"
    and expire :: "'p \<Rightarrow> bool \<times> 'p"
    and lock_handle :: "'p \<Rightarrow> 'p \<times> 'h"
    and release_handle :: "'h \<Rightarrow> 'p \<Rightarrow> 'p"
    and expired :: "'p \<Rightarrow> bool option"
  assumes expire_prepared: "\<exists>q. expire (prepare p) = (False, q)"
    and expired_expire: "expire (prepare p) = (False, q) \<Longrightarrow> expired q = Some True"
    and unpark_then_expire:
      "lock_handle (prepare p) = (q, h) \<Longrightarrow> expire (release_handle h q) = (v, q') \<Longrightarrow>
         v \<or> expired q' = Some False"
    and unpark_not_expired:
      "lock_handle (prepare p) = (q, h) \<Longrightarrow> expired q \<noteq> Some True"
    and expire_then_unpark:
      "expire (prepare p) = (False, q) \<Longrightarrow> lock_handle q = (r, h) \<Longrightarrow>
         expired r \<noteq> Some True \<and> expired (release_handle h r) = Some False"
begin

text \<open>
  What \<open>park\<close> concludes from a parker: \<open>Some True\<close> if it was unparked, \<open>Some False\<close>
  if it timed out, \<open>None\<close> if it has to wait for the unparker.
\<close>

definition verdict :: "bool \<Rightarrow> 'p \<Rightarrow> bool option" where
  "verdict r p = (if r then Some True else map_option Not (expired p))"

lemma verdict_unparked_before:
  assumes "lock_handle (prepare p) = (q, h)" and "expire (release_handle h q) = (r, q')"
  shows "verdict r q' = Some True"
  using unpark_then_expire [OF assms] by (auto simp: verdict_def)

lemma verdict_unparked_after:
  assumes "expire (prepare p) = (r, q)" and "lock_handle q = (q', h)"
  shows "verdict r (release_handle h q') = Some True \<and> verdict r q' \<noteq> Some False"
proof -
  obtain q0 where "expire (prepare p) = (False, q0)" using expire_prepared by blast
  with assms(1) have "r = False" "q0 = q" by auto
  with assms show ?thesis using expire_then_unpark [of p q q' h]
    by (auto simp: verdict_def)
qed

lemma verdict_timed_out:
  assumes "expire (prepare p) = (r, q)"
  shows "verdict r q = Some False"
  using assms expire_prepared [of p] expired_expire [of p q] by (auto simp: verdict_def)

end

section \<open>Linux: a futex word\<close>

record ThreadParker =
  futex :: "32 word"

definition ThreadParker_new :: ThreadParker where
  "ThreadParker_new = \<lparr>futex = 0\<rparr>"

definition prepare_park :: "ThreadParker \<Rightarrow> ThreadParker" where
  "prepare_park p = p\<lparr>futex := 1\<rparr>"

definition timed_out :: "ThreadParker \<Rightarrow> bool" where
  "timed_out p \<longleftrightarrow> futex p \<noteq> 0"

definition unpark_lock :: "ThreadParker \<Rightarrow> ThreadParker" where
  "unpark_lock p = p\<lparr>futex := 0\<rparr>"

text \<open>
  The loops of \<open>park\<close> and \<open>park_until\<close>, over what they observe: the word each
  iteration loads and, for \<open>park_until\<close>, the clock it reads. \<open>None\<close> is "still asleep
  when the observations end". The test for an overflow converts the seconds to a \<open>time_t\<close> of
  \<open>bits\<close> bits and back to a \<open>u64\<close>, and sleeps without a deadline if that changes them.
\<close>

fun park_obs :: "32 word list \<Rightarrow> bool option" where
  "park_obs [] = None"
| "park_obs (w # ws) = (if w \<noteq> 0 then park_obs ws else Some True)"

definition time_t_overflows :: "nat \<Rightarrow> int \<Rightarrow> bool" where
  "time_t_overflows bits secs \<longleftrightarrow> signed_take_bit (bits - 1) secs mod 2 ^ 64 \<noteq> secs"

fun park_until_obs :: "nat \<Rightarrow> nat \<Rightarrow> (32 word \<times> nat) list \<Rightarrow> bool option" where
  "park_until_obs bits timeout [] = None"
| "park_until_obs bits timeout ((w, now) # obs) =
     (if w = 0 then Some True
      else if timeout \<le> now then Some False
      else if time_t_overflows bits (int ((timeout - now) div 1000000000)) then park_obs (map fst obs)
      else park_until_obs bits timeout obs)"

definition linux_expire :: "ThreadParker \<Rightarrow> bool \<times> ThreadParker" where
  "linux_expire p = (futex p = 0, p)"

lemma time_t_64_never_overflows:
  assumes "0 \<le> secs" and "secs < 2 ^ 64"
  shows "\<not> time_t_overflows 64 secs"
proof -
  have "signed_take_bit 63 secs mod 2 ^ 64 = take_bit 64 (signed_take_bit 63 secs)" by (simp add: take_bit_eq_mod)
  also have "\<dots> = secs" using assms by (simp add: take_bit_signed_take_bit take_bit_int_eq_self)
  finally show ?thesis by (simp add: time_t_overflows_def)
qed

lemma park_obs_true: "park_obs ws = Some b \<Longrightarrow> b \<and> 0 \<in> set ws"
  by (induction ws) (auto split: if_splits)

lemma park_obs_returns: "0 \<in> set ws \<Longrightarrow> park_obs ws = Some True"
  by (induction ws) auto

lemma park_until_obs_sound:
  assumes "park_until_obs bits timeout obs = Some b"
  shows "if b then 0 \<in> fst ` set obs else \<exists>w now. (w, now) \<in> set obs \<and> w \<noteq> 0 \<and> timeout \<le> now"
  using assms
proof (induction bits timeout obs rule: park_until_obs.induct)
  case (2 bits timeout w now obs)
  then show ?case
    using park_obs_true [of "map fst obs" b] by (force split: if_splits)
qed simp

text \<open>A thread that loaded the word before it was cleared and finds its deadline passed afterwards also returns false.\<close>

definition linux_expire_late :: "ThreadParker \<Rightarrow> bool \<times> ThreadParker" where
  "linux_expire_late p = (False, p)"

interpretation linux: thread_parker
  prepare_park linux_expire "\<lambda>p. (unpark_lock p, ())" "\<lambda>h p. p" "\<lambda>p. Some (timed_out p)"
  by unfold_locales
    (auto simp: prepare_park_def linux_expire_def unpark_lock_def timed_out_def)

interpretation linux_late: thread_parker
  prepare_park linux_expire_late "\<lambda>p. (unpark_lock p, ())" "\<lambda>h p. p" "\<lambda>p. Some (timed_out p)"
  by unfold_locales
    (auto simp: prepare_park_def linux_expire_late_def unpark_lock_def timed_out_def)

end
