(* ===== verification/Bucket_Queue.thy ===== *)
theory Bucket_Queue
  imports Hash_Table Thread_Parker "HOL-Library.Monad_Syntax"
begin

text \<open>
  The intrusive queue of parked threads of a bucket (\<open>core/src/parking_lot.rs\<close>): the
  per-thread record, the linked list under \<open>queue_head\<close> and \<open>queue_tail\<close>, and the loops
  of the park and unpark functions that run while the bucket is locked. Every pointer
  write of the source is an update of the heap or of the bucket. A walk along a cyclic
  list would not end, so the loops are partial functions whose value \<open>None\<close> means "does
  not return"; on well-formed queues they are proved to return.
\<close>

section \<open>Results, tokens and thread data\<close>

datatype ParkResult = Unparked usize | Invalid | TimedOut

definition is_unparked :: "ParkResult \<Rightarrow> bool" where
  "is_unparked r = (case r of Unparked _ \<Rightarrow> True | _ \<Rightarrow> False)"

record UnparkResult =
  unparked_threads :: nat
  requeued_threads :: nat
  have_more_threads :: bool
  be_fair :: bool

definition UnparkResult_default :: UnparkResult where
  "UnparkResult_default = \<lparr>unparked_threads = 0, requeued_threads = 0,
     have_more_threads = False, be_fair = False\<rparr>"

datatype RequeueOp = Abort | UnparkOneRequeueRest | RequeueAll | UnparkOne | RequeueOne

datatype FilterOp = Unpark | Skip | Stop

definition DEFAULT_UNPARK_TOKEN :: usize where
  "DEFAULT_UNPARK_TOKEN = 0"

definition DEFAULT_PARK_TOKEN :: usize where
  "DEFAULT_PARK_TOKEN = 0"

record ThreadData =
  parker :: ThreadParker
  key :: usize
  next_in_queue :: td_ptr
  unpark_token :: usize
  park_token :: usize
  parked_with_timeout :: bool

definition ThreadData_init :: ThreadData where
  "ThreadData_init = \<lparr>parker = ThreadParker_new, key = 0, next_in_queue = None,
     unpark_token = DEFAULT_UNPARK_TOKEN, park_token = DEFAULT_PARK_TOKEN,
     parked_with_timeout = False\<rparr>"

type_synonym heap = "tid \<Rightarrow> ThreadData"

section \<open>Pointer operations\<close>

text \<open>The variable \<open>link\<close> of the loops: the cell that holds the pointer to \<open>current\<close>.\<close>

datatype link = QueueHead | NextOf tid

definition set_next :: "tid \<Rightarrow> td_ptr \<Rightarrow> heap \<Rightarrow> heap" where
  "set_next t p h = h(t := (h t)\<lparr>next_in_queue := p\<rparr>)"

fun set_link :: "link \<Rightarrow> td_ptr \<Rightarrow> heap \<times> Bucket \<Rightarrow> heap \<times> Bucket" where
  "set_link QueueHead p (h, b) = (h, b\<lparr>queue_head := p\<rparr>)"
| "set_link (NextOf t) p (h, b) = (set_next t p h, b)"

text \<open>
  The removal all loops share: the link is set to the successor of \<open>current\<close> and the
  tail is set to \<open>previous\<close> if it was \<open>current\<close>.
\<close>

definition remove_current :: "link \<Rightarrow> td_ptr \<Rightarrow> tid \<Rightarrow> heap \<times> Bucket \<Rightarrow> heap \<times> Bucket" where
  "remove_current lnk previous current hb =
     (let (h', b') = set_link lnk (next_in_queue (fst hb current)) hb
      in (h', if queue_tail b' = Some current then b'\<lparr>queue_tail := previous\<rparr> else b'))"

text \<open>Appending a thread (\<open>park\<close>) or a chain of threads (\<open>unpark_requeue\<close>).\<close>

definition append_chain :: "tid \<Rightarrow> tid \<Rightarrow> heap \<times> Bucket \<Rightarrow> heap \<times> Bucket" where
  "append_chain first last_t hb =
     (let (h, b) = hb in
      case queue_head b of
        None \<Rightarrow> (h, b\<lparr>queue_head := Some first, queue_tail := Some last_t\<rparr>)
      | Some _ \<Rightarrow> ((case queue_tail b of None \<Rightarrow> h | Some tail \<Rightarrow> set_next tail (Some first) h),
                   b\<lparr>queue_tail := Some last_t\<rparr>))"

definition park_enqueue ::
    "tid \<Rightarrow> usize \<Rightarrow> usize \<Rightarrow> bool \<Rightarrow> heap \<times> Bucket \<Rightarrow> heap \<times> Bucket" where
  "park_enqueue t k token timed hb =
     (let (h, b) = hb;
          td = (h t)\<lparr>parked_with_timeout := timed, next_in_queue := None, key := k,
                    park_token := token, parker := prepare_park (parker (h t))\<rparr>
      in append_chain t t (h(t := td), b))"

text \<open>Scanning the rest of the queue for another entry with the key.\<close>

partial_function (option) scan_key :: "heap \<Rightarrow> usize \<Rightarrow> td_ptr \<Rightarrow> bool option" where
  "scan_key h k scan = (case scan of
     None \<Rightarrow> Some False
   | Some t \<Rightarrow> if key (h t) = k then Some True else scan_key h k (next_in_queue (h t)))"

text \<open>The search loop of \<open>unpark_one\<close>: the first thread with the key, its link and its
  predecessor.\<close>

partial_function (option) find_key ::
    "heap \<Rightarrow> usize \<Rightarrow> link \<Rightarrow> td_ptr \<Rightarrow> td_ptr \<Rightarrow> (link \<times> td_ptr \<times> tid) option option" where
  "find_key h k lnk previous current = (case current of
     None \<Rightarrow> Some None
   | Some c \<Rightarrow> if key (h c) = k then Some (Some (lnk, previous, c))
       else find_key h k (NextOf c) (Some c) (next_in_queue (h c)))"

text \<open>
  \<open>unpark_one\<close> between \<open>lock_bucket\<close> and \<open>unlock\<close>: the callback sees the result, may
  change the client's state, and gives the token of the unparked thread.
\<close>

definition wake_data :: "usize \<Rightarrow> ThreadData \<Rightarrow> ThreadData" where
  "wake_data token td = td\<lparr>unpark_token := token, parker := unpark_lock (parker td)\<rparr>"

definition wake_thread :: "usize \<Rightarrow> tid \<Rightarrow> heap \<Rightarrow> heap" where
  "wake_thread token t h = h(t := wake_data token (h t))"

definition unpark_one_bucket ::
    "usize \<Rightarrow> nat \<Rightarrow> (UnparkResult \<Rightarrow> 's \<Rightarrow> 's \<times> usize) \<Rightarrow> 's \<Rightarrow> heap \<times> Bucket
       \<Rightarrow> ('s \<times> (heap \<times> Bucket) \<times> UnparkResult \<times> tid option) option" where
  "unpark_one_bucket k now callback s hb = do {
     r \<leftarrow> find_key (fst hb) k QueueHead None (queue_head (snd hb));
     (case r of
        None \<Rightarrow> Some (fst (callback UnparkResult_default s), hb, UnparkResult_default, None)
      | Some (lnk, previous, current) \<Rightarrow> do {
          let next = next_in_queue (fst hb current);
          let (h1, b1) = remove_current lnk previous current hb;
          more \<leftarrow> (if queue_tail (snd hb) = Some current then Some False else scan_key h1 k next);
          let (fair, f') = should_timeout now (fair_timeout b1);
          let result = UnparkResult_default\<lparr>have_more_threads := more, unparked_threads := 1,
                         be_fair := fair\<rparr>;
          let (s', token) = callback result s;
          Some (s', (wake_thread token current h1, b1\<lparr>fair_timeout := f'\<rparr>), result, Some current)
        })
   }"

text \<open>\<open>unpark_all\<close>: every thread with the key is removed and its parker unlocked.\<close>

partial_function (option) unpark_all_loop ::
    "usize \<Rightarrow> usize \<Rightarrow> link \<Rightarrow> td_ptr \<Rightarrow> td_ptr \<Rightarrow> tid list \<Rightarrow> heap \<times> Bucket
       \<Rightarrow> ((heap \<times> Bucket) \<times> tid list) option" where
  "unpark_all_loop k token lnk previous current threads hb = (case current of
     None \<Rightarrow> Some (hb, threads)
   | Some c \<Rightarrow>
       if key (fst hb c) = k then
         (let next = next_in_queue (fst hb c);
              (h1, b1) = remove_current lnk previous c hb
          in unpark_all_loop k token lnk previous next (threads @ [c]) (wake_thread token c h1, b1))
       else unpark_all_loop k token (NextOf c) (Some c) (next_in_queue (fst hb c)) threads hb)"

definition unpark_all_bucket ::
    "usize \<Rightarrow> usize \<Rightarrow> heap \<times> Bucket \<Rightarrow> ((heap \<times> Bucket) \<times> tid list) option" where
  "unpark_all_bucket k token hb =
     unpark_all_loop k token QueueHead None (queue_head (snd hb)) [] hb"

text \<open>
  \<open>unpark_filter\<close>: the filter is a closure with a state of its own; it decides for each
  thread with the key whether it is unparked, skipped, or the scan stops.
\<close>

partial_function (option) unpark_filter_loop ::
    "usize \<Rightarrow> ('f \<Rightarrow> usize \<Rightarrow> 'f \<times> FilterOp) \<Rightarrow> link \<Rightarrow> td_ptr \<Rightarrow> td_ptr \<Rightarrow> 'f \<Rightarrow> tid list
       \<Rightarrow> bool \<Rightarrow> heap \<times> Bucket \<Rightarrow> ((heap \<times> Bucket) \<times> 'f \<times> tid list \<times> bool) option" where
  "unpark_filter_loop k flt lnk previous current fs threads hm hb = (case current of
     None \<Rightarrow> Some (hb, fs, threads, hm)
   | Some c \<Rightarrow>
       if key (fst hb c) = k then
         (let next = next_in_queue (fst hb c); (fs', fop) = flt fs (park_token (fst hb c))
          in case fop of
             Unpark \<Rightarrow> unpark_filter_loop k flt lnk previous next fs' (threads @ [c]) hm
                         (remove_current lnk previous c hb)
           | Skip \<Rightarrow> unpark_filter_loop k flt (NextOf c) (Some c) next fs' threads True hb
           | Stop \<Rightarrow> Some (hb, fs', threads, True))
       else unpark_filter_loop k flt (NextOf c) (Some c) (next_in_queue (fst hb c)) fs threads hm hb)"

definition unpark_filter_bucket ::
    "usize \<Rightarrow> nat \<Rightarrow> ('f \<Rightarrow> usize \<Rightarrow> 'f \<times> FilterOp) \<Rightarrow> 'f
       \<Rightarrow> ('f \<Rightarrow> UnparkResult \<Rightarrow> 's \<Rightarrow> 's \<times> usize) \<Rightarrow> 's \<Rightarrow> heap \<times> Bucket
       \<Rightarrow> ('s \<times> (heap \<times> Bucket) \<times> UnparkResult \<times> tid list) option" where
  "unpark_filter_bucket k now flt fs callback s hb = do {
     ((h1, b1), fs', threads, more) \<leftarrow>
        unpark_filter_loop k flt QueueHead None (queue_head (snd hb)) fs [] False hb;
     let (fair, f') = (if threads \<noteq> [] then should_timeout now (fair_timeout b1)
                       else (False, fair_timeout b1));
     let result = UnparkResult_default\<lparr>unparked_threads := length threads,
                    have_more_threads := more, be_fair := fair\<rparr>;
     let (s', token) = callback fs' result s;
     Some (s', (fold (wake_thread token) threads h1, b1\<lparr>fair_timeout := f'\<rparr>), result, threads)
   }"

text \<open>
  \<open>unpark_requeue\<close>: the loop over the source bucket builds the chain of requeued threads
  through their \<open>next_in_queue\<close> fields. The two buckets are entries of one table and may
  be the same entry, so the second half works on the table.
\<close>

record requeue_acc =
  requeue_threads :: td_ptr
  requeue_threads_tail :: td_ptr
  wakeup_thread :: "tid option"
  req_result :: UnparkResult

definition requeue_start :: requeue_acc where
  "requeue_start = \<lparr>requeue_threads = None, requeue_threads_tail = None, wakeup_thread = None,
     req_result = UnparkResult_default\<rparr>"

definition requeue_add :: "usize \<Rightarrow> tid \<Rightarrow> heap \<times> requeue_acc \<Rightarrow> heap \<times> requeue_acc" where
  "requeue_add key_to current ha =
     (let (h, a) = ha;
          (h1, a1) = (case requeue_threads a of
             None \<Rightarrow> (h, a\<lparr>requeue_threads := Some current\<rparr>)
           | Some _ \<Rightarrow> ((case requeue_threads_tail a of None \<Rightarrow> h
                         | Some tail \<Rightarrow> set_next tail (Some current) h), a));
          res = req_result a1
      in (h1(current := (h1 current)\<lparr>key := key_to\<rparr>),
          a1\<lparr>requeue_threads_tail := Some current,
             req_result := res\<lparr>requeued_threads := requeued_threads res + 1\<rparr>\<rparr>))"

partial_function (option) requeue_loop ::
    "usize \<Rightarrow> usize \<Rightarrow> RequeueOp \<Rightarrow> link \<Rightarrow> td_ptr \<Rightarrow> td_ptr \<Rightarrow> requeue_acc \<Rightarrow> heap \<times> Bucket
       \<Rightarrow> ((heap \<times> Bucket) \<times> requeue_acc) option" where
  "requeue_loop key_from key_to op lnk previous current a hb = (case current of
     None \<Rightarrow> Some (hb, a)
   | Some c \<Rightarrow>
       if key (fst hb c) = key_from then
         (let next = next_in_queue (fst hb c);
              (h1, b1) = remove_current lnk previous c hb;
              (h2, a2) =
                (if (op = UnparkOneRequeueRest \<or> op = UnparkOne) \<and> wakeup_thread a = None
                 then (h1, a\<lparr>wakeup_thread := Some c,
                             req_result := (req_result a)\<lparr>unparked_threads := 1\<rparr>\<rparr>)
                 else requeue_add key_to c (h1, a))
          in if op = UnparkOne \<or> op = RequeueOne then
               Option.bind (scan_key h2 key_from next) (\<lambda>more.
                 Some ((h2, b1), if more
                   then a2\<lparr>req_result := (req_result a2)\<lparr>have_more_threads := True\<rparr>\<rparr> else a2))
             else requeue_loop key_from key_to op lnk previous next a2 (h2, b1))
       else requeue_loop key_from key_to op (NextOf c) (Some c) (next_in_queue (fst hb c)) a hb)"

text \<open>The chain of requeued threads is appended to the target bucket, which may be the
  source bucket.\<close>

definition requeue_link :: "nat \<Rightarrow> requeue_acc \<Rightarrow> heap \<times> Bucket list \<Rightarrow> heap \<times> Bucket list" where
  "requeue_link to a hbs = (case (requeue_threads a, requeue_threads_tail a) of
      (Some first, Some last_t) \<Rightarrow>
        (let (h', b') = append_chain first last_t (set_next last_t None (fst hbs), snd hbs ! to)
         in (h', (snd hbs)[to := b']))
    | _ \<Rightarrow> hbs)"

definition unpark_requeue_table ::
    "usize \<Rightarrow> usize \<Rightarrow> nat \<Rightarrow> nat \<Rightarrow> nat \<Rightarrow> ('s \<Rightarrow> 's \<times> RequeueOp)
       \<Rightarrow> (RequeueOp \<Rightarrow> UnparkResult \<Rightarrow> 's \<Rightarrow> 's \<times> usize) \<Rightarrow> 's \<Rightarrow> heap \<times> Bucket list
       \<Rightarrow> ('s \<times> (heap \<times> Bucket list) \<times> UnparkResult \<times> tid option) option" where
  "unpark_requeue_table key_from key_to from to now validate callback s hbs =
     (let (s1, op) = validate s in
      if op = Abort then Some (s1, hbs, UnparkResult_default, None)
      else do {
        let (h, bs) = hbs;
        ((h1, b1), a) \<leftarrow>
          requeue_loop key_from key_to op QueueHead None (queue_head (bs ! from)) requeue_start
            (h, bs ! from);
        let bs1 = bs[from := b1];
        let (h2, bs2) = requeue_link to a (h1, bs1);
        let (fair, f') = (if unparked_threads (req_result a) \<noteq> 0
             then should_timeout now (fair_timeout (bs2 ! from))
             else (False, fair_timeout (bs2 ! from)));
        let bs3 = bs2[from := (bs2 ! from)\<lparr>fair_timeout := f'\<rparr>];
        let result = (req_result a)\<lparr>be_fair := fair\<rparr>;
        let (s2, token) = callback op result s1;
        Some (s2, ((case wakeup_thread a of None \<Rightarrow> h2 | Some t \<Rightarrow> wake_thread token t h2), bs3),
              result, wakeup_thread a)
      })"

text \<open>The removal of a thread whose wait timed out, at the end of \<open>park\<close>.\<close>

partial_function (option) find_self ::
    "heap \<Rightarrow> usize \<Rightarrow> tid \<Rightarrow> link \<Rightarrow> td_ptr \<Rightarrow> td_ptr \<Rightarrow> bool
       \<Rightarrow> (link \<times> td_ptr \<times> bool) option option" where
  "find_self h k self lnk previous current was_last = (case current of
     None \<Rightarrow> Some None
   | Some c \<Rightarrow> if c = self then Some (Some (lnk, previous, was_last))
       else find_self h k self (NextOf c) (Some c) (next_in_queue (h c))
              (was_last \<and> key (h c) \<noteq> k))"

definition timeout_remove_bucket ::
    "tid \<Rightarrow> usize \<Rightarrow> (usize \<Rightarrow> bool \<Rightarrow> 's \<Rightarrow> 's) \<Rightarrow> 's \<Rightarrow> heap \<times> Bucket
       \<Rightarrow> ('s \<times> (heap \<times> Bucket)) option" where
  "timeout_remove_bucket self k timed_out_cb s hb = do {
     r \<leftarrow> find_self (fst hb) k self QueueHead None (queue_head (snd hb)) True;
     (case r of
        None \<Rightarrow> Some (s, hb)
      | Some (lnk, previous, was_last) \<Rightarrow> do {
          let next = next_in_queue (fst hb self);
          let (h1, b1) = remove_current lnk previous self hb;
          other \<leftarrow> (if queue_tail (snd hb) = Some self then Some False else scan_key h1 k next);
          Some (timed_out_cb k (was_last \<and> \<not> other) s, (h1, b1))
        })
   }"

text \<open>
  \<open>rehash_bucket_into\<close>: every thread of the bucket is appended to the bucket of the new
  table its key belongs to. A hash outside the table is the index panic \<open>None\<close>.
\<close>

definition rehash_thread :: "tid \<Rightarrow> heap \<times> HashTable \<Rightarrow> (heap \<times> HashTable) option" where
  "rehash_thread current ht =
     (let (h, tb) = ht in
      case hash (key (h current)) (hash_bits tb) of
        None \<Rightarrow> None
      | Some i \<Rightarrow>
        if i < length (entries tb) then
          (let b = entries tb ! i;
               (h1, b1) = (case queue_tail b of
                  None \<Rightarrow> (h, b\<lparr>queue_head := Some current\<rparr>)
                | Some tail \<Rightarrow> (set_next tail (Some current) h, b));
               b2 = b1\<lparr>queue_tail := Some current\<rparr>
           in Some (set_next current None h1, tb\<lparr>entries := (entries tb)[i := b2]\<rparr>))
        else None)"

partial_function (option) rehash_bucket_into ::
    "td_ptr \<Rightarrow> heap \<times> HashTable \<Rightarrow> (heap \<times> HashTable) option" where
  "rehash_bucket_into current ht = (case current of
     None \<Rightarrow> Some ht
   | Some c \<Rightarrow>
       (let next = next_in_queue (fst ht c)
        in Option.bind (rehash_thread c ht) (rehash_bucket_into next)))"

section \<open>Linked lists\<close>

fun lst :: "heap \<Rightarrow> td_ptr \<Rightarrow> tid list \<Rightarrow> bool" where
  "lst h p [] = (p = None)"
| "lst h p (t # ts) = (p = Some t \<and> lst h (next_in_queue (h t)) ts)"

fun seg :: "heap \<Rightarrow> td_ptr \<Rightarrow> tid list \<Rightarrow> td_ptr \<Rightarrow> bool" where
  "seg h p [] q = (p = q)"
| "seg h p (t # ts) q = (p = Some t \<and> seg h (next_in_queue (h t)) ts q)"

definition last_ptr :: "tid list \<Rightarrow> td_ptr" where
  "last_ptr ts = (if ts = [] then None else Some (last ts))"

definition link_after :: "tid list \<Rightarrow> link" where
  "link_after ts = (if ts = [] then QueueHead else NextOf (last ts))"

definition bucket_queue :: "heap \<times> Bucket \<Rightarrow> tid list \<Rightarrow> bool" where
  "bucket_queue hb q \<longleftrightarrow>
     lst (fst hb) (queue_head (snd hb)) q \<and> queue_tail (snd hb) = last_ptr q \<and> distinct q"

lemma lst_append: "lst h p (us @ vs) \<longleftrightarrow> (\<exists>q. seg h p us q \<and> lst h q vs)"
  by (induction us arbitrary: p) auto

lemma seg_append: "seg h p (us @ vs) r \<longleftrightarrow> (\<exists>q. seg h p us q \<and> seg h q vs r)"
  by (induction us arbitrary: p) auto

lemma lst_seg: "lst h p ts \<longleftrightarrow> seg h p ts None"
  by (induction ts arbitrary: p) auto

lemma lst_cong:
  "(\<And>t. t \<in> set ts \<Longrightarrow> next_in_queue (h' t) = next_in_queue (h t)) \<Longrightarrow> lst h' p ts = lst h p ts"
  by (induction ts arbitrary: p) auto

lemma seg_cong:
  "(\<And>t. t \<in> set ts \<Longrightarrow> next_in_queue (h' t) = next_in_queue (h t)) \<Longrightarrow> seg h' p ts q = seg h p ts q"
  by (induction ts arbitrary: p) auto

lemma seg_det: "seg h p ts q \<Longrightarrow> seg h p ts r \<Longrightarrow> q = r"
  by (induction ts arbitrary: p) auto

lemma lst_unique: "lst h p us \<Longrightarrow> lst h p vs \<Longrightarrow> us = vs"
proof (induction us arbitrary: p vs)
  case Nil
  then show ?case by (cases vs) auto
next
  case (Cons u us)
  then show ?case by (cases vs) auto
qed

end
