(* ===== verification/Bucket_Refine.thy ===== *)
theory Bucket_Refine
  imports Bucket_Queue
begin

text \<open>
  The loops of \<open>Bucket_Queue\<close> against lists: on a bucket whose linked list represents a
  queue, every operation returns, leaves a bucket that represents the expected queue
  again, and changes no field of any thread beyond those the source writes.
\<close>

section \<open>Frames\<close>

text \<open>The data of a thread apart from its queue pointer.\<close>

definition td_data :: "ThreadData \<Rightarrow> ThreadData" where
  "td_data td = td\<lparr>next_in_queue := None\<rparr>"

lemma td_data_eqD:
  assumes "td_data x = td_data y"
  shows "parker x = parker y" "key x = key y" "unpark_token x = unpark_token y"
    "park_token x = park_token y" "parked_with_timeout x = parked_with_timeout y"
  using assms by (cases x; cases y; simp add: td_data_def)+

lemma td_data_set_next [simp]: "td_data (set_next t p h u) = td_data (h u)"
  by (simp add: set_next_def td_data_def)

lemma key_set_next [simp]: "key (set_next t p h u) = key (h u)"
  by (simp add: set_next_def)

lemma park_token_set_next [simp]: "park_token (set_next t p h u) = park_token (h u)"
  by (simp add: set_next_def)

lemma next_set_next [simp]:
  "next_in_queue (set_next t p h u) = (if u = t then p else next_in_queue (h u))"
  by (simp add: set_next_def)

lemma lst_set_next [simp]: "t \<notin> set ts \<Longrightarrow> lst (set_next t p h) q ts = lst h q ts"
  by (rule lst_cong) auto

lemma seg_set_next [simp]: "t \<notin> set ts \<Longrightarrow> seg (set_next t p h) q ts r = seg h q ts r"
  by (rule seg_cong) auto

lemma lst_fun_upd [simp]: "t \<notin> set ts \<Longrightarrow> lst (h(t := x)) p ts = lst h p ts"
  by (rule lst_cong) auto

lemma last_ptr_simps [simp]:
  "last_ptr [] = None" "last_ptr (us @ [t]) = Some t" "ts \<noteq> [] \<Longrightarrow> last_ptr (us @ ts) = last_ptr ts"
  "ts \<noteq> [] \<Longrightarrow> last_ptr (u # ts) = last_ptr ts"
  by (auto simp: last_ptr_def)

lemma link_after_simps [simp]:
  "link_after [] = QueueHead" "link_after (us @ [t]) = NextOf t"
  by (auto simp: link_after_def)

lemma last_ptr_eq_Some: "last_ptr ts = Some t \<longleftrightarrow> ts \<noteq> [] \<and> last ts = t"
  by (auto simp: last_ptr_def)

lemma bucket_queueD:
  assumes "bucket_queue (h, b) q"
  shows "lst h (queue_head b) q" "queue_tail b = last_ptr q" "distinct q"
  using assms by (auto simp: bucket_queue_def)

lemma wake_thread_data [simp]:
  "td_data (wake_thread token t h u) =
     (if u = t then wake_data token (td_data (h u)) else td_data (h u))"
  by (simp add: wake_thread_def wake_data_def td_data_def)

lemma wake_thread_next [simp]: "next_in_queue (wake_thread token t h u) = next_in_queue (h u)"
  by (simp add: wake_thread_def wake_data_def)

lemma wake_thread_key [simp]: "key (wake_thread token t h u) = key (h u)"
  by (simp add: wake_thread_def wake_data_def)

lemma lst_wake [simp]: "lst (wake_thread token t h) p q = lst h p q"
  by (rule lst_cong) simp

section \<open>Removal and insertion\<close>

lemma remove_current_queue:
  assumes q: "bucket_queue (h, b) (us @ c # vs)"
    and r: "remove_current (link_after us) (last_ptr us) c (h, b) = (h1, b1)"
  shows "bucket_queue (h1, b1) (us @ vs)"
    and "\<And>u. td_data (h1 u) = td_data (h u)"
    and "\<And>u. u \<notin> set us \<Longrightarrow> next_in_queue (h1 u) = next_in_queue (h u)"
    and "fair_timeout b1 = fair_timeout b" and "mutex b1 = mutex b"
    and "lst h1 (next_in_queue (h c)) vs"
proof -
  have l: "lst h (queue_head b) (us @ c # vs)" and t: "queue_tail b = last_ptr (c # vs)"
    and d: "distinct (us @ c # vs)"
    using bucket_queueD [OF q] by (auto simp del: lst.simps)
  show "bucket_queue (h1, b1) (us @ vs) "
  proof (cases us rule: rev_cases)
    case Nil
    with l t d r show ?thesis
      by (auto simp: remove_current_def bucket_queue_def last_ptr_def split: if_splits)
  next
    case (snoc ws w)
    have s: "seg h (queue_head b) ws (Some w)" and n: "next_in_queue (h w) = Some c"
      and v: "lst h (next_in_queue (h c)) vs"
      using l by (auto simp: snoc lst_append)
    have h1: "h1 = set_next w (next_in_queue (h c)) h"
      and b1: "queue_head b1 = queue_head b"
        "queue_tail b1 = (if vs = [] then Some w else queue_tail b)"
      using r t d by (auto simp: remove_current_def snoc last_ptr_def split: if_splits)
    have "lst h1 (queue_head b1) (ws @ w # vs)"
      unfolding lst_append h1 b1 using s v d by (intro exI [of _ "Some w"]) (simp add: snoc)
    then show ?thesis
      using t d b1 by (auto simp: bucket_queue_def snoc last_ptr_def)
  qed
  show fr: "\<And>u. td_data (h1 u) = td_data (h u)"
    "\<And>u. u \<notin> set us \<Longrightarrow> next_in_queue (h1 u) = next_in_queue (h u)"
    "fair_timeout b1 = fair_timeout b" "mutex b1 = mutex b"
    using r by (cases us rule: rev_cases; auto simp: remove_current_def split: if_splits)+
  have "lst h (next_in_queue (h c)) vs" using l by (auto simp: lst_append)
  moreover have "next_in_queue (h1 t) = next_in_queue (h t)" if "t \<in> set vs" for t
    using that d by (intro fr) auto
  ultimately show "lst h1 (next_in_queue (h c)) vs"
    using lst_cong [of vs h1 h] by simp
qed

lemma append_chain_queue:
  assumes q: "bucket_queue (h, b) q"
    and c: "lst h (Some first) cs" and l: "last_ptr cs = Some last_t"
    and d: "distinct cs" "set q \<inter> set cs = {}"
    and r: "append_chain first last_t (h, b) = (h1, b1)"
  shows "bucket_queue (h1, b1) (q @ cs)"
    and "\<And>u. td_data (h1 u) = td_data (h u)"
    and "\<And>u. u \<notin> set q \<Longrightarrow> next_in_queue (h1 u) = next_in_queue (h u)"
    and "fair_timeout b1 = fair_timeout b" and "mutex b1 = mutex b"
proof -
  have ql: "lst h (queue_head b) q" and t: "queue_tail b = last_ptr q" and dq: "distinct q"
    using bucket_queueD [OF q] by auto
  have cs: "cs \<noteq> []" using c by (cases cs) auto
  show "bucket_queue (h1, b1) (q @ cs)"
  proof (cases q rule: rev_cases)
    case Nil
    with ql t dq r c l d cs show ?thesis by (auto simp: append_chain_def bucket_queue_def)
  next
    case (snoc ws w)
    have s: "seg h (queue_head b) ws (Some w)"
      using ql by (auto simp: snoc lst_append)
    then have "queue_head b \<noteq> None" by (cases ws) auto
    then have h1: "h1 = set_next w (Some first) h"
      and b1: "queue_head b1 = queue_head b" "queue_tail b1 = Some last_t"
      using r t by (auto simp: append_chain_def snoc split: option.splits)
    have "lst h1 (queue_head b1) (ws @ w # cs)"
      unfolding lst_append h1 b1 using s c d dq by (intro exI [of _ "Some w"]) (auto simp: snoc)
    then show ?thesis using b1 l d dq cs by (auto simp: bucket_queue_def snoc)
  qed
  show "\<And>u. td_data (h1 u) = td_data (h u)" "fair_timeout b1 = fair_timeout b" "mutex b1 = mutex b"
    using r by (auto simp: append_chain_def split: option.splits)
  show "\<And>u. u \<notin> set q \<Longrightarrow> next_in_queue (h1 u) = next_in_queue (h u)"
    using r t by (auto simp: append_chain_def last_ptr_def split: option.splits if_splits)
qed

lemma park_enqueue_queue:
  assumes q: "bucket_queue (h, b) q" and t: "t \<notin> set q"
    and r: "park_enqueue t k token timed (h, b) = (h1, b1)"
  shows "bucket_queue (h1, b1) (q @ [t])"
    and "\<And>u. u \<noteq> t \<Longrightarrow> td_data (h1 u) = td_data (h u)"
    and "td_data (h1 t) = \<lparr>parker = prepare_park (parker (h t)), key = k, next_in_queue = None,
      unpark_token = unpark_token (h t), park_token = token, parked_with_timeout = timed\<rparr>"
    and "\<And>u. u \<notin> set q \<Longrightarrow> u \<noteq> t \<Longrightarrow> next_in_queue (h1 u) = next_in_queue (h u)"
    and "fair_timeout b1 = fair_timeout b" and "mutex b1 = mutex b"
proof -
  define h0 where "h0 = h(t := (h t)\<lparr>parked_with_timeout := timed, next_in_queue := None, key := k,
                    park_token := token, parker := prepare_park (parker (h t))\<rparr>)"
  have r0: "append_chain t t (h0, b) = (h1, b1)"
    using r by (simp add: park_enqueue_def h0_def)
  have "bucket_queue (h0, b) q"
    using q t by (simp add: bucket_queue_def h0_def)
  moreover have "lst h0 (Some t) [t]" by (simp add: h0_def)
  ultimately have *: "bucket_queue (h1, b1) (q @ [t])" "\<And>u. td_data (h1 u) = td_data (h0 u)"
    "\<And>u. u \<notin> set q \<Longrightarrow> next_in_queue (h1 u) = next_in_queue (h0 u)"
    "fair_timeout b1 = fair_timeout b" "mutex b1 = mutex b"
    using append_chain_queue [OF _ _ _ _ _ r0, of q "[t]"] t by (auto simp: last_ptr_def)
  show "bucket_queue (h1, b1) (q @ [t])" "fair_timeout b1 = fair_timeout b" "mutex b1 = mutex b"
    by (fact *)+
  show "\<And>u. u \<noteq> t \<Longrightarrow> td_data (h1 u) = td_data (h u)"
    "\<And>u. u \<notin> set q \<Longrightarrow> u \<noteq> t \<Longrightarrow> next_in_queue (h1 u) = next_in_queue (h u)"
    "td_data (h1 t) = \<lparr>parker = prepare_park (parker (h t)), key = k, next_in_queue = None,
      unpark_token = unpark_token (h t), park_token = token, parked_with_timeout = timed\<rparr>"
    using * by (simp_all add: h0_def td_data_def)
qed

section \<open>Searches\<close>

lemma scan_key_lst: "lst h p vs \<Longrightarrow> scan_key h k p = Some (\<exists>t\<in>set vs. key (h t) = k)"
proof (induction vs arbitrary: p)
  case Nil
  then show ?case by (simp add: scan_key.simps)
next
  case (Cons v vs)
  then show ?case by (simp add: scan_key.simps [of h k "Some v"])
qed

lemma find_key_none:
  "lst h p vs \<Longrightarrow> \<forall>t\<in>set vs. key (h t) \<noteq> k \<Longrightarrow> find_key h k lnk prev p = Some None"
proof (induction vs arbitrary: p lnk prev)
  case Nil
  then show ?case by (simp add: find_key.simps)
next
  case (Cons v vs)
  then show ?case by (simp add: find_key.simps [of h k _ _ "Some v"])
qed

lemma find_key_found:
  assumes "lst h p (vs @ c # ws)" "\<forall>t\<in>set vs. key (h t) \<noteq> k" "key (h c) = k"
  shows "find_key h k (link_after us) (last_ptr us) p =
    Some (Some (link_after (us @ vs), last_ptr (us @ vs), c))"
  using assms
proof (induction vs arbitrary: p us)
  case Nil
  then show ?case by (simp add: find_key.simps)
next
  case (Cons v vs)
  from Cons.IH [of "next_in_queue (h v)" "us @ [v]"] Cons.prems show ?case
    by (simp add: find_key.simps [of h k _ _ "Some v"])
qed

section \<open>unpark\_one\<close>

lemma filter_key_data:
  assumes "\<And>u. td_data (h' u) = td_data (h u)"
  shows "filter (\<lambda>t. key (h' t) = k) ts = filter (\<lambda>t. key (h t) = k) ts"
  using td_data_eqD(2) [OF assms] by simp

lemma bucket_queue_wake [simp]:
  "bucket_queue (wake_thread token t h, b) q = bucket_queue (h, b) q"
  using lst_cong [of q "wake_thread token t h" h] by (simp add: bucket_queue_def)

lemma bucket_queue_fair [simp]:
  "bucket_queue (h, b\<lparr>fair_timeout := f\<rparr>) q = bucket_queue (h, b) q"
  by (simp add: bucket_queue_def)

lemma unpark_one_bucket_none:
  assumes q: "bucket_queue (h, b) q" and none: "\<forall>t\<in>set q. key (h t) \<noteq> k"
  shows "unpark_one_bucket k now cb s (h, b) =
    Some (fst (cb UnparkResult_default s), (h, b), UnparkResult_default, None)"
  using find_key_none [OF bucket_queueD(1) [OF q] none]
  by (simp add: unpark_one_bucket_def)

text \<open>What \<open>unpark_one\<close> reports for a queue whose first match is followed by \<open>vs\<close>.\<close>

definition unpark_one_result :: "heap \<Rightarrow> usize \<Rightarrow> tid list \<Rightarrow> bool \<Rightarrow> UnparkResult" where
  "unpark_one_result h k vs fair = \<lparr>unparked_threads = 1, requeued_threads = 0,
     have_more_threads = (\<exists>t\<in>set vs. key (h t) = k), be_fair = fair\<rparr>"

lemma unpark_one_bucket_found:
  assumes q: "bucket_queue (h, b) (us @ c # vs)"
    and c: "key (h c) = k" and us: "\<forall>t\<in>set us. key (h t) \<noteq> k"
    and fair: "should_timeout now (fair_timeout b) = (fair, f')"
    and cb: "cb (unpark_one_result h k vs fair) s = (s', token)"
  shows "\<exists>h' b'. unpark_one_bucket k now cb s (h, b) =
      Some (s', (h', b'), unpark_one_result h k vs fair, Some c)
    \<and> bucket_queue (h', b') (us @ vs)
    \<and> (\<forall>u. u \<noteq> c \<longrightarrow> td_data (h' u) = td_data (h u))
    \<and> td_data (h' c) = wake_data token (td_data (h c))
    \<and> (\<forall>u. u \<notin> set us \<longrightarrow> next_in_queue (h' u) = next_in_queue (h u))
    \<and> fair_timeout b' = f' \<and> mutex b' = mutex b"
proof -
  obtain h1 b1 where r: "remove_current (link_after us) (last_ptr us) c (h, b) = (h1, b1)"
    by (cases "remove_current (link_after us) (last_ptr us) c (h, b)")
  note rc = remove_current_queue [OF q r]
  have l: "lst h (queue_head b) (us @ c # vs)" and tl: "queue_tail b = last_ptr (c # vs)"
    and d: "distinct (us @ c # vs)"
    using bucket_queueD [OF q] by (auto simp del: lst.simps)
  have f: "find_key h k QueueHead None (queue_head b) = Some (Some (link_after us, last_ptr us, c))"
    using find_key_found [OF l us c, of "[]"] by simp
  have scan: "scan_key h1 k (next_in_queue (h c)) = Some (\<exists>t\<in>set vs. key (h1 t) = k)"
    using rc(6) by (rule scan_key_lst)
  have ks: "key (h1 t) = key (h t)" for t using td_data_eqD(2) [OF rc(2)] .
  have more: "(if queue_tail b = Some c then Some False else scan_key h1 k (next_in_queue (h c)))
      = Some (\<exists>t\<in>set vs. key (h t) = k)"
    using tl d by (cases "vs = []") (auto simp: scan ks last_ptr_def)
  have "unpark_one_bucket k now cb s (h, b) = Some (s', (wake_thread token c h1, b1\<lparr>fair_timeout := f'\<rparr>),
      unpark_one_result h k vs fair, Some c)"
    using f r fair cb more
    by (simp add: unpark_one_bucket_def rc unpark_one_result_def UnparkResult_default_def)
  moreover have "td_data (wake_thread token c h1 u) = td_data (h u)" if "u \<noteq> c" for u
    using that rc(2) by simp
  moreover have "td_data (wake_thread token c h1 c) =
      wake_data token (td_data (h c))"
    using rc(2) [of c] by simp
  moreover have "next_in_queue (wake_thread token c h1 u) = next_in_queue (h u)" if "u \<notin> set us" for u
    using that rc(3) [of u] by simp
  ultimately show ?thesis
    using rc(1,5) by (intro exI [of _ "wake_thread token c h1"] exI [of _ "b1\<lparr>fair_timeout := f'\<rparr>"]) simp
qed

section \<open>unpark\_all\<close>

lemma remove_current_cases:
  obtains h1 b1 where "remove_current lnk prev c hb = (h1, b1)"
  by (cases "remove_current lnk prev c hb")

lemma unpark_all_loop_queue:
  assumes "bucket_queue (h, b) (us @ vs)" and "lst h p vs"
  shows "\<exists>h' b'. unpark_all_loop k token (link_after us) (last_ptr us) p threads (h, b) =
      Some ((h', b'), threads @ filter (\<lambda>t. key (h t) = k) vs)
    \<and> bucket_queue (h', b') (us @ filter (\<lambda>t. key (h t) \<noteq> k) vs)
    \<and> (\<forall>u. td_data (h' u) =
          (if u \<in> set vs \<and> key (h u) = k then wake_data token (td_data (h u)) else td_data (h u)))
    \<and> (\<forall>u. u \<notin> set (us @ vs) \<longrightarrow> next_in_queue (h' u) = next_in_queue (h u))
    \<and> fair_timeout b' = fair_timeout b \<and> mutex b' = mutex b"
  using assms
proof (induction vs arbitrary: us h b p threads)
  case Nil
  then show ?case by (simp add: unpark_all_loop.simps)
next
  case (Cons c vs)
  have p: "p = Some c" and v: "lst h (next_in_queue (h c)) vs" using Cons.prems(2) by auto
  have d: "distinct (us @ c # vs)" using Cons.prems(1) by (rule bucket_queueD)
  show ?case
  proof (cases "key (h c) = k")
    case True
    obtain h1 b1 where r: "remove_current (link_after us) (last_ptr us) c (h, b) = (h1, b1)"
      by (rule remove_current_cases)
    note rc = remove_current_queue [OF Cons.prems(1) r]
    have ks: "key (h1 t) = key (h t)" for t using td_data_eqD(2) [OF rc(2)] .
    have q2: "bucket_queue (wake_thread token c h1, b1) (us @ vs)"
      "lst (wake_thread token c h1) (next_in_queue (h c)) vs"
      using rc(1,6) by simp_all
    from Cons.IH [OF q2, of "threads @ [c]"] obtain h' b' where
      IH: "unpark_all_loop k token (link_after us) (last_ptr us) (next_in_queue (h c)) (threads @ [c])
          (wake_thread token c h1, b1) =
          Some ((h', b'), (threads @ [c]) @ filter (\<lambda>t. key (h t) = k) vs)"
        "bucket_queue (h', b') (us @ filter (\<lambda>t. key (h t) \<noteq> k) vs)"
        "\<And>u. td_data (h' u) = (if u \<in> set vs \<and> key (h u) = k
           then wake_data token (td_data (wake_thread token c h1 u))
           else td_data (wake_thread token c h1 u))"
        "\<And>u. u \<notin> set (us @ vs) \<Longrightarrow> next_in_queue (h' u) = next_in_queue (h1 u)"
        "fair_timeout b' = fair_timeout b1" "mutex b' = mutex b1"
      by (auto simp: ks)
    have "unpark_all_loop k token (link_after us) (last_ptr us) p threads (h, b) =
        Some ((h', b'), threads @ filter (\<lambda>t. key (h t) = k) (c # vs))"
      using IH(1) True r by (simp add: unpark_all_loop.simps [of _ _ _ _ "Some c"] p)
    moreover have "td_data (h' u) = (if u \<in> set (c # vs) \<and> key (h u) = k
        then wake_data token (td_data (h u)) else td_data (h u))" for u
      using IH(3) [of u] rc(2) [of u] d True by auto
    ultimately show ?thesis
      using IH(2,4-6) rc(3-5) True by (intro exI [of _ h'] exI [of _ b']) auto
  next
    case False
    have q2: "bucket_queue (h, b) ((us @ [c]) @ vs)" using Cons.prems(1) by simp
    from Cons.IH [OF q2 v, of threads] obtain h' b' where
      IH: "unpark_all_loop k token (NextOf c) (Some c) (next_in_queue (h c)) threads (h, b) =
          Some ((h', b'), threads @ filter (\<lambda>t. key (h t) = k) vs)"
        "bucket_queue (h', b') (us @ c # filter (\<lambda>t. key (h t) \<noteq> k) vs)"
        "\<And>u. td_data (h' u) = (if u \<in> set vs \<and> key (h u) = k
           then wake_data token (td_data (h u)) else td_data (h u))"
        "\<And>u. u \<notin> set (us @ c # vs) \<Longrightarrow> next_in_queue (h' u) = next_in_queue (h u)"
        "fair_timeout b' = fair_timeout b" "mutex b' = mutex b"
      by auto
    have "unpark_all_loop k token (link_after us) (last_ptr us) p threads (h, b) =
        Some ((h', b'), threads @ filter (\<lambda>t. key (h t) = k) (c # vs))"
      using IH(1) False by (simp add: unpark_all_loop.simps [of _ _ _ _ "Some c"] p)
    then show ?thesis
      using IH(2-6) False by (intro exI [of _ h'] exI [of _ b']) auto
  qed
qed

lemma unpark_all_bucket_queue:
  assumes "bucket_queue (h, b) q"
  shows "\<exists>h' b'. unpark_all_bucket k token (h, b) = Some ((h', b'), filter (\<lambda>t. key (h t) = k) q)
    \<and> bucket_queue (h', b') (filter (\<lambda>t. key (h t) \<noteq> k) q)
    \<and> (\<forall>u. td_data (h' u) =
          (if u \<in> set q \<and> key (h u) = k then wake_data token (td_data (h u)) else td_data (h u)))
    \<and> (\<forall>u. u \<notin> set q \<longrightarrow> next_in_queue (h' u) = next_in_queue (h u))
    \<and> fair_timeout b' = fair_timeout b \<and> mutex b' = mutex b"
  using unpark_all_loop_queue [of h b "[]" q "queue_head b" k token "[]"] assms
    bucket_queueD(1) [OF assms]
  by (simp add: unpark_all_bucket_def)

section \<open>unpark\_filter\<close>

text \<open>
  The filter run over a list: the final state of the closure, the threads it unparks,
  the threads that stay, and whether one was skipped or stopped at.
\<close>

fun filter_run ::
    "('f \<Rightarrow> usize \<Rightarrow> 'f \<times> FilterOp) \<Rightarrow> (tid \<Rightarrow> usize) \<Rightarrow> (tid \<Rightarrow> bool) \<Rightarrow> 'f \<Rightarrow> tid list
       \<Rightarrow> 'f \<times> tid list \<times> tid list \<times> bool" where
  "filter_run flt tok P fs [] = (fs, [], [], False)"
| "filter_run flt tok P fs (t # ts) =
     (if P t then
        (case flt fs (tok t) of
           (fs', Unpark) \<Rightarrow> (let (f2, us, rs, m) = filter_run flt tok P fs' ts in (f2, t # us, rs, m))
         | (fs', Skip) \<Rightarrow> (let (f2, us, rs, m) = filter_run flt tok P fs' ts in (f2, us, t # rs, True))
         | (fs', Stop) \<Rightarrow> (fs', [], t # ts, True))
      else (let (f2, us, rs, m) = filter_run flt tok P fs ts in (f2, us, t # rs, m)))"

lemma filter_run_cong:
  "(\<And>t. t \<in> set ts \<Longrightarrow> tok t = tok' t \<and> P t = P' t) \<Longrightarrow>
     filter_run flt tok P fs ts = filter_run flt tok' P' fs ts"
  by (induction flt tok P fs ts rule: filter_run.induct)
    (auto split: prod.splits FilterOp.splits)

lemma unpark_filter_loop_queue:
  assumes "bucket_queue (h, b) (us @ vs)" and "lst h p vs"
    and "filter_run flt (\<lambda>t. park_token (h t)) (\<lambda>t. key (h t) = k) fs vs = (fs', ws, rs, m)"
  shows "\<exists>h' b'. unpark_filter_loop k flt (link_after us) (last_ptr us) p fs threads hm (h, b) =
      Some ((h', b'), fs', threads @ ws, hm \<or> m)
    \<and> bucket_queue (h', b') (us @ rs)
    \<and> (\<forall>u. td_data (h' u) = td_data (h u))
    \<and> (\<forall>u. u \<notin> set (us @ vs) \<longrightarrow> next_in_queue (h' u) = next_in_queue (h u))
    \<and> fair_timeout b' = fair_timeout b \<and> mutex b' = mutex b"
  using assms
proof (induction vs arbitrary: us h b p threads fs ws rs m hm)
  case Nil
  then show ?case by (simp add: unpark_filter_loop.simps)
next
  case (Cons c vs)
  have p: "p = Some c" and v: "lst h (next_in_queue (h c)) vs" using Cons.prems(2) by auto
  have q2: "bucket_queue (h, b) ((us @ [c]) @ vs)" using Cons.prems(1) by simp
  note unf = unpark_filter_loop.simps [of _ _ _ _ "Some c"]
  show ?case
  proof (cases "key (h c) = k")
    case False
    then obtain rs' where run: "filter_run flt (\<lambda>t. park_token (h t)) (\<lambda>t. key (h t) = k) fs vs =
        (fs', ws, rs', m)" "rs = c # rs'"
      using Cons.prems(3) by (auto split: prod.splits)
    from Cons.IH [OF q2 v run(1), of threads hm] show ?thesis
      using False by (auto simp: unf p run)
  next
    case True
    obtain fs1 fop where f: "flt fs (park_token (h c)) = (fs1, fop)" by fastforce
    show ?thesis
    proof (cases fop)
      case Stop
      with True f Cons.prems show ?thesis
        by (intro exI [of _ h] exI [of _ b]) (auto simp: unf p)
    next
      case Skip
      with True f Cons.prems(3) obtain rs' m' where
        run: "filter_run flt (\<lambda>t. park_token (h t)) (\<lambda>t. key (h t) = k) fs1 vs = (fs', ws, rs', m')"
          "rs = c # rs'" "m"
        by (auto split: prod.splits)
      from Cons.IH [OF q2 v run(1), of threads True] show ?thesis
        using True f Skip run(2,3) by (auto simp: unf p)
    next
      case Unpark
      with True f Cons.prems(3) obtain ws' where
        run: "filter_run flt (\<lambda>t. park_token (h t)) (\<lambda>t. key (h t) = k) fs1 vs = (fs', ws', rs, m)"
          "ws = c # ws'"
        by (auto split: prod.splits)
      obtain h1 b1 where r: "remove_current (link_after us) (last_ptr us) c (h, b) = (h1, b1)"
        by (rule remove_current_cases)
      note rc = remove_current_queue [OF Cons.prems(1) r]
      have run1: "filter_run flt (\<lambda>t. park_token (h1 t)) (\<lambda>t. key (h1 t) = k) fs1 vs = (fs', ws', rs, m)"
        using run(1) td_data_eqD(2,4) [OF rc(2)] by simp
      from Cons.IH [OF rc(1) rc(6) run1, of "threads @ [c]" hm] show ?thesis
        using True f Unpark r run(2) rc(2-5) by (auto simp: unf p)
    qed
  qed
qed

lemma filter_run_split:
  assumes "filter_run flt tok P fs ts = (fs', ws, rs, m)" and "distinct ts"
  shows "set ws \<subseteq> {t \<in> set ts. P t}" and "rs = filter (\<lambda>t. t \<notin> set ws) ts"
    and "ws = filter (\<lambda>t. t \<in> set ws) ts" and "m \<longleftrightarrow> (\<exists>t\<in>set rs. P t)"
proof -
  have "set ws \<subseteq> {t \<in> set ts. P t} \<and> rs = filter (\<lambda>t. t \<notin> set ws) ts \<and>
      ws = filter (\<lambda>t. t \<in> set ws) ts \<and> (m \<longleftrightarrow> (\<exists>t\<in>set rs. P t))"
    using assms
  proof (induction ts arbitrary: fs fs' ws rs m)
    case Nil
    then show ?case by auto
  next
    case (Cons t ts)
    obtain fs1 fop where f: "flt fs (tok t) = (fs1, fop)" by fastforce
    have flip: "filter (\<lambda>u. u = t \<or> u \<in> X) ts = filter (\<lambda>u. u \<in> X) ts"
      "filter (\<lambda>u. u \<noteq> t \<and> u \<notin> X) ts = filter (\<lambda>u. u \<notin> X) ts" for X
      using Cons.prems(2) by (auto intro: filter_cong)
    obtain f2 us2 rs2 m2 where sub: "filter_run flt tok P fs1 ts = (f2, us2, rs2, m2)"
      by (metis prod_cases4)
    obtain f3 us3 rs3 m3 where sub': "filter_run flt tok P fs ts = (f3, us3, rs3, m3)"
      by (metis prod_cases4)
    have d: "t \<notin> set ts" "distinct ts" using Cons.prems(2) by auto
    from Cons.IH [OF sub d(2)] Cons.IH [OF sub' d(2)] Cons.prems(1) d(1) show ?case
      by (cases "P t"; cases fop) (auto simp: f sub sub' flip)
  qed
  then show "set ws \<subseteq> {t \<in> set ts. P t}" "rs = filter (\<lambda>t. t \<notin> set ws) ts"
    "ws = filter (\<lambda>t. t \<in> set ws) ts" "m \<longleftrightarrow> (\<exists>t\<in>set rs. P t)"
    by blast+
qed

lemma wake_data_idem [simp]: "wake_data token (wake_data token x) = wake_data token x"
  by (simp add: wake_data_def unpark_lock_def)

lemma fold_wake:
  "td_data (fold (wake_thread token) ws h u) =
     (if u \<in> set ws then wake_data token (td_data (h u)) else td_data (h u))"
  "next_in_queue (fold (wake_thread token) ws h u) = next_in_queue (h u)"
  by (induction ws arbitrary: h) auto

lemma bucket_queue_fold_wake [simp]:
  "bucket_queue (fold (wake_thread token) ws h, b) q = bucket_queue (h, b) q"
  by (induction ws arbitrary: h) auto

lemma unpark_filter_bucket_queue:
  assumes q: "bucket_queue (h, b) q"
    and run: "filter_run flt (\<lambda>t. park_token (h t)) (\<lambda>t. key (h t) = k) fs q = (fs', ws, rs, m)"
    and fair: "(if ws \<noteq> [] then should_timeout now (fair_timeout b) else (False, fair_timeout b)) =
      (fair, f')"
    and res: "res = \<lparr>unparked_threads = length ws, requeued_threads = 0, have_more_threads = m,
      be_fair = fair\<rparr>"
    and cb: "cb fs' res s = (s', token)"
  shows "\<exists>h' b'. unpark_filter_bucket k now flt fs cb s (h, b) = Some (s', (h', b'), res, ws)
    \<and> bucket_queue (h', b') rs
    \<and> (\<forall>u. td_data (h' u) = (if u \<in> set ws then wake_data token (td_data (h u)) else td_data (h u)))
    \<and> (\<forall>u. u \<notin> set q \<longrightarrow> next_in_queue (h' u) = next_in_queue (h u))
    \<and> fair_timeout b' = f' \<and> mutex b' = mutex b"
proof -
  obtain h1 b1 where loop:
      "unpark_filter_loop k flt QueueHead None (queue_head b) fs [] False (h, b) =
        Some ((h1, b1), fs', ws, m)"
      "bucket_queue (h1, b1) rs" "\<And>u. td_data (h1 u) = td_data (h u)"
      "\<And>u. u \<notin> set q \<Longrightarrow> next_in_queue (h1 u) = next_in_queue (h u)"
      "fair_timeout b1 = fair_timeout b" "mutex b1 = mutex b"
    using unpark_filter_loop_queue [of h b "[]" q "queue_head b" flt k fs fs' ws rs m "[]" False]
      q run bucket_queueD(1) [OF q] by auto
  have "unpark_filter_bucket k now flt fs cb s (h, b) =
      Some (s', (fold (wake_thread token) ws h1, b1\<lparr>fair_timeout := f'\<rparr>), res, ws)"
    using loop(1,5) fair cb
    by (cases "ws = []") (simp_all add: unpark_filter_bucket_def res UnparkResult_default_def)
  then show ?thesis
    using loop(2-6) by (intro exI [of _ "fold (wake_thread token) ws h1"]
        exI [of _ "b1\<lparr>fair_timeout := f'\<rparr>"]) (simp add: fold_wake)
qed

section \<open>The removal on timeout\<close>

lemma find_self_found:
  assumes "lst h p (vs @ t # ws)" "t \<notin> set vs"
  shows "find_self h k t (link_after us) (last_ptr us) p wl =
    Some (Some (link_after (us @ vs), last_ptr (us @ vs), wl \<and> (\<forall>u\<in>set vs. key (h u) \<noteq> k)))"
  using assms
proof (induction vs arbitrary: p us wl)
  case Nil
  then show ?case by (simp add: find_self.simps)
next
  case (Cons v vs)
  from Cons.IH [of "next_in_queue (h v)" "us @ [v]" "wl \<and> key (h v) \<noteq> k"] Cons.prems show ?case
    by (simp add: find_self.simps [of h k t _ _ "Some v"] conj_assoc)
qed

lemma timeout_remove_bucket_queue:
  assumes q: "bucket_queue (h, b) (us @ t # vs)"
  shows "\<exists>h' b'. timeout_remove_bucket t k cb s (h, b) =
      Some (cb k (\<forall>u\<in>set (us @ vs). key (h u) \<noteq> k) s, (h', b'))
    \<and> bucket_queue (h', b') (us @ vs)
    \<and> (\<forall>u. td_data (h' u) = td_data (h u))
    \<and> (\<forall>u. u \<notin> set us \<longrightarrow> next_in_queue (h' u) = next_in_queue (h u))
    \<and> fair_timeout b' = fair_timeout b \<and> mutex b' = mutex b"
proof -
  obtain h1 b1 where r: "remove_current (link_after us) (last_ptr us) t (h, b) = (h1, b1)"
    by (rule remove_current_cases)
  note rc = remove_current_queue [OF q r]
  have l: "lst h (queue_head b) (us @ t # vs)" and tl: "queue_tail b = last_ptr (t # vs)"
    and d: "distinct (us @ t # vs)"
    using bucket_queueD [OF q] by (auto simp del: lst.simps)
  have f: "find_self h k t QueueHead None (queue_head b) True =
      Some (Some (link_after us, last_ptr us, \<forall>u\<in>set us. key (h u) \<noteq> k))"
    using find_self_found [OF l, of k "[]" True] d by simp
  have scan: "scan_key h1 k (next_in_queue (h t)) = Some (\<exists>u\<in>set vs. key (h u) = k)"
    using scan_key_lst [OF rc(6), of k] td_data_eqD(2) [OF rc(2)] by simp
  have other: "(if queue_tail b = Some t then Some False else scan_key h1 k (next_in_queue (h t)))
      = Some (\<exists>u\<in>set vs. key (h u) = k)"
    using tl d by (cases "vs = []") (auto simp: scan last_ptr_def)
  have "timeout_remove_bucket t k cb s (h, b) =
      Some (cb k ((\<forall>u\<in>set us. key (h u) \<noteq> k) \<and> \<not> (\<exists>u\<in>set vs. key (h u) = k)) s, (h1, b1))"
    using f r other by (simp add: timeout_remove_bucket_def)
  also have "((\<forall>u\<in>set us. key (h u) \<noteq> k) \<and> \<not> (\<exists>u\<in>set vs. key (h u) = k)) =
      (\<forall>u\<in>set (us @ vs). key (h u) \<noteq> k)" by auto
  finally show ?thesis using rc(1-5) by (intro exI [of _ h1] exI [of _ b1]) simp
qed

end
