(* ===== verification/Requeue_Refine.thy ===== *)
theory Requeue_Refine
  imports Bucket_Refine
begin

text \<open>
  The loop of \<open>unpark_requeue\<close> against lists: which thread it wakes, which threads it
  moves to the target queue and in which order, and that the chain it builds through the
  \<open>next_in_queue\<close> fields represents them.
\<close>

section \<open>The chain of requeued threads\<close>

definition chain :: "heap \<Rightarrow> requeue_acc \<Rightarrow> tid list \<Rightarrow> bool" where
  "chain h a rs \<longleftrightarrow> requeue_threads_tail a = last_ptr rs \<and>
     (if rs = [] then requeue_threads a = None
      else requeue_threads a = Some (hd rs) \<and> seg h (Some (hd rs)) (butlast rs) (Some (last rs)))"

lemma chain_cong:
  assumes "\<And>t. t \<in> set rs \<Longrightarrow> next_in_queue (h' t) = next_in_queue (h t)"
  shows "chain h' a rs = chain h a rs"
proof -
  have "seg h' p (butlast rs) q = seg h p (butlast rs) q" for p q
    using assms by (intro seg_cong) (meson in_set_butlastD)
  then show ?thesis by (simp add: chain_def)
qed

lemma chain_acc_cong [simp]:
  "chain h (a\<lparr>wakeup_thread := w\<rparr>) rs = chain h a rs"
  "chain h (a\<lparr>req_result := r\<rparr>) rs = chain h a rs"
  by (simp_all add: chain_def)

lemma requeue_add_chain:
  assumes ch: "chain h a rs" and d: "distinct (rs @ [c])"
    and r: "requeue_add kt c (h, a) = (h', a')"
  shows "chain h' a' (rs @ [c])"
    and "\<And>u. td_data (h' u) = (if u = c then (td_data (h u))\<lparr>key := kt\<rparr> else td_data (h u))"
    and "\<And>u. u \<notin> set rs \<Longrightarrow> next_in_queue (h' u) = next_in_queue (h u)"
    and "wakeup_thread a' = wakeup_thread a"
    and "req_result a' = (req_result a)\<lparr>requeued_threads := requeued_threads (req_result a) + 1\<rparr>"
proof -
  show "chain h' a' (rs @ [c])"
  proof (cases rs rule: rev_cases)
    case Nil
    with ch r show ?thesis by (auto simp: chain_def requeue_add_def Let_def last_ptr_def)
  next
    case (snoc ws w)
    have h': "h' = (set_next w (Some c) h)(c := (set_next w (Some c) h c)\<lparr>key := kt\<rparr>)"
      and a': "requeue_threads a' = Some (hd rs)" "requeue_threads_tail a' = Some c"
      using ch r by (auto simp: chain_def requeue_add_def Let_def snoc)
    have "seg h (Some (hd rs)) ws (Some w)" using ch by (simp add: chain_def snoc)
    moreover have "seg h' p ws q = seg h p ws q" for p q
      using d by (intro seg_cong) (auto simp: h' snoc)
    ultimately have "seg h' (Some (hd rs)) ws (Some w)" by simp
    moreover have "next_in_queue (h' w) = Some c" using d by (auto simp: h' snoc)
    ultimately have "seg h' (Some (hd rs)) (ws @ [w]) (Some c)"
      unfolding seg_append by (intro exI [of _ "Some w"]) simp
    then have "seg h' (Some (hd rs)) rs (Some c)" by (simp only: snoc)
    moreover have "rs \<noteq> []" by (simp add: snoc)
    ultimately show ?thesis using a' by (simp add: chain_def last_ptr_def)
  qed
  show "\<And>u. td_data (h' u) = (if u = c then (td_data (h u))\<lparr>key := kt\<rparr> else td_data (h u))"
  proof -
    fix u
    show "td_data (h' u) = (if u = c then (td_data (h u))\<lparr>key := kt\<rparr> else td_data (h u))"
      using r by (auto simp: requeue_add_def Let_def set_next_def td_data_def split: option.splits)
  qed
  show "\<And>u. u \<notin> set rs \<Longrightarrow> next_in_queue (h' u) = next_in_queue (h u)"
    using r ch by (auto simp: requeue_add_def Let_def chain_def last_ptr_def split: option.splits if_splits)
  show "wakeup_thread a' = wakeup_thread a"
    "req_result a' = (req_result a)\<lparr>requeued_threads := requeued_threads (req_result a) + 1\<rparr>"
    using r by (auto simp: requeue_add_def Let_def split: option.splits)
qed

lemma bucket_queue_cong:
  "(\<And>t. t \<in> set q \<Longrightarrow> next_in_queue (h' t) = next_in_queue (h t)) \<Longrightarrow>
     bucket_queue (h', b) q = bucket_queue (h, b) q"
  using lst_cong [of q h' h] by (simp add: bucket_queue_def)

section \<open>Requeuing all threads\<close>

text \<open>
  One iteration of the loop on a matching thread: \<open>wake\<close> says whether the thread is the
  one to be woken.
\<close>

lemma requeue_loop_match:
  assumes q: "bucket_queue (h, b) (us @ c # vs)" and p: "lst h p (c # vs)"
    and c: "key (h c) = kf" and ch: "chain h a rs" and d: "distinct (rs @ us @ c # vs)"
    and wake: "wake \<longleftrightarrow> (op = UnparkOneRequeueRest \<or> op = UnparkOne) \<and> wakeup_thread a = None"
  shows "\<exists>h2 b1 a2. requeue_loop kf kt op (link_after us) (last_ptr us) p a (h, b) =
      (if op = UnparkOne \<or> op = RequeueOne then
         Some ((h2, b1), if \<exists>t\<in>set vs. key (h t) = kf
            then a2\<lparr>req_result := (req_result a2)\<lparr>have_more_threads := True\<rparr>\<rparr> else a2)
       else requeue_loop kf kt op (link_after us) (last_ptr us) (next_in_queue (h c)) a2 (h2, b1))
    \<and> bucket_queue (h2, b1) (us @ vs) \<and> lst h2 (next_in_queue (h c)) vs
    \<and> chain h2 a2 (if wake then rs else rs @ [c])
    \<and> (\<forall>u. td_data (h2 u) = (if u = c \<and> \<not> wake then (td_data (h u))\<lparr>key := kt\<rparr> else td_data (h u)))
    \<and> (\<forall>u. u \<notin> set rs \<union> set us \<longrightarrow> next_in_queue (h2 u) = next_in_queue (h u))
    \<and> fair_timeout b1 = fair_timeout b \<and> mutex b1 = mutex b
    \<and> wakeup_thread a2 = (if wake then Some c else wakeup_thread a)
    \<and> req_result a2 = (if wake then (req_result a)\<lparr>unparked_threads := 1\<rparr>
        else (req_result a)\<lparr>requeued_threads := requeued_threads (req_result a) + 1\<rparr>)"
proof -
  obtain h1 b1 where r: "remove_current (link_after us) (last_ptr us) c (h, b) = (h1, b1)"
    by (rule remove_current_cases)
  note rc = remove_current_queue [OF q r]
  have ch1: "chain h1 a rs"
    using ch d rc(3) by (subst chain_cong [of _ _ h]) auto
  obtain h2 a2 where s: "(if wake
      then (h1, a\<lparr>wakeup_thread := Some c, req_result := (req_result a)\<lparr>unparked_threads := 1\<rparr>\<rparr>)
      else requeue_add kt c (h1, a)) = (h2, a2)"
    by fastforce
  have dc: "distinct (rs @ [c])" using d by auto
  have frame: "next_in_queue (h2 u) = next_in_queue (h1 u)" if "u \<notin> set rs" for u
    using s that requeue_add_chain(3) [OF ch1 dc] by (auto split: if_splits)
  have data: "td_data (h2 u) = (if u = c \<and> \<not> wake then (td_data (h u))\<lparr>key := kt\<rparr> else td_data (h u))" for u
    using s requeue_add_chain(2) [OF ch1 dc] rc(2) by (auto split: if_splits)
  have keys: "key (h2 t) = key (h t)" if "t \<in> set vs" for t
  proof -
    have "t \<noteq> c" using d that by auto
    with data show ?thesis by (intro td_data_eqD(2)) simp
  qed
  have q2: "bucket_queue (h2, b1) (us @ vs)"
    using rc(1) d frame by (subst bucket_queue_cong [of _ _ h1]) auto
  have l2: "lst h2 (next_in_queue (h c)) vs"
    using rc(6) d frame by (subst lst_cong [of _ _ h1]) auto
  have scan: "scan_key h2 kf (next_in_queue (h c)) = Some (\<exists>t\<in>set vs. key (h t) = kf)"
    using scan_key_lst [OF l2, of kf] keys by auto
  have pc: "p = Some c" using p by simp
  have eq: "requeue_loop kf kt op (link_after us) (last_ptr us) p a (h, b) =
      (if op = UnparkOne \<or> op = RequeueOne then
         Some ((h2, b1), if \<exists>t\<in>set vs. key (h t) = kf
            then a2\<lparr>req_result := (req_result a2)\<lparr>have_more_threads := True\<rparr>\<rparr> else a2)
       else requeue_loop kf kt op (link_after us) (last_ptr us) (next_in_queue (h c)) a2 (h2, b1))"
    using c r s scan wake unfolding pc
    by (subst requeue_loop.simps) (simp add: Let_def split: if_splits)
  have ch2: "chain h2 a2 (if wake then rs else rs @ [c])"
    and w2: "wakeup_thread a2 = (if wake then Some c else wakeup_thread a)"
    and r2: "req_result a2 = (if wake then (req_result a)\<lparr>unparked_threads := 1\<rparr>
        else (req_result a)\<lparr>requeued_threads := requeued_threads (req_result a) + 1\<rparr>)"
    using s ch1 requeue_add_chain [OF ch1 dc] by (auto split: if_splits)
  show ?thesis
    using q2 l2 ch2 data frame rc(3-5) w2 r2 unfolding eq
    by (intro exI [of _ h2] exI [of _ b1] exI [of _ a2]) auto
qed

lemma requeue_loop_skip:
  assumes "lst h p (c # vs)" "key (h c) \<noteq> kf"
  shows "requeue_loop kf kt op lnk prev p a (h, b) =
    requeue_loop kf kt op (NextOf c) (Some c) (next_in_queue (h c)) a (h, b)"
  using assms by (subst requeue_loop.simps) simp

lemma requeue_loop_end: "requeue_loop kf kt op lnk prev None a hb = Some (hb, a)"
  by (subst requeue_loop.simps) simp

lemma requeue_loop_all:
  assumes "bucket_queue (h, b) (us @ vs)" and "lst h p vs" and "chain h a rs"
    and "distinct (rs @ us @ vs)" and op: "op = UnparkOneRequeueRest \<or> op = RequeueAll"
    and "ms = filter (\<lambda>t. key (h t) = kf) vs"
    and "wk = (if op = UnparkOneRequeueRest \<and> wakeup_thread a = None then take 1 ms else [])"
    and "mv = drop (length wk) ms"
  shows "\<exists>h' b' a'. requeue_loop kf kt op (link_after us) (last_ptr us) p a (h, b) =
      Some ((h', b'), a')
    \<and> bucket_queue (h', b') (us @ filter (\<lambda>t. key (h t) \<noteq> kf) vs)
    \<and> chain h' a' (rs @ mv)
    \<and> (\<forall>u. td_data (h' u) = (if u \<in> set mv then (td_data (h u))\<lparr>key := kt\<rparr> else td_data (h u)))
    \<and> (\<forall>u. u \<notin> set rs \<union> set us \<union> set vs \<longrightarrow> next_in_queue (h' u) = next_in_queue (h u))
    \<and> fair_timeout b' = fair_timeout b \<and> mutex b' = mutex b
    \<and> wakeup_thread a' = (if wk = [] then wakeup_thread a else Some (hd wk))
    \<and> req_result a' = (req_result a)\<lparr>
        unparked_threads := (if wk = [] then unparked_threads (req_result a) else 1),
        requeued_threads := requeued_threads (req_result a) + length mv\<rparr>"
  using assms
proof (induction vs arbitrary: us h b p a rs ms wk mv)
  case Nil
  then show ?case by (simp add: requeue_loop_end)
next
  case (Cons c vs)
  have d: "distinct (rs @ us @ c # vs)" and v: "lst h (next_in_queue (h c)) vs"
    using Cons.prems by auto
  show ?case
  proof (cases "key (h c) = kf")
    case False
    have q2: "bucket_queue (h, b) ((us @ [c]) @ vs)" and d2: "distinct (rs @ (us @ [c]) @ vs)"
      using Cons.prems(1) d by auto
    have ms: "ms = filter (\<lambda>t. key (h t) = kf) vs" using False Cons.prems(6) by simp
    from Cons.IH [OF q2 v Cons.prems(3) d2 op ms Cons.prems(7,8)] show ?thesis
      using False by (simp add: requeue_loop_skip [OF Cons.prems(2) False])
  next
    case True
    define wake where "wake \<longleftrightarrow> (op = UnparkOneRequeueRest \<or> op = UnparkOne) \<and> wakeup_thread a = None"
    from requeue_loop_match [OF Cons.prems(1,2) True Cons.prems(3) d wake_def, of kt] op
    obtain h2 b1 a2 where m:
        "requeue_loop kf kt op (link_after us) (last_ptr us) p a (h, b) =
          requeue_loop kf kt op (link_after us) (last_ptr us) (next_in_queue (h c)) a2 (h2, b1)"
        "bucket_queue (h2, b1) (us @ vs)" "lst h2 (next_in_queue (h c)) vs"
        "chain h2 a2 (if wake then rs else rs @ [c])"
        "\<And>u. td_data (h2 u) = (if u = c \<and> \<not> wake then (td_data (h u))\<lparr>key := kt\<rparr> else td_data (h u))"
        "\<And>u. u \<notin> set rs \<union> set us \<Longrightarrow> next_in_queue (h2 u) = next_in_queue (h u)"
        "fair_timeout b1 = fair_timeout b" "mutex b1 = mutex b"
        "wakeup_thread a2 = (if wake then Some c else wakeup_thread a)"
        "req_result a2 = (if wake then (req_result a)\<lparr>unparked_threads := 1\<rparr>
          else (req_result a)\<lparr>requeued_threads := requeued_threads (req_result a) + 1\<rparr>)"
      by (elim exE conjE) (auto split: if_splits)
    have d2: "distinct ((if wake then rs else rs @ [c]) @ us @ vs)" using d by auto
    have nc: "t \<noteq> c" if "t \<in> set vs" for t using d that by auto
    have keys: "key (h2 t) = key (h t)" if "t \<in> set vs" for t
      using m(5) [of t] nc [OF that] by (intro td_data_eqD(2)) simp
    have ms: "filter (\<lambda>t. key (h2 t) = kf) vs = filter (\<lambda>t. key (h t) = kf) vs"
      "filter (\<lambda>t. key (h2 t) \<noteq> kf) vs = filter (\<lambda>t. key (h t) \<noteq> kf) vs"
      using keys by (auto cong: filter_cong)
    define ms' where "ms' = filter (\<lambda>t. key (h t) = kf) vs"
    define wk' where "wk' = (if op = UnparkOneRequeueRest \<and> wakeup_thread a2 = None then take 1 ms' else [])"
    have wk': "wk' = []" using m(9) op wake_def by (auto simp: wk'_def split: if_splits)
    from Cons.IH [OF m(2,3,4) d2 op refl refl refl] obtain h' b' a' where
      IH: "requeue_loop kf kt op (link_after us) (last_ptr us) (next_in_queue (h c)) a2 (h2, b1) =
          Some ((h', b'), a')"
        "bucket_queue (h', b') (us @ filter (\<lambda>t. key (h t) \<noteq> kf) vs)"
        "chain h' a' ((if wake then rs else rs @ [c]) @ ms')"
        "\<And>u. td_data (h' u) = (if u \<in> set ms' then (td_data (h2 u))\<lparr>key := kt\<rparr> else td_data (h2 u))"
        "\<And>u. u \<notin> set (if wake then rs else rs @ [c]) \<union> set us \<union> set vs \<Longrightarrow>
            next_in_queue (h' u) = next_in_queue (h2 u)"
        "fair_timeout b' = fair_timeout b1" "mutex b' = mutex b1"
        "wakeup_thread a' = wakeup_thread a2"
        "req_result a' = (req_result a2)\<lparr>
          requeued_threads := requeued_threads (req_result a2) + length ms'\<rparr>"
      unfolding ms ms'_def [symmetric] wk'_def [symmetric] wk' by auto
    have eq: "ms = c # ms'" "wk = (if wake then [c] else [])" "mv = (if wake then ms' else c # ms')"
      using Cons.prems(6-8) op True by (auto simp: ms'_def wake_def)
    have ms'c: "c \<notin> set ms'" using d by (auto simp: ms'_def)
    have data: "td_data (h' u) = (if u \<in> set mv then (td_data (h u))\<lparr>key := kt\<rparr> else td_data (h u))" for u
      using IH(4) [of u] m(5) [of u] ms'c by (auto simp: eq)
    have frame: "next_in_queue (h' u) = next_in_queue (h u)"
      if "u \<notin> set rs \<union> set us \<union> set (c # vs)" for u
      using IH(5) [of u] m(6) [of u] that by auto
    have ch: "chain h' a' (rs @ mv)" using IH(3) by (simp add: eq split: if_splits)
    have rr: "req_result a' = (req_result a)\<lparr>
        unparked_threads := (if wk = [] then unparked_threads (req_result a) else 1),
        requeued_threads := requeued_threads (req_result a) + length mv\<rparr>"
      using IH(9) m(10) by (simp add: eq)
    have wt: "wakeup_thread a' = (if wk = [] then wakeup_thread a else Some (hd wk))"
      using IH(8) m(9) by (simp add: eq)
    show ?thesis
      using IH(1,2,6,7) m(1,7,8) ch data frame rr wt True
      by (intro exI [of _ h'] exI [of _ b'] exI [of _ a']) simp
  qed
qed

section \<open>Requeuing or unparking one thread\<close>

lemma requeue_loop_no_match:
  assumes "lst h p vs" "\<forall>t\<in>set vs. key (h t) \<noteq> kf"
  shows "requeue_loop kf kt op lnk prev p a (h, b) = Some ((h, b), a)"
  using assms
proof (induction vs arbitrary: p lnk prev)
  case Nil
  then show ?case by (simp add: requeue_loop_end)
next
  case (Cons c vs)
  from Cons.prems have c: "key (h c) \<noteq> kf" and v: "lst h (next_in_queue (h c)) vs"
    and n: "\<forall>t\<in>set vs. key (h t) \<noteq> kf" by auto
  show ?case
    unfolding requeue_loop_skip [OF Cons.prems(1) c] by (rule Cons.IH [OF v n])
qed

lemma requeue_loop_prefix:
  assumes "lst h p (ws @ vs)" "\<forall>t\<in>set ws. key (h t) \<noteq> kf"
  shows "\<exists>p'. lst h p' vs \<and> requeue_loop kf kt op (link_after us) (last_ptr us) p a (h, b) =
    requeue_loop kf kt op (link_after (us @ ws)) (last_ptr (us @ ws)) p' a (h, b)"
  using assms
proof (induction ws arbitrary: us p)
  case Nil
  then show ?case by auto
next
  case (Cons c ws)
  then have c: "key (h c) \<noteq> kf" and v: "lst h (next_in_queue (h c)) (ws @ vs)"
    and n: "\<forall>t\<in>set ws. key (h t) \<noteq> kf" and l: "lst h p (c # (ws @ vs))" by auto
  from Cons.IH [OF v n, of "us @ [c]"] show ?case
    by (simp add: requeue_loop_skip [OF l c])
qed

section \<open>The whole loop\<close>

text \<open>
  The threads an operation wakes and the threads it moves, from the list of the threads
  with the source key.
\<close>

fun requeue_pick :: "RequeueOp \<Rightarrow> tid list \<Rightarrow> tid list \<times> tid list" where
  "requeue_pick Abort ms = ([], [])"
| "requeue_pick UnparkOneRequeueRest ms = (take 1 ms, drop 1 ms)"
| "requeue_pick RequeueAll ms = ([], ms)"
| "requeue_pick UnparkOne ms = (take 1 ms, [])"
| "requeue_pick RequeueOne ms = ([], take 1 ms)"

definition requeue_one :: "RequeueOp \<Rightarrow> bool" where
  "requeue_one op \<longleftrightarrow> op = UnparkOne \<or> op = RequeueOne"

definition requeue_loop_post ::
    "usize \<Rightarrow> usize \<Rightarrow> RequeueOp \<Rightarrow> tid list \<Rightarrow> heap \<times> Bucket \<Rightarrow> (heap \<times> Bucket) \<times> requeue_acc \<Rightarrow> bool" where
  "requeue_loop_post kf kt op q hb r =
     (let (h, b) = hb; ((h', b'), a') = r; ms = filter (\<lambda>t. key (h t) = kf) q;
          (wk, mv) = requeue_pick op ms
      in bucket_queue (h', b') (filter (\<lambda>t. t \<notin> set wk \<union> set mv) q)
       \<and> chain h' a' mv
       \<and> (\<forall>u. td_data (h' u) = (if u \<in> set mv then (td_data (h u))\<lparr>key := kt\<rparr> else td_data (h u)))
       \<and> (\<forall>u. u \<notin> set q \<longrightarrow> next_in_queue (h' u) = next_in_queue (h u))
       \<and> fair_timeout b' = fair_timeout b \<and> mutex b' = mutex b
       \<and> wakeup_thread a' = (case wk of [] \<Rightarrow> None | t # _ \<Rightarrow> Some t)
       \<and> req_result a' = \<lparr>unparked_threads = length wk, requeued_threads = length mv,
            have_more_threads = (requeue_one op \<and> 1 < length ms), be_fair = False\<rparr>)"

lemma chain_start [simp]: "chain h requeue_start rs \<longleftrightarrow> rs = []"
  by (auto simp: chain_def requeue_start_def last_ptr_def)

lemma requeue_loop_post_all:
  assumes q: "bucket_queue (h, b) q" and op: "op = UnparkOneRequeueRest \<or> op = RequeueAll"
  shows "\<exists>r. requeue_loop kf kt op QueueHead None (queue_head b) requeue_start (h, b) = Some r
    \<and> requeue_loop_post kf kt op q (h, b) r"
proof -
  define ms where "ms = filter (\<lambda>t. key (h t) = kf) q"
  define wk where "wk = (if op = UnparkOneRequeueRest \<and> wakeup_thread requeue_start = None
    then take 1 ms else [])"
  define mv where "mv = drop (length wk) ms"
  have pick: "requeue_pick op ms = (wk, mv)"
    using op by (cases ms) (auto simp: wk_def mv_def requeue_start_def)
  have "set wk \<union> set mv = set ms"
    by (cases ms) (auto simp: wk_def mv_def)
  then have rest: "filter (\<lambda>t. t \<notin> set wk \<union> set mv) q = filter (\<lambda>t. key (h t) \<noteq> kf) q"
    by (auto intro!: filter_cong simp: ms_def)
  have d: "distinct ([] @ [] @ q)" and l: "lst h (queue_head b) q"
    using bucket_queueD [OF q] by auto
  have wt: "(if wk = [] then wakeup_thread requeue_start else Some (hd wk)) =
      (case wk of [] \<Rightarrow> None | t # _ \<Rightarrow> Some t)"
    by (cases wk) (auto simp: requeue_start_def)
  have len: "length wk \<le> 1" by (auto simp: wk_def)
  have qn: "bucket_queue (h, b) ([] @ q)" and cn: "chain h requeue_start []" using q by simp_all
  from requeue_loop_all [OF qn l cn d op ms_def wk_def mv_def, of kt]
  obtain h' b' a' where *:
      "requeue_loop kf kt op QueueHead None (queue_head b) requeue_start (h, b) = Some ((h', b'), a')"
      "bucket_queue (h', b') (filter (\<lambda>t. key (h t) \<noteq> kf) q)" "chain h' a' mv"
      "\<forall>u. td_data (h' u) = (if u \<in> set mv then (td_data (h u))\<lparr>key := kt\<rparr> else td_data (h u))"
      "\<forall>u. u \<notin> set q \<longrightarrow> next_in_queue (h' u) = next_in_queue (h u)"
      "fair_timeout b' = fair_timeout b" "mutex b' = mutex b"
      "wakeup_thread a' = (case wk of [] \<Rightarrow> None | t # _ \<Rightarrow> Some t)"
      "req_result a' = (req_result requeue_start)\<lparr>
        unparked_threads := (if wk = [] then unparked_threads (req_result requeue_start) else 1),
        requeued_threads := requeued_threads (req_result requeue_start) + length mv\<rparr>"
    unfolding wt by auto
  have "req_result a' = \<lparr>unparked_threads = length wk, requeued_threads = length mv,
            have_more_threads = (requeue_one op \<and> 1 < length ms), be_fair = False\<rparr>"
    using *(9) op len by (cases wk) (auto simp: requeue_start_def UnparkResult_default_def requeue_one_def)
  then show ?thesis
    unfolding requeue_loop_post_def
    using *(1-8) by (intro exI [of _ "((h', b'), a')"])
      (simp only: prod.case Let_def ms_def [symmetric] pick rest HOL.simp_thms)
qed

lemma requeue_loop_post_one:
  assumes q: "bucket_queue (h, b) q" and op: "op = UnparkOne \<or> op = RequeueOne"
  shows "\<exists>r. requeue_loop kf kt op QueueHead None (queue_head b) requeue_start (h, b) = Some r
    \<and> requeue_loop_post kf kt op q (h, b) r"
proof (cases "filter (\<lambda>t. key (h t) = kf) q")
  case Nil
  then have n: "\<forall>t\<in>set q. key (h t) \<noteq> kf" by (simp add: filter_empty_conv)
  have "requeue_loop_post kf kt op q (h, b) ((h, b), requeue_start)"
    using op q by (auto simp: requeue_loop_post_def Nil requeue_start_def UnparkResult_default_def
        chain_def)
  with requeue_loop_no_match [OF bucket_queueD(1) [OF q] n] show ?thesis by auto
next
  case (Cons c ys)
  obtain ws xs where q': "q = ws @ c # xs" and ws: "\<forall>t\<in>set ws. key (h t) \<noteq> kf"
    and c: "key (h c) = kf" and ys: "ys = filter (\<lambda>t. key (h t) = kf) xs"
    using hd_filter_split [OF Cons] by auto
  have d: "distinct (ws @ c # xs)" and l: "lst h (queue_head b) (ws @ c # xs)"
    using bucket_queueD [OF q] by (auto simp: q')
  from requeue_loop_prefix [OF l ws, of kt op "[]"] obtain p' where
    p': "lst h p' (c # xs)"
      "requeue_loop kf kt op QueueHead None (queue_head b) requeue_start (h, b) =
       requeue_loop kf kt op (link_after ws) (last_ptr ws) p' requeue_start (h, b)"
    by auto
  have wake: "op = UnparkOne \<longleftrightarrow> (op = UnparkOneRequeueRest \<or> op = UnparkOne)
      \<and> wakeup_thread requeue_start = None"
    using op by (auto simp: requeue_start_def)
  have ch0: "chain h requeue_start []" and d0: "distinct ([] @ ws @ c # xs)" using d by auto
  from requeue_loop_match [OF q [unfolded q'] p'(1) c ch0 d0 wake, of kt] op
  obtain h2 b1 a2 where m:
      "requeue_loop kf kt op (link_after ws) (last_ptr ws) p' requeue_start (h, b) =
        Some ((h2, b1), if \<exists>t\<in>set xs. key (h t) = kf
            then a2\<lparr>req_result := (req_result a2)\<lparr>have_more_threads := True\<rparr>\<rparr> else a2)"
      "bucket_queue (h2, b1) (ws @ xs)"
      "chain h2 a2 (if op = UnparkOne then [] else [c])"
      "\<And>u. td_data (h2 u) = (if u = c \<and> op \<noteq> UnparkOne then (td_data (h u))\<lparr>key := kt\<rparr> else td_data (h u))"
      "\<And>u. u \<notin> set ws \<Longrightarrow> next_in_queue (h2 u) = next_in_queue (h u)"
      "fair_timeout b1 = fair_timeout b" "mutex b1 = mutex b"
      "wakeup_thread a2 = (if op = UnparkOne then Some c else wakeup_thread requeue_start)"
      "req_result a2 = (if op = UnparkOne then (req_result requeue_start)\<lparr>unparked_threads := 1\<rparr>
          else (req_result requeue_start)\<lparr>requeued_threads := requeued_threads (req_result requeue_start) + 1\<rparr>)"
    by (elim exE conjE) auto
  define a3 where "a3 = (if \<exists>t\<in>set xs. key (h t) = kf
            then a2\<lparr>req_result := (req_result a2)\<lparr>have_more_threads := True\<rparr>\<rparr> else a2)"
  have more: "(\<exists>t\<in>set xs. key (h t) = kf) \<longleftrightarrow> 1 < length (c # ys)"
    by (auto simp: ys filter_empty_conv)
  have rest: "filter (\<lambda>t. t \<noteq> c) q = ws @ xs"
    using d by (simp add: q')
  have pick: "requeue_pick op (c # ys) = (if op = UnparkOne then ([c], []) else ([], [c]))"
    using op by auto
  have rr: "req_result a3 = \<lparr>unparked_threads = (if op = UnparkOne then 1 else 0),
      requeued_threads = (if op = UnparkOne then 0 else 1),
      have_more_threads = (1 < length (c # ys)), be_fair = False\<rparr>"
    unfolding a3_def more using m(9) by (simp add: requeue_start_def UnparkResult_default_def)
  have wt: "wakeup_thread a3 = (if op = UnparkOne then Some c else None)"
    unfolding a3_def using m(8) by (simp add: requeue_start_def)
  have ch: "chain h2 a3 (if op = UnparkOne then [] else [c])"
    unfolding a3_def using m(3) by (cases "op = UnparkOne") simp_all
  have fr: "\<forall>u. u \<notin> set q \<longrightarrow> next_in_queue (h2 u) = next_in_queue (h u)"
    using m(5) by (simp add: q')
  have one: "requeue_one op" using op by (auto simp: requeue_one_def)
  have "requeue_loop_post kf kt op q (h, b) ((h2, b1), a3)"
    unfolding requeue_loop_post_def Cons Let_def prod.case pick
    using m(2,4,6,7) rest rr wt ch fr one by (cases "op = UnparkOne") simp_all
  then show ?thesis
    unfolding p'(2) m(1) a3_def [symmetric] by blast
qed

lemma requeue_loop_post:
  assumes "bucket_queue (h, b) q" and "op \<noteq> Abort"
  obtains h' b' a' where
    "requeue_loop kf kt op QueueHead None (queue_head b) requeue_start (h, b) = Some ((h', b'), a')"
    "requeue_loop_post kf kt op q (h, b) ((h', b'), a')"
  using requeue_loop_post_all [OF assms(1)] requeue_loop_post_one [OF assms(1)] assms(2)
  by (cases op) (metis prod.exhaust)+

end
