(* ===== verification/Parking_Lot.thy ===== *)
theory Parking_Lot
  imports Requeue_Refine
begin

text \<open>
  The global parking lot of \<open>core/src/parking_lot.rs\<close>: the bucket array, the thread data
  and the public functions, each as it acts between locking and unlocking its buckets.
  The interleaving of these critical sections is the subject of \<open>Park_Machine\<close>; here they
  are shown to implement one FIFO queue per key.
\<close>

record ParkingLot =
  NUM_THREADS :: nat
  HASHTABLE :: "HashTable option"
  threads :: heap

section \<open>Operations\<close>

definition create_hashtable :: "nat \<Rightarrow> ParkingLot \<Rightarrow> ParkingLot option" where
  "create_hashtable now lot = do {
     new_table \<leftarrow> HashTable_new now LOAD_FACTOR;
     Some (case HASHTABLE lot of None \<Rightarrow> lot\<lparr>HASHTABLE := Some new_table\<rparr> | Some _ \<Rightarrow> lot)
   }"

definition get_hashtable :: "nat \<Rightarrow> ParkingLot \<Rightarrow> (HashTable \<times> ParkingLot) option" where
  "get_hashtable now lot =
     (case HASHTABLE lot of
        Some tb \<Rightarrow> Some (tb, lot)
      | None \<Rightarrow> do { lot' \<leftarrow> create_hashtable now lot; tb \<leftarrow> HASHTABLE lot'; Some (tb, lot') })"

fun rehash_all :: "Bucket list \<Rightarrow> heap \<times> HashTable \<Rightarrow> (heap \<times> HashTable) option" where
  "rehash_all [] ht = Some ht"
| "rehash_all (b # bs) ht = Option.bind (rehash_bucket_into (queue_head b) ht) (rehash_all bs)"

definition grow_hashtable :: "nat \<Rightarrow> nat \<Rightarrow> ParkingLot \<Rightarrow> ParkingLot option" where
  "grow_hashtable now num_threads lot = do {
     (old_table, lot1) \<leftarrow> get_hashtable now lot;
     if length (entries old_table) \<ge> LOAD_FACTOR * num_threads then Some lot1
     else do {
       new_table \<leftarrow> HashTable_new now num_threads;
       (h, tb) \<leftarrow> rehash_all (entries old_table) (threads lot1, new_table);
       Some (lot1\<lparr>HASHTABLE := Some tb, threads := h\<rparr>)
     }
   }"

definition ThreadData_new :: "nat \<Rightarrow> tid \<Rightarrow> ParkingLot \<Rightarrow> ParkingLot option" where
  "ThreadData_new now t lot = do {
     let num_threads = NUM_THREADS lot + 1;
     lot1 \<leftarrow> grow_hashtable now num_threads (lot\<lparr>NUM_THREADS := num_threads\<rparr>);
     Some (lot1\<lparr>threads := (threads lot1)(t := ThreadData_init)\<rparr>)
   }"

definition ThreadData_drop :: "ParkingLot \<Rightarrow> ParkingLot" where
  "ThreadData_drop lot = lot\<lparr>NUM_THREADS := NUM_THREADS lot - 1\<rparr>"

text \<open>The bucket \<open>lock_bucket\<close> returns: its index in the current table.\<close>

definition bucket_index :: "usize \<Rightarrow> ParkingLot \<Rightarrow> (HashTable \<times> nat) option" where
  "bucket_index k lot = do {
     tb \<leftarrow> HASHTABLE lot;
     i \<leftarrow> hash k (hash_bits tb);
     if i < length (entries tb) then Some (tb, i) else None
   }"

definition put_bucket :: "HashTable \<Rightarrow> nat \<Rightarrow> heap \<times> Bucket \<Rightarrow> ParkingLot \<Rightarrow> ParkingLot" where
  "put_bucket tb i hb lot = lot\<lparr>HASHTABLE := Some (tb\<lparr>entries := (entries tb)[i := snd hb]\<rparr>),
     threads := fst hb\<rparr>"

text \<open>
  \<open>park\<close> up to the sleep: \<open>validate\<close> runs under the bucket lock and decides whether the
  thread is appended. The first component says whether it was.
\<close>

definition park_begin ::
    "tid \<Rightarrow> usize \<Rightarrow> ('s \<Rightarrow> 's \<times> bool) \<Rightarrow> usize \<Rightarrow> bool \<Rightarrow> 's \<Rightarrow> ParkingLot
       \<Rightarrow> (bool \<times> 's \<times> ParkingLot) option" where
  "park_begin t k validate token timed s lot = do {
     (tb, i) \<leftarrow> bucket_index k lot;
     let (s', valid) = validate s;
     if \<not> valid then Some (False, s', lot)
     else Some (True, s', put_bucket tb i
                  (park_enqueue t k token timed (threads lot, entries tb ! i)) lot)
   }"

text \<open>
  \<open>park\<close> after \<open>park_until\<close> returned false: the bucket of the thread's present key is
  locked and the parker is checked again.
\<close>

definition park_timeout ::
    "tid \<Rightarrow> (usize \<Rightarrow> bool \<Rightarrow> 's \<Rightarrow> 's) \<Rightarrow> 's \<Rightarrow> ParkingLot
       \<Rightarrow> (ParkResult \<times> 's \<times> ParkingLot) option" where
  "park_timeout t timed_out_cb s lot = do {
     let k = key (threads lot t);
     (tb, i) \<leftarrow> bucket_index k lot;
     if \<not> timed_out (parker (threads lot t))
     then Some (Unparked (unpark_token (threads lot t)), s, lot)
     else do {
       (s', hb) \<leftarrow> timeout_remove_bucket t k timed_out_cb s (threads lot, entries tb ! i);
       Some (TimedOut, s', put_bucket tb i hb lot)
     }
   }"

definition unpark_one ::
    "usize \<Rightarrow> nat \<Rightarrow> (UnparkResult \<Rightarrow> 's \<Rightarrow> 's \<times> usize) \<Rightarrow> 's \<Rightarrow> ParkingLot
       \<Rightarrow> (UnparkResult \<times> 's \<times> ParkingLot) option" where
  "unpark_one k now callback s lot = do {
     (tb, i) \<leftarrow> bucket_index k lot;
     (s', hb, result, _) \<leftarrow> unpark_one_bucket k now callback s (threads lot, entries tb ! i);
     Some (result, s', put_bucket tb i hb lot)
   }"

definition unpark_all :: "usize \<Rightarrow> usize \<Rightarrow> ParkingLot \<Rightarrow> (nat \<times> ParkingLot) option" where
  "unpark_all k token lot = do {
     (tb, i) \<leftarrow> bucket_index k lot;
     (hb, ts) \<leftarrow> unpark_all_bucket k token (threads lot, entries tb ! i);
     Some (length ts, put_bucket tb i hb lot)
   }"

definition unpark_filter ::
    "usize \<Rightarrow> nat \<Rightarrow> ('f \<Rightarrow> usize \<Rightarrow> 'f \<times> FilterOp) \<Rightarrow> 'f
       \<Rightarrow> ('f \<Rightarrow> UnparkResult \<Rightarrow> 's \<Rightarrow> 's \<times> usize) \<Rightarrow> 's \<Rightarrow> ParkingLot
       \<Rightarrow> (UnparkResult \<times> 's \<times> ParkingLot) option" where
  "unpark_filter k now flt fs callback s lot = do {
     (tb, i) \<leftarrow> bucket_index k lot;
     (s', hb, result, _) \<leftarrow>
        unpark_filter_bucket k now flt fs callback s (threads lot, entries tb ! i);
     Some (result, s', put_bucket tb i hb lot)
   }"

definition unpark_requeue ::
    "usize \<Rightarrow> usize \<Rightarrow> nat \<Rightarrow> ('s \<Rightarrow> 's \<times> RequeueOp)
       \<Rightarrow> (RequeueOp \<Rightarrow> UnparkResult \<Rightarrow> 's \<Rightarrow> 's \<times> usize) \<Rightarrow> 's \<Rightarrow> ParkingLot
       \<Rightarrow> (UnparkResult \<times> 's \<times> ParkingLot) option" where
  "unpark_requeue key_from key_to now validate callback s lot = do {
     (tb, from) \<leftarrow> bucket_index key_from lot;
     (_, to) \<leftarrow> bucket_index key_to lot;
     (s', (h, bs), result, _) \<leftarrow>
        unpark_requeue_table key_from key_to from to now validate callback s
          (threads lot, entries tb);
     Some (result, s', lot\<lparr>HASHTABLE := Some (tb\<lparr>entries := bs\<rparr>), threads := h\<rparr>)
   }"

section \<open>The queues of a lot\<close>

partial_function (option) walk :: "heap \<Rightarrow> td_ptr \<Rightarrow> tid list option" where
  "walk h p = (case p of None \<Rightarrow> Some []
   | Some t \<Rightarrow> Option.bind (walk h (next_in_queue (h t))) (\<lambda>ts. Some (t # ts)))"

definition bucket_threads :: "heap \<Rightarrow> Bucket \<Rightarrow> tid list" where
  "bucket_threads h b = (case walk h (queue_head b) of None \<Rightarrow> [] | Some q \<Rightarrow> q)"

text \<open>
  The threads waiting on a key, in queue order: what the lot promises its clients.
\<close>

definition waiting :: "ParkingLot \<Rightarrow> usize \<Rightarrow> tid list" where
  "waiting lot k = (case bucket_index k lot of
     None \<Rightarrow> []
   | Some (tb, i) \<Rightarrow> filter (\<lambda>t. key (threads lot t) = k) (bucket_threads (threads lot) (entries tb ! i)))"

definition table_queues :: "heap \<Rightarrow> HashTable \<Rightarrow> bool" where
  "table_queues h tb \<longleftrightarrow> (\<forall>i<length (entries tb).
     bucket_queue (h, entries tb ! i) (bucket_threads h (entries tb ! i)) \<and>
     (\<forall>t\<in>set (bucket_threads h (entries tb ! i)). hash (key (h t)) (hash_bits tb) = Some i))"

definition lot_wf :: "ParkingLot \<Rightarrow> bool" where
  "lot_wf lot \<longleftrightarrow> (case HASHTABLE lot of None \<Rightarrow> False
     | Some tb \<Rightarrow> table_ok tb \<and> table_queues (threads lot) tb)"

definition enqueued :: "ParkingLot \<Rightarrow> tid \<Rightarrow> bool" where
  "enqueued lot t \<longleftrightarrow> (\<exists>k. t \<in> set (waiting lot k))"

lemma walk_lst: "lst h p q \<Longrightarrow> walk h p = Some q"
proof (induction q arbitrary: p)
  case Nil
  then show ?case by (simp add: walk.simps)
next
  case (Cons t q)
  then show ?case by (simp add: walk.simps [of h "Some t"])
qed

lemma bucket_threads_eq: "bucket_queue (h, b) q \<Longrightarrow> bucket_threads h b = q"
  using walk_lst [OF bucket_queueD(1), of h b q] by (simp add: bucket_threads_def)

end
