(* ===== verification/Lot_Refine.thy ===== *)
theory Lot_Refine
  imports Parking_Lot
begin

text \<open>
  The parking lot implements one FIFO queue per key. Each operation works on the bucket of
  its key, which other keys may share; the lemmas show that it returns, keeps the lot
  well formed, changes the queue of its key as specified and no other key's queue.
\<close>

section \<open>Well-formed lots\<close>

definition lot_rep :: "ParkingLot \<Rightarrow> HashTable \<Rightarrow> (nat \<Rightarrow> tid list) \<Rightarrow> bool" where
  "lot_rep lot tb Q \<longleftrightarrow> HASHTABLE lot = Some tb \<and> table_ok tb \<and>
     (\<forall>i<length (entries tb). bucket_queue (threads lot, entries tb ! i) (Q i) \<and>
        (\<forall>t\<in>set (Q i). hash (key (threads lot t)) (hash_bits tb) = Some i))"

lemma lot_repD:
  assumes "lot_rep lot tb Q"
  shows "HASHTABLE lot = Some tb" "table_ok tb"
    "i < length (entries tb) \<Longrightarrow> bucket_queue (threads lot, entries tb ! i) (Q i)"
    "i < length (entries tb) \<Longrightarrow> t \<in> set (Q i) \<Longrightarrow>
       hash (key (threads lot t)) (hash_bits tb) = Some i"
  using assms by (auto simp: lot_rep_def)

lemma lot_rep_threads:
  "lot_rep lot tb Q \<Longrightarrow> i < length (entries tb) \<Longrightarrow>
     bucket_threads (threads lot) (entries tb ! i) = Q i"
  by (rule bucket_threads_eq) (rule lot_repD(3))

lemma lot_rep_wf: "lot_rep lot tb Q \<Longrightarrow> lot_wf lot"
  by (auto simp: lot_wf_def table_queues_def lot_rep_threads lot_repD)

lemma lot_wf_rep:
  assumes "lot_wf lot"
  obtains tb Q where "lot_rep lot tb Q"
proof -
  from assms obtain tb where "HASHTABLE lot = Some tb" "table_ok tb" "table_queues (threads lot) tb"
    by (auto simp: lot_wf_def split: option.splits)
  then have "lot_rep lot tb (\<lambda>i. bucket_threads (threads lot) (entries tb ! i))"
    by (simp add: lot_rep_def table_queues_def)
  then show ?thesis by (rule that)
qed

text \<open>The bucket of a key in a well-formed lot.\<close>

definition idx :: "HashTable \<Rightarrow> usize \<Rightarrow> nat" where
  "idx tb k = the (hash k (hash_bits tb))"

lemma idx_hash:
  assumes "table_ok tb"
  shows "hash k (hash_bits tb) = Some (idx tb k)" and "idx tb k < length (entries tb)"
proof -
  obtain i where "hash k (hash_bits tb) = Some i" "i < length (entries tb)"
    using assms by (rule table_ok_hash)
  then show "hash k (hash_bits tb) = Some (idx tb k)" "idx tb k < length (entries tb)"
    by (simp_all add: idx_def)
qed

lemma lot_rep_bucket_index:
  "lot_rep lot tb Q \<Longrightarrow> bucket_index k lot = Some (tb, idx tb k)"
  by (simp add: bucket_index_def lot_repD(1) idx_hash lot_repD(2))

lemma lot_rep_waiting:
  "lot_rep lot tb Q \<Longrightarrow> waiting lot k = filter (\<lambda>t. key (threads lot t) = k) (Q (idx tb k))"
  by (simp add: waiting_def lot_rep_bucket_index lot_rep_threads idx_hash lot_repD(2))

lemma lot_rep_bucket:
  "lot_rep lot tb Q \<Longrightarrow> bucket_queue (threads lot, entries tb ! idx tb k) (Q (idx tb k))"
  by (simp add: lot_repD(3) idx_hash lot_repD(2))

lemma lot_rep_idx:
  "lot_rep lot tb Q \<Longrightarrow> i < length (entries tb) \<Longrightarrow> t \<in> set (Q i) \<Longrightarrow> idx tb (key (threads lot t)) = i"
  using lot_repD(4) [of lot tb Q i t] by (simp add: idx_def)

lemma lot_rep_enqueued:
  assumes "lot_rep lot tb Q"
  shows "enqueued lot t \<longleftrightarrow> (\<exists>i<length (entries tb). t \<in> set (Q i))"
proof
  show "\<exists>i<length (entries tb). t \<in> set (Q i)" if "enqueued lot t"
    using that idx_hash(2) [OF lot_repD(2) [OF assms]]
    by (auto simp: enqueued_def lot_rep_waiting [OF assms] intro: exI [of _ "idx tb _"])
  show "enqueued lot t" if "\<exists>i<length (entries tb). t \<in> set (Q i)"
    using that lot_rep_idx [OF assms] by (auto simp: enqueued_def lot_rep_waiting [OF assms])
qed

lemma waiting_distinct: "lot_wf lot \<Longrightarrow> distinct (waiting lot k)"
  by (erule lot_wf_rep) (simp add: lot_rep_waiting bucket_queueD [OF lot_rep_bucket])

lemma waiting_key: "lot_wf lot \<Longrightarrow> t \<in> set (waiting lot k) \<Longrightarrow> key (threads lot t) = k"
  by (erule lot_wf_rep) (simp add: lot_rep_waiting)

section \<open>Updating one bucket\<close>

lemma lot_rep_update:
  assumes rep: "lot_rep lot tb Q" and i: "i < length (entries tb)"
    and q: "bucket_queue (h', b') q'"
    and k: "\<And>t. t \<in> set q' \<Longrightarrow> idx tb (key (h' t)) = i"
    and frame: "\<And>j u. j < length (entries tb) \<Longrightarrow> j \<noteq> i \<Longrightarrow> u \<in> set (Q j) \<Longrightarrow>
       next_in_queue (h' u) = next_in_queue (threads lot u) \<and> key (h' u) = key (threads lot u)"
  shows "lot_rep (put_bucket tb i (h', b') lot)
     (tb\<lparr>entries := (entries tb)[i := b']\<rparr>) (Q(i := q'))" (is "lot_rep ?lot ?tb ?Q")
proof -
  have ok: "table_ok ?tb" using lot_repD(2) [OF rep] by (simp add: table_ok_def)
  have idx: "idx ?tb = idx tb" by (simp add: idx_def fun_eq_iff)
  have "bucket_queue (h', (entries tb)[i := b'] ! j) (?Q j) \<and>
      (\<forall>t\<in>set (?Q j). idx tb (key (h' t)) = j)" if j: "j < length (entries tb)" for j
  proof (cases "j = i")
    case True
    then show ?thesis using q k i by simp
  next
    case False
    have "bucket_queue (h', entries tb ! j) (Q j) = bucket_queue (threads lot, entries tb ! j) (Q j)"
      using frame [OF j False] by (intro bucket_queue_cong) simp
    then show ?thesis
      using False lot_repD(3) [OF rep j] frame [OF j False] lot_rep_idx [OF rep j] by simp
  qed
  then show ?thesis
    using ok idx_hash(1) [OF ok] by (simp add: lot_rep_def put_bucket_def idx)
qed

text \<open>
  The form in which the operations use it: the operation works on the bucket of key \<open>k\<close>,
  writes links of that bucket's threads only, and leaves the keys of the others.
\<close>

lemma lot_step:
  assumes rep: "lot_rep lot tb Q" and i: "i = idx tb k"
    and q: "bucket_queue (h', b') q'"
    and sub: "set q' \<subseteq> set (Q i) \<union> X" and X: "\<And>t. t \<in> X \<Longrightarrow> key (h' t) = k \<and> \<not> enqueued lot t"
    and nx: "\<And>u. u \<notin> set (Q i) \<union> X \<Longrightarrow> next_in_queue (h' u) = next_in_queue (threads lot u)"
    and ky: "\<And>u. u \<notin> X \<Longrightarrow> key (h' u) = key (threads lot u)"
    and oth: "\<And>k'. k' \<noteq> k \<Longrightarrow>
      filter (\<lambda>t. key (h' t) = k') q' = filter (\<lambda>t. key (threads lot t) = k') (Q i)"
  shows "lot_rep (put_bucket tb i (h', b') lot) (tb\<lparr>entries := (entries tb)[i := b']\<rparr>) (Q(i := q'))"
    and "waiting (put_bucket tb i (h', b') lot) =
      (waiting lot)(k := filter (\<lambda>t. key (h' t) = k) q')"
proof -
  have il: "i < length (entries tb)" using idx_hash(2) [OF lot_repD(2) [OF rep]] i by simp
  have nX: "u \<notin> X" if "j < length (entries tb)" "u \<in> set (Q j)" for j u
    using X [of u] that by (auto simp: lot_rep_enqueued [OF rep])
  have nQ: "u \<notin> set (Q i)" if "j < length (entries tb)" "j \<noteq> i" "u \<in> set (Q j)" for j u
    using lot_rep_idx [OF rep il] lot_rep_idx [OF rep that(1,3)] that(2) by auto
  show *: "lot_rep (put_bucket tb i (h', b') lot) (tb\<lparr>entries := (entries tb)[i := b']\<rparr>) (Q(i := q'))"
  proof (rule lot_rep_update [OF rep il q])
    show "idx tb (key (h' t)) = i" if "t \<in> set q'" for t
      using sub that X [of t] ky [of t] lot_rep_idx [OF rep il, of t] i by (cases "t \<in> X") auto
    show "next_in_queue (h' u) = next_in_queue (threads lot u) \<and> key (h' u) = key (threads lot u)"
      if "j < length (entries tb)" "j \<noteq> i" "u \<in> set (Q j)" for j u
      using nx [of u] ky [of u] nX [OF that(1,3)] nQ [OF that] by simp
  qed
  have same: "filter (\<lambda>t. key (h' t) = k') (Q j) = filter (\<lambda>t. key (threads lot t) = k') (Q j)"
    if "j < length (entries tb)" for j k'
    using ky nX [OF that] by (intro filter_cong) auto
  show "waiting (put_bucket tb i (h', b') lot) =
      (waiting lot)(k := filter (\<lambda>t. key (h' t) = k) q')"
  proof
    fix k'
    show "waiting (put_bucket tb i (h', b') lot) k' =
        ((waiting lot)(k := filter (\<lambda>t. key (h' t) = k) q')) k'"
      unfolding lot_rep_waiting [OF *] lot_rep_waiting [OF rep] fun_upd_apply
      using same [of "idx tb k'" k'] oth [of k'] idx_hash(2) [OF lot_repD(2) [OF rep], of k'] i
      by (auto simp: idx_def put_bucket_def)
  qed
qed

lemma lot_rep_threads_put [simp]: "threads (put_bucket tb i hb lot) = fst hb"
  by (simp add: put_bucket_def)

section \<open>unpark\_one\<close>

definition bucket_fair :: "ParkingLot \<Rightarrow> nat \<Rightarrow> usize \<Rightarrow> bool" where
  "bucket_fair lot now k = (case bucket_index k lot of None \<Rightarrow> False
     | Some (tb, i) \<Rightarrow> fst (should_timeout now (fair_timeout (entries tb ! i))))"

lemma unpark_one_none:
  assumes "lot_wf lot" and "waiting lot k = []"
  shows "unpark_one k now cb s lot = Some (UnparkResult_default, fst (cb UnparkResult_default s), lot)"
proof -
  obtain tb Q where rep: "lot_rep lot tb Q" using assms(1) by (rule lot_wf_rep)
  have n: "\<forall>t\<in>set (Q (idx tb k)). key (threads lot t) \<noteq> k"
    using assms(2) by (simp add: lot_rep_waiting [OF rep] filter_empty_conv)
  have "put_bucket tb i (threads lot, entries tb ! i) lot = lot" for i
    using lot_repD(1) [OF rep] by (simp add: put_bucket_def)
  then show ?thesis
    by (simp add: unpark_one_def lot_rep_bucket_index [OF rep]
        unpark_one_bucket_none [OF lot_rep_bucket [OF rep] n])
qed

lemma unpark_one_head:
  assumes wf: "lot_wf lot" and w: "waiting lot k = t # ts"
    and r: "r = \<lparr>unparked_threads = 1, requeued_threads = 0, have_more_threads = (ts \<noteq> []),
                be_fair = bucket_fair lot now k\<rparr>"
    and cb: "cb r s = (s', token)"
  shows "\<exists>lot'. unpark_one k now cb s lot = Some (r, s', lot') \<and> lot_wf lot'
    \<and> waiting lot' = (waiting lot)(k := ts)
    \<and> td_data (threads lot' t) = wake_data token (td_data (threads lot t))
    \<and> (\<forall>u. u \<noteq> t \<longrightarrow> td_data (threads lot' u) = td_data (threads lot u))"
proof -
  obtain tb Q where rep: "lot_rep lot tb Q" using wf by (rule lot_wf_rep)
  define i where "i = idx tb k"
  let ?b = "entries tb ! i"
  note bq = lot_rep_bucket [OF rep, of k, folded i_def]
  obtain us vs where q: "Q i = us @ t # vs" and us: "\<forall>u\<in>set us. key (threads lot u) \<noteq> k"
    and t: "key (threads lot t) = k" and ts: "ts = filter (\<lambda>t. key (threads lot t) = k) vs"
    using hd_filter_split [OF w [unfolded lot_rep_waiting [OF rep]]] by (auto simp: i_def)
  obtain fair f' where fair: "should_timeout now (fair_timeout ?b) = (fair, f')"
    by fastforce
  have r': "unpark_one_result (threads lot) k vs fair = r"
    using fair by (auto simp: unpark_one_result_def r ts bucket_fair_def filter_empty_conv
        lot_rep_bucket_index [OF rep] i_def)
  from unpark_one_bucket_found [where cb = cb and s = s, OF bq [unfolded q] t us fair, unfolded r', OF cb] obtain h' b' where
    u: "unpark_one_bucket k now cb s (threads lot, ?b) = Some (s', (h', b'), r, Some t)"
      "bucket_queue (h', b') (us @ vs)" "\<And>u. u \<noteq> t \<Longrightarrow> td_data (h' u) = td_data (threads lot u)"
      "td_data (h' t) = wake_data token (td_data (threads lot t))"
      "\<And>u. u \<notin> set us \<Longrightarrow> next_in_queue (h' u) = next_in_queue (threads lot u)"
    by blast
  have ky: "key (h' u) = key (threads lot u)" for u
    using td_data_eqD(2) [OF u(3), of u] u(4) t
    by (cases "u = t") (auto simp: td_data_def wake_data_def dest: arg_cong [where f = key])
  have st: "lot_rep (put_bucket tb i (h', b') lot) (tb\<lparr>entries := (entries tb)[i := b']\<rparr>) (Q(i := us @ vs))"
    "waiting (put_bucket tb i (h', b') lot) = (waiting lot)(k := filter (\<lambda>t. key (h' t) = k) (us @ vs))"
    by (rule lot_step [OF rep i_def u(2), where X = "{}"]; use q u(5) ky t in auto)+
  have "filter (\<lambda>t. key (h' t) = k) (us @ vs) = ts"
    using us ts ky by (simp add: filter_empty_conv)
  then show ?thesis
    using u(1,3,4) st(2) lot_rep_wf [OF st(1)] lot_rep_bucket_index [OF rep, of k]
    by (intro exI [of _ "put_bucket tb i (h', b') lot"]) (simp add: unpark_one_def i_def)
qed

section \<open>park\<close>

lemma park_begin_invalid:
  assumes "lot_wf lot" and "validate s = (s', False)"
  shows "park_begin t k validate token timed s lot = Some (False, s', lot)"
  using assms by (auto elim!: lot_wf_rep simp: park_begin_def lot_rep_bucket_index)

lemma park_begin_append:
  assumes wf: "lot_wf lot" and t: "\<not> enqueued lot t" and v: "validate s = (s', True)"
  shows "\<exists>lot'. park_begin t k validate token timed s lot = Some (True, s', lot') \<and> lot_wf lot'
    \<and> waiting lot' = (waiting lot)(k := waiting lot k @ [t])
    \<and> td_data (threads lot' t) = \<lparr>parker = prepare_park (parker (threads lot t)), key = k,
        next_in_queue = None, unpark_token = unpark_token (threads lot t), park_token = token,
        parked_with_timeout = timed\<rparr>
    \<and> (\<forall>u. u \<noteq> t \<longrightarrow> td_data (threads lot' u) = td_data (threads lot u))"
proof -
  obtain tb Q where rep: "lot_rep lot tb Q" using wf by (rule lot_wf_rep)
  define i where "i = idx tb k"
  note bq = lot_rep_bucket [OF rep, of k, folded i_def]
  have tq: "t \<notin> set (Q i)"
    using t idx_hash(2) [OF lot_repD(2) [OF rep], of k] by (auto simp: lot_rep_enqueued [OF rep] i_def)
  obtain h' b' where e: "park_enqueue t k token timed (threads lot, entries tb ! i) = (h', b')"
    by fastforce
  note u = park_enqueue_queue [OF bq tq e]
  have kt: "key (h' t) = k" using arg_cong [OF u(3), of key] by (simp add: td_data_def)
  have ky: "key (h' u) = key (threads lot u)" if "u \<noteq> t" for u
    using td_data_eqD(2) [OF u(2) [OF that]] .
  have same: "filter (\<lambda>t. key (h' t) = k') (Q i) = filter (\<lambda>t. key (threads lot t) = k') (Q i)" for k'
  proof (rule filter_cong [OF refl])
    fix u assume "u \<in> set (Q i)"
    then have "u \<noteq> t" using tq by auto
    then show "(key (h' u) = k') = (key (threads lot u) = k')" by (simp add: ky)
  qed
  have st: "lot_rep (put_bucket tb i (h', b') lot) (tb\<lparr>entries := (entries tb)[i := b']\<rparr>) (Q(i := Q i @ [t]))"
    "waiting (put_bucket tb i (h', b') lot) = (waiting lot)(k := filter (\<lambda>t. key (h' t) = k) (Q i @ [t]))"
    by (rule lot_step [OF rep i_def u(1), where X = "{t}"]; use t kt ky u(4) same in auto)+
  have "filter (\<lambda>t. key (h' t) = k) (Q i @ [t]) = waiting lot k @ [t]"
    using kt by (simp add: same lot_rep_waiting [OF rep] i_def [symmetric])
  then show ?thesis
    using e v st(2) lot_rep_wf [OF st(1)] u(2,3) lot_rep_bucket_index [OF rep, of k]
    by (intro exI [of _ "put_bucket tb i (h', b') lot"]) (simp add: park_begin_def i_def)
qed

section \<open>unpark\_all\<close>

lemma unpark_all_queue:
  assumes wf: "lot_wf lot"
  shows "\<exists>lot'. unpark_all k token lot = Some (length (waiting lot k), lot') \<and> lot_wf lot'
    \<and> waiting lot' = (waiting lot)(k := [])
    \<and> (\<forall>u. td_data (threads lot' u) = (if u \<in> set (waiting lot k)
          then wake_data token (td_data (threads lot u)) else td_data (threads lot u)))"
proof -
  obtain tb Q where rep: "lot_rep lot tb Q" using wf by (rule lot_wf_rep)
  define i where "i = idx tb k"
  define h where "h = threads lot"
  note bq = lot_rep_bucket [OF rep, of k, folded i_def h_def]
  from unpark_all_bucket_queue [OF bq, of k token] obtain h' b' where
    u: "unpark_all_bucket k token (h, entries tb ! i) =
        Some ((h', b'), filter (\<lambda>t. key (h t) = k) (Q i))"
      "bucket_queue (h', b') (filter (\<lambda>t. key (h t) \<noteq> k) (Q i))"
      "\<And>u. td_data (h' u) = (if u \<in> set (Q i) \<and> key (h u) = k then wake_data token (td_data (h u))
          else td_data (h u))"
      "\<And>u. u \<notin> set (Q i) \<Longrightarrow> next_in_queue (h' u) = next_in_queue (h u)"
    by blast
  have ky: "key (h' u) = key (h u)" for u
    using arg_cong [OF u(3) [of u], of key] by (simp add: td_data_def wake_data_def split: if_splits)
  have st: "lot_rep (put_bucket tb i (h', b') lot) (tb\<lparr>entries := (entries tb)[i := b']\<rparr>)
        (Q(i := filter (\<lambda>t. key (h t) \<noteq> k) (Q i)))"
    "waiting (put_bucket tb i (h', b') lot) =
        (waiting lot)(k := filter (\<lambda>t. key (h' t) = k) (filter (\<lambda>t. key (h t) \<noteq> k) (Q i)))"
    by (rule lot_step [OF rep i_def u(2), where X = "{}"];
        use u(4) ky in \<open>auto simp: h_def intro: filter_cong\<close>)+
  have w: "waiting lot k = filter (\<lambda>t. key (h t) = k) (Q i)"
    by (simp add: lot_rep_waiting [OF rep] i_def h_def)
  show ?thesis
    using u(1,3) st(2) lot_rep_wf [OF st(1)] lot_rep_bucket_index [OF rep, of k] ky
    by (intro exI [of _ "put_bucket tb i (h', b') lot"]) (simp add: unpark_all_def i_def h_def w)
qed

section \<open>unpark\_filter\<close>

text \<open>The filter run on the threads of the key alone.\<close>

lemma filter_run_filter:
  "filter_run flt tok P fs ts = (fs', ws, rs, m) \<Longrightarrow>
     filter_run flt tok (\<lambda>_. True) fs (filter P ts) = (fs', ws, filter P rs, m)"
  by (induction flt tok P fs ts arbitrary: fs' ws rs m rule: filter_run.induct)
    (auto split: prod.splits FilterOp.splits if_splits)

lemma unpark_filter_queue:
  assumes wf: "lot_wf lot"
    and run: "filter_run flt (\<lambda>t. park_token (threads lot t)) (\<lambda>_. True) fs (waiting lot k) = (fs', ws, rs, m)"
    and res: "res = \<lparr>unparked_threads = length ws, requeued_threads = 0, have_more_threads = (rs \<noteq> []),
      be_fair = (ws \<noteq> [] \<and> bucket_fair lot now k)\<rparr>"
    and cb: "cb fs' res s = (s', token)"
  shows "\<exists>lot'. unpark_filter k now flt fs cb s lot = Some (res, s', lot') \<and> lot_wf lot'
    \<and> waiting lot' = (waiting lot)(k := rs)
    \<and> (\<forall>u. td_data (threads lot' u) = (if u \<in> set ws
          then wake_data token (td_data (threads lot u)) else td_data (threads lot u)))"
proof -
  obtain tb Q where rep: "lot_rep lot tb Q" using wf by (rule lot_wf_rep)
  define i where "i = idx tb k"
  define h where "h = threads lot"
  define b where "b = entries tb ! i"
  note bq = lot_rep_bucket [OF rep, of k, folded i_def h_def, folded b_def]
  note dist = bucket_queueD(3) [OF bq]
  have w: "waiting lot k = filter (\<lambda>t. key (h t) = k) (Q i)"
    by (simp add: lot_rep_waiting [OF rep] i_def h_def)
  obtain g1 ws' qs m' where
    run': "filter_run flt (\<lambda>t. park_token (h t)) (\<lambda>t. key (h t) = k) fs (Q i) = (g1, ws', qs, m')"
    by (cases "filter_run flt (\<lambda>t. park_token (h t)) (\<lambda>t. key (h t) = k) fs (Q i)")
  with filter_run_filter [OF run'] run w have
    eq: "g1 = fs'" "ws' = ws" "m' = m" and rs: "rs = filter (\<lambda>t. key (h t) = k) qs"
    by (simp_all add: h_def)
  note run' = run' [unfolded eq]
  note split = filter_run_split [OF run' dist]
  have m: "m \<longleftrightarrow> rs \<noteq> []" using split by (auto simp: rs filter_empty_conv)
  obtain fair f' where fair: "(if ws \<noteq> [] then should_timeout now (fair_timeout b)
      else (False, fair_timeout b)) = (fair, f')" by fastforce
  have res': "res = \<lparr>unparked_threads = length ws, requeued_threads = 0, have_more_threads = m,
      be_fair = fair\<rparr>"
    using fair by (auto simp: res m bucket_fair_def lot_rep_bucket_index [OF rep] i_def b_def split: if_splits)
  from unpark_filter_bucket_queue [where cb = cb and s = s, OF bq run' fair res' cb] obtain h' b' where
    u: "unpark_filter_bucket k now flt fs cb s (h, b) = Some (s', (h', b'), res, ws)"
      "bucket_queue (h', b') qs"
      "\<And>u. td_data (h' u) = (if u \<in> set ws then wake_data token (td_data (h u)) else td_data (h u))"
      "\<And>u. u \<notin> set (Q i) \<Longrightarrow> next_in_queue (h' u) = next_in_queue (h u)"
    by blast
  have ky: "key (h' u) = key (h u)" for u
    using arg_cong [OF u(3) [of u], of key] by (simp add: td_data_def wake_data_def split: if_splits)
  have other: "filter (\<lambda>t. key (h' t) = k') qs = filter (\<lambda>t. key (h t) = k') (Q i)" if "k' \<noteq> k" for k'
    using split(1) that by (auto simp: split(2) ky intro!: filter_cong)
  have st: "lot_rep (put_bucket tb i (h', b') lot) (tb\<lparr>entries := (entries tb)[i := b']\<rparr>) (Q(i := qs))"
    "waiting (put_bucket tb i (h', b') lot) = (waiting lot)(k := filter (\<lambda>t. key (h' t) = k) qs)"
    by (rule lot_step [OF rep i_def u(2), where X = "{}"];
        use u(4) ky other split(2) in \<open>auto simp: h_def\<close>)+
  show ?thesis
    using u(1,3) st(2) lot_rep_wf [OF st(1)] lot_rep_bucket_index [OF rep, of k] ky
    by (intro exI [of _ "put_bucket tb i (h', b') lot"])
      (simp add: unpark_filter_def i_def h_def b_def rs)
qed

section \<open>Timeouts\<close>

lemma park_timeout_woken:
  assumes "lot_wf lot" and "\<not> timed_out (parker (threads lot t))"
  shows "park_timeout t cb s lot = Some (Unparked (unpark_token (threads lot t)), s, lot)"
  using assms by (auto elim!: lot_wf_rep simp: park_timeout_def lot_rep_bucket_index Let_def)

lemma park_timeout_removed:
  assumes wf: "lot_wf lot" and p: "timed_out (parker (threads lot t))"
    and t: "t \<in> set (waiting lot k)"
  shows "\<exists>lot'. park_timeout t cb s lot = Some (TimedOut, cb k (waiting lot k = [t]) s, lot')
    \<and> lot_wf lot' \<and> waiting lot' = (waiting lot)(k := filter (\<lambda>u. u \<noteq> t) (waiting lot k))
    \<and> (\<forall>u. td_data (threads lot' u) = td_data (threads lot u))"
proof -
  obtain tb Q where rep: "lot_rep lot tb Q" using wf by (rule lot_wf_rep)
  define i where "i = idx tb k"
  define h where "h = threads lot"
  note bq = lot_rep_bucket [OF rep, of k, folded i_def h_def]
  have w: "waiting lot k = filter (\<lambda>t. key (h t) = k) (Q i)"
    by (simp add: lot_rep_waiting [OF rep] i_def h_def)
  have kt: "key (h t) = k" and "t \<in> set (Q i)" using t by (auto simp: w)
  then obtain us vs where q: "Q i = us @ t # vs" by (meson split_list)
  have d: "distinct (us @ t # vs)" using bucket_queueD(3) [OF bq] by (simp add: q)
  from timeout_remove_bucket_queue [OF bq [unfolded q], of k cb s] obtain h' b' where
    u: "timeout_remove_bucket t k cb s (h, entries tb ! i) =
        Some (cb k (\<forall>u\<in>set (us @ vs). key (h u) \<noteq> k) s, (h', b'))"
      "bucket_queue (h', b') (us @ vs)" "\<And>u. td_data (h' u) = td_data (h u)"
      "\<And>u. u \<notin> set us \<Longrightarrow> next_in_queue (h' u) = next_in_queue (h u)"
    by blast
  have ky: "key (h' u) = key (h u)" for u using td_data_eqD(2) [OF u(3)] .
  have last: "(\<forall>u\<in>set (us @ vs). key (h u) \<noteq> k) \<longleftrightarrow> waiting lot k = [t]"
    using kt d by (auto simp: w q filter_empty_conv append_eq_Cons_conv Cons_eq_append_conv)
  have st: "lot_rep (put_bucket tb i (h', b') lot) (tb\<lparr>entries := (entries tb)[i := b']\<rparr>) (Q(i := us @ vs))"
    "waiting (put_bucket tb i (h', b') lot) = (waiting lot)(k := filter (\<lambda>t. key (h' t) = k) (us @ vs))"
    by (rule lot_step [OF rep i_def u(2), where X = "{}"];
        use u(4) ky kt in \<open>auto simp: h_def q\<close>)+
  have "filter (\<lambda>t. key (h' t) = k) (us @ vs) = filter (\<lambda>u. u \<noteq> t) (waiting lot k)"
    using d kt by (auto simp: ky w q intro!: arg_cong2 [where f = "(@)"] filter_cong)
  then show ?thesis
    using u(1,3) st(2) lot_rep_wf [OF st(1)] lot_rep_bucket_index [OF rep, of k] p kt last
    by (intro exI [of _ "put_bucket tb i (h', b') lot"]) (simp add: park_timeout_def i_def h_def Let_def)
qed

section \<open>unpark\_requeue\<close>

lemma lot_rep_heap:
  assumes "lot_rep lot tb Q"
    and "\<And>u. next_in_queue (h' u) = next_in_queue (threads lot u) \<and> key (h' u) = key (threads lot u)"
  shows "lot_rep (lot\<lparr>threads := h'\<rparr>) tb Q"
proof -
  have "bucket_queue (h', b) q = bucket_queue (threads lot, b) q" for b q
    using assms(2) by (intro bucket_queue_cong) simp
  then show ?thesis using assms by (simp add: lot_rep_def)
qed

lemma chain_lst:
  assumes "chain h a rs" and "rs \<noteq> []" and "distinct rs"
  shows "lst (set_next (last rs) None h) (Some (hd rs)) rs"
proof -
  have rs: "rs = butlast rs @ [last rs]" using assms(2) by simp
  have "last rs \<notin> set (butlast rs)" using assms(3) by (subst (asm) rs) simp
  then have "lst (set_next (last rs) None h) (Some (hd rs)) (butlast rs @ [last rs])"
    using assms(1,2) unfolding lst_append by (intro exI [of _ "Some (last rs)"]) (simp add: chain_def)
  then show ?thesis using rs by simp
qed

text \<open>The source bucket after the loop, as a lot of its own.\<close>

lemma requeue_source:
  assumes rep: "lot_rep lot tb Q" and i: "i = idx tb kf" and pick: "requeue_pick op (waiting lot kf) = (wk, mv)"
    and post: "requeue_loop_post kf kt op (Q i) (threads lot, entries tb ! i) ((h1, b1), a)"
  shows "lot_rep (put_bucket tb i (h1, b1) lot) (tb\<lparr>entries := (entries tb)[i := b1]\<rparr>)
      (Q(i := filter (\<lambda>t. t \<notin> set wk \<union> set mv) (Q i)))"
    and "chain h1 a mv"
    and "\<And>u. td_data (h1 u) = (if u \<in> set mv then (td_data (threads lot u))\<lparr>key := kt\<rparr> else td_data (threads lot u))"
    and "wakeup_thread a = (case wk of [] \<Rightarrow> None | t # _ \<Rightarrow> Some t)"
    and "req_result a = \<lparr>unparked_threads = length wk, requeued_threads = length mv,
            have_more_threads = (requeue_one op \<and> 1 < length (waiting lot kf)), be_fair = False\<rparr>"
    and "fair_timeout b1 = fair_timeout (entries tb ! i)"
proof -
  have il: "i < length (entries tb)" using idx_hash(2) [OF lot_repD(2) [OF rep]] i by simp
  have w: "filter (\<lambda>t. key (threads lot t) = kf) (Q i) = waiting lot kf"
    by (simp add: lot_rep_waiting [OF rep] i)
  note p = post [unfolded requeue_loop_post_def Let_def prod.case w pick]
  from p show "chain h1 a mv"
    and data: "\<And>u. td_data (h1 u) = (if u \<in> set mv then (td_data (threads lot u))\<lparr>key := kt\<rparr> else td_data (threads lot u))"
    and "wakeup_thread a = (case wk of [] \<Rightarrow> None | t # _ \<Rightarrow> Some t)"
    and "req_result a = \<lparr>unparked_threads = length wk, requeued_threads = length mv,
            have_more_threads = (requeue_one op \<and> 1 < length (waiting lot kf)), be_fair = False\<rparr>"
    and "fair_timeout b1 = fair_timeout (entries tb ! i)"
    by auto
  have ky: "key (h1 u) = key (threads lot u)" if "u \<notin> set mv" for u
    using td_data_eqD(2) [of "h1 u" "threads lot u"] data [of u] that by simp
  have mv: "set mv \<subseteq> set (Q i)"
    using pick by (cases op) (auto simp: w [symmetric] dest!: in_set_takeD in_set_dropD)
  show "lot_rep (put_bucket tb i (h1, b1) lot) (tb\<lparr>entries := (entries tb)[i := b1]\<rparr>)
      (Q(i := filter (\<lambda>t. t \<notin> set wk \<union> set mv) (Q i)))"
  proof (rule lot_rep_update [OF rep il])
    show "idx tb (key (h1 t)) = i" if "t \<in> set (filter (\<lambda>t. t \<notin> set wk \<union> set mv) (Q i))" for t
      using that ky [of t] lot_rep_idx [OF rep il, of t] by auto
    show "next_in_queue (h1 u) = next_in_queue (threads lot u) \<and> key (h1 u) = key (threads lot u)"
      if "j < length (entries tb)" "j \<noteq> i" "u \<in> set (Q j)" for j u
    proof -
      have "u \<notin> set (Q i)"
        using lot_rep_idx [OF rep il] lot_rep_idx [OF rep that(1,3)] that(2) by auto
      then show ?thesis using p ky [of u] mv by auto
    qed
  qed (use p in auto)
qed

lemma requeue_target:
  assumes rep: "lot_rep lot tb Q" and j: "j = idx tb kt" and ch: "chain (threads lot) a mv"
    and mv: "mv \<noteq> []" "distinct mv" "\<forall>t\<in>set mv. \<not> enqueued lot t \<and> key (threads lot t) = kt"
    and ap: "append_chain (hd mv) (last mv) (set_next (last mv) None (threads lot), entries tb ! j) = (h2, b2)"
  shows "lot_rep (put_bucket tb j (h2, b2) lot) (tb\<lparr>entries := (entries tb)[j := b2]\<rparr>) (Q(j := Q j @ mv))"
    and "\<And>u. td_data (h2 u) = td_data (threads lot u)"
    and "fair_timeout b2 = fair_timeout (entries tb ! j)"
    and "\<And>u. u \<notin> set (Q j) \<Longrightarrow> u \<noteq> last mv \<Longrightarrow> next_in_queue (h2 u) = next_in_queue (threads lot u)"
proof -
  have jl: "j < length (entries tb)" using idx_hash(2) [OF lot_repD(2) [OF rep]] j by simp
  have dj: "set (Q l) \<inter> set mv = {}" if "l < length (entries tb)" for l
    using mv(3) that by (auto simp: lot_rep_enqueued [OF rep])
  define h where "h = set_next (last mv) None (threads lot)"
  have lm: "last mv \<in> set mv" using mv(1) by simp
  have bq: "bucket_queue (h, entries tb ! j) (Q j)"
    using lot_repD(3) [OF rep jl] dj [OF jl] lm
    by (subst bucket_queue_cong [of _ _ "threads lot"]) (auto simp: h_def)
  have l: "lst h (Some (hd mv)) mv" unfolding h_def using chain_lst [OF ch mv(1,2)] .
  note a = append_chain_queue [OF bq l _ mv(2) dj [OF jl] ap [folded h_def]]
  have lp: "last_ptr mv = Some (last mv)" using mv(1) by (simp add: last_ptr_def)
  show dt: "td_data (h2 u) = td_data (threads lot u)" for u
    using a(2) [OF lp, of u] by (simp add: h_def)
  show "fair_timeout b2 = fair_timeout (entries tb ! j)" using a(4) [OF lp] .
  show fr: "next_in_queue (h2 u) = next_in_queue (threads lot u)" if "u \<notin> set (Q j)" "u \<noteq> last mv" for u
    using a(3) [OF lp that(1)] that(2) by (simp add: h_def)
  have ky: "key (h2 u) = key (threads lot u)" for u using td_data_eqD(2) [OF dt] .
  show "lot_rep (put_bucket tb j (h2, b2) lot) (tb\<lparr>entries := (entries tb)[j := b2]\<rparr>) (Q(j := Q j @ mv))"
  proof (rule lot_rep_update [OF rep jl a(1) [OF lp]])
    show "idx tb (key (h2 t)) = j" if "t \<in> set (Q j @ mv)" for t
      using that mv(3) lot_rep_idx [OF rep jl, of t] j by (auto simp: ky)
    show "next_in_queue (h2 u) = next_in_queue (threads lot u) \<and> key (h2 u) = key (threads lot u)"
      if "l < length (entries tb)" "l \<noteq> j" "u \<in> set (Q l)" for l u
    proof -
      have "u \<notin> set (Q j)"
        using lot_rep_idx [OF rep jl] lot_rep_idx [OF rep that(1,3)] that(2) by auto
      moreover have "u \<noteq> last mv" using dj [OF that(1)] lm that(3) by auto
      ultimately show ?thesis using fr ky by simp
    qed
  qed
qed

lemma unpark_requeue_abort:
  assumes "lot_wf lot" and "validate s = (s1, Abort)"
  shows "unpark_requeue kf kt now validate cb s lot = Some (UnparkResult_default, s1, lot)"
proof -
  obtain tb Q where rep: "lot_rep lot tb Q" using assms(1) by (rule lot_wf_rep)
  then show ?thesis
    using assms(2) lot_repD(1) [OF rep]
    by (simp add: unpark_requeue_def unpark_requeue_table_def lot_rep_bucket_index [OF rep])
qed

lemma waiting_requeued:
  assumes rep: "lot_rep lot tb Q" and rep': "lot_rep lot' tb' Q'" and tb': "hash_bits tb' = hash_bits tb"
    and i: "i = idx tb kf" and j: "j = idx tb kt"
    and Q': "Q' = (let Q1 = Q(i := filter (\<lambda>t. t \<notin> set wk \<union> set mv) (Q i)) in Q1(j := Q1 j @ mv))"
    and mv: "set mv \<subseteq> set (waiting lot kf)" and wk: "set wk \<subseteq> set (waiting lot kf)"
    and ky: "\<And>u. key (threads lot' u) = (if u \<in> set mv then kt else key (threads lot u))"
  shows "waiting lot' = (let W = (waiting lot)(kf := filter (\<lambda>t. t \<notin> set wk \<union> set mv) (waiting lot kf))
     in W(kt := W kt @ mv))"
proof
  fix k
  have idx': "idx tb' = idx tb" by (simp add: idx_def tb' fun_eq_iff)
  have mvk: "key (threads lot t) = kf" if "t \<in> set mv \<union> set wk" for t
    using mv wk that by (auto simp: lot_rep_waiting [OF rep])
  have il: "l < length (entries tb) \<Longrightarrow> l \<noteq> i \<Longrightarrow> set (Q l) \<inter> set mv = {}" for l
    using mvk lot_rep_idx [OF rep] i by fastforce
  let ?q1 = "filter (\<lambda>t. t \<notin> set wk \<union> set mv) (Q i)"
  have f1: "filter (\<lambda>t. key (threads lot' t) = k) ?q1 =
      (if k = kf then filter (\<lambda>t. t \<notin> set wk \<union> set mv) (filter (\<lambda>t. key (threads lot t) = kf) (Q i))
       else filter (\<lambda>t. key (threads lot t) = k) (Q i))"
    using mvk by (auto simp: ky intro!: filter_cong)
  have f2: "filter (\<lambda>t. key (threads lot' t) = k) (Q l) = filter (\<lambda>t. key (threads lot t) = k) (Q l)"
    if "l < length (entries tb)" "l \<noteq> i" for l
    using il [OF that] by (auto simp: ky intro!: filter_cong)
  have f3: "filter (\<lambda>t. key (threads lot' t) = k) mv = (if k = kt then mv else [])"
    by (auto simp: ky filter_empty_conv filter_id_conv)
  note lt = idx_hash(2) [OF lot_repD(2) [OF rep]]
  show "waiting lot' k = (let W = (waiting lot)(kf := filter (\<lambda>t. t \<notin> set wk \<union> set mv) (waiting lot kf))
     in W(kt := W kt @ mv)) k"
    unfolding lot_rep_waiting [OF rep] lot_rep_waiting [OF rep'] idx' Q' Let_def
    using f1 f2 [OF lt, of k] f3 i j
    by (cases "k = kf"; cases "k = kt"; cases "idx tb k = i"; cases "idx tb k = j") simp_all
qed

lemma requeue_pick_set:
  assumes "requeue_pick op ms = (wk, mv)" and "distinct ms"
  shows "set wk \<subseteq> set ms" "set mv \<subseteq> set ms" "distinct mv" "length wk \<le> 1"
  using assms by (cases op; auto dest!: in_set_takeD in_set_dropD)+

lemma requeue_linked:
  assumes rep: "lot_rep lot tb Q" and j: "j = idx tb kt" and ch: "chain (threads lot) a mv"
    and mv: "distinct mv" "\<forall>t\<in>set mv. \<not> enqueued lot t \<and> key (threads lot t) = kt"
    and ln: "requeue_link j a (threads lot, entries tb) = (h2, bs2)"
  shows "lot_rep (lot\<lparr>HASHTABLE := Some (tb\<lparr>entries := bs2\<rparr>), threads := h2\<rparr>) (tb\<lparr>entries := bs2\<rparr>)
      (Q(j := Q j @ mv))"
    and "\<And>u. td_data (h2 u) = td_data (threads lot u)"
    and "\<And>i. i < length (entries tb) \<Longrightarrow> fair_timeout (bs2 ! i) = fair_timeout (entries tb ! i)"
proof -
  have "lot_rep (lot\<lparr>HASHTABLE := Some (tb\<lparr>entries := bs2\<rparr>), threads := h2\<rparr>) (tb\<lparr>entries := bs2\<rparr>)
      (Q(j := Q j @ mv)) \<and> (\<forall>u. td_data (h2 u) = td_data (threads lot u)) \<and>
     (\<forall>i < length (entries tb). fair_timeout (bs2 ! i) = fair_timeout (entries tb ! i))"
  proof (cases "mv = []")
    case True
    then show ?thesis
      using ln ch rep lot_repD(1) [OF rep] by (auto simp: requeue_link_def chain_def lot_rep_def)
  next
    case False
    obtain h' b' where ap: "append_chain (hd mv) (last mv)
        (set_next (last mv) None (threads lot), entries tb ! j) = (h', b')" by fastforce
    have "h2 = h'" "bs2 = (entries tb)[j := b']"
      using ln ch False ap by (auto simp: requeue_link_def chain_def last_ptr_def)
    then show ?thesis
      using requeue_target [OF rep j ch False mv ap] idx_hash(2) [OF lot_repD(2) [OF rep], of kt] j by (auto simp: put_bucket_def nth_list_update)
  qed
  then show "lot_rep (lot\<lparr>HASHTABLE := Some (tb\<lparr>entries := bs2\<rparr>), threads := h2\<rparr>) (tb\<lparr>entries := bs2\<rparr>)
      (Q(j := Q j @ mv))" "\<And>u. td_data (h2 u) = td_data (threads lot u)"
    "\<And>i. i < length (entries tb) \<Longrightarrow> fair_timeout (bs2 ! i) = fair_timeout (entries tb ! i)"
    by blast+
qed

lemma lot_rep_fair:
  assumes rep: "lot_rep lot tb Q" and i: "i < length (entries tb)"
  shows "lot_rep (put_bucket tb i (threads lot, (entries tb ! i)\<lparr>fair_timeout := f\<rparr>) lot)
     (tb\<lparr>entries := (entries tb)[i := (entries tb ! i)\<lparr>fair_timeout := f\<rparr>]\<rparr>) Q"
proof -
  have "lot_rep (put_bucket tb i (threads lot, (entries tb ! i)\<lparr>fair_timeout := f\<rparr>) lot)
     (tb\<lparr>entries := (entries tb)[i := (entries tb ! i)\<lparr>fair_timeout := f\<rparr>]\<rparr>) (Q(i := Q i))"
    by (rule lot_rep_update [OF rep i])
      (use lot_repD(3) [OF rep i] lot_rep_idx [OF rep i] in simp_all)
  then show ?thesis by simp
qed

lemma unpark_requeue_moves:
  assumes wf: "lot_wf lot" and v: "validate s = (s1, op)" and op: "op \<noteq> Abort"
    and pick: "requeue_pick op (waiting lot kf) = (wk, mv)"
    and res: "res = \<lparr>unparked_threads = length wk, requeued_threads = length mv,
      have_more_threads = (requeue_one op \<and> 1 < length (waiting lot kf)),
      be_fair = (wk \<noteq> [] \<and> bucket_fair lot now kf)\<rparr>"
    and cb: "cb op res s1 = (s2, token)"
  shows "\<exists>lot'. unpark_requeue kf kt now validate cb s lot = Some (res, s2, lot') \<and> lot_wf lot'
    \<and> waiting lot' = (let W = (waiting lot)(kf := filter (\<lambda>t. t \<notin> set wk \<union> set mv) (waiting lot kf))
        in W(kt := W kt @ mv))
    \<and> (\<forall>u. td_data (threads lot' u) =
        (if u \<in> set wk then wake_data token (td_data (threads lot u))
         else if u \<in> set mv then (td_data (threads lot u))\<lparr>key := kt\<rparr> else td_data (threads lot u)))"
proof -
  obtain tb Q where rep: "lot_rep lot tb Q" using wf by (rule lot_wf_rep)
  define i j where "i = idx tb kf" and "j = idx tb kt"
  have il: "i < length (entries tb)" using idx_hash(2) [OF lot_repD(2) [OF rep]] by (simp add: i_def)
  note bq = lot_rep_bucket [OF rep, of kf, folded i_def]
  note pk = requeue_pick_set [OF pick waiting_distinct [OF wf]]
  obtain h1 b1 a where lp: "requeue_loop kf kt op QueueHead None (queue_head (entries tb ! i)) requeue_start
      (threads lot, entries tb ! i) = Some ((h1, b1), a)"
    and post: "requeue_loop_post kf kt op (Q i) (threads lot, entries tb ! i) ((h1, b1), a)"
    by (rule requeue_loop_post [OF bq op])
  note src = requeue_source [OF rep i_def pick post]
  define lot1 tb1 where "lot1 = put_bucket tb i (h1, b1) lot" and "tb1 = tb\<lparr>entries := (entries tb)[i := b1]\<rparr>"
  note rep1 = src(1) [folded lot1_def tb1_def]
  have dj: "wm \<notin> set mv" if "wm \<in> set wk" for wm
    using pick waiting_distinct [OF wf, of kf] that by (cases op; cases "waiting lot kf") auto
  have mvp: "\<forall>t\<in>set mv. \<not> enqueued lot1 t \<and> key (threads lot1 t) = kt"
  proof (intro ballI conjI)
    fix t assume t: "t \<in> set mv"
    have "t \<in> set (Q i)" using pk(2) t by (auto simp: lot_rep_waiting [OF rep] i_def)
    then have "t \<notin> set (Q l)" if "l < length (entries tb)" "l \<noteq> i" for l
      using that lot_rep_idx [OF rep il] lot_rep_idx [OF rep that(1)] by metis
    then show "\<not> enqueued lot1 t"
      using t by (auto simp: lot_rep_enqueued [OF rep1] tb1_def)
    show "key (threads lot1 t) = kt"
      using t arg_cong [OF src(3) [of t], of key] by (simp add: lot1_def td_data_def)
  qed
  have j1: "j = idx tb1 kt" by (simp add: j_def tb1_def idx_def)
  obtain h2 bs2 where ln: "requeue_link j a (h1, (entries tb)[i := b1]) = (h2, bs2)" by fastforce
  have ch1: "chain (threads lot1) a mv" using src(2) by (simp add: lot1_def)
  have ln1: "requeue_link j a (threads lot1, entries tb1) = (h2, bs2)"
    using ln by (simp add: lot1_def tb1_def)
  note lk = requeue_linked [OF rep1 j1 ch1 pk(3) mvp ln1]
  have il1: "i < length (entries tb1)" using il by (simp add: tb1_def)
  have lens: "length bs2 = length (entries tb)"
    using lot_repD(2) [OF lk(1)] lot_repD(2) [OF rep] by (simp add: table_ok_def tb1_def)
  have ft: "fair_timeout (bs2 ! i) = fair_timeout (entries tb ! i)"
    using lk(3) [OF il1] src(6) il by (simp add: tb1_def)
  obtain fair f' where fair: "(if wk \<noteq> [] then should_timeout now (fair_timeout (bs2 ! i))
      else (False, fair_timeout (bs2 ! i))) = (fair, f')" by fastforce
  have res': "(req_result a)\<lparr>be_fair := fair\<rparr> = res"
    using fair by (auto simp: src(5) res ft [unfolded i_def] bucket_fair_def lot_rep_bucket_index [OF rep] i_def split: if_splits)
  define h3 where "h3 = (case wk of [] \<Rightarrow> h2 | t # _ \<Rightarrow> wake_thread token t h2)"
  define lot' where "lot' = lot\<lparr>HASHTABLE := Some (tb\<lparr>entries := bs2[i := (bs2 ! i)\<lparr>fair_timeout := f'\<rparr>]\<rparr>), threads := h3\<rparr>"
  have run: "unpark_requeue kf kt now validate cb s lot = Some (res, s2, lot')"
    using v op lp ln fair res' cb
    by (simp add: unpark_requeue_def unpark_requeue_table_def lot_rep_bucket_index [OF rep]
        i_def [symmetric] j_def [symmetric] src(4,5) Let_def lot'_def h3_def split: list.splits)
  have il2: "i < length (entries (tb1\<lparr>entries := bs2\<rparr>))" using il lens by simp
  have rep': "lot_rep lot' (tb\<lparr>entries := bs2[i := (bs2 ! i)\<lparr>fair_timeout := f'\<rparr>]\<rparr>)
     (let Q1 = Q(i := filter (\<lambda>t. t \<notin> set wk \<union> set mv) (Q i)) in Q1(j := Q1 j @ mv))"
    using lot_rep_heap [OF lot_rep_fair [OF lk(1) il2, of f'], of h3]
    by (simp add: put_bucket_def lot'_def lot1_def tb1_def h3_def Let_def split: list.splits)
  have data: "td_data (threads lot' u) =
        (if u \<in> set wk then wake_data token (td_data (threads lot u))
         else if u \<in> set mv then (td_data (threads lot u))\<lparr>key := kt\<rparr> else td_data (threads lot u))" for u
    using lk(2) [of u] src(3) [of u] pk(4) dj [of u]
    by (cases wk) (auto simp: lot'_def h3_def lot1_def)
  have ky: "key (threads lot' u) = (if u \<in> set mv then kt else key (threads lot u))" for u
    using arg_cong [OF data [of u], of key] dj [of u]
    by (auto simp: td_data_def wake_data_def split: if_splits)
  have "waiting lot' = (let W = (waiting lot)(kf := filter (\<lambda>t. t \<notin> set wk \<union> set mv) (waiting lot kf))
        in W(kt := W kt @ mv))"
    by (rule waiting_requeued [OF rep rep' _ i_def j_def refl pk(2,1) ky]) simp
  with run lot_rep_wf [OF rep'] data show ?thesis by blast
qed

end
