(* ===== verification/Lot_Grow.thy ===== *)
theory Lot_Grow
  imports Lot_Refine
begin

text \<open>
  Growing the hash table: every parked thread is moved to the bucket of the new table its
  key belongs to, and no thread is lost, duplicated or overtaken by a thread of its key.
\<close>

section \<open>Rehashing\<close>

definition table_rep :: "heap \<Rightarrow> HashTable \<Rightarrow> (nat \<Rightarrow> tid list) \<Rightarrow> bool" where
  "table_rep h tb Q \<longleftrightarrow> lot_rep \<lparr>NUM_THREADS = 0, HASHTABLE = Some tb, threads = h\<rparr> tb Q"

lemma table_rep_lot:
  "HASHTABLE lot = Some tb \<Longrightarrow> lot_rep lot tb Q \<longleftrightarrow> table_rep (threads lot) tb Q"
  by (simp add: table_rep_def lot_rep_def)

lemma rehash_thread_append:
  assumes b: "bucket_queue (h, b) q" and c: "c \<notin> set q"
  shows "(let (h1, b1) = (case queue_tail b of
             None \<Rightarrow> (h, b\<lparr>queue_head := Some c\<rparr>)
           | Some tail \<Rightarrow> (set_next tail (Some c) h, b))
      in (set_next c None h1, b1\<lparr>queue_tail := Some c\<rparr>)) =
     append_chain c c (set_next c None h, b)"
proof (cases q rule: rev_cases)
  case Nil
  with b show ?thesis by (simp add: bucket_queue_def append_chain_def)
next
  case (snoc us t)
  have t: "queue_tail b = Some t" using b by (simp add: bucket_queue_def snoc)
  obtain x where x: "queue_head b = Some x" using b snoc by (cases us) (auto simp: bucket_queue_def)
  have "t \<noteq> c" using c snoc by auto
  then have "set_next c None (set_next t (Some c) h) = set_next t (Some c) (set_next c None h)"
    by (auto simp: set_next_def)
  then show ?thesis by (simp add: append_chain_def t x)
qed

lemma rehash_thread_rep:
  assumes rep: "table_rep h tb Q" and c: "\<And>i. i < length (entries tb) \<Longrightarrow> c \<notin> set (Q i)"
    and i: "i = idx tb (key (h c))"
  shows "\<exists>h' tb'. rehash_thread c (h, tb) = Some (h', tb') \<and> table_rep h' tb' (Q(i := Q i @ [c]))
    \<and> hash_bits tb' = hash_bits tb \<and> length (entries tb') = length (entries tb)
    \<and> (\<forall>u. td_data (h' u) = td_data (h u))
    \<and> (\<forall>u. u \<notin> set (Q i) \<and> u \<noteq> c \<longrightarrow> next_in_queue (h' u) = next_in_queue (h u))"
proof -
  let ?lot = "\<lparr>NUM_THREADS = 0, HASHTABLE = Some tb, threads = h\<rparr>"
  let ?a = "requeue_start\<lparr>requeue_threads := Some c, requeue_threads_tail := Some c\<rparr>"
  have rep': "lot_rep ?lot tb Q" using rep by (simp add: table_rep_def)
  note ok = lot_repD(2) [OF rep']
  have il: "i < length (entries tb)" using idx_hash(2) [OF ok] i by simp
  have ch: "chain (threads ?lot) ?a [c]" by (simp add: chain_def last_ptr_def)
  have mv: "[c] \<noteq> []" "distinct [c]" "\<forall>t\<in>set [c]. \<not> enqueued ?lot t \<and> key (threads ?lot t) = key (h c)"
    using c by (auto simp: lot_rep_enqueued [OF rep'])
  obtain h2 b2 where ap: "append_chain (hd [c]) (last [c])
      (set_next (last [c]) None (threads ?lot), entries tb ! i) = (h2, b2)" by fastforce
  note tg = requeue_target [OF rep' i ch mv ap]
  have bq: "bucket_queue (h, entries tb ! i) (Q i)" using lot_repD(3) [OF rep' il] by simp
  have run: "rehash_thread c (h, tb) = Some (h2, tb\<lparr>entries := (entries tb)[i := b2]\<rparr>)"
    using rehash_thread_append [OF bq c [OF il]] idx_hash(1) [OF ok, of "key (h c)"] il ap
    by (auto simp: rehash_thread_def i [symmetric] Let_def split: prod.splits)
  have "table_rep h2 (tb\<lparr>entries := (entries tb)[i := b2]\<rparr>) (Q(i := Q i @ [c]))"
    using tg(1) by (simp add: table_rep_def put_bucket_def)
  with run tg(2,4) show ?thesis by auto
qed

lemma rehash_bucket_into_rep:
  assumes "table_rep h tb Q" and "lst h p cs" and "distinct cs"
    and "\<And>i. i < length (entries tb) \<Longrightarrow> set cs \<inter> set (Q i) = {}"
  shows "\<exists>h' tb'. rehash_bucket_into p (h, tb) = Some (h', tb')
    \<and> table_rep h' tb' (\<lambda>i. Q i @ filter (\<lambda>t. idx tb (key (h t)) = i) cs)
    \<and> hash_bits tb' = hash_bits tb \<and> length (entries tb') = length (entries tb)
    \<and> (\<forall>u. td_data (h' u) = td_data (h u))
    \<and> (\<forall>u. u \<notin> set cs \<and> (\<forall>i<length (entries tb). u \<notin> set (Q i)) \<longrightarrow>
          next_in_queue (h' u) = next_in_queue (h u))"
  using assms
proof (induction cs arbitrary: h tb Q p)
  case Nil
  then show ?case by (simp add: rehash_bucket_into.simps)
next
  case (Cons c cs)
  define i where "i = idx tb (key (h c))"
  have il: "i < length (entries tb)"
    using Cons.prems(1) idx_hash(2) lot_repD(2) by (auto simp: table_rep_def i_def)
  have p: "p = Some c" and l: "lst h (next_in_queue (h c)) cs" and cs: "c \<notin> set cs" "distinct cs"
    using Cons.prems(2,3) by auto
  have cQ: "c \<notin> set (Q l)" if "l < length (entries tb)" for l using Cons.prems(4) [OF that] by auto
  from rehash_thread_rep [OF Cons.prems(1) cQ i_def] obtain h1 tb1 where
    r: "rehash_thread c (h, tb) = Some (h1, tb1)" "table_rep h1 tb1 (Q(i := Q i @ [c]))"
      "hash_bits tb1 = hash_bits tb" "length (entries tb1) = length (entries tb)"
      "\<And>u. td_data (h1 u) = td_data (h u)"
      "\<And>u. u \<notin> set (Q i) \<Longrightarrow> u \<noteq> c \<Longrightarrow> next_in_queue (h1 u) = next_in_queue (h u)"
    by blast
  have l1: "lst h1 (next_in_queue (h c)) cs"
    using l cs Cons.prems(4) [OF il] r(6) by (subst lst_cong [of _ _ h]) auto
  have d1: "set cs \<inter> set ((Q(i := Q i @ [c])) l) = {}" if "l < length (entries tb1)" for l
    using cs Cons.prems(4) [of l] that r(4) by auto
  have idx1: "idx tb1 (key (h1 t)) = idx tb (key (h t))" for t
    using td_data_eqD(2) [OF r(5)] by (simp add: idx_def r(3))
  from Cons.IH [OF r(2) l1 cs(2) d1] obtain h2 tb2 where
    IH: "rehash_bucket_into (next_in_queue (h c)) (h1, tb1) = Some (h2, tb2)"
      "table_rep h2 tb2 (\<lambda>l. (Q(i := Q i @ [c])) l @ filter (\<lambda>t. idx tb (key (h t)) = l) cs)"
      "hash_bits tb2 = hash_bits tb1" "length (entries tb2) = length (entries tb1)"
      "\<And>u. td_data (h2 u) = td_data (h1 u)"
      "\<And>u. u \<notin> set cs \<and> (\<forall>l<length (entries tb1). u \<notin> set ((Q(i := Q i @ [c])) l)) \<Longrightarrow>
          next_in_queue (h2 u) = next_in_queue (h1 u)"
    unfolding idx1 by blast
  have Q': "(\<lambda>l. (Q(i := Q i @ [c])) l @ filter (\<lambda>t. idx tb (key (h t)) = l) cs) =
      (\<lambda>l. Q l @ filter (\<lambda>t. idx tb (key (h t)) = l) (c # cs))"
    by (auto simp: i_def)
  have fr: "next_in_queue (h2 u) = next_in_queue (h u)"
    if "u \<notin> set (c # cs)" "\<forall>l<length (entries tb). u \<notin> set (Q l)" for u
    using that IH(6) [of u] r(6) [of u] r(4) il by auto
  show ?case
    using r(1,3,4,5) IH(1,2,3,4,5) fr unfolding Q' p
    by (subst rehash_bucket_into.simps) (auto simp: Let_def)
qed

lemma rehash_all_rep:
  assumes "table_rep h tb Q" and "list_all2 (\<lambda>b q. bucket_queue (h, b) q) bs qs"
    and "distinct (concat qs)"
    and "\<And>i. i < length (entries tb) \<Longrightarrow> set (concat qs) \<inter> set (Q i) = {}"
  shows "\<exists>h' tb'. rehash_all bs (h, tb) = Some (h', tb')
    \<and> table_rep h' tb' (\<lambda>i. Q i @ filter (\<lambda>t. idx tb (key (h t)) = i) (concat qs))
    \<and> hash_bits tb' = hash_bits tb \<and> length (entries tb') = length (entries tb)
    \<and> (\<forall>u. td_data (h' u) = td_data (h u))"
  using assms
proof (induction bs arbitrary: h tb Q qs)
  case Nil
  then show ?case by simp
next
  case (Cons b bs)
  then obtain q qs' where qs: "qs = q # qs'" and b: "bucket_queue (h, b) q"
    and bs: "list_all2 (\<lambda>b q. bucket_queue (h, b) q) bs qs'"
    by (auto simp: list_all2_Cons1)
  have d: "distinct q" "distinct (concat qs')" "set q \<inter> set (concat qs') = {}"
    using Cons.prems(3) by (auto simp: qs)
  have dQ: "set q \<inter> set (Q i) = {}" "set (concat qs') \<inter> set (Q i) = {}" if "i < length (entries tb)" for i
    using Cons.prems(4) [OF that] by (auto simp: qs)
  from rehash_bucket_into_rep [OF Cons.prems(1) bucket_queueD(1) [OF b] d(1) dQ(1)]
  obtain h1 tb1 where
    r: "rehash_bucket_into (queue_head b) (h, tb) = Some (h1, tb1)"
      "table_rep h1 tb1 (\<lambda>i. Q i @ filter (\<lambda>t. idx tb (key (h t)) = i) q)"
      "hash_bits tb1 = hash_bits tb" "length (entries tb1) = length (entries tb)"
      "\<And>u. td_data (h1 u) = td_data (h u)"
      "\<And>u. u \<notin> set q \<Longrightarrow> (\<forall>i<length (entries tb). u \<notin> set (Q i)) \<Longrightarrow>
          next_in_queue (h1 u) = next_in_queue (h u)"
    by blast
  have sep: "t \<notin> set q \<and> (\<forall>i<length (entries tb). t \<notin> set (Q i))" if "t \<in> set (concat qs')" for t
    using d(3) dQ(2) that by blast
  have same: "bucket_queue (h1, b') q' = bucket_queue (h, b') q'" if "set q' \<subseteq> set (concat qs')" for b' q'
    using that sep by (intro bucket_queue_cong r(6)) (auto simp del: set_concat)
  have bs1: "list_all2 (\<lambda>b q. bucket_queue (h1, b) q) bs qs'"
    using bs by (rule list.rel_mono_strong) (use same in auto)
  have d1: "set (concat qs') \<inter> set (Q i @ filter (\<lambda>t. idx tb (key (h t)) = i) q) = {}"
    if "i < length (entries tb1)" for i
    using dQ(2) [of i] d(3) that r(4) by auto
  have idx1: "idx tb1 (key (h1 t)) = idx tb (key (h t))" for t
    using td_data_eqD(2) [OF r(5)] by (simp add: idx_def r(3))
  from Cons.IH [OF r(2) bs1 d(2) d1] show ?case
    using r(1,3,4,5) by (auto simp: idx1 qs)
qed

section \<open>grow\_hashtable\<close>

lemma filter_concat_one:
  assumes "i < n" and "\<And>j. j < n \<Longrightarrow> j \<noteq> i \<Longrightarrow> filter P (Q j) = []"
  shows "filter P (concat (map Q [0..<n])) = filter P (Q i)"
proof -
  have n: "[0..<n] = [0..<i] @ i # [Suc i..<n]"
    using assms(1) by (metis upt_add_eq_append upt_conv_Cons le_add_diff_inverse less_or_eq_imp_le zero_le)
  have "filter P (concat (map Q js)) = []" if "\<forall>j\<in>set js. j < n \<and> j \<noteq> i" for js
    using that assms(2) by (induction js) auto
  from this [of "[0..<i]"] this [of "[Suc i..<n]"] assms(1) show ?thesis by (simp add: n)
qed

lemma new_table_rep:
  assumes "HashTable_new now n = Some tb" and "0 < n"
  shows "table_rep h tb (\<lambda>_. [])"
  using HashTable_new_ok(1) [OF assms] assms(1)
  by (auto simp: table_rep_def lot_rep_def HashTable_new_def Let_def Bucket_new_def bucket_queue_def
      split: if_splits)

lemma lot_rep_concat:
  assumes rep: "lot_rep lot tb Q"
  shows "distinct (concat (map Q [0..<length (entries tb)]))"
    and "filter (\<lambda>t. key (threads lot t) = k) (concat (map Q [0..<length (entries tb)])) = waiting lot k"
proof -
  let ?n = "length (entries tb)"
  have dis: "set (Q i) \<inter> set (Q j) = {}" if "i < ?n" "j < ?n" "i \<noteq> j" for i j
    using lot_rep_idx [OF rep that(1)] lot_rep_idx [OF rep that(2)] that(3) by auto
  have "distinct (concat (map Q [0..<m]))" if "m \<le> ?n" for m
    using that
  proof (induction m)
    case (Suc m)
    have "distinct (Q m)" using lot_repD(3) [OF rep, of m] Suc.prems by (simp add: bucket_queue_def)
    moreover have "set (concat (map Q [0..<m])) \<inter> set (Q m) = {}"
    proof -
      have "set (Q i) \<inter> set (Q m) = {}" if "i < m" for i using that Suc.prems by (intro dis) auto
      then show ?thesis by fastforce
    qed
    ultimately show ?case using Suc by auto
  qed simp
  then show "distinct (concat (map Q [0..<?n]))" by blast
  show "filter (\<lambda>t. key (threads lot t) = k) (concat (map Q [0..<?n])) = waiting lot k"
    unfolding lot_rep_waiting [OF rep]
  proof (rule filter_concat_one)
    show "idx tb k < ?n" using idx_hash(2) [OF lot_repD(2) [OF rep]] .
    show "filter (\<lambda>t. key (threads lot t) = k) (Q j) = []" if "j < ?n" "j \<noteq> idx tb k" for j
      using that lot_rep_idx [OF rep that(1)] by (auto simp: filter_empty_conv)
  qed
qed

lemma grow_hashtable_waiting:
  assumes wf: "lot_wf lot" and n: "0 < n" "n * LOAD_FACTOR \<le> 2 ^ 62"
  shows "\<exists>lot' tb'. grow_hashtable now n lot = Some lot' \<and> lot_wf lot'
    \<and> HASHTABLE lot' = Some tb' \<and> LOAD_FACTOR * n \<le> length (entries tb')
    \<and> waiting lot' = waiting lot \<and> (\<forall>u. td_data (threads lot' u) = td_data (threads lot u))
    \<and> NUM_THREADS lot' = NUM_THREADS lot"
proof -
  obtain tb Q where rep: "lot_rep lot tb Q" using wf by (rule lot_wf_rep)
  note tb = lot_repD(1) [OF rep]
  show ?thesis
  proof (cases "LOAD_FACTOR * n \<le> length (entries tb)")
    case True
    then show ?thesis using wf tb by (simp add: grow_hashtable_def get_hashtable_def)
  next
    case False
    obtain nt where nt: "HashTable_new now n = Some nt" using HashTable_new_Some [OF n] by blast
    let ?qs = "map Q [0..<length (entries tb)]"
    have qs: "list_all2 (\<lambda>b q. bucket_queue (threads lot, b) q) (entries tb) ?qs"
      by (auto simp: list_all2_conv_all_nth intro: lot_repD(3) [OF rep])
    have d: "set (concat ?qs) \<inter> set [] = {}" for i :: nat by simp
    from rehash_all_rep [OF new_table_rep [OF nt n(1)] qs lot_rep_concat(1) [OF rep] d]
    obtain h' tb' where r: "rehash_all (entries tb) (threads lot, nt) = Some (h', tb')"
        "table_rep h' tb' (\<lambda>i. filter (\<lambda>t. idx nt (key (threads lot t)) = i) (concat ?qs))"
        "hash_bits tb' = hash_bits nt" "length (entries tb') = length (entries nt)"
        "\<And>u. td_data (h' u) = td_data (threads lot u)"
      by auto
    define lot' where "lot' = lot\<lparr>HASHTABLE := Some tb', threads := h'\<rparr>"
    have rep': "lot_rep lot' tb' (\<lambda>i. filter (\<lambda>t. idx nt (key (threads lot t)) = i) (concat ?qs))"
      using r(2) table_rep_lot [of lot' tb'] by (simp add: lot'_def)
    have ky: "key (h' u) = key (threads lot u)" for u using td_data_eqD(2) [OF r(5)] .
    have "waiting lot' k = waiting lot k" for k
    proof -
      have "waiting lot' k = filter (\<lambda>t. key (threads lot t) = k)
          (filter (\<lambda>t. idx nt (key (threads lot t)) = idx nt k) (concat ?qs))"
        unfolding lot_rep_waiting [OF rep'] by (simp add: lot'_def ky idx_def r(3))
      also have "\<dots> = filter (\<lambda>t. key (threads lot t) = k) (concat ?qs)"
        by (simp only: filter_filter) (rule filter_cong, auto)
      also have "\<dots> = waiting lot k" by (rule lot_rep_concat(2) [OF rep])
      finally show ?thesis .
    qed
    moreover have "grow_hashtable now n lot = Some lot'"
      using False nt r(1) by (simp add: grow_hashtable_def get_hashtable_def tb lot'_def)
    ultimately show ?thesis
      using lot_rep_wf [OF rep'] r(4,5) HashTable_new_ok(2) [OF nt n(1)]
      by (intro exI [of _ lot'] exI [of _ tb']) (auto simp: lot'_def)
  qed
qed

text \<open>A thread that registers keeps every queue, and the table keeps the load factor.\<close>

lemma ThreadData_new_waiting:
  assumes wf: "lot_wf lot" and t: "\<not> enqueued lot t" and n: "Suc (NUM_THREADS lot) * LOAD_FACTOR \<le> 2 ^ 62"
  shows "\<exists>lot' tb'. ThreadData_new now t lot = Some lot' \<and> lot_wf lot' \<and> waiting lot' = waiting lot
    \<and> HASHTABLE lot' = Some tb' \<and> LOAD_FACTOR * NUM_THREADS lot' \<le> length (entries tb')
    \<and> NUM_THREADS lot' = Suc (NUM_THREADS lot) \<and> threads lot' t = ThreadData_init"
proof -
  define l0 where "l0 = lot\<lparr>NUM_THREADS := Suc (NUM_THREADS lot)\<rparr>"
  have l0: "HASHTABLE l0 = HASHTABLE lot" "threads l0 = threads lot" by (simp_all add: l0_def)
  have wf0: "lot_wf l0" using wf unfolding lot_wf_def l0 .
  have w0: "waiting l0 = waiting lot" unfolding fun_eq_iff waiting_def bucket_index_def l0 by simp
  from grow_hashtable_waiting [OF wf0 _ n, of now] obtain l1 tb1 where
    g: "grow_hashtable now (Suc (NUM_THREADS lot)) l0 = Some l1" "lot_wf l1" "HASHTABLE l1 = Some tb1"
      "LOAD_FACTOR * Suc (NUM_THREADS lot) \<le> length (entries tb1)" "waiting l1 = waiting lot"
      "NUM_THREADS l1 = Suc (NUM_THREADS lot)"
    by (auto simp: w0) (simp add: l0_def)
  obtain tb2 Q where rep: "lot_rep l1 tb2 Q" using g(2) by (rule lot_wf_rep)
  define l2 where "l2 = l1\<lparr>threads := (threads l1)(t := ThreadData_init)\<rparr>"
  have tQ: "t \<notin> set (Q i)" if "i < length (entries tb2)" for i
    using t lot_rep_enqueued [OF rep, of t] that by (auto simp: enqueued_def g(5))
  have bq: "bucket_queue (threads l2, b) (Q i) = bucket_queue (threads l1, b) (Q i)"
    if "i < length (entries tb2)" for i b
    using tQ [OF that] by (intro bucket_queue_cong) (auto simp: l2_def)
  have kq: "key (threads l2 u) = key (threads l1 u)" if "i < length (entries tb2)" "u \<in> set (Q i)" for i u
    using tQ [OF that(1)] that(2) by (auto simp: l2_def)
  have rep2: "lot_rep l2 tb2 Q"
    using rep bq kq by (simp add: lot_rep_def) (simp add: l2_def)
  have "waiting l2 k = waiting l1 k" for k
    unfolding lot_rep_waiting [OF rep] lot_rep_waiting [OF rep2]
    using kq [OF idx_hash(2) [OF lot_repD(2) [OF rep]]] by (intro filter_cong) auto
  then have "waiting l2 = waiting lot" using g(5) by (simp add: fun_eq_iff)
  moreover have "ThreadData_new now t lot = Some l2"
    using g(1) by (simp add: ThreadData_new_def l0_def l2_def)
  ultimately show ?thesis
    using g lot_rep_wf [OF rep2] by (intro exI [of _ l2] exI [of _ tb1]) (simp add: l2_def)
qed

text \<open>The first table is well formed and empty.\<close>

lemma create_hashtable_wf:
  assumes "HASHTABLE lot = None"
  shows "\<exists>lot'. create_hashtable now lot = Some lot' \<and> lot_wf lot' \<and> (\<forall>k. waiting lot' k = [])"
proof -
  obtain tb where tb: "HashTable_new now LOAD_FACTOR = Some tb"
    using HashTable_new_Some [of LOAD_FACTOR now] by (auto simp: LOAD_FACTOR_def)
  define lot' where "lot' = lot\<lparr>HASHTABLE := Some tb\<rparr>"
  have rep: "lot_rep lot' tb (\<lambda>_. [])"
    using table_rep_lot [of lot' tb] new_table_rep [OF tb] by (simp add: lot'_def LOAD_FACTOR_def)
  have "create_hashtable now lot = Some lot'" using assms tb by (simp add: create_hashtable_def lot'_def)
  then show ?thesis using lot_rep_wf [OF rep] lot_rep_waiting [OF rep] by auto
qed

end
