(* ===== verification/Lot_Spec.thy ===== *)
theory Lot_Spec
  imports Lot_Grow
begin

text \<open>
  What the parking lot promises: for every key a FIFO queue of threads, independent of the
  hash table that stores it. The interface is the locale \<open>wait_queues\<close>, its clients' facts
  are proved from the laws alone, and the functions of \<open>core/src/parking_lot.rs\<close> are an
  instance of it. The theorems of this theory state each function's contract in full.
\<close>

section \<open>The interface\<close>

locale wait_queues =
  fixes wf :: "'lot \<Rightarrow> bool" and queue :: "'lot \<Rightarrow> usize \<Rightarrow> tid list"
    and enq :: "tid \<Rightarrow> usize \<Rightarrow> 'lot \<Rightarrow> 'lot option"
    and deq :: "usize \<Rightarrow> 'lot \<Rightarrow> 'lot option"
    and resize :: "'lot \<Rightarrow> 'lot option"
  assumes enq_law: "wf l \<Longrightarrow> (\<forall>k. t \<notin> set (queue l k)) \<Longrightarrow>
      \<exists>l'. enq t k l = Some l' \<and> wf l' \<and> queue l' = (queue l)(k := queue l k @ [t])"
    and deq_law: "wf l \<Longrightarrow> \<exists>l'. deq k l = Some l' \<and> wf l' \<and> queue l' = (queue l)(k := drop 1 (queue l k))"
    and resize_law: "wf l \<Longrightarrow> resize l = Some l' \<Longrightarrow> wf l' \<and> queue l' = queue l"
begin

fun enq_all :: "tid list \<Rightarrow> usize \<Rightarrow> 'lot \<Rightarrow> 'lot option" where
  "enq_all [] k l = Some l"
| "enq_all (t # ts) k l = Option.bind (enq t k l) (enq_all ts k)"

fun deq_many :: "nat \<Rightarrow> usize \<Rightarrow> 'lot \<Rightarrow> 'lot option" where
  "deq_many 0 k l = Some l"
| "deq_many (Suc n) k l = Option.bind (deq k l) (deq_many n k)"

lemma enq_all_queue:
  assumes "wf l" and "distinct ts" and "\<forall>t\<in>set ts. \<forall>k. t \<notin> set (queue l k)"
  shows "\<exists>l'. enq_all ts k l = Some l' \<and> wf l' \<and> queue l' = (queue l)(k := queue l k @ ts)"
  using assms
proof (induction ts arbitrary: l)
  case (Cons t ts)
  then obtain l1 where l1: "enq t k l = Some l1" "wf l1" "queue l1 = (queue l)(k := queue l k @ [t])"
    using enq_law [of l t k] by auto
  have "\<forall>u\<in>set ts. \<forall>k. u \<notin> set (queue l1 k)" using Cons.prems by (auto simp: l1(3))
  from Cons.IH [OF l1(2) _ this] Cons.prems(2) l1 show ?case by (auto simp: fun_eq_iff)
qed simp

lemma deq_many_queue:
  "wf l \<Longrightarrow> \<exists>l'. deq_many n k l = Some l' \<and> wf l' \<and> queue l' = (queue l)(k := drop n (queue l k))"
proof (induction n arbitrary: l)
  case (Suc n)
  then obtain l1 where l1: "deq k l = Some l1" "wf l1" "queue l1 = (queue l)(k := drop 1 (queue l k))"
    using deq_law [of l k] by auto
  from Suc.IH [OF l1(2)] l1 show ?case by (auto simp: fun_eq_iff)
qed simp

text \<open>First in, first out, whatever the table is resized to in between.\<close>

lemma fifo_order:
  assumes "wf l" and "distinct ts" and "\<forall>t\<in>set ts. \<forall>k. t \<notin> set (queue l k)"
    and "enq_all ts k l = Some l1" and "resize l1 = Some l2"
  shows "\<exists>l3. deq_many (length (queue l k) + n) k l2 = Some l3 \<and> wf l3
    \<and> queue l3 = (queue l)(k := drop n ts)"
proof -
  from enq_all_queue [OF assms(1-3), of k] assms(4)
  have l1: "wf l1" "queue l1 = (queue l)(k := queue l k @ ts)" by auto
  from resize_law [OF l1(1) assms(5)] have l2: "wf l2" "queue l2 = (queue l)(k := queue l k @ ts)"
    by (auto simp: l1(2))
  from deq_many_queue [OF l2(1), of "length (queue l k) + n" k] show ?thesis by (simp add: l2(2))
qed

end

section \<open>The parking lot as an instance\<close>

text \<open>
  A thread parks unconditionally, one thread is woken with the default token, the table
  grows for \<open>n\<close> threads.
\<close>

definition enq_lot :: "tid \<Rightarrow> usize \<Rightarrow> ParkingLot \<Rightarrow> ParkingLot option" where
  "enq_lot t k lot = map_option (\<lambda>(_, _, l). l)
     (park_begin t k (\<lambda>s. (s, True)) DEFAULT_PARK_TOKEN False () lot)"

definition deq_lot :: "usize \<Rightarrow> ParkingLot \<Rightarrow> ParkingLot option" where
  "deq_lot k lot = map_option (\<lambda>(_, _, l). l)
     (unpark_one k 0 (\<lambda>_ s. (s, DEFAULT_UNPARK_TOKEN)) () lot)"

definition grow_lot :: "ParkingLot \<Rightarrow> ParkingLot option" where
  "grow_lot lot = (if 0 < NUM_THREADS lot \<and> NUM_THREADS lot * LOAD_FACTOR \<le> 2 ^ 62
     then grow_hashtable 0 (NUM_THREADS lot) lot else None)"

interpretation lot: wait_queues lot_wf waiting enq_lot deq_lot grow_lot
proof
  fix l t k
  assume "lot_wf l" and "\<forall>k. t \<notin> set (waiting l k)"
  then show "\<exists>l'. enq_lot t k l = Some l' \<and> lot_wf l' \<and> waiting l' = (waiting l)(k := waiting l k @ [t])"
    using park_begin_append [of l t "\<lambda>s. (s, True)" "()" "()" k DEFAULT_PARK_TOKEN False]
    by (auto simp: enq_lot_def enqueued_def)
next
  fix l k
  assume wf: "lot_wf l"
  show "\<exists>l'. deq_lot k l = Some l' \<and> lot_wf l' \<and> waiting l' = (waiting l)(k := drop 1 (waiting l k))"
  proof (cases "waiting l k")
    case Nil
    then show ?thesis using unpark_one_none [OF wf Nil, of 0 "\<lambda>_ s. (s, DEFAULT_UNPARK_TOKEN)" "()"] wf
      by (auto simp: deq_lot_def fun_eq_iff)
  next
    case (Cons t ts)
    show ?thesis
      using unpark_one_head [OF wf Cons refl, where cb = "\<lambda>_ s. (s, DEFAULT_UNPARK_TOKEN)" and s = "()" and now = 0] Cons
      by (auto simp: deq_lot_def)
  qed
next
  fix l l'
  assume "lot_wf l" and "grow_lot l = Some l'"
  then show "lot_wf l' \<and> waiting l' = waiting l"
    using grow_hashtable_waiting [of l "NUM_THREADS l" 0] by (auto simp: grow_lot_def split: if_splits)
qed

section \<open>A concrete lot\<close>

text \<open>Two threads parked on one key, for the examples of this theory.\<close>

definition empty_lot :: ParkingLot where
  "empty_lot = \<lparr>NUM_THREADS = 2, HASHTABLE = None, threads = (\<lambda>_. ThreadData_init)\<rparr>"

definition sample_lot :: ParkingLot where
  "sample_lot = the (Option.bind (create_hashtable 0 empty_lot) (lot.enq_all [2, 3] 64))"

lemma enq_lot_parker:
  assumes "lot_wf l" and "\<not> enqueued l t" and "enq_lot t k l = Some l'"
  shows "parker (threads l' u) = (if u = t then prepare_park (parker (threads l t)) else parker (threads l u))"
proof -
  obtain l2 where l2: "enq_lot t k l = Some l2"
      "td_data (threads l2 t) = \<lparr>parker = prepare_park (parker (threads l t)), key = k,
        next_in_queue = None, unpark_token = unpark_token (threads l t), park_token = DEFAULT_PARK_TOKEN,
        parked_with_timeout = False\<rparr>"
      "\<forall>u. u \<noteq> t \<longrightarrow> td_data (threads l2 u) = td_data (threads l u)"
    using park_begin_append [where validate = "\<lambda>s. (s, True)" and s = "()", OF assms(1,2) refl,
        of k DEFAULT_PARK_TOKEN False]
    by (auto simp: enq_lot_def)
  have "l' = l2" using l2(1) assms(3) by simp
  moreover have "parker (threads l2 t) = prepare_park (parker (threads l t))"
    using arg_cong [OF l2(2), of parker] by (simp add: td_data_def)
  moreover have "parker (threads l2 u) = parker (threads l u)" if "u \<noteq> t" for u
    using td_data_eqD(1) [of "threads l2 u" "threads l u"] l2(3) that by blast
  ultimately show ?thesis by simp
qed

lemma enq_all_num: "lot.enq_all ts k l = Some l' \<Longrightarrow> NUM_THREADS l' = NUM_THREADS l"
proof (induction ts arbitrary: l)
  case (Cons t ts)
  then obtain l1 where l1: "enq_lot t k l = Some l1" "lot.enq_all ts k l1 = Some l'"
    by (auto simp: bind_eq_Some_conv)
  have "NUM_THREADS l1 = NUM_THREADS l"
    using l1(1) by (auto simp: enq_lot_def park_begin_def bind_eq_Some_conv put_bucket_def)
  with Cons.IH [OF l1(2)] show ?case by simp
qed simp

lemma sample_lot_wf: "lot_wf sample_lot"
  and sample_lot_waiting: "waiting sample_lot = (\<lambda>_. [])(64 := [2, 3])"
  and sample_lot_timed_out: "timed_out (parker (threads sample_lot 2))" "timed_out (parker (threads sample_lot 3))"
proof -
  obtain l0 where l0: "create_hashtable 0 empty_lot = Some l0" "lot_wf l0" "\<And>k. waiting l0 k = []"
    using create_hashtable_wf [of empty_lot 0] by (auto simp: empty_lot_def)
  have w0: "waiting l0 = (\<lambda>_. [])" using l0(3) by (simp add: fun_eq_iff)
  obtain l1 where l1: "enq_lot 2 64 l0 = Some l1" "lot_wf l1" "waiting l1 = (\<lambda>_. [])(64 := [2])"
    using lot.enq_law [OF l0(2), of 2 64] by (auto simp: w0)
  obtain l2 where l2: "enq_lot 3 64 l1 = Some l2" "lot_wf l2" "waiting l2 = (\<lambda>_. [])(64 := [2, 3])"
    using lot.enq_law [OF l1(2), of 3 64] by (auto simp: l1(3))
  have s: "sample_lot = l2" using l0(1) l1(1) l2(1) by (simp add: sample_lot_def)
  show "lot_wf sample_lot" "waiting sample_lot = (\<lambda>_. [])(64 := [2, 3])"
    using l2 l1(3) l0(3) by (auto simp: s)
  have "\<not> enqueued l1 3" "\<not> enqueued l0 2" by (auto simp: enqueued_def l1(3) l0(3))
  then show "timed_out (parker (threads sample_lot 2))" "timed_out (parker (threads sample_lot 3))"
    using enq_lot_parker [OF l1(2) _ l2(1)] enq_lot_parker [OF l0(2) _ l1(1), of 2]
    by (simp_all add: s timed_out_def prepare_park_def)
qed

lemma sample_lot_num: "NUM_THREADS sample_lot = 2"
proof -
  obtain l0 where l0: "create_hashtable 0 empty_lot = Some l0" "lot_wf l0" "\<And>k. waiting l0 k = []"
    using create_hashtable_wf [of empty_lot 0] by (auto simp: empty_lot_def)
  have n: "NUM_THREADS l0 = 2"
    using l0(1) by (auto simp: create_hashtable_def empty_lot_def bind_eq_Some_conv)
  obtain l2 where l2: "lot.enq_all [2, 3] 64 l0 = Some l2"
    using lot.enq_all_queue [OF l0(2), of "[2, 3]" 64] by (auto simp: l0(3))
  then show ?thesis using enq_all_num [OF l2] n by (simp add: sample_lot_def l0(1) del: lot.enq_all.simps)
qed

section \<open>Contracts\<close>

text \<open>
  Claim C28. \<open>unpark_one\<close> always returns on a well-formed lot. It removes exactly the thread
  that has waited longest on the key, reports whether another thread still waits on the
  key, gives the woken thread the token of the callback and unlocks its parker, and leaves
  the queue of every other key and the data of every other thread as they were. With no
  waiting thread it reports zero.
\<close>

theorem unpark_one_takes_head:
  assumes "lot_wf lot"
  shows "\<exists>lot'. let q = waiting lot k;
      r = \<lparr>unparked_threads = min 1 (length q), requeued_threads = 0, have_more_threads = 1 < length q,
           be_fair = (q \<noteq> [] \<and> bucket_fair lot now k)\<rparr>
    in unpark_one k now cb s lot = Some (r, fst (cb r s), lot') \<and> lot_wf lot'
     \<and> waiting lot' = (waiting lot)(k := tl q)
     \<and> (\<forall>u. td_data (threads lot' u) = (if q \<noteq> [] \<and> u = hd q
          then wake_data (snd (cb r s)) (td_data (threads lot u)) else td_data (threads lot u)))"
proof (cases "waiting lot k")
  case Nil
  from unpark_one_none [OF assms Nil, of now cb s] Nil assms show ?thesis
    by (intro exI [of _ lot]) (simp add: UnparkResult_default_def fun_upd_idem)
next
  case (Cons t ts)
  define r where "r = \<lparr>unparked_threads = 1, requeued_threads = 0, have_more_threads = (ts \<noteq> []),
                be_fair = bucket_fair lot now k\<rparr>"
  obtain s' token where cb: "cb r s = (s', token)" by fastforce
  from unpark_one_head [OF assms Cons r_def, where cb = cb, OF cb] cb show ?thesis
    by (auto simp: Cons Let_def r_def)
qed

theorem unpark_one_takes_head_witness:
  "\<exists>lot'. unpark_one 64 0 (\<lambda>_ s. (s, 7)) () sample_lot = Some (\<lparr>unparked_threads = 1,
       requeued_threads = 0, have_more_threads = True, be_fair = bucket_fair sample_lot 0 64\<rparr>, (), lot')
     \<and> waiting lot' 64 = [3]"
  using unpark_one_takes_head [OF sample_lot_wf, of 64 0 "\<lambda>_ s. (s, 7)" "()"]
  by (auto simp: sample_lot_waiting Let_def)

text \<open>
  \<open>park\<close> validates under the bucket lock: a thread whose validation fails is not
  queued and nothing changes; otherwise it becomes the last waiter of its key, its parker
  is armed and its park token stored, and no other key or thread is affected.
\<close>

theorem park_begin_appends:
  assumes "lot_wf lot" and "\<not> enqueued lot t"
  shows "\<exists>lot'. park_begin t k validate token timed s lot =
        Some (snd (validate s), fst (validate s), lot') \<and> lot_wf lot'
     \<and> (if snd (validate s) then
          waiting lot' = (waiting lot)(k := waiting lot k @ [t])
          \<and> park_token (threads lot' t) = token
          \<and> parker (threads lot' t) = prepare_park (parker (threads lot t))
          \<and> (\<forall>u. u \<noteq> t \<longrightarrow> td_data (threads lot' u) = td_data (threads lot u))
        else lot' = lot)"
proof (cases "validate s")
  case (Pair s' v)
  show ?thesis
  proof (cases v)
    case False
    then show ?thesis using park_begin_invalid [OF assms(1), of validate s s'] Pair assms(1) by simp
  next
    case True
    then have v: "validate s = (s', True)" using Pair by simp
    obtain lot' where l: "park_begin t k validate token timed s lot = Some (True, s', lot')" "lot_wf lot'"
        "waiting lot' = (waiting lot)(k := waiting lot k @ [t])"
        "td_data (threads lot' t) = \<lparr>parker = prepare_park (parker (threads lot t)), key = k,
          next_in_queue = None, unpark_token = unpark_token (threads lot t), park_token = token,
          parked_with_timeout = timed\<rparr>"
        "\<forall>u. u \<noteq> t \<longrightarrow> td_data (threads lot' u) = td_data (threads lot u)"
      using park_begin_append [where validate = validate and s = s, OF assms v, of k token timed] by blast
    have "park_token (threads lot' t) = token" "parker (threads lot' t) = prepare_park (parker (threads lot t))"
      using arg_cong [OF l(4), of park_token] arg_cong [OF l(4), of parker] by (simp_all add: td_data_def)
    then show ?thesis using l by (simp add: v)
  qed
qed

theorem park_begin_appends_witness:
  "\<exists>lot'. park_begin 4 64 (\<lambda>s. (s, True)) 5 False () sample_lot = Some (True, (), lot')
     \<and> waiting lot' 64 = [2, 3, 4]"
  using park_begin_appends [OF sample_lot_wf, of 4 64 "\<lambda>s. (s, True)" 5 False "()"]
  by (auto simp: sample_lot_waiting enqueued_def)

text \<open>
  \<open>unpark_all\<close> wakes every thread waiting on the key, returns their number, leaves
  no waiter on the key and changes no other queue and no other thread.
\<close>

theorem unpark_all_empties:
  assumes "lot_wf lot"
  shows "\<exists>lot'. unpark_all k token lot = Some (length (waiting lot k), lot') \<and> lot_wf lot'
    \<and> waiting lot' = (waiting lot)(k := [])
    \<and> (\<forall>u. td_data (threads lot' u) = (if u \<in> set (waiting lot k)
          then wake_data token (td_data (threads lot u)) else td_data (threads lot u)))"
  using assms by (rule unpark_all_queue)

theorem unpark_all_empties_witness:
  "\<exists>lot'. unpark_all 64 9 sample_lot = Some (2, lot') \<and> waiting lot' 64 = []"
  using unpark_all_empties [OF sample_lot_wf, of 64 9] by (auto simp: sample_lot_waiting)

text \<open>
  Claim C30. \<open>unpark_filter\<close> shows the filter the park tokens of the threads waiting on the
  key, in queue order, until it answers Stop; it wakes exactly the threads the filter
  accepted, keeps the others in order, and, if it woke a thread, reports more threads if and
  only if some thread still waits on the key. (Without a woken thread the field
  \<open>have_more_threads\<close> is left open here: code and documentation differ.)
\<close>

theorem unpark_filter_selects:
  assumes "lot_wf lot"
    and "filter_run flt (\<lambda>t. park_token (threads lot t)) (\<lambda>_. True) fs (waiting lot k) = (fs', ws, rs, m)"
  shows "\<exists>lot' more. let r = \<lparr>unparked_threads = length ws, requeued_threads = 0,
        have_more_threads = more, be_fair = (ws \<noteq> [] \<and> bucket_fair lot now k)\<rparr>
    in unpark_filter k now flt fs cb s lot = Some (r, fst (cb fs' r s), lot') \<and> lot_wf lot'
      \<and> (ws \<noteq> [] \<longrightarrow> (more \<longleftrightarrow> rs \<noteq> [])) \<and> waiting lot' = (waiting lot)(k := rs)
      \<and> ws = filter (\<lambda>t. t \<in> set ws) (waiting lot k) \<and> rs = filter (\<lambda>t. t \<notin> set ws) (waiting lot k)
      \<and> (\<forall>u. td_data (threads lot' u) = (if u \<in> set ws
            then wake_data (snd (cb fs' r s)) (td_data (threads lot u)) else td_data (threads lot u)))"
proof -
  define r where "r = \<lparr>unparked_threads = length ws, requeued_threads = 0, have_more_threads = (rs \<noteq> []),
      be_fair = (ws \<noteq> [] \<and> bucket_fair lot now k)\<rparr>"
  obtain lot' where "unpark_filter k now flt fs cb s lot = Some (r, fst (cb fs' r s), lot')" "lot_wf lot'"
      "waiting lot' = (waiting lot)(k := rs)"
      "\<forall>u. td_data (threads lot' u) = (if u \<in> set ws
            then wake_data (snd (cb fs' r s)) (td_data (threads lot u)) else td_data (threads lot u))"
    using unpark_filter_queue [OF assms r_def, of cb s "fst (cb fs' r s)" "snd (cb fs' r s)"] by auto
  then show ?thesis
    using filter_run_split(2,3) [OF assms(2) waiting_distinct [OF assms(1)]]
    by (intro exI [of _ lot'] exI [of _ "rs \<noteq> []"]) (simp add: Let_def r_def)
qed

theorem unpark_filter_selects_witness:
  "\<exists>lot'. unpark_filter 64 0 (\<lambda>n _. (n + 1, if n = 0 then Skip else Unpark)) (0::nat)
       (\<lambda>_ _ s. (s, 7)) () sample_lot =
     Some (\<lparr>unparked_threads = 1, requeued_threads = 0, have_more_threads = True,
       be_fair = bucket_fair sample_lot 0 64\<rparr>, (), lot') \<and> waiting lot' 64 = [2]"
  using unpark_filter_selects [OF sample_lot_wf, of "\<lambda>n _. (n + 1, if n = 0 then Skip else Unpark)"
      "0::nat" 64 2 "[3]" "[2]" True 0 "\<lambda>_ _ s. (s, 7)" "()"]
  by (auto simp: sample_lot_waiting Let_def)

text \<open>
  Claim C29. \<open>unpark_requeue\<close>: when the validation aborts nothing changes. Otherwise the
  threads its operation picks leave the source queue, at most one of them is woken, the
  others are appended to the target queue in their order with the target's key, and no
  other queue changes; the result counts the woken and the moved threads. This includes two
  keys in the same bucket and equal keys. (The field \<open>have_more_threads\<close> is left open here: code
  and documentation differ.)
\<close>

theorem unpark_requeue_transfers:
  assumes "lot_wf lot" and "requeue_pick (snd (validate s)) (waiting lot kf) = (wk, mv)"
  shows "\<exists>lot' more. let op = snd (validate s);
        r = \<lparr>unparked_threads = length wk, requeued_threads = length mv,
          have_more_threads = more, be_fair = (wk \<noteq> [] \<and> bucket_fair lot now kf)\<rparr>;
        W = (waiting lot)(kf := filter (\<lambda>t. t \<notin> set wk \<union> set mv) (waiting lot kf))
    in unpark_requeue kf kt now validate cb s lot =
        Some (r, if op = Abort then fst (validate s) else fst (cb op r (fst (validate s))), lot')
      \<and> lot_wf lot' \<and> length wk \<le> 1 \<and> waiting lot' = W(kt := W kt @ mv)
      \<and> (\<forall>u. td_data (threads lot' u) =
        (if u \<in> set wk then wake_data (snd (cb op r (fst (validate s)))) (td_data (threads lot u))
         else if u \<in> set mv then (td_data (threads lot u))\<lparr>key := kt\<rparr> else td_data (threads lot u)))"
proof (cases "snd (validate s) = Abort")
  case True
  then have "validate s = (fst (validate s), Abort)" by (metis prod.collapse)
  from unpark_requeue_abort [where validate = validate and s = s, OF assms(1) this, of kf kt now cb] True assms show ?thesis
    by (auto simp: Let_def UnparkResult_default_def fun_upd_idem)
next
  case False
  define op more where "op = snd (validate s)" and "more = (requeue_one op \<and> 1 < length (waiting lot kf))"
  define r where "r = \<lparr>unparked_threads = length wk, requeued_threads = length mv, have_more_threads = more,
      be_fair = (wk \<noteq> [] \<and> bucket_fair lot now kf)\<rparr>"
  have v: "validate s = (fst (validate s), op)" by (simp add: op_def)
  obtain lot' where "unpark_requeue kf kt now validate cb s lot = Some (r, fst (cb op r (fst (validate s))), lot')" "lot_wf lot'"
      "waiting lot' = (let W = (waiting lot)(kf := filter (\<lambda>t. t \<notin> set wk \<union> set mv) (waiting lot kf)) in W(kt := W kt @ mv))"
      "\<forall>u. td_data (threads lot' u) =
        (if u \<in> set wk then wake_data (snd (cb op r (fst (validate s)))) (td_data (threads lot u))
         else if u \<in> set mv then (td_data (threads lot u))\<lparr>key := kt\<rparr> else td_data (threads lot u))"
    using unpark_requeue_moves [where validate = validate and s = s and cb = cb, OF assms(1) v False [folded op_def]
        assms(2) [folded op_def] r_def [unfolded more_def] prod.collapse [symmetric], of kt] by blast
  moreover have "length wk \<le> 1" by (rule requeue_pick_set(4) [OF assms(2) waiting_distinct [OF assms(1)]])
  ultimately show ?thesis
    using False by (intro exI [of _ lot'] exI [of _ more]) (simp add: Let_def op_def [symmetric] r_def [symmetric])
qed

theorem unpark_requeue_transfers_witness:
  "\<exists>lot' r. unpark_requeue 64 128 0 (\<lambda>s. (s, UnparkOneRequeueRest)) (\<lambda>_ _ s. (s, 0)) () sample_lot = Some (r, (), lot')
     \<and> unparked_threads r = 1 \<and> requeued_threads r = 1 \<and> waiting lot' 64 = [] \<and> waiting lot' 128 = [3]"
  using unpark_requeue_transfers [OF sample_lot_wf, of "\<lambda>s. (s, UnparkOneRequeueRest)" "()" 64 "[2]" "[3]"
      0 128 "\<lambda>_ _ s. (s, 0)"]
  by (auto simp: sample_lot_waiting Let_def)

text \<open>
  A thread whose wait timed out: if another thread has already unparked it, the
  time-out is ignored and the token of the unpark is returned; otherwise it leaves the
  queue of its key (the key it was requeued to, if it was), and the callback is told
  whether it was the last waiter of that key.
\<close>

theorem park_timeout_resolves:
  assumes "lot_wf lot" and "timed_out (parker (threads lot t)) \<longrightarrow> t \<in> set (waiting lot k)"
  shows "\<exists>lot'. lot_wf lot' \<and> (\<forall>u. td_data (threads lot' u) = td_data (threads lot u))
    \<and> (if timed_out (parker (threads lot t)) then
         park_timeout t cb s lot = Some (TimedOut, cb k (waiting lot k = [t]) s, lot')
         \<and> waiting lot' = (waiting lot)(k := filter (\<lambda>u. u \<noteq> t) (waiting lot k))
       else park_timeout t cb s lot = Some (Unparked (unpark_token (threads lot t)), s, lot')
         \<and> lot' = lot)"
proof (cases "timed_out (parker (threads lot t))")
  case True
  with assms park_timeout_removed [OF assms(1) True, of k cb s] show ?thesis by auto
next
  case False
  with assms(1) park_timeout_woken [OF assms(1) False, of cb s] show ?thesis by auto
qed

theorem park_timeout_resolves_witness:
  "\<exists>lot'. park_timeout 2 (\<lambda>k l _. (k, l)) (0, True) sample_lot = Some (TimedOut, (64, False), lot')
     \<and> waiting lot' 64 = [3]"
  using park_timeout_resolves [OF sample_lot_wf, of 2 64 "\<lambda>k l _. (k, l)" "(0, True)"]
  by (auto simp: sample_lot_waiting sample_lot_timed_out)

text \<open>
  Claim C31. Growing the table loses, duplicates and reorders no waiter: every key has the
  same queue before and after, and the new table meets the load factor.
\<close>

theorem grow_hashtable_keeps_queues:
  assumes "lot_wf lot" and "0 < n" and "n * LOAD_FACTOR \<le> 2 ^ 62"
  shows "\<exists>lot' tb. grow_hashtable now n lot = Some lot' \<and> lot_wf lot'
    \<and> waiting lot' = waiting lot \<and> (\<forall>u. td_data (threads lot' u) = td_data (threads lot u))
    \<and> HASHTABLE lot' = Some tb \<and> LOAD_FACTOR * n \<le> length (entries tb)"
  using grow_hashtable_waiting [OF assms, of now] by blast

theorem grow_hashtable_keeps_queues_witness:
  "\<exists>lot' tb. grow_hashtable 0 100 sample_lot = Some lot' \<and> waiting lot' 64 = [2, 3]
    \<and> HASHTABLE lot' = Some tb \<and> 300 \<le> length (entries tb)"
  using grow_hashtable_keeps_queues [OF sample_lot_wf, of 100 0]
  by (auto simp: sample_lot_waiting LOAD_FACTOR_def)

text \<open>
  Registering a thread keeps every queue and the load factor: after it the table
  has at least \<open>LOAD_FACTOR\<close> buckets per registered thread.
\<close>

theorem ThreadData_new_keeps_queues:
  assumes "lot_wf lot" and "\<not> enqueued lot t" and "Suc (NUM_THREADS lot) * LOAD_FACTOR \<le> 2 ^ 62"
  shows "\<exists>lot' tb. ThreadData_new now t lot = Some lot' \<and> lot_wf lot' \<and> waiting lot' = waiting lot
    \<and> HASHTABLE lot' = Some tb \<and> LOAD_FACTOR * NUM_THREADS lot' \<le> length (entries tb)
    \<and> NUM_THREADS lot' = Suc (NUM_THREADS lot) \<and> threads lot' t = ThreadData_init"
  using assms by (rule ThreadData_new_waiting)

theorem ThreadData_new_keeps_queues_witness:
  "\<exists>lot'. ThreadData_new 0 4 (sample_lot\<lparr>NUM_THREADS := 2\<rparr>) = Some lot' \<and> waiting lot' 64 = [2, 3]
     \<and> NUM_THREADS lot' = 3"
proof -
  define l where "l = sample_lot\<lparr>NUM_THREADS := 2\<rparr>"
  have f: "HASHTABLE l = HASHTABLE sample_lot" "threads l = threads sample_lot" "NUM_THREADS l = 2"
    by (simp_all add: l_def)
  have wf: "lot_wf l" using sample_lot_wf unfolding lot_wf_def f .
  have w: "waiting l = waiting sample_lot"
    unfolding fun_eq_iff waiting_def bucket_index_def f by simp
  show ?thesis
    using ThreadData_new_keeps_queues [OF wf, of 4 0]
    by (auto simp: w enqueued_def sample_lot_waiting f(3) LOAD_FACTOR_def l_def [symmetric])
qed

text \<open>
  First in, first out: threads that park on a key in some order, are kept through
  a resize of the table, and are woken by repeated \<open>unpark_one\<close> calls leave the queue in
  exactly that order, after the threads that waited before them, and other keys are not
  affected.
\<close>

theorem parking_lot_fifo:
  assumes "lot_wf l" and "distinct ts" and "\<forall>t\<in>set ts. \<not> enqueued l t"
    and "lot.enq_all ts k l = Some l1" and "grow_lot l1 = Some l2"
  shows "\<exists>l3. lot.deq_many (length (waiting l k) + n) k l2 = Some l3 \<and> lot_wf l3
    \<and> waiting l3 = (waiting l)(k := drop n ts)"
  using lot.fifo_order [OF assms(1,2) _ assms(4,5), of n] assms(3) by (simp add: enqueued_def)

theorem parking_lot_fifo_witness:
  "\<exists>l1 l2 l3. lot.enq_all [4, 5] 64 sample_lot = Some l1 \<and> grow_lot l1 = Some l2
     \<and> lot.deq_many 3 64 l2 = Some l3 \<and> waiting l3 64 = [5]"
proof -
  have free: "\<forall>t\<in>set [4, 5]. \<not> enqueued sample_lot t"
    by (auto simp: enqueued_def sample_lot_waiting)
  then obtain l1 where l1: "lot.enq_all [4, 5] 64 sample_lot = Some l1" "lot_wf l1"
    using lot.enq_all_queue [OF sample_lot_wf, of "[4, 5]" 64] by (auto simp: enqueued_def)
  have n: "NUM_THREADS l1 = 2" using enq_all_num [OF l1(1)] sample_lot_num by simp
  obtain l2 where l2: "grow_lot l1 = Some l2"
    using grow_hashtable_waiting [OF l1(2), of 2 0] by (auto simp: grow_lot_def n LOAD_FACTOR_def)
  have "length (waiting sample_lot 64) + 1 = 3" "drop 1 [4, 5] = [5::tid]"
    by (simp_all add: sample_lot_waiting)
  with parking_lot_fifo [OF sample_lot_wf _ free l1(1) l2, of 1] l1(1) l2 show ?thesis
    by (auto simp del: lot.deq_many.simps lot.enq_all.simps)
qed

end
