(* ===== verification/Park_Machine.thy ===== *)
theory Park_Machine
  imports Lot_Spec
begin

text \<open>
  Threads that interleave on the parking lot. A client is a program: for every thread and
  local state the next action, which is one access to the shared state or a call of
  \<open>park\<close> or one of the \<open>unpark\<close> functions. The queues are those of \<open>waiting\<close>, on which
  \<open>Lot_Spec\<close> proves the functions of \<open>parking_lot.rs\<close>.

  A call takes two steps where the source holds a bucket lock: the first acquires the lock
  (and runs \<open>validate\<close>), the second does the work under the lock and releases it, and
  other threads run in between. There is one lock per key: the source has one per bucket, so keys
  that share a bucket exclude each other more than here. A scheduler's choice, a pair of
  a thread and a number, resolves which thread runs and, through the number, spurious
  failures of weak exchanges, the fairness timer and the callers' decisions.
\<close>

section \<open>Programs\<close>

datatype ('g, 'l) action =
    Atomic "nat \<Rightarrow> 'g \<Rightarrow> 'g \<times> 'l"
  | ParkEnq usize usize "'g \<Rightarrow> 'g \<times> bool" 'l 'l
  | ParkSleep bool "usize \<Rightarrow> bool \<Rightarrow> 'g \<Rightarrow> 'g" "usize \<Rightarrow> 'l" 'l
  | CallUnparkOne usize "UnparkResult \<Rightarrow> 'g \<Rightarrow> 'g \<times> usize" "UnparkResult \<Rightarrow> 'l"
  | CallUnparkAll usize usize "nat \<Rightarrow> 'l"
  | CallUnparkFilter usize "usize \<Rightarrow> usize \<Rightarrow> usize \<times> FilterOp" usize
      "usize \<Rightarrow> UnparkResult \<Rightarrow> 'g \<Rightarrow> 'g \<times> usize" "UnparkResult \<Rightarrow> 'l"
  | CallUnparkRequeue usize usize "'g \<Rightarrow> 'g \<times> RequeueOp"
      "RequeueOp \<Rightarrow> UnparkResult \<Rightarrow> 'g \<Rightarrow> 'g \<times> usize" "UnparkResult \<Rightarrow> 'l"

text \<open>
  \<open>ParkEnq key token validate invalid sleep\<close> is \<open>park\<close> up to the unlocking of the bucket,
  \<open>sleep\<close> the local state in which \<open>before_sleep\<close> runs, and \<open>ParkSleep timed timed_out
  unparked expired\<close> the rest of \<open>park\<close>. A thread is between two steps (\<open>Run\<close>) or holds the
  bucket locks of its call (\<open>Crit\<close>, with the validated operation for \<open>unpark_requeue\<close>).
\<close>

datatype 'l phase = Run 'l | Crit 'l | CritOp 'l RequeueOp

fun at_phase :: "'l phase \<Rightarrow> 'l" where
  "at_phase (Run l) = l"
| "at_phase (Crit l) = l"
| "at_phase (CritOp l op) = l"

record ('g, 'l) world =
  shared :: 'g
  queues :: "usize \<Rightarrow> tid list"
  holder :: "usize \<Rightarrow> tid option"
  wkey :: "tid \<Rightarrow> usize"
  ptok :: "tid \<Rightarrow> usize"
  utok :: "tid \<Rightarrow> usize"
  parkedf :: "tid \<Rightarrow> bool"
  loc :: "tid \<Rightarrow> 'l phase"

type_synonym ('g, 'l) client = "tid \<Rightarrow> 'l \<Rightarrow> ('g, 'l) action"

text \<open>The point a thread has reached.\<close>

abbreviation pc :: "('g, 'l) world \<Rightarrow> tid \<Rightarrow> 'l" where
  "pc w t \<equiv> at_phase (loc w t)"

section \<open>Steps\<close>

definition goto :: "tid \<Rightarrow> 'l \<Rightarrow> ('g, 'l) world \<Rightarrow> ('g, 'l) world" where
  [lot_simps]: "goto t l w = w\<lparr>loc := (loc w)(t := Run l)\<rparr>"

definition acquire :: "tid \<Rightarrow> usize list \<Rightarrow> 'l phase \<Rightarrow> ('g, 'l) world \<Rightarrow> ('g, 'l) world option" where
  [lot_simps]: "acquire t ks p w = (if \<forall>k\<in>set ks. holder w k = None
     then Some (w\<lparr>holder := (\<lambda>k. if k \<in> set ks then Some t else holder w k), loc := (loc w)(t := p)\<rparr>)
     else None)"

definition release :: "usize list \<Rightarrow> ('g, 'l) world \<Rightarrow> ('g, 'l) world" where
  [lot_simps]: "release ks w = w\<lparr>holder := (\<lambda>k. if k \<in> set ks then None else holder w k)\<rparr>"

definition wake :: "usize \<Rightarrow> tid list \<Rightarrow> ('g, 'l) world \<Rightarrow> ('g, 'l) world" where
  [lot_simps]: "wake token ts w = w\<lparr>utok := (\<lambda>t. if t \<in> set ts then token else utok w t),
     parkedf := (\<lambda>t. parkedf w t \<and> t \<notin> set ts)\<rparr>"

definition fair_choice :: "nat \<Rightarrow> bool" where
  "fair_choice c = odd c"

definition run_step :: "('g, 'l) client \<Rightarrow> tid \<Rightarrow> nat \<Rightarrow> 'l \<Rightarrow> ('g, 'l) world \<Rightarrow> ('g, 'l) world option" where
  "run_step client t c l w = (case client t l of
     Atomic f \<Rightarrow> (let (g, l') = f c (shared w) in Some (goto t l' (w\<lparr>shared := g\<rparr>)))
   | ParkEnq k token validate invalid sleep \<Rightarrow>
       (let (g, valid) = validate (shared w) in
        if holder w k \<noteq> None then None
        else if valid then acquire t [k] (Crit l) (w\<lparr>shared := g\<rparr>)
        else Some (goto t invalid (w\<lparr>shared := g\<rparr>)))
   | ParkSleep timed cb unparked expired \<Rightarrow>
       if \<not> parkedf w t then Some (goto t (unparked (utok w t)) w)
       else if timed then acquire t [wkey w t] (Crit l) w
       else None
   | CallUnparkOne k cb cont \<Rightarrow> acquire t [k] (Crit l) w
   | CallUnparkAll k token cont \<Rightarrow> acquire t [k] (Crit l) w
   | CallUnparkFilter k flt fs cb cont \<Rightarrow> acquire t [k] (Crit l) w
   | CallUnparkRequeue kf kt validate cb cont \<Rightarrow>
       (let (g, op) = validate (shared w) in
        if holder w kf \<noteq> None \<or> holder w kt \<noteq> None then None
        else if op = Abort then Some (goto t (cont UnparkResult_default) (w\<lparr>shared := g\<rparr>))
        else acquire t [kf, kt] (CritOp l op) (w\<lparr>shared := g\<rparr>)))"

definition crit_step :: "('g, 'l) client \<Rightarrow> tid \<Rightarrow> nat \<Rightarrow> 'l \<Rightarrow> ('g, 'l) world \<Rightarrow> ('g, 'l) world option" where
  "crit_step client t c l w = (case client t l of
     ParkEnq k token validate invalid sleep \<Rightarrow>
       Some (goto t sleep (release [k] (w\<lparr>queues := (queues w)(k := queues w k @ [t]),
         wkey := (wkey w)(t := k), ptok := (ptok w)(t := token), parkedf := (parkedf w)(t := True)\<rparr>)))
   | ParkSleep timed cb unparked expired \<Rightarrow>
       (let k = wkey w t in
        if \<not> parkedf w t then Some (goto t (unparked (utok w t)) (release [k] w))
        else Some (goto t expired (release [k] (w\<lparr>queues := (queues w)(k := remove1 t (queues w k)),
               shared := cb k (remove1 t (queues w k) = []) (shared w)\<rparr>))))
   | CallUnparkOne k cb cont \<Rightarrow>
       (let q = queues w k;
            r = \<lparr>unparked_threads = min 1 (length q), requeued_threads = 0,
                 have_more_threads = 1 < length q, be_fair = (q \<noteq> [] \<and> fair_choice c)\<rparr>;
            (g, token) = cb r (shared w)
        in Some (goto t (cont r) (release [k] (wake token (take 1 q)
             (w\<lparr>shared := g, queues := (queues w)(k := tl q)\<rparr>)))))
   | CallUnparkAll k token cont \<Rightarrow>
       (let q = queues w k
        in Some (goto t (cont (length q)) (release [k] (wake token q
             (w\<lparr>queues := (queues w)(k := [])\<rparr>)))))
   | CallUnparkFilter k flt fs cb cont \<Rightarrow>
       (let (fs', ws, rs, m) = filter_run flt (ptok w) (\<lambda>_. True) fs (queues w k);
            r = \<lparr>unparked_threads = length ws, requeued_threads = 0,
                 have_more_threads = m, be_fair = (ws \<noteq> [] \<and> fair_choice c)\<rparr>;
            (g, token) = cb fs' r (shared w)
        in Some (goto t (cont r) (release [k] (wake token ws
             (w\<lparr>shared := g, queues := (queues w)(k := rs)\<rparr>)))))
   | _ \<Rightarrow> None)"

definition requeue_step ::
    "('g, 'l) client \<Rightarrow> tid \<Rightarrow> nat \<Rightarrow> 'l \<Rightarrow> RequeueOp \<Rightarrow> ('g, 'l) world \<Rightarrow> ('g, 'l) world option" where
  "requeue_step client t c l op w = (case client t l of
     CallUnparkRequeue kf kt validate cb cont \<Rightarrow>
       (let (wk, mv) = requeue_pick op (queues w kf);
            r = \<lparr>unparked_threads = length wk, requeued_threads = length mv,
                 have_more_threads = (requeue_one op \<and> 1 < length (queues w kf)),
                 be_fair = (wk \<noteq> [] \<and> fair_choice c)\<rparr>;
            W = (queues w)(kf := filter (\<lambda>u. u \<notin> set wk \<union> set mv) (queues w kf));
            (g, token) = cb op r (shared w)
        in Some (goto t (cont r) (release [kf, kt] (wake token wk
             (w\<lparr>shared := g, queues := W(kt := W kt @ mv),
                wkey := (\<lambda>u. if u \<in> set mv then kt else wkey w u)\<rparr>)))))
   | _ \<Rightarrow> None)"

definition step :: "('g, 'l) client \<Rightarrow> tid \<times> nat \<Rightarrow> ('g, 'l) world \<Rightarrow> ('g, 'l) world option" where
  "step client tc w = (case tc of (t, c) \<Rightarrow>
     (case loc w t of
        Run l \<Rightarrow> run_step client t c l w
      | Crit l \<Rightarrow> crit_step client t c l w
      | CritOp l op \<Rightarrow> requeue_step client t c l op w))"

fun run :: "('g, 'l) client \<Rightarrow> (tid \<times> nat) list \<Rightarrow> ('g, 'l) world \<Rightarrow> ('g, 'l) world option" where
  "run client [] w = Some w"
| "run client (tc # tcs) w = Option.bind (step client tc w) (run client tcs)"

inductive reach :: "('g, 'l) client \<Rightarrow> ('g, 'l) world \<Rightarrow> ('g, 'l) world \<Rightarrow> bool"
  for client :: "('g, 'l) client" and w0 where
  reach_init: "reach client w0 w0"
| reach_step: "reach client w0 w \<Longrightarrow> step client tc w = Some w' \<Longrightarrow> reach client w0 w'"

definition world_init :: "'g \<Rightarrow> (tid \<Rightarrow> 'l) \<Rightarrow> ('g, 'l) world" where
  "world_init g l = \<lparr>shared = g, queues = (\<lambda>_. []), holder = (\<lambda>_. None), wkey = (\<lambda>_. 0),
     ptok = (\<lambda>_. 0), utok = (\<lambda>_. 0), parkedf = (\<lambda>_. False), loc = (\<lambda>t. Run (l t))\<rparr>"

lemma run_reach: "run client tcs w = Some w' \<Longrightarrow> reach client w0 w \<Longrightarrow> reach client w0 w'"
  by (induction tcs arbitrary: w) (auto simp: bind_eq_Some_conv intro: reach_step)

lemma reach_run: "reach client w0 w \<Longrightarrow> \<exists>tcs. run client tcs w0 = Some w"
proof (induction rule: reach.induct)
  case reach_init
  show ?case by (rule exI [of _ "[]"]) simp
next
  case (reach_step w tc w')
  then obtain tcs where "run client tcs w0 = Some w" by blast
  moreover have "run client (tcs @ [tc]) v = Option.bind (run client tcs v) (step client tc)" for v
  proof (induction tcs arbitrary: v)
    case Nil
    show ?case by (cases "step client tc v") simp_all
  next
    case (Cons a tcs)
    then show ?case by (cases "step client a v") simp_all
  qed
  ultimately show ?case using reach_step.hyps(2) by (intro exI [of _ "tcs @ [tc]"]) simp
qed

section \<open>Invariants of every client\<close>

text \<open>
  The documented rule for \<open>before_sleep\<close>: it may unpark but not park. \<open>asleep\<close> marks the
  local states between enqueueing and the return of \<open>park\<close>.
\<close>

fun lock_keys :: "usize \<Rightarrow> ('g, 'l) action \<Rightarrow> usize set" where
  "lock_keys wk (Atomic f) = {}"
| "lock_keys wk (ParkEnq k token validate invalid sleep) = {k}"
| "lock_keys wk (ParkSleep timed cb unparked expired) = {wk}"
| "lock_keys wk (CallUnparkOne k cb cont) = {k}"
| "lock_keys wk (CallUnparkAll k token cont) = {k}"
| "lock_keys wk (CallUnparkFilter k flt fs cb cont) = {k}"
| "lock_keys wk (CallUnparkRequeue kf kt validate cb cont) = {kf, kt}"

definition held_keys :: "('g, 'l) client \<Rightarrow> ('g, 'l) world \<Rightarrow> tid \<Rightarrow> usize set" where
  "held_keys client w t = (case loc w t of Run l \<Rightarrow> {}
     | Crit l \<Rightarrow> lock_keys (wkey w t) (client t l)
     | CritOp l op \<Rightarrow> lock_keys (wkey w t) (client t l))"

definition queue_inv :: "('l \<Rightarrow> bool) \<Rightarrow> ('g, 'l) world \<Rightarrow> bool" where
  "queue_inv asleep w \<longleftrightarrow> (\<forall>k. distinct (queues w k)) \<and>
     (\<forall>t k. t \<in> set (queues w k) \<longleftrightarrow> asleep (at_phase (loc w t)) \<and> parkedf w t \<and> wkey w t = k)"

definition lock_inv :: "('g, 'l) client \<Rightarrow> ('g, 'l) world \<Rightarrow> bool" where
  "lock_inv client w \<longleftrightarrow> (\<forall>k t. holder w k = Some t \<longleftrightarrow> k \<in> held_keys client w t)"

definition phase_inv :: "('g, 'l) client \<Rightarrow> ('g, 'l) world \<Rightarrow> bool" where
  "phase_inv client w \<longleftrightarrow> (\<forall>t. case loc w t of Run l \<Rightarrow> True
     | Crit l \<Rightarrow> \<not> (\<exists>f. client t l = Atomic f) \<and> \<not> (\<exists>a b c d e. client t l = CallUnparkRequeue a b c d e)
     | CritOp l op \<Rightarrow> op \<noteq> Abort \<and> (\<exists>a b c d e. client t l = CallUnparkRequeue a b c d e))"

lemma held_keys_simps:
  "loc w t = Run l \<Longrightarrow> held_keys client w t = {}"
  "loc w t = Crit l \<Longrightarrow> held_keys client w t = lock_keys (wkey w t) (client t l)"
  "loc w t = CritOp l op \<Longrightarrow> held_keys client w t = lock_keys (wkey w t) (client t l)"
  by (simp_all add: held_keys_def)

lemma queue_invI:
  assumes "\<And>k. distinct (queues w k)"
    and "\<And>t k. t \<in> set (queues w k) \<longleftrightarrow> asleep (at_phase (loc w t)) \<and> parkedf w t \<and> wkey w t = k"
  shows "queue_inv asleep w"
  using assms by (simp add: queue_inv_def)

lemma queue_invD:
  assumes "queue_inv asleep w"
  shows "distinct (queues w k)"
    and "t \<in> set (queues w k) \<longleftrightarrow> asleep (at_phase (loc w t)) \<and> parkedf w t \<and> wkey w t = k"
  using assms by (simp_all add: queue_inv_def)

text \<open>
  Steps that leave the lot alone: the queues, the thread data and whether the moving thread
  sleeps are unchanged.
\<close>

lemma queue_inv_frame:
  assumes "queue_inv asleep w" and "queues w' = queues w" and "wkey w' = wkey w" and "parkedf w' = parkedf w"
    and "\<And>u. asleep (at_phase (loc w' u)) = asleep (at_phase (loc w u))"
  shows "queue_inv asleep w'"
  using assms by (simp add: queue_inv_def)

text \<open>Threads leave the queue of a key and are woken.\<close>

lemma queue_inv_wake:
  assumes inv: "queue_inv asleep w" and q: "queues w' = (queues w)(k := filter (\<lambda>u. u \<notin> set ts) (queues w k))"
    and ts: "set ts \<subseteq> set (queues w k)"
    and p: "\<And>u. parkedf w' u \<longleftrightarrow> parkedf w u \<and> u \<notin> set ts" and k: "wkey w' = wkey w"
    and a: "\<And>u. asleep (at_phase (loc w' u)) = asleep (at_phase (loc w u))"
  shows "queue_inv asleep w'"
proof (rule queue_invI)
  show "distinct (queues w' j)" for j using queue_invD(1) [OF inv] by (simp add: q)
  show "t \<in> set (queues w' j) \<longleftrightarrow> asleep (at_phase (loc w' t)) \<and> parkedf w' t \<and> wkey w' t = j" for t j
    using queue_invD(2) [OF inv, of t j] queue_invD(2) [OF inv, of t k] ts by (auto simp: q p k a)
qed

lemma filter_run_True:
  assumes "filter_run flt tok (\<lambda>_. True) fs q = (fs', ws, rs, m)" and "distinct q"
  shows "rs = filter (\<lambda>u. u \<notin> set ws) q" "set ws \<subseteq> set q" "m \<longleftrightarrow> rs \<noteq> []"
  using filter_run_split [OF assms] by (auto simp: filter_empty_conv)

text \<open>What a step of a thread does to the locks: nothing, an acquisition or a release.\<close>

lemma lock_inv_frame:
  assumes "lock_inv client w" and "holder w' = holder w"
    and "\<And>u. held_keys client w' u = held_keys client w u"
  shows "lock_inv client w'"
  using assms by (simp add: lock_inv_def)

lemma lock_inv_acquire:
  assumes inv: "lock_inv client w" and free: "\<And>k. k \<in> K \<Longrightarrow> holder w k = None"
    and h: "\<And>k. holder w' k = (if k \<in> K then Some t else holder w k)"
    and t: "held_keys client w' t = K" "held_keys client w t = {}"
    and u: "\<And>u. u \<noteq> t \<Longrightarrow> held_keys client w' u = held_keys client w u"
  shows "lock_inv client w'"
proof -
  have "holder w' k = Some u \<longleftrightarrow> k \<in> held_keys client w' u" for k u
  proof (cases "u = t")
    case True
    have "holder w k \<noteq> Some t" using inv t(2) by (auto simp: lock_inv_def)
    then show ?thesis using True t(1) by (auto simp: h)
  next
    case False
    have "k \<notin> held_keys client w u" if "k \<in> K"
      using free [OF that] inv unfolding lock_inv_def by (metis option.distinct(1))
    then show ?thesis using False inv u [OF False] by (auto simp: h lock_inv_def)
  qed
  then show ?thesis by (simp add: lock_inv_def)
qed

lemma lock_inv_release:
  assumes inv: "lock_inv client w" and K: "held_keys client w t = K"
    and h: "\<And>k. holder w' k = (if k \<in> K then None else holder w k)"
    and t: "held_keys client w' t = {}"
    and u: "\<And>u. u \<noteq> t \<Longrightarrow> held_keys client w' u = held_keys client w u"
  shows "lock_inv client w'"
proof -
  have "holder w' k = Some u \<longleftrightarrow> k \<in> held_keys client w' u" for k u
  proof (cases "u = t")
    case True
    have "holder w k \<noteq> Some t" if "k \<notin> K" using inv K that by (simp add: lock_inv_def)
    then show ?thesis using True t by (auto simp: h)
  next
    case False
    have "k \<notin> held_keys client w u" if "k \<in> K"
    proof -
      have "holder w k = Some t" using inv K that by (simp add: lock_inv_def)
      then show ?thesis using inv False unfolding lock_inv_def by (metis option.inject)
    qed
    then show ?thesis using False inv u [OF False] by (auto simp: h lock_inv_def)
  qed
  then show ?thesis by (simp add: lock_inv_def)
qed

lemma held_keys_cong:
  "loc w' u = loc w u \<Longrightarrow> wkey w' u = wkey w u \<Longrightarrow> held_keys client w' u = held_keys client w u"
  by (simp add: held_keys_def split: phase.split)

lemma run_step_other:
  assumes "run_step client t c l w = Some w'"
  shows "u \<noteq> t \<Longrightarrow> loc w' u = loc w u" and "wkey w' = wkey w" and "queues w' = queues w"
    and "parkedf w' = parkedf w" and "utok w' = utok w" and "ptok w' = ptok w"
  using assms by (cases "client t l";
      auto simp: run_step_def lot_simps Let_def split: prod.splits if_splits)+

lemma run_step_lock:
  assumes "run_step client t c l w = Some w'"
  shows "(\<exists>l'. loc w' t = Run l') \<and> holder w' = holder w \<or>
     (loc w' t = Crit l \<or> (\<exists>op. loc w' t = CritOp l op)) \<and>
     (\<forall>k\<in>lock_keys (wkey w t) (client t l). holder w k = None) \<and>
     (\<forall>k. holder w' k = (if k \<in> lock_keys (wkey w t) (client t l) then Some t else holder w k))"
  using assms by (cases "client t l";
      auto simp: run_step_def lot_simps Let_def split: prod.splits if_splits)+

lemma crit_step_other:
  assumes "crit_step client t c l w = Some w'"
  shows "u \<noteq> t \<Longrightarrow> loc w' u = loc w u" and "u \<noteq> t \<Longrightarrow> wkey w' u = wkey w u"
  using assms by (cases "client t l";
      auto simp: crit_step_def lot_simps Let_def split: prod.splits if_splits)+

lemma requeue_step_other:
  assumes "requeue_step client t c l op w = Some w'"
  shows "u \<noteq> t \<Longrightarrow> loc w' u = loc w u"
  using assms by (cases "client t l")
      (auto simp: requeue_step_def lot_simps Let_def split: prod.splits if_splits)

lemma step_other:
  assumes "step client (t, c) w = Some w'" and "u \<noteq> t"
  shows "loc w' u = loc w u"
  using assms run_step_other(1) [of client t c _ w w' u] crit_step_other(1) [of client t c _ w w' u]
    requeue_step_other [of client t c _ _ w w' u]
  by (auto simp: step_def split: phase.splits)

locale park_client =
  fixes client :: "('g, 'l) client" and asleep :: "'l \<Rightarrow> bool"
  assumes atomic_rule: "client t l = Atomic f \<Longrightarrow> asleep (snd (f c g)) = asleep l"
    and enq_rule: "client t l = ParkEnq k token validate li ls \<Longrightarrow> \<not> asleep l \<and> \<not> asleep li \<and> asleep ls"
    and sleep_rule: "client t l = ParkSleep timed cb lu le \<Longrightarrow> asleep l \<and> \<not> asleep (lu tok) \<and> \<not> asleep le"
    and one_rule: "client t l = CallUnparkOne k cb1 cont1 \<Longrightarrow> asleep (cont1 r) = asleep l"
    and all_rule: "client t l = CallUnparkAll k token cont2 \<Longrightarrow> asleep (cont2 n) = asleep l"
    and filter_rule: "client t l = CallUnparkFilter k flt fs cb3 cont1 \<Longrightarrow> asleep (cont1 r) = asleep l"
    and requeue_rule: "client t l = CallUnparkRequeue kf kt v cb4 cont1 \<Longrightarrow> asleep (cont1 r) = asleep l"
begin

definition lot_inv :: "('g, 'l) world \<Rightarrow> bool" where
  "lot_inv w \<longleftrightarrow> queue_inv asleep w \<and> lock_inv client w \<and> phase_inv client w"

lemma init_lot_inv: "(\<And>t. \<not> asleep (l t)) \<Longrightarrow> lot_inv (world_init g l)"
  by (simp add: lot_inv_def world_init_def queue_inv_def lock_inv_def phase_inv_def held_keys_def)

lemma run_step_queue_inv:
  assumes inv: "queue_inv asleep w" and l: "loc w t = Run l" and r: "run_step client t c l w = Some w'"
  shows "queue_inv asleep w'"
proof (cases "client t l")
  case (Atomic f)
  show ?thesis
    by (rule queue_inv_frame [OF inv])
      (use r l atomic_rule [OF Atomic, of c "shared w"] in
        \<open>auto simp: run_step_def Atomic lot_simps split: prod.splits if_splits\<close>)
next
  case (ParkEnq k token validate li ls)
  show ?thesis
    by (rule queue_inv_frame [OF inv])
      (use r l enq_rule [OF ParkEnq] in \<open>auto simp: run_step_def ParkEnq lot_simps split: prod.splits if_splits\<close>)
next
  case (ParkSleep timed cb lu le)
  show ?thesis
  proof (cases "parkedf w t")
    case True
    show ?thesis
      by (rule queue_inv_frame [OF inv])
        (use r l True in \<open>auto simp: run_step_def ParkSleep lot_simps split: prod.splits if_splits\<close>)
  next
    case False
    have w': "w' = goto t (lu (utok w t)) w" using r False by (simp add: run_step_def ParkSleep)
    show ?thesis
      by (rule queue_invI)
        (use queue_invD [OF inv] False sleep_rule [OF ParkSleep] in \<open>auto simp: w' lot_simps\<close>)
  qed
next
  case (CallUnparkRequeue kf kt v cb cont)
  show ?thesis
    by (rule queue_inv_frame [OF inv])
      (use r l requeue_rule [OF CallUnparkRequeue] in
        \<open>auto simp: run_step_def CallUnparkRequeue lot_simps split: prod.splits if_splits\<close>)
qed (rule queue_inv_frame [OF inv];
     use r l in \<open>auto simp: run_step_def lot_simps split: if_splits\<close>)+

lemma crit_step_queue_inv:
  assumes inv: "queue_inv asleep w" and l: "loc w t = Crit l" and r: "crit_step client t c l w = Some w'"
  shows "queue_inv asleep w'"
proof (cases "client t l")
  case (ParkEnq k token validate li ls)
  have "t \<notin> set (queues w j)" for j using queue_invD(2) [OF inv, of t j] enq_rule [OF ParkEnq] l by simp
  then show ?thesis
    using r enq_rule [OF ParkEnq] queue_invD [OF inv] l
    by (intro queue_invI) (auto simp: crit_step_def ParkEnq lot_simps split: if_splits)
next
  case (ParkSleep timed cb lu le)
  show ?thesis
    by (rule queue_invI)
      (use r queue_invD [OF inv] sleep_rule [OF ParkSleep] l in
        \<open>auto simp: crit_step_def ParkSleep lot_simps Let_def split: if_splits\<close>)
next
  case (CallUnparkOne k cb cont)
  have d: "distinct (queues w k)" by (rule queue_invD(1) [OF inv])
  have q: "tl (queues w k) = filter (\<lambda>u. u \<notin> set (take 1 (queues w k))) (queues w k)"
    using d by (cases "queues w k") (auto intro: filter_True [symmetric])
  show ?thesis
    by (rule queue_inv_wake [OF inv, of _ k "take 1 (queues w k)"])
      (use r l q one_rule [OF CallUnparkOne] in
        \<open>auto simp: crit_step_def CallUnparkOne lot_simps Let_def dest: in_set_takeD split: prod.splits if_splits\<close>)
next
  case (CallUnparkAll k token cont)
  show ?thesis
    by (rule queue_inv_wake [OF inv, of _ k "queues w k"])
      (use r l all_rule [OF CallUnparkAll] in
        \<open>auto simp: crit_step_def CallUnparkAll lot_simps Let_def filter_empty_conv split: if_splits\<close>)
next
  case (CallUnparkFilter k flt fs cb cont)
  obtain fs' ws rs m where run: "filter_run flt (ptok w) (\<lambda>_. True) fs (queues w k) = (fs', ws, rs, m)"
    by (metis prod_cases4)
  note f = filter_run_True [OF run queue_invD(1) [OF inv]]
  show ?thesis
    by (rule queue_inv_wake [OF inv, of _ k ws])
      (use r l f filter_rule [OF CallUnparkFilter] in
        \<open>auto simp: crit_step_def CallUnparkFilter run lot_simps Let_def split: prod.splits if_splits\<close>)
qed (use r in \<open>simp_all add: crit_step_def\<close>)

lemma requeue_step_queue_inv:
  assumes inv: "queue_inv asleep w" and l: "loc w t = CritOp l op" and r: "requeue_step client t c l op w = Some w'"
  shows "queue_inv asleep w'"
proof (cases "client t l")
  case (CallUnparkRequeue kf kt v cb cont)
  obtain wk mv where pick: "requeue_pick op (queues w kf) = (wk, mv)" by fastforce
  have d: "distinct (queues w k)" for k by (rule queue_invD(1) [OF inv])
  note ps = requeue_pick_set [OF pick d]
  have dj: "set wk \<inter> set mv = {}"
    using pick d [of kf] by (cases op; cases "queues w kf") auto
  define W where "W = (queues w)(kf := filter (\<lambda>u. u \<notin> set wk \<union> set mv) (queues w kf))"
  have w': "queues w' = W(kt := W kt @ mv)" "\<And>u. wkey w' u = (if u \<in> set mv then kt else wkey w u)"
      "\<And>u. parkedf w' u \<longleftrightarrow> parkedf w u \<and> u \<notin> set wk"
      "\<And>u. asleep (at_phase (loc w' u)) = asleep (at_phase (loc w u))"
    using r l requeue_rule [OF CallUnparkRequeue]
    by (auto simp: requeue_step_def CallUnparkRequeue pick Let_def lot_simps W_def split: prod.splits if_splits)
  have mv: "asleep (at_phase (loc w u)) \<and> parkedf w u \<and> wkey w u = kf" if "u \<in> set wk \<union> set mv" for u
    using that ps(1,2) queue_invD(2) [OF inv, of u kf] by auto
  have W: "u \<in> set (W k) \<longleftrightarrow> asleep (at_phase (loc w u)) \<and> parkedf w u \<and> wkey w u = k \<and> u \<notin> set wk \<union> set mv"
    for u k using queue_invD(2) [OF inv, of u] mv [of u] by (auto simp: W_def)
  have dW: "distinct (W k)" for k using d by (simp add: W_def)
  show ?thesis
  proof (rule queue_invI)
    show "distinct (queues w' k)" for k using dW [of k] ps(3) W by (auto simp: w'(1))
    show "u \<in> set (queues w' k) \<longleftrightarrow> asleep (at_phase (loc w' u)) \<and> parkedf w' u \<and> wkey w' u = k" for u k
      using W [of u k] mv [of u] dj by (auto simp: w')
  qed
qed (use r in \<open>simp_all add: requeue_step_def\<close>)

lemma run_step_lock_inv:
  assumes inv: "lock_inv client w" and l: "loc w t = Run l" and r: "run_step client t c l w = Some w'"
  shows "lock_inv client w'"
proof -
  have other: "held_keys client w' u = held_keys client w u" if "u \<noteq> t" for u
    using run_step_other(1,2) [OF r] that by (intro held_keys_cong) auto
  have t0: "held_keys client w t = {}" using l by (simp add: held_keys_def)
  from run_step_lock [OF r] show ?thesis
  proof
    assume *: "(\<exists>l'. loc w' t = Run l') \<and> holder w' = holder w"
    then have "held_keys client w' t = {}" and h: "holder w' = holder w" by (auto simp: held_keys_def)
    then show ?thesis using other t0 by (intro lock_inv_frame [OF inv h]) metis
  next
    assume *: "(loc w' t = Crit l \<or> (\<exists>op. loc w' t = CritOp l op)) \<and>
      (\<forall>k\<in>lock_keys (wkey w t) (client t l). holder w k = None) \<and>
      (\<forall>k. holder w' k = (if k \<in> lock_keys (wkey w t) (client t l) then Some t else holder w k))"
    then have p: "loc w' t = Crit l \<or> (\<exists>op. loc w' t = CritOp l op)"
      and free: "\<forall>k\<in>lock_keys (wkey w t) (client t l). holder w k = None"
      and h: "\<forall>k. holder w' k = (if k \<in> lock_keys (wkey w t) (client t l) then Some t else holder w k)"
      by blast+
    show ?thesis
    proof (rule lock_inv_acquire [OF inv _ _ _ t0 other])
      show "holder w k = None" if "k \<in> lock_keys (wkey w t) (client t l)" for k
        using free that by blast
      show "holder w' k = (if k \<in> lock_keys (wkey w t) (client t l) then Some t else holder w k)" for k
        using h by blast
      show "held_keys client w' t = lock_keys (wkey w t) (client t l)"
        using p run_step_other(2) [OF r] by (auto simp: held_keys_def)
    qed
  qed
qed

lemma crit_step_lock_inv:
  assumes inv: "lock_inv client w" and l: "loc w t = Crit l" and r: "crit_step client t c l w = Some w'"
  shows "lock_inv client w'"
proof (rule lock_inv_release [OF inv refl])
  show "holder w' k = (if k \<in> held_keys client w t then None else holder w k)" for k
    using r l by (cases "client t l")
      (auto simp: crit_step_def lot_simps held_keys_def Let_def split: prod.splits if_splits)
  show "held_keys client w' t = {}"
    using r by (cases "client t l")
      (auto simp: crit_step_def lot_simps held_keys_def Let_def split: prod.splits if_splits)
  show "held_keys client w' u = held_keys client w u" if "u \<noteq> t" for u
    using crit_step_other [OF r that] by (intro held_keys_cong) auto
qed

lemma requeue_step_lock_inv:
  assumes inv: "lock_inv client w" and qi: "queue_inv asleep w" and l: "loc w t = CritOp l op"
    and r: "requeue_step client t c l op w = Some w'"
  shows "lock_inv client w'"
proof -
  obtain kf kt v cb cont where a: "client t l = CallUnparkRequeue kf kt v cb cont"
    using r by (cases "client t l") (auto simp: requeue_step_def)
  obtain wk mv where pick: "requeue_pick op (queues w kf) = (wk, mv)" by fastforce
  note mv = requeue_pick_set(2) [OF pick queue_invD(1) [OF qi]]
  have w': "loc w' = (loc w)(t := loc w' t)" "\<And>u. wkey w' u = (if u \<in> set mv then kt else wkey w u)"
    "\<exists>l'. loc w' t = Run l'" "\<And>k. holder w' k = (if k \<in> {kf, kt} then None else holder w k)"
    using r by (auto simp: requeue_step_def a pick Let_def lot_simps split: prod.splits)
  have hk: "held_keys client w t = {kf, kt}" using l by (simp add: held_keys_def a)
  have same: "lock_keys (wkey w' u) (client u m) = lock_keys (wkey w u) (client u m)"
    if u: "u \<noteq> t" and m: "loc w u = Crit m \<or> loc w u = CritOp m p" for u m p
  proof (cases "u \<in> set mv")
    case True
    then have uk: "wkey w u = kf" using mv queue_invD(2) [OF qi, of u kf] by auto
    have "kf \<notin> lock_keys (wkey w u) (client u m)"
    proof
      assume "kf \<in> lock_keys (wkey w u) (client u m)"
      then have "kf \<in> held_keys client w u" using m by (auto simp: held_keys_def)
      then have "holder w kf = Some u" "holder w kf = Some t" using inv hk by (auto simp: lock_inv_def)
      then show False using u by simp
    qed
    then show ?thesis by (cases "client u m") (auto simp: uk)
  next
    case False
    then show ?thesis by (simp add: w'(2))
  qed
  show ?thesis
  proof (rule lock_inv_release [OF inv hk w'(4)])
    show "held_keys client w' t = {}" using w'(3) by (auto simp: held_keys_def)
    show "held_keys client w' u = held_keys client w u" if "u \<noteq> t" for u
    proof -
      have "loc w' u = loc w u" using w'(1) that by (metis fun_upd_apply)
      then show ?thesis using same [OF that] by (cases "loc w u") (auto simp: held_keys_def)
    qed
  qed
qed

lemma step_phase_inv:
  assumes inv: "phase_inv client w" and r: "step client (t, c) w = Some w'"
  shows "phase_inv client w'"
proof -
  note other = step_other [OF r]
  have self: "case loc w' t of Run l \<Rightarrow> True
     | Crit l \<Rightarrow> \<not> (\<exists>f. client t l = Atomic f) \<and> \<not> (\<exists>a b c d e. client t l = CallUnparkRequeue a b c d e)
     | CritOp l op \<Rightarrow> op \<noteq> Abort \<and> (\<exists>a b c d e. client t l = CallUnparkRequeue a b c d e)"
    using r by (cases "loc w t"; cases "client t (at_phase (loc w t))")
      (auto simp: step_def run_step_def crit_step_def requeue_step_def lot_simps Let_def
        split: prod.splits if_splits)
  show ?thesis
    unfolding phase_inv_def
  proof
    fix u
    show "case loc w' u of Run l \<Rightarrow> True
     | Crit l \<Rightarrow> \<not> (\<exists>f. client u l = Atomic f) \<and> \<not> (\<exists>a b c d e. client u l = CallUnparkRequeue a b c d e)
     | CritOp l op \<Rightarrow> op \<noteq> Abort \<and> (\<exists>a b c d e. client u l = CallUnparkRequeue a b c d e)"
      using self other [of u] inv unfolding phase_inv_def by (cases "u = t") auto
  qed
qed

lemma lot_inv_step:
  assumes "lot_inv w" and "step client (t, c) w = Some w'"
  shows "lot_inv w'"
proof -
  have inv: "queue_inv asleep w" "lock_inv client w" "phase_inv client w"
    using assms(1) by (simp_all add: lot_inv_def)
  have "queue_inv asleep w' \<and> lock_inv client w'"
  proof (cases "loc w t")
    case (Run l)
    then have "run_step client t c l w = Some w'" using assms(2) by (simp add: step_def)
    then show ?thesis using run_step_queue_inv [OF inv(1) Run] run_step_lock_inv [OF inv(2) Run] by blast
  next
    case (Crit l)
    then have "crit_step client t c l w = Some w'" using assms(2) by (simp add: step_def)
    then show ?thesis using crit_step_queue_inv [OF inv(1) Crit] crit_step_lock_inv [OF inv(2) Crit] by blast
  next
    case (CritOp l op)
    then have "requeue_step client t c l op w = Some w'" using assms(2) by (simp add: step_def)
    then show ?thesis
      using requeue_step_queue_inv [OF inv(1) CritOp] requeue_step_lock_inv [OF inv(2,1) CritOp] by blast
  qed
  then show ?thesis using step_phase_inv [OF inv(3) assms(2)] by (simp add: lot_inv_def)
qed

lemma reach_lot_inv:
  "reach client w0 w \<Longrightarrow> lot_inv w0 \<Longrightarrow> lot_inv w"
proof (induction rule: reach.induct)
  case (reach_step w tc w')
  then show ?case using lot_inv_step [of w "fst tc" "snd tc" w'] by simp
qed simp

text \<open>
  Progress of the lot: a thread that holds bucket locks can always go on, so a lock is
  never what finally stops a thread.
\<close>

lemma crit_enabled:
  assumes "lot_inv w" and "loc w t \<noteq> Run l" and "\<And>l. loc w t \<noteq> Run l"
  shows "\<exists>w'. step client (t, c) w = Some w'"
proof (cases "loc w t")
  case (Run l)
  then show ?thesis using assms by simp
next
  case (Crit l)
  then show ?thesis using assms(1)
    by (cases "client t l")
      (auto simp: lot_inv_def phase_inv_def step_def crit_step_def Let_def
        split: prod.splits dest!: spec [of _ t])
next
  case (CritOp l op)
  then show ?thesis using assms(1)
    by (auto simp: lot_inv_def phase_inv_def step_def requeue_step_def Let_def
        split: prod.splits dest!: spec [of _ t])
qed

lemma holder_enabled:
  assumes "lot_inv w" and "holder w k = Some t"
  shows "\<exists>w'. step client (t, c) w = Some w'"
proof -
  have "k \<in> held_keys client w t" using assms by (simp add: lot_inv_def lock_inv_def)
  then have "loc w t \<noteq> Run l" for l by (auto simp: held_keys_def)
  then show ?thesis using crit_enabled [OF assms(1)] by blast
qed

end

end
