(* ===== verification/Raw_Mutex.thy ===== *)
theory Raw_Mutex
  imports Park_Machine Spin_Wait
begin

text \<open>
  The mutex of \<open>src/src/raw_mutex.rs\<close>: its state byte, every atomic access of its functions
  as a step of a program over the parking lot, and the program of a thread that calls the
  functions in any order. The state is the byte \<open>state\<close>; the thread's local state is the
  point it has reached in a function, with the function's local variables. The build
  without the feature \<open>deadlock_detection\<close> is modelled, where \<open>acquire_resource\<close> and
  \<open>release_resource\<close> are empty.
\<close>

section \<open>State and operations\<close>

definition TOKEN_NORMAL :: usize where "TOKEN_NORMAL = 0"
definition TOKEN_HANDOFF :: usize where "TOKEN_HANDOFF = 1"
definition LOCKED_BIT :: u8 where "LOCKED_BIT = 1"
definition PARKED_BIT :: u8 where "PARKED_BIT = 2"

lemmas mutex_consts = TOKEN_NORMAL_def TOKEN_HANDOFF_def LOCKED_BIT_def PARKED_BIT_def

text \<open>
  The points of the functions. The flag \<open>timed\<close> says whether \<open>timeout\<close> is \<open>Some\<close>, \<open>fair\<close> is
  \<open>force_fair\<close>, and \<open>relock\<close> says that \<open>unlock_slow\<close> was called by \<open>bump_slow\<close>, which then
  calls \<open>lock\<close>. A thread that returns with the lock is at \<open>Owner\<close>, one that returns without
  it at \<open>Idle\<close>.
\<close>

datatype (plugins only: code size) mutex_pc =
    Idle
  | LockFast bool
  | SlowEntry bool
  | LockSlow bool SpinWait u8
  | SlowPark bool
  | SlowAsleep bool
  | SlowReload bool
  | TryEntry
  | TryLoop u8
  | Owner
  | UnlockFast bool
  | UnlockSlow bool bool
  | BumpCheck

text \<open>The weak exchange fails spuriously when the scheduler's number is odd.\<close>

definition spurious :: "nat \<Rightarrow> bool" where
  "spurious c = odd c"

definition mutex_is_locked :: "u8 \<Rightarrow> bool" where
  "mutex_is_locked state \<longleftrightarrow> state AND LOCKED_BIT \<noteq> 0"

text \<open>\<open>lock\<close>, \<open>try_lock_until\<close> and \<open>try_lock_for\<close> up to \<open>lock_slow\<close>.\<close>

definition lock_fast :: "bool \<Rightarrow> nat \<Rightarrow> u8 \<Rightarrow> u8 \<times> mutex_pc" where
  "lock_fast timed c state =
     (case compare_exchange_weak (spurious c) 0 LOCKED_BIT state of
        (Inr _, s) \<Rightarrow> (s, Owner)
      | (Inl _, s) \<Rightarrow> (s, SlowEntry timed))"

definition try_lock_loop :: "u8 \<Rightarrow> nat \<Rightarrow> u8 \<Rightarrow> u8 \<times> mutex_pc" where
  "try_lock_loop state c g =
     (if state AND LOCKED_BIT \<noteq> 0 then (g, Idle)
      else (case compare_exchange_weak (spurious c) state (state OR LOCKED_BIT) g of
        (Inr _, s) \<Rightarrow> (s, Owner)
      | (Inl x, s) \<Rightarrow> (s, TryLoop x)))"

text \<open>\<open>unlock\<close> and \<open>unlock_fair\<close>.\<close>

definition unlock_fast :: "bool \<Rightarrow> u8 \<Rightarrow> u8 \<times> mutex_pc" where
  "unlock_fast fair state =
     (case compare_exchange LOCKED_BIT 0 state of
        (Inr _, s) \<Rightarrow> (s, Idle)
      | (Inl _, s) \<Rightarrow> (s, UnlockSlow fair False))"

definition bump :: "u8 \<Rightarrow> mutex_pc" where
  "bump state = (if state AND PARKED_BIT \<noteq> 0 then UnlockSlow True True else Owner)"

text \<open>One iteration of the loop of \<open>lock_slow\<close>, up to its next access of the state.\<close>

definition lock_slow_loop :: "bool \<Rightarrow> SpinWait \<Rightarrow> u8 \<Rightarrow> nat \<Rightarrow> u8 \<Rightarrow> u8 \<times> mutex_pc" where
  "lock_slow_loop timed sw state c g =
     (if state AND LOCKED_BIT = 0 then
        (case compare_exchange_weak (spurious c) state (state OR LOCKED_BIT) g of
           (Inr _, s) \<Rightarrow> (s, Owner)
         | (Inl x, s) \<Rightarrow> (s, LockSlow timed sw x))
      else if state AND PARKED_BIT = 0 \<and> fst (spin sw) then
        (g, LockSlow timed (fst (snd (spin sw))) g)
      else if state AND PARKED_BIT = 0 then
        (case compare_exchange_weak (spurious c) state (state OR PARKED_BIT) g of
           (Inr _, s) \<Rightarrow> (s, SlowPark timed)
         | (Inl x, s) \<Rightarrow> (s, LockSlow timed sw x))
      else (g, SlowPark timed))"

definition lock_slow_validate :: "u8 \<Rightarrow> u8 \<times> bool" where
  "lock_slow_validate state = (state, state = LOCKED_BIT OR PARKED_BIT)"

definition lock_slow_timed_out :: "usize \<Rightarrow> bool \<Rightarrow> u8 \<Rightarrow> u8" where
  "lock_slow_timed_out k was_last_thread state =
     (if was_last_thread then snd (fetch_and (NOT PARKED_BIT) state) else state)"

definition lock_slow_unparked :: "bool \<Rightarrow> usize \<Rightarrow> mutex_pc" where
  "lock_slow_unparked timed token = (if token = TOKEN_HANDOFF then Owner else SlowReload timed)"

definition unlock_slow_callback :: "bool \<Rightarrow> UnparkResult \<Rightarrow> u8 \<Rightarrow> u8 \<times> usize" where
  "unlock_slow_callback force_fair result state =
     (if unparked_threads result \<noteq> 0 \<and> (force_fair \<or> be_fair result) then
        (if \<not> have_more_threads result then LOCKED_BIT else state, TOKEN_HANDOFF)
      else (if have_more_threads result then PARKED_BIT else 0, TOKEN_NORMAL))"

text \<open>The two functions the condition variable uses on the mutex it requeues to.\<close>

definition mark_parked :: "u8 \<Rightarrow> u8" where
  "mark_parked state = snd (fetch_or PARKED_BIT state)"

text \<open>
  One iteration of \<open>mark_parked_if_locked\<close>: the result when it returns (\<open>Inr\<close>) or the value of
  \<open>state\<close> for the next iteration.
\<close>

definition mark_parked_if_locked_loop :: "u8 \<Rightarrow> nat \<Rightarrow> u8 \<Rightarrow> u8 \<times> (u8 + bool)" where
  "mark_parked_if_locked_loop state c g =
     (if state AND LOCKED_BIT = 0 then (g, Inr False)
      else (case compare_exchange_weak (spurious c) state (state OR PARKED_BIT) g of
        (Inr _, s) \<Rightarrow> (s, Inr True)
      | (Inl x, s) \<Rightarrow> (s, Inl x)))"

text \<open>
  The program: an idle thread calls \<open>lock\<close>, \<open>try_lock_until\<close> (or \<open>try_lock_for\<close>) or \<open>try_lock\<close>, an owner
  calls \<open>unlock\<close>, \<open>unlock_fair\<close> or \<open>bump\<close>, as the scheduler's number says, or does neither.
\<close>

definition mutex_call :: "nat \<Rightarrow> mutex_pc" where
  "mutex_call c = (if c = 0 then LockFast False else if c = 1 then LockFast True
     else if c = 2 then TryEntry else Idle)"

definition mutex_leave :: "nat \<Rightarrow> mutex_pc" where
  "mutex_leave c = (if c = 0 then UnlockFast False else if c = 1 then UnlockFast True
     else if c = 2 then BumpCheck else Owner)"

fun mutex_client :: "usize \<Rightarrow> (u8, mutex_pc) client" where
  "mutex_client a t Idle = Atomic (\<lambda>c g. (g, mutex_call c))"
| "mutex_client a t (LockFast timed) = Atomic (lock_fast timed)"
| "mutex_client a t (SlowEntry timed) = Atomic (\<lambda>c g. (g, LockSlow timed SpinWait_new g))"
| "mutex_client a t (LockSlow timed sw state) = Atomic (lock_slow_loop timed sw state)"
| "mutex_client a t (SlowPark timed) =
     ParkEnq a DEFAULT_PARK_TOKEN lock_slow_validate (SlowReload timed) (SlowAsleep timed)"
| "mutex_client a t (SlowAsleep timed) =
     ParkSleep timed lock_slow_timed_out (lock_slow_unparked timed) Idle"
| "mutex_client a t (SlowReload timed) = Atomic (\<lambda>c g. (g, LockSlow timed SpinWait_new g))"
| "mutex_client a t TryEntry = Atomic (\<lambda>c g. (g, TryLoop g))"
| "mutex_client a t (TryLoop state) = Atomic (try_lock_loop state)"
| "mutex_client a t Owner = Atomic (\<lambda>c g. (g, mutex_leave c))"
| "mutex_client a t (UnlockFast fair) = Atomic (\<lambda>c. unlock_fast fair)"
| "mutex_client a t (UnlockSlow fair relock) =
     CallUnparkOne a (unlock_slow_callback fair) (\<lambda>r. if relock then LockFast False else Idle)"
| "mutex_client a t BumpCheck = Atomic (\<lambda>c g. (g, bump g))"

fun mutex_asleep :: "mutex_pc \<Rightarrow> bool" where
  "mutex_asleep (SlowAsleep timed) = True"
| "mutex_asleep _ = False"

definition mutex_start :: "(u8, mutex_pc) world" where
  "mutex_start = world_init 0 (\<lambda>_. Idle)"

lemmas mutex_ops = mutex_call_def mutex_leave_def bump_def lock_fast_def try_lock_loop_def
  unlock_fast_def lock_slow_loop_def lock_slow_unparked_def

interpretation mutex: park_client "mutex_client a" mutex_asleep for a
  by unfold_locales
    (auto elim!: mutex_client.elims simp: mutex_ops atomic_simps split: if_splits)

section \<open>Invariant\<close>

text \<open>
  Who owns the mutex: a thread at one of the points between acquiring and releasing, or a
  sleeping thread that was unparked with the hand-off token. Who contends: a thread in the
  slow path that will look at the state again before it sleeps.
\<close>

fun own_pc :: "mutex_pc \<Rightarrow> bool" where
  "own_pc Owner = True"
| "own_pc BumpCheck = True"
| "own_pc (UnlockFast fair) = True"
| "own_pc (UnlockSlow fair relock) = True"
| "own_pc _ = False"

fun contend_pc :: "mutex_pc \<Rightarrow> bool" where
  "contend_pc (SlowEntry timed) = True"
| "contend_pc (LockSlow timed sw state) = True"
| "contend_pc (SlowPark timed) = True"
| "contend_pc (SlowReload timed) = True"
| "contend_pc _ = False"

definition owns :: "(u8, mutex_pc) world \<Rightarrow> tid \<Rightarrow> bool" where
  "owns w t \<longleftrightarrow> own_pc (at_phase (loc w t)) \<or>
     mutex_asleep (at_phase (loc w t)) \<and> \<not> parkedf w t \<and> utok w t = TOKEN_HANDOFF"

definition contends :: "(u8, mutex_pc) world \<Rightarrow> tid \<Rightarrow> bool" where
  "contends w t \<longleftrightarrow> contend_pc (at_phase (loc w t)) \<or> mutex_asleep (at_phase (loc w t)) \<and> \<not> parkedf w t"

fun parking :: "mutex_pc phase \<Rightarrow> bool" where
  "parking (Crit (SlowPark timed)) = True"
| "parking _ = False"

definition mutex_locked :: "u8 \<Rightarrow> bool" where
  "mutex_locked s \<longleftrightarrow> s = 1 \<or> s = 3"

definition mutex_parked :: "u8 \<Rightarrow> bool" where
  "mutex_parked s \<longleftrightarrow> s = 2 \<or> s = 3"

definition mutex_inv :: "usize \<Rightarrow> (u8, mutex_pc) world \<Rightarrow> bool" where
  "mutex_inv a w \<longleftrightarrow> shared w \<in> {0, 1, 2, 3}
     \<and> (mutex_locked (shared w) \<longleftrightarrow> (\<exists>t. owns w t))
     \<and> (\<forall>t u. owns w t \<longrightarrow> owns w u \<longrightarrow> t = u)
     \<and> (queues w a \<noteq> [] \<longrightarrow> mutex_parked (shared w))
     \<and> ((\<exists>t. parking (loc w t)) \<longrightarrow> shared w = 3)
     \<and> (\<forall>t. mutex_asleep (at_phase (loc w t)) \<longrightarrow> wkey w t = a)
     \<and> (queues w a \<noteq> [] \<longrightarrow> \<not> mutex_locked (shared w) \<longrightarrow> (\<exists>t. contends w t))"

lemma mutex_invD:
  assumes "mutex_inv a w"
  shows "shared w \<in> {0, 1, 2, 3}"
    and "mutex_locked (shared w) \<longleftrightarrow> (\<exists>t. owns w t)"
    and "owns w t \<Longrightarrow> owns w u \<Longrightarrow> t = u"
    and "queues w a \<noteq> [] \<Longrightarrow> mutex_parked (shared w)"
    and "parking (loc w t) \<Longrightarrow> shared w = 3"
    and "mutex_asleep (at_phase (loc w t)) \<Longrightarrow> wkey w t = a"
    and "queues w a \<noteq> [] \<Longrightarrow> \<not> mutex_locked (shared w) \<Longrightarrow> \<exists>t. contends w t"
  using assms unfolding mutex_inv_def by blast+

lemma mutex_bits:
  "s \<in> {0, 1, 2, 3} \<Longrightarrow> (s AND LOCKED_BIT \<noteq> 0 \<longleftrightarrow> mutex_locked s)"
  "s \<in> {0, 1, 2, 3} \<Longrightarrow> (s AND PARKED_BIT \<noteq> 0 \<longleftrightarrow> mutex_parked s)"
  by (auto simp: mutex_locked_def mutex_parked_def mutex_consts)

section \<open>Steps that do not touch the lot\<close>

text \<open>What an access of the state may do, from the state and the point before and after.\<close>

definition local_ok :: "u8 \<Rightarrow> mutex_pc \<Rightarrow> u8 \<Rightarrow> mutex_pc \<Rightarrow> bool" where
  "local_ok s p s' p' \<longleftrightarrow> s' \<in> {0, 1, 2, 3} \<and> \<not> mutex_asleep p'
     \<and> (own_pc p' \<and> \<not> own_pc p \<longrightarrow> \<not> mutex_locked s)
     \<and> (mutex_locked s' \<longleftrightarrow> own_pc p' \<or> \<not> own_pc p \<and> mutex_locked s)
     \<and> (mutex_parked s \<longrightarrow> mutex_parked s') \<and> (s = 3 \<longrightarrow> s' = 3)
     \<and> (mutex_parked s \<and> \<not> mutex_locked s' \<longrightarrow> contend_pc p' \<or> \<not> contend_pc p \<and> \<not> mutex_locked s)"

text \<open>Accesses that only read the state.\<close>

lemma mutex_stay_ok:
  assumes "s \<in> {0, 1, 2, 3}" "\<not> mutex_asleep p'" "own_pc p' = own_pc p" "own_pc p \<longrightarrow> mutex_locked s"
    "contend_pc p \<longrightarrow> contend_pc p'"
  shows "local_ok s p s p'"
  using assms by (simp add: local_ok_def) blast

lemma cas_fail:
  "state \<noteq> g \<or> spur \<Longrightarrow> compare_exchange_weak spur state v g = (Inl g, g)"
  by (auto simp: atomic_simps)

lemma lock_slow_loop_ok:
  assumes s: "s \<in> {0, 1, 2, 3}"
  shows "local_ok s (LockSlow timed sw state) (fst (lock_slow_loop timed sw state c s))
    (snd (lock_slow_loop timed sw state c s))"
proof (cases "state \<noteq> s \<or> spurious c")
  case True
  define r where "r = lock_slow_loop timed sw state c s"
  have "fst r = s" "\<not> mutex_asleep (snd r)" "\<not> own_pc (snd r)" "contend_pc (snd r)"
    by (auto simp: r_def lock_slow_loop_def cas_fail [OF True])
  then show ?thesis using mutex_stay_ok [OF s, of "snd r" "LockSlow timed sw state"] by (simp add: r_def)
next
  case False
  from s consider "s = 0" | "s = 1" | "s = 2" | "s = 3" by blast
  then show ?thesis using False
    by cases (simp_all add: lock_slow_loop_def atomic_simps local_ok_def mutex_locked_def mutex_parked_def mutex_consts)
qed

lemma try_lock_loop_ok:
  assumes s: "s \<in> {0, 1, 2, 3}"
  shows "local_ok s (TryLoop state) (fst (try_lock_loop state c s)) (snd (try_lock_loop state c s))"
proof (cases "state \<noteq> s \<or> spurious c")
  case True
  define r where "r = try_lock_loop state c s"
  have "fst r = s" "\<not> mutex_asleep (snd r)" "\<not> own_pc (snd r)"
    by (auto simp: r_def try_lock_loop_def cas_fail [OF True])
  then show ?thesis using mutex_stay_ok [OF s, of "snd r" "TryLoop state"] by (simp add: r_def)
next
  case False
  from s consider "s = 0" | "s = 1" | "s = 2" | "s = 3" by blast
  then show ?thesis using False
    by cases (simp_all add: try_lock_loop_def atomic_simps local_ok_def mutex_locked_def mutex_parked_def mutex_consts)
qed

lemma mutex_local_ok:
  assumes s: "s \<in> {0, 1, 2, 3}" and p: "mutex_client a t p = Atomic f"
    and own: "own_pc p \<longrightarrow> mutex_locked s"
  shows "local_ok s p (fst (f c s)) (snd (f c s))"
proof (cases p)
  case (LockSlow timed sw state)
  then have "f = lock_slow_loop timed sw state" using p by simp
  then show ?thesis using lock_slow_loop_ok [OF s] LockSlow by simp
next
  case (TryLoop state)
  then have "f = try_lock_loop state" using p by simp
  then show ?thesis using try_lock_loop_ok [OF s] TryLoop by simp
next
  case (LockFast timed)
  then have f: "f = lock_fast timed" using p by simp
  show ?thesis
  proof (cases "s = 0 \<and> \<not> spurious c")
    case True
    then show ?thesis
      by (simp add: f LockFast lock_fast_def atomic_simps local_ok_def mutex_locked_def mutex_parked_def mutex_consts)
  next
    case False
    then have "lock_fast timed c s = (s, SlowEntry timed)" by (simp add: lock_fast_def cas_fail)
    then show ?thesis using mutex_stay_ok [OF s, of "SlowEntry timed" p] by (simp add: f LockFast)
  qed
next
  case (UnlockFast fair)
  then have f: "f = (\<lambda>c. unlock_fast fair)" using p by simp
  from own UnlockFast have "s = 1 \<or> s = 3" by (simp add: mutex_locked_def)
  then show ?thesis unfolding f UnlockFast
    by (elim disjE) (simp_all add: unlock_fast_def atomic_simps local_ok_def mutex_locked_def mutex_parked_def mutex_consts)
qed (use p own mutex_stay_ok [OF s, of _ p] in \<open>auto simp: mutex_call_def mutex_leave_def bump_def split: if_splits\<close>)

end
