(* ===== verification/Lock_Traits.thy ===== *)
theory Lock_Traits
  imports Lot_Prelude
begin

text \<open>
  The contract of the trait \<open>RawMutex\<close> of \<open>lock_api/src/mutex.rs\<close>, with \<open>RawMutexFair\<close> and
  \<open>RawMutexTimed\<close>, as a locale: a mutex is a machine whose steps belong to threads. A thread is idle,
  inside a call, or owns the mutex, which means that it has returned from a lock function and has not called an unlock function. A
  number chooses the function an idle thread calls (0 for \<open>lock\<close>, 1 for \<open>try_lock_until\<close> or \<open>try_lock_for\<close>,
  2 for \<open>try_lock\<close>) and the function an owner calls (0 for \<open>unlock\<close>, 1 for \<open>unlock_fair\<close>, 2 for \<open>bump\<close>).
\<close>

type_synonym 'm stepper = "nat \<times> nat \<Rightarrow> 'm \<Rightarrow> 'm option"

inductive steps_to :: "'m stepper \<Rightarrow> 'm \<Rightarrow> 'm \<Rightarrow> bool" for istep :: "'m stepper" and m0 where
  steps_init: "steps_to istep m0 m0"
| steps_next: "steps_to istep m0 m \<Longrightarrow> istep tc m = Some m' \<Longrightarrow> steps_to istep m0 m'"

locale raw_mutex =
  fixes istep :: "'m stepper" and minit :: 'm
    and idle own locking :: "'m \<Rightarrow> nat \<Rightarrow> bool"
  assumes init_idle: "idle minit t"
    and idle_not_own: "idle m t \<Longrightarrow> \<not> own m t"
    and locking_not_idle: "locking m t \<Longrightarrow> \<not> idle m t"
    and exclusion: "steps_to istep minit m \<Longrightarrow> own m t \<Longrightarrow> own m u \<Longrightarrow> t = u"
    and others: "istep (t, n) m = Some m' \<Longrightarrow> u \<noteq> t \<Longrightarrow> own m' u = own m u \<and> idle m' u = idle m u \<and> locking m' u = locking m u"
    and lock_call: "idle m t \<Longrightarrow> istep (t, 0) m = Some m' \<Longrightarrow> locking m' t"
    and lock_keeps: "locking m t \<Longrightarrow> istep (t, n) m = Some m' \<Longrightarrow> locking m' t \<or> own m' t"
    and leave_call: "own m t \<Longrightarrow> n < 3 \<Longrightarrow> istep (t, n) m = Some m' \<Longrightarrow> \<not> own m' t"

end
