(* ===== verification/Mutex_Safety.thy ===== *)
theory Mutex_Safety
  imports Raw_Mutex Lock_Traits
begin

text \<open>
  Mutual exclusion, the meaning of the parked bit and the absence of lost wake-ups for the
  mutex, over every interleaving of any number of threads.
\<close>

section \<open>The invariant is kept\<close>

lemma mutex_inv_local:
  assumes inv: "mutex_inv a w" and l: "loc w t = Run p" and np: "\<not> mutex_asleep p"
    and ok: "local_ok (shared w) p s' p'"
    and w': "shared w' = s'" "loc w' = (loc w)(t := Run p')" "queues w' = queues w" "wkey w' = wkey w"
      "parkedf w' = parkedf w" "utok w' = utok w"
  shows "mutex_inv a w'"
proof -
  have np': "\<not> mutex_asleep p'" using ok by (simp add: local_ok_def)
  have owns: "owns w' u \<longleftrightarrow> (if u = t then own_pc p' else owns w u)" for u
    using np' by (simp add: owns_def w')
  have owt: "owns w t \<longleftrightarrow> own_pc p" using l np by (simp add: owns_def)
  have cont: "contends w' u \<longleftrightarrow> (if u = t then contend_pc p' else contends w u)" for u
    using np' by (simp add: contends_def w')
  have cot: "contends w t \<longleftrightarrow> contend_pc p" using l np by (simp add: contends_def)
  have park: "parking (loc w' u) \<Longrightarrow> parking (loc w u)" for u by (auto simp: w' split: if_splits)
  have aslp: "mutex_asleep (at_phase (loc w' u)) \<Longrightarrow> mutex_asleep (at_phase (loc w u))" for u
    using np' by (auto simp: w' split: if_splits)
  note I = mutex_invD [OF inv] and L = ok [unfolded local_ok_def]
  show ?thesis
    unfolding mutex_inv_def w'(1,3,4)
  proof (intro conjI allI impI)
    show "s' \<in> {0, 1, 2, 3}" using L by blast
    show "mutex_locked s' = (\<exists>t. owns w' t)"
      using L I(2,3) owt by (metis owns)
    show "u = v" if "owns w' u" "owns w' v" for u v
      using that L I(2,3) owt by (metis owns)
    show "mutex_parked s'" if "queues w a \<noteq> []" using that I(4) L by blast
    show "s' = 3" if "\<exists>u. parking (loc w' u)" using that park I(5) L by blast
    show "wkey w u = a" if "mutex_asleep (at_phase (loc w' u))" for u
      using aslp [OF that] I(6) by blast
    show "\<exists>u. contends w' u" if q: "queues w a \<noteq> []" and "\<not> mutex_locked s'"
    proof -
      from I(4) [OF q] that L consider "contend_pc p'" | "\<not> contend_pc p" "\<not> mutex_locked (shared w)"
        by blast
      then show ?thesis
      proof cases
        case 1
        then show ?thesis by (intro exI [of _ t]) (simp add: cont)
      next
        case 2
        then obtain u where "contends w u" using I(7) q by blast
        then show ?thesis using 2 cot by (intro exI [of _ u]) (auto simp: cont)
      qed
    qed
  qed
qed

text \<open>Steps that change neither the state nor who owns, contends and waits.\<close>

lemma mutex_inv_same:
  assumes inv: "mutex_inv a w"
    and w': "shared w' = shared w" "queues w' = queues w" "wkey w' = wkey w"
    and own: "\<And>u. owns w' u = owns w u"
    and cont: "\<And>u. contends w u \<Longrightarrow> contends w' u \<or> owns w' u"
    and park: "\<And>u. parking (loc w' u) \<Longrightarrow> parking (loc w u) \<or> shared w = 3"
    and aslp: "\<And>u. mutex_asleep (at_phase (loc w' u)) \<Longrightarrow> mutex_asleep (at_phase (loc w u))"
  shows "mutex_inv a w'"
proof -
  note I = mutex_invD [OF inv]
  show ?thesis
    unfolding mutex_inv_def w' own
  proof (intro conjI allI impI)
    show "\<exists>u. contends w' u" if "queues w a \<noteq> []" "\<not> mutex_locked (shared w)"
      using I(7) [OF that] cont own I(2) that(2) by blast
  qed (use I park aslp in blast)+
qed

lemma mutex_run_step_inv:
  assumes inv: "mutex_inv a w" and l: "loc w t = Run p" and r: "run_step (mutex_client a) t c p w = Some w'"
  shows "mutex_inv a w'"
proof (cases "mutex_client a t p")
  case (Atomic f)
  have np: "\<not> mutex_asleep p" using Atomic by (cases p) auto
  have "own_pc p \<longrightarrow> mutex_locked (shared w)"
    using mutex_invD(2) [OF inv] l by (metis at_phase.simps(1) owns_def)
  note ok = mutex_local_ok [OF mutex_invD(1) [OF inv] Atomic this, of c]
  show ?thesis
    by (rule mutex_inv_local [OF inv l np ok])
      (use r in \<open>auto simp: run_step_def Atomic lot_simps split: prod.splits\<close>)
next
  case (ParkEnq k token v li ls)
  then obtain timed where p: "p = SlowPark timed" by (cases p) auto
  show ?thesis
  proof (cases "shared w = LOCKED_BIT OR PARKED_BIT")
    case True
    have 3: "shared w = 3" using True by (simp add: mutex_consts)
    have w': "w' = w\<lparr>holder := holder w', loc := (loc w)(t := Crit p)\<rparr>"
      using r True by (auto simp: run_step_def p lot_simps lock_slow_validate_def split: if_splits)
    have lw: "loc w' = (loc w)(t := Crit p)" "parkedf w' = parkedf w" "utok w' = utok w"
      by (subst w', simp)+
    show ?thesis
    proof (rule mutex_inv_same [OF inv])
      show "shared w' = shared w" "queues w' = queues w" "wkey w' = wkey w" by (subst w', simp)+
    qed (use l 3 in \<open>auto simp: owns_def contends_def lw split: if_splits\<close>)
  next
    case False
    have w': "w' = w\<lparr>loc := (loc w)(t := Run (SlowReload timed))\<rparr>"
      using r False by (auto simp: run_step_def p lot_simps lock_slow_validate_def split: if_splits)
    show ?thesis
      by (rule mutex_inv_same [OF inv])
        (use l p in \<open>auto simp: w' owns_def contends_def split: if_splits\<close>)
  qed
next
  case (ParkSleep timed cb lu le)
  then have p: "p = SlowAsleep timed" by (cases p) auto
  show ?thesis
  proof (cases "parkedf w t")
    case True
    have w': "w' = w\<lparr>holder := holder w', loc := (loc w)(t := Crit p)\<rparr>"
      using r True by (auto simp: run_step_def p lot_simps split: if_splits)
    have lw: "loc w' = (loc w)(t := Crit p)" "parkedf w' = parkedf w" "utok w' = utok w"
      by (subst w', simp)+
    show ?thesis
    proof (rule mutex_inv_same [OF inv])
      show "shared w' = shared w" "queues w' = queues w" "wkey w' = wkey w" by (subst w', simp)+
    qed (use l p in \<open>auto simp: owns_def contends_def lw split: if_splits\<close>)
  next
    case False
    have w': "w' = w\<lparr>loc := (loc w)(t := Run (lock_slow_unparked timed (utok w t)))\<rparr>"
      using r False by (simp add: run_step_def p lot_simps)
    show ?thesis
      by (rule mutex_inv_same [OF inv])
        (use l p False in \<open>auto simp: w' owns_def contends_def lock_slow_unparked_def split: if_splits\<close>)
  qed
next
  case (CallUnparkOne k cb cont)
  then obtain fair relock where p: "p = UnlockSlow fair relock" by (cases p) auto
  have w': "w' = w\<lparr>holder := holder w', loc := (loc w)(t := Crit p)\<rparr>"
    using r by (auto simp: run_step_def p lot_simps split: if_splits)
  have lw: "loc w' = (loc w)(t := Crit p)" "parkedf w' = parkedf w" "utok w' = utok w"
    by (subst w', simp)+
  show ?thesis
  proof (rule mutex_inv_same [OF inv])
    show "shared w' = shared w" "queues w' = queues w" "wkey w' = wkey w" by (subst w', simp)+
  qed (use l p in \<open>auto simp: owns_def contends_def lw split: if_splits\<close>)
qed (cases p; simp)+

text \<open>At most one thread is in a critical section of the mutex's bucket.\<close>

lemma crit_excludes_parking:
  assumes inv: "mutex.lot_inv a w" and t: "a \<in> held_keys (mutex_client a) w t" and u: "parking (loc w u)"
  shows "u = t"
proof -
  obtain timed where "loc w u = Crit (SlowPark timed)" using u by (cases "loc w u" rule: parking.cases) auto
  then have "a \<in> held_keys (mutex_client a) w u" by (simp add: held_keys_def)
  then have "holder w a = Some u" "holder w a = Some t"
    using inv t by (auto simp: mutex.lot_inv_def lock_inv_def)
  then show ?thesis by simp
qed

lemma mutex_enqueue_inv:
  assumes inv: "mutex_inv a w" and li: "mutex.lot_inv a w" and l: "loc w t = Crit (SlowPark timed)"
    and r: "crit_step (mutex_client a) t c (SlowPark timed) w = Some w'"
  shows "mutex_inv a w'"
proof -
  note I = mutex_invD [OF inv]
  have 3: "shared w = 3" using I(5) [of t] l by simp
  have w': "shared w' = shared w" "loc w' = (loc w)(t := Run (SlowAsleep timed))"
      "wkey w' = (wkey w)(t := a)" "parkedf w' = (parkedf w)(t := True)" "utok w' = utok w"
    using r by (auto simp: crit_step_def lot_simps)
  have own: "owns w' u = owns w u" for u using l by (simp add: owns_def w')
  have "a \<in> held_keys (mutex_client a) w t" using l by (simp add: held_keys_def)
  then have park: "\<not> parking (loc w' u)" for u
    using crit_excludes_parking [OF li] by (auto simp: w'(2))
  show ?thesis
    unfolding mutex_inv_def w'(1) own
    using I(1-3) park I(6) by (auto simp: w'(2,3) 3 mutex_locked_def mutex_parked_def)
qed

lemma mutex_timeout_inv:
  assumes inv: "mutex_inv a w" and li: "mutex.lot_inv a w" and l: "loc w t = Crit (SlowAsleep timed)"
    and r: "crit_step (mutex_client a) t c (SlowAsleep timed) w = Some w'"
  shows "mutex_inv a w'"
proof (cases "parkedf w t")
  case False
  have w': "shared w' = shared w" "loc w' = (loc w)(t := Run (lock_slow_unparked timed (utok w t)))"
      "wkey w' = wkey w" "parkedf w' = parkedf w" "utok w' = utok w" "queues w' = queues w"
    using r False by (auto simp: crit_step_def lot_simps Let_def)
  show ?thesis
    by (rule mutex_inv_same [OF inv])
      (use l False in \<open>auto simp: w' owns_def contends_def lock_slow_unparked_def split: if_splits\<close>)
next
  case True
  note I = mutex_invD [OF inv]
  have k: "wkey w t = a" using I(6) [of t] l by simp
  define q where "q = remove1 t (queues w a)"
  have w': "shared w' = lock_slow_timed_out a (q = []) (shared w)" "loc w' = (loc w)(t := Run Idle)"
      "wkey w' = wkey w" "parkedf w' = parkedf w" "utok w' = utok w" "queues w' = (queues w)(a := q)"
    using r True by (auto simp: crit_step_def lot_simps Let_def k q_def)
  have own: "owns w' u = owns w u" for u using l True by (auto simp: owns_def w')
  have cont: "contends w' u = contends w u" for u using l True by (auto simp: contends_def w')
  have "a \<in> held_keys (mutex_client a) w t" using l k by (simp add: held_keys_def)
  then have park: "\<not> parking (loc w' u)" for u
    using crit_excludes_parking [OF li] l by (auto simp: w'(2))
  have "t \<in> set (queues w a)"
    using li l True k by (auto simp: mutex.lot_inv_def queue_inv_def)
  then have qne: "queues w a \<noteq> []" by auto
  have s': "shared w' \<in> {0, 1, 2, 3}" "mutex_locked (shared w') = mutex_locked (shared w)"
      "q \<noteq> [] \<Longrightarrow> shared w' = shared w"
    using I(1) unfolding w'(1)
    by (auto simp: lock_slow_timed_out_def atomic_simps mutex_locked_def mutex_consts)
  show ?thesis
    unfolding mutex_inv_def own cont s'(2)
    using I(2,3,6,7) I(4) [OF qne] s' park qne by (auto simp: w'(2,3,6))
qed

lemma mutex_unlock_inv:
  assumes inv: "mutex_inv a w" and li: "mutex.lot_inv a w" and l: "loc w t = Crit (UnlockSlow fair relock)"
    and r: "crit_step (mutex_client a) t c (UnlockSlow fair relock) w = Some w'"
  shows "mutex_inv a w'"
proof -
  note I = mutex_invD [OF inv]
  define q where "q = queues w a"
  define res where "res = \<lparr>unparked_threads = min 1 (length q), requeued_threads = 0,
      have_more_threads = 1 < length q, be_fair = (q \<noteq> [] \<and> fair_choice c)\<rparr>"
  define p' where "p' = (if relock then LockFast False else Idle)"
  obtain g token where cb: "unlock_slow_callback fair res (shared w) = (g, token)" by fastforce
  have w': "shared w' = g" "loc w' = (loc w)(t := Run p')" "wkey w' = wkey w"
      "\<And>u. parkedf w' u \<longleftrightarrow> parkedf w u \<and> u \<notin> set (take 1 q)"
      "\<And>u. utok w' u = (if u \<in> set (take 1 q) then token else utok w u)"
      "queues w' = (queues w)(a := tl q)"
    using r cb by (auto simp: crit_step_def lot_simps Let_def q_def res_def p'_def)
  have owt: "owns w t" using l by (simp add: owns_def)
  have none: "\<not> owns w u" if "u \<noteq> t" for u using I(3) owt that by blast
  have locked: "mutex_locked (shared w)" using I(2) owt by blast
  have qs: "u \<in> set q \<longleftrightarrow> mutex_asleep (at_phase (loc w u)) \<and> parkedf w u \<and> wkey w u = a" for u
    using li by (simp add: mutex.lot_inv_def queue_inv_def q_def)
  have pt: "\<not> mutex_asleep p'" "\<not> own_pc p'" by (simp_all add: p'_def)
  have "a \<in> held_keys (mutex_client a) w t" using l by (simp add: held_keys_def)
  then have park: "\<not> parking (loc w' u)" for u
    using crit_excludes_parking [OF li] l by (auto simp: w'(2) p'_def)
  have aslp: "wkey w u = a" if "mutex_asleep (at_phase (loc w' u))" for u
    using that I(6) pt by (auto simp: w'(2) split: if_splits)
  have wakes: "q \<noteq> [] \<Longrightarrow> hd q \<noteq> t \<and> mutex_asleep (at_phase (loc w (hd q)))"
    using qs [of "hd q"] l by auto
  have own: "owns w' u \<longleftrightarrow> token = TOKEN_HANDOFF \<and> q \<noteq> [] \<and> u = hd q" for u
    using none [of u] pt wakes by (cases q) (auto simp: owns_def w' split: if_splits)
  have cont: "tl q \<noteq> [] \<Longrightarrow> \<exists>u. contends w' u"
    using wakes by (cases q) (auto simp: contends_def w' intro!: exI [of _ "hd q"])
  have s': "g \<in> {0, 1, 2, 3}" "mutex_locked g \<longleftrightarrow> token = TOKEN_HANDOFF \<and> q \<noteq> []"
      "tl q \<noteq> [] \<Longrightarrow> mutex_parked g"
    using cb locked I(4) by (cases q; cases "tl q";
        auto simp: unlock_slow_callback_def res_def mutex_locked_def mutex_parked_def mutex_consts q_def
          split: if_splits)+
  show ?thesis
    unfolding mutex_inv_def w'(1) own
    using s' park aslp cont by (auto simp: w'(3,6))
qed

lemma mutex_step_inv:
  assumes inv: "mutex_inv a w" and li: "mutex.lot_inv a w" and s: "step (mutex_client a) (t, c) w = Some w'"
  shows "mutex_inv a w'"
proof (cases "loc w t")
  case (Run p)
  then show ?thesis using mutex_run_step_inv [OF inv Run] s by (simp add: step_def)
next
  case (Crit p)
  then have r: "crit_step (mutex_client a) t c p w = Some w'" using s by (simp add: step_def)
  then show ?thesis
    using mutex_enqueue_inv [OF inv li] mutex_timeout_inv [OF inv li] mutex_unlock_inv [OF inv li] Crit
    by (cases p) (auto simp: crit_step_def [of "mutex_client a"])
next
  case (CritOp p op)
  then show ?thesis using s by (cases p) (simp_all add: step_def requeue_step_def)
qed

lemma mutex_start_inv: "mutex_inv a mutex_start" "mutex.lot_inv a mutex_start"
proof -
  show "mutex.lot_inv a mutex_start"
    unfolding mutex_start_def by (rule mutex.init_lot_inv) simp
  show "mutex_inv a mutex_start"
    by (simp add: mutex_inv_def mutex_start_def world_init_def owns_def mutex_locked_def)
qed

lemma mutex_reach_inv:
  assumes "reach (mutex_client a) mutex_start w"
  shows "mutex_inv a w \<and> mutex.lot_inv a w"
  using assms
proof (induction rule: reach.induct)
  case reach_init
  show ?case by (simp add: mutex_start_inv)
next
  case (reach_step w tc w')
  then show ?case
    using mutex_step_inv [of a w "fst tc" "snd tc" w'] mutex.lot_inv_step [of a w "fst tc" "snd tc" w']
    by simp
qed

section \<open>The trait\<close>

text \<open>The mutex meets the contract of \<open>RawMutex\<close>.\<close>

definition mutex_idle :: "(u8, mutex_pc) world \<Rightarrow> tid \<Rightarrow> bool" where
  "mutex_idle w t = (case loc w t of Run Idle \<Rightarrow> True | _ \<Rightarrow> False)"

definition mutex_own :: "(u8, mutex_pc) world \<Rightarrow> tid \<Rightarrow> bool" where
  "mutex_own w t = (case loc w t of Run Owner \<Rightarrow> True | _ \<Rightarrow> False)"

primrec lock_pc :: "mutex_pc \<Rightarrow> bool" where
  "lock_pc Idle = False"
| "lock_pc (LockFast timed) = (\<not> timed)"
| "lock_pc (SlowEntry timed) = (\<not> timed)"
| "lock_pc (LockSlow timed sw s) = (\<not> timed)"
| "lock_pc (SlowPark timed) = (\<not> timed)"
| "lock_pc (SlowAsleep timed) = (\<not> timed)"
| "lock_pc (SlowReload timed) = (\<not> timed)"
| "lock_pc TryEntry = False"
| "lock_pc (TryLoop s) = False"
| "lock_pc Owner = False"
| "lock_pc (UnlockFast fair) = False"
| "lock_pc (UnlockSlow fair relock) = False"
| "lock_pc BumpCheck = False"

definition mutex_locking :: "(u8, mutex_pc) world \<Rightarrow> tid \<Rightarrow> bool" where
  "mutex_locking w t = (lock_pc (pc w t) \<and> (case loc w t of Crit p \<Rightarrow> \<not> mutex_asleep p | _ \<Rightarrow> True))"

lemma mutex_own_run: "mutex_own w t \<longleftrightarrow> loc w t = Run Owner"
  by (cases "loc w t"; cases "pc w t") (auto simp: mutex_own_def)

lemma mutex_idle_run: "mutex_idle w t \<longleftrightarrow> loc w t = Run Idle"
  by (cases "loc w t"; cases "pc w t") (auto simp: mutex_idle_def)

lemma steps_to_reach: "steps_to (step client) w0 w \<Longrightarrow> reach client w0 w"
  by (induction rule: steps_to.induct) (auto intro: reach.intros)

lemma lock_pc_step:
  assumes "mutex_locking w t" and "step (mutex_client a) (t, n) w = Some w'"
  shows "mutex_locking w' t \<or> loc w' t = Run Owner"
proof (cases "loc w t")
  case (Run p)
  then show ?thesis using assms
    by (cases p) (auto simp: mutex_locking_def step_def run_step_def lot_simps mutex_ops lock_slow_validate_def atomic_simps Let_def
        split: if_splits prod.splits)
next
  case (Crit p)
  then show ?thesis using assms
    by (cases p) (auto simp: mutex_locking_def step_def crit_step_def lot_simps mutex_ops Let_def split: if_splits)
next
  case (CritOp p op)
  then show ?thesis using assms by (cases p) (simp_all add: step_def requeue_step_def)
qed

interpretation mutex_trait: raw_mutex "step (mutex_client a)" mutex_start mutex_idle mutex_own mutex_locking for a
proof
  fix m m' :: "(u8, mutex_pc) world" and t u n
  show "mutex_idle mutex_start t" by (simp add: mutex_idle_def mutex_start_def world_init_def)
  show "mutex_idle m t \<Longrightarrow> \<not> mutex_own m t" by (simp add: mutex_idle_run mutex_own_run)
  show "mutex_locking m t \<Longrightarrow> \<not> mutex_idle m t" by (auto simp: mutex_idle_run mutex_locking_def)
  show "t = u" if "steps_to (step (mutex_client a)) mutex_start m" "mutex_own m t" "mutex_own m u"
    using mutex_invD(3) [OF conjunct1 [OF mutex_reach_inv [OF steps_to_reach [OF that(1)]]], of t u] that(2,3)
    by (simp add: owns_def mutex_own_run)
  show "mutex_own m' u = mutex_own m u \<and> mutex_idle m' u = mutex_idle m u \<and> mutex_locking m' u = mutex_locking m u"
    if "step (mutex_client a) (t, n) m = Some m'" "u \<noteq> t"
    using step_other [OF that] by (simp add: mutex_own_def mutex_idle_def mutex_locking_def)
  show "mutex_locking m' t" if "mutex_idle m t" "step (mutex_client a) (t, 0) m = Some m'"
    using that by (auto simp: mutex_idle_run mutex_locking_def step_def run_step_def lot_simps mutex_call_def)
  show "mutex_locking m' t \<or> mutex_own m' t" if "mutex_locking m t" "step (mutex_client a) (t, n) m = Some m'"
    using lock_pc_step [OF that] by (simp add: mutex_own_run)
  show "\<not> mutex_own m' t" if "mutex_own m t" "n < 3" "step (mutex_client a) (t, n) m = Some m'"
    using that by (auto simp: mutex_own_run step_def run_step_def lot_simps mutex_leave_def split: if_splits)
qed

section \<open>Progress\<close>

lemma bucket_free_or_holder:
  assumes li: "mutex.lot_inv a w"
  obtains "holder w a = None"
  | v w' where "holder w a = Some v" "step (mutex_client a) (v, 0) w = Some w'"
  using mutex.holder_enabled [OF li] by (cases "holder w a") blast+

lemma run_enabled:
  assumes li: "mutex.lot_inv a w" and l: "loc w u = Run p"
    and p: "\<not> mutex_asleep p \<or> \<not> parkedf w u" and free: "holder w a = None"
  shows "\<exists>w'. step (mutex_client a) (u, 0) w = Some w'"
  using l p free
  by (cases p) (auto simp: step_def run_step_def lot_simps Let_def split: prod.splits)

lemma crit_or_run_enabled:
  assumes li: "mutex.lot_inv a w" and p: "\<not> mutex_asleep (at_phase (loc w u)) \<or> \<not> parkedf w u"
    and free: "holder w a = None"
  shows "\<exists>w'. step (mutex_client a) (u, 0) w = Some w'"
proof (cases "\<exists>p. loc w u = Run p")
  case True
  then show ?thesis using run_enabled [OF li] p free by auto
next
  case False
  then show ?thesis using mutex.crit_enabled [OF li] by blast
qed

text \<open>A fair unlock with a waiter.\<close>

lemma handoff_step:
  assumes inv: "mutex_inv a w" and li: "mutex.lot_inv a w" and l: "loc w t = Crit (UnlockSlow True relock)"
    and q: "queues w a = u # us"
  shows "\<exists>w'. step (mutex_client a) (t, c) w = Some w' \<and> queues w' a = us
    \<and> mutex_is_locked (shared w') \<and> (\<forall>v. owns w' v \<longleftrightarrow> v = u)
    \<and> (shared w' AND PARKED_BIT \<noteq> 0 \<longleftrightarrow> us \<noteq> [])"
proof -
  have "\<And>p. loc w t \<noteq> Run p" using l by simp
  then obtain w' where s: "step (mutex_client a) (t, c) w = Some w'"
    using mutex.crit_enabled [OF li] by blast
  have inv': "mutex_inv a w'" by (rule mutex_step_inv [OF inv li s])
  have p: "mutex_parked (shared w)" using mutex_invD(4) [OF inv] q by simp
  have "owns w t" using l by (simp add: owns_def)
  then have lk: "mutex_locked (shared w)" using mutex_invD(2) [OF inv] by blast
  have u: "u \<in> set (queues w a)" using q by simp
  then have ua: "mutex_asleep (at_phase (loc w u))" and ut: "u \<noteq> t"
    using li l by (auto simp: mutex.lot_inv_def queue_inv_def)
  have w': "queues w' a = us" "shared w' = (if us = [] then LOCKED_BIT else shared w)"
      "loc w' u = loc w u" "\<not> parkedf w' u" "utok w' u = TOKEN_HANDOFF"
    using s ut by (auto simp: step_def l q crit_step_def lot_simps Let_def unlock_slow_callback_def)
  have "owns w' u" using ua by (simp add: owns_def w')
  moreover have "shared w' = (if us = [] then 1 else 3)"
    using p lk by (auto simp: w'(2) mutex_parked_def mutex_locked_def mutex_consts)
  ultimately show ?thesis
    using s w'(1) mutex_invD(3) [OF inv'] by (auto simp: mutex_is_locked_def mutex_consts)
qed

section \<open>Theorems\<close>

text \<open>
  A schedule in which thread 2 holds the mutex at address 8 and thread 3 has spun ten
  times, set the parked bit and gone to sleep.
\<close>

definition contended_schedule :: "(tid \<times> nat) list" where
  "contended_schedule = [(2, 0), (2, 0)] @ replicate 16 (3, 0)"

definition contended :: "(u8, mutex_pc) world" where
  "contended = the (run (mutex_client 8) contended_schedule mutex_start)"

lemma contended_facts:
  "loc contended 2 = Run Owner" "loc contended 3 = Run (SlowAsleep False)" "queues contended 8 = [3]"
  "shared contended = 3" "reach (mutex_client 8) mutex_start contended"
proof -
  have *: "map_option (\<lambda>w. (loc w 2, loc w 3, queues w 8, shared w))
      (run (mutex_client 8) contended_schedule mutex_start) = Some (Run Owner, Run (SlowAsleep False), [3], 3)"
    by code_simp
  then obtain w where w: "run (mutex_client 8) contended_schedule mutex_start = Some w" by auto
  then have c: "contended = w" by (simp add: contended_def)
  show "loc contended 2 = Run Owner" "loc contended 3 = Run (SlowAsleep False)" "queues contended 8 = [3]"
    "shared contended = 3" using * by (auto simp: c w)
  show "reach (mutex_client 8) mutex_start contended"
    unfolding c by (rule run_reach [OF w reach_init])
qed

text \<open>
  Claim C1. Mutual exclusion: in every reachable state of any number of threads that lock, try to
  lock, time out, unlock, unlock fairly and bump in any interleaving, at most one thread
  is between acquiring and releasing the mutex, and the locked bit is set while one is.
\<close>

theorem mutex_mutual_exclusion:
  assumes "reach (mutex_client a) mutex_start w"
    and "own_pc (at_phase (loc w t))" and "own_pc (at_phase (loc w u))"
  shows "t = u \<and> mutex_is_locked (shared w)"
proof -
  note inv = conjunct1 [OF mutex_reach_inv [OF assms(1)]]
  have "owns w t" "owns w u" using assms(2,3) by (simp_all add: owns_def)
  then have "t = u" "mutex_locked (shared w)" using mutex_invD(2,3) [OF inv] by blast+
  then show ?thesis
    using mutex_bits(1) [OF mutex_invD(1) [OF inv]] by (simp add: mutex_is_locked_def)
qed

theorem mutex_mutual_exclusion_witness:
  "own_pc (at_phase (loc contended 2)) \<and> mutex_is_locked (shared contended)"
  using mutex_mutual_exclusion [OF contended_facts(5), of 2 2] by (simp add: contended_facts(1))

text \<open>
  The parked bit is set whenever a thread waits in the queue of the mutex, so an
  unlocking thread cannot take the fast path past a waiter.
\<close>

theorem mutex_parked_bit_covers_queue:
  assumes "reach (mutex_client a) mutex_start w" and "queues w a \<noteq> []"
  shows "shared w AND PARKED_BIT \<noteq> 0 \<and> snd (unlock_fast fair (shared w)) = UnlockSlow fair False"
proof -
  note inv = conjunct1 [OF mutex_reach_inv [OF assms(1)]]
  have p: "mutex_parked (shared w)" using mutex_invD(4) [OF inv assms(2)] .
  then have "shared w \<noteq> LOCKED_BIT" by (auto simp: mutex_parked_def mutex_consts)
  then show ?thesis
    using p mutex_bits(2) [OF mutex_invD(1) [OF inv]] by (simp add: unlock_fast_def atomic_simps)
qed

theorem mutex_parked_bit_covers_queue_witness:
  "queues contended 8 = [3] \<and> shared contended AND PARKED_BIT \<noteq> 0"
  using mutex_parked_bit_covers_queue [OF contended_facts(5)] by (simp add: contended_facts(3))

text \<open>
  Claim C27. No lost wake-up: while a thread waits in the queue, the mutex is locked, or a
  thread that is not asleep contends for it; and the owner, the contender or the thread that holds
  the bucket lock can take a step. A waiter is never left behind an unlocked mutex that
  nobody is going to look at.
\<close>

theorem mutex_no_lost_wakeup:
  assumes "reach (mutex_client a) mutex_start w" and "queues w a \<noteq> []"
  shows "(mutex_is_locked (shared w) \<and> (\<exists>u. owns w u) \<or> (\<exists>u. contends w u \<and> u \<notin> set (queues w a)))
    \<and> (\<exists>u w'. (owns w u \<or> contends w u \<or> holder w a = Some u) \<and> step (mutex_client a) (u, 0) w = Some w')"
proof -
  note inv = conjunct1 [OF mutex_reach_inv [OF assms(1)]] and li = conjunct2 [OF mutex_reach_inv [OF assms(1)]]
  have nq: "u \<notin> set (queues w a)" if "contends w u" for u
    using that li by (auto simp: contends_def mutex.lot_inv_def queue_inv_def
        elim: contend_pc.elims)
  have ex: "(mutex_locked (shared w) \<and> (\<exists>u. owns w u)) \<or> (\<exists>u. contends w u)"
    using mutex_invD(2,7) [OF inv] assms(2) by blast
  have awake: "\<not> mutex_asleep (at_phase (loc w u)) \<or> \<not> parkedf w u" if "owns w u \<or> contends w u" for u
    using that by (auto simp: owns_def contends_def elim: own_pc.elims contend_pc.elims)
  have "\<exists>u w'. (owns w u \<or> contends w u \<or> holder w a = Some u) \<and> step (mutex_client a) (u, 0) w = Some w'"
  proof (rule bucket_free_or_holder [OF li])
    assume free: "holder w a = None"
    from ex obtain u where u: "owns w u \<or> contends w u" by blast
    from crit_or_run_enabled [OF li awake [OF u] free] u show ?thesis by blast
  qed blast
  then show ?thesis
    using ex nq mutex_bits(1) [OF mutex_invD(1) [OF inv]] by (auto simp: mutex_is_locked_def)
qed

theorem mutex_no_lost_wakeup_witness:
  "queues contended 8 = [3] \<and> (\<exists>u w'. step (mutex_client 8) (u, 0) contended = Some w')"
  using mutex_no_lost_wakeup [OF contended_facts(5)] by (auto simp: contended_facts(3))

text \<open>
  Fair unlocking: when \<open>unlock_fair\<close> (or \<open>bump\<close>) unlocks a mutex with waiters, the
  mutex stays locked and its next owner is the thread that has waited longest; the parked
  bit stays set exactly if more threads wait.
\<close>

theorem mutex_fair_handoff:
  assumes "reach (mutex_client a) mutex_start w" and "loc w t = Crit (UnlockSlow True relock)"
    and "queues w a = u # us"
  shows "\<exists>w'. step (mutex_client a) (t, c) w = Some w' \<and> queues w' a = us
    \<and> mutex_is_locked (shared w') \<and> (\<forall>v. owns w' v \<longleftrightarrow> v = u)
    \<and> (shared w' AND PARKED_BIT \<noteq> 0 \<longleftrightarrow> us \<noteq> [])"
  using mutex_reach_inv [OF assms(1)] handoff_step [OF _ _ assms(2,3)] by blast

theorem mutex_fair_handoff_witness:
  "\<exists>w w'. run (mutex_client 8) (contended_schedule @ [(2, 1), (2, 0), (2, 0)]) mutex_start = Some w
     \<and> step (mutex_client 8) (2, 0) w = Some w' \<and> (\<forall>v. owns w' v \<longleftrightarrow> v = 3) \<and> queues w' 8 = []"
proof -
  have *: "map_option (\<lambda>w. (loc w 2, queues w 8))
      (run (mutex_client 8) (contended_schedule @ [(2, 1), (2, 0), (2, 0)]) mutex_start) =
      Some (Crit (UnlockSlow True False), [3])"
    by code_simp
  then obtain w where w: "run (mutex_client 8) (contended_schedule @ [(2, 1), (2, 0), (2, 0)]) mutex_start = Some w"
    by auto
  have "loc w 2 = Crit (UnlockSlow True False)" "queues w 8 = [3]" using * [unfolded w] by simp_all
  from mutex_fair_handoff [OF run_reach [OF w reach_init] this, of 0] w show ?thesis by auto
qed

end
