(* ===== verification/Once.thy ===== *)
theory Once
  imports Park_Machine Spin_Wait
begin

text \<open>
  One-time initialisation, \<open>src/src/once.rs\<close>: the state byte, the functions of \<open>Once\<close> as
  steps over the parking lot, and the guarantee that the closure of exactly one call
  completes, that every normal return comes after it, and that waiters are woken.

  A caller's closure runs for any number of steps and then returns or panics, as the
  scheduler decides. The shared state carries, beside the byte, the number of closures
  that have returned.
\<close>

section \<open>State and operations\<close>

definition DONE_BIT :: u8 where "DONE_BIT = 1"
definition POISON_BIT :: u8 where "POISON_BIT = 2"
definition once_LOCKED_BIT :: u8 where "once_LOCKED_BIT = 4"
definition once_PARKED_BIT :: u8 where "once_PARKED_BIT = 8"

lemmas once_consts = DONE_BIT_def POISON_BIT_def once_LOCKED_BIT_def once_PARKED_BIT_def

datatype OnceState = New | Poisoned | InProgress | Done

definition poisoned :: "OnceState \<Rightarrow> bool" where
  "poisoned st \<longleftrightarrow> st = Poisoned"

definition OnceState_done :: "OnceState \<Rightarrow> bool" where
  "OnceState_done st \<longleftrightarrow> st = Done"

record Once =
  once_byte :: u8
  completions :: nat

definition Once_new :: Once where
  "Once_new = \<lparr>once_byte = 0, completions = 0\<rparr>"

definition Once_new_completed :: Once where
  "Once_new_completed = \<lparr>once_byte = DONE_BIT, completions = 0\<rparr>"

definition once_state :: "u8 \<Rightarrow> OnceState" where
  "once_state s =
     (if s AND DONE_BIT \<noteq> 0 then Done
      else if s AND once_LOCKED_BIT \<noteq> 0 then InProgress
      else if s AND POISON_BIT \<noteq> 0 then Poisoned
      else New)"

text \<open>
  The points of \<open>call_once\<close> and \<open>call_once_force\<close> (\<open>force\<close> is \<open>ignore_poison\<close>). \<open>OnceRun\<close> is the closure
  with the state it is given, \<open>OnceFinish\<close> and \<open>OncePanic\<close> the points after it returned and
  panicked. A call ends at \<open>OnceReturned\<close>, at \<open>OncePoisoned\<close> (the panic of a poisoned call) or
  at \<open>OnceUnwound\<close> (the panic of its own closure).
\<close>

datatype (plugins only: code size) once_pc =
    OnceIdle
  | OnceFast bool
  | OnceEntry bool
  | OnceSlow bool SpinWait u8
  | OncePark bool
  | OnceAsleep bool
  | OnceReload bool
  | OnceRun OnceState
  | OnceFinish
  | OncePanic
  | OnceUnpark bool
  | OnceReturned
  | OncePoisoned
  | OnceUnwound

definition once_spurious :: "nat \<Rightarrow> bool" where
  "once_spurious c = odd c"

definition call_once_fast :: "bool \<Rightarrow> u8 \<Rightarrow> once_pc" where
  "call_once_fast force s = (if s = DONE_BIT then OnceReturned else OnceEntry force)"

definition call_once_slow_loop :: "bool \<Rightarrow> SpinWait \<Rightarrow> u8 \<Rightarrow> nat \<Rightarrow> u8 \<Rightarrow> u8 \<times> once_pc" where
  "call_once_slow_loop ignore_poison sw state c g =
     (if state AND DONE_BIT \<noteq> 0 then (g, OnceReturned)
      else if state AND POISON_BIT \<noteq> 0 \<and> \<not> ignore_poison then (g, OncePoisoned)
      else if state AND once_LOCKED_BIT = 0 then
        (case compare_exchange_weak (once_spurious c) state
            ((state OR once_LOCKED_BIT) AND NOT POISON_BIT) g of
           (Inr _, s) \<Rightarrow> (s, OnceRun (if state AND POISON_BIT \<noteq> 0 then Poisoned else New))
         | (Inl x, s) \<Rightarrow> (s, OnceSlow ignore_poison sw x))
      else if state AND once_PARKED_BIT = 0 \<and> fst (spin sw) then
        (g, OnceSlow ignore_poison (fst (snd (spin sw))) g)
      else if state AND once_PARKED_BIT = 0 then
        (case compare_exchange_weak (once_spurious c) state (state OR once_PARKED_BIT) g of
           (Inr _, s) \<Rightarrow> (s, OncePark ignore_poison)
         | (Inl x, s) \<Rightarrow> (s, OnceSlow ignore_poison sw x))
      else (g, OncePark ignore_poison))"

definition once_validate :: "Once \<Rightarrow> Once \<times> bool" where
  "once_validate s = (s, once_byte s = once_LOCKED_BIT OR once_PARKED_BIT)"

text \<open>The two ways to unlock: \<open>swap\<close> and, if a thread had parked, \<open>unpark_all\<close>.\<close>

definition once_swap :: "u8 \<Rightarrow> bool \<Rightarrow> u8 \<Rightarrow> u8 \<times> once_pc" where
  "once_swap new ok state =
     (new, if state AND once_PARKED_BIT \<noteq> 0 then OnceUnpark ok
           else if ok then OnceReturned else OnceUnwound)"

definition on_byte :: "(u8 \<Rightarrow> u8 \<times> 'l) \<Rightarrow> Once \<Rightarrow> Once \<times> 'l" where
  "on_byte f s = (let (b, l) = f (once_byte s) in (s\<lparr>once_byte := b\<rparr>, l))"

definition once_closure :: "OnceState \<Rightarrow> nat \<Rightarrow> Once \<Rightarrow> Once \<times> once_pc" where
  "once_closure st c s = (if c = 0 then (s\<lparr>completions := completions s + 1\<rparr>, OnceFinish)
     else if c = 1 then (s, OncePanic) else (s, OnceRun st))"

definition once_call :: "nat \<Rightarrow> once_pc" where
  "once_call c = (if c = 0 then OnceFast False else if c = 1 then OnceFast True else OnceIdle)"

fun once_client :: "usize \<Rightarrow> (Once, once_pc) client" where
  "once_client a t OnceIdle = Atomic (\<lambda>c s. (s, once_call c))"
| "once_client a t (OnceFast force) = Atomic (\<lambda>c s. (s, call_once_fast force (once_byte s)))"
| "once_client a t (OnceEntry force) = Atomic (\<lambda>c s. (s, OnceSlow force SpinWait_new (once_byte s)))"
| "once_client a t (OnceSlow force sw state) = Atomic (\<lambda>c. on_byte (call_once_slow_loop force sw state c))"
| "once_client a t (OncePark force) =
     ParkEnq a DEFAULT_PARK_TOKEN once_validate (OnceReload force) (OnceAsleep force)"
| "once_client a t (OnceAsleep force) =
     ParkSleep False (\<lambda>_ _ s. s) (\<lambda>_. OnceReload force) OnceIdle"
| "once_client a t (OnceReload force) = Atomic (\<lambda>c s. (s, OnceSlow force SpinWait_new (once_byte s)))"
| "once_client a t (OnceRun st) = Atomic (once_closure st)"
| "once_client a t OnceFinish = Atomic (\<lambda>c. on_byte (once_swap DONE_BIT True))"
| "once_client a t OncePanic = Atomic (\<lambda>c. on_byte (once_swap POISON_BIT False))"
| "once_client a t (OnceUnpark ok) =
     CallUnparkAll a DEFAULT_UNPARK_TOKEN (\<lambda>_. if ok then OnceReturned else OnceUnwound)"
| "once_client a t OnceReturned = Atomic (\<lambda>c s. (s, OnceIdle))"
| "once_client a t OncePoisoned = Atomic (\<lambda>c s. (s, OnceIdle))"
| "once_client a t OnceUnwound = Atomic (\<lambda>c s. (s, OnceIdle))"

fun once_asleep :: "once_pc \<Rightarrow> bool" where
  "once_asleep (OnceAsleep force) = True"
| "once_asleep _ = False"

definition once_start :: "(Once, once_pc) world" where
  "once_start = world_init Once_new (\<lambda>_. OnceIdle)"

lemmas once_ops = call_once_fast_def call_once_slow_loop_def once_swap_def on_byte_def once_closure_def
  once_call_def

interpretation once: park_client "once_client a" once_asleep for a
  by unfold_locales
    (auto elim!: once_client.elims simp: once_ops atomic_simps Let_def split: if_splits)

section \<open>Invariant\<close>

fun runs_pc :: "once_pc \<Rightarrow> bool" where
  "runs_pc (OnceRun st) = True"
| "runs_pc OnceFinish = True"
| "runs_pc OncePanic = True"
| "runs_pc _ = False"

fun unpark_pc :: "once_pc \<Rightarrow> bool" where
  "unpark_pc (OnceUnpark ok) = True"
| "unpark_pc _ = False"

fun returned_pc :: "once_pc \<Rightarrow> bool" where
  "returned_pc OnceReturned = True"
| "returned_pc (OnceUnpark ok) = ok"
| "returned_pc (OnceSlow force sw state) = (state AND DONE_BIT \<noteq> 0)"
| "returned_pc _ = False"

fun once_parking :: "once_pc phase \<Rightarrow> bool" where
  "once_parking (Crit (OncePark force)) = True"
| "once_parking _ = False"

definition once_inv :: "usize \<Rightarrow> (Once, once_pc) world \<Rightarrow> bool" where
  "once_inv a w \<longleftrightarrow> once_byte (shared w) \<in> {0, 1, 2, 4, 12}
     \<and> (once_byte (shared w) \<in> {4, 12} \<longleftrightarrow> (\<exists>t. runs_pc (pc w t)))
     \<and> (\<forall>t u. runs_pc (pc w t) \<longrightarrow> runs_pc (pc w u) \<longrightarrow> t = u)
     \<and> completions (shared w) = (if once_byte (shared w) = 1 \<or> (\<exists>t. pc w t = OnceFinish) then 1 else 0)
     \<and> (queues w a \<noteq> [] \<or> (\<exists>t. once_parking (loc w t)) \<longrightarrow>
          once_byte (shared w) = 12 \<or> (\<exists>t. unpark_pc (pc w t)))
     \<and> (\<forall>t. once_asleep (pc w t) \<longrightarrow> wkey w t = a)
     \<and> (\<forall>t. returned_pc (pc w t) \<longrightarrow> once_byte (shared w) = 1)"

lemma once_invD:
  assumes "once_inv a w"
  shows "once_byte (shared w) \<in> {0, 1, 2, 4, 12}"
    and "once_byte (shared w) \<in> {4, 12} \<longleftrightarrow> (\<exists>t. runs_pc (pc w t))"
    and "runs_pc (pc w t) \<Longrightarrow> runs_pc (pc w u) \<Longrightarrow> t = u"
    and "completions (shared w) = (if once_byte (shared w) = 1 \<or> (\<exists>t. pc w t = OnceFinish) then 1 else 0)"
    and "queues w a \<noteq> [] \<or> (\<exists>t. once_parking (loc w t)) \<Longrightarrow>
      once_byte (shared w) = 12 \<or> (\<exists>t. unpark_pc (pc w t))"
    and "once_asleep (pc w t) \<Longrightarrow> wkey w t = a"
    and "returned_pc (pc w t) \<Longrightarrow> once_byte (shared w) = 1"
  using assms unfolding once_inv_def by blast+

definition once_local_ok :: "Once \<Rightarrow> once_pc \<Rightarrow> Once \<Rightarrow> once_pc \<Rightarrow> bool" where
  "once_local_ok s p s' p' \<longleftrightarrow> once_byte s' \<in> {0, 1, 2, 4, 12} \<and> \<not> once_asleep p' \<and> \<not> unpark_pc p
     \<and> (runs_pc p' \<and> \<not> runs_pc p \<longrightarrow> once_byte s \<notin> {4, 12})
     \<and> (once_byte s' \<in> {4, 12} \<longleftrightarrow> runs_pc p' \<or> \<not> runs_pc p \<and> once_byte s \<in> {4, 12})
     \<and> (once_byte s = 12 \<longrightarrow> once_byte s' = 12 \<or> unpark_pc p')
     \<and> (once_byte s = 1 \<longrightarrow> once_byte s' = 1) \<and> (returned_pc p' \<longrightarrow> once_byte s' = 1)
     \<and> (p' = OnceFinish \<longrightarrow> runs_pc p \<and> p \<noteq> OnceFinish)
     \<and> (p = OnceFinish \<longrightarrow> once_byte s' = 1) \<and> (once_byte s' = 1 \<longrightarrow> once_byte s = 1 \<or> p = OnceFinish)
     \<and> completions s' = completions s + (if p' = OnceFinish then 1 else 0)"

text \<open>Accesses that only read the byte.\<close>

lemma once_stay_ok:
  assumes "once_byte s \<in> {0, 1, 2, 4, 12}" "\<not> once_asleep p'" "\<not> runs_pc p'" "\<not> runs_pc p" "\<not> unpark_pc p"
    "returned_pc p' \<longrightarrow> once_byte s = 1"
  shows "once_local_ok s p s p'"
  using assms by (cases p') (simp_all add: once_local_ok_def, auto)

lemma once_slow_loop_ok:
  assumes s: "once_byte s \<in> {0, 1, 2, 4, 12}" and ret: "state AND DONE_BIT \<noteq> 0 \<longrightarrow> once_byte s = 1"
  shows "once_local_ok s (OnceSlow force sw state) (fst (on_byte (call_once_slow_loop force sw state c) s))
    (snd (on_byte (call_once_slow_loop force sw state c) s))"
proof (cases "state = once_byte s \<and> \<not> once_spurious c")
  case True
  have id: "s\<lparr>once_byte := once_byte s\<rparr> = s" by simp
  from s consider "once_byte s = 0" | "once_byte s = 1" | "once_byte s = 2" | "once_byte s = 4" | "once_byte s = 12"
    by blast
  then show ?thesis using True
    by cases (simp_all add: call_once_slow_loop_def on_byte_def once_local_ok_def atomic_simps once_consts)
next
  case False
  then have *: "compare_exchange_weak (once_spurious c) state v (once_byte s) = (Inl (once_byte s), once_byte s)" for v
    by (auto simp: atomic_simps)
  define r where "r = call_once_slow_loop force sw state c (once_byte s)"
  have r: "fst r = once_byte s" "\<not> once_asleep (snd r)" "\<not> runs_pc (snd r)" "returned_pc (snd r) \<longrightarrow> once_byte s = 1"
    using s ret by (auto simp: r_def call_once_slow_loop_def * once_consts split: if_splits)
  have "on_byte (call_once_slow_loop force sw state c) s = (s, snd r)"
    using r(1) by (simp add: on_byte_def r_def split_beta)
  then show ?thesis using once_stay_ok [OF s r(2,3)] r(4) by simp
qed

lemma once_local_ok:
  assumes s: "once_byte s \<in> {0, 1, 2, 4, 12}"
    and p: "once_client a t p = Atomic f" and run: "runs_pc p \<longrightarrow> once_byte s \<in> {4, 12}"
    and ret: "returned_pc p \<longrightarrow> once_byte s = 1"
  shows "once_local_ok s p (fst (f c s)) (snd (f c s))"
proof (cases p)
  case (OnceSlow force sw state)
  with p have "f = (\<lambda>c. on_byte (call_once_slow_loop force sw state c))" by simp
  then show ?thesis using once_slow_loop_ok [OF s, of state force sw c] ret OnceSlow by simp
next
  case OnceFinish
  with run have "once_byte s = 4 \<or> once_byte s = 12" by simp
  moreover have f: "f = (\<lambda>c. on_byte (once_swap DONE_BIT True))" using OnceFinish p by simp
  ultimately show ?thesis unfolding OnceFinish f
    by (elim disjE) (simp_all add: once_swap_def on_byte_def once_local_ok_def once_consts)
next
  case OncePanic
  with run have "once_byte s = 4 \<or> once_byte s = 12" by simp
  moreover have f: "f = (\<lambda>c. on_byte (once_swap POISON_BIT False))" using OncePanic p by simp
  ultimately show ?thesis unfolding OncePanic f
    by (elim disjE) (simp_all add: once_swap_def on_byte_def once_local_ok_def once_consts)
next
  case (OnceRun st)
  with run have b: "once_byte s = 4 \<or> once_byte s = 12" by simp
  have f: "f = once_closure st" using OnceRun p by simp
  from b show ?thesis
    unfolding f OnceRun
    by (elim disjE; cases "c = 0"; cases "c = 1") (simp_all add: once_closure_def once_local_ok_def)
next
  case OnceIdle
  with p have f: "f = (\<lambda>c s. (s, once_call c))" by simp
  show ?thesis unfolding f OnceIdle fst_conv snd_conv
    by (rule once_stay_ok [OF s]) (simp_all add: once_call_def)
next
  case (OnceFast force)
  with p have f: "f = (\<lambda>c s. (s, call_once_fast force (once_byte s)))" by simp
  show ?thesis unfolding f OnceFast fst_conv snd_conv
    by (rule once_stay_ok [OF s]) (simp_all add: call_once_fast_def once_consts)
next
  case (OnceEntry force)
  with p have f: "f = (\<lambda>c s. (s, OnceSlow force SpinWait_new (once_byte s)))" by simp
  show ?thesis unfolding f OnceEntry fst_conv snd_conv
    by (rule once_stay_ok [OF s]) (use s in \<open>auto simp: once_consts\<close>)
next
  case (OnceReload force)
  with p have f: "f = (\<lambda>c s. (s, OnceSlow force SpinWait_new (once_byte s)))" by simp
  show ?thesis unfolding f OnceReload fst_conv snd_conv
    by (rule once_stay_ok [OF s]) (use s in \<open>auto simp: once_consts\<close>)
qed (use p once_stay_ok [OF s, of OnceIdle] in auto)

section \<open>The invariant is kept\<close>

lemma once_inv_local:
  assumes inv: "once_inv a w" and l: "loc w t = Run p" and np: "\<not> once_asleep p"
    and ok: "once_local_ok (shared w) p s' p'"
    and w': "shared w' = s'" "loc w' = (loc w)(t := Run p')" "queues w' = queues w" "wkey w' = wkey w"
  shows "once_inv a w'"
proof -
  note I = once_invD [OF inv] and L = ok [unfolded once_local_ok_def]
  have pc': "pc w' u = (if u = t then p' else pc w u)" for u by (simp add: w')
  have pct: "pc w t = p" using l by simp
  have park: "once_parking (loc w' u) \<Longrightarrow> once_parking (loc w u)" for u by (auto simp: w' split: if_splits)
  have other: "\<not> runs_pc (pc w u)" if "u \<noteq> t" "runs_pc p" for u using I(3) [of u t] that pct by auto
  have run: "runs_pc p \<longrightarrow> once_byte (shared w) \<in> {4, 12}" using I(2) pct by blast
  define E where "E \<longleftrightarrow> (\<exists>u. u \<noteq> t \<and> runs_pc (pc w u))"
  have ex: "(\<exists>u. runs_pc (pc w' u)) \<longleftrightarrow> runs_pc p' \<or> E" by (auto simp: pc' E_def)
  have ex0: "(\<exists>u. runs_pc (pc w u)) \<longleftrightarrow> runs_pc p \<or> E" using pct by (auto simp: E_def)
  have noE: "runs_pc p \<Longrightarrow> \<not> E" using other by (auto simp: E_def)
  have Lr: "runs_pc p' \<and> \<not> runs_pc p \<longrightarrow> once_byte (shared w) \<notin> {4, 12}"
      "once_byte s' \<in> {4, 12} \<longleftrightarrow> runs_pc p' \<or> \<not> runs_pc p \<and> once_byte (shared w) \<in> {4, 12}"
    using L by blast+
  have Lc: "completions s' = completions (shared w) + (if p' = OnceFinish then 1 else 0)"
      "p' = OnceFinish \<longrightarrow> runs_pc p \<and> p \<noteq> OnceFinish" "p = OnceFinish \<longrightarrow> once_byte s' = 1"
      "once_byte s' = 1 \<longrightarrow> once_byte (shared w) = 1 \<or> p = OnceFinish"
      "once_byte (shared w) = 1 \<longrightarrow> once_byte s' = 1"
    using L by blast+
  have fin: "(\<exists>u. pc w u = OnceFinish) \<longleftrightarrow> (if runs_pc p then p = OnceFinish else \<exists>u. u \<noteq> t \<and> pc w u = OnceFinish)"
  proof (cases "runs_pc p")
    case True
    then show ?thesis using other pct by (metis runs_pc.simps(2))
  next
    case False
    then have "p \<noteq> OnceFinish" by auto
    then show ?thesis using pct False by metis
  qed
  have fin': "(\<exists>u. pc w' u = OnceFinish) \<longleftrightarrow> p' = OnceFinish \<or> (\<not> runs_pc p \<and> (\<exists>u. u \<noteq> t \<and> pc w u = OnceFinish))"
    unfolding pc' using other by (metis runs_pc.simps(2))
  show ?thesis
    unfolding once_inv_def w'(1,3,4)
  proof (intro conjI allI impI)
    show "once_byte s' \<in> {0, 1, 2, 4, 12}" using L by blast
    show "once_byte s' \<in> {4, 12} = (\<exists>u. runs_pc (pc w' u))"
      using Lr I(2) noE unfolding ex ex0 by blast
    show "u = v" if "runs_pc (pc w' u)" "runs_pc (pc w' v)" for u v
    proof -
      have "u = v" if "u \<noteq> t" "v \<noteq> t" using \<open>runs_pc (pc w' u)\<close> \<open>runs_pc (pc w' v)\<close> that I(3) by (simp add: pc')
      moreover have "\<not> E" if "runs_pc p'" using that Lr I(2) noE unfolding ex0 by blast
      ultimately show ?thesis using that unfolding E_def pc' by (metis (full_types))
    qed
    show "completions s' = (if once_byte s' = 1 \<or> (\<exists>u. pc w' u = OnceFinish) then 1 else 0)"
    proof (cases "runs_pc p")
      case True
      then have b: "once_byte (shared w) \<noteq> 1" using run by auto
      show ?thesis using Lc True b I(4) unfolding fin' fin by (cases "p = OnceFinish") simp_all
    next
      case False
      then have "p \<noteq> OnceFinish" "p' \<noteq> OnceFinish" "once_byte s' = 1 \<longleftrightarrow> once_byte (shared w) = 1"
        using Lc by auto
      then show ?thesis using Lc(1) I(4) False unfolding fin' fin by simp
    qed
    show "once_byte s' = 12 \<or> (\<exists>u. unpark_pc (pc w' u))"
      if "queues w a \<noteq> [] \<or> (\<exists>u. once_parking (loc w' u))"
    proof -
      have "once_byte (shared w) = 12 \<or> (\<exists>u. unpark_pc (pc w u))" using that park I(5) by blast
      then show ?thesis using L pct unfolding pc' by metis
    qed
    show "wkey w u = a" if "once_asleep (pc w' u)" for u
      using that L I(6) [of u] by (auto simp: pc' split: if_splits)
    show "once_byte s' = 1" if "returned_pc (pc w' u)" for u
      using that L I(7) [of u] by (auto simp: pc' split: if_splits)
  qed
qed

text \<open>Steps that change neither the state nor what the threads are doing.\<close>

lemma once_inv_same:
  assumes inv: "once_inv a w"
    and w': "shared w' = shared w" "queues w' a \<noteq> [] \<Longrightarrow> queues w a \<noteq> [] \<or> (\<exists>t. once_parking (loc w t))"
    and pc: "\<And>u. runs_pc (pc w' u) = runs_pc (pc w u)" "\<And>u. unpark_pc (pc w' u) = unpark_pc (pc w u)"
      "\<And>u. returned_pc (pc w' u) \<Longrightarrow> returned_pc (pc w u)" "\<And>u. pc w' u = OnceFinish \<longleftrightarrow> pc w u = OnceFinish"
    and park: "\<And>u. once_parking (loc w' u) \<Longrightarrow> once_parking (loc w u) \<or> once_byte (shared w) = 12"
    and aslp: "\<And>u. once_asleep (pc w' u) \<Longrightarrow> wkey w' u = a"
  shows "once_inv a w'"
  unfolding once_inv_def w'(1) pc(1,2,4)
proof (intro conjI allI impI)
  note I = once_invD [OF inv]
  show "once_byte (shared w) = 12 \<or> (\<exists>t. unpark_pc (pc w t))"
    if "queues w' a \<noteq> [] \<or> (\<exists>t. once_parking (loc w' t))"
    using that w'(2) park I(5) by blast
  show "once_byte (shared w) \<in> {0, 1, 2, 4, 12}" using I(1) .
  show "(once_byte (shared w) \<in> {4, 12}) = (\<exists>t. runs_pc (pc w t))" using I(2) .
  show "t = u" if "runs_pc (pc w t)" "runs_pc (pc w u)" for t u using I(3) [OF that] .
  show "completions (shared w) = (if once_byte (shared w) = 1 \<or> (\<exists>t. pc w t = OnceFinish) then 1 else 0)"
    using I(4) .
  show "wkey w' t = a" if "once_asleep (pc w' t)" for t using aslp [OF that] .
  show "once_byte (shared w) = 1" if "returned_pc (pc w' t)" for t using I(7) [OF pc(3) [OF that]] .
qed

lemma once_run_step_inv:
  assumes inv: "once_inv a w" and l: "loc w t = Run p" and r: "run_step (once_client a) t c p w = Some w'"
  shows "once_inv a w'"
proof (cases "once_client a t p")
  case (Atomic f)
  have np: "\<not> once_asleep p" using Atomic by (cases p) auto
  have pct: "pc w t = p" using l by simp
  have "runs_pc p \<longrightarrow> once_byte (shared w) \<in> {4, 12}" "returned_pc p \<longrightarrow> once_byte (shared w) = 1"
    using once_invD(2) [OF inv] once_invD(7) [OF inv, of t] pct by blast+
  note ok = once_local_ok [OF once_invD(1) [OF inv] Atomic this, of c]
  show ?thesis
    by (rule once_inv_local [OF inv l np ok])
      (use r in \<open>auto simp: run_step_def Atomic lot_simps split: prod.splits\<close>)
next
  case (ParkEnq k token v li ls)
  then obtain force where p: "p = OncePark force" by (cases p) auto
  show ?thesis
  proof (cases "once_byte (shared w) = once_LOCKED_BIT OR once_PARKED_BIT")
    case True
    have 12: "once_byte (shared w) = 12" using True by (simp add: once_consts)
    have w': "shared w' = shared w" "queues w' = queues w" "wkey w' = wkey w" "loc w' = (loc w)(t := Crit p)"
      using r True by (auto simp: run_step_def p lot_simps once_validate_def split: if_splits)
    show ?thesis
      by (rule once_inv_same [OF inv]) (use l p 12 once_invD(6) [OF inv] in \<open>auto simp: w' split: if_splits\<close>)
  next
    case False
    have w': "shared w' = shared w" "queues w' = queues w" "wkey w' = wkey w"
        "loc w' = (loc w)(t := Run (OnceReload force))"
      using r False by (auto simp: run_step_def p lot_simps once_validate_def split: if_splits)
    show ?thesis
      by (rule once_inv_same [OF inv]) (use l p once_invD(6) [OF inv] in \<open>auto simp: w' split: if_splits\<close>)
  qed
next
  case (ParkSleep timed cb lu le)
  then obtain force where p: "p = OnceAsleep force" by (cases p) auto
  have w': "shared w' = shared w" "queues w' = queues w" "wkey w' = wkey w"
      "loc w' = (loc w)(t := Run (OnceReload force))"
    using r by (auto simp: run_step_def p lot_simps split: if_splits)
  show ?thesis
    by (rule once_inv_same [OF inv]) (use l p once_invD(6) [OF inv] in \<open>auto simp: w' split: if_splits\<close>)
next
  case (CallUnparkAll k token cont)
  then obtain ok where p: "p = OnceUnpark ok" by (cases p) auto
  have w': "shared w' = shared w" "queues w' = queues w" "wkey w' = wkey w" "loc w' = (loc w)(t := Crit p)"
    using r by (auto simp: run_step_def p lot_simps split: if_splits)
  show ?thesis
    by (rule once_inv_same [OF inv]) (use l p once_invD(6) [OF inv] in \<open>auto simp: w' split: if_splits\<close>)
qed (cases p; simp)+

lemma once_excludes_parking:
  assumes inv: "once.lot_inv a w" and t: "a \<in> held_keys (once_client a) w t" and u: "once_parking (loc w u)"
  shows "u = t"
proof -
  obtain force where "loc w u = Crit (OncePark force)" using u by (cases "loc w u" rule: once_parking.cases) auto
  then have "a \<in> held_keys (once_client a) w u" by (simp add: held_keys_def)
  then have "holder w a = Some u" "holder w a = Some t"
    using inv t by (auto simp: once.lot_inv_def lock_inv_def)
  then show ?thesis by simp
qed

lemma once_crit_step_inv:
  assumes inv: "once_inv a w" and li: "once.lot_inv a w" and l: "loc w t = Crit p"
    and r: "crit_step (once_client a) t c p w = Some w'"
  shows "once_inv a w'"
proof (cases "once_client a t p")
  case (ParkEnq k token v li ls)
  then obtain force where p: "p = OncePark force" by (cases p) auto
  have w': "shared w' = shared w" "wkey w' = (wkey w)(t := a)" "loc w' = (loc w)(t := Run (OnceAsleep force))"
    using r by (auto simp: crit_step_def p lot_simps)
  show ?thesis
    by (rule once_inv_same [OF inv])
      (use l p once_invD(6) [OF inv] in \<open>auto simp: w' intro!: exI [of _ t] split: if_splits\<close>)
next
  case (ParkSleep timed cb lu le)
  then obtain force where p: "p = OnceAsleep force" by (cases p) auto
  have w': "shared w' = shared w" "wkey w' = wkey w"
      "loc w' = (loc w)(t := Run (OnceReload force)) \<or> loc w' = (loc w)(t := Run OnceIdle)"
      "queues w' a \<noteq> [] \<Longrightarrow> queues w a \<noteq> []"
    using r by (auto simp: crit_step_def p lot_simps Let_def split: if_splits)
  from w'(3) show ?thesis
    by (elim disjE; intro once_inv_same [OF inv])
      (use l p w'(1,2,4) once_invD(6) [OF inv] in \<open>auto split: if_splits\<close>)
next
  case (CallUnparkAll k token cont)
  then obtain ok where p: "p = OnceUnpark ok" by (cases p) auto
  define p' where "p' = (if ok then OnceReturned else OnceUnwound)"
  have w': "shared w' = shared w" "wkey w' = wkey w" "loc w' = (loc w)(t := Run p')" "queues w' a = []"
    using r by (auto simp: crit_step_def p lot_simps Let_def p'_def)
  have pc': "pc w' u = (if u = t then p' else pc w u)" for u by (simp add: w')
  have pct: "pc w t = OnceUnpark ok" using l p by simp
  have p': "\<not> runs_pc p'" "p' \<noteq> OnceFinish" "\<not> once_asleep p'" "returned_pc p' = ok" by (simp_all add: p'_def)
  have "a \<in> held_keys (once_client a) w t" using l p by (simp add: held_keys_def)
  then have park: "\<not> once_parking (loc w' u)" for u
    using once_excludes_parking [OF li, of t u] l p by (auto simp: w'(3))
  have runs: "runs_pc (pc w' u) = runs_pc (pc w u)" "pc w' u = OnceFinish \<longleftrightarrow> pc w u = OnceFinish" for u
    using pct p' by (auto simp: pc')
  note I = once_invD [OF inv]
  have aslp: "once_asleep (pc w' u) \<Longrightarrow> wkey w u = a" for u
    using I(6) p' by (simp add: pc' split: if_splits)
  have ret: "returned_pc (pc w' u) \<Longrightarrow> once_byte (shared w) = 1" for u
    using I(7) [of u] I(7) [of t] pct p' by (simp add: pc' split: if_splits)
  show ?thesis
    unfolding once_inv_def w'(1,2,4) runs
    using I(1-4) park aslp ret by (intro conjI; blast)
qed (cases p; simp; use r in \<open>simp add: crit_step_def\<close>)+

lemma once_step_inv:
  assumes inv: "once_inv a w" and li: "once.lot_inv a w" and s: "step (once_client a) (t, c) w = Some w'"
  shows "once_inv a w'"
proof (cases "loc w t")
  case (Run p)
  then show ?thesis using once_run_step_inv [OF inv Run] s by (simp add: step_def)
next
  case (Crit p)
  then show ?thesis using once_crit_step_inv [OF inv li Crit] s by (simp add: step_def)
next
  case (CritOp p op)
  then show ?thesis using s by (cases p) (simp_all add: step_def requeue_step_def)
qed

lemma once_step_stays_done:
  assumes inv: "once_inv a w" and d: "once_byte (shared w) = 1" and s: "step (once_client a) (t, c) w = Some w'"
  shows "once_byte (shared w') = 1"
proof (cases "\<exists>p f. loc w t = Run p \<and> once_client a t p = Atomic f")
  case True
  then obtain p f where l: "loc w t = Run p" and f: "once_client a t p = Atomic f" by blast
  have pct: "pc w t = p" using l by simp
  have "runs_pc p \<longrightarrow> once_byte (shared w) \<in> {4, 12}" "returned_pc p \<longrightarrow> once_byte (shared w) = 1"
    using once_invD(2) [OF inv] d pct by blast+
  from once_local_ok [OF once_invD(1) [OF inv] f this, of c] d
  have "once_byte (fst (f c (shared w))) = 1" by (simp add: once_local_ok_def)
  then show ?thesis using s by (auto simp: step_def l run_step_def f lot_simps split: prod.splits)
next
  case False
  then show ?thesis
    using s d by (cases "loc w t"; cases "at_phase (loc w t)")
      (auto simp: step_def run_step_def crit_step_def requeue_step_def lot_simps Let_def
        once_validate_def split: if_splits)
qed

lemma once_reach_inv:
  assumes "reach (once_client a) once_start w"
  shows "once_inv a w \<and> once.lot_inv a w"
  using assms
proof (induction rule: reach.induct)
  case reach_init
  have "once.lot_inv a once_start" unfolding once_start_def by (rule once.init_lot_inv) simp
  then show ?case by (simp add: once_inv_def once_start_def world_init_def Once_new_def)
next
  case (reach_step w tc w')
  then show ?case
    using once_step_inv [of a w "fst tc" "snd tc" w'] once.lot_inv_step [of a w "fst tc" "snd tc" w']
    by simp
qed

lemma once_state_bytes:
  "once_state 0 = New" "once_state 1 = Done" "once_state 2 = Poisoned" "once_state 4 = InProgress"
  "once_state 12 = InProgress"
  by (simp_all add: once_state_def once_consts)

section \<open>Theorems\<close>

text \<open>
  A schedule in which thread 2 runs its closure to the end and returns while thread 3 has
  gone to sleep waiting for it and is woken.
\<close>

definition once_schedule :: "(tid \<times> nat) list" where
  "once_schedule = [(2, 0), (2, 0), (2, 0), (2, 0)] @ replicate 16 (3, 0) @ replicate 4 (2, 0)"

definition once_done_world :: "(Once, once_pc) world" where
  "once_done_world = the (run (once_client 8) once_schedule once_start)"

lemma once_done_facts:
  "loc once_done_world 2 = Run OnceReturned" "loc once_done_world 3 = Run (OnceAsleep False)"
  "reach (once_client 8) once_start once_done_world"
proof -
  have *: "map_option (\<lambda>w. (loc w 2, loc w 3)) (run (once_client 8) once_schedule once_start) =
      Some (Run OnceReturned, Run (OnceAsleep False))"
    by code_simp
  then obtain w where w: "run (once_client 8) once_schedule once_start = Some w" by auto
  then have c: "once_done_world = w" by (simp add: once_done_world_def)
  show "loc once_done_world 2 = Run OnceReturned" "loc once_done_world 3 = Run (OnceAsleep False)"
    using * [unfolded w] by (simp_all add: c)
  show "reach (once_client 8) once_start once_done_world"
    unfolding c by (rule run_reach [OF w reach_init])
qed

text \<open>
  Claim C24. Exactly once: in every interleaving of \<open>call_once\<close> and \<open>call_once_force\<close> calls, with
  closures that may panic, at most one closure runs at a time, at most one closure ever
  completes, and the state is \<open>Done\<close> only after it has.
\<close>

theorem once_completes_at_most_once:
  assumes "reach (once_client a) once_start w"
  shows "completions (shared w) \<le> 1 \<and> (once_state (once_byte (shared w)) = Done \<longrightarrow> completions (shared w) = 1)
    \<and> (\<forall>t u. runs_pc (pc w t) \<longrightarrow> runs_pc (pc w u) \<longrightarrow> t = u)
    \<and> ((\<exists>t. runs_pc (pc w t)) \<longleftrightarrow> once_state (once_byte (shared w)) = InProgress)"
proof -
  note I = once_invD [OF conjunct1 [OF once_reach_inv [OF assms]]]
  from I(1) have "once_state (once_byte (shared w)) = Done \<longleftrightarrow> once_byte (shared w) = 1"
    "once_state (once_byte (shared w)) = InProgress \<longleftrightarrow> once_byte (shared w) \<in> {4, 12}"
    by (auto simp: once_state_bytes)
  then show ?thesis using I(2-4) by auto
qed

theorem once_completes_at_most_once_witness:
  "completions (shared once_done_world) \<le> 1"
  using once_completes_at_most_once [OF once_done_facts(3)] by simp

text \<open>
  Claim C25. A call that returns normally returns after a closure has completed: the state
  is \<open>Done\<close>, exactly one closure has completed, and no closure is running.
\<close>

theorem once_return_means_done:
  assumes "reach (once_client a) once_start w" and "pc w t = OnceReturned"
  shows "once_state (once_byte (shared w)) = Done \<and> completions (shared w) = 1
    \<and> (\<forall>u. \<not> runs_pc (pc w u))"
proof -
  note I = once_invD [OF conjunct1 [OF once_reach_inv [OF assms(1)]]]
  have "once_byte (shared w) = 1" using I(7) [of t] assms(2) by simp
  then show ?thesis using I(2,4) by (auto simp: once_state_bytes)
qed

theorem once_return_means_done_witness:
  "pc once_done_world 2 = OnceReturned \<and> completions (shared once_done_world) = 1"
  using once_return_means_done [OF once_done_facts(3), of 2] by (simp add: once_done_facts(1))

text \<open>
  Claim C26. No waiter is left behind: while a thread is queued on the \<open>Once\<close>, a closure is running
  with the parked bit set, or a thread has unlocked it and is about to unpark all. The
  byte is written outside the bucket lock here, unlike in the mutex.
\<close>

theorem once_waiters_covered:
  assumes "reach (once_client a) once_start w" and "queues w a \<noteq> []"
  shows "(\<exists>t. runs_pc (pc w t)) \<and> once_byte (shared w) AND once_PARKED_BIT \<noteq> 0 \<or> (\<exists>t ok. pc w t = OnceUnpark ok)"
proof -
  note I = once_invD [OF conjunct1 [OF once_reach_inv [OF assms(1)]]]
  have unp: "unpark_pc p \<Longrightarrow> \<exists>ok. p = OnceUnpark ok" for p by (cases p) auto
  from I(5) assms(2) consider "once_byte (shared w) = 12" | "\<exists>t. unpark_pc (pc w t)" by blast
  then show ?thesis
  proof cases
    case 1
    then show ?thesis using I(2) by (auto simp: once_consts)
  next
    case 2
    then show ?thesis using unp by blast
  qed
qed

theorem once_waiters_covered_witness:
  "\<exists>w. run (once_client 8) ([(2, 0), (2, 0), (2, 0), (2, 0)] @ replicate 16 (3, 0)) once_start = Some w
     \<and> queues w 8 = [3] \<and> ((\<exists>t. runs_pc (pc w t)) \<or> (\<exists>t ok. pc w t = OnceUnpark ok))"
proof -
  let ?sch = "[(2, 0), (2, 0), (2, 0), (2, 0)] @ replicate 16 (3, 0)"
  have *: "map_option (\<lambda>w. queues w 8) (run (once_client 8) ?sch once_start) = Some [3]"
    by code_simp
  then obtain w where w: "run (once_client 8) ?sch once_start = Some w" by auto
  have q: "queues w 8 = [3]" using * [unfolded w] by simp
  from once_waiters_covered [OF run_reach [OF w reach_init]] w q show ?thesis by auto
qed

text \<open>
  Completion is final: once the state is \<open>Done\<close> no step changes it, and no closure starts.
\<close>

theorem once_done_is_final:
  assumes "reach (once_client a) once_start w" and "once_state (once_byte (shared w)) = Done"
    and "reach (once_client a) w w'"
  shows "once_state (once_byte (shared w')) = Done \<and> completions (shared w') = 1 \<and> (\<forall>t. \<not> runs_pc (pc w' t))"
proof -
  have one: "once_byte (shared v) = 1 \<longleftrightarrow> once_state (once_byte (shared v)) = Done" if "once_inv a v" for v
    using once_invD(1) [OF that] by (auto simp: once_state_bytes)
  from assms(3) have "once_inv a w' \<and> once.lot_inv a w' \<and> once_byte (shared w') = 1"
  proof (induction rule: reach.induct)
    case reach_init
    show ?case using once_reach_inv [OF assms(1)] one assms(2) by blast
  next
    case (reach_step v tc v')
    obtain t c where tc: "tc = (t, c)" by fastforce
    have inv': "once_inv a v'" "once.lot_inv a v'"
      using once_step_inv [of a v t c v'] once.lot_inv_step [of a v t c v'] reach_step tc by auto
    have "once_byte (shared v') = 1"
      using once_step_stays_done [of a v t c v'] reach_step tc by auto
    then show ?case using inv' by blast
  qed
  then show ?thesis using once_invD(2,4) [of a w'] by (auto simp: once_state_bytes)
qed

theorem once_done_is_final_witness:
  "\<exists>w'. step (once_client 8) (3, 0) once_done_world = Some w' \<and> completions (shared w') = 1"
proof -
  have d: "once_state (once_byte (shared once_done_world)) = Done"
    using once_invD(7) [OF conjunct1 [OF once_reach_inv [OF once_done_facts(3)]], of 2] once_done_facts(1)
    by (simp add: once_state_bytes)
  have "\<exists>x. map_option (\<lambda>_. ()) (Option.bind (run (once_client 8) once_schedule once_start)
      (step (once_client 8) (3, 0))) = Some x"
    by code_simp
  then obtain w' where w': "step (once_client 8) (3, 0) once_done_world = Some w'"
    by (auto simp: once_done_world_def bind_eq_Some_conv)
  from once_done_is_final [OF once_done_facts(3) d reach_step [OF reach_init w']] w' show ?thesis by blast
qed

text \<open>
  A \<open>Once\<close> made by \<open>new_completed\<close> never runs a closure: its state stays \<open>Done\<close>, no
  closure completes, and every call is before its first check or has returned.
\<close>

theorem once_new_completed_never_runs:
  assumes "reach (once_client a) (world_init Once_new_completed (\<lambda>_. OnceIdle)) w"
  shows "shared w = Once_new_completed \<and> once_state (once_byte (shared w)) = Done
    \<and> (\<exists>l. loc w t = Run l \<and> l \<in> {OnceIdle, OnceFast False, OnceFast True, OnceReturned})"
proof -
  let ?ok = "\<lambda>p. \<exists>l. p = Run l \<and> l \<in> {OnceIdle, OnceFast False, OnceFast True, OnceReturned}"
  have "shared w = Once_new_completed \<and> (\<forall>t. ?ok (loc w t))"
    using assms
  proof (induction rule: reach.induct)
    case reach_init
    show ?case by (simp add: world_init_def)
  next
    case (reach_step v tc v')
    obtain u c where tc: "tc = (u, c)" by fastforce
    from reach_step.IH have sh: "shared v = Once_new_completed" and "?ok (loc v u)" by blast+
    then obtain l where l: "loc v u = Run l" "l \<in> {OnceIdle, OnceFast False, OnceFast True, OnceReturned}" by blast
    have "shared v' = Once_new_completed \<and> ?ok (loc v' u)"
      using reach_step.hyps(2) l sh unfolding tc
      by (auto simp: step_def run_step_def lot_simps once_call_def call_once_fast_def Once_new_completed_def)
    moreover have "loc v' s = loc v s" if "s \<noteq> u" for s
      by (rule step_other [OF reach_step.hyps(2) [unfolded tc] that])
    ultimately show ?case using reach_step.IH by metis
  qed
  then show ?thesis by (simp add: Once_new_completed_def once_state_def DONE_BIT_def)
qed

theorem once_new_completed_never_runs_witness:
  "once_state (once_byte (shared (world_init Once_new_completed (\<lambda>_::tid. OnceIdle)))) = Done"
  using once_new_completed_never_runs [OF reach_init] by blast

end
