(* ===== verification/Elision.thy ===== *)
theory Elision
  imports Lot_Prelude
begin

text \<open>
  Hardware lock elision, \<open>src/src/elision.rs\<close>. The two instructions of its inline assembly
  are written out; the prefixes \<open>xacquire\<close> and \<open>xrelease\<close> are hints that start and end a
  transaction and leave what the instructions do to memory and registers as it is.
\<close>

section \<open>Configuration\<close>

datatype target_arch = X86 | X86_64 | OtherArch

record build_cfg =
  hardware_lock_elision :: bool
  miri :: bool
  arch :: target_arch

definition have_elision :: "build_cfg \<Rightarrow> bool" where
  "have_elision cfg \<longleftrightarrow> hardware_lock_elision cfg \<and> \<not> miri cfg \<and> (arch cfg = X86 \<or> arch cfg = X86_64)"

section \<open>The instructions\<close>

text \<open>
  \<open>lock cmpxchg [mem], src\<close> with the accumulator \<open>acc\<close>: the accumulator and the memory
  afterwards. \<open>lock xadd [mem], src\<close>: the register and the memory afterwards.
\<close>

definition lock_cmpxchg :: "'a::len word \<Rightarrow> 'a word \<Rightarrow> 'a word \<Rightarrow> 'a word \<times> 'a word" where
  "lock_cmpxchg acc src mem = (if mem = acc then (acc, src) else (mem, mem))"

definition lock_xadd :: "'a::len word \<Rightarrow> 'a word \<Rightarrow> 'a word \<times> 'a word" where
  "lock_xadd src mem = (mem, mem + src)"

definition elision_compare_exchange_acquire ::
    "'a::len word \<Rightarrow> 'a word \<Rightarrow> 'a word \<Rightarrow> ('a word + 'a word) \<times> 'a word" where
  "elision_compare_exchange_acquire current new v =
     (let (prev, v') = lock_cmpxchg current new v
      in (if prev = current then Inr prev else Inl prev, v'))"

definition elision_fetch_sub_release :: "'a::len word \<Rightarrow> 'a word \<Rightarrow> 'a word \<times> 'a word" where
  "elision_fetch_sub_release val v = lock_xadd (- val) v"

text \<open>The implementation for other builds: both functions panic, here \<open>None\<close>.\<close>

definition stub_compare_exchange_acquire ::
    "'a::len word \<Rightarrow> 'a word \<Rightarrow> 'a word \<Rightarrow> (('a word + 'a word) \<times> 'a word) option" where
  "stub_compare_exchange_acquire _ _ v = None"

definition stub_fetch_sub_release :: "'a::len word \<Rightarrow> 'a word \<Rightarrow> ('a word \<times> 'a word) option" where
  "stub_fetch_sub_release _ v = None"

text \<open>The trait's functions as a build provides them.\<close>

definition AtomicElision_compare_exchange ::
    "build_cfg \<Rightarrow> 'a::len word \<Rightarrow> 'a word \<Rightarrow> 'a word \<Rightarrow> (('a word + 'a word) \<times> 'a word) option" where
  "AtomicElision_compare_exchange cfg current new v =
     (if have_elision cfg then Some (elision_compare_exchange_acquire current new v)
      else stub_compare_exchange_acquire current new v)"

definition AtomicElision_fetch_sub :: "build_cfg \<Rightarrow> 'a::len word \<Rightarrow> 'a word \<Rightarrow> ('a word \<times> 'a word) option" where
  "AtomicElision_fetch_sub cfg val v =
     (if have_elision cfg then Some (elision_fetch_sub_release val v) else stub_fetch_sub_release val v)"

section \<open>They are the plain operations\<close>

lemma elision_compare_exchange [simp, atomic_simps]: "elision_compare_exchange_acquire = compare_exchange"
  by (auto simp: fun_eq_iff elision_compare_exchange_acquire_def lock_cmpxchg_def compare_exchange_def)

lemma elision_fetch_sub [simp, atomic_simps]: "elision_fetch_sub_release = fetch_sub"
  by (auto simp: fun_eq_iff elision_fetch_sub_release_def lock_xadd_def fetch_sub_def)

lemma elision_calls_guarded:
  "AtomicElision_compare_exchange cfg current new v \<noteq> None \<longleftrightarrow> have_elision cfg"
  "AtomicElision_fetch_sub cfg val v \<noteq> None \<longleftrightarrow> have_elision cfg"
  by (auto simp: AtomicElision_compare_exchange_def AtomicElision_fetch_sub_def
      stub_compare_exchange_acquire_def stub_fetch_sub_release_def)

end
