(* ===== verification/Raw_RwLock.thy ===== *)
theory Raw_RwLock
  imports Raw_Mutex Elision
begin

text \<open>
  The reader-writer lock of \<open>src/src/raw_rwlock.rs\<close>: the state word, every access of its
  functions as a step over the parking lot, and the program of a thread that calls the
  functions in any order allowed by the lock it holds. There are two queues, at the key
  \<open>a\<close> for threads that wait for the lock and at \<open>a + 1\<close> for the writer that waits for
  the readers to leave. The flag \<open>elide\<close> is the value of \<open>have_elision()\<close>; the elided
  operations are those of \<open>Elision\<close>.
\<close>

section \<open>Constants\<close>

definition rw_PARKED_BIT :: usize where "rw_PARKED_BIT = 1"
definition WRITER_PARKED_BIT :: usize where "WRITER_PARKED_BIT = 2"
definition UPGRADABLE_BIT :: usize where "UPGRADABLE_BIT = 4"
definition WRITER_BIT :: usize where "WRITER_BIT = 8"
definition READERS_MASK :: usize where "READERS_MASK = NOT 15"
definition ONE_READER :: usize where "ONE_READER = 16"
definition TOKEN_SHARED :: usize where "TOKEN_SHARED = ONE_READER"
definition TOKEN_EXCLUSIVE :: usize where "TOKEN_EXCLUSIVE = WRITER_BIT"
definition TOKEN_UPGRADABLE :: usize where "TOKEN_UPGRADABLE = ONE_READER OR UPGRADABLE_BIT"

lemmas rw_consts = rw_PARKED_BIT_def WRITER_PARKED_BIT_def UPGRADABLE_BIT_def WRITER_BIT_def
  READERS_MASK_def ONE_READER_def TOKEN_SHARED_def TOKEN_EXCLUSIVE_def TOKEN_UPGRADABLE_def

section \<open>Program points\<close>

text \<open>
  The three kinds of lock a thread can acquire; \<open>KShared recursive\<close> carries the flag of the
  recursive variants. \<open>timed\<close> says whether there is a time-out.
\<close>

datatype kind = KShared bool | KExclusive | KUpgradable

datatype how = Block bool | TryOnly

text \<open>
  A thread without the lock is at \<open>RwIdle\<close>, one that holds it at \<open>RwShared\<close>, \<open>RwUpgradable\<close> or
  \<open>RwExclusive\<close>. The flag of \<open>WaitReaders\<close> and the points after it says whether the writer was an
  upgradable reader before (\<open>prev_value\<close>). \<open>relock\<close> marks an unlock made by one of the bump
  functions, which lock again. \<open>RwPanicked\<close> is a thread in the panic \<open>RwLock reader count overflow\<close>; it
  holds nothing, and a caller that catches the panic can use the lock again.
\<close>

datatype (plugins only: code size) rw_pc =
    RwIdle
  | RwPanicked
  | RwShared
  | RwUpgradable
  | RwExclusive
  | SharedFast bool how
  | SharedFastCas bool how usize
  | SharedTryEntry bool
  | SharedTryLoop bool usize
  | UpgFast how
  | UpgFastCas how usize
  | UpgTryEntry
  | UpgTryLoop usize
  | ExclFast how
  | CommonEntry kind bool
  | CommonTry kind bool SpinWait usize
  | CommonTryReload kind bool SpinWait
  | CommonBlocked kind bool SpinWait usize
  | CommonPark kind bool
  | CommonAsleep kind bool
  | WaitReaders bool bool
  | WaitLoop bool bool SpinWait usize
  | WaitPark bool bool SpinWait
  | WaitAsleep bool bool SpinWait
  | WaitReload bool bool SpinWait
  | WaitExpired bool
  | WaitWake bool
  | UnlockShared bool
  | UnlockSharedSlow bool
  | UnlockExcl bool
  | UnlockExclSlow bool bool
  | UnlockUpg
  | UnlockUpgCas usize
  | UnlockUpgSlowEntry bool bool
  | UnlockUpgSlowLoop bool bool usize
  | UnlockUpgWake bool bool
  | DowngradeExcl
  | DowngradeUpg
  | DowngradeToUpg
  | DowngradeWake
  | DowngradeToUpgWake
  | UpgradeStart bool
  | TryUpgrade
  | TryUpgradeSlowEntry
  | TryUpgradeSlowLoop usize
  | BumpShared
  | BumpExcl
  | BumpUpg

section \<open>Acquiring\<close>

definition rw_is_locked :: "usize \<Rightarrow> bool" where
  "rw_is_locked state \<longleftrightarrow> state AND (WRITER_BIT OR READERS_MASK) \<noteq> 0"

definition rw_is_locked_exclusive :: "usize \<Rightarrow> bool" where
  "rw_is_locked_exclusive state \<longleftrightarrow> state AND WRITER_BIT \<noteq> 0"

text \<open>The point a thread reaches when it has the lock of a kind.\<close>

definition acquired :: "kind \<Rightarrow> bool \<Rightarrow> rw_pc" where
  "acquired k timed = (case k of KShared _ \<Rightarrow> RwShared | KUpgradable \<Rightarrow> RwUpgradable
     | KExclusive \<Rightarrow> WaitReaders False timed)"

definition after_fast :: "kind \<Rightarrow> how \<Rightarrow> rw_pc" where
  "after_fast k h = (case h of Block timed \<Rightarrow> CommonEntry k timed
     | TryOnly \<Rightarrow> (case k of KShared r \<Rightarrow> SharedTryEntry r | KUpgradable \<Rightarrow> UpgTryEntry | KExclusive \<Rightarrow> RwIdle))"

text \<open>The condition under which a reader must wait.\<close>

definition shared_blocked :: "bool \<Rightarrow> usize \<Rightarrow> bool" where
  "shared_blocked recursive state \<longleftrightarrow>
     state AND WRITER_BIT \<noteq> 0 \<and> (\<not> recursive \<or> state AND READERS_MASK = 0)"

definition upg_blocked :: "usize \<Rightarrow> bool" where
  "upg_blocked state \<longleftrightarrow> state AND (WRITER_BIT OR UPGRADABLE_BIT) \<noteq> 0"

definition try_lock_shared_fast_load :: "bool \<Rightarrow> how \<Rightarrow> usize \<Rightarrow> rw_pc" where
  "try_lock_shared_fast_load recursive h state =
     (if shared_blocked recursive state then after_fast (KShared recursive) h
      else SharedFastCas recursive h state)"

definition try_lock_shared_fast_cas :: "bool \<Rightarrow> bool \<Rightarrow> how \<Rightarrow> usize \<Rightarrow> nat \<Rightarrow> usize \<Rightarrow> usize \<times> rw_pc" where
  "try_lock_shared_fast_cas elide recursive h state c g =
     (if elide \<and> state = 0 then
        (case elision_compare_exchange_acquire 0 ONE_READER g of
           (Inr _, s) \<Rightarrow> (s, RwShared) | (Inl _, s) \<Rightarrow> (s, after_fast (KShared recursive) h))
      else case checked_add state ONE_READER of
        Some new_state \<Rightarrow>
          (case compare_exchange_weak (spurious c) state new_state g of
             (Inr _, s) \<Rightarrow> (s, RwShared) | (Inl _, s) \<Rightarrow> (s, after_fast (KShared recursive) h))
      | None \<Rightarrow> (g, after_fast (KShared recursive) h))"

text \<open>
  In the slow paths an overflow of the reader count is a panic (\<open>expect\<close>) and not an answer.
\<close>

definition try_lock_shared_slow_loop :: "bool \<Rightarrow> bool \<Rightarrow> usize \<Rightarrow> nat \<Rightarrow> usize \<Rightarrow> usize \<times> rw_pc" where
  "try_lock_shared_slow_loop elide recursive state c g =
     (if shared_blocked recursive state then (g, RwIdle)
      else if elide \<and> state = 0 then
        (case elision_compare_exchange_acquire 0 ONE_READER g of
           (Inr _, s) \<Rightarrow> (s, RwShared) | (Inl x, s) \<Rightarrow> (s, SharedTryLoop recursive x))
      else case checked_add state ONE_READER of
        Some new_state \<Rightarrow>
          (case compare_exchange_weak (spurious c) state new_state g of
             (Inr _, s) \<Rightarrow> (s, RwShared) | (Inl x, s) \<Rightarrow> (s, SharedTryLoop recursive x))
      | None \<Rightarrow> (g, RwPanicked))"

definition try_lock_upgradable_fast_load :: "how \<Rightarrow> usize \<Rightarrow> rw_pc" where
  "try_lock_upgradable_fast_load h state =
     (if upg_blocked state then after_fast KUpgradable h else UpgFastCas h state)"

definition try_lock_upgradable_fast_cas :: "how \<Rightarrow> usize \<Rightarrow> nat \<Rightarrow> usize \<Rightarrow> usize \<times> rw_pc" where
  "try_lock_upgradable_fast_cas h state c g =
     (case checked_add state (ONE_READER OR UPGRADABLE_BIT) of
        Some new_state \<Rightarrow>
          (case compare_exchange_weak (spurious c) state new_state g of
             (Inr _, s) \<Rightarrow> (s, RwUpgradable) | (Inl _, s) \<Rightarrow> (s, after_fast KUpgradable h))
      | None \<Rightarrow> (g, after_fast KUpgradable h))"

definition try_lock_upgradable_slow_loop :: "usize \<Rightarrow> nat \<Rightarrow> usize \<Rightarrow> usize \<times> rw_pc" where
  "try_lock_upgradable_slow_loop state c g =
     (if upg_blocked state then (g, RwIdle)
      else case checked_add state (ONE_READER OR UPGRADABLE_BIT) of
        Some new_state \<Rightarrow>
          (case compare_exchange_weak (spurious c) state new_state g of
             (Inr _, s) \<Rightarrow> (s, RwUpgradable) | (Inl x, s) \<Rightarrow> (s, UpgTryLoop x))
      | None \<Rightarrow> (g, RwPanicked))"

text \<open>
  \<open>lock_exclusive\<close> and the timed variants use a weak exchange, \<open>try_lock_exclusive\<close> a strong one.
\<close>

definition lock_exclusive_fast :: "how \<Rightarrow> nat \<Rightarrow> usize \<Rightarrow> usize \<times> rw_pc" where
  "lock_exclusive_fast h c g =
     (case compare_exchange_weak (h \<noteq> TryOnly \<and> spurious c) 0 WRITER_BIT g of
        (Inr _, s) \<Rightarrow> (s, RwExclusive) | (Inl _, s) \<Rightarrow> (s, after_fast KExclusive h))"

text \<open>
  The closures \<open>try_lock\<close> given to \<open>lock_common\<close>: one iteration of their loop. A returned false is
  the point \<open>CommonBlocked\<close>. An elided exchange that failed found a value other than 0, so the
  next iteration goes past it as the source does. The readers' closures load the state again after a failed
  exchange, the writers' closure takes the value the exchange found.
\<close>

definition lock_exclusive_try :: "bool \<Rightarrow> SpinWait \<Rightarrow> usize \<Rightarrow> nat \<Rightarrow> usize \<Rightarrow> usize \<times> rw_pc" where
  "lock_exclusive_try timed sw state c g =
     (if upg_blocked state then (g, CommonBlocked KExclusive timed sw state)
      else (case compare_exchange_weak (spurious c) state (state OR WRITER_BIT) g of
         (Inr _, s) \<Rightarrow> (s, acquired KExclusive timed) | (Inl x, s) \<Rightarrow> (s, CommonTry KExclusive timed sw x)))"

definition lock_shared_try :: "bool \<Rightarrow> bool \<Rightarrow> bool \<Rightarrow> SpinWait \<Rightarrow> usize \<Rightarrow> nat \<Rightarrow> usize \<Rightarrow> usize \<times> rw_pc" where
  "lock_shared_try elide recursive timed sw state c g =
     (if elide \<and> state = 0 then
        (case elision_compare_exchange_acquire 0 ONE_READER g of
           (Inr _, s) \<Rightarrow> (s, acquired (KShared recursive) timed)
         | (Inl x, s) \<Rightarrow> (s, CommonTry (KShared recursive) timed sw x))
      else if shared_blocked recursive state then (g, CommonBlocked (KShared recursive) timed sw state)
      else (case checked_add state ONE_READER of
         Some new_state \<Rightarrow>
           (case compare_exchange_weak (spurious c) state new_state g of
              (Inr _, s) \<Rightarrow> (s, acquired (KShared recursive) timed)
            | (Inl x, s) \<Rightarrow> (s, CommonTryReload (KShared recursive) timed sw))
       | None \<Rightarrow> (g, RwPanicked)))"

definition lock_upgradable_try :: "bool \<Rightarrow> SpinWait \<Rightarrow> usize \<Rightarrow> nat \<Rightarrow> usize \<Rightarrow> usize \<times> rw_pc" where
  "lock_upgradable_try timed sw state c g =
     (if upg_blocked state then (g, CommonBlocked KUpgradable timed sw state)
      else (case checked_add state (ONE_READER OR UPGRADABLE_BIT) of
         Some new_state \<Rightarrow>
           (case compare_exchange_weak (spurious c) state new_state g of
              (Inr _, s) \<Rightarrow> (s, acquired KUpgradable timed)
            | (Inl x, s) \<Rightarrow> (s, CommonTryReload KUpgradable timed sw))
       | None \<Rightarrow> (g, RwPanicked)))"

definition try_lock_iter :: "bool \<Rightarrow> kind \<Rightarrow> bool \<Rightarrow> SpinWait \<Rightarrow> usize \<Rightarrow> nat \<Rightarrow> usize \<Rightarrow> usize \<times> rw_pc" where
  "try_lock_iter elide k timed sw state c g = (case k of
     KExclusive \<Rightarrow> lock_exclusive_try timed sw state c g
   | KShared recursive \<Rightarrow> lock_shared_try elide recursive timed sw state c g
   | KUpgradable \<Rightarrow> lock_upgradable_try timed sw state c g)"

definition kind_token :: "kind \<Rightarrow> usize" where
  "kind_token k = (case k of KShared _ \<Rightarrow> TOKEN_SHARED | KExclusive \<Rightarrow> TOKEN_EXCLUSIVE
     | KUpgradable \<Rightarrow> TOKEN_UPGRADABLE)"

definition validate_flags :: "kind \<Rightarrow> usize" where
  "validate_flags k = (case k of KShared _ \<Rightarrow> WRITER_BIT | _ \<Rightarrow> WRITER_BIT OR UPGRADABLE_BIT)"

text \<open>\<open>lock_common\<close> after a failed \<open>try_lock\<close>, and the callbacks of its \<open>park\<close>.\<close>

definition lock_common_blocked :: "kind \<Rightarrow> bool \<Rightarrow> SpinWait \<Rightarrow> usize \<Rightarrow> nat \<Rightarrow> usize \<Rightarrow> usize \<times> rw_pc" where
  "lock_common_blocked k timed sw state c g =
     (if state AND (rw_PARKED_BIT OR WRITER_PARKED_BIT) = 0 \<and> fst (spin sw) then
        (g, CommonTry k timed (fst (snd (spin sw))) g)
      else if state AND rw_PARKED_BIT = 0 then
        (case compare_exchange_weak (spurious c) state (state OR rw_PARKED_BIT) g of
           (Inr _, s) \<Rightarrow> (s, CommonPark k timed) | (Inl x, s) \<Rightarrow> (s, CommonTry k timed sw x))
      else (g, CommonPark k timed))"

definition lock_common_validate :: "kind \<Rightarrow> usize \<Rightarrow> usize \<times> bool" where
  "lock_common_validate k state =
     (state, state AND rw_PARKED_BIT \<noteq> 0 \<and> state AND validate_flags k \<noteq> 0)"

definition lock_common_timed_out :: "usize \<Rightarrow> bool \<Rightarrow> usize \<Rightarrow> usize" where
  "lock_common_timed_out k was_last_thread state =
     (if was_last_thread then snd (fetch_and (NOT rw_PARKED_BIT) state) else state)"

definition lock_common_unparked :: "kind \<Rightarrow> bool \<Rightarrow> usize \<Rightarrow> rw_pc" where
  "lock_common_unparked k timed token =
     (if token = TOKEN_HANDOFF then acquired k timed else CommonEntry k timed)"

text \<open>\<open>wait_for_readers\<close>.\<close>

definition wait_for_readers_loop :: "bool \<Rightarrow> bool \<Rightarrow> SpinWait \<Rightarrow> usize \<Rightarrow> nat \<Rightarrow> usize \<Rightarrow> usize \<times> rw_pc" where
  "wait_for_readers_loop was_upg timed sw state c g =
     (if state AND READERS_MASK = 0 then (g, RwExclusive)
      else if fst (spin sw) then (g, WaitLoop was_upg timed (fst (snd (spin sw))) g)
      else if state AND WRITER_PARKED_BIT = 0 then
        (case compare_exchange_weak (spurious c) state (state OR WRITER_PARKED_BIT) g of
           (Inr _, s) \<Rightarrow> (s, WaitPark was_upg timed sw) | (Inl x, s) \<Rightarrow> (s, WaitLoop was_upg timed sw x))
      else (g, WaitPark was_upg timed sw))"

definition wait_for_readers_validate :: "usize \<Rightarrow> usize \<times> bool" where
  "wait_for_readers_validate state =
     (state, state AND READERS_MASK \<noteq> 0 \<and> state AND WRITER_PARKED_BIT \<noteq> 0)"

definition wait_for_readers_timed_out :: "usize \<Rightarrow> bool \<Rightarrow> usize \<Rightarrow> usize" where
  "wait_for_readers_timed_out k was_last_thread state = snd (fetch_and (NOT WRITER_PARKED_BIT) state)"

definition prev_value :: "bool \<Rightarrow> usize" where
  "prev_value was_upg = (if was_upg then ONE_READER OR UPGRADABLE_BIT else 0)"

definition back_to_prev :: "bool \<Rightarrow> rw_pc" where
  "back_to_prev was_upg = (if was_upg then RwUpgradable else RwIdle)"

definition wait_for_readers_expired :: "bool \<Rightarrow> usize \<Rightarrow> usize \<times> rw_pc" where
  "wait_for_readers_expired was_upg g =
     (let (state, s) = fetch_add (prev_value was_upg - WRITER_BIT) g
      in (s, if state AND rw_PARKED_BIT \<noteq> 0 then WaitWake was_upg else back_to_prev was_upg))"

section \<open>Releasing\<close>

text \<open>\<open>unlock_shared\<close>.\<close>

definition unlock_shared_fast :: "bool \<Rightarrow> bool \<Rightarrow> usize \<Rightarrow> usize \<times> rw_pc" where
  "unlock_shared_fast elide relock g =
     (let (state, s) = (if elide then elision_fetch_sub_release ONE_READER g else fetch_sub ONE_READER g)
      in (s, if state AND (READERS_MASK OR WRITER_PARKED_BIT) = ONE_READER OR WRITER_PARKED_BIT
             then UnlockSharedSlow relock
             else if relock then SharedFast False (Block False) else RwIdle))"

definition unlock_shared_slow_callback :: "UnparkResult \<Rightarrow> usize \<Rightarrow> usize \<times> usize" where
  "unlock_shared_slow_callback result g = (snd (fetch_and (NOT WRITER_PARKED_BIT) g), TOKEN_NORMAL)"

definition unlock_exclusive_fast :: "bool \<Rightarrow> usize \<Rightarrow> usize \<times> rw_pc" where
  "unlock_exclusive_fast fair g =
     (case compare_exchange WRITER_BIT 0 g of
        (Inr _, s) \<Rightarrow> (s, RwIdle) | (Inl _, s) \<Rightarrow> (s, UnlockExclSlow fair False))"

text \<open>The filter of \<open>wake_parked_threads\<close>, with \<open>new_state\<close> as its state.\<close>

definition wake_filter :: "usize \<Rightarrow> usize \<Rightarrow> usize \<times> FilterOp" where
  "wake_filter s token =
     (if s AND WRITER_BIT \<noteq> 0 then (s, Stop)
      else if token AND (UPGRADABLE_BIT OR WRITER_BIT) \<noteq> 0 \<and> s AND UPGRADABLE_BIT \<noteq> 0 then (s, Skip)
      else (s + token, Unpark))"

definition unlock_exclusive_slow_callback :: "bool \<Rightarrow> usize \<Rightarrow> UnparkResult \<Rightarrow> usize \<Rightarrow> usize \<times> usize" where
  "unlock_exclusive_slow_callback force_fair new_state result g =
     (if unparked_threads result \<noteq> 0 \<and> (force_fair \<or> be_fair result) then
        (if have_more_threads result then new_state OR rw_PARKED_BIT else new_state, TOKEN_HANDOFF)
      else (if have_more_threads result then rw_PARKED_BIT else 0, TOKEN_NORMAL))"

text \<open>\<open>unlock_upgradable\<close> and \<open>unlock_upgradable_fair\<close>, which both fall back to \<open>unlock_upgradable_slow(false)\<close>.\<close>

definition unlock_upgradable_load :: "usize \<Rightarrow> rw_pc" where
  "unlock_upgradable_load state =
     (if state AND rw_PARKED_BIT = 0 then UnlockUpgCas state else UnlockUpgSlowEntry False False)"

definition unlock_upgradable_cas :: "usize \<Rightarrow> nat \<Rightarrow> usize \<Rightarrow> usize \<times> rw_pc" where
  "unlock_upgradable_cas state c g =
     (case compare_exchange_weak (spurious c) state (state - (ONE_READER OR UPGRADABLE_BIT)) g of
        (Inr _, s) \<Rightarrow> (s, RwIdle) | (Inl _, s) \<Rightarrow> (s, UnlockUpgSlowEntry False False))"

definition relock_upg :: "bool \<Rightarrow> rw_pc" where
  "relock_upg relock = (if relock then UpgFast (Block False) else RwIdle)"

definition unlock_upgradable_slow_loop :: "bool \<Rightarrow> bool \<Rightarrow> usize \<Rightarrow> nat \<Rightarrow> usize \<Rightarrow> usize \<times> rw_pc" where
  "unlock_upgradable_slow_loop fair relock state c g =
     (if state AND rw_PARKED_BIT = 0 then
        (case compare_exchange_weak (spurious c) state (state - (ONE_READER OR UPGRADABLE_BIT)) g of
           (Inr _, s) \<Rightarrow> (s, relock_upg relock) | (Inl x, s) \<Rightarrow> (s, UnlockUpgSlowLoop fair relock x))
      else (g, UnlockUpgWake fair relock))"

text \<open>
  The callback of \<open>unlock_upgradable_slow\<close> repeats its exchange until it succeeds. Its two loops are given by the values
  \<open>xs\<close> that the failed exchanges return, in order (a spurious failure returns the value the loop already has); the
  result is the value of the exchange that succeeds, the value it writes, and the token.
\<close>

definition with_parked :: "bool \<Rightarrow> usize \<Rightarrow> usize" where
  "with_parked hm s = (if hm then s OR rw_PARKED_BIT else s AND NOT rw_PARKED_BIT)"

fun upgradable_release_loop :: "bool \<Rightarrow> usize list \<Rightarrow> usize \<Rightarrow> usize \<times> usize \<times> usize" where
  "upgradable_release_loop hm [] state =
     (state, with_parked hm (state - (ONE_READER OR UPGRADABLE_BIT)), TOKEN_NORMAL)"
| "upgradable_release_loop hm (x # xs) state = upgradable_release_loop hm xs x"

fun upgradable_handoff_loop :: "usize \<Rightarrow> bool \<Rightarrow> usize list \<Rightarrow> usize \<Rightarrow> usize \<times> usize \<times> usize" where
  "upgradable_handoff_loop new_state hm xs state =
     (case checked_add (state - (ONE_READER OR UPGRADABLE_BIT)) new_state of
        None \<Rightarrow> upgradable_release_loop hm xs state
      | Some s \<Rightarrow> (case xs of
            [] \<Rightarrow> (state, with_parked hm s, TOKEN_HANDOFF)
          | x # xs' \<Rightarrow> upgradable_handoff_loop new_state hm xs' x))"

definition unlock_upgradable_slow_exchanges ::
    "bool \<Rightarrow> usize \<Rightarrow> UnparkResult \<Rightarrow> usize list \<Rightarrow> usize \<Rightarrow> usize \<times> usize \<times> usize" where
  "unlock_upgradable_slow_exchanges force_fair new_state result xs state =
     (if force_fair \<or> be_fair result then upgradable_handoff_loop new_state (have_more_threads result) xs state
      else upgradable_release_loop (have_more_threads result) xs state)"

text \<open>
  In the program of a thread the callback is one step, at the exchange that succeeds: \<open>upgradable_exchanges_atomic\<close> shows
  that the loops do just this unless the count overflows on a value found earlier, which takes \<open>2 ^ 60\<close> readers.
\<close>

definition unlock_upgradable_slow_callback :: "bool \<Rightarrow> usize \<Rightarrow> UnparkResult \<Rightarrow> usize \<Rightarrow> usize \<times> usize" where
  "unlock_upgradable_slow_callback force_fair new_state result g =
     (let released = g - (ONE_READER OR UPGRADABLE_BIT) in
      case (if force_fair \<or> be_fair result then checked_add released new_state else None) of
        Some s \<Rightarrow> (with_parked (have_more_threads result) s, TOKEN_HANDOFF)
      | None \<Rightarrow> (with_parked (have_more_threads result) released, TOKEN_NORMAL))"

text \<open>The callback of the downgrades and of a writer whose wait expired.\<close>

definition clear_parked_callback :: "usize \<Rightarrow> UnparkResult \<Rightarrow> usize \<Rightarrow> usize \<times> usize" where
  "clear_parked_callback new_state result g =
     (if \<not> have_more_threads result then snd (fetch_and (NOT rw_PARKED_BIT) g) else g, TOKEN_NORMAL)"

section \<open>Upgrading and downgrading\<close>

definition rw_downgrade :: "usize \<Rightarrow> usize \<times> rw_pc" where
  "rw_downgrade g = (let (state, s) = fetch_add (ONE_READER - WRITER_BIT) g
     in (s, if state AND rw_PARKED_BIT \<noteq> 0 then DowngradeWake else RwShared))"

definition rw_downgrade_upgradable :: "usize \<Rightarrow> usize \<times> rw_pc" where
  "rw_downgrade_upgradable g = (let (state, s) = fetch_sub UPGRADABLE_BIT g
     in (s, if state AND rw_PARKED_BIT \<noteq> 0 then DowngradeWake else RwShared))"

definition rw_downgrade_to_upgradable :: "usize \<Rightarrow> usize \<times> rw_pc" where
  "rw_downgrade_to_upgradable g =
     (let (state, s) = fetch_add ((ONE_READER OR UPGRADABLE_BIT) - WRITER_BIT) g
      in (s, if state AND rw_PARKED_BIT \<noteq> 0 then DowngradeToUpgWake else RwUpgradable))"

text \<open>\<open>upgrade\<close>, \<open>try_upgrade_until\<close> and \<open>try_upgrade_for\<close>.\<close>

definition rw_upgrade :: "bool \<Rightarrow> usize \<Rightarrow> usize \<times> rw_pc" where
  "rw_upgrade timed g =
     (let (state, s) = fetch_sub ((ONE_READER OR UPGRADABLE_BIT) - WRITER_BIT) g
      in (s, if state AND READERS_MASK = ONE_READER then RwExclusive else WaitReaders True timed))"

definition rw_try_upgrade :: "nat \<Rightarrow> usize \<Rightarrow> usize \<times> rw_pc" where
  "rw_try_upgrade c g =
     (case compare_exchange_weak (spurious c) (ONE_READER OR UPGRADABLE_BIT) WRITER_BIT g of
        (Inr _, s) \<Rightarrow> (s, RwExclusive) | (Inl _, s) \<Rightarrow> (s, TryUpgradeSlowEntry))"

definition try_upgrade_slow_loop :: "usize \<Rightarrow> nat \<Rightarrow> usize \<Rightarrow> usize \<times> rw_pc" where
  "try_upgrade_slow_loop state c g =
     (if state AND READERS_MASK \<noteq> ONE_READER then (g, RwUpgradable)
      else (case compare_exchange_weak (spurious c) state
          (state - (ONE_READER OR UPGRADABLE_BIT) + WRITER_BIT) g of
         (Inr _, s) \<Rightarrow> (s, RwExclusive) | (Inl x, s) \<Rightarrow> (s, TryUpgradeSlowLoop x)))"

text \<open>
  The slow paths of the bump functions unlock and then lock again: \<open>UnlockShared True\<close>,
  \<open>UnlockExclSlow True True\<close> and \<open>UnlockUpgSlowEntry True True\<close>.
\<close>

definition rw_bump_shared :: "usize \<Rightarrow> rw_pc" where
  "rw_bump_shared g = (if g AND WRITER_BIT \<noteq> 0 then UnlockShared True else RwShared)"

definition rw_bump_exclusive :: "usize \<Rightarrow> rw_pc" where
  "rw_bump_exclusive g = (if g AND rw_PARKED_BIT \<noteq> 0 then UnlockExclSlow True True else RwExclusive)"

definition rw_bump_upgradable :: "usize \<Rightarrow> rw_pc" where
  "rw_bump_upgradable g = (if g AND rw_PARKED_BIT \<noteq> 0 then UnlockUpgSlowEntry True True else RwUpgradable)"

section \<open>The program of a thread\<close>

text \<open>
  The functions of the traits of \<open>lock_api\<close>, as the point at which they start. The timed ones stand for
  the pair of \<open>_for\<close> and \<open>_until\<close>, which differ in how they get the deadline.
\<close>

definition rw_lock_shared :: rw_pc where "rw_lock_shared = SharedFast False (Block False)"
definition rw_try_lock_shared :: rw_pc where "rw_try_lock_shared = SharedFast False TryOnly"
definition rw_try_lock_shared_timed :: rw_pc where "rw_try_lock_shared_timed = SharedFast False (Block True)"
definition rw_lock_shared_recursive :: rw_pc where "rw_lock_shared_recursive = SharedFast True (Block False)"
definition rw_try_lock_shared_recursive :: rw_pc where "rw_try_lock_shared_recursive = SharedFast True TryOnly"
definition rw_try_lock_shared_recursive_timed :: rw_pc where "rw_try_lock_shared_recursive_timed = SharedFast True (Block True)"
definition rw_lock_exclusive :: rw_pc where "rw_lock_exclusive = ExclFast (Block False)"
definition rw_try_lock_exclusive :: rw_pc where "rw_try_lock_exclusive = ExclFast TryOnly"
definition rw_try_lock_exclusive_timed :: rw_pc where "rw_try_lock_exclusive_timed = ExclFast (Block True)"
definition rw_lock_upgradable :: rw_pc where "rw_lock_upgradable = UpgFast (Block False)"
definition rw_try_lock_upgradable :: rw_pc where "rw_try_lock_upgradable = UpgFast TryOnly"
definition rw_try_lock_upgradable_timed :: rw_pc where "rw_try_lock_upgradable_timed = UpgFast (Block True)"
definition rw_unlock_shared :: rw_pc where "rw_unlock_shared = UnlockShared False"
definition rw_unlock_shared_fair :: rw_pc where "rw_unlock_shared_fair = UnlockShared False"
definition rw_unlock_exclusive :: rw_pc where "rw_unlock_exclusive = UnlockExcl False"
definition rw_unlock_exclusive_fair :: rw_pc where "rw_unlock_exclusive_fair = UnlockExcl True"
definition rw_unlock_upgradable :: rw_pc where "rw_unlock_upgradable = UnlockUpg"
definition rw_unlock_upgradable_fair :: rw_pc where "rw_unlock_upgradable_fair = UnlockUpg"
definition rw_upgrade_blocking :: rw_pc where "rw_upgrade_blocking = UpgradeStart False"
definition rw_try_upgrade_timed :: rw_pc where "rw_try_upgrade_timed = UpgradeStart True"

lemmas rw_api_defs = rw_lock_shared_def rw_try_lock_shared_def rw_try_lock_shared_timed_def rw_lock_shared_recursive_def
   rw_try_lock_shared_recursive_def rw_try_lock_shared_recursive_timed_def rw_lock_exclusive_def rw_try_lock_exclusive_def
   rw_try_lock_exclusive_timed_def rw_lock_upgradable_def rw_try_lock_upgradable_def rw_try_lock_upgradable_timed_def
   rw_unlock_shared_def rw_unlock_shared_fair_def rw_unlock_exclusive_def rw_unlock_exclusive_fair_def
   rw_unlock_upgradable_def rw_unlock_upgradable_fair_def rw_upgrade_blocking_def rw_try_upgrade_timed_def

text \<open>What a thread may call, by the lock it holds; the scheduler's number chooses.\<close>

definition rw_calls :: "nat \<Rightarrow> rw_pc" where
  "rw_calls c =
     (if c = 0 then rw_lock_shared else if c = 1 then rw_try_lock_shared_timed
      else if c = 2 then rw_lock_shared_recursive else if c = 3 then rw_try_lock_shared_recursive_timed
      else if c = 4 then rw_try_lock_shared else if c = 5 then rw_try_lock_shared_recursive
      else if c = 6 then rw_lock_exclusive else if c = 7 then rw_try_lock_exclusive_timed
      else if c = 8 then rw_try_lock_exclusive else if c = 9 then rw_lock_upgradable
      else if c = 10 then rw_try_lock_upgradable_timed else if c = 11 then rw_try_lock_upgradable else RwIdle)"

definition shared_calls :: "nat \<Rightarrow> rw_pc" where
  "shared_calls c = (if c = 0 then rw_unlock_shared else if c = 1 then BumpShared
     else if c = 2 then rw_unlock_shared_fair else RwShared)"

definition excl_calls :: "nat \<Rightarrow> rw_pc" where
  "excl_calls c =
     (if c = 0 then rw_unlock_exclusive else if c = 1 then rw_unlock_exclusive_fair else if c = 2 then BumpExcl
      else if c = 3 then DowngradeExcl else if c = 4 then DowngradeToUpg else RwExclusive)"

definition upg_calls :: "nat \<Rightarrow> rw_pc" where
  "upg_calls c =
     (if c = 0 then rw_unlock_upgradable else if c = 1 then BumpUpg else if c = 2 then DowngradeUpg
      else if c = 3 then rw_upgrade_blocking else if c = 4 then rw_try_upgrade_timed
      else if c = 5 then TryUpgrade else if c = 6 then rw_unlock_upgradable_fair else RwUpgradable)"

fun rw_client :: "bool \<Rightarrow> usize \<Rightarrow> (usize, rw_pc) client" where
  "rw_client el a t RwIdle = Atomic (\<lambda>c g. (g, rw_calls c))"
| "rw_client el a t RwPanicked = Atomic (\<lambda>c g. (g, if c = 0 then RwIdle else RwPanicked))"
| "rw_client el a t RwShared = Atomic (\<lambda>c g. (g, shared_calls c))"
| "rw_client el a t RwUpgradable = Atomic (\<lambda>c g. (g, upg_calls c))"
| "rw_client el a t RwExclusive = Atomic (\<lambda>c g. (g, excl_calls c))"
| "rw_client el a t (SharedFast r h) = Atomic (\<lambda>c g. (g, try_lock_shared_fast_load r h g))"
| "rw_client el a t (SharedFastCas r h state) = Atomic (try_lock_shared_fast_cas el r h state)"
| "rw_client el a t (SharedTryEntry r) = Atomic (\<lambda>c g. (g, SharedTryLoop r g))"
| "rw_client el a t (SharedTryLoop r state) = Atomic (try_lock_shared_slow_loop el r state)"
| "rw_client el a t (UpgFast h) = Atomic (\<lambda>c g. (g, try_lock_upgradable_fast_load h g))"
| "rw_client el a t (UpgFastCas h state) = Atomic (try_lock_upgradable_fast_cas h state)"
| "rw_client el a t UpgTryEntry = Atomic (\<lambda>c g. (g, UpgTryLoop g))"
| "rw_client el a t (UpgTryLoop state) = Atomic (try_lock_upgradable_slow_loop state)"
| "rw_client el a t (ExclFast h) = Atomic (lock_exclusive_fast h)"
| "rw_client el a t (CommonEntry k timed) = Atomic (\<lambda>c g. (g, CommonTry k timed SpinWait_new g))"
| "rw_client el a t (CommonTry k timed sw state) = Atomic (try_lock_iter el k timed sw state)"
| "rw_client el a t (CommonTryReload k timed sw) = Atomic (\<lambda>c g. (g, CommonTry k timed sw g))"
| "rw_client el a t (CommonBlocked k timed sw state) = Atomic (lock_common_blocked k timed sw state)"
| "rw_client el a t (CommonPark k timed) =
     ParkEnq a (kind_token k) (lock_common_validate k) (CommonEntry k timed) (CommonAsleep k timed)"
| "rw_client el a t (CommonAsleep k timed) =
     ParkSleep timed lock_common_timed_out (lock_common_unparked k timed) RwIdle"
| "rw_client el a t (WaitReaders u timed) = Atomic (\<lambda>c g. (g, WaitLoop u timed SpinWait_new g))"
| "rw_client el a t (WaitLoop u timed sw state) = Atomic (wait_for_readers_loop u timed sw state)"
| "rw_client el a t (WaitPark u timed sw) =
     ParkEnq (a + 1) TOKEN_EXCLUSIVE wait_for_readers_validate (WaitReload u timed sw) (WaitAsleep u timed sw)"
| "rw_client el a t (WaitAsleep u timed sw) =
     ParkSleep timed wait_for_readers_timed_out (\<lambda>_. WaitReload u timed sw) (WaitExpired u)"
| "rw_client el a t (WaitReload u timed sw) = Atomic (\<lambda>c g. (g, WaitLoop u timed sw g))"
| "rw_client el a t (WaitExpired u) = Atomic (\<lambda>c. wait_for_readers_expired u)"
| "rw_client el a t (WaitWake u) =
     CallUnparkFilter a wake_filter (prev_value u) clear_parked_callback (\<lambda>_. back_to_prev u)"
| "rw_client el a t (UnlockShared relock) = Atomic (\<lambda>c. unlock_shared_fast el relock)"
| "rw_client el a t (UnlockSharedSlow relock) =
     CallUnparkOne (a + 1) unlock_shared_slow_callback
       (\<lambda>_. if relock then SharedFast False (Block False) else RwIdle)"
| "rw_client el a t (UnlockExcl fair) = Atomic (\<lambda>c. unlock_exclusive_fast fair)"
| "rw_client el a t (UnlockExclSlow fair relock) =
     CallUnparkFilter a wake_filter 0 (unlock_exclusive_slow_callback fair)
       (\<lambda>_. if relock then ExclFast (Block False) else RwIdle)"
| "rw_client el a t UnlockUpg = Atomic (\<lambda>c g. (g, unlock_upgradable_load g))"
| "rw_client el a t (UnlockUpgCas state) = Atomic (unlock_upgradable_cas state)"
| "rw_client el a t (UnlockUpgSlowEntry fair relock) = Atomic (\<lambda>c g. (g, UnlockUpgSlowLoop fair relock g))"
| "rw_client el a t (UnlockUpgSlowLoop fair relock state) = Atomic (unlock_upgradable_slow_loop fair relock state)"
| "rw_client el a t (UnlockUpgWake fair relock) =
     CallUnparkFilter a wake_filter 0 (unlock_upgradable_slow_callback fair) (\<lambda>_. relock_upg relock)"
| "rw_client el a t DowngradeExcl = Atomic (\<lambda>c. rw_downgrade)"
| "rw_client el a t DowngradeUpg = Atomic (\<lambda>c. rw_downgrade_upgradable)"
| "rw_client el a t DowngradeToUpg = Atomic (\<lambda>c. rw_downgrade_to_upgradable)"
| "rw_client el a t DowngradeWake =
     CallUnparkFilter a wake_filter ONE_READER clear_parked_callback (\<lambda>_. RwShared)"
| "rw_client el a t DowngradeToUpgWake =
     CallUnparkFilter a wake_filter (ONE_READER OR UPGRADABLE_BIT) clear_parked_callback (\<lambda>_. RwUpgradable)"
| "rw_client el a t (UpgradeStart timed) = Atomic (\<lambda>c. rw_upgrade timed)"
| "rw_client el a t TryUpgrade = Atomic rw_try_upgrade"
| "rw_client el a t TryUpgradeSlowEntry = Atomic (\<lambda>c g. (g, TryUpgradeSlowLoop g))"
| "rw_client el a t (TryUpgradeSlowLoop state) = Atomic (try_upgrade_slow_loop state)"
| "rw_client el a t BumpShared = Atomic (\<lambda>c g. (g, rw_bump_shared g))"
| "rw_client el a t BumpExcl = Atomic (\<lambda>c g. (g, rw_bump_exclusive g))"
| "rw_client el a t BumpUpg = Atomic (\<lambda>c g. (g, rw_bump_upgradable g))"

definition rw_start :: "(usize, rw_pc) world" where
  "rw_start = world_init 0 (\<lambda>_. RwIdle)"

primrec rw_asleep :: "rw_pc \<Rightarrow> bool" where
  "rw_asleep RwIdle = False"
| "rw_asleep RwPanicked = False"
| "rw_asleep RwShared = False"
| "rw_asleep RwUpgradable = False"
| "rw_asleep RwExclusive = False"
| "rw_asleep (SharedFast a b) = False"
| "rw_asleep (SharedFastCas a b c) = False"
| "rw_asleep (SharedTryEntry a) = False"
| "rw_asleep (SharedTryLoop a b) = False"
| "rw_asleep (UpgFast a) = False"
| "rw_asleep (UpgFastCas a b) = False"
| "rw_asleep UpgTryEntry = False"
| "rw_asleep (UpgTryLoop a) = False"
| "rw_asleep (ExclFast a) = False"
| "rw_asleep (CommonEntry a b) = False"
| "rw_asleep (CommonTry a b c d) = False"
| "rw_asleep (CommonTryReload a b c) = False"
| "rw_asleep (CommonBlocked a b c d) = False"
| "rw_asleep (CommonPark a b) = False"
| "rw_asleep (CommonAsleep a b) = True"
| "rw_asleep (WaitReaders a b) = False"
| "rw_asleep (WaitLoop a b c d) = False"
| "rw_asleep (WaitPark a b c) = False"
| "rw_asleep (WaitAsleep a b c) = True"
| "rw_asleep (WaitReload a b c) = False"
| "rw_asleep (WaitExpired a) = False"
| "rw_asleep (WaitWake a) = False"
| "rw_asleep (UnlockShared a) = False"
| "rw_asleep (UnlockSharedSlow a) = False"
| "rw_asleep (UnlockExcl a) = False"
| "rw_asleep (UnlockExclSlow a b) = False"
| "rw_asleep UnlockUpg = False"
| "rw_asleep (UnlockUpgCas a) = False"
| "rw_asleep (UnlockUpgSlowEntry a b) = False"
| "rw_asleep (UnlockUpgSlowLoop a b c) = False"
| "rw_asleep (UnlockUpgWake a b) = False"
| "rw_asleep DowngradeExcl = False"
| "rw_asleep DowngradeUpg = False"
| "rw_asleep DowngradeToUpg = False"
| "rw_asleep DowngradeWake = False"
| "rw_asleep DowngradeToUpgWake = False"
| "rw_asleep (UpgradeStart a) = False"
| "rw_asleep TryUpgrade = False"
| "rw_asleep TryUpgradeSlowEntry = False"
| "rw_asleep (TryUpgradeSlowLoop a) = False"
| "rw_asleep BumpShared = False"
| "rw_asleep BumpExcl = False"
| "rw_asleep BumpUpg = False"

end
