(* ===== verification/RwLock_Bits.thy ===== *)
theory RwLock_Bits
  imports Raw_RwLock
begin

text \<open>
  The state word of the reader-writer lock as a reader count and four flags, and what the
  masks, additions and subtractions of the source do to them.
\<close>

definition rds :: "usize \<Rightarrow> nat" where "rds s = unat s div 16"
definition wrt :: "usize \<Rightarrow> bool" where "wrt s \<longleftrightarrow> bit s 3"
definition upg :: "usize \<Rightarrow> bool" where "upg s \<longleftrightarrow> bit s 2"
definition wpk :: "usize \<Rightarrow> bool" where "wpk s \<longleftrightarrow> bit s 1"
definition prk :: "usize \<Rightarrow> bool" where "prk s \<longleftrightarrow> bit s 0"

definition enc :: "nat \<Rightarrow> bool \<Rightarrow> bool \<Rightarrow> bool \<Rightarrow> bool \<Rightarrow> usize" where
  "enc n w u wp p = 16 * of_nat n + 8 * of_bool w + 4 * of_bool u + 2 * of_bool wp + of_bool p"

lemma unat_of_nat_usize: "m < 2 ^ 64 \<Longrightarrow> unat (of_nat m :: usize) = m"
  by (simp add: unat_of_nat take_bit_eq_mod)

lemma unat_enc:
  assumes "n < 2 ^ 60"
  shows "unat (enc n w u wp p) = 16 * n + 8 * of_bool w + 4 * of_bool u + 2 * of_bool wp + of_bool p"
proof -
  define m :: nat where "m = 16 * n + 8 * of_bool w + 4 * of_bool u + 2 * of_bool wp + of_bool p"
  have "enc n w u wp p = of_nat m" by (simp add: enc_def m_def)
  moreover have "m < 2 ^ 64"
    using assms by (cases w; cases u; cases wp; cases p) (simp_all add: m_def)
  ultimately show ?thesis by (simp add: unat_of_nat_usize m_def [symmetric])
qed

lemma bit_unat: "bit s i \<longleftrightarrow> odd (unat s div 2 ^ i)" for s :: usize
proof -
  have "bit s i \<longleftrightarrow> bit (unat s) i" by (simp add: bit_unsigned_iff)
  then show ?thesis by (simp add: bit_iff_odd)
qed

lemma enc_decode:
  assumes "n < 2 ^ 60"
  shows "rds (enc n w u wp p) = n" "wrt (enc n w u wp p) = w" "upg (enc n w u wp p) = u"
    "wpk (enc n w u wp p) = wp" "prk (enc n w u wp p) = p"
proof -
  show "rds (enc n w u wp p) = n"
    unfolding rds_def unat_enc [OF assms] by (cases w; cases u; cases wp; cases p) simp_all
  show "wrt (enc n w u wp p) = w" "upg (enc n w u wp p) = u" "wpk (enc n w u wp p) = wp" "prk (enc n w u wp p) = p"
    unfolding wrt_def upg_def wpk_def prk_def bit_unat unat_enc [OF assms]
    by (cases w; cases u; cases wp; cases p; simp; presburger)+
qed

lemma rds_bound: "rds s < 2 ^ 60"
proof -
  have "unat s < 2 ^ 64" using unsigned_less [of s] by simp
  then show ?thesis by (simp add: rds_def less_mult_imp_div_less)
qed

lemma binary4:
  "16 * (x div 16) + 8 * (x div 8 mod 2) + 4 * (x div 4 mod 2) + 2 * (x div 2 mod 2) + x mod 2 = x" for x :: nat
proof -
  have d: "x div 4 = x div 2 div 2" "x div 8 = x div 4 div 2" "x div 16 = x div 8 div 2"
    by (simp_all add: div_mult2_eq [symmetric])
  have "2 * (x div 2) + x mod 2 = x" "2 * (x div 4) + x div 2 mod 2 = x div 2"
    "2 * (x div 8) + x div 4 mod 2 = x div 4" "2 * (x div 16) + x div 8 mod 2 = x div 8"
    unfolding d by simp_all
  then show ?thesis by linarith
qed

lemma enc_surj: "s = enc (rds s) (wrt s) (upg s) (wpk s) (prk s)"
proof -
  have b: "of_bool (odd x) = x mod 2" for x :: nat by (simp add: odd_iff_mod_2_eq_one)
  have "unat (enc (rds s) (wrt s) (upg s) (wpk s) (prk s)) =
      16 * rds s + 8 * of_bool (wrt s) + 4 * of_bool (upg s) + 2 * of_bool (wpk s) + of_bool (prk s)"
    by (rule unat_enc [OF rds_bound])
  also have "\<dots> = unat s"
    unfolding rds_def wrt_def upg_def wpk_def prk_def bit_unat b using binary4 [of "unat s"] by simp
  finally show ?thesis by (metis word_unat_eq_iff)
qed

section \<open>Masks\<close>

lemma and_exp_eq: "s AND 2 ^ i = 2 ^ i * of_bool (bit s i)" for s :: usize
  by (rule bit_eqI) (auto simp: bit_simps)

lemma rds_drop: "rds s = unat (drop_bit 4 s)"
  by (simp add: rds_def unat_drop_bit_div)

lemma and_flag:
  "s AND 1 = 0 \<longleftrightarrow> \<not> prk s" "s AND 2 = 0 \<longleftrightarrow> \<not> wpk s" "s AND 4 = 0 \<longleftrightarrow> \<not> upg s" "s AND 8 = 0 \<longleftrightarrow> \<not> wrt s"
  using and_exp_eq_0_iff_not_bit [of s 0] and_exp_eq_0_iff_not_bit [of s 1]
    and_exp_eq_0_iff_not_bit [of s 2] and_exp_eq_0_iff_not_bit [of s 3]
  by (simp_all add: prk_def wpk_def upg_def wrt_def)

lemma and_flags2:
  "s AND 12 = 0 \<longleftrightarrow> \<not> wrt s \<and> \<not> upg s" "s AND 3 = 0 \<longleftrightarrow> \<not> prk s \<and> \<not> wpk s"
proof -
  have "s AND 12 = (s AND 8) OR (s AND 4)" "s AND 3 = (s AND 2) OR (s AND 1)"
    by (simp_all flip: bit.conj_disj_distrib)
  then show "s AND 12 = 0 \<longleftrightarrow> \<not> wrt s \<and> \<not> upg s" "s AND 3 = 0 \<longleftrightarrow> \<not> prk s \<and> \<not> wpk s"
    using and_flag [of s] by (simp_all add: or_eq_0_iff) blast
qed

lemma and_readers: "s AND NOT 15 = of_nat (16 * rds s)"
proof -
  have 15: "15 = (mask 4 :: usize)" by (simp add: mask_eq_exp_minus_1)
  have "s AND NOT 15 = push_bit 4 (drop_bit 4 s)"
    unfolding 15 by (rule bit_eqI) (auto simp: bit_simps)
  also have "\<dots> = drop_bit 4 s * 16" by (simp add: push_bit_eq_mult)
  also have "\<dots> = of_nat (16 * rds s)" by (simp add: rds_drop)
  finally show ?thesis .
qed

lemma of_nat_usize_eq: "m < 2 ^ 64 \<Longrightarrow> n < 2 ^ 64 \<Longrightarrow> (of_nat m :: usize) = of_nat n \<longleftrightarrow> m = n"
  using unat_of_nat_usize by metis

lemma readers_zero: "s AND NOT 15 = 0 \<longleftrightarrow> rds s = 0"
  using of_nat_usize_eq [of "16 * rds s" 0] rds_bound [of s] unfolding and_readers by simp

lemma readers_one: "s AND NOT 15 = 16 \<longleftrightarrow> rds s = 1"
  using of_nat_usize_eq [of "16 * rds s" 16] rds_bound [of s] unfolding and_readers by simp

lemma last_reader_writer_parked: "s AND (NOT 15 OR 2) = 18 \<longleftrightarrow> rds s = 1 \<and> wpk s"
proof -
  have 15: "15 = (mask 4 :: usize)" by (simp add: mask_eq_exp_minus_1)
  have 2: "s AND 2 = 2 * of_bool (wpk s)"
    using and_exp_eq [of s 1] unfolding wpk_def by simp
  have disj: "(s AND NOT 15) AND (s AND 2 ^ 1) = 0"
    unfolding 15 by (rule bit_eqI) (auto simp: bit_and_iff bit_not_iff bit_mask_iff bit_exp_iff bit_2_iff)
  have "s AND (NOT 15 OR 2) = (s AND NOT 15) OR (s AND 2)" by (rule bit.conj_disj_distrib)
  also have "\<dots> = (s AND NOT 15) + (s AND 2)"
    using disj by (intro disjunctive_add_eq_or [symmetric]) (simp only: power_one_right)
  also have "\<dots> = of_nat (16 * rds s + 2 * of_bool (wpk s))" unfolding and_readers 2 by simp
  finally have e: "s AND (NOT 15 OR 2) = of_nat (16 * rds s + 2 * of_bool (wpk s))" .
  show ?thesis
    unfolding e using of_nat_usize_eq [of "16 * rds s + 2 * of_bool (wpk s)" 18] rds_bound [of s]
    by (cases "wpk s") (simp_all, arith)
qed

lemma set_flag:
  "rds (s OR 1) = rds s" "wrt (s OR 1) = wrt s" "upg (s OR 1) = upg s" "wpk (s OR 1) = wpk s" "prk (s OR 1)"
  "rds (s OR 2) = rds s" "wrt (s OR 2) = wrt s" "upg (s OR 2) = upg s" "wpk (s OR 2)" "prk (s OR 2) = prk s"
  "rds (s OR 8) = rds s" "wrt (s OR 8)" "upg (s OR 8) = upg s" "wpk (s OR 8) = wpk s" "prk (s OR 8) = prk s"
  by (simp_all add: rds_drop drop_bit_or wrt_def upg_def wpk_def prk_def bit_simps)

lemma clear_flag:
  "rds (s AND NOT 1) = rds s" "wrt (s AND NOT 1) = wrt s" "upg (s AND NOT 1) = upg s"
  "wpk (s AND NOT 1) = wpk s" "\<not> prk (s AND NOT 1)"
  "rds (s AND NOT 2) = rds s" "wrt (s AND NOT 2) = wrt s" "upg (s AND NOT 2) = upg s"
  "\<not> wpk (s AND NOT 2)" "prk (s AND NOT 2) = prk s"
proof -
  have high: "drop_bit 4 (s AND NOT m) = drop_bit 4 s" if "\<And>n. \<not> bit m (4 + n)" for m :: usize
    using that by (intro bit_eqI) (auto simp: bit_simps dest: bit_imp_le_length [of s])
  have m: "drop_bit 4 (s AND NOT 1) = drop_bit 4 s" "drop_bit 4 (s AND NOT 2) = drop_bit 4 s"
    by (rule high; simp add: bit_simps)+
  show "rds (s AND NOT 1) = rds s" "rds (s AND NOT 2) = rds s" unfolding rds_drop m by (rule refl)+
qed (simp_all add: wrt_def upg_def wpk_def prk_def bit_simps)

section \<open>Arithmetic\<close>

text \<open>A word given by its count and flags; the arithmetic of the source on it.\<close>

definition is_enc :: "usize \<Rightarrow> nat \<Rightarrow> bool \<Rightarrow> bool \<Rightarrow> bool \<Rightarrow> bool \<Rightarrow> bool" where
  "is_enc s n w u wp p \<longleftrightarrow> rds s = n \<and> wrt s = w \<and> upg s = u \<and> wpk s = wp \<and> prk s = p"

lemma is_enc_iff: "n < 2 ^ 60 \<Longrightarrow> is_enc s n w u wp p \<longleftrightarrow> s = enc n w u wp p"
  using enc_surj [of s] enc_decode [of n w u wp p] by (auto simp: is_enc_def)

lemma is_enc_self: "is_enc s (rds s) (wrt s) (upg s) (wpk s) (prk s)"
  by (simp add: is_enc_def)

lemma is_enc_bound: "is_enc s n w u wp p \<Longrightarrow> n < 2 ^ 60"
  using rds_bound [of s] by (simp add: is_enc_def)

lemma enc_arith:
  "enc n w u wp p + 16 = enc (Suc n) w u wp p"
  "enc n w False wp p + 20 = enc (Suc n) w True wp p"
  "enc (Suc n) w u wp p - 16 = enc n w u wp p"
  "enc (Suc n) w True wp p - 20 = enc n w False wp p"
  "enc n True u wp p + 8 = enc (Suc n) False u wp p"
  "enc n w True wp p - 4 = enc n w False wp p"
  "enc n True False wp p + 12 = enc (Suc n) False True wp p"
  "enc (Suc n) False True wp p - 12 = enc n True False wp p"
  "enc n True u wp p - 8 = enc n False u wp p"
  "enc n False u wp p + 8 = enc n True u wp p"
  by (simp_all add: enc_def algebra_simps)

section \<open>The named masks and updates of the source\<close>

lemma flag_tests [simp]:
  "s AND rw_PARKED_BIT = 0 \<longleftrightarrow> \<not> prk s" "s AND WRITER_PARKED_BIT = 0 \<longleftrightarrow> \<not> wpk s"
  "s AND UPGRADABLE_BIT = 0 \<longleftrightarrow> \<not> upg s" "s AND WRITER_BIT = 0 \<longleftrightarrow> \<not> wrt s"
  "s AND (WRITER_BIT OR UPGRADABLE_BIT) = 0 \<longleftrightarrow> \<not> wrt s \<and> \<not> upg s"
  "s AND (UPGRADABLE_BIT OR WRITER_BIT) = 0 \<longleftrightarrow> \<not> wrt s \<and> \<not> upg s"
  "s AND (rw_PARKED_BIT OR WRITER_PARKED_BIT) = 0 \<longleftrightarrow> \<not> prk s \<and> \<not> wpk s"
  "s AND READERS_MASK = 0 \<longleftrightarrow> rds s = 0" "s AND READERS_MASK = ONE_READER \<longleftrightarrow> rds s = 1"
  "s AND (READERS_MASK OR WRITER_PARKED_BIT) = ONE_READER OR WRITER_PARKED_BIT \<longleftrightarrow> rds s = 1 \<and> wpk s"
proof -
  have c: "WRITER_BIT OR UPGRADABLE_BIT = 12" "UPGRADABLE_BIT OR WRITER_BIT = 12"
    "rw_PARKED_BIT OR WRITER_PARKED_BIT = 3" "ONE_READER OR WRITER_PARKED_BIT = 18"
    by (simp_all add: rw_consts)
  show "s AND (WRITER_BIT OR UPGRADABLE_BIT) = 0 \<longleftrightarrow> \<not> wrt s \<and> \<not> upg s"
    "s AND (UPGRADABLE_BIT OR WRITER_BIT) = 0 \<longleftrightarrow> \<not> wrt s \<and> \<not> upg s"
    "s AND (rw_PARKED_BIT OR WRITER_PARKED_BIT) = 0 \<longleftrightarrow> \<not> prk s \<and> \<not> wpk s"
    unfolding c by (rule and_flags2)+
  show "s AND (READERS_MASK OR WRITER_PARKED_BIT) = ONE_READER OR WRITER_PARKED_BIT \<longleftrightarrow> rds s = 1 \<and> wpk s"
    unfolding c unfolding READERS_MASK_def WRITER_PARKED_BIT_def by (rule last_reader_writer_parked)
  show "s AND READERS_MASK = 0 \<longleftrightarrow> rds s = 0" "s AND READERS_MASK = ONE_READER \<longleftrightarrow> rds s = 1"
    unfolding READERS_MASK_def ONE_READER_def by (rule readers_zero readers_one)+
qed (simp_all add: rw_PARKED_BIT_def WRITER_PARKED_BIT_def UPGRADABLE_BIT_def WRITER_BIT_def and_flag)

text \<open>The count and the three lock flags after each update; the parked flags are left out where no lemma needs them.\<close>

definition holds :: "usize \<Rightarrow> nat \<times> bool \<times> bool" where
  "holds s = (rds s, upg s, wrt s)"

lemma holds_parked [simp]:
  "holds (s OR rw_PARKED_BIT) = holds s" "holds (s AND NOT rw_PARKED_BIT) = holds s"
  "holds (s OR WRITER_PARKED_BIT) = holds s" "holds (s AND NOT WRITER_PARKED_BIT) = holds s"
  unfolding holds_def rw_PARKED_BIT_def WRITER_PARKED_BIT_def
  by (simp_all only: set_flag clear_flag)

lemma holds_writer: "holds (s OR WRITER_BIT) = (rds s, upg s, True)"
  unfolding holds_def WRITER_BIT_def by (simp only: set_flag)

lemma holds_enc: "n < 2 ^ 60 \<Longrightarrow> holds (enc n w u wp p) = (n, u, w)"
  by (simp add: holds_def enc_decode)

lemma holds_consts:
  "holds 0 = (0, False, False)" "holds WRITER_BIT = (0, False, True)"
  "holds ONE_READER = (1, False, False)" "holds (ONE_READER OR UPGRADABLE_BIT) = (1, True, False)"
  "holds rw_PARKED_BIT = (0, False, False)"
proof -
  have 0: "0 = enc 0 False False False False" "WRITER_BIT = enc 0 True False False False"
    "ONE_READER = enc 1 False False False False" "ONE_READER OR UPGRADABLE_BIT = enc 1 False True False False"
    "rw_PARKED_BIT = enc 0 False False False True"
    by (simp_all add: enc_def rw_consts)
  have lt: "(0::nat) < 2 ^ 60" "(1::nat) < 2 ^ 60" by simp_all
  show "holds 0 = (0, False, False)" "holds WRITER_BIT = (0, False, True)"
    "holds ONE_READER = (1, False, False)" "holds (ONE_READER OR UPGRADABLE_BIT) = (1, True, False)"
    "holds rw_PARKED_BIT = (0, False, False)"
    by (subst 0(1) 0(2) 0(3) 0(4) 0(5), rule holds_enc, rule lt)+
qed

lemma enc_const_arith:
  "enc n w u wp p + ONE_READER = enc (Suc n) w u wp p"
  "enc n w False wp p + (ONE_READER OR UPGRADABLE_BIT) = enc (Suc n) w True wp p"
  "enc (Suc n) w u wp p - ONE_READER = enc n w u wp p"
  "enc (Suc n) w True wp p - (ONE_READER OR UPGRADABLE_BIT) = enc n w False wp p"
  "enc n True u wp p + (ONE_READER - WRITER_BIT) = enc (Suc n) False u wp p"
  "enc n w True wp p - UPGRADABLE_BIT = enc n w False wp p"
  "enc n True False wp p + ((ONE_READER OR UPGRADABLE_BIT) - WRITER_BIT) = enc (Suc n) False True wp p"
  "enc (Suc n) False True wp p - ((ONE_READER OR UPGRADABLE_BIT) - WRITER_BIT) = enc n True False wp p"
  "enc n True u wp p + (0 - WRITER_BIT) = enc n False u wp p"
  "enc n False u wp p + WRITER_BIT = enc n True u wp p"
proof -
  have c: "(16::usize) OR 4 = 20" "(16::usize) - 8 = 8" "(20::usize) - 8 = 12" by simp_all
  have z: "x + (0 - 8) = x - 8" for x :: usize by simp
  show "enc n w u wp p + ONE_READER = enc (Suc n) w u wp p"
    "enc n w False wp p + (ONE_READER OR UPGRADABLE_BIT) = enc (Suc n) w True wp p"
    "enc (Suc n) w u wp p - ONE_READER = enc n w u wp p"
    "enc (Suc n) w True wp p - (ONE_READER OR UPGRADABLE_BIT) = enc n w False wp p"
    "enc n True u wp p + (ONE_READER - WRITER_BIT) = enc (Suc n) False u wp p"
    "enc n w True wp p - UPGRADABLE_BIT = enc n w False wp p"
    "enc n True False wp p + ((ONE_READER OR UPGRADABLE_BIT) - WRITER_BIT) = enc (Suc n) False True wp p"
    "enc (Suc n) False True wp p - ((ONE_READER OR UPGRADABLE_BIT) - WRITER_BIT) = enc n True False wp p"
    "enc n True u wp p + (0 - WRITER_BIT) = enc n False u wp p"
    "enc n False u wp p + WRITER_BIT = enc n True u wp p"
    unfolding ONE_READER_def UPGRADABLE_BIT_def WRITER_BIT_def c z by (rule enc_arith)+
qed

text \<open>
  One lemma per update: when the lock is held as the update supposes, the new value is held as
  the code means it.
\<close>

lemma holds_update:
  assumes "holds s = (n, u, w)"
  shows "Suc n < 2 ^ 60 \<Longrightarrow> holds (s + ONE_READER) = (Suc n, u, w)"
    and "Suc n < 2 ^ 60 \<Longrightarrow> \<not> u \<Longrightarrow> holds (s + (ONE_READER OR UPGRADABLE_BIT)) = (Suc n, True, w)"
    and "n = Suc m \<Longrightarrow> holds (s - ONE_READER) = (m, u, w)"
    and "n = Suc m \<Longrightarrow> u \<Longrightarrow> holds (s - (ONE_READER OR UPGRADABLE_BIT)) = (m, False, w)"
    and "Suc n < 2 ^ 60 \<Longrightarrow> w \<Longrightarrow> holds (s + (ONE_READER - WRITER_BIT)) = (Suc n, u, False)"
    and "u \<Longrightarrow> holds (s - UPGRADABLE_BIT) = (n, False, w)"
    and "Suc n < 2 ^ 60 \<Longrightarrow> w \<Longrightarrow> \<not> u \<Longrightarrow>
      holds (s + ((ONE_READER OR UPGRADABLE_BIT) - WRITER_BIT)) = (Suc n, True, False)"
    and "n = Suc m \<Longrightarrow> u \<Longrightarrow> \<not> w \<Longrightarrow>
      holds (s - ((ONE_READER OR UPGRADABLE_BIT) - WRITER_BIT)) = (m, False, True)"
    and "w \<Longrightarrow> holds (s + (0 - WRITER_BIT)) = (n, u, False)"
    and "\<not> w \<Longrightarrow> holds (s + WRITER_BIT) = (n, u, True)"
proof -
  have n: "rds s = n" "upg s = u" "wrt s = w" using assms by (simp_all add: holds_def)
  have b: "n < 2 ^ 60" using rds_bound [of s] n by simp
  obtain wp p where s: "s = enc n w u wp p"
    by (rule that [of "wpk s" "prk s"]) (use enc_surj [of s] in \<open>simp only: n\<close>)
  note E = enc_const_arith
  show "Suc n < 2 ^ 60 \<Longrightarrow> holds (s + ONE_READER) = (Suc n, u, w)"
    by (simp only: s E holds_enc)
  show "Suc n < 2 ^ 60 \<Longrightarrow> \<not> u \<Longrightarrow> holds (s + (ONE_READER OR UPGRADABLE_BIT)) = (Suc n, True, w)"
    by (simp only: s E holds_enc)
  show "n = Suc m \<Longrightarrow> holds (s - ONE_READER) = (m, u, w)"
    using b by (simp only: s E holds_enc Suc_lessD)
  show "n = Suc m \<Longrightarrow> u \<Longrightarrow> holds (s - (ONE_READER OR UPGRADABLE_BIT)) = (m, False, w)"
    using b by (simp only: s E holds_enc Suc_lessD)
  show "Suc n < 2 ^ 60 \<Longrightarrow> w \<Longrightarrow> holds (s + (ONE_READER - WRITER_BIT)) = (Suc n, u, False)"
    by (simp only: s E holds_enc)
  show "u \<Longrightarrow> holds (s - UPGRADABLE_BIT) = (n, False, w)"
    using b by (simp only: s E holds_enc)
  show "Suc n < 2 ^ 60 \<Longrightarrow> w \<Longrightarrow> \<not> u \<Longrightarrow>
      holds (s + ((ONE_READER OR UPGRADABLE_BIT) - WRITER_BIT)) = (Suc n, True, False)"
    by (simp only: s E holds_enc)
  show "n = Suc m \<Longrightarrow> u \<Longrightarrow> \<not> w \<Longrightarrow>
      holds (s - ((ONE_READER OR UPGRADABLE_BIT) - WRITER_BIT)) = (m, False, True)"
    using b by (simp only: s E holds_enc Suc_lessD)
  show "w \<Longrightarrow> holds (s + (0 - WRITER_BIT)) = (n, u, False)"
    using b by (simp only: s E holds_enc)
  show "\<not> w \<Longrightarrow> holds (s + WRITER_BIT) = (n, u, True)"
    using b by (simp only: s E holds_enc)
qed

end
