(* ===== verification/RwLock_Local.thy ===== *)
theory RwLock_Local
  imports RwLock_Bits
begin

text \<open>
  What each access of the reader-writer lock does to the state word, from the lock the
  thread holds before to the one it holds after, and the laws of the parking machine for
  the program of the lock.
\<close>

section \<open>The program is a client of the lot\<close>

lemma rw_asleep_simps [simp]:
  "\<not> rw_asleep (acquired k timed)" "\<not> rw_asleep (after_fast k h)" "\<not> rw_asleep (back_to_prev u)"
  "\<not> rw_asleep (rw_calls c)" "\<not> rw_asleep (shared_calls c)" "\<not> rw_asleep (excl_calls c)"
  "\<not> rw_asleep (upg_calls c)" "\<not> rw_asleep (relock_upg b)"
  by (simp_all add: acquired_def after_fast_def back_to_prev_def rw_calls_def shared_calls_def
      excl_calls_def upg_calls_def relock_upg_def rw_api_defs split: kind.split how.split)

lemmas rw_defs = try_lock_shared_fast_load_def try_lock_shared_fast_cas_def try_lock_shared_slow_loop_def
  try_lock_upgradable_fast_load_def try_lock_upgradable_fast_cas_def try_lock_upgradable_slow_loop_def
  lock_exclusive_fast_def try_lock_iter_def lock_exclusive_try_def lock_shared_try_def lock_upgradable_try_def
  lock_common_blocked_def wait_for_readers_loop_def
  wait_for_readers_expired_def unlock_shared_fast_def unlock_exclusive_fast_def unlock_upgradable_load_def
  unlock_upgradable_cas_def unlock_upgradable_slow_loop_def rw_downgrade_def rw_downgrade_upgradable_def
  rw_downgrade_to_upgradable_def rw_upgrade_def rw_try_upgrade_def try_upgrade_slow_loop_def
  rw_bump_shared_def rw_bump_exclusive_def rw_bump_upgradable_def

lemma rw_atomic_awake:
  assumes "rw_client el a t l = Atomic f"
  shows "\<not> rw_asleep (snd (f c g))" and "\<not> rw_asleep l"
proof -
  show "\<not> rw_asleep l" using assms by (cases l) simp_all
  show "\<not> rw_asleep (snd (f c g))"
    using assms by (cases l) (auto simp: rw_defs atomic_simps Let_def split: option.splits kind.splits if_splits)
qed

interpretation rwlock: park_client "rw_client el a" rw_asleep for el a
proof unfold_locales
  fix t l
  show "rw_client el a t l = Atomic f \<Longrightarrow> rw_asleep (snd (f c g)) = rw_asleep l" for f c g
    using rw_atomic_awake [where l = l and f = f] by blast
  show "rw_client el a t l = ParkEnq k token validate li ls \<Longrightarrow> \<not> rw_asleep l \<and> \<not> rw_asleep li \<and> rw_asleep ls"
    for k token validate li ls by (cases l) auto
  show "rw_client el a t l = ParkSleep timed cb lu le \<Longrightarrow> rw_asleep l \<and> \<not> rw_asleep (lu tok) \<and> \<not> rw_asleep le"
    for timed cb lu le tok by (cases l) (auto simp: lock_common_unparked_def split: if_splits)
  show "rw_client el a t l = CallUnparkOne k cb cont \<Longrightarrow> rw_asleep (cont r) = rw_asleep l" for k cb cont r
    by (cases l) (auto split: if_splits)
  show "rw_client el a t l = CallUnparkAll k token cont \<Longrightarrow> rw_asleep (cont n) = rw_asleep l" for k token cont n
    by (cases l) auto
  show "rw_client el a t l = CallUnparkFilter k flt fs cb cont \<Longrightarrow> rw_asleep (cont r) = rw_asleep l"
    for k flt fs cb cont r by (cases l) (auto split: if_splits)
  show "rw_client el a t l = CallUnparkRequeue kf kt v cb cont \<Longrightarrow> rw_asleep (cont r) = rw_asleep l"
    for kf kt v cb cont r by (cases l) auto
qed

lemma upgradable_release_loop_last:
  "upgradable_release_loop hm xs state =
     (let g = last (state # xs) in (g, with_parked hm (g - (ONE_READER OR UPGRADABLE_BIT)), TOKEN_NORMAL))"
  by (induction xs arbitrary: state) (simp_all add: Let_def)

lemma upgradable_handoff_loop_last:
  assumes "\<forall>x\<in>set (state # xs). checked_add (x - (ONE_READER OR UPGRADABLE_BIT)) new_state \<noteq> None"
  shows "upgradable_handoff_loop new_state hm xs state = (let g = last (state # xs)
     in (g, with_parked hm (g - (ONE_READER OR UPGRADABLE_BIT) + new_state), TOKEN_HANDOFF))"
  using assms
proof (induction xs arbitrary: state)
  case Nil
  then show ?case by (auto simp: checked_add_def split: if_splits)
next
  case (Cons x xs)
  have "upgradable_handoff_loop new_state hm (x # xs) state = upgradable_handoff_loop new_state hm xs x"
    using Cons.prems by (subst upgradable_handoff_loop.simps) auto
  also have "\<dots> = (let g = last (x # xs) in (g, with_parked hm (g - (ONE_READER OR UPGRADABLE_BIT) + new_state), TOKEN_HANDOFF))"
    by (rule Cons.IH) (use Cons.prems in simp)
  finally show ?case by (simp del: upgradable_handoff_loop.simps)
qed

lemma upgradable_exchanges_atomic:
  assumes "force_fair \<or> be_fair result \<Longrightarrow>
      \<forall>x\<in>set (state # xs). checked_add (x - (ONE_READER OR UPGRADABLE_BIT)) new_state \<noteq> None"
  shows "unlock_upgradable_slow_exchanges force_fair new_state result xs state =
    (let g = last (state # xs) in (g, unlock_upgradable_slow_callback force_fair new_state result g))"
proof (cases "force_fair \<or> be_fair result")
  case True
  have "checked_add (last (state # xs) - (ONE_READER OR UPGRADABLE_BIT)) new_state \<noteq> None"
    using assms [OF True] last_in_set [of "state # xs"] by blast
  then show ?thesis using True upgradable_handoff_loop_last [OF assms [OF True]]
    by (auto simp: unlock_upgradable_slow_exchanges_def unlock_upgradable_slow_callback_def Let_def checked_add_def split: if_splits)
next
  case False
  then show ?thesis
    by (simp add: unlock_upgradable_slow_exchanges_def unlock_upgradable_slow_callback_def upgradable_release_loop_last Let_def)
qed

section \<open>Who holds what\<close>

text \<open>
  The hold of a thread at a program point: none, shared, upgradable, the writer bit while
  waiting for the readers to leave, exclusive.
\<close>

datatype cls = CN | CR | CU | CW | CX

primrec rw_class :: "rw_pc \<Rightarrow> cls" where
  "rw_class RwIdle = CN"
| "rw_class RwPanicked = CN"
| "rw_class RwShared = CR"
| "rw_class RwUpgradable = CU"
| "rw_class RwExclusive = CX"
| "rw_class (SharedFast a b) = CN"
| "rw_class (SharedFastCas a b c) = CN"
| "rw_class (SharedTryEntry a) = CN"
| "rw_class (SharedTryLoop a b) = CN"
| "rw_class (UpgFast a) = CN"
| "rw_class (UpgFastCas a b) = CN"
| "rw_class UpgTryEntry = CN"
| "rw_class (UpgTryLoop a) = CN"
| "rw_class (ExclFast a) = CN"
| "rw_class (CommonEntry a b) = CN"
| "rw_class (CommonTry a b c d) = CN"
| "rw_class (CommonTryReload a b c) = CN"
| "rw_class (CommonBlocked a b c d) = CN"
| "rw_class (CommonPark a b) = CN"
| "rw_class (CommonAsleep a b) = CN"
| "rw_class (WaitReaders a b) = CW"
| "rw_class (WaitLoop a b c d) = CW"
| "rw_class (WaitPark a b c) = CW"
| "rw_class (WaitAsleep a b c) = CW"
| "rw_class (WaitReload a b c) = CW"
| "rw_class (WaitExpired a) = CW"
| "rw_class (WaitWake a) = (if a then CU else CN)"
| "rw_class (UnlockShared a) = CR"
| "rw_class (UnlockSharedSlow a) = CN"
| "rw_class (UnlockExcl a) = CX"
| "rw_class (UnlockExclSlow a b) = CX"
| "rw_class UnlockUpg = CU"
| "rw_class (UnlockUpgCas a) = CU"
| "rw_class (UnlockUpgSlowEntry a b) = CU"
| "rw_class (UnlockUpgSlowLoop a b c) = CU"
| "rw_class (UnlockUpgWake a b) = CU"
| "rw_class DowngradeExcl = CX"
| "rw_class DowngradeUpg = CU"
| "rw_class DowngradeToUpg = CX"
| "rw_class DowngradeWake = CR"
| "rw_class DowngradeToUpgWake = CU"
| "rw_class (UpgradeStart a) = CU"
| "rw_class TryUpgrade = CU"
| "rw_class TryUpgradeSlowEntry = CU"
| "rw_class (TryUpgradeSlowLoop a) = CU"
| "rw_class BumpShared = CR"
| "rw_class BumpExcl = CX"
| "rw_class BumpUpg = CU"

definition kind_class :: "kind \<Rightarrow> cls" where
  "kind_class k = (case k of KShared _ \<Rightarrow> CR | KUpgradable \<Rightarrow> CU | KExclusive \<Rightarrow> CW)"

definition reads :: "cls \<Rightarrow> bool" where "reads c \<longleftrightarrow> c = CR \<or> c = CU"
definition writes :: "cls \<Rightarrow> bool" where "writes c \<longleftrightarrow> c = CW \<or> c = CX"

lemma cls_simps [simp]:
  "\<not> reads CN" "reads CR" "reads CU" "\<not> reads CW" "\<not> reads CX"
  "\<not> writes CN" "\<not> writes CR" "\<not> writes CU" "writes CW" "writes CX"
  by (simp_all add: reads_def writes_def)

lemma writes_not_reads [simp]: "writes c \<Longrightarrow> \<not> reads c"
  by (auto simp: reads_def writes_def)

lemma class_simps [simp]:
  "rw_class (acquired k timed) = kind_class k" "rw_class (after_fast k h) = CN"
  "rw_class (back_to_prev u) = (if u then CU else CN)" "rw_class (rw_calls c) = CN"
  "rw_class (shared_calls c) = CR" "rw_class (excl_calls c) = CX" "rw_class (upg_calls c) = CU"
  "rw_class (relock_upg b) = CN"
  by (simp_all add: acquired_def after_fast_def back_to_prev_def rw_calls_def shared_calls_def
      excl_calls_def upg_calls_def relock_upg_def rw_api_defs kind_class_def split: kind.split how.split)

text \<open>What a thread knows of the word from the hold it has.\<close>

definition hold_ok :: "cls \<Rightarrow> usize \<Rightarrow> bool" where
  "hold_ok c g \<longleftrightarrow> (reads c \<longrightarrow> 0 < rds g) \<and> (c = CU \<longrightarrow> upg g) \<and> (writes c \<longrightarrow> wrt g)
     \<and> \<not> (upg g \<and> wrt g)"

text \<open>What a thread remembers at a program point.\<close>

definition point_ok :: "rw_pc \<Rightarrow> usize \<Rightarrow> bool" where
  "point_ok l g \<longleftrightarrow> (rw_class l = CX \<longrightarrow> rds g = 0)
     \<and> (\<forall>r h state. l = SharedFastCas r h state \<longrightarrow> \<not> shared_blocked r state)
     \<and> (\<forall>h state. l = UpgFastCas h state \<longrightarrow> \<not> upg_blocked state)
     \<and> (\<forall>u timed sw state. l = WaitLoop u timed sw state \<longrightarrow> rds state = 0 \<longrightarrow> rds g = 0)"

text \<open>The move from one hold to another; other threads' writer bit keeps new readers out.\<close>

definition move :: "cls \<Rightarrow> cls \<Rightarrow> usize \<Rightarrow> usize \<Rightarrow> bool" where
  "move c c' g g' \<longleftrightarrow> rds g' + of_bool (reads c) = rds g + of_bool (reads c')
     \<and> (of_bool (upg g') + of_bool (c = CU) :: nat) = of_bool (upg g) + of_bool (c' = CU)
     \<and> (of_bool (wrt g') + of_bool (writes c) :: nat) = of_bool (wrt g) + of_bool (writes c')
     \<and> \<not> (upg g' \<and> wrt g') \<and> (wrt g \<and> \<not> writes c \<and> rds g = 0 \<longrightarrow> rds g' = 0)"

lemma holds_iff: "holds g = (n, u, w) \<longleftrightarrow> rds g = n \<and> upg g = u \<and> wrt g = w"
  by (auto simp: holds_def)

lemma holds_self: "holds g = (rds g, upg g, wrt g)"
  by (simp add: holds_def)

lemma move_parked:
  assumes "\<not> (upg g \<and> wrt g)" and "holds g' = holds g" and "reads c = reads c'" "(c = CU) = (c' = CU)" "writes c = writes c'"
  shows "move c c' g g'"
  using assms by (auto simp: move_def holds_def)

lemmas update = holds_update [OF holds_self, unfolded holds_iff]

lemma move_acquire:
  shows "Suc (rds g) < 2 ^ 60 \<Longrightarrow> \<not> (upg g \<and> wrt g) \<Longrightarrow> \<not> shared_blocked r g \<Longrightarrow> move CN CR g (g + ONE_READER)"
    and "Suc (rds g) < 2 ^ 60 \<Longrightarrow> \<not> upg_blocked g \<Longrightarrow> move CN CU g (g + (ONE_READER OR UPGRADABLE_BIT))"
    and "\<not> upg_blocked g \<Longrightarrow> move CN CW g (g OR WRITER_BIT)"
    and "move CN CR 0 ONE_READER" and "move CN CX 0 WRITER_BIT"
  using update(1,2) [of g] holds_writer [of g, unfolded holds_iff] holds_consts [unfolded holds_iff]
  by (auto simp: move_def shared_blocked_def upg_blocked_def)

lemma move_release:
  shows "hold_ok CR g \<Longrightarrow> move CR CN g (g - ONE_READER)"
    and "hold_ok CU g \<Longrightarrow> move CU CN g (g - (ONE_READER OR UPGRADABLE_BIT))"
    and "hold_ok CU g \<Longrightarrow> move CU CR g (g - UPGRADABLE_BIT)"
    and "move CX CN WRITER_BIT 0"
    and "hold_ok CW g \<Longrightarrow> move CW CN g (g + (0 - WRITER_BIT))"
    and "Suc (rds g) < 2 ^ 60 \<Longrightarrow> hold_ok CX g \<Longrightarrow> move CX CR g (g + (ONE_READER - WRITER_BIT))"
    and "Suc (rds g) < 2 ^ 60 \<Longrightarrow> hold_ok c g \<Longrightarrow> writes c \<Longrightarrow>
      move c CU g (g + ((ONE_READER OR UPGRADABLE_BIT) - WRITER_BIT))"
  using update(3,4) [of g "rds g - 1"] update(5-7,9) [of g] holds_consts [unfolded holds_iff]
  by (auto simp: move_def hold_ok_def)

lemma move_upgrade:
  assumes "hold_ok CU g"
  shows "writes c \<Longrightarrow> move CU c g (g - ((ONE_READER OR UPGRADABLE_BIT) - WRITER_BIT))"
    and "rds (g - ((ONE_READER OR UPGRADABLE_BIT) - WRITER_BIT)) = rds g - 1"
    and "g - (ONE_READER OR UPGRADABLE_BIT) + WRITER_BIT = g - ((ONE_READER OR UPGRADABLE_BIT) - WRITER_BIT)"
  using assms update(8) [of g "rds g - 1"] by (auto simp: move_def hold_ok_def)

definition step_ok :: "rw_pc \<Rightarrow> usize \<Rightarrow> usize \<times> rw_pc \<Rightarrow> bool" where
  "step_ok l g r \<longleftrightarrow> move (rw_class l) (rw_class (snd r)) g (fst r) \<and> point_ok (snd r) (fst r)"

lemma point_ok_trivial:
  assumes "rw_class l \<noteq> CX" "\<And>r h state. l \<noteq> SharedFastCas r h state" "\<And>h state. l \<noteq> UpgFastCas h state"
    "\<And>u timed sw state. l \<noteq> WaitLoop u timed sw state"
  shows "point_ok l g"
  using assms by (simp add: point_ok_def)

lemma point_ok_simps [simp]:
  "point_ok (acquired k timed) g" "point_ok (after_fast k h) g" "point_ok (back_to_prev u) g"
  "point_ok (rw_calls c) g" "point_ok (shared_calls c) g" "point_ok (upg_calls c) g" "point_ok (relock_upg b) g"
  by (simp_all add: point_ok_def acquired_def after_fast_def back_to_prev_def rw_calls_def shared_calls_def
      upg_calls_def relock_upg_def rw_api_defs split: kind.split how.split)

lemma point_ok_exclusive [simp]:
  "point_ok RwExclusive g \<longleftrightarrow> rds g = 0" "point_ok (UnlockExclSlow fair relock) g \<longleftrightarrow> rds g = 0"
  "point_ok (SharedFastCas r h state) g \<longleftrightarrow> \<not> shared_blocked r state"
  "point_ok (UpgFastCas h state) g \<longleftrightarrow> \<not> upg_blocked state"
  "point_ok (WaitLoop u timed sw state) g \<longleftrightarrow> (rds state = 0 \<longrightarrow> rds g = 0)"
  by (simp_all add: point_ok_def)

lemma point_ok_excl: "rds g = 0 \<Longrightarrow> point_ok (excl_calls c) g"
  by (simp add: point_ok_def excl_calls_def rw_api_defs)

lemma checked_add_SomeD: "checked_add a b = Some c \<Longrightarrow> c = a + b"
  by (simp add: checked_add_def split: if_splits)

lemma step_ok_read:
  assumes "hold_ok (rw_class l) g" "rw_class l' = rw_class l" "point_ok l' g"
  shows "step_ok l g (g, l')"
  using assms by (auto simp: step_ok_def hold_ok_def intro: move_parked)

lemma shared_ops_ok:
  assumes b: "Suc (rds g) < 2 ^ 60" and h: "hold_ok CN g"
  shows "\<not> shared_blocked r state \<Longrightarrow>
      step_ok (SharedFastCas r h state) g (try_lock_shared_fast_cas el r h state c g)"
    and "step_ok (SharedTryLoop r state) g (try_lock_shared_slow_loop el r state c g)"
    and "step_ok (CommonTry (KShared r) timed sw state) g (try_lock_iter el (KShared r) timed sw state c g)"
  using b h move_acquire(1) [OF b, of r] move_acquire(4)
    move_parked [of g g CN CN]
  by (auto simp: rw_defs atomic_simps step_ok_def hold_ok_def kind_class_def point_ok_trivial
      dest!: checked_add_SomeD split: option.splits if_splits)

lemma upgradable_ops_ok:
  assumes b: "Suc (rds g) < 2 ^ 60" and h: "hold_ok CN g"
  shows "\<not> upg_blocked state \<Longrightarrow>
      step_ok (UpgFastCas h state) g (try_lock_upgradable_fast_cas h state c g)"
    and "step_ok (UpgTryLoop state) g (try_lock_upgradable_slow_loop state c g)"
    and "step_ok (CommonTry KUpgradable timed sw state) g (try_lock_iter el KUpgradable timed sw state c g)"
  using b h move_acquire(2) [OF b] move_parked [of g g CN CN]
  by (auto simp: rw_defs atomic_simps step_ok_def hold_ok_def kind_class_def point_ok_trivial
      dest!: checked_add_SomeD split: option.splits if_splits)

lemma exclusive_ops_ok:
  assumes h: "hold_ok CN g"
  shows "step_ok (ExclFast h) g (lock_exclusive_fast h c g)"
    and "step_ok (CommonTry KExclusive timed sw state) g (try_lock_iter el KExclusive timed sw state c g)"
  using h move_acquire(3) [of g] move_acquire(5) move_parked [of g g CN CN] holds_consts(2) [unfolded holds_iff]
  by (auto simp: rw_defs atomic_simps step_ok_def hold_ok_def kind_class_def point_ok_trivial
      split: option.splits if_splits)

lemma common_blocked_ok:
  assumes h: "hold_ok CN g"
  shows "step_ok (CommonBlocked k timed sw state) g (lock_common_blocked k timed sw state c g)"
  using h move_parked [of g g CN CN] move_parked [of g "g OR rw_PARKED_BIT" CN CN]
  by (auto simp: rw_defs atomic_simps step_ok_def hold_ok_def point_ok_def split: if_splits)

lemma wait_loop_ok:
  assumes h: "hold_ok CW g" and z: "rds state = 0 \<Longrightarrow> rds g = 0"
  shows "step_ok (WaitLoop u timed sw state) g (wait_for_readers_loop u timed sw state c g)"
  using h z move_parked [of g g CW CW] move_parked [of g g CW CX]
    move_parked [of g "g OR WRITER_PARKED_BIT" CW CW]
  by (auto simp: rw_defs atomic_simps step_ok_def hold_ok_def point_ok_def split: if_splits)

lemma wait_expired_ok:
  assumes b: "Suc (rds g) < 2 ^ 60" and h: "hold_ok CW g"
  shows "step_ok (WaitExpired u) g (wait_for_readers_expired u g)"
  using move_release(5) [OF h] move_release(7) [OF b h]
  by (auto simp: rw_defs atomic_simps step_ok_def prev_value_def point_ok_trivial split: if_splits)

lemma unlock_ops_ok:
  shows "hold_ok CR g \<Longrightarrow> step_ok (UnlockShared b) g (unlock_shared_fast el b g)"
    and "hold_ok CX g \<Longrightarrow> rds g = 0 \<Longrightarrow> step_ok (UnlockExcl fair) g (unlock_exclusive_fast fair g)"
    and "hold_ok CU g \<Longrightarrow> step_ok (UnlockUpgCas state) g (unlock_upgradable_cas state c g)"
    and "hold_ok CU g \<Longrightarrow> step_ok (UnlockUpgSlowLoop fair b state) g (unlock_upgradable_slow_loop fair b state c g)"
  using move_release(1,2) [of g] move_release(4) move_parked [of g g CU CU] move_parked [of g g CX CX]
  by (auto simp: rw_defs atomic_simps step_ok_def hold_ok_def point_ok_trivial split: if_splits)

lemma downgrade_ops_ok:
  assumes b: "Suc (rds g) < 2 ^ 60"
  shows "hold_ok CX g \<Longrightarrow> step_ok DowngradeExcl g (rw_downgrade g)"
    and "hold_ok CU g \<Longrightarrow> step_ok DowngradeUpg g (rw_downgrade_upgradable g)"
    and "hold_ok CX g \<Longrightarrow> step_ok DowngradeToUpg g (rw_downgrade_to_upgradable g)"
  using move_release(3) [of g] move_release(6,7) [OF b]
  by (auto simp: rw_defs atomic_simps step_ok_def point_ok_trivial split: if_splits)

lemma upgrade_ops_ok:
  assumes h: "hold_ok CU g"
  shows "step_ok (UpgradeStart timed) g (rw_upgrade timed g)"
    and "step_ok TryUpgrade g (rw_try_upgrade c g)"
    and "step_ok (TryUpgradeSlowLoop state) g (try_upgrade_slow_loop state c g)"
proof -
  note u = move_upgrade [OF h]
  show "step_ok (UpgradeStart timed) g (rw_upgrade timed g)"
    using u
    by (auto simp: rw_defs atomic_simps step_ok_def point_ok_trivial)
  have "move CU CX (ONE_READER OR UPGRADABLE_BIT) WRITER_BIT"
    using holds_consts [unfolded holds_iff] by (simp add: move_def)
  then show "step_ok TryUpgrade g (rw_try_upgrade c g)"
    using h move_parked [of g g CU CU] holds_consts(2) [unfolded holds_iff]
    by (auto simp: rw_defs atomic_simps step_ok_def hold_ok_def point_ok_trivial)
  show "step_ok (TryUpgradeSlowLoop state) g (try_upgrade_slow_loop state c g)"
  proof (cases "state = g \<and> \<not> spurious c \<and> rds g = 1")
    case True
    then have "try_upgrade_slow_loop state c g = (g - ((ONE_READER OR UPGRADABLE_BIT) - WRITER_BIT), RwExclusive)"
      unfolding u(3) [symmetric] by (simp add: try_upgrade_slow_loop_def atomic_simps)
    then show ?thesis using True u(1,2) by (simp add: step_ok_def)
  next
    case False
    then show ?thesis using h move_parked [of g g CU CU]
      by (auto simp: rw_defs atomic_simps step_ok_def hold_ok_def point_ok_trivial)
  qed
qed

lemma rw_local_ok:
  assumes l: "rw_client el a t l = Atomic f" and b: "Suc (rds g) < 2 ^ 60"
    and h: "hold_ok (rw_class l) g" and p: "point_ok l g"
  shows "step_ok l g (f c g)"
proof -
  have x: "rw_class l = CX \<Longrightarrow> rds g = 0" using p by (simp add: point_ok_def)
  show ?thesis
  proof (cases l)
    case (CommonTry k timed sw state)
    then show ?thesis using l h shared_ops_ok(3) [OF b] upgradable_ops_ok(3) [OF b] exclusive_ops_ok(2)
      by (cases k) auto
  next
    case (SharedFastCas r h state)
    then show ?thesis using l h p shared_ops_ok(1) [OF b] by auto
  next
    case (SharedTryLoop r state)
    then show ?thesis using l h p shared_ops_ok(2) [OF b] by auto
  next
    case (UpgFastCas h state)
    then show ?thesis using l h p upgradable_ops_ok(1) [OF b] by auto
  next
    case (UpgTryLoop state)
    then show ?thesis using l h p upgradable_ops_ok(2) [OF b] by auto
  next
    case (ExclFast h)
    then show ?thesis using l h p exclusive_ops_ok(1) by auto
  next
    case (CommonBlocked k timed sw state)
    then show ?thesis using l h p common_blocked_ok by auto
  next
    case (WaitLoop u timed sw state)
    then show ?thesis using l h p wait_loop_ok by auto
  next
    case (WaitExpired u)
    then show ?thesis using l h p wait_expired_ok [OF b] by auto
  next
    case (UnlockShared relock)
    then show ?thesis using l h p unlock_ops_ok(1) by auto
  next
    case (UnlockExcl fair)
    then show ?thesis using l h x unlock_ops_ok(2) by auto
  next
    case (UnlockUpgCas state)
    then show ?thesis using l h p unlock_ops_ok(3) by auto
  next
    case (UnlockUpgSlowLoop fair relock state)
    then show ?thesis using l h p unlock_ops_ok(4) by auto
  next
    case DowngradeExcl
    then show ?thesis using l h p downgrade_ops_ok(1) [OF b] by auto
  next
    case DowngradeUpg
    then show ?thesis using l h p downgrade_ops_ok(2) [OF b] by auto
  next
    case DowngradeToUpg
    then show ?thesis using l h p downgrade_ops_ok(3) [OF b] by auto
  next
    case (UpgradeStart timed)
    then show ?thesis using l h p upgrade_ops_ok(1) by auto
  next
    case TryUpgrade
    then show ?thesis using l h p upgrade_ops_ok(2) by auto
  next
    case (TryUpgradeSlowLoop state)
    then show ?thesis using l h p upgrade_ops_ok(3) by auto
  qed (use l h x in \<open>auto simp: rw_defs point_ok_excl intro!: step_ok_read intro: point_ok_trivial split: if_splits\<close>)
qed

end
