(* ===== verification/RwLock_Safety.thy ===== *)
theory RwLock_Safety
  imports RwLock_Local
begin

text \<open>
  Exclusion for the reader-writer lock over every interleaving: the reader count and the
  flags of the state word are exactly the holds of the threads, a grant made on behalf of a
  sleeping thread included.
\<close>

section \<open>Counting holds\<close>

definition counts :: "(tid \<Rightarrow> cls) \<Rightarrow> nat \<times> bool \<times> bool \<Rightarrow> bool" where
  "counts f h \<longleftrightarrow> (case h of (n, u, w) \<Rightarrow> finite {t. f t \<noteq> CN} \<and> card {t. reads (f t)} = n
     \<and> card {t. f t = CU} = of_bool u \<and> card {t. writes (f t)} = of_bool w \<and> \<not> (u \<and> w))"

lemma finite_class:
  assumes "finite {t. f t \<noteq> CN}" and "\<not> P CN"
  shows "finite {t. P (f t)}"
  using assms by (auto intro: finite_subset [of _ "{t. f t \<noteq> CN}"])

lemma counts_ne: "card A = of_bool b \<Longrightarrow> finite A \<Longrightarrow> t \<in> A \<Longrightarrow> b \<and> A = {t}"
  by (cases b) (auto simp: card_1_singleton_iff)

lemma counts_fin:
  assumes "counts f (n, u, w)"
  shows "finite {t. reads (f t)}" "finite {t. f t = CU}" "finite {t. writes (f t)}"
  using assms finite_class [of f reads] finite_class [of f "\<lambda>c. c = CU"] finite_class [of f writes]
  by (simp_all add: counts_def)

lemma counts_hold_ok:
  assumes "counts f (holds g)"
  shows "hold_ok (f t) g"
proof -
  note c = assms [unfolded holds_self [of g]]
  note f = counts_fin [OF c]
  have "reads (f t) \<Longrightarrow> 0 < rds g" using c f(1) card_gt_0_iff [of "{t. reads (f t)}"] by (auto simp: counts_def)
  moreover have "f t = CU \<Longrightarrow> upg g" using c f(2) counts_ne [of "{t. f t = CU}" "upg g" t] by (simp add: counts_def)
  moreover have "writes (f t) \<Longrightarrow> wrt g" using c f(3) counts_ne [of "{t. writes (f t)}" "wrt g" t] by (simp add: counts_def)
  ultimately show ?thesis using c by (simp add: hold_ok_def counts_def)
qed

lemma counts_unique:
  assumes "counts f (n, u, w)"
  shows "writes (f s) \<Longrightarrow> writes (f t) \<Longrightarrow> s = t" and "f s = CU \<Longrightarrow> f t = CU \<Longrightarrow> s = t"
    and "f s = CU \<Longrightarrow> \<not> writes (f t)"
proof -
  note f = counts_fin [OF assms] and c = assms [unfolded counts_def, simplified]
  note W = counts_ne [of "{t. writes (f t)}" w] and U = counts_ne [of "{t. f t = CU}" u]
  show "s = t" if "writes (f s)" "writes (f t)" using W [of s] W [of t] that f c by auto
  show "s = t" if "f s = CU" "f t = CU" using U [of s] U [of t] that f c by auto
  show "\<not> writes (f t)" if "f s = CU" using U [of s] W [of t] that f c by auto
qed

lemma counts_bound:
  assumes "counts f (holds g)" and "\<And>t. N \<le> t \<Longrightarrow> f t = CN"
  shows "rds g \<le> N"
proof -
  have "{t. reads (f t)} \<subseteq> {..<N}"
  proof
    fix t
    assume "t \<in> {t. reads (f t)}"
    then have "f t \<noteq> CN" by auto
    then show "t \<in> {..<N}" using assms(2) [of t] by (cases "N \<le> t") auto
  qed
  then have "card {t. reads (f t)} \<le> N" using card_mono [of "{..<N}"] by fastforce
  then show ?thesis using assms(1) by (simp add: counts_def holds_def)
qed

lemma card_upd:
  assumes "finite {t. P (f t)}"
  shows "card {u. P ((f(t := c)) u)} + of_bool (P (f t)) = card {u. P (f u)} + of_bool (P c)"
proof -
  define A where "A = {u. P (f u)}"
  have e: "{u. P ((f(t := c)) u)} = (if P c then insert t (A - {t}) else A - {t})" by (auto simp: A_def)
  have "finite A" using assms by (simp add: A_def)
  then have d: "card (A - {t}) + of_bool (t \<in> A) = card A"
    using card_Suc_Diff1 [of A t] by (cases "t \<in> A") simp_all
  have "t \<in> A \<longleftrightarrow> P (f t)" by (simp add: A_def)
  then show ?thesis using \<open>finite A\<close> d unfolding e A_def [symmetric] by (simp add: insert_absorb)
qed

lemma counts_move:
  assumes c: "counts f (holds g)" and m: "move (f t) c g g'"
  shows "counts (f(t := c)) (holds g')"
proof -
  note c' = c [unfolded holds_self [of g]] 
  note f = counts_fin [OF c'] and c'' = c' [unfolded counts_def, simplified]
  have "finite {u. (f(t := c)) u \<noteq> CN}"
    by (rule finite_subset [of _ "insert t {u. f u \<noteq> CN}"]) (use c'' in auto)
  then show ?thesis
    using c'' m card_upd [of reads f t c] card_upd [of "\<lambda>c. c = CU" f t c] card_upd [of writes f t c] f
    by (auto simp: counts_def holds_self move_def)
qed

lemma card_grant:
  assumes "finite {t. P (f t)}" and "distinct ws" and "\<And>u. u \<in> set ws \<Longrightarrow> f u = CN" and "\<not> P CN"
  shows "card {u. P (if u \<in> set ws then kc u else f u)} = card {u. P (f u)} + length (filter (\<lambda>u. P (kc u)) ws)"
proof -
  have "{u. P (if u \<in> set ws then kc u else f u)} = {u. P (f u)} \<union> set (filter (\<lambda>u. P (kc u)) ws)"
    using assms(3,4) by auto
  moreover have "{u. P (f u)} \<inter> set (filter (\<lambda>u. P (kc u)) ws) = {}" using assms(3,4) by auto
  ultimately show ?thesis
    using assms(1,2) by (simp add: card_Un_disjoint distinct_card [symmetric] del: set_filter)
qed

lemma counts_grant:
  assumes c: "counts f (n, u, w)" and ws: "distinct ws" "\<And>t. t \<in> set ws \<Longrightarrow> f t = CN"
    and n: "n' = n + length (filter (\<lambda>t. reads (kc t)) ws)"
    and u: "of_bool u' = of_bool u + length (filter (\<lambda>t. kc t = CU) ws)"
    and w: "of_bool w' = of_bool w + length (filter (\<lambda>t. writes (kc t)) ws)" and x: "\<not> (u' \<and> w')"
  shows "counts (\<lambda>t. if t \<in> set ws then kc t else f t) (n', u', w')"
proof -
  note fin = counts_fin [OF c] and c' = c [unfolded counts_def, simplified]
  have "finite {t. (if t \<in> set ws then kc t else f t) \<noteq> CN}"
    by (rule finite_subset [of _ "set ws \<union> {u. f u \<noteq> CN}"]) (use c' in auto)
  then show ?thesis
    using c' x card_grant [of reads f ws kc, OF fin(1) ws] card_grant [of "\<lambda>c. c = CU" f ws kc, OF fin(2) ws]
      card_grant [of writes f ws kc, OF fin(3) ws] n u w
    by (simp add: counts_def)
qed

section \<open>The filter grants what can be held together\<close>

lemma kind_token_enc:
  "kind_token (KShared r) = ONE_READER" "kind_token KExclusive = WRITER_BIT"
  "kind_token KUpgradable = ONE_READER OR UPGRADABLE_BIT"
  by (simp_all add: kind_token_def rw_consts)

lemma wake_filter_enc:
  assumes "n < 2 ^ 60"
  shows "wake_filter (enc n w u False False) (kind_token k) = (if w then (enc n w u False False, Stop)
    else if \<not> (kind_class k = CR) \<and> u then (enc n w u False False, Skip)
    else (case k of KShared _ \<Rightarrow> enc (Suc n) False u False False | KUpgradable \<Rightarrow> enc (Suc n) False True False False
            | KExclusive \<Rightarrow> enc n True u False False, Unpark))"
proof -
  have "WRITER_BIT \<noteq> 0" by (simp add: WRITER_BIT_def)
  then show ?thesis
    using assms holds_consts(2-4) [unfolded holds_iff] by (cases k; cases w; cases u)
    (simp_all add: wake_filter_def kind_token_enc enc_decode enc_const_arith kind_class_def)
qed

lemma wake_filter_grants:
  assumes "filter_run wake_filter tok (\<lambda>_. True) fs q = (fs', ws, rs, m)"
    and "fs = enc n w u False False" and "\<And>t. t \<in> set q \<Longrightarrow> tok t = kind_token (kd t)"
    and "n + length q < 2 ^ 60" and "\<not> (u \<and> w)"
  shows "\<exists>n' u' w'. fs' = enc n' w' u' False False \<and> \<not> (u' \<and> w')
    \<and> n' = n + length (filter (\<lambda>t. reads (kind_class (kd t))) ws)
    \<and> of_bool u' = of_bool u + length (filter (\<lambda>t. kind_class (kd t) = CU) ws)
    \<and> of_bool w' = of_bool w + length (filter (\<lambda>t. writes (kind_class (kd t))) ws)"
  using assms
proof (induction q arbitrary: fs n u w fs' ws rs m)
  case Nil
  then show ?case by (intro exI [of _ n] exI [of _ u] exI [of _ w]) simp
next
  case (Cons t q)
  have tok: "tok t = kind_token (kd t)" "\<And>v. v \<in> set q \<Longrightarrow> tok v = kind_token (kd v)" using Cons.prems(3) by auto
  have n: "n < 2 ^ 60" "n + length q < 2 ^ 60" "Suc n + length q < 2 ^ 60" using Cons.prems(4) by simp_all
  note flt = wake_filter_enc [OF n(1), of w u "kd t"]
  note run = Cons.prems(1) [unfolded Cons.prems(2) filter_run.simps tok(1) flt]
  consider "w" | "\<not> w" "kind_class (kd t) \<noteq> CR" "u" | "\<not> w" "kind_class (kd t) = CR \<or> \<not> u" by blast
  then show ?case
  proof cases
    case 1
    then have "fs' = enc n w u False False" "ws = []" using run by simp_all
    then show ?thesis using Cons.prems(5) by (intro exI [of _ n] exI [of _ u] exI [of _ w]) simp
  next
    case 2
    obtain f2 us rs' m' where r: "filter_run wake_filter tok (\<lambda>_. True) (enc n w u False False) q = (f2, us, rs', m')"
      by (metis prod_cases4)
    have "fs' = f2" "ws = us" using run r 2 by simp_all
    then show ?thesis using Cons.IH [OF r refl tok(2) n(2) Cons.prems(5)] by simp
  next
    case 3
    define n1 u1 w1 where "n1 = n + of_bool (reads (kind_class (kd t)))" and "u1 = (u \<or> kind_class (kd t) = CU)"
      and "w1 = writes (kind_class (kd t))"
    have e: "(case kd t of KShared _ \<Rightarrow> enc (Suc n) False u False False | KUpgradable \<Rightarrow> enc (Suc n) False True False False
            | KExclusive \<Rightarrow> enc n True u False False) = enc n1 w1 u1 False False"
      by (cases "kd t") (simp_all add: n1_def u1_def w1_def kind_class_def)
    obtain f2 us rs' m' where r: "filter_run wake_filter tok (\<lambda>_. True) (enc n1 w1 u1 False False) q = (f2, us, rs', m')"
      by (metis prod_cases4)
    have ws: "fs' = f2" "ws = t # us" using run 3 by (auto simp: e r)
    have x: "\<not> (u1 \<and> w1)" "n1 + length q < 2 ^ 60"
      using 3 n by (auto simp: u1_def w1_def n1_def kind_class_def split: kind.splits)
    have o: "of_bool u1 = (of_bool u + of_bool (kind_class (kd t) = CU) :: nat)"
      "of_bool w1 = (of_bool w + of_bool (writes (kind_class (kd t))) :: nat)"
      using 3 by (auto simp: u1_def w1_def)
    from Cons.IH [OF r refl tok(2) x(2,1)] obtain n' u' w' where
      i: "f2 = enc n' w' u' False False" "\<not> (u' \<and> w')"
        "n' = n1 + length (filter (\<lambda>t. reads (kind_class (kd t))) us)"
        "of_bool u' = of_bool u1 + length (filter (\<lambda>t. kind_class (kd t) = CU) us)"
        "of_bool w' = of_bool w1 + length (filter (\<lambda>t. writes (kind_class (kd t))) us)"
      by blast
    show ?thesis
      unfolding ws
      by (rule exI [of _ n'], rule exI [of _ u'], rule exI [of _ w'], intro conjI, rule i(1), rule i(2))
        (use i(3-5) in \<open>simp_all add: n1_def o\<close>)
  qed
qed

section \<open>The invariant\<close>

text \<open>
  A sleeping thread that was woken with \<open>TOKEN_HANDOFF\<close> holds the lock already. Threads with
  numbers from \<open>N\<close> on never run: the count of readers fits the word as long as there are
  fewer than \<open>2 ^ 59\<close> threads.
\<close>

definition asleep_kind :: "rw_pc \<Rightarrow> kind option" where
  "asleep_kind l = (case l of CommonAsleep k timed \<Rightarrow> Some k | _ \<Rightarrow> None)"

definition rw_cls :: "(usize, rw_pc) world \<Rightarrow> tid \<Rightarrow> cls" where
  "rw_cls w t = (case asleep_kind (pc w t) of
     Some k \<Rightarrow> if \<not> parkedf w t \<and> utok w t = TOKEN_HANDOFF then kind_class k else CN
   | None \<Rightarrow> rw_class (pc w t))"

definition sleep_ok :: "usize \<Rightarrow> (usize, rw_pc) world \<Rightarrow> tid \<Rightarrow> bool" where
  "sleep_ok a w t \<longleftrightarrow> (\<forall>k. asleep_kind (pc w t) = Some k \<longrightarrow> ptok w t = kind_token k \<and> wkey w t = a)
     \<and> (\<forall>u timed sw. pc w t = WaitAsleep u timed sw \<longrightarrow> wkey w t = a + 1)"

definition rw_inv :: "nat \<Rightarrow> usize \<Rightarrow> (usize, rw_pc) world \<Rightarrow> bool" where
  "rw_inv N a w \<longleftrightarrow> (\<forall>t. N \<le> t \<longrightarrow> loc w t = Run RwIdle) \<and> counts (rw_cls w) (holds (shared w))
     \<and> (\<forall>t. point_ok (pc w t) (shared w)) \<and> (\<forall>t. sleep_ok a w t)"

lemma rw_invD:
  assumes "rw_inv N a w"
  shows "N \<le> t \<Longrightarrow> loc w t = Run RwIdle" and "counts (rw_cls w) (holds (shared w))"
    and "point_ok (pc w t) (shared w)" and "sleep_ok a w t"
  using assms by (simp_all add: rw_inv_def)

lemma asleep_kind_iff: "asleep_kind l = Some k \<longleftrightarrow> (\<exists>timed. l = CommonAsleep k timed)"
  by (auto simp: asleep_kind_def split: rw_pc.splits)

lemma asleep_kind_awake: "\<not> rw_asleep l \<Longrightarrow> asleep_kind l = None"
  by (cases l) (simp_all add: asleep_kind_def)

lemma rw_cls_awake: "\<not> rw_asleep (pc w t) \<Longrightarrow> rw_cls w t = rw_class (pc w t)"
  by (simp add: rw_cls_def asleep_kind_awake)

lemma rw_cls_class: "rw_class (pc w t) \<noteq> CN \<Longrightarrow> rw_cls w t = rw_class (pc w t)"
  by (cases "pc w t") (simp_all add: rw_cls_def asleep_kind_def)

lemma rw_inv_room:
  assumes "rw_inv N a w" and "N \<le> 2 ^ 59"
  shows "Suc (rds (shared w)) < 2 ^ 60"
proof -
  have "rw_cls w t = CN" if "N \<le> t" for t
    using rw_invD(1) [OF assms(1) that] by (simp add: rw_cls_def asleep_kind_def)
  then have "rds (shared w) \<le> N" by (rule counts_bound [OF rw_invD(2) [OF assms(1)]])
  then show ?thesis using assms(2) by simp
qed

text \<open>Another thread's move keeps what a thread remembers.\<close>

lemma point_frame:
  assumes inv: "rw_inv N a w" and m: "move (rw_cls w t) c (shared w) g'" and u: "u \<noteq> t"
  shows "point_ok (pc w u) g'"
proof (cases "writes (rw_class (pc w u))")
  case True
  then have cu: "rw_cls w u = rw_class (pc w u)" by (intro rw_cls_class) auto
  note c = rw_invD(2) [OF inv]
  have "wrt (shared w)" using counts_hold_ok [OF c, of u] True cu by (simp add: hold_ok_def)
  moreover have "\<not> writes (rw_cls w t)"
    using counts_unique(1) [OF c [unfolded holds_self], of u t] True cu u by auto
  ultimately have "rds (shared w) = 0 \<longrightarrow> rds g' = 0" using m by (simp add: move_def)
  then show ?thesis using rw_invD(3) [OF inv, of u] by (auto simp: point_ok_def)
next
  case False
  then show ?thesis using rw_invD(3) [OF inv, of u] by (auto simp: point_ok_def)
qed

lemma rw_inv_move:
  assumes inv: "rw_inv N a w" and t: "t < N" and m: "move (rw_cls w t) (rw_cls w' t) (shared w) (shared w')"
    and p: "point_ok (pc w' t) (shared w')" and l: "\<And>u. u \<noteq> t \<Longrightarrow> loc w' u = loc w u"
    and c: "\<And>u. u \<noteq> t \<Longrightarrow> rw_cls w' u = rw_cls w u" and s: "\<And>u. sleep_ok a w' u"
  shows "rw_inv N a w'"
proof -
  have "rw_cls w' = (rw_cls w)(t := rw_cls w' t)" using c by auto
  then have "counts (rw_cls w') (holds (shared w'))"
    using counts_move [OF rw_invD(2) [OF inv] m] by simp
  moreover have "point_ok (pc w' u) (shared w')" for u
    using p l point_frame [OF inv m, of u] by (cases "u = t") auto
  ultimately show ?thesis using s l t rw_invD(1) [OF inv] by (auto simp: rw_inv_def)
qed

lemma move_same: "counts f (holds g) \<Longrightarrow> holds g' = holds g \<Longrightarrow> move c c g g'"
  by (rule move_parked) (auto simp: counts_def holds_def)

lemma sleep_ok_frame:
  assumes "sleep_ok a w u" and "loc w' u = loc w u" and "ptok w' u = ptok w u" and "wkey w' u = wkey w u"
  shows "sleep_ok a w' u"
  using assms by (simp add: sleep_ok_def)

lemma sleep_ok_awake: "\<not> rw_asleep (pc w u) \<Longrightarrow> sleep_ok a w u"
  by (auto simp: sleep_ok_def asleep_kind_awake)

lemma rw_cls_frame:
  assumes "pc w' u = pc w u" and "parkedf w' u = parkedf w u" and "utok w' u = utok w u"
  shows "rw_cls w' u = rw_cls w u"
  unfolding rw_cls_def assms by (rule refl)

lemma point_ok_holds: "holds g' = holds g \<Longrightarrow> point_ok l g' = point_ok l g"
  by (simp add: point_ok_def holds_def)

text \<open>A thread enters the critical section of its call.\<close>

lemma rw_inv_phase:
  assumes inv: "rw_inv N a w" and t: "t < N" and w': "shared w' = shared w" "pc w' t = pc w t"
    "\<And>u. u \<noteq> t \<Longrightarrow> loc w' u = loc w u" "wkey w' = wkey w" "ptok w' = ptok w" "utok w' = utok w" "parkedf w' = parkedf w"
  shows "rw_inv N a w'"
proof -
  have pc: "pc w' u = pc w u" for u using w' by (cases "u = t") auto
  have cl: "rw_cls w' u = rw_cls w u" for u by (rule rw_cls_frame) (simp_all add: pc w')
  show ?thesis
  proof (rule rw_inv_move [OF inv t])
    show "move (rw_cls w t) (rw_cls w' t) (shared w) (shared w')"
      unfolding cl w'(1) by (rule move_same [OF rw_invD(2) [OF inv] refl])
    show "sleep_ok a w' u" for u using rw_invD(4) [OF inv, of u] by (simp add: sleep_ok_def pc w')
  qed (use rw_invD(3) [OF inv] in \<open>simp_all add: pc w' cl\<close>)
qed

lemma rw_run_step_inv:
  assumes inv: "rw_inv N a w" and N: "N \<le> 2 ^ 59" and t: "t < N" and l: "loc w t = Run p"
    and r: "run_step (rw_client el a) t c p w = Some w'"
  shows "rw_inv N a w'"
proof (cases "\<exists>q. loc w' t = Run q")
  case False
  have "loc w' t = Crit p \<or> (\<exists>op. loc w' t = CritOp p op)" using run_step_lock [OF r] False by blast
  then have pc: "pc w' t = pc w t" using l by auto
  have "shared w' = shared w" using r False
    by (cases p) (auto simp: run_step_def lot_simps lock_common_validate_def wait_for_readers_validate_def Let_def
        split: if_splits prod.splits)
  then show ?thesis using pc run_step_other [OF r] by (intro rw_inv_phase [OF inv t]) auto
next
  case True
  then obtain q where q: "loc w' t = Run q" by blast
  note w = run_step_other [OF r]
  note cnt = rw_invD(2) [OF inv] and same = move_same [OF rw_invD(2) [OF inv] refl]
  have "\<not> rw_asleep q \<and> move (rw_cls w t) (rw_class q) (shared w) (shared w') \<and> point_ok q (shared w')"
  proof (cases "rw_client el a t p")
    case (Atomic f)
    have e: "shared w' = fst (f c (shared w))" "q = snd (f c (shared w))"
      using r q by (auto simp: run_step_def Atomic lot_simps split: prod.splits)
    have cl: "rw_cls w t = rw_class p" using rw_cls_awake [of w t] rw_atomic_awake(2) [OF Atomic] l by simp
    then have "hold_ok (rw_class p) (shared w)" using counts_hold_ok [OF cnt, of t] by simp
    moreover have "point_ok p (shared w)" using rw_invD(3) [OF inv, of t] l by simp
    ultimately have "step_ok p (shared w) (f c (shared w))"
      by (rule rw_local_ok [OF Atomic rw_inv_room [OF inv N]])
    then show ?thesis using rw_atomic_awake(1) [OF Atomic, of c "shared w"] by (simp add: step_ok_def e cl)
  next
    case (ParkEnq k token v li ls)
    then have p: "(\<exists>k timed. p = CommonPark k timed \<and> li = CommonEntry k timed) \<or>
      (\<exists>u timed sw. p = WaitPark u timed sw \<and> li = WaitReload u timed sw)" "\<And>g. fst (v g) = g"
      by (cases p; auto simp: lock_common_validate_def wait_for_readers_validate_def)+
    have e: "q = li" "shared w' = shared w"
      using r q p(2) [of "shared w"] by (auto simp: run_step_def ParkEnq lot_simps split: prod.splits if_splits)
    have "rw_cls w t = rw_class li" using rw_cls_awake [of w t] l p(1) by auto
    then show ?thesis using same [of "rw_class li"] p(1) by (auto simp: e point_ok_trivial)
  next
    case (ParkSleep timed cb lu le)
    have np: "\<not> parkedf w t" and e: "q = lu (utok w t)" "shared w' = shared w"
      using r q by (auto simp: run_step_def ParkSleep lot_simps split: if_splits)
    from ParkSleep have "(\<exists>k. p = CommonAsleep k timed \<and> lu = lock_common_unparked k timed) \<or>
      (\<exists>u sw. p = WaitAsleep u timed sw \<and> lu = (\<lambda>_. WaitReload u timed sw))"
      by (cases p) auto
    then have "rw_cls w t = rw_class q" "\<not> rw_asleep q" "point_ok q (shared w)"
      using l np by (auto simp: e rw_cls_def asleep_kind_def lock_common_unparked_def point_ok_trivial
          split: if_splits)
    then show ?thesis using same [of "rw_class q"] by (simp add: e)
  qed (use r q in \<open>cases p; auto simp: run_step_def lot_simps split: if_splits prod.splits\<close>)+
  then have aw: "\<not> rw_asleep q"
    and ok: "move (rw_cls w t) (rw_class q) (shared w) (shared w') \<and> point_ok q (shared w')" by blast+
  show ?thesis
  proof (rule rw_inv_move [OF inv t])
    have "rw_cls w' t = rw_class q" using aw rw_cls_awake [of w' t] q by simp
    then show "move (rw_cls w t) (rw_cls w' t) (shared w) (shared w')" using ok by simp
    show "sleep_ok a w' u" for u
    proof (cases "u = t")
      case True
      then show ?thesis using sleep_ok_awake aw q by simp
    next
      case False
      then show ?thesis using sleep_ok_frame [OF rw_invD(4) [OF inv]] w by simp
    qed
  qed (use w ok q in \<open>auto intro: rw_cls_frame\<close>)
qed

section \<open>Critical sections\<close>

lemma rw_sleep_crit_inv:
  assumes inv: "rw_inv N a w" and t: "t < N" and l: "loc w t = Crit p" and p: "asleep_kind p \<noteq> None \<or> (\<exists>u timed sw. p = WaitAsleep u timed sw)"
    and r: "crit_step (rw_client el a) t c p w = Some w'"
  shows "rw_inv N a w'"
proof -
  obtain timed cb lu le where cl: "rw_client el a t p = ParkSleep timed cb lu le"
    using p asleep_kind_iff [of p] by fastforce
  then have p: "(\<exists>k. p = CommonAsleep k timed \<and> lu = lock_common_unparked k timed \<and> le = RwIdle \<and> cb = lock_common_timed_out) \<or>
      (\<exists>u sw. p = WaitAsleep u timed sw \<and> lu = (\<lambda>_. WaitReload u timed sw) \<and> le = WaitExpired u
         \<and> cb = wait_for_readers_timed_out)"
    by (cases p) auto
  define q where "q = (if parkedf w t then le else lu (utok w t))"
  have w': "loc w' = (loc w)(t := Run q)" "wkey w' = wkey w" "ptok w' = ptok w" "utok w' = utok w" "parkedf w' = parkedf w"
    "parkedf w t \<Longrightarrow> \<exists>b. shared w' = cb (wkey w t) b (shared w)" "\<not> parkedf w t \<Longrightarrow> shared w' = shared w"
    using r by (auto simp: crit_step_def cl lot_simps Let_def q_def split: if_splits)
  have g: "holds (shared w') = holds (shared w)"
    using p w'(6,7) by (cases "parkedf w t")
      (auto simp: lock_common_timed_out_def wait_for_readers_timed_out_def atomic_simps)
  have q: "\<not> rw_asleep q" "rw_cls w t = rw_class q" "point_ok q (shared w')"
    using p l by (auto simp: q_def rw_cls_def asleep_kind_def lock_common_unparked_def point_ok_trivial
        split: if_splits)
  show ?thesis
  proof (rule rw_inv_move [OF inv t])
    have "rw_cls w' t = rw_class q" using q rw_cls_awake [of w' t] w'(1) by simp
    then show "move (rw_cls w t) (rw_cls w' t) (shared w) (shared w')"
      unfolding q(2) using move_same [OF rw_invD(2) [OF inv] g] by simp
    show "sleep_ok a w' u" for u
    proof (cases "u = t")
      case True
      then show ?thesis using sleep_ok_awake q w'(1) by simp
    next
      case False
      then show ?thesis using sleep_ok_frame [OF rw_invD(4) [OF inv]] w' by simp
    qed
  qed (use w' q in \<open>auto intro: rw_cls_frame\<close>)
qed

lemma rw_enqueue_inv:
  assumes inv: "rw_inv N a w" and t: "t < N" and l: "loc w t = Crit p" and cl: "rw_client el a t p = ParkEnq k token v li ls"
    and r: "crit_step (rw_client el a) t c p w = Some w'"
  shows "rw_inv N a w'"
proof -
  have p: "(\<exists>kd timed. p = CommonPark kd timed \<and> ls = CommonAsleep kd timed \<and> k = a \<and> token = kind_token kd) \<or>
      (\<exists>u timed sw. p = WaitPark u timed sw \<and> ls = WaitAsleep u timed sw \<and> k = a + 1)"
    using cl by (cases p) auto
  have w': "loc w' = (loc w)(t := Run ls)" "wkey w' = (wkey w)(t := k)" "ptok w' = (ptok w)(t := token)" "utok w' = utok w"
    "parkedf w' = (parkedf w)(t := True)" "shared w' = shared w"
    using r by (auto simp: crit_step_def cl lot_simps Let_def)
  show ?thesis
  proof (rule rw_inv_move [OF inv t])
    have "rw_cls w' t = rw_cls w t" using p l w' by (auto simp: rw_cls_def asleep_kind_def)
    then show "move (rw_cls w t) (rw_cls w' t) (shared w) (shared w')"
      using move_same [OF rw_invD(2) [OF inv] refl] w'(6) by simp
    show "sleep_ok a w' u" for u
    proof (cases "u = t")
      case True
      then show ?thesis using p w' by (auto simp: sleep_ok_def asleep_kind_def)
    next
      case False
      then show ?thesis using sleep_ok_frame [OF rw_invD(4) [OF inv]] w' by simp
    qed
    show "point_ok (pc w' t) (shared w')" using p w' by (auto simp: point_ok_trivial)
  qed (use w' in \<open>auto intro: rw_cls_frame\<close>)
qed

text \<open>
  The wake-ups: the threads \<open>ws\<close> leave a queue with a token. With \<open>TOKEN_NORMAL\<close> their holds do
  not change.
\<close>

lemma rw_wake_normal_inv:
  assumes inv: "rw_inv N a w" and t: "t < N" and l: "loc w t = Crit p" and pa: "\<not> rw_asleep p" "\<not> rw_asleep q"
    and m: "move (rw_class p) (rw_class q) (shared w) (shared w')" and pt: "point_ok q (shared w')"
    and w': "loc w' = (loc w)(t := Run q)" "wkey w' = wkey w" "ptok w' = ptok w"
      "\<And>u. utok w' u = (if u \<in> set ws then TOKEN_NORMAL else utok w u)"
      "\<And>u. parkedf w' u \<longleftrightarrow> parkedf w u \<and> u \<notin> set ws"
    and ws: "\<And>u. u \<in> set ws \<Longrightarrow> rw_asleep (pc w u) \<and> parkedf w u"
  shows "rw_inv N a w'"
proof (rule rw_inv_move [OF inv t])
  have cl: "rw_cls w t = rw_class p" "rw_cls w' t = rw_class q"
    using rw_cls_awake [of w t] rw_cls_awake [of w' t] pa l w'(1) by simp_all
  show "move (rw_cls w t) (rw_cls w' t) (shared w) (shared w')" using m by (simp add: cl)
  show "rw_cls w' u = rw_cls w u" if "u \<noteq> t" for u
  proof (cases "u \<in> set ws")
    case True
    then show ?thesis using ws [OF True] that
      by (simp add: rw_cls_def w' mutex_consts split: option.split)
  next
    case False
    then show ?thesis using that by (intro rw_cls_frame) (simp_all add: w')
  qed
  show "sleep_ok a w' u" for u
  proof (cases "u = t")
    case True
    then show ?thesis using sleep_ok_awake [of w' t] pa w'(1) by simp
  next
    case False
    then show ?thesis using sleep_ok_frame [OF rw_invD(4) [OF inv, of u]] by (simp add: w')
  qed
qed (use pt w'(1) in auto)

text \<open>
  With \<open>TOKEN_HANDOFF\<close> the thread that had the lock as an upgradable reader or a writer gives it
  up and the woken threads have what they waited for.
\<close>

lemma rw_wake_handoff_inv:
  assumes inv: "rw_inv N a w" and t: "t < N" and l: "loc w t = Crit p" and pa: "\<not> rw_asleep p" "\<not> rw_asleep q"
    and p: "rw_class p = CU \<or> writes (rw_class p)" and q: "rw_class q = CN" and pq: "\<And>g. point_ok q g"
    and rel: "move (rw_class p) CN (shared w) g" and gr: "holds g = (n, u, x)"
    and w': "loc w' = (loc w)(t := Run q)" "wkey w' = wkey w" "ptok w' = ptok w"
      "\<And>u. utok w' u = (if u \<in> set ws then TOKEN_HANDOFF else utok w u)"
      "\<And>u. parkedf w' u \<longleftrightarrow> parkedf w u \<and> u \<notin> set ws" "holds (shared w') = (n', u', x')"
    and ws: "distinct ws" "\<And>u. u \<in> set ws \<Longrightarrow> asleep_kind (pc w u) = Some (kd u) \<and> parkedf w u"
    and n': "n' = n + length (filter (\<lambda>t. reads (kind_class (kd t))) ws)"
      "of_bool u' = of_bool u + length (filter (\<lambda>t. kind_class (kd t) = CU) ws)"
      "of_bool x' = of_bool x + length (filter (\<lambda>t. writes (kind_class (kd t))) ws)" "\<not> (u' \<and> x')"
  shows "rw_inv N a w'"
proof -
  note c = rw_invD(2) [OF inv]
  have clt: "rw_cls w t = rw_class p" using rw_cls_awake [of w t] pa l by simp
  have tw: "t \<notin> set ws" using ws(2) [of t] l asleep_kind_awake [OF pa(1)] by auto
  have cw: "((rw_cls w)(t := CN)) v = CN" if "v \<in> set ws" for v
    using ws(2) [OF that] by (simp add: rw_cls_def)
  have "counts ((rw_cls w)(t := CN)) (n, u, x)"
    using counts_move [OF c, of t CN g] rel clt gr by simp
  note cg = counts_grant [OF this ws(1) cw, where kc = "\<lambda>v. kind_class (kd v)", OF _ n']
  have "rw_cls w' = (\<lambda>v. if v \<in> set ws then kind_class (kd v) else ((rw_cls w)(t := CN)) v)"
  proof (rule ext)
    fix v
    show "rw_cls w' v = (if v \<in> set ws then kind_class (kd v) else ((rw_cls w)(t := CN)) v)"
  proof (cases "v \<in> set ws")
    case True
    then show ?thesis using ws(2) [OF True] tw by (auto simp: rw_cls_def w')
  next
    case False
    then show ?thesis using rw_cls_awake [of w' t] rw_cls_frame [of w' v w] pa(2) q by (auto simp: w'(1,4,5))
  qed
  qed
  then have cnt: "counts (rw_cls w') (holds (shared w'))"
    unfolding w'(6) using cg by (simp only:)
  have nw: "\<not> writes (rw_class (pc w v))" if "v \<noteq> t" for v
  proof
    assume v: "writes (rw_class (pc w v))"
    then have "rw_cls w v = rw_class (pc w v)" by (intro rw_cls_class) auto
    then show False
      using counts_unique(1,3) [OF c [unfolded holds_self], of t v] p clt v that by auto
  qed
  have "point_ok (pc w' v) (shared w')" for v
    using pq rw_invD(3) [OF inv, of v] nw [of v] by (cases "v = t") (auto simp: w'(1) point_ok_def)
  moreover have "sleep_ok a w' v" for v
    using sleep_ok_awake [of w' t] pa(2) sleep_ok_frame [OF rw_invD(4) [OF inv, of v], of w']
    by (cases "v = t") (auto simp: w'(1-3))
  ultimately show ?thesis using cnt t rw_invD(1) [OF inv] by (auto simp: rw_inv_def w'(1))
qed

lemma enc_add:
  "enc n False False wp p + enc m w u False False = enc (n + m) w u wp p"
  by (simp add: enc_def algebra_simps)

lemma rds_small: "rds g < 2 ^ 59 \<Longrightarrow> m < 2 ^ 59 \<Longrightarrow> rds g + m < 2 ^ 60"
  by simp

lemma holds_add:
  assumes "holds g = (n, False, False)" and "n + m < 2 ^ 60"
  shows "holds (g + enc m w u False False) = (n + m, u, w)"
proof -
  have e: "g = enc n False False (wpk g) (prk g)"
    using enc_surj [of g] assms(1) by (simp add: holds_iff)
  show ?thesis by (subst e) (simp only: enc_add holds_enc [OF assms(2)])
qed

lemma holds_with_parked: "holds (with_parked hm g) = holds g"
  by (simp add: with_parked_def)

text \<open>The threads that wait at the key of the lock: what they wait for and how many they are.\<close>

definition kind_of :: "(usize, rw_pc) world \<Rightarrow> tid \<Rightarrow> kind" where
  "kind_of w t = the (asleep_kind (pc w t))"

lemma queue_kinds:
  assumes inv: "rw_inv N a w" and li: "rwlock.lot_inv el a w" and u: "u \<in> set (queues w a)"
  shows "asleep_kind (pc w u) = Some (kind_of w u)" and "parkedf w u" and "ptok w u = kind_token (kind_of w u)" and "u < N"
proof -
  have q: "rw_asleep (pc w u)" "parkedf w u" "wkey w u = a"
    using li u by (auto simp: rwlock.lot_inv_def queue_inv_def)
  have "\<not> (\<exists>b timed sw. pc w u = WaitAsleep b timed sw)"
    using rw_invD(4) [OF inv, of u] q(3) by (auto simp: sleep_ok_def)
  then have "asleep_kind (pc w u) \<noteq> None" using q(1) by (cases "pc w u") (auto simp: asleep_kind_def)
  then show k: "asleep_kind (pc w u) = Some (kind_of w u)" by (auto simp: kind_of_def)
  show "parkedf w u" by (rule q(2))
  show "ptok w u = kind_token (kind_of w u)" using rw_invD(4) [OF inv, of u] k by (simp add: sleep_ok_def)
  show "u < N" using rw_invD(1) [OF inv, of u] q(1) by (cases "u < N") auto
qed

lemma queue_length:
  assumes inv: "rw_inv N a w" and li: "rwlock.lot_inv el a w"
  shows "length (queues w a) \<le> N"
proof -
  have "set (queues w a) \<subseteq> {..<N}" using queue_kinds(4) [OF inv li] by auto
  moreover have "distinct (queues w a)" using li by (simp add: rwlock.lot_inv_def queue_inv_def)
  ultimately show ?thesis using card_mono [of "{..<N}" "set (queues w a)"] by (simp add: distinct_card)
qed

text \<open>The data of a call of \<open>unpark_filter\<close>.\<close>

lemma filter_crit:
  assumes li: "rwlock.lot_inv el a w" and cl: "rw_client el a t p = CallUnparkFilter a wake_filter fs cb cont"
    and r: "crit_step (rw_client el a) t c p w = Some w'"
  obtains fs' ws rs m res where
    "filter_run wake_filter (ptok w) (\<lambda>_. True) fs (queues w a) = (fs', ws, rs, m)"
    "loc w' = (loc w)(t := Run (cont res))" "wkey w' = wkey w" "ptok w' = ptok w"
    "\<And>u. utok w' u = (if u \<in> set ws then snd (cb fs' res (shared w)) else utok w u)"
    "\<And>u. parkedf w' u \<longleftrightarrow> parkedf w u \<and> u \<notin> set ws" "shared w' = fst (cb fs' res (shared w))"
    "unparked_threads res = length ws" "have_more_threads res = m" "queues w' = (queues w)(a := rs)"
    "set ws \<subseteq> set (queues w a)" "distinct ws" "m \<longleftrightarrow> rs \<noteq> []"
proof -
  obtain fs' ws rs m where run: "filter_run wake_filter (ptok w) (\<lambda>_. True) fs (queues w a) = (fs', ws, rs, m)"
    by (metis prod_cases4)
  have d: "distinct (queues w a)" using li by (simp add: rwlock.lot_inv_def queue_inv_def)
  define res where "res = \<lparr>unparked_threads = length ws, requeued_threads = 0,
                 have_more_threads = m, be_fair = (ws \<noteq> [] \<and> fair_choice c)\<rparr>"
  obtain g token where cb: "cb fs' res (shared w) = (g, token)" by fastforce
  have w': "w' = goto t (cont res) (release [a] (wake token ws (w\<lparr>shared := g, queues := (queues w)(a := rs)\<rparr>)))"
    using r cb by (simp add: crit_step_def cl run Let_def res_def)
  have dw: "distinct ws" by (subst filter_run_split(3) [OF run d]) (simp add: d)
  have rf: "unparked_threads res = length ws" "have_more_threads res = m" by (simp_all add: res_def)
  show thesis
    by (rule that [OF run, of res])
      (use dw filter_run_True(2,3) [OF run d] in \<open>simp_all add: w' cb lot_simps rf\<close>)
qed

lemma rw_clear_parked_inv:
  assumes inv: "rw_inv N a w" and li: "rwlock.lot_inv el a w" and t: "t < N" and l: "loc w t = Crit p"
    and cl: "rw_client el a t p = CallUnparkFilter a wake_filter fs clear_parked_callback cont"
    and cont: "\<And>r. cont r = q" and p: "\<not> rw_asleep p" "\<not> rw_asleep q" "rw_class q = rw_class p" "\<And>g. point_ok q g"
    and r: "crit_step (rw_client el a) t c p w = Some w'"
  shows "rw_inv N a w'"
proof (rule filter_crit [OF li cl r])
  fix fs' ws rs m res
  assume w': "loc w' = (loc w)(t := Run (cont res))" "wkey w' = wkey w" "ptok w' = ptok w"
    "\<And>u. utok w' u = (if u \<in> set ws then snd (clear_parked_callback fs' res (shared w)) else utok w u)"
    "\<And>u. parkedf w' u \<longleftrightarrow> parkedf w u \<and> u \<notin> set ws" "shared w' = fst (clear_parked_callback fs' res (shared w))"
    and ws: "set ws \<subseteq> set (queues w a)"
  have "holds (shared w') = holds (shared w)"
    unfolding w'(6) by (simp add: clear_parked_callback_def atomic_simps)
  then have m: "move (rw_class p) (rw_class q) (shared w) (shared w')"
    using move_same [OF rw_invD(2) [OF inv]] p(3) by simp
  have aw: "rw_asleep (pc w u) \<and> parkedf w u" if "u \<in> set ws" for u
    using that ws li by (auto simp: rwlock.lot_inv_def queue_inv_def)
  show ?thesis
    by (rule rw_wake_normal_inv [OF inv t l p(1,2) m p(4), where ws = ws])
      (use aw in \<open>simp_all add: w' cont clear_parked_callback_def\<close>)
qed

lemma queue_grants:
  assumes inv: "rw_inv N a w" and N: "N \<le> 2 ^ 59" and li: "rwlock.lot_inv el a w"
    and run: "filter_run wake_filter (ptok w) (\<lambda>_. True) 0 (queues w a) = (fs', ws, rs, m)"
    and ws: "set ws \<subseteq> set (queues w a)" "distinct ws"
  obtains n' u' x' where "fs' = enc n' x' u' False False" "\<not> (u' \<and> x')"
      "n' = 0 + length (filter (\<lambda>t. reads (kind_class (kind_of w t))) ws)"
      "of_bool u' = of_bool False + length (filter (\<lambda>t. kind_class (kind_of w t) = CU) ws)"
      "of_bool x' = of_bool False + length (filter (\<lambda>t. writes (kind_class (kind_of w t))) ws)" "n' \<le> N"
proof -
  have len: "0 + length (queues w a) < 2 ^ 60" using queue_length [OF inv li] N by simp
  have z: "0 = enc 0 False False False False" by (simp add: enc_def)
  obtain n' u' x' where f: "fs' = enc n' x' u' False False" "\<not> (u' \<and> x')"
      "n' = 0 + length (filter (\<lambda>t. reads (kind_class (kind_of w t))) ws)"
      "of_bool u' = of_bool False + length (filter (\<lambda>t. kind_class (kind_of w t) = CU) ws)"
      "of_bool x' = of_bool False + length (filter (\<lambda>t. writes (kind_class (kind_of w t))) ws)"
    using wake_filter_grants [OF run z, of "kind_of w", OF queue_kinds(3) [OF inv li] len] by blast
  have "length ws \<le> length (queues w a)"
    using ws li by (metis card_mono distinct_card List.finite_set queue_invD(1) rwlock.lot_inv_def)
  then have "n' \<le> N"
    using length_filter_le [of "\<lambda>t. reads (kind_class (kind_of w t))" ws] queue_length [OF inv li] f(3) by linarith
  then show thesis by (rule that [OF f])
qed

lemma rw_unlock_excl_inv:
  assumes inv: "rw_inv N a w" and N: "N \<le> 2 ^ 59" and li: "rwlock.lot_inv el a w" and t: "t < N"
    and l: "loc w t = Crit (UnlockExclSlow fair relock)"
    and r: "crit_step (rw_client el a) t c (UnlockExclSlow fair relock) w = Some w'"
  shows "rw_inv N a w'"
proof -
  define q where "q = (if relock then ExclFast (Block False) else RwIdle)"
  have q: "\<not> rw_asleep q" "rw_class q = CN" "\<And>g. point_ok q g" by (simp_all add: q_def point_ok_trivial)
  have cl: "rw_client el a t (UnlockExclSlow fair relock) =
      CallUnparkFilter a wake_filter 0 (unlock_exclusive_slow_callback fair) (\<lambda>_. q)"
    by (simp add: q_def)
  have clt: "rw_cls w t = CX" using rw_cls_awake [of w t] l by simp
  have h: "holds (shared w) = (0, False, True)"
    using counts_hold_ok [OF rw_invD(2) [OF inv], of t] rw_invD(3) [OF inv, of t] clt l
    by (auto simp: hold_ok_def holds_iff)
  have rel: "move CX CN (shared w) 0" using h holds_consts(1) by (simp add: move_def holds_iff)
  show ?thesis
  proof (rule filter_crit [OF li cl r])
    fix fs' ws rs m res
    assume run: "filter_run wake_filter (ptok w) (\<lambda>_. True) 0 (queues w a) = (fs', ws, rs, m)"
      and w': "loc w' = (loc w)(t := Run q)" "wkey w' = wkey w" "ptok w' = ptok w"
      "\<And>u. utok w' u = (if u \<in> set ws then snd (unlock_exclusive_slow_callback fair fs' res (shared w)) else utok w u)"
      "\<And>u. parkedf w' u \<longleftrightarrow> parkedf w u \<and> u \<notin> set ws" "shared w' = fst (unlock_exclusive_slow_callback fair fs' res (shared w))"
      and ws: "set ws \<subseteq> set (queues w a)" "distinct ws"
    note k = queue_kinds [OF inv li]
    have aw: "rw_asleep (pc w u) \<and> parkedf w u" if "u \<in> set ws" for u
      using that ws li by (auto simp: rwlock.lot_inv_def queue_inv_def)
    show ?thesis
    proof (cases "unparked_threads res \<noteq> 0 \<and> (fair \<or> be_fair res)")
      case False
      then have s: "holds (shared w') = holds 0" "snd (unlock_exclusive_slow_callback fair fs' res (shared w)) = TOKEN_NORMAL"
        using holds_consts by (auto simp: w'(6) unlock_exclusive_slow_callback_def)
      have mv: "move (rw_class (UnlockExclSlow fair relock)) (rw_class q) (shared w) (shared w')"
        using rel s(1) q(2) by (simp add: move_def holds_def)
      show ?thesis
        by (rule rw_wake_normal_inv [OF inv t l _ q(1) mv q(3), where ws = ws]) (use aw in \<open>simp_all add: w' s\<close>)
    next
      case True
      then have s: "holds (shared w') = holds fs'" "snd (unlock_exclusive_slow_callback fair fs' res (shared w)) = TOKEN_HANDOFF"
        by (auto simp: w'(6) unlock_exclusive_slow_callback_def)
      obtain n' u' x' where f: "fs' = enc n' x' u' False False" "\<not> (u' \<and> x')"
          "n' = 0 + length (filter (\<lambda>t. reads (kind_class (kind_of w t))) ws)"
          "of_bool u' = of_bool False + length (filter (\<lambda>t. kind_class (kind_of w t) = CU) ws)"
          "of_bool x' = of_bool False + length (filter (\<lambda>t. writes (kind_class (kind_of w t))) ws)" "n' \<le> N"
        by (rule queue_grants [OF inv N li run ws])
      then have "n' < 2 ^ 60" using N by simp
      then have h': "holds (shared w') = (n', u', x')" unfolding s(1) f(1) by (rule holds_enc)
      show ?thesis
        by (rule rw_wake_handoff_inv [OF inv t l _ q(1) _ q(2) q(3) _ holds_consts(1) w'(1-3) _ w'(5) h' ws(2) _ f(3-5,2)])
          (use rel k(1,2) ws(1) in \<open>auto simp: w'(4) s(2)\<close>)
    qed
  qed
qed

lemma rw_unlock_upg_inv:
  assumes inv: "rw_inv N a w" and N: "N \<le> 2 ^ 59" and li: "rwlock.lot_inv el a w" and t: "t < N"
    and l: "loc w t = Crit (UnlockUpgWake fair relock)"
    and r: "crit_step (rw_client el a) t c (UnlockUpgWake fair relock) w = Some w'"
  shows "rw_inv N a w'"
proof -
  define q where "q = relock_upg relock"
  have q: "\<not> rw_asleep q" "rw_class q = CN" "\<And>g. point_ok q g" by (simp_all add: q_def)
  have cl: "rw_client el a t (UnlockUpgWake fair relock) =
      CallUnparkFilter a wake_filter 0 (unlock_upgradable_slow_callback fair) (\<lambda>_. q)"
    by (simp add: q_def)
  define g where "g = shared w - (ONE_READER OR UPGRADABLE_BIT)"
  have ho: "hold_ok CU (shared w)"
    using counts_hold_ok [OF rw_invD(2) [OF inv], of t] rw_cls_awake [of w t] l by simp
  have rel: "move CU CN (shared w) g" unfolding g_def by (rule move_release(2) [OF ho])
  have gh: "holds g = (rds g, False, False)" "rds g < N"
    using rel ho rw_inv_room [OF inv N] counts_bound [OF rw_invD(2) [OF inv], of N] rw_invD(1) [OF inv]
    by (auto simp: move_def hold_ok_def holds_iff rw_cls_def asleep_kind_def)
  show ?thesis
  proof (rule filter_crit [OF li cl r])
    fix fs' ws rs m res
    assume run: "filter_run wake_filter (ptok w) (\<lambda>_. True) 0 (queues w a) = (fs', ws, rs, m)"
      and w': "loc w' = (loc w)(t := Run q)" "wkey w' = wkey w" "ptok w' = ptok w"
      "\<And>u. utok w' u = (if u \<in> set ws then snd (unlock_upgradable_slow_callback fair fs' res (shared w)) else utok w u)"
      "\<And>u. parkedf w' u \<longleftrightarrow> parkedf w u \<and> u \<notin> set ws" "shared w' = fst (unlock_upgradable_slow_callback fair fs' res (shared w))"
      and ws: "set ws \<subseteq> set (queues w a)" "distinct ws"
    note k = queue_kinds [OF inv li]
    have aw: "rw_asleep (pc w u) \<and> parkedf w u" if "u \<in> set ws" for u
      using that ws li by (auto simp: rwlock.lot_inv_def queue_inv_def)
    show ?thesis
    proof (cases "(if fair \<or> be_fair res then checked_add g fs' else None)")
      case None
      then have s: "holds (shared w') = holds g" "snd (unlock_upgradable_slow_callback fair fs' res (shared w)) = TOKEN_NORMAL"
        unfolding w'(6) unlock_upgradable_slow_callback_def g_def [symmetric] Let_def by (simp_all add: holds_with_parked)
      have mv: "move (rw_class (UnlockUpgWake fair relock)) (rw_class q) (shared w) (shared w')"
        using rel s(1) q(2) by (simp add: move_def holds_def)
      show ?thesis
        by (rule rw_wake_normal_inv [OF inv t l _ q(1) mv q(3), where ws = ws]) (use aw in \<open>simp_all add: w' s\<close>)
    next
      case (Some s1)
      then have s: "holds (shared w') = holds (g + fs')" "snd (unlock_upgradable_slow_callback fair fs' res (shared w)) = TOKEN_HANDOFF"
        unfolding w'(6) unlock_upgradable_slow_callback_def g_def [symmetric] Let_def
        by (auto simp: holds_with_parked dest!: checked_add_SomeD split: if_splits)
      obtain n' u' x' where f: "fs' = enc n' x' u' False False" "\<not> (u' \<and> x')"
          "n' = 0 + length (filter (\<lambda>t. reads (kind_class (kind_of w t))) ws)"
          "of_bool u' = of_bool False + length (filter (\<lambda>t. kind_class (kind_of w t) = CU) ws)"
          "of_bool x' = of_bool False + length (filter (\<lambda>t. writes (kind_class (kind_of w t))) ws)" "n' \<le> N"
        by (rule queue_grants [OF inv N li run ws])
      then have "rds g + n' < 2 ^ 60" using N gh(2) by simp
      then have h': "holds (shared w') = (rds g + n', u', x')"
        unfolding s(1) f(1) by (rule holds_add [OF gh(1)])
      show ?thesis
        by (rule rw_wake_handoff_inv [OF inv t l _ q(1) _ q(2) q(3) _ gh(1) w'(1-3) _ w'(5) h' ws(2) _ _ f(4,5,2)])
          (use rel k(1,2) ws(1) f(3) in \<open>auto simp: w'(4) s(2)\<close>)
    qed
  qed
qed

lemma rw_unlock_shared_inv:
  assumes inv: "rw_inv N a w" and li: "rwlock.lot_inv el a w" and t: "t < N"
    and l: "loc w t = Crit (UnlockSharedSlow relock)"
    and r: "crit_step (rw_client el a) t c (UnlockSharedSlow relock) w = Some w'"
  shows "rw_inv N a w'"
proof -
  define q where "q = (if relock then SharedFast False (Block False) else RwIdle)"
  define ws where "ws = take 1 (queues w (a + 1))"
  have q: "\<not> rw_asleep q" "rw_class q = CN" "\<And>g. point_ok q g" by (simp_all add: q_def point_ok_trivial)
  have w': "loc w' = (loc w)(t := Run q)" "wkey w' = wkey w" "ptok w' = ptok w"
      "\<And>u. utok w' u = (if u \<in> set ws then TOKEN_NORMAL else utok w u)"
      "\<And>u. parkedf w' u \<longleftrightarrow> parkedf w u \<and> u \<notin> set ws" "shared w' = shared w AND NOT WRITER_PARKED_BIT"
    using r by (auto simp: crit_step_def lot_simps Let_def unlock_shared_slow_callback_def atomic_simps q_def ws_def)
  have m: "move (rw_class (UnlockSharedSlow relock)) (rw_class q) (shared w) (shared w')"
    using move_same [OF rw_invD(2) [OF inv], of "shared w'" CN] by (simp add: w'(6) q(2))
  have aw: "rw_asleep (pc w u) \<and> parkedf w u" if "u \<in> set ws" for u
    using in_set_takeD [OF that [unfolded ws_def]] li by (auto simp: rwlock.lot_inv_def queue_inv_def)
  show ?thesis
    by (rule rw_wake_normal_inv [OF inv t l _ q(1) m q(3), where ws = ws]) (use aw in \<open>simp_all add: w'\<close>)
qed

lemma rw_crit_step_inv:
  assumes inv: "rw_inv N a w" and N: "N \<le> 2 ^ 59" and li: "rwlock.lot_inv el a w" and t: "t < N"
    and l: "loc w t = Crit p" and r: "crit_step (rw_client el a) t c p w = Some w'"
  shows "rw_inv N a w'"
proof (cases p)
  case (CommonPark k timed)
  then show ?thesis using rw_enqueue_inv [OF inv t l _ r] by simp
next
  case (WaitPark u timed sw)
  then show ?thesis using rw_enqueue_inv [OF inv t l _ r] by simp
next
  case (CommonAsleep k timed)
  then show ?thesis using rw_sleep_crit_inv [OF inv t l _ r] by (simp add: asleep_kind_def)
next
  case (WaitAsleep u timed sw)
  then show ?thesis using rw_sleep_crit_inv [OF inv t l _ r] by simp
next
  case (WaitWake u)
  show ?thesis
    by (rule rw_clear_parked_inv [OF inv li t l _ _ _ _ _ _ r]) (auto simp: WaitWake)
next
  case DowngradeWake
  show ?thesis
    by (rule rw_clear_parked_inv [OF inv li t l _ _ _ _ _ _ r]) (auto simp: DowngradeWake point_ok_trivial)
next
  case DowngradeToUpgWake
  show ?thesis
    by (rule rw_clear_parked_inv [OF inv li t l _ _ _ _ _ _ r]) (auto simp: DowngradeToUpgWake point_ok_trivial)
next
  case (UnlockSharedSlow relock)
  then show ?thesis using rw_unlock_shared_inv [OF inv li t] l r by blast
next
  case (UnlockExclSlow fair relock)
  then show ?thesis using rw_unlock_excl_inv [OF inv N li t] l r by blast
next
  case (UnlockUpgWake fair relock)
  then show ?thesis using rw_unlock_upg_inv [OF inv N li t] l r by blast
qed (use r in \<open>simp_all add: crit_step_def\<close>)

lemma rw_step_inv:
  assumes inv: "rw_inv N a w" and N: "N \<le> 2 ^ 59" and li: "rwlock.lot_inv el a w" and t: "t < N"
    and s: "step (rw_client el a) (t, c) w = Some w'"
  shows "rw_inv N a w'"
proof (cases "loc w t")
  case (Run p)
  then show ?thesis using rw_run_step_inv [OF inv N t Run] s by (simp add: step_def)
next
  case (Crit p)
  then show ?thesis using rw_crit_step_inv [OF inv N li t Crit] s by (simp add: step_def)
next
  case (CritOp p op)
  then show ?thesis using s by (cases p) (simp_all add: step_def requeue_step_def)
qed

text \<open>Runs in which the threads that take steps have numbers below \<open>N\<close>.\<close>

definition bounded :: "nat \<Rightarrow> (tid \<times> nat) list \<Rightarrow> bool" where
  "bounded N tcs \<longleftrightarrow> (\<forall>tc\<in>set tcs. fst tc < N)"

lemma rw_run_inv:
  assumes "run (rw_client el a) tcs w = Some w'" and "bounded N tcs" and "N \<le> 2 ^ 59"
    and "rw_inv N a w" and "rwlock.lot_inv el a w"
  shows "rw_inv N a w' \<and> rwlock.lot_inv el a w'"
  using assms
proof (induction tcs arbitrary: w)
  case (Cons tc tcs)
  obtain t c where tc: "tc = (t, c)" by fastforce
  obtain w1 where s: "step (rw_client el a) (t, c) w = Some w1" and r: "run (rw_client el a) tcs w1 = Some w'"
    using Cons.prems(1) by (auto simp: tc bind_eq_Some_conv)
  have t: "t < N" "bounded N tcs" using Cons.prems(2) by (auto simp: bounded_def tc)
  show ?case
    using Cons.IH [OF r t(2) Cons.prems(3) rw_step_inv [OF Cons.prems(4,3,5) t(1) s] rwlock.lot_inv_step [OF Cons.prems(5) s]] .
qed simp

lemma rw_start_inv: "rw_inv N a rw_start" "rwlock.lot_inv el a rw_start"
proof -
  have "counts (\<lambda>_. CN) (0, False, False)" by (simp add: counts_def)
  moreover have "rw_cls rw_start = (\<lambda>_. CN)"
    by (rule ext) (simp add: rw_cls_def rw_start_def world_init_def asleep_kind_def)
  moreover have "sleep_ok a rw_start t" for t by (rule sleep_ok_awake) (simp add: rw_start_def world_init_def)
  ultimately show "rw_inv N a rw_start"
    using holds_consts(1) by (simp add: rw_inv_def) (simp add: rw_start_def world_init_def point_ok_trivial)
  show "rwlock.lot_inv el a rw_start"
    unfolding rw_start_def by (rule rwlock.init_lot_inv) simp
qed

lemmas rw_reachable = rw_run_inv [OF _ _ _ rw_start_inv]

end
