(* ===== verification/RwLock_Claims.thy ===== *)
theory RwLock_Claims
  imports RwLock_Safety
begin

text \<open>
  The theorems about the reader-writer lock of \<open>src/src/raw_rwlock.rs\<close> and concrete runs of it.
\<close>

section \<open>Theorems\<close>

lemma rw_exclusive_alone:
  assumes "run (rw_client el a) tcs rw_start = Some w" and "bounded N tcs" and "N \<le> 2 ^ 59"
    and "rw_class (pc w t) = CX" and "u \<noteq> t"
  shows "rw_cls w u = CN \<and> rw_is_locked_exclusive (shared w)"
proof -
  note inv = conjunct1 [OF rw_reachable [OF assms(1-3)]]
  note c = rw_invD(2) [OF inv]
  have t: "rw_cls w t = CX" using rw_cls_class [of w t] assms(4) by simp
  have z: "rds (shared w) = 0" using rw_invD(3) [OF inv, of t] assms(4) by (simp add: point_ok_def)
  have "\<not> reads (rw_cls w u)" using counts_hold_ok [OF c, of u] z by (auto simp: hold_ok_def)
  moreover have "\<not> writes (rw_cls w u)"
    using counts_unique(1) [OF c [unfolded holds_self], of t u] t assms(5) by auto
  ultimately have "rw_cls w u = CN" by (cases "rw_cls w u") simp_all
  moreover have "wrt (shared w)" using counts_hold_ok [OF c, of t] t by (simp add: hold_ok_def)
  ultimately show ?thesis by (simp add: rw_is_locked_exclusive_def)
qed

text \<open>
  Claim C6. Exclusive means exclusive: whatever up to \<open>2 ^ 59\<close> threads do with the lock and
  however they interleave, while one thread holds it exclusively no other thread holds it in
  any way, not even as a grant it has not seen yet, and \<open>is_locked_exclusive\<close> answers true.
\<close>

theorem rw_exclusion:
  assumes "run (rw_client el a) tcs rw_start = Some w" and "bounded N tcs" and "N \<le> 2 ^ 59"
    and "rw_class (pc w t) = CX" and "u \<noteq> t"
  shows "rw_cls w u = CN \<and> rw_is_locked_exclusive (shared w)"
  by (rule rw_exclusive_alone [OF assms])

text \<open>Two schedules: a writer with a reader that waits, and an upgradable reader next to a reader.\<close>

definition writer_schedule :: "(tid \<times> nat) list" where
  "writer_schedule = [(2, 6), (2, 0)] @ replicate 27 (3, 0)"

definition upgrade_schedule :: "(tid \<times> nat) list" where
  "upgrade_schedule = [(2, 9), (2, 0), (2, 0), (3, 0), (3, 0), (3, 0)]"

lemma writer_run:
  "map_option (\<lambda>w. (loc w 2, loc w 3, queues w 8, shared w))
     (run (rw_client False 8) writer_schedule rw_start) =
     Some (Run RwExclusive, Run (CommonAsleep (KShared False) False), [3], 9)"
  by code_simp

lemma upgrade_run:
  "map_option (\<lambda>w. (loc w 2, loc w 3, shared w)) (run (rw_client False 8) upgrade_schedule rw_start) =
     Some (Run RwUpgradable, Run RwShared, 36)"
  by code_simp

lemma schedules_bounded: "bounded 4 writer_schedule" "bounded 4 upgrade_schedule"
  by (simp_all add: bounded_def writer_schedule_def upgrade_schedule_def)

theorem rw_exclusion_witness:
  "\<exists>w. run (rw_client False 8) writer_schedule rw_start = Some w \<and> rw_class (pc w 2) = CX
     \<and> rw_cls w 3 = CN \<and> rw_is_locked_exclusive (shared w)"
proof -
  obtain w where w: "run (rw_client False 8) writer_schedule rw_start = Some w" using writer_run by auto
  have l: "loc w 2 = Run RwExclusive" using writer_run [unfolded w] by simp
  show ?thesis using rw_exclusion [OF w schedules_bounded(1), of 2 3] w l by auto
qed

text \<open>
  Claim C8. There is at most one upgradable reader, and never one together with a thread that
  has taken the writer bit; other readers may hold the lock next to it.
\<close>

theorem rw_upgradable_unique:
  assumes "run (rw_client el a) tcs rw_start = Some w" and "bounded N tcs" and "N \<le> 2 ^ 59"
    and "rw_class (pc w t) = CU" and "u \<noteq> t"
  shows "rw_cls w u = CN \<or> rw_cls w u = CR"
proof -
  note c = rw_invD(2) [OF conjunct1 [OF rw_reachable [OF assms(1-3)]], unfolded holds_self]
  have "rw_cls w t = CU" using rw_cls_class [of w t] assms(4) by simp
  then have "rw_cls w u \<noteq> CU" "\<not> writes (rw_cls w u)"
    using counts_unique(2) [OF c, of t u] counts_unique(3) [OF c, of t u] assms(5) by auto
  then show ?thesis by (cases "rw_cls w u") simp_all
qed

theorem rw_upgradable_unique_witness:
  "\<exists>w. run (rw_client False 8) upgrade_schedule rw_start = Some w \<and> rw_class (pc w 2) = CU
     \<and> pc w 3 = RwShared \<and> (rw_cls w 3 = CN \<or> rw_cls w 3 = CR)"
proof -
  obtain w where w: "run (rw_client False 8) upgrade_schedule rw_start = Some w" using upgrade_run by auto
  have l: "loc w 2 = Run RwUpgradable" "loc w 3 = Run RwShared" using upgrade_run [unfolded w] by simp_all
  show ?thesis using rw_upgradable_unique [OF w schedules_bounded(2), of 2 3] w l by auto
qed

text \<open>
  Claim C7. The state word is exact: its reader field is the number of threads that hold the
  lock shared or upgradable, the upgradable flag is set exactly if one holds it upgradable
  and the writer flag exactly if one has taken the writer bit; the count never reaches the
  top of the word, so it does not wrap.
\<close>

theorem rw_word_exact:
  assumes "run (rw_client el a) tcs rw_start = Some w" and "bounded N tcs" and "N \<le> 2 ^ 59"
  shows "unat (shared w AND READERS_MASK) = 16 * card {t. reads (rw_cls w t)}
    \<and> (shared w AND UPGRADABLE_BIT \<noteq> 0 \<longleftrightarrow> (\<exists>t. rw_cls w t = CU))
    \<and> (shared w AND WRITER_BIT \<noteq> 0 \<longleftrightarrow> (\<exists>t. writes (rw_cls w t)))
    \<and> checked_add (shared w) ONE_READER \<noteq> None"
proof -
  note inv = conjunct1 [OF rw_reachable [OF assms]]
  note c = rw_invD(2) [OF inv, unfolded holds_self]
  have r: "card {t. reads (rw_cls w t)} = rds (shared w)" using c by (simp add: counts_def)
  have "unat (shared w AND READERS_MASK) = 16 * rds (shared w)"
    using rds_bound [of "shared w"] unfolding READERS_MASK_def and_readers by (intro unat_of_nat_usize) simp
  moreover have "upg (shared w) \<longleftrightarrow> (\<exists>t. rw_cls w t = CU)"
    using c counts_fin(2) [OF c] by (cases "upg (shared w)") (auto simp: counts_def card_1_singleton_iff)
  moreover have "wrt (shared w) \<longleftrightarrow> (\<exists>t. writes (rw_cls w t))"
    using c counts_fin(3) [OF c] by (cases "wrt (shared w)") (auto simp: counts_def card_1_singleton_iff)
  moreover have "unat (shared w) + 16 < 2 ^ 64"
    using rw_inv_room [OF inv assms(3)] by (simp add: rds_def)
  ultimately show ?thesis using r by (simp add: checked_add_def ONE_READER_def)
qed

theorem rw_word_exact_witness:
  "\<exists>w. run (rw_client False 8) upgrade_schedule rw_start = Some w \<and> unat (shared w AND READERS_MASK) = 32
     \<and> card {t. reads (rw_cls w t)} = 2"
proof -
  obtain w where w: "run (rw_client False 8) upgrade_schedule rw_start = Some w" using upgrade_run by auto
  have s: "unat (shared w AND READERS_MASK) = 32" using upgrade_run [unfolded w] by (simp add: READERS_MASK_def)
  show ?thesis using rw_word_exact [OF w schedules_bounded(2)] w s by auto
qed

section \<open>Fair hand-over\<close>

text \<open>
  Who gets the lock from a fair unlock, and who stays in the queue: all readers at the front get it, and with them the
  first thread that is not a reader. If that is a writer, everyone behind it stays; if it is an upgradable reader, the
  readers behind it get the lock as well and the writers and upgradable readers behind it stay.
\<close>

definition handed_over :: "(tid \<Rightarrow> kind) \<Rightarrow> tid list \<Rightarrow> tid list \<times> tid list" where
  "handed_over kd q = (let reader = (\<lambda>t. kind_class (kd t) = CR) in
     case dropWhile reader q of
       [] \<Rightarrow> (q, [])
     | x # ys \<Rightarrow> (if kd x = KExclusive then (takeWhile reader q @ [x], ys)
         else (takeWhile reader q @ x # filter reader ys, filter (\<lambda>t. \<not> reader t) ys)))"

lemma handed_over_simps [simp]:
  "handed_over kd [] = ([], [])"
  "kd t = KExclusive \<Longrightarrow> handed_over kd (t # q) = ([t], q)"
  "kd t = KUpgradable \<Longrightarrow> handed_over kd (t # q) =
     (t # filter (\<lambda>t. kind_class (kd t) = CR) q, filter (\<lambda>t. kind_class (kd t) \<noteq> CR) q)"
  by (simp_all add: handed_over_def kind_class_def)

lemma handed_over_reader [simp]:
  assumes "kind_class (kd t) = CR"
  shows "handed_over kd (t # q) = (t # fst (handed_over kd q), snd (handed_over kd q))"
  using assms by (cases "dropWhile (\<lambda>t. kind_class (kd t) = CR) q")
    (simp_all add: handed_over_def Let_def del: dropWhile_eq_Nil_conv)













end
