(* ===== verification/Word_Lock.thy ===== *)
theory Word_Lock
  imports Raw_Mutex
begin

text \<open>
  The lock of a bucket, \<open>core/src/word_lock.rs\<close>: a tagged pointer to the newest of the
  waiting threads, whose nodes form a list that only the holder of the queue lock
  completes and shortens. Threads interleave at the accesses of the word; the nodes of
  the queue are touched only under the queue lock and before a node is published, so a walk
  over them is one step.
\<close>

section \<open>Nodes and the tagged pointer\<close>

record wl_node =
  wl_queue_tail :: td_ptr
  wl_prev :: td_ptr
  wl_next :: td_ptr

definition wl_node_new :: wl_node where
  "wl_node_new = \<lparr>wl_queue_tail = None, wl_prev = None, wl_next = None\<rparr>"

record wl_state =
  ws_head :: td_ptr
  ws_locked :: bool
  ws_qlocked :: bool

definition wl_new :: wl_state where
  "wl_new = \<lparr>ws_head = None, ws_locked = False, ws_qlocked = False\<rparr>"

text \<open>
  The word behind a tagged pointer: \<open>addr\<close> gives the address of a thread's node, which is
  a multiple of four (\<open>ThreadData::new\<close> asserts the alignment), and the functions of the trait
  \<open>LockState\<close> on it.
\<close>

definition wl_LOCKED_BIT :: usize where "wl_LOCKED_BIT = 1"
definition QUEUE_LOCKED_BIT :: usize where "QUEUE_LOCKED_BIT = 2"
definition QUEUE_MASK :: usize where "QUEUE_MASK = NOT 3"

definition wl_is_locked :: "usize \<Rightarrow> bool" where
  "wl_is_locked a \<longleftrightarrow> a AND wl_LOCKED_BIT \<noteq> 0"

definition wl_is_queue_locked :: "usize \<Rightarrow> bool" where
  "wl_is_queue_locked a \<longleftrightarrow> a AND QUEUE_LOCKED_BIT \<noteq> 0"

definition wl_queue_head :: "usize \<Rightarrow> usize" where
  "wl_queue_head a = a AND QUEUE_MASK"

definition wl_with_queue_head :: "usize \<Rightarrow> usize \<Rightarrow> usize" where
  "wl_with_queue_head a p = (a AND NOT QUEUE_MASK) OR p"

definition ptr_addr :: "(tid \<Rightarrow> usize) \<Rightarrow> td_ptr \<Rightarrow> usize" where
  "ptr_addr addr p = (case p of None \<Rightarrow> 0 | Some t \<Rightarrow> addr t)"

definition wl_encode :: "(tid \<Rightarrow> usize) \<Rightarrow> wl_state \<Rightarrow> usize" where
  "wl_encode addr s = ptr_addr addr (ws_head s) OR (if ws_qlocked s then QUEUE_LOCKED_BIT else 0)
     OR (if ws_locked s then wl_LOCKED_BIT else 0)"

section \<open>Steps\<close>

text \<open>
  The points of \<open>lock\<close>, \<open>unlock\<close>, \<open>lock_slow\<close> and \<open>unlock_slow\<close>. The values carried by the points are
  the local \<open>state\<close>, which after the queue lock is taken is still the value before.
\<close>

datatype (plugins only: code size) wl_pc =
    WlIdle
  | WlFast
  | WlEntry
  | WlSlow SpinWait wl_state
  | WlAsleep
  | WlOwner
  | WlUnlock
  | WlUnlockEntry
  | WlUnlockSlow wl_state
  | WlScan wl_state
  | WlDecide wl_state tid
  | WlLast wl_state tid
  | WlWake tid

record wl_world =
  wl_word :: wl_state
  wl_data :: "tid \<Rightarrow> wl_node"
  wl_parked :: "tid \<Rightarrow> bool"
  wl_loc :: "tid \<Rightarrow> wl_pc"

definition wl_goto :: "tid \<Rightarrow> wl_pc \<Rightarrow> wl_world \<Rightarrow> wl_world" where
  "wl_goto t l w = w\<lparr>wl_loc := (wl_loc w)(t := l)\<rparr>"

text \<open>An exchange of the word, with what to do on success and with the value found.\<close>

definition wl_exchange :: "bool \<Rightarrow> wl_state \<Rightarrow> wl_state \<Rightarrow> wl_world \<Rightarrow> (wl_world \<Rightarrow> wl_world) \<Rightarrow>
    (wl_state \<Rightarrow> wl_world \<Rightarrow> wl_world) \<Rightarrow> wl_world" where
  "wl_exchange spur old new w ok err =
     (case compare_exchange_weak spur old new (wl_word w) of
        (Inr _, s) \<Rightarrow> ok (w\<lparr>wl_word := s\<rparr>) | (Inl x, s) \<Rightarrow> err x (w\<lparr>wl_word := s\<rparr>))"

definition wl_lock :: "tid \<Rightarrow> nat \<Rightarrow> wl_world \<Rightarrow> wl_world" where
  "wl_lock t c w = wl_exchange (spurious c) wl_new (wl_new\<lparr>ws_locked := True\<rparr>) w
     (wl_goto t WlOwner) (\<lambda>_. wl_goto t WlEntry)"

text \<open>The node of a thread that is about to queue behind the given head.\<close>

definition wl_enqueue_node :: "tid \<Rightarrow> td_ptr \<Rightarrow> wl_node \<Rightarrow> wl_node" where
  "wl_enqueue_node t head d = (case head of
     None \<Rightarrow> d\<lparr>wl_queue_tail := Some t, wl_prev := None\<rparr>
   | Some h \<Rightarrow> d\<lparr>wl_queue_tail := None, wl_prev := None, wl_next := Some h\<rparr>)"

definition wl_lock_slow :: "tid \<Rightarrow> nat \<Rightarrow> SpinWait \<Rightarrow> wl_state \<Rightarrow> wl_world \<Rightarrow> wl_world" where
  "wl_lock_slow t c sw state w =
     (if \<not> ws_locked state then
        wl_exchange (spurious c) state (state\<lparr>ws_locked := True\<rparr>) w (wl_goto t WlOwner) (\<lambda>x. wl_goto t (WlSlow sw x))
      else if ws_head state = None \<and> fst (spin sw) then
        wl_goto t (WlSlow (fst (snd (spin sw))) (wl_word w)) w
      else
        let w1 = w\<lparr>wl_parked := (wl_parked w)(t := True),
                   wl_data := (wl_data w)(t := wl_enqueue_node t (ws_head state) (wl_data w t))\<rparr>
        in wl_exchange (spurious c) state (state\<lparr>ws_head := Some t\<rparr>) w1
             (wl_goto t WlAsleep) (\<lambda>x. wl_goto t (WlSlow sw x)))"

text \<open>\<open>unlock\<close>; the subtraction clears the locked bit, which is set when the caller holds the lock.\<close>

definition wl_nothing_to_wake :: "wl_state \<Rightarrow> bool" where
  "wl_nothing_to_wake s \<longleftrightarrow> ws_qlocked s \<or> ws_head s = None"

definition wl_unlock :: "tid \<Rightarrow> wl_world \<Rightarrow> wl_world" where
  "wl_unlock t w = wl_goto t (if wl_nothing_to_wake (wl_word w) then WlIdle else WlUnlockEntry)
     (w\<lparr>wl_word := (wl_word w)\<lparr>ws_locked := False\<rparr>\<rparr>)"

definition wl_unlock_slow :: "tid \<Rightarrow> nat \<Rightarrow> wl_state \<Rightarrow> wl_world \<Rightarrow> wl_world" where
  "wl_unlock_slow t c state w =
     (if wl_nothing_to_wake state then wl_goto t WlIdle w
      else wl_exchange (spurious c) state (state\<lparr>ws_qlocked := True\<rparr>) w
        (wl_goto t (WlScan state)) (\<lambda>x. wl_goto t (WlUnlockSlow x)))"

text \<open>
  The inner loop of \<open>unlock_slow\<close> that fills in the \<open>prev\<close> pointers; \<open>None\<close> is a null pointer
  followed or a walk without end.
\<close>

partial_function (option) wl_fill :: "(tid \<Rightarrow> wl_node) \<Rightarrow> tid \<Rightarrow> ((tid \<Rightarrow> wl_node) \<times> tid) option" where
  "wl_fill d current = (case wl_queue_tail (d current) of
     Some tail \<Rightarrow> Some (d, tail)
   | None \<Rightarrow> (case wl_next (d current) of
       None \<Rightarrow> None
     | Some nx \<Rightarrow> wl_fill (d(nx := (d nx)\<lparr>wl_prev := Some current\<rparr>)) nx))"

declare wl_fill.simps [code]

definition wl_scan :: "tid \<Rightarrow> wl_state \<Rightarrow> wl_world \<Rightarrow> wl_world option" where
  "wl_scan t state w = (case ws_head state of
     None \<Rightarrow> None
   | Some h \<Rightarrow> (case wl_fill (wl_data w) h of
       None \<Rightarrow> None
     | Some (d, tail) \<Rightarrow> Some (wl_goto t (WlDecide state tail)
         (w\<lparr>wl_data := d(h := (d h)\<lparr>wl_queue_tail := Some tail\<rparr>)\<rparr>))))"

definition wl_after_fail :: "tid \<Rightarrow> tid \<Rightarrow> wl_state \<Rightarrow> wl_pc" where
  "wl_after_fail t tail x = (if ws_head x = None then WlLast x tail else WlScan x)"

definition wl_take_last :: "tid \<Rightarrow> nat \<Rightarrow> wl_state \<Rightarrow> tid \<Rightarrow> wl_world \<Rightarrow> wl_world" where
  "wl_take_last t c state tail w =
     wl_exchange (spurious c) state \<lparr>ws_head = None, ws_locked = ws_locked state, ws_qlocked = False\<rparr> w
       (wl_goto t (WlWake tail)) (\<lambda>x. wl_goto t (wl_after_fail t tail x))"

definition wl_decide :: "tid \<Rightarrow> nat \<Rightarrow> wl_state \<Rightarrow> tid \<Rightarrow> wl_world \<Rightarrow> wl_world" where
  "wl_decide t c state tail w =
     (if ws_locked state then
        wl_exchange (spurious c) state (state\<lparr>ws_qlocked := False\<rparr>) w (wl_goto t WlIdle) (\<lambda>x. wl_goto t (WlScan x))
      else (case wl_prev (wl_data w tail) of
        None \<Rightarrow> wl_take_last t c state tail w
      | Some new_tail \<Rightarrow>
          (let h = the (ws_head state) in
           wl_goto t (WlWake tail)
             (w\<lparr>wl_data := (wl_data w)(h := (wl_data w h)\<lparr>wl_queue_tail := Some new_tail\<rparr>),
                wl_word := (wl_word w)\<lparr>ws_qlocked := False\<rparr>\<rparr>))))"

text \<open>One step of a thread; \<open>None\<close> while it sleeps. A holder goes on to unlock when it likes.\<close>

definition wl_step :: "tid \<times> nat \<Rightarrow> wl_world \<Rightarrow> wl_world option" where
  "wl_step tc w = (case tc of (t, c) \<Rightarrow> (case wl_loc w t of
     WlIdle \<Rightarrow> Some (wl_goto t WlFast w)
   | WlFast \<Rightarrow> Some (wl_lock t c w)
   | WlEntry \<Rightarrow> Some (wl_goto t (WlSlow SpinWait_new (wl_word w)) w)
   | WlSlow sw state \<Rightarrow> Some (wl_lock_slow t c sw state w)
   | WlAsleep \<Rightarrow> if wl_parked w t then None else Some (wl_goto t WlEntry w)
   | WlOwner \<Rightarrow> Some (wl_goto t WlUnlock w)
   | WlUnlock \<Rightarrow> Some (wl_unlock t w)
   | WlUnlockEntry \<Rightarrow> Some (wl_goto t (WlUnlockSlow (wl_word w)) w)
   | WlUnlockSlow state \<Rightarrow> Some (wl_unlock_slow t c state w)
   | WlScan state \<Rightarrow> wl_scan t state w
   | WlDecide state tail \<Rightarrow> Some (wl_decide t c state tail w)
   | WlLast state tail \<Rightarrow> Some (wl_take_last t c state tail w)
   | WlWake u \<Rightarrow> Some (wl_goto t WlIdle (w\<lparr>wl_parked := (wl_parked w)(u := False)\<rparr>))))"

fun wl_run :: "(tid \<times> nat) list \<Rightarrow> wl_world \<Rightarrow> wl_world option" where
  "wl_run [] w = Some w"
| "wl_run (tc # tcs) w = Option.bind (wl_step tc w) (wl_run tcs)"

inductive wl_reach :: "wl_world \<Rightarrow> wl_world \<Rightarrow> bool" for w0 where
  wl_init: "wl_reach w0 w0"
| wl_reach_next: "wl_reach w0 w \<Longrightarrow> wl_step tc w = Some w' \<Longrightarrow> wl_reach w0 w'"

definition wl_start :: wl_world where
  "wl_start = \<lparr>wl_word = wl_new, wl_data = (\<lambda>_. wl_node_new), wl_parked = (\<lambda>_. False), wl_loc = (\<lambda>_. WlIdle)\<rparr>"

lemma wl_run_reach: "wl_run tcs w = Some w' \<Longrightarrow> wl_reach w0 w \<Longrightarrow> wl_reach w0 w'"
  by (induction tcs arbitrary: w) (auto simp: bind_eq_Some_conv intro: wl_reach_next)

section \<open>The walk\<close>

text \<open>
  The processed part of the queue has its \<open>prev\<close> pointers and its first node knows the tail;
  the nodes in front of it only have \<open>next\<close>.
\<close>

fun prevs :: "(tid \<Rightarrow> wl_node) \<Rightarrow> tid list \<Rightarrow> bool" where
  "prevs d (x # y # ys) \<longleftrightarrow> wl_prev (d y) = Some x \<and> prevs d (y # ys)"
| "prevs d _ \<longleftrightarrow> True"

definition processed :: "(tid \<Rightarrow> wl_node) \<Rightarrow> tid list \<Rightarrow> bool" where
  "processed d vs \<longleftrightarrow> vs \<noteq> [] \<and> wl_queue_tail (d (hd vs)) = Some (last vs) \<and> wl_prev (d (hd vs)) = None \<and> prevs d vs"

fun nexts :: "(tid \<Rightarrow> wl_node) \<Rightarrow> tid list \<Rightarrow> tid \<Rightarrow> bool" where
  "nexts d [] v \<longleftrightarrow> True"
| "nexts d (x # xs) v \<longleftrightarrow> wl_queue_tail (d x) = None
     \<and> wl_next (d x) = Some (case xs of [] \<Rightarrow> v | y # _ \<Rightarrow> y) \<and> nexts d xs v"

lemma prevs_cong:
  "(\<And>x. x \<in> set (tl xs) \<Longrightarrow> wl_prev (d' x) = wl_prev (d x)) \<Longrightarrow> prevs d' xs = prevs d xs"
  by (induction d xs rule: prevs.induct) auto

lemma nexts_cong:
  "(\<And>x. x \<in> set xs \<Longrightarrow> wl_queue_tail (d' x) = wl_queue_tail (d x) \<and> wl_next (d' x) = wl_next (d x)) \<Longrightarrow>
     nexts d' xs v = nexts d xs v"
  by (induction xs) auto

lemma wl_fill_walk:
  assumes "nexts d us (hd vs)" and "vs \<noteq> []" and "wl_queue_tail (d (hd vs)) = Some tail" and "prevs d vs"
    and "distinct (us @ vs)"
  shows "\<exists>d'. wl_fill d (hd (us @ vs)) = Some (d', tail) \<and> prevs d' (us @ vs)
    \<and> (\<forall>x. wl_queue_tail (d' x) = wl_queue_tail (d x) \<and> wl_next (d' x) = wl_next (d x))
    \<and> (\<forall>x. x \<notin> set (tl (us @ vs)) \<longrightarrow> d' x = d x)"
  using assms
proof (induction us arbitrary: d)
  case Nil
  then show ?case by (subst wl_fill.simps) auto
next
  case (Cons u us)
  define n where "n = hd (us @ vs)"
  define d1 where "d1 = d(n := (d n)\<lparr>wl_prev := Some u\<rparr>)"
  have n: "(case us of [] \<Rightarrow> hd vs | y # _ \<Rightarrow> y) = n" by (simp add: n_def split: list.split)
  obtain rest where rest: "us @ vs = n # rest" using Cons.prems(2) by (cases us; cases vs) (auto simp: n_def)
  have nr: "n \<notin> set rest" "u \<noteq> n" "u \<notin> set rest" using Cons.prems(5) rest by auto
  have step: "wl_fill d u = wl_fill d1 n"
    using Cons.prems(1) by (subst wl_fill.simps) (simp add: n d1_def)
  have "set (tl vs) \<subseteq> set rest" using rest Cons.prems(2) by (cases us; cases vs) auto
  then have "wl_prev (d1 x) = wl_prev (d x)" if "x \<in> set (tl vs)" for x using nr(1) that by (auto simp: d1_def)
  then have p1: "prevs d1 vs" using Cons.prems(4) prevs_cong [of vs d1 d] by blast
  have n1: "nexts d1 us (hd vs)" "wl_queue_tail (d1 (hd vs)) = Some tail"
    using Cons.prems(1,3) nexts_cong [of us d1 d "hd vs"] by (auto simp: d1_def)
  from Cons.IH [OF n1(1) Cons.prems(2) n1(2) p1] Cons.prems(5) obtain d' where
    d': "wl_fill d1 n = Some (d', tail)" "prevs d' (us @ vs)"
      "\<forall>x. wl_queue_tail (d' x) = wl_queue_tail (d1 x) \<and> wl_next (d' x) = wl_next (d1 x)"
      "\<forall>x. x \<notin> set rest \<longrightarrow> d' x = d1 x"
    by (auto simp: rest)
  have "wl_prev (d' n) = Some u" using d'(4) nr(1) by (simp add: d1_def)
  then have "prevs d' ((u # us) @ vs)" using d'(2) by (simp add: rest)
  moreover have "d' x = d x" if "x \<notin> set (us @ vs)" for x using d'(4) that rest by (auto simp: d1_def)
  ultimately show ?case using step d'(1,3) by (auto simp: d1_def)
qed

section \<open>The tagged pointer is one word\<close>

lemma tag_bits:
  fixes a f :: usize
  assumes "a AND 3 = 0" and "f AND NOT 3 = 0"
  shows "(a OR f) AND 1 = f AND 1" "(a OR f) AND 2 = f AND 2" "(a OR f) AND NOT 3 = a" "(a OR f) AND 3 = f"
proof -
  have m: "(a OR f) AND m = (a AND m) OR (f AND m)" for m
    by (simp add: bit.conj_disj_distrib2)
  have a1: "a AND 1 = 0" "a AND 2 = 0"
  proof -
    have "a AND 1 = (a AND 3) AND 1" "a AND 2 = (a AND 3) AND 2" by (simp_all add: and.assoc)
    then show "a AND 1 = 0" "a AND 2 = 0" using assms(1) by simp_all
  qed
  have c: "x = (x AND 3) OR (x AND NOT 3)" for x :: usize
    by (simp flip: bit.conj_disj_distrib)
  have a3: "a AND NOT 3 = a" using c [of a] assms(1) by simp
  have f3: "f AND 3 = f" using c [of f] assms(2) by simp
  show "(a OR f) AND 1 = f AND 1" "(a OR f) AND 2 = f AND 2" by (simp_all add: m a1)
  show "(a OR f) AND NOT 3 = a" by (simp only: m a3 assms(2)) simp
  show "(a OR f) AND 3 = f" by (simp only: m assms(1) f3) simp
qed

text \<open>
  Claim C32. Tagging and untagging are inverse: with nodes at addresses that are multiples of four, the functions of \<open>LockState\<close>
  read the two flags and the head back from the word that encodes them, and replacing
  the head keeps the flags.
\<close>

theorem wl_encode_roundtrip:
  assumes "\<And>t. addr t AND 3 = 0"
  shows "wl_is_locked (wl_encode addr s) = ws_locked s \<and> wl_is_queue_locked (wl_encode addr s) = ws_qlocked s
    \<and> wl_queue_head (wl_encode addr s) = ptr_addr addr (ws_head s)
    \<and> wl_with_queue_head (wl_encode addr s) (addr t) = wl_encode addr (s\<lparr>ws_head := Some t\<rparr>)"
proof -
  define f where "f = (if ws_qlocked s then QUEUE_LOCKED_BIT else 0) OR (if ws_locked s then wl_LOCKED_BIT else 0)"
  have a: "ptr_addr addr (ws_head s) AND 3 = 0"
    using assms by (simp add: ptr_addr_def split: option.split)
  have f: "f AND NOT 3 = 0" "f AND 1 \<noteq> 0 \<longleftrightarrow> ws_locked s" "f AND 2 \<noteq> 0 \<longleftrightarrow> ws_qlocked s"
    by (simp_all add: f_def QUEUE_LOCKED_BIT_def wl_LOCKED_BIT_def)
  have e: "wl_encode addr s = ptr_addr addr (ws_head s) OR f"
    "wl_encode addr (s\<lparr>ws_head := Some t\<rparr>) = addr t OR f"
    by (simp_all add: wl_encode_def f_def or.assoc ptr_addr_def)
  note b = tag_bits [OF a f(1)]
  show ?thesis
    unfolding wl_is_locked_def wl_is_queue_locked_def wl_queue_head_def wl_with_queue_head_def e QUEUE_MASK_def
      wl_LOCKED_BIT_def QUEUE_LOCKED_BIT_def bit.double_compl b
    using f(2,3) by (simp add: or.commute)
qed

theorem wl_encode_roundtrip_witness:
  "wl_queue_head (wl_encode (\<lambda>t. push_bit 2 (of_nat t)) \<lparr>ws_head = Some 5, ws_locked = True, ws_qlocked = True\<rparr>) = 20
   \<and> wl_encode (\<lambda>t. push_bit 2 (of_nat t)) \<lparr>ws_head = Some 5, ws_locked = True, ws_qlocked = True\<rparr> = 23"
proof -
  have m: "(3::usize) = mask 2" by (simp add: mask_eq_exp_minus_1)
  have "(push_bit 2 (of_nat t) :: usize) AND 3 = 0" for t
    unfolding m by (rule bit_word_eqI) (simp add: bit_and_iff bit_push_bit_iff bit_mask_iff del: mask_numeral)
  from wl_encode_roundtrip [of "\<lambda>t. push_bit 2 (of_nat t)", OF this, of "\<lparr>ws_head = Some 5, ws_locked = True, ws_qlocked = True\<rparr>"]
  show ?thesis by (simp add: ptr_addr_def wl_encode_def QUEUE_LOCKED_BIT_def wl_LOCKED_BIT_def push_bit_eq_mult)
qed

end
