(* ===== verification/Word_Lock_Safety.thy ===== *)
theory Word_Lock_Safety
  imports Word_Lock
begin

text \<open>
  The word lock excludes, keeps its queue in order while threads join it without a lock,
  never follows a null pointer, and does not forget a waiting thread.
\<close>

section \<open>The queue in the nodes\<close>

definition wl_list :: "(tid \<Rightarrow> wl_node) \<Rightarrow> tid list \<Rightarrow> tid list \<Rightarrow> bool" where
  "wl_list d us vs \<longleftrightarrow> nexts d us (hd vs) \<and> processed d vs \<and> (\<forall>x\<in>set us. wl_prev (d x) = None)"

definition wl_base :: "(tid \<Rightarrow> wl_node) \<Rightarrow> tid list \<Rightarrow> bool" where
  "wl_base d q \<longleftrightarrow> q = [] \<or> (\<exists>us vs. q = us @ vs \<and> wl_list d us vs)"

text \<open>What the holder of the queue lock knows: its head is in the queue and nothing in front of it is processed.\<close>

fun wl_hold_ok :: "(tid \<Rightarrow> wl_node) \<Rightarrow> tid list \<Rightarrow> wl_pc \<Rightarrow> bool" where
  "wl_hold_ok d q (WlScan st) \<longleftrightarrow> (\<exists>ps us vs. q = ps @ us @ vs \<and> ws_head st = Some (hd (us @ vs)) \<and> wl_list d (ps @ us) vs)"
| "wl_hold_ok d q (WlDecide st tail) \<longleftrightarrow> (\<exists>ps vs. q = ps @ vs \<and> wl_list d ps vs \<and> ws_head st = Some (hd vs) \<and> tail = last vs)"
| "wl_hold_ok d q (WlLast st tail) \<longleftrightarrow> False"
| "wl_hold_ok d q _ \<longleftrightarrow> True"

lemma processed_cong: "(\<And>x. x \<in> set vs \<Longrightarrow> d' x = d x) \<Longrightarrow> processed d' vs = processed d vs"
  using prevs_cong [of vs d' d] by (cases vs) (auto simp: processed_def)

lemma wl_list_cong:
  assumes "\<forall>x\<in>set us \<union> set vs. d' x = d x"
  shows "wl_list d' us vs = wl_list d us vs"
  using nexts_cong [of us d' d "hd vs"] processed_cong [of vs d' d] assms by (auto simp: wl_list_def)

lemma wl_base_cong:
  assumes "\<forall>x\<in>set q. d' x = d x" and "wl_base d q"
  shows "wl_base d' q"
proof (cases "q = []")
  case False
  then obtain us vs where q: "q = us @ vs" "wl_list d us vs" using assms(2) by (auto simp: wl_base_def)
  then have "wl_list d' us vs" using wl_list_cong [of us vs d' d] assms(1) by simp
  then show ?thesis using q(1) by (auto simp: wl_base_def)
qed (simp add: wl_base_def)

lemma wl_hold_ok_cong:
  assumes "\<forall>x\<in>set q. d' x = d x" and "wl_hold_ok d q l"
  shows "wl_hold_ok d' q l"
proof (cases l)
  case (WlScan st)
  then obtain ps us vs where "q = ps @ us @ vs" "ws_head st = Some (hd (us @ vs))" "wl_list d (ps @ us) vs"
    using assms(2) by auto
  moreover from this have "wl_list d' (ps @ us) vs" using wl_list_cong [of "ps @ us" vs d' d] assms(1) by auto
  ultimately show ?thesis using WlScan by auto
next
  case (WlDecide st tail)
  then obtain ps vs where "q = ps @ vs" "wl_list d ps vs" "ws_head st = Some (hd vs)" "tail = last vs"
    using assms(2) by auto
  moreover from this have "wl_list d' ps vs" using wl_list_cong [of ps vs d' d] assms(1) by auto
  ultimately show ?thesis using WlDecide by auto
qed (use assms(2) in simp_all)

lemma wl_list_push:
  assumes "wl_list d us vs" and "t \<notin> set (us @ vs)"
  shows "wl_list (d(t := wl_enqueue_node t (Some (hd (us @ vs))) (d t))) (t # us) vs"
proof -
  let ?d = "d(t := wl_enqueue_node t (Some (hd (us @ vs))) (d t))"
  have "\<forall>x\<in>set us \<union> set vs. ?d x = d x" using assms(2) by auto
  then have "wl_list ?d us vs" using assms(1) wl_list_cong by blast
  then show ?thesis by (auto simp: wl_list_def wl_enqueue_node_def split: list.split)
qed

definition head_of :: "tid list \<Rightarrow> td_ptr" where
  "head_of q = (case q of [] \<Rightarrow> None | x # _ \<Rightarrow> Some x)"

lemma head_of_simps [simp]: "head_of [] = None" "head_of (x # q) = Some x" "head_of q = None \<longleftrightarrow> q = []"
  by (simp_all add: head_of_def) (cases q; simp)

lemma head_of_hd: "q \<noteq> [] \<Longrightarrow> head_of q = Some (hd q)"
  by (cases q) simp_all

lemma wl_list_ne: "wl_list d us vs \<Longrightarrow> us @ vs \<noteq> [] \<and> vs \<noteq> []"
  by (simp add: wl_list_def processed_def)

lemma wl_base_push:
  assumes "wl_base d q" and "t \<notin> set q"
  shows "wl_base (d(t := wl_enqueue_node t (head_of q) (d t))) (t # q)"
proof (cases "q = []")
  case True
  have "wl_list (d(t := wl_enqueue_node t None (d t))) [] [t]"
    by (simp add: wl_list_def processed_def wl_enqueue_node_def)
  then show ?thesis using True unfolding wl_base_def by (metis append_Nil head_of_simps(1))
next
  case False
  then obtain us vs where q: "q = us @ vs" "wl_list d us vs" using assms(1) by (auto simp: wl_base_def)
  have "wl_list (d(t := wl_enqueue_node t (head_of q) (d t))) (t # us) vs"
    using wl_list_push [OF q(2)] assms(2) head_of_hd [OF False] by (simp add: q(1))
  then show ?thesis unfolding wl_base_def q(1) by (metis append_Cons)
qed

lemma wl_hold_ok_push:
  assumes "wl_hold_ok d q l" and "t \<notin> set q"
  shows "wl_hold_ok (d(t := wl_enqueue_node t (head_of q) (d t))) (t # q) l"
proof (cases l)
  case (WlScan st)
  then obtain ps us vs where e: "q = ps @ us @ vs" "ws_head st = Some (hd (us @ vs))" "wl_list d (ps @ us) vs"
    using assms(1) by auto
  have "head_of q = Some (hd ((ps @ us) @ vs))" using wl_list_ne [OF e(3)] e(1) by (intro head_of_hd [THEN trans]) auto
  then show ?thesis using wl_list_push [OF e(3), of t] assms(2) e(1,2) unfolding WlScan wl_hold_ok.simps
    by - (rule exI [of _ "t # ps"], rule exI [of _ us], rule exI [of _ vs], simp)
next
  case (WlDecide st tail)
  then obtain ps vs where e: "q = ps @ vs" "wl_list d ps vs" "ws_head st = Some (hd vs)" "tail = last vs"
    using assms(1) by auto
  have "head_of q = Some (hd (ps @ vs))" using wl_list_ne [OF e(2)] e(1) by (intro head_of_hd [THEN trans]) auto
  then show ?thesis using wl_list_push [OF e(2), of t] assms(2) e(1,3,4) unfolding WlDecide wl_hold_ok.simps
    by - (rule exI [of _ "t # ps"], rule exI [of _ vs], simp)
qed (use assms(1) in simp_all)

text \<open>The holder's scan completes the processed part up to its head.\<close>

lemma wl_list_fill:
  assumes l: "wl_list d (ps @ us) vs" and d: "distinct (ps @ us @ vs)"
  shows "\<exists>d'. wl_fill d (hd (us @ vs)) = Some (d', last vs)
    \<and> wl_list (d'(hd (us @ vs) := (d' (hd (us @ vs)))\<lparr>wl_queue_tail := Some (last vs)\<rparr>)) ps (us @ vs)
    \<and> (\<forall>x. x \<notin> set (us @ vs) \<longrightarrow> d' x = d x)"
proof -
  have vs: "vs \<noteq> []" "wl_queue_tail (d (hd vs)) = Some (last vs)" "prevs d vs" "wl_prev (d (hd vs)) = None"
    using l by (auto simp: wl_list_def processed_def)
  define h where "h = hd (us @ vs)"
  have nx: "nexts d (xs @ us) v \<Longrightarrow> nexts d us v" "nexts d (xs @ us) (hd vs) \<Longrightarrow> nexts d xs h" for xs v
    using vs(1) by (induction xs) (auto simp: h_def split: list.splits)
  have nu: "nexts d us (hd vs)" using nx(1) l by (auto simp: wl_list_def)
  have du: "distinct (us @ vs)" using d by simp
  from wl_fill_walk [OF nu vs(1-3) du] obtain d' where
    d': "wl_fill d h = Some (d', last vs)" "prevs d' (us @ vs)"
      "\<forall>x. wl_queue_tail (d' x) = wl_queue_tail (d x) \<and> wl_next (d' x) = wl_next (d x)"
      "\<forall>x. x \<notin> set (tl (us @ vs)) \<longrightarrow> d' x = d x"
    unfolding h_def by blast
  obtain rest where rest: "us @ vs = h # rest" using vs(1) by (cases us; cases vs) (auto simp: h_def)
  let ?d = "d'(h := (d' h)\<lparr>wl_queue_tail := Some (last vs)\<rparr>)"
  have hr: "h \<notin> set rest" "h \<notin> set ps" "set ps \<inter> set rest = {}" using d rest by auto
  have out: "d' x = d x" if "x \<notin> set rest" for x using d'(4) that rest by simp
  have "wl_prev (d h) = None"
    using l vs(4) by (cases us) (auto simp: wl_list_def h_def)
  then have "wl_prev (?d h) = None" using out [OF hr(1)] by simp
  moreover have "prevs ?d (us @ vs)" using d'(2) hr(1) prevs_cong [of "us @ vs" ?d d'] by (auto simp: rest)
  ultimately have "processed ?d (us @ vs)" 
    unfolding processed_def h_def [symmetric] using vs(1) by simp
  moreover have "?d x = d x" if "x \<in> set ps" for x using out [of x] hr that by auto
  then have "nexts ?d ps h" "\<forall>x\<in>set ps. wl_prev (?d x) = None"
    using nexts_cong [of ps ?d d h] nx(2) [of ps] l by (auto simp: wl_list_def)
  ultimately show ?thesis using d'(1) out rest by (auto simp: wl_list_def h_def [symmetric])
qed

section \<open>The invariant\<close>

fun wl_own :: "wl_pc \<Rightarrow> bool" where
  "wl_own WlOwner = True" | "wl_own WlUnlock = True" | "wl_own _ = False"

fun wl_qhold :: "wl_pc \<Rightarrow> bool" where
  "wl_qhold (WlScan st) = True" | "wl_qhold (WlDecide st tail) = True" | "wl_qhold (WlLast st tail) = True"
| "wl_qhold _ = False"

text \<open>The points at which a thread is going to look at the lock again or to wake somebody.\<close>

fun wl_active :: "wl_pc \<Rightarrow> bool" where
  "wl_active WlEntry = True" | "wl_active (WlSlow sw st) = True" | "wl_active WlUnlockEntry = True"
| "wl_active (WlUnlockSlow st) = (\<not> wl_nothing_to_wake st)" | "wl_active (WlScan st) = True"
| "wl_active (WlDecide st tail) = True" | "wl_active (WlLast st tail) = True" | "wl_active (WlWake u) = True"
| "wl_active _ = False"

fun wl_wakes :: "wl_pc \<Rightarrow> tid \<Rightarrow> bool" where
  "wl_wakes (WlWake u) v \<longleftrightarrow> u = v" | "wl_wakes _ v \<longleftrightarrow> False"

definition wl_cares :: "wl_world \<Rightarrow> tid \<Rightarrow> bool" where
  "wl_cares w t \<longleftrightarrow> wl_active (wl_loc w t) \<or> wl_loc w t = WlAsleep \<and> \<not> wl_parked w t"

definition wl_inv :: "tid list \<Rightarrow> wl_world \<Rightarrow> bool" where
  "wl_inv q w \<longleftrightarrow> ws_head (wl_word w) = head_of q \<and> distinct q \<and> wl_base (wl_data w) q
     \<and> (\<forall>t\<in>set q. wl_loc w t = WlAsleep \<and> wl_parked w t)
     \<and> (\<forall>t. wl_loc w t = WlAsleep \<longrightarrow> wl_parked w t \<longrightarrow> t \<in> set q \<or> (\<exists>u. wl_wakes (wl_loc w u) t))
     \<and> (\<forall>u t. wl_wakes (wl_loc w u) t \<longrightarrow> wl_loc w t = WlAsleep \<and> wl_parked w t \<and> t \<notin> set q)
     \<and> (\<forall>u v t. wl_wakes (wl_loc w u) t \<longrightarrow> wl_wakes (wl_loc w v) t \<longrightarrow> u = v)
     \<and> (ws_locked (wl_word w) \<longleftrightarrow> (\<exists>t. wl_own (wl_loc w t)))
     \<and> (\<forall>t u. wl_own (wl_loc w t) \<longrightarrow> wl_own (wl_loc w u) \<longrightarrow> t = u)
     \<and> (ws_qlocked (wl_word w) \<longleftrightarrow> (\<exists>t. wl_qhold (wl_loc w t)))
     \<and> (\<forall>t u. wl_qhold (wl_loc w t) \<longrightarrow> wl_qhold (wl_loc w u) \<longrightarrow> t = u)
     \<and> (\<forall>t. wl_hold_ok (wl_data w) q (wl_loc w t))
     \<and> (q \<noteq> [] \<longrightarrow> \<not> ws_locked (wl_word w) \<longrightarrow> (\<exists>t. wl_cares w t))"

lemma wl_invD:
  assumes "wl_inv q w"
  shows "ws_head (wl_word w) = head_of q" and "distinct q" and "wl_base (wl_data w) q"
    and "t \<in> set q \<Longrightarrow> wl_loc w t = WlAsleep \<and> wl_parked w t"
    and "wl_loc w t = WlAsleep \<Longrightarrow> wl_parked w t \<Longrightarrow> t \<in> set q \<or> (\<exists>u. wl_wakes (wl_loc w u) t)"
    and "wl_wakes (wl_loc w u) t \<Longrightarrow> wl_loc w t = WlAsleep \<and> wl_parked w t \<and> t \<notin> set q"
    and "wl_wakes (wl_loc w u) t \<Longrightarrow> wl_wakes (wl_loc w v) t \<Longrightarrow> u = v"
    and "ws_locked (wl_word w) \<longleftrightarrow> (\<exists>t. wl_own (wl_loc w t))"
    and "wl_own (wl_loc w t) \<Longrightarrow> wl_own (wl_loc w u) \<Longrightarrow> t = u"
    and "ws_qlocked (wl_word w) \<longleftrightarrow> (\<exists>t. wl_qhold (wl_loc w t))"
    and "wl_qhold (wl_loc w t) \<Longrightarrow> wl_qhold (wl_loc w u) \<Longrightarrow> t = u"
    and "wl_hold_ok (wl_data w) q (wl_loc w t)"
    and "q \<noteq> [] \<Longrightarrow> \<not> ws_locked (wl_word w) \<Longrightarrow> \<exists>t. wl_cares w t"
  using assms unfolding wl_inv_def by blast+

text \<open>
  Steps that change the word, the point of one thread that neither sleeps nor wakes, and
  nodes outside the queue.
\<close>

definition wl_plain :: "wl_pc \<Rightarrow> bool" where
  "wl_plain l \<longleftrightarrow> l \<noteq> WlAsleep \<and> (\<forall>u. l \<noteq> WlWake u)"

lemma wl_plain_wakes: "wl_plain l \<Longrightarrow> \<not> wl_wakes l t"
  by (cases l) (auto simp: wl_plain_def)

definition wl_local :: "tid list \<Rightarrow> wl_pc \<Rightarrow> wl_pc \<Rightarrow> wl_state \<Rightarrow> wl_state \<Rightarrow> bool" where
  "wl_local q l l' s s' \<longleftrightarrow> wl_plain l \<and> wl_plain l' \<and> ws_head s' = ws_head s
     \<and> (wl_own l' \<and> \<not> wl_own l \<longrightarrow> \<not> ws_locked s)
     \<and> (ws_locked s' \<longleftrightarrow> wl_own l' \<or> \<not> wl_own l \<and> ws_locked s)
     \<and> (wl_qhold l' \<and> \<not> wl_qhold l \<longrightarrow> \<not> ws_qlocked s)
     \<and> (ws_qlocked s' \<longleftrightarrow> wl_qhold l' \<or> \<not> wl_qhold l \<and> ws_qlocked s)
     \<and> (q \<noteq> [] \<and> \<not> ws_locked s' \<longrightarrow> wl_active l' \<or> ws_qlocked s \<and> \<not> wl_qhold l \<or> \<not> wl_active l \<and> \<not> ws_locked s)"

lemma wl_inv_local:
  assumes inv: "wl_inv q w" and loc: "wl_local q (wl_loc w t) l' (wl_word w) (wl_word w')"
    and w': "wl_loc w' = (wl_loc w)(t := l')" "\<And>u. u \<noteq> t \<Longrightarrow> wl_parked w' u = wl_parked w u"
    and d: "wl_base (wl_data w') q" "wl_hold_ok (wl_data w') q l'"
    and h: "\<And>u. u \<noteq> t \<Longrightarrow> wl_hold_ok (wl_data w') q (wl_loc w u)"
  shows "wl_inv q w'"
proof -
  note I = wl_invD [OF inv] and L = loc [unfolded wl_local_def]
  have pl: "wl_plain (wl_loc w t)" "wl_plain l'" using L by blast+
  have tq: "t \<notin> set q" using I(4) [of t] pl(1) by (auto simp: wl_plain_def)
  have wk: "wl_wakes (wl_loc w' u) v \<longleftrightarrow> wl_wakes (wl_loc w u) v" for u v
    using wl_plain_wakes pl by (auto simp: w'(1))
  have as: "wl_loc w' u = WlAsleep \<longleftrightarrow> wl_loc w u = WlAsleep" for u
    using pl by (auto simp: w'(1) wl_plain_def)
  have pk: "wl_loc w u = WlAsleep \<Longrightarrow> wl_parked w' u = wl_parked w u" for u
    using w'(2) [of u] pl(1) by (auto simp: wl_plain_def)
  have own: "wl_own (wl_loc w' u) \<longleftrightarrow> (if u = t then wl_own l' else wl_own (wl_loc w u))" for u by (simp add: w'(1))
  have qh: "wl_qhold (wl_loc w' u) \<longleftrightarrow> (if u = t then wl_qhold l' else wl_qhold (wl_loc w u))" for u by (simp add: w'(1))
  have cares: "wl_cares w' u \<longleftrightarrow> (if u = t then wl_active l' else wl_cares w u)" for u
    using pl w'(2) [of u] by (auto simp: wl_cares_def w'(1) wl_plain_def)
  have ct: "wl_cares w t \<longleftrightarrow> wl_active (wl_loc w t)" using pl(1) by (simp add: wl_cares_def wl_plain_def)
  show ?thesis
    unfolding wl_inv_def wk
  proof (intro conjI allI impI ballI)
    show "ws_head (wl_word w') = head_of q" using L I(1) by simp
    show "distinct q" by (rule I(2))
    show "wl_base (wl_data w') q" by (rule d(1))
    show "wl_loc w' u = WlAsleep" if "u \<in> set q" for u using I(4) [OF that] as by blast
    show "wl_parked w' u" if "u \<in> set q" for u using I(4) [OF that] pk by blast
    show "u \<in> set q \<or> (\<exists>v. wl_wakes (wl_loc w v) u)" if "wl_loc w' u = WlAsleep" "wl_parked w' u" for u
      using I(5) [of u] that as pk by blast
    show "wl_loc w' v = WlAsleep" "wl_parked w' v" "v \<notin> set q" if "wl_wakes (wl_loc w u) v" for u v
      using I(6) [OF that] as pk by blast+
    show "u = v" if "wl_wakes (wl_loc w u) x" "wl_wakes (wl_loc w v) x" for u v x using I(7) that by blast
    show "ws_locked (wl_word w') = (\<exists>u. wl_own (wl_loc w' u))" using L I(8,9) by (metis own)
    show "u = v" if "wl_own (wl_loc w' u)" "wl_own (wl_loc w' v)" for u v using that L I(8,9) by (metis own)
    show "ws_qlocked (wl_word w') = (\<exists>u. wl_qhold (wl_loc w' u))" using L I(10,11) by (metis qh)
    show "u = v" if "wl_qhold (wl_loc w' u)" "wl_qhold (wl_loc w' v)" for u v using that L I(10,11) by (metis qh)
    show "wl_hold_ok (wl_data w') q (wl_loc w' u)" for u using d(2) h [of u] by (simp add: w'(1))
    show "\<exists>u. wl_cares w' u" if "q \<noteq> []" "\<not> ws_locked (wl_word w')"
    proof -
      from that L consider "wl_active l'" | "ws_qlocked (wl_word w)" "\<not> wl_qhold (wl_loc w t)"
        | "\<not> wl_active (wl_loc w t)" "\<not> ws_locked (wl_word w)" by blast
      then show ?thesis
      proof cases
        case 1
        then show ?thesis using cares by metis
      next
        case 2
        then obtain u where u: "wl_qhold (wl_loc w u)" "u \<noteq> t" using I(10) by blast
        then have "wl_cares w u" by (cases "wl_loc w u") (simp_all add: wl_cares_def)
        then show ?thesis using cares u(2) by metis
      next
        case 3
        then show ?thesis using I(13) that(1) cares ct by metis
      qed
    qed
  qed
qed

lemma wl_inv_local_data:
  assumes inv: "wl_inv q w" and loc: "wl_local q (wl_loc w t) l' (wl_word w) (wl_word w')"
    and w': "wl_loc w' = (wl_loc w)(t := l')" "\<And>u. u \<noteq> t \<Longrightarrow> wl_parked w' u = wl_parked w u"
    and d: "\<forall>x\<in>set q. wl_data w' x = wl_data w x" "wl_hold_ok (wl_data w) q l'"
  shows "wl_inv q w'"
  by (rule wl_inv_local [OF inv loc w' wl_base_cong [OF d(1) wl_invD(3) [OF inv]] wl_hold_ok_cong [OF d]
        wl_hold_ok_cong [OF d(1) wl_invD(12) [OF inv]]])

lemma wl_hold_scan:
  assumes "wl_inv q w" and "q \<noteq> []"
  shows "wl_hold_ok (wl_data w) q (WlScan (wl_word w))"
proof -
  obtain us vs where q: "q = us @ vs" "wl_list (wl_data w) us vs"
    using wl_invD(3) [OF assms(1)] assms(2) by (auto simp: wl_base_def)
  then show ?thesis using wl_invD(1) [OF assms(1)] head_of_hd [OF assms(2)] unfolding wl_hold_ok.simps
    by - (rule exI [of _ "[]"], rule exI [of _ us], rule exI [of _ vs], simp)
qed

lemma wl_exchange_cases:
  "wl_exchange spur old new w ok err =
     (if \<not> spur \<and> wl_word w = old then ok (w\<lparr>wl_word := new\<rparr>) else err (wl_word w) w)"
  by (simp add: wl_exchange_def atomic_simps)

lemmas wl_local_simps = wl_local_def wl_plain_def wl_goto_def

lemma wl_lock_inv:
  assumes inv: "wl_inv q w" and l: "wl_loc w t = WlFast"
  shows "wl_inv q (wl_lock t c w)"
proof (cases "\<not> spurious c \<and> wl_word w = wl_new")
  case True
  show ?thesis
    by (rule wl_inv_local_data [OF inv, of t WlOwner])
      (use True l wl_invD(1) [OF inv] in \<open>auto simp: wl_lock_def wl_exchange_cases wl_local_simps wl_new_def\<close>)
next
  case False
  show ?thesis
    by (rule wl_inv_local_data [OF inv, of t WlEntry])
      (use False l in \<open>auto simp: wl_lock_def wl_exchange_cases wl_local_simps\<close>)
qed

lemma wl_unlock_inv:
  assumes inv: "wl_inv q w" and l: "wl_loc w t = WlUnlock"
  shows "wl_inv q (wl_unlock t w)"
  by (rule wl_inv_local_data [OF inv, of t "if wl_nothing_to_wake (wl_word w) then WlIdle else WlUnlockEntry"])
    (use l wl_invD(1) [OF inv] in \<open>auto simp: wl_unlock_def wl_local_simps wl_nothing_to_wake_def\<close>)

lemma wl_unlock_slow_inv:
  assumes inv: "wl_inv q w" and l: "wl_loc w t = WlUnlockSlow st"
  shows "wl_inv q (wl_unlock_slow t c st w)"
proof -
  consider "wl_nothing_to_wake st" | "\<not> wl_nothing_to_wake st" "\<not> spurious c \<and> wl_word w = st"
    | "\<not> wl_nothing_to_wake st" "\<not> (\<not> spurious c \<and> wl_word w = st)" by blast
  then show ?thesis
  proof cases
    case 1
    show ?thesis
      by (rule wl_inv_local_data [OF inv, of t WlIdle])
        (use 1 l in \<open>auto simp: wl_unlock_slow_def wl_local_simps\<close>)
  next
    case 2
    then have q: "q \<noteq> []" using wl_invD(1) [OF inv] by (auto simp: wl_nothing_to_wake_def)
    have "wl_hold_ok (wl_data w) q (WlScan st)" using wl_hold_scan [OF inv q] 2 by simp
    then show ?thesis
      by (intro wl_inv_local_data [OF inv, of t "WlScan st"])
        (use 2 l in \<open>auto simp: wl_unlock_slow_def wl_exchange_cases wl_local_simps wl_nothing_to_wake_def\<close>)
  next
    case 3
    show ?thesis
      by (rule wl_inv_local_data [OF inv, of t "WlUnlockSlow (wl_word w)"])
        (use 3 l wl_invD(1) [OF inv] in
          \<open>auto simp: wl_unlock_slow_def wl_exchange_cases wl_local_simps wl_nothing_to_wake_def\<close>)
  qed
qed

text \<open>A thread joins the queue.\<close>

lemma wl_push_inv:
  assumes inv: "wl_inv q w" and l: "wl_loc w t = WlSlow sw st" and st: "wl_word w = st" "ws_locked st"
    and w': "wl_word w' = st\<lparr>ws_head := Some t\<rparr>" "wl_loc w' = (wl_loc w)(t := WlAsleep)"
      "wl_parked w' = (wl_parked w)(t := True)"
      "wl_data w' = (wl_data w)(t := wl_enqueue_node t (ws_head st) (wl_data w t))"
  shows "wl_inv (t # q) w'"
proof -
  note I = wl_invD [OF inv]
  have tq: "t \<notin> set q" using I(4) [of t] l by auto
  have hd: "ws_head st = head_of q" using I(1) st by simp
  have own: "wl_own (wl_loc w' u) \<longleftrightarrow> wl_own (wl_loc w u)" for u using l by (simp add: w'(2))
  have qh: "wl_qhold (wl_loc w' u) \<longleftrightarrow> wl_qhold (wl_loc w u)" for u using l by (simp add: w'(2))
  have wk: "wl_wakes (wl_loc w' u) v \<longleftrightarrow> wl_wakes (wl_loc w u) v" for u v using l by (simp add: w'(2))
  have nw: "\<not> wl_wakes (wl_loc w u) t" for u using I(6) [of u t] l by auto
  have ho: "wl_hold_ok (wl_data w') (t # q) (wl_loc w' u)" for u
    using wl_hold_ok_push [OF I(12) [of u] tq] unfolding w'(2,4) hd by simp
  show ?thesis
    unfolding wl_inv_def own qh wk
  proof (intro conjI allI impI ballI)
    show "ws_head (wl_word w') = head_of (t # q)" "distinct (t # q)" using w'(1) I(2) tq by simp_all
    show "wl_base (wl_data w') (t # q)" unfolding w'(4) hd by (rule wl_base_push [OF I(3) tq])
    show "wl_loc w' u = WlAsleep" "wl_parked w' u" if "u \<in> set (t # q)" for u
      using that I(4) [of u] by (auto simp: w'(2,3))
    show "u \<in> set (t # q) \<or> (\<exists>v. wl_wakes (wl_loc w v) u)" if "wl_loc w' u = WlAsleep" "wl_parked w' u" for u
      using that I(5) [of u] by (auto simp: w'(2,3) split: if_splits)
    show "wl_loc w' v = WlAsleep" "wl_parked w' v" "v \<notin> set (t # q)" if "wl_wakes (wl_loc w u) v" for u v
      using I(6) [OF that] nw [of u] that by (auto simp: w'(2,3))
    show "u = v" if "wl_wakes (wl_loc w u) x" "wl_wakes (wl_loc w v) x" for u v x using I(7) that by blast
    show "ws_locked (wl_word w') = (\<exists>u. wl_own (wl_loc w u))" using I(8) st w'(1) by simp
    show "ws_qlocked (wl_word w') = (\<exists>u. wl_qhold (wl_loc w u))" using I(10) st w'(1) by simp
    show "u = v" if "wl_own (wl_loc w u)" "wl_own (wl_loc w v)" for u v using that I(9) by blast
    show "u = v" if "wl_qhold (wl_loc w u)" "wl_qhold (wl_loc w v)" for u v using that I(11) by blast
    show "wl_hold_ok (wl_data w') (t # q) (wl_loc w' u)" for u by (rule ho)
    show "\<exists>u. wl_cares w' u" if "\<not> ws_locked (wl_word w')" using that st w'(1) by simp
  qed
qed

lemma wl_lock_slow_inv:
  assumes inv: "wl_inv q w" and l: "wl_loc w t = WlSlow sw st"
  shows "wl_inv (if wl_loc (wl_lock_slow t c sw st w) t = WlAsleep then t # q else q) (wl_lock_slow t c sw st w)"
proof -
  have tq: "t \<notin> set q" using wl_invD(4) [OF inv, of t] l by auto
  consider "\<not> ws_locked st" "\<not> spurious c \<and> wl_word w = st" | "\<not> ws_locked st" "\<not> (\<not> spurious c \<and> wl_word w = st)"
    | "ws_locked st" "ws_head st = None \<and> fst (spin sw)"
    | "ws_locked st" "\<not> (ws_head st = None \<and> fst (spin sw))" "\<not> spurious c \<and> wl_word w = st"
    | "ws_locked st" "\<not> (ws_head st = None \<and> fst (spin sw))" "\<not> (\<not> spurious c \<and> wl_word w = st)" by blast
  then show ?thesis
  proof cases
    case 1
    have "wl_inv q (wl_lock_slow t c sw st w)"
      by (rule wl_inv_local_data [OF inv, of t WlOwner])
        (use 1 l in \<open>auto simp: wl_lock_slow_def wl_exchange_cases wl_local_simps\<close>)
    then show ?thesis using 1 by (auto simp: wl_lock_slow_def wl_exchange_cases wl_goto_def Let_def)
  next
    case 2
    have "wl_inv q (wl_lock_slow t c sw st w)"
      by (rule wl_inv_local_data [OF inv, of t "WlSlow sw (wl_word w)"])
        (use 2 l in \<open>auto simp: wl_lock_slow_def wl_exchange_cases wl_local_simps\<close>)
    then show ?thesis using 2 by (auto simp: wl_lock_slow_def wl_exchange_cases wl_goto_def Let_def)
  next
    case 3
    have "wl_inv q (wl_lock_slow t c sw st w)"
      by (rule wl_inv_local_data [OF inv, of t "WlSlow (fst (snd (spin sw))) (wl_word w)"])
        (use 3 l in \<open>auto simp: wl_lock_slow_def wl_local_simps\<close>)
    then show ?thesis using 3 by (auto simp: wl_lock_slow_def wl_exchange_cases wl_goto_def Let_def)
  next
    case 4
    have "wl_inv (t # q) (wl_lock_slow t c sw st w)"
      by (rule wl_push_inv [OF inv l])
        (use 4 in \<open>auto simp: wl_lock_slow_def wl_exchange_cases wl_goto_def Let_def\<close>)
    then show ?thesis using 4 by (auto simp: wl_lock_slow_def wl_exchange_cases wl_goto_def Let_def)
  next
    case 5
    have "wl_inv q (wl_lock_slow t c sw st w)"
      by (rule wl_inv_local_data [OF inv, of t "WlSlow sw (wl_word w)"])
        (use 5 l tq in \<open>auto simp: wl_lock_slow_def wl_exchange_cases wl_local_simps Let_def\<close>)
    then show ?thesis using 5 by (auto simp: wl_lock_slow_def wl_exchange_cases wl_goto_def Let_def)
  qed
qed

lemma wl_scan_inv:
  assumes inv: "wl_inv q w" and l: "wl_loc w t = WlScan st"
  shows "\<exists>w'. wl_scan t st w = Some w' \<and> wl_inv q w'"
proof -
  note I = wl_invD [OF inv]
  obtain ps us vs where q: "q = ps @ us @ vs" "ws_head st = Some (hd (us @ vs))" "wl_list (wl_data w) (ps @ us) vs"
    using I(12) [of t] l by auto
  obtain d where d: "wl_fill (wl_data w) (hd (us @ vs)) = Some (d, last vs)"
      "wl_list (d(hd (us @ vs) := (d (hd (us @ vs)))\<lparr>wl_queue_tail := Some (last vs)\<rparr>)) ps (us @ vs)"
    using wl_list_fill [OF q(3)] I(2) q(1) by auto
  define h where "h = hd (us @ vs)"
  define w' where "w' = wl_goto t (WlDecide st (last vs)) (w\<lparr>wl_data := d(h := (d h)\<lparr>wl_queue_tail := Some (last vs)\<rparr>)\<rparr>)"
  have s: "wl_scan t st w = Some w'" using q(2) d(1) by (simp add: wl_scan_def w'_def h_def)
  have dw: "wl_data w' = d(h := (d h)\<lparr>wl_queue_tail := Some (last vs)\<rparr>)" by (simp add: w'_def wl_goto_def)
  have lst: "wl_list (wl_data w') ps (us @ vs)" using d(2) by (simp add: dw h_def)
  have vs: "last (us @ vs) = last vs" using wl_list_ne [OF q(3)] by simp
  have ql: "ws_qlocked (wl_word w)" using I(10) l by (metis wl_qhold.simps(1))
  have "wl_inv q w'"
  proof (rule wl_inv_local [OF inv, of t "WlDecide st (last vs)"])
    show "wl_base (wl_data w') q" using lst q(1) by (auto simp: wl_base_def)
    show "wl_hold_ok (wl_data w') q (WlDecide st (last vs))"
      unfolding wl_hold_ok.simps
      by (rule exI [of _ ps], rule exI [of _ "us @ vs"]) (use lst q vs in simp)
    show "wl_hold_ok (wl_data w') q (wl_loc w u)" if "u \<noteq> t" for u
    proof -
      have "\<not> wl_qhold (wl_loc w u)" using I(11) [of u t] l that by auto
      then show ?thesis by (cases "wl_loc w u") simp_all
    qed
  qed (use l ql in \<open>auto simp: w'_def wl_local_simps\<close>)
  then show ?thesis using s by blast
qed

text \<open>The holder takes the oldest thread out of the queue.\<close>

lemma wl_remove_inv:
  assumes inv: "wl_inv q w" and l: "wl_qhold (wl_loc w t)" and q: "q \<noteq> []"
    and w': "wl_loc w' = (wl_loc w)(t := WlWake (last q))" "wl_parked w' = wl_parked w"
      "ws_head (wl_word w') = head_of (butlast q)" "ws_locked (wl_word w') = ws_locked (wl_word w)"
      "\<not> ws_qlocked (wl_word w')"
    and d: "wl_base (wl_data w') (butlast q)"
  shows "wl_inv (butlast q) w'"
proof -
  note I = wl_invD [OF inv]
  have lt: "last q \<in> set q" "last q \<notin> set (butlast q)" "set (butlast q) \<subseteq> set q"
    using q I(2) by (auto simp: not_distinct_conv_prefix dest: in_set_butlastD)
      (metis append_butlast_last_id distinct_append disjoint_insert(2) distinct.simps(2) list.set(2))
  have la: "wl_loc w (last q) = WlAsleep" "wl_parked w (last q)" using I(4) lt(1) by blast+
  have tw: "\<not> wl_wakes (wl_loc w t) v" for v using l by (cases "wl_loc w t") simp_all
  have wk: "wl_wakes (wl_loc w' u) v \<longleftrightarrow> (if u = t then v = last q else wl_wakes (wl_loc w u) v)" for u v
    by (auto simp: w'(1))
  have nl: "\<not> wl_wakes (wl_loc w u) (last q)" for u using I(6) [of u "last q"] lt(1) by blast
  have as: "wl_loc w' u = WlAsleep \<longleftrightarrow> wl_loc w u = WlAsleep" for u using l by (auto simp: w'(1))
  have own: "wl_own (wl_loc w' u) \<longleftrightarrow> wl_own (wl_loc w u)" for u
    using l by (cases "wl_loc w t") (auto simp: w'(1))
  have qh: "\<not> wl_qhold (wl_loc w' u)" for u using I(11) [of u t] l by (auto simp: w'(1))
  show ?thesis
    unfolding wl_inv_def own w'(2,4)
  proof (intro conjI allI impI ballI)
    show "ws_head (wl_word w') = head_of (butlast q)" "wl_base (wl_data w') (butlast q)" by (rule w'(3), rule d)
    show "distinct (butlast q)" using I(2) by (rule distinct_butlast)
    show "wl_loc w' u = WlAsleep" "wl_parked w u" if "u \<in> set (butlast q)" for u
      using I(4) [of u] that lt(3) as by blast+
    show "u \<in> set (butlast q) \<or> (\<exists>v. wl_wakes (wl_loc w' v) u)" if "wl_loc w' u = WlAsleep" "wl_parked w u" for u
    proof -
      from that I(5) [of u] as consider "u \<in> set (butlast q)" | "u = last q" | v where "wl_wakes (wl_loc w v) u"
        by (metis append_butlast_last_id q rotate1.simps(2) set_ConsD set_rotate1)
      then show ?thesis using wk tw by cases (blast, metis, metis)
    qed
    show "wl_loc w' v = WlAsleep" "wl_parked w v" "v \<notin> set (butlast q)" if "wl_wakes (wl_loc w' u) v" for u v
      using that I(6) [of u v] la lt as unfolding wk by (auto split: if_splits)
    show "u = v" if "wl_wakes (wl_loc w' u) x" "wl_wakes (wl_loc w' v) x" for u v x
      using that I(7) [of u x v] nl unfolding wk by (auto split: if_splits)
    show "ws_locked (wl_word w) = (\<exists>u. wl_own (wl_loc w u))" by (rule I(8))
    show "u = v" if "wl_own (wl_loc w u)" "wl_own (wl_loc w v)" for u v using that I(9) by blast
    show "ws_qlocked (wl_word w') = (\<exists>u. wl_qhold (wl_loc w' u))" using w'(5) qh by blast
    show "u = v" if "wl_qhold (wl_loc w' u)" "wl_qhold (wl_loc w' v)" for u v using that qh by blast
    show "wl_hold_ok (wl_data w') (butlast q) (wl_loc w' u)" for u
      using qh [of u] by (cases "wl_loc w' u") simp_all
    show "\<exists>u. wl_cares w' u" by (rule exI [of _ t]) (simp add: wl_cares_def w'(1))
  qed
qed

lemma prevs_last:
  assumes "prevs d vs" and "1 < length vs"
  shows "wl_prev (d (last vs)) = Some (last (butlast vs))"
  using assms
proof (induction d vs rule: prevs.induct)
  case (1 d x y ys)
  then show ?case by (cases ys) auto
qed simp_all

lemma prevs_butlast: "prevs d vs \<Longrightarrow> prevs d (butlast vs)"
  by (induction d vs rule: prevs.induct) (auto split: if_splits elim: prevs.elims)

lemma wl_decide_inv:
  assumes inv: "wl_inv q w" and l: "wl_loc w t = WlDecide st tail"
  shows "(wl_loc (wl_decide t c st tail w) t = WlWake tail \<and> tail = last q \<and> wl_inv (butlast q) (wl_decide t c st tail w))
    \<or> ((\<forall>u. wl_loc (wl_decide t c st tail w) t \<noteq> WlWake u) \<and> wl_inv q (wl_decide t c st tail w))"
proof -
  note I = wl_invD [OF inv]
  obtain ps vs where q: "q = ps @ vs" "wl_list (wl_data w) ps vs" "ws_head st = Some (hd vs)" "tail = last vs"
    using I(12) [of t] l by auto
  have ne: "q \<noteq> []" "vs \<noteq> []" using wl_list_ne [OF q(2)] q(1) by auto
  have tq: "tail = last q" using q(1,4) ne(2) by simp
  have pr: "prevs (wl_data w) vs" "wl_prev (wl_data w (hd vs)) = None" using q(2) by (auto simp: wl_list_def processed_def)
  have ql: "ws_qlocked (wl_word w)" using I(10) l by (metis wl_qhold.simps(2))
  have hold: "wl_qhold (wl_loc w t)" using l by simp
  have rescan: "wl_inv q (wl_goto t (WlScan (wl_word w)) w)"
    by (rule wl_inv_local_data [OF inv, of t "WlScan (wl_word w)"])
      (use l ql wl_hold_scan [OF inv ne(1)] in \<open>auto simp: wl_local_simps\<close>)
  consider "ws_locked st" | "\<not> ws_locked st" "wl_prev (wl_data w tail) = None"
    | nt where "\<not> ws_locked st" "wl_prev (wl_data w tail) = Some nt" by blast
  then show ?thesis
  proof cases
    case 1
    show ?thesis
    proof (cases "\<not> spurious c \<and> wl_word w = st")
      case True
      have "wl_inv q (wl_decide t c st tail w)"
        by (rule wl_inv_local_data [OF inv, of t WlIdle])
          (use 1 l True in \<open>auto simp: wl_decide_def wl_exchange_cases wl_local_simps\<close>)
      then show ?thesis using 1 True by (auto simp: wl_decide_def wl_exchange_cases wl_goto_def)
    next
      case False
      then have "wl_decide t c st tail w = wl_goto t (WlScan (wl_word w)) w"
        using 1 by (auto simp: wl_decide_def wl_exchange_cases)
      then show ?thesis using rescan by (auto simp: wl_goto_def)
    qed
  next
    case 2
    have one: "vs = [tail]"
    proof -
      have "\<not> 1 < length vs" using prevs_last [OF pr(1)] 2(2) q(4) by auto
      then show ?thesis using ne(2) q(4) by (cases vs) auto
    qed
    show ?thesis
    proof (cases "\<not> spurious c \<and> wl_word w = st")
      case True
      have "head_of q = Some tail" using I(1) True q(3) one by simp
      then have "q = [tail]" using I(2) q(1) one by (cases ps) auto
      then have "wl_inv (butlast q) (wl_decide t c st tail w)"
        by (intro wl_remove_inv [OF inv hold ne(1)])
          (use 2 True in \<open>auto simp: wl_decide_def wl_take_last_def wl_exchange_cases wl_goto_def wl_base_def\<close>)
      then show ?thesis using tq 2 True by (auto simp: wl_decide_def wl_take_last_def wl_exchange_cases wl_goto_def)
    next
      case False
      have "ws_head (wl_word w) \<noteq> None" using I(1) ne(1) by simp
      then have "wl_decide t c st tail w = wl_goto t (WlScan (wl_word w)) w"
        using 2 False by (auto simp: wl_decide_def wl_take_last_def wl_exchange_cases wl_after_fail_def)
      then show ?thesis using rescan by (auto simp: wl_goto_def)
    qed
  next
    case 3
    have two: "1 < length vs" using 3(2) pr(2) q(4) ne(2) by (cases vs; cases "tl vs") auto
    have nt: "nt = last (butlast vs)" using prevs_last [OF pr(1) two] 3(2) q(4) by simp
    define d where "d = (wl_data w)(hd vs := (wl_data w (hd vs))\<lparr>wl_queue_tail := Some nt\<rparr>)"
    define w' where "w' = wl_decide t c st tail w"
    have w': "wl_loc w' = (wl_loc w)(t := WlWake tail)" "wl_parked w' = wl_parked w" "wl_data w' = d"
        "wl_word w' = (wl_word w)\<lparr>ws_qlocked := False\<rparr>"
      using 3 q(3) by (simp_all add: w'_def wl_decide_def wl_goto_def Let_def d_def)
    obtain h r where hr: "vs = h # r" "r \<noteq> []" using two by (cases vs) auto
    have dis: "h \<notin> set ps" using I(2) q(1) hr by auto
    have bl: "butlast vs = h # butlast r" "butlast q = ps @ butlast vs" using hr q(1) by (auto simp: butlast_append)
    have "processed d (butlast vs)"
      using pr(2) prevs_butlast [OF pr(1)] prevs_cong [of "butlast vs" d "wl_data w"]
      by (auto simp: processed_def bl(1) d_def hr nt)
    moreover have dp: "d x = wl_data w x" if "x \<in> set ps" for x using that dis by (auto simp: d_def hr)
    then have "nexts d ps h = nexts (wl_data w) ps h" by (intro nexts_cong) simp
    then have "nexts d ps h" "\<forall>x\<in>set ps. wl_prev (d x) = None" using q(2) dp by (auto simp: wl_list_def hr)
    ultimately have "wl_list d ps (butlast vs)" by (simp add: wl_list_def bl(1))
    then have base: "wl_base d (butlast q)" unfolding wl_base_def bl(2) by blast
    have hd: "head_of (butlast q) = head_of q" using hr bl by (cases ps) (auto simp: q(1))
    have "wl_inv (butlast q) w'"
      by (rule wl_remove_inv [OF inv hold ne(1)]) (use I(1) base hd tq in \<open>simp_all add: w'\<close>)
    then show ?thesis using tq w'(1) unfolding w'_def by simp
  qed
qed

lemma wl_wake_inv:
  assumes inv: "wl_inv q w" and l: "wl_loc w t = WlWake u"
    and w': "w' = wl_goto t WlIdle (w\<lparr>wl_parked := (wl_parked w)(u := False)\<rparr>)"
  shows "wl_inv q w'"
proof -
  note I = wl_invD [OF inv]
  have u: "wl_loc w u = WlAsleep" "wl_parked w u" "u \<notin> set q" using I(6) [of t u] l by auto
  have only: "v = t" if "wl_wakes (wl_loc w v) u" for v using I(7) [of v u t] that l by simp
  have ut: "u \<noteq> t" using u(1) l by auto
  have loc: "wl_loc w' = (wl_loc w)(t := WlIdle)" "wl_parked w' = (wl_parked w)(u := False)" "wl_word w' = wl_word w"
    "wl_data w' = wl_data w" by (simp_all add: w' wl_goto_def)
  have wk: "wl_wakes (wl_loc w' v) x \<longleftrightarrow> v \<noteq> t \<and> wl_wakes (wl_loc w v) x" for v x by (simp add: loc(1))
  have as: "wl_loc w' v = WlAsleep \<longleftrightarrow> wl_loc w v = WlAsleep" for v using l by (auto simp: loc(1))
  have own: "wl_own (wl_loc w' v) \<longleftrightarrow> wl_own (wl_loc w v)" for v using l by (simp add: loc(1))
  have qh: "wl_qhold (wl_loc w' v) \<longleftrightarrow> wl_qhold (wl_loc w v)" for v using l by (simp add: loc(1))
  have ho: "wl_hold_ok (wl_data w) q (wl_loc w' v)" for v using I(12) [of v] by (simp add: loc(1))
  show ?thesis
    unfolding wl_inv_def own qh as loc(3,4)
  proof (intro conjI allI impI ballI)
    show "wl_loc w v = WlAsleep" "wl_parked w' v" if "v \<in> set q" for v using I(4) [OF that] u(3) that by (auto simp: loc(2))
    show "v \<in> set q \<or> (\<exists>x. wl_wakes (wl_loc w' x) v)" if "wl_loc w v = WlAsleep" "wl_parked w' v" for v
    proof -
      have "v \<noteq> u" "wl_parked w v" using that(2) by (auto simp: loc(2) split: if_splits)
      moreover have "wl_wakes (wl_loc w t) x \<Longrightarrow> x = u" for x using l by simp
      ultimately show ?thesis using I(5) [OF that(1)] wk by metis
    qed
    show "wl_loc w x = WlAsleep" "wl_parked w' x" "x \<notin> set q" if "wl_wakes (wl_loc w' v) x" for v x
      using that I(6) [of v x] only [of v] unfolding wk by (auto simp: loc(2))
    show "v = y" if "wl_wakes (wl_loc w' v) x" "wl_wakes (wl_loc w' y) x" for v y x using that I(7) unfolding wk by blast
    show "\<exists>v. wl_cares w' v" by (rule exI [of _ u]) (simp add: wl_cares_def loc u ut)
  qed (use I ho in blast)+
qed

lemma wl_wakeup_inv:
  assumes inv: "wl_inv q w" and l: "wl_loc w t = WlAsleep" "\<not> wl_parked w t"
    and w': "w' = wl_goto t WlEntry w"
  shows "wl_inv q w'"
proof -
  note I = wl_invD [OF inv]
  have loc: "wl_loc w' = (wl_loc w)(t := WlEntry)" "wl_parked w' = wl_parked w" "wl_word w' = wl_word w"
    "wl_data w' = wl_data w" by (simp_all add: w' wl_goto_def)
  have tq: "t \<notin> set q" using I(4) [of t] l(2) by blast
  have wk: "wl_wakes (wl_loc w' v) x \<longleftrightarrow> wl_wakes (wl_loc w v) x" for v x using l by (simp add: loc(1))
  have nw: "\<not> wl_wakes (wl_loc w v) t" for v using I(6) [of v t] l(2) by blast
  have own: "wl_own (wl_loc w' v) \<longleftrightarrow> wl_own (wl_loc w v)" for v using l by (simp add: loc(1))
  have qh: "wl_qhold (wl_loc w' v) \<longleftrightarrow> wl_qhold (wl_loc w v)" for v using l by (simp add: loc(1))
  have ho: "wl_hold_ok (wl_data w) q (wl_loc w' v)" for v using I(12) [of v] by (simp add: loc(1))
  show ?thesis
    unfolding wl_inv_def own qh wk loc(2-4)
  proof (intro conjI allI impI ballI)
    show "wl_loc w' v = WlAsleep" "wl_parked w v" if "v \<in> set q" for v using I(4) [OF that] tq that by (auto simp: loc(1))
    show "v \<in> set q \<or> (\<exists>x. wl_wakes (wl_loc w x) v)" if "wl_loc w' v = WlAsleep" "wl_parked w v" for v
      using that I(5) [of v] by (auto simp: loc(1) split: if_splits)
    show "wl_loc w' x = WlAsleep" "wl_parked w x" "x \<notin> set q" if "wl_wakes (wl_loc w v) x" for v x
      using I(6) [OF that] nw [of v] that by (auto simp: loc(1))
    show "\<exists>v. wl_cares w' v" by (rule exI [of _ t]) (simp add: wl_cares_def loc)
  qed (use I ho in blast)+
qed

text \<open>What a step does to the queue: a thread that goes to sleep joins it, a wake-up takes out the oldest.\<close>

definition wl_queue_next :: "tid \<Rightarrow> wl_world \<Rightarrow> wl_world \<Rightarrow> tid list \<Rightarrow> tid list" where
  "wl_queue_next t w w' q = (if wl_loc w' t = WlAsleep then t # q
     else case wl_loc w' t of WlWake u \<Rightarrow> butlast q | _ \<Rightarrow> q)"

lemma wl_step_inv:
  assumes inv: "wl_inv q w" and s: "wl_step (t, c) w = Some w'"
  shows "wl_inv (wl_queue_next t w w' q) w' \<and> (\<forall>u. wl_loc w' t = WlWake u \<longrightarrow> q \<noteq> [] \<and> u = last q)"
proof -
  have same: ?thesis if "wl_inv q w'" "wl_loc w' t \<noteq> WlAsleep" "\<And>u. wl_loc w' t \<noteq> WlWake u"
    using that by (cases "wl_loc w' t") (auto simp: wl_queue_next_def)
  show ?thesis
  proof (cases "wl_loc w t")
    case WlIdle
    have "wl_inv q w'"
      by (rule wl_inv_local_data [OF inv, of t WlFast])
        (use s WlIdle in \<open>auto simp: wl_step_def wl_local_simps\<close>)
    then show ?thesis using s WlIdle by (intro same) (auto simp: wl_step_def wl_goto_def)
  next
    case WlFast
    then show ?thesis using wl_lock_inv [OF inv WlFast, of c] s
      by (intro same) (auto simp: wl_step_def wl_lock_def wl_exchange_cases wl_goto_def split: if_splits)
  next
    case WlEntry
    have "wl_inv q w'"
      by (rule wl_inv_local_data [OF inv, of t "WlSlow SpinWait_new (wl_word w)"])
        (use s WlEntry in \<open>auto simp: wl_step_def wl_local_simps\<close>)
    then show ?thesis using s WlEntry by (intro same) (auto simp: wl_step_def wl_goto_def)
  next
    case (WlSlow sw st)
    then have w': "w' = wl_lock_slow t c sw st w" using s by (simp add: wl_step_def)
    have "wl_loc w' t \<noteq> WlWake u" for u
      by (simp add: w' wl_lock_slow_def wl_exchange_cases wl_goto_def Let_def)
    then show ?thesis using wl_lock_slow_inv [OF inv WlSlow, of c] unfolding w' [symmetric]
      by (cases "wl_loc w' t") (auto simp: wl_queue_next_def)
  next
    case WlAsleep
    then show ?thesis using wl_wakeup_inv [OF inv WlAsleep] s
      by (intro same) (auto simp: wl_step_def wl_goto_def split: if_splits)
  next
    case WlOwner
    have "ws_locked (wl_word w)" using wl_invD(8) [OF inv] WlOwner by (metis wl_own.simps(1))
    then have "wl_inv q w'"
      by (intro wl_inv_local_data [OF inv, of t WlUnlock])
        (use s WlOwner in \<open>auto simp: wl_step_def wl_local_simps\<close>)
    then show ?thesis using s WlOwner by (intro same) (auto simp: wl_step_def wl_goto_def)
  next
    case WlUnlock
    then show ?thesis using wl_unlock_inv [OF inv WlUnlock] s
      by (intro same) (auto simp: wl_step_def wl_unlock_def wl_goto_def split: if_splits)
  next
    case WlUnlockEntry
    have "wl_inv q w'"
      by (rule wl_inv_local_data [OF inv, of t "WlUnlockSlow (wl_word w)"])
        (use s WlUnlockEntry wl_invD(1) [OF inv] in \<open>auto simp: wl_step_def wl_local_simps wl_nothing_to_wake_def\<close>)
    then show ?thesis using s WlUnlockEntry by (intro same) (auto simp: wl_step_def wl_goto_def)
  next
    case (WlUnlockSlow st)
    then show ?thesis using wl_unlock_slow_inv [OF inv WlUnlockSlow, of c] s
      by (intro same) (auto simp: wl_step_def wl_unlock_slow_def wl_exchange_cases wl_goto_def split: if_splits)
  next
    case (WlScan st)
    then have "wl_scan t st w = Some w'" using s by (simp add: wl_step_def)
    then show ?thesis using wl_scan_inv [OF inv WlScan]
      by (intro same) (auto simp: wl_scan_def wl_goto_def split: option.splits)
  next
    case (WlDecide st tail)
    then have w': "w' = wl_decide t c st tail w" using s by (simp add: wl_step_def)
    have na: "wl_loc w' t \<noteq> WlAsleep"
      by (auto simp: w' wl_decide_def wl_take_last_def wl_exchange_cases wl_after_fail_def wl_goto_def Let_def split: option.split)
    have "q \<noteq> []" using wl_invD(12) [OF inv, of t] WlDecide wl_list_ne by auto
    then show ?thesis using wl_decide_inv [OF inv WlDecide, of c] na same unfolding w' [symmetric]
      by (elim disjE conjE) (simp add: wl_queue_next_def, blast)
  next
    case (WlLast st tail)
    then show ?thesis using wl_invD(12) [OF inv, of t] by simp
  next
    case (WlWake u)
    then show ?thesis using wl_wake_inv [OF inv WlWake] s
      by (intro same) (auto simp: wl_step_def wl_goto_def)
  qed
qed

lemma wl_start_inv: "wl_inv [] wl_start"
  by (simp add: wl_inv_def wl_start_def wl_new_def wl_base_def)

lemma wl_reach_inv:
  assumes "wl_reach wl_start w"
  obtains q where "wl_inv q w"
  using assms
proof (induction arbitrary: thesis rule: wl_reach.induct)
  case wl_init
  then show ?case using wl_start_inv by blast
next
  case (wl_reach_next w tc w')
  then show ?case using wl_step_inv [of _ w "fst tc" "snd tc" w'] by (metis prod.collapse)
qed

section \<open>Theorems\<close>

text \<open>
  A schedule in which thread 2 holds the lock and threads 3 and 4 have gone to sleep behind
  it, and one in which 2 has unlocked and holds the queue lock.
\<close>

definition wl_schedule :: "(tid \<times> nat) list" where
  "wl_schedule = [(2, 0), (2, 0)] @ replicate 14 (3, 0) @ replicate 4 (4, 0)"

lemma wl_schedule_run:
  "map_option (\<lambda>w. (wl_loc w 2, wl_loc w 3, wl_loc w 4, wl_parked w 3, wl_parked w 4, wl_word w)) (wl_run wl_schedule wl_start) =
     Some (WlOwner, WlAsleep, WlAsleep, True, True, \<lparr>ws_head = Some 4, ws_locked = True, ws_qlocked = False\<rparr>)"
  by code_simp

text \<open>
  Claim C21. The word lock excludes: whatever the threads do, at most one is between acquiring
  and releasing it, and the locked bit is set while one is.
\<close>

theorem wl_mutual_exclusion:
  assumes "wl_reach wl_start w" and "wl_own (wl_loc w t)" and "wl_own (wl_loc w u)"
  shows "t = u \<and> ws_locked (wl_word w)"
proof -
  obtain q where inv: "wl_inv q w" using wl_reach_inv [OF assms(1)] .
  show ?thesis using wl_invD(8,9) [OF inv] assms(2,3) by blast
qed

theorem wl_mutual_exclusion_witness:
  "\<exists>w. wl_run wl_schedule wl_start = Some w \<and> wl_own (wl_loc w 2) \<and> ws_locked (wl_word w)"
proof -
  obtain w where w: "wl_run wl_schedule wl_start = Some w" using wl_schedule_run by auto
  have l: "wl_loc w 2 = WlOwner" using wl_schedule_run [unfolded w] by simp
  from wl_mutual_exclusion [OF wl_run_reach [OF w wl_init], of 2 2] w l show ?thesis by auto
qed

text \<open>
  Claim C22. No waiter is forgotten: while a thread sleeps in \<open>lock_slow\<close> some other thread holds the
  lock, is going to look at it again, or is about to wake somebody, and that thread can take a step. In particular the walk of
  \<open>unlock_slow\<close> over the queue ends and meets no null pointer.
\<close>

theorem wl_no_lost_wakeup:
  assumes "wl_reach wl_start w" and "wl_loc w t = WlAsleep" and "wl_parked w t"
  shows "\<exists>u w'. u \<noteq> t \<and> (wl_own (wl_loc w u) \<or> wl_cares w u) \<and> wl_step (u, c) w = Some w'"
proof -
  obtain q where inv: "wl_inv q w" using wl_reach_inv [OF assms(1)] .
  have "\<exists>u. wl_own (wl_loc w u) \<or> wl_cares w u"
  proof (cases "t \<in> set q")
    case True
    then have "q \<noteq> []" by auto
    then show ?thesis using wl_invD(8,13) [OF inv] by blast
  next
    case False
    then obtain u where "wl_wakes (wl_loc w u) t" using wl_invD(5) [OF inv assms(2,3)] by blast
    then have "wl_cares w u" by (cases "wl_loc w u") (simp_all add: wl_cares_def)
    then show ?thesis by blast
  qed
  then obtain u where u: "wl_own (wl_loc w u) \<or> wl_cares w u" by blast
  then have "u \<noteq> t" using assms(2,3) by (auto simp: wl_cares_def)
  moreover have "\<exists>w'. wl_step (u, c) w = Some w'"
  proof (cases "wl_loc w u")
    case (WlScan st)
    then show ?thesis using wl_scan_inv [OF inv WlScan] by (auto simp: wl_step_def)
  next
    case WlAsleep
    then show ?thesis using u by (auto simp: wl_step_def wl_cares_def)
  qed (simp_all add: wl_step_def)
  ultimately show ?thesis using u by blast
qed

theorem wl_no_lost_wakeup_witness:
  "\<exists>w. wl_run wl_schedule wl_start = Some w \<and> wl_loc w 3 = WlAsleep
     \<and> (\<exists>u w'. u \<noteq> 3 \<and> (wl_own (wl_loc w u) \<or> wl_cares w u) \<and> wl_step (u, 0) w = Some w')"
proof -
  obtain w where w: "wl_run wl_schedule wl_start = Some w" using wl_schedule_run by auto
  have l: "wl_loc w 3 = WlAsleep" "wl_parked w 3" using wl_schedule_run [unfolded w] by simp_all
  from wl_no_lost_wakeup [OF wl_run_reach [OF w wl_init] l] w l show ?thesis by blast
qed

text \<open>
  Claim C23. First come, first served: the waiting threads form a list, newest first. A step puts the thread that
  goes to sleep at its front, takes the last and so oldest thread out when it decides to wake one, and leaves it alone
  otherwise.
\<close>

theorem wl_fifo:
  assumes "wl_inv q w" and "wl_step (t, c) w = Some w'"
  shows "wl_inv (wl_queue_next t w w' q) w' \<and> (\<forall>u. wl_loc w' t = WlWake u \<longrightarrow> q \<noteq> [] \<and> u = last q)"
  by (rule wl_step_inv [OF assms])

theorem wl_fifo_witness:
  "\<exists>w w' q. wl_run (wl_schedule @ replicate 5 (2, 0)) wl_start = Some w \<and> wl_step (2, 0) w = Some w'
     \<and> wl_loc w' 2 = WlWake 3 \<and> 3 = last q \<and> wl_inv (butlast q) w'"
proof -
  let ?s = "wl_schedule @ replicate 5 (2, 0)"
  have *: "map_option (\<lambda>w. map_option (\<lambda>w'. wl_loc w' 2) (wl_step (2, 0) w)) (wl_run ?s wl_start) = Some (Some (WlWake 3))"
    by code_simp
  then obtain w w' where w: "wl_run ?s wl_start = Some w" "wl_step (2, 0) w = Some w'" "wl_loc w' 2 = WlWake 3" by auto
  obtain q where q: "wl_inv q w" using wl_reach_inv [OF wl_run_reach [OF w(1) wl_init]] .
  from wl_fifo [OF q w(2)] w show ?thesis by (auto simp: wl_queue_next_def)
qed

end
