(* ===== verification/Raw_Condvar.thy ===== *)
theory Raw_Condvar
  imports Mutex_Safety
begin

text \<open>
  The condition variable of \<open>src/src/raw_condvar.rs\<close> over the mutexes of \<open>Raw_Mutex\<close> and the
  parking lot. There are any number of mutexes, named by their addresses, and one
  condition variable with an address of its own; its state is the address of
  the mutex its waiters use, or null. The functions \<open>wait\<close>, \<open>wait_for\<close> and \<open>wait_until\<close> differ in the
  flag \<open>timed\<close> only.
\<close>

section \<open>State and operations\<close>

record cv_shared =
  cv_mutex :: "usize \<Rightarrow> u8"
  cv_state :: usize
  cv_requeued :: "tid \<Rightarrow> bool"

text \<open>
  The points of the functions, besides those of the mutex functions on the mutex at an address. \<open>cv_requeued\<close> holds each
  thread's local variable \<open>requeued\<close>, which the closure \<open>timed_out\<close> assigns. A thread that
  re-locks at the end of a wait carries the result of the wait; a thread in a notify function
  remembers the mutex it holds, if any. \<open>CvBad\<close> is the panic about a second mutex, which unwinds through
  the guard of the mutex.
\<close>

datatype (plugins only: code size) cv_pc =
    CvOut
  | InMutex usize "bool option" mutex_pc
  | CvPark usize bool
  | CvBad usize
  | CvUnlock usize bool
  | CvUnlockSlow usize bool
  | CvAsleep usize bool
  | CvExpired usize
  | CvNotifyOne "usize option"
  | CvNotifyOneSlow "usize option" usize
  | CvNotifyAll "usize option"
  | CvNotifyAllSlow "usize option" usize
  | CvNotified "usize option" nat

definition set_mutex :: "usize \<Rightarrow> u8 \<Rightarrow> cv_shared \<Rightarrow> cv_shared" where
  "set_mutex a s g = g\<lparr>cv_mutex := (cv_mutex g)(a := s)\<rparr>"

definition set_cv :: "usize \<Rightarrow> cv_shared \<Rightarrow> cv_shared" where
  "set_cv s g = g\<lparr>cv_state := s\<rparr>"

text \<open>The function of the mutex that looks at its state and marks it as having waiters.\<close>

definition mark_parked_if_locked :: "u8 \<Rightarrow> u8 \<times> bool" where
  "mark_parked_if_locked state = (if state AND LOCKED_BIT = 0 then (state, False) else (state OR PARKED_BIT, True))"

definition wait_validate :: "usize \<Rightarrow> cv_shared \<Rightarrow> cv_shared \<times> bool" where
  "wait_validate lock_addr g =
     (if cv_state g = 0 then (set_cv lock_addr g, True) else (g, cv_state g = lock_addr))"

definition wait_timed_out :: "usize \<Rightarrow> tid \<Rightarrow> usize \<Rightarrow> bool \<Rightarrow> cv_shared \<Rightarrow> cv_shared" where
  "wait_timed_out addr t k was_last_thread g =
     (let requeued = (k \<noteq> addr); g1 = g\<lparr>cv_requeued := (cv_requeued g)(t := requeued)\<rparr>
      in if \<not> requeued \<and> was_last_thread then set_cv 0 g1 else g1)"

definition wait_unparked :: "usize \<Rightarrow> usize \<Rightarrow> cv_pc" where
  "wait_unparked a token = InMutex a (Some False) (if token = TOKEN_HANDOFF then Owner else LockFast False)"

definition wait_expired :: "usize \<Rightarrow> tid \<Rightarrow> cv_shared \<Rightarrow> cv_pc" where
  "wait_expired a t g = InMutex a (Some (\<not> cv_requeued g t)) (LockFast False)"

definition wait_unlock :: "usize \<Rightarrow> bool \<Rightarrow> cv_shared \<Rightarrow> cv_shared \<times> cv_pc" where
  "wait_unlock a timed g = (case unlock_fast False (cv_mutex g a) of
     (s, p) \<Rightarrow> (set_mutex a s g, case p of Idle \<Rightarrow> CvAsleep a timed | _ \<Rightarrow> CvUnlockSlow a timed))"

definition notify_one_validate :: "usize \<Rightarrow> cv_shared \<Rightarrow> cv_shared \<times> RequeueOp" where
  "notify_one_validate m g =
     (if cv_state g \<noteq> m then (g, Abort)
      else (case mark_parked_if_locked (cv_mutex g m) of
        (s, locked) \<Rightarrow> (set_mutex m s g, if locked then RequeueOne else UnparkOne)))"

definition notify_one_callback :: "RequeueOp \<Rightarrow> UnparkResult \<Rightarrow> cv_shared \<Rightarrow> cv_shared \<times> usize" where
  "notify_one_callback op result g =
     (if have_more_threads result then g else set_cv 0 g, TOKEN_NORMAL)"

definition notify_all_validate :: "usize \<Rightarrow> cv_shared \<Rightarrow> cv_shared \<times> RequeueOp" where
  "notify_all_validate m g =
     (if cv_state g \<noteq> m then (g, Abort)
      else (case mark_parked_if_locked (cv_mutex g m) of
        (s, locked) \<Rightarrow> (set_mutex m s (set_cv 0 g), if locked then RequeueAll else UnparkOneRequeueRest)))"

definition notify_all_callback :: "usize \<Rightarrow> RequeueOp \<Rightarrow> UnparkResult \<Rightarrow> cv_shared \<Rightarrow> cv_shared \<times> usize" where
  "notify_all_callback m op result g =
     (if op = UnparkOneRequeueRest \<and> requeued_threads result \<noteq> 0
      then set_mutex m (mark_parked (cv_mutex g m)) g else g, TOKEN_NORMAL)"

definition notify_entry :: "(usize \<Rightarrow> cv_pc) \<Rightarrow> usize option \<Rightarrow> cv_shared \<Rightarrow> cv_pc" where
  "notify_entry slow bk g = (if cv_state g = 0 then CvNotified bk 0 else slow (cv_state g))"

definition notify_result :: "UnparkResult \<Rightarrow> nat" where
  "notify_result res = unparked_threads res + requeued_threads res"

text \<open>An action of the mutex at an address, on the state with all mutexes.\<close>

definition on_mutex :: "usize \<Rightarrow> (u8 \<Rightarrow> u8 \<times> 'b) \<Rightarrow> cv_shared \<Rightarrow> cv_shared \<times> 'b" where
  "on_mutex a f g = (case f (cv_mutex g a) of (s, x) \<Rightarrow> (set_mutex a s g, x))"

fun lift_action :: "usize \<Rightarrow> bool option \<Rightarrow> (u8, mutex_pc) action \<Rightarrow> (cv_shared, cv_pc) action" where
  "lift_action a r (Atomic f) = Atomic (\<lambda>n g. map_prod id (InMutex a r) (on_mutex a (f n) g))"
| "lift_action a r (ParkEnq k token v li ls) = ParkEnq k token (on_mutex a v) (InMutex a r li) (InMutex a r ls)"
| "lift_action a r (ParkSleep timed cb lu le) =
     ParkSleep timed (\<lambda>k last g. set_mutex a (cb k last (cv_mutex g a)) g) (\<lambda>token. InMutex a r (lu token)) (InMutex a r le)"
| "lift_action a r (CallUnparkOne k cb cont) = CallUnparkOne k (\<lambda>res. on_mutex a (cb res)) (\<lambda>res. InMutex a r (cont res))"
| "lift_action a r (CallUnparkAll k token cont) = CallUnparkAll k token (\<lambda>n. InMutex a r (cont n))"
| "lift_action a r (CallUnparkFilter k flt fs cb cont) =
     CallUnparkFilter k flt fs (\<lambda>x res. on_mutex a (cb x res)) (\<lambda>res. InMutex a r (cont res))"
| "lift_action a r (CallUnparkRequeue kf kt v cb cont) =
     CallUnparkRequeue kf kt (on_mutex a v) (\<lambda>op res. on_mutex a (cb op res)) (\<lambda>res. InMutex a r (cont res))"

text \<open>
  The program: a thread outside calls a notify function or a mutex function on some mutex, an owner
  of a mutex also waits, with or without a timeout.
\<close>

definition cv_call :: "usize \<Rightarrow> nat \<Rightarrow> cv_pc" where
  "cv_call c n = (let a = of_nat (n div 4) in
     if n = 0 then CvNotifyOne None else if n = 1 then CvNotifyAll None
     else if a = 0 \<or> a = c then CvOut else InMutex a None (mutex_call (n mod 4)))"

definition cv_leave :: "usize \<Rightarrow> nat \<Rightarrow> cv_pc" where
  "cv_leave a n = (if n < 3 then InMutex a None (mutex_leave n)
     else if n = 3 then CvPark a False else if n = 4 then CvPark a True
     else if n = 5 then CvNotifyOne (Some a) else if n = 6 then CvNotifyAll (Some a)
     else InMutex a None Owner)"

definition cv_back :: "usize option \<Rightarrow> cv_pc" where
  "cv_back bk = (case bk of None \<Rightarrow> CvOut | Some a \<Rightarrow> InMutex a None Owner)"

definition cv_in_mutex :: "usize \<Rightarrow> tid \<Rightarrow> usize \<Rightarrow> bool option \<Rightarrow> mutex_pc \<Rightarrow> (cv_shared, cv_pc) action" where
  "cv_in_mutex c t a r p = (case p of
     Idle \<Rightarrow> Atomic (\<lambda>n g. (g, cv_call c n))
   | Owner \<Rightarrow> Atomic (\<lambda>n g. (g, cv_leave a n))
   | _ \<Rightarrow> lift_action a r (mutex_client a t p))"

fun cv_client :: "usize \<Rightarrow> (cv_shared, cv_pc) client" where
  "cv_client c t CvOut = Atomic (\<lambda>n g. (g, cv_call c n))"
| "cv_client c t (InMutex a r p) = cv_in_mutex c t a r p"
| "cv_client c t (CvPark a timed) = ParkEnq c DEFAULT_PARK_TOKEN (wait_validate a) (CvBad a) (CvUnlock a timed)"
| "cv_client c t (CvBad a) = Atomic (\<lambda>n g. (g, InMutex a None (UnlockFast False)))"
| "cv_client c t (CvUnlock a timed) = Atomic (\<lambda>n. wait_unlock a timed)"
| "cv_client c t (CvUnlockSlow a timed) =
     CallUnparkOne a (\<lambda>res. on_mutex a (unlock_slow_callback False res)) (\<lambda>res. CvAsleep a timed)"
| "cv_client c t (CvAsleep a timed) = ParkSleep timed (wait_timed_out c t) (wait_unparked a) (CvExpired a)"
| "cv_client c t (CvExpired a) = Atomic (\<lambda>n g. (g, wait_expired a t g))"
| "cv_client c t (CvNotifyOne bk) = Atomic (\<lambda>n g. (g, notify_entry (CvNotifyOneSlow bk) bk g))"
| "cv_client c t (CvNotifyOneSlow bk m) =
     CallUnparkRequeue c m (notify_one_validate m) notify_one_callback (\<lambda>res. CvNotified bk (notify_result res))"
| "cv_client c t (CvNotifyAll bk) = Atomic (\<lambda>n g. (g, notify_entry (CvNotifyAllSlow bk) bk g))"
| "cv_client c t (CvNotifyAllSlow bk m) =
     CallUnparkRequeue c m (notify_all_validate m) (notify_all_callback m) (\<lambda>res. CvNotified bk (notify_result res))"
| "cv_client c t (CvNotified bk n) = Atomic (\<lambda>_ g. (g, cv_back bk))"

fun cv_asleep :: "cv_pc \<Rightarrow> bool" where
  "cv_asleep (InMutex a r p) = mutex_asleep p"
| "cv_asleep (CvUnlock a timed) = True"
| "cv_asleep (CvUnlockSlow a timed) = True"
| "cv_asleep (CvAsleep a timed) = True"
| "cv_asleep _ = False"

definition cv_start :: "(cv_shared, cv_pc) world" where
  "cv_start = world_init \<lparr>cv_mutex = (\<lambda>_. 0), cv_state = 0, cv_requeued = (\<lambda>_. False)\<rparr> (\<lambda>_. CvOut)"

lemma mark_parked_if_locked_atomic:
  "mark_parked_if_locked_loop s c s = (s', Inr b) \<longleftrightarrow> mark_parked_if_locked s = (s', b) \<and> (spurious c \<longrightarrow> \<not> b)"
  "mark_parked_if_locked_loop s c g = (s', Inl x) \<Longrightarrow> s' = g \<and> x = g"
  by (auto simp: mark_parked_if_locked_loop_def mark_parked_if_locked_def atomic_simps split: if_splits prod.splits)

lemma cv_call_awake: "\<not> cv_asleep (cv_call c n)"
  by (auto simp: cv_call_def mutex_call_def Let_def)

lemma cv_leave_awake: "\<not> cv_asleep (cv_leave a n)"
  by (auto simp: cv_leave_def mutex_leave_def)

lemmas cv_ops = wait_unlock_def wait_unparked_def wait_expired_def notify_entry_def cv_back_def

interpretation condvar: park_client "cv_client c" cv_asleep for c
proof
  fix t l
  note lift = cv_in_mutex_def mutex_ops atomic_simps on_mutex_def
  show "cv_asleep (snd (f n g)) = cv_asleep l" if "cv_client c t l = Atomic f" for f n g
    using that by (cases l) (auto simp: lift cv_ops cv_call_awake cv_leave_awake split: mutex_pc.splits if_splits prod.splits option.splits)
  show "\<not> cv_asleep l \<and> \<not> cv_asleep li \<and> cv_asleep ls" if "cv_client c t l = ParkEnq k token v li ls" for k token v li ls
    using that by (cases l) (auto simp: lift split: mutex_pc.splits)
  show "cv_asleep l \<and> \<not> cv_asleep (lu tok) \<and> \<not> cv_asleep le" if "cv_client c t l = ParkSleep timed cb lu le" for timed cb lu le tok
    using that by (cases l) (auto simp: lift cv_ops split: mutex_pc.splits if_splits)
  show "cv_asleep (cont r) = cv_asleep l" if "cv_client c t l = CallUnparkOne k cb cont" for k cb cont r
    using that by (cases l) (auto simp: lift split: mutex_pc.splits if_splits)
  show "cv_asleep (cont n) = cv_asleep l" if "cv_client c t l = CallUnparkAll k token cont" for k token cont n
    using that by (cases l) (auto simp: lift split: mutex_pc.splits)
  show "cv_asleep (cont r) = cv_asleep l" if "cv_client c t l = CallUnparkFilter k flt fs cb cont" for k flt fs cb cont r
    using that by (cases l) (auto simp: lift split: mutex_pc.splits)
  show "cv_asleep (cont r) = cv_asleep l" if "cv_client c t l = CallUnparkRequeue kf kt v cb cont" for kf kt v cb cont r
    using that by (cases l) (auto simp: lift split: mutex_pc.splits)
qed

end
