(* ===== verification/Condvar_Safety.thy ===== *)
theory Condvar_Safety
  imports Raw_Condvar
begin

text \<open>
  Mutexes and a condition variable together: mutual exclusion, no lost wake-ups for threads
  that were moved to a mutex, one mutex at a time for the waiters, and what the notify functions do.
\<close>

section \<open>One mutex\<close>

text \<open>
  The part of the invariant that concerns one mutex: its state, its queue, who owns it, who
  contends for it and whether a thread is about to put waiters into its queue.
\<close>

definition mx_ok :: "u8 \<Rightarrow> tid list \<Rightarrow> (tid \<Rightarrow> bool) \<Rightarrow> (tid \<Rightarrow> bool) \<Rightarrow> bool \<Rightarrow> bool" where
  "mx_ok s q own cont park \<longleftrightarrow> s \<in> {0, 1, 2, 3}
     \<and> (mutex_locked s \<longleftrightarrow> (\<exists>t. own t)) \<and> (\<forall>t u. own t \<longrightarrow> own u \<longrightarrow> t = u)
     \<and> (q \<noteq> [] \<longrightarrow> mutex_parked s) \<and> (park \<longrightarrow> s = 3)
     \<and> (q \<noteq> [] \<longrightarrow> \<not> mutex_locked s \<longrightarrow> (\<exists>t. cont t))"

lemma mx_okD:
  assumes "mx_ok s q own cont park"
  shows "s \<in> {0, 1, 2, 3}" and "mutex_locked s \<longleftrightarrow> (\<exists>t. own t)" and "own t \<Longrightarrow> own u \<Longrightarrow> t = u"
    and "q \<noteq> [] \<Longrightarrow> mutex_parked s" and "park \<Longrightarrow> s = 3"
    and "q \<noteq> [] \<Longrightarrow> \<not> mutex_locked s \<Longrightarrow> \<exists>t. cont t"
  using assms unfolding mx_ok_def by blast+

lemma mx_ok_frame:
  assumes ok: "mx_ok s q own cont park" and own: "\<And>u. own' u = own u" and cont: "\<And>u. cont u \<Longrightarrow> cont' u \<or> own' u"
    and park: "park' \<Longrightarrow> park \<or> s = 3"
  shows "mx_ok s q own' cont' park'"
proof -
  note I = mx_okD [OF ok]
  show ?thesis unfolding mx_ok_def own
  proof (intro conjI allI impI)
    show "\<exists>t. cont' t" if "q \<noteq> []" "\<not> mutex_locked s" using I(6) [OF that] cont own I(2) that(2) by blast
  qed (use I park in blast)+
qed

text \<open>A move of one thread, with whether it owns and contends before and after.\<close>

definition mx_move :: "u8 \<Rightarrow> bool \<Rightarrow> bool \<Rightarrow> u8 \<Rightarrow> bool \<Rightarrow> bool \<Rightarrow> bool" where
  "mx_move s o1 c1 s' o2 c2 \<longleftrightarrow> s' \<in> {0, 1, 2, 3} \<and> (o2 \<and> \<not> o1 \<longrightarrow> \<not> mutex_locked s)
     \<and> (mutex_locked s' \<longleftrightarrow> o2 \<or> \<not> o1 \<and> mutex_locked s)
     \<and> (mutex_parked s \<longrightarrow> mutex_parked s') \<and> (s = 3 \<longrightarrow> s' = 3)
     \<and> (mutex_parked s \<and> \<not> mutex_locked s' \<longrightarrow> c2 \<or> \<not> c1 \<and> \<not> mutex_locked s)"

lemma mx_ok_move:
  assumes ok: "mx_ok s q own cont park" and mv: "mx_move s (own t) (cont t) s' (own' t) (cont' t)"
    and own: "\<And>u. u \<noteq> t \<Longrightarrow> own' u = own u" and cont: "\<And>u. u \<noteq> t \<Longrightarrow> cont u \<Longrightarrow> cont' u" and park: "park' \<Longrightarrow> park"
  shows "mx_ok s' q own' cont' park'"
proof -
  note I = mx_okD [OF ok] and M = mv [unfolded mx_move_def]
  show ?thesis unfolding mx_ok_def
  proof (intro conjI allI impI)
    show "s' \<in> {0, 1, 2, 3}" using M by blast
    show "mutex_locked s' = (\<exists>t. own' t)" using M I(2,3) own by metis
    show "u = v" if "own' u" "own' v" for u v using that M I(2,3) own by metis
    show "mutex_parked s'" if "q \<noteq> []" using I(4) [OF that] M by blast
    show "s' = 3" if park' using I(5) [OF park [OF that]] M by blast
    show "\<exists>t. cont' t" if "q \<noteq> []" "\<not> mutex_locked s'"
      using I(4) [OF that(1)] I(6) [OF that(1)] M cont that(2) by metis
  qed
qed

text \<open>A thread or a notifier that validated finds the mutex locked with the parked bit.\<close>

lemma mx_ok_3:
  assumes "mx_ok s q own cont park" and "mutex_locked s" and "\<And>u. own' u = own u"
  shows "mx_ok 3 q' own' cont' park'"
  using mx_okD(2,3) [OF assms(1)] assms(2,3) by (auto simp: mx_ok_def mutex_locked_def mutex_parked_def)

lemma mx_ok_timeout:
  assumes ok: "mx_ok s q own cont park" and q: "q \<noteq> []" "q' \<noteq> [] \<Longrightarrow> s' = s"
    and s': "s' = s \<or> s' = s AND NOT PARKED_BIT"
    and own: "\<And>u. own' u = own u" and cont: "\<And>u. cont u \<Longrightarrow> cont' u"
  shows "mx_ok s' q' own' cont' False"
proof -
  note I = mx_okD [OF ok]
  have s: "s' \<in> {0, 1, 2, 3}" "mutex_locked s' = mutex_locked s"
    using s' I(1) by (auto simp: mutex_locked_def mutex_consts)
  show ?thesis unfolding mx_ok_def own s(2)
    using s(1) I(2,3,4,6) q cont by (auto)
qed

lemma mx_ok_unlock:
  assumes ok: "mx_ok s q own cont park" and own: "own t"
    and cb: "unlock_slow_callback fair \<lparr>unparked_threads = min 1 (length q), requeued_threads = 0,
      have_more_threads = 1 < length q, be_fair = (q \<noteq> [] \<and> fair_choice c)\<rparr> s = (s', token)"
    and own': "\<And>u. own' u \<longleftrightarrow> token = TOKEN_HANDOFF \<and> q \<noteq> [] \<and> u = hd q"
    and cont': "q \<noteq> [] \<Longrightarrow> cont' (hd q)"
  shows "mx_ok s' (tl q) own' cont' False"
proof -
  note I = mx_okD [OF ok]
  have locked: "mutex_locked s" using I(2) own by blast
  have s': "s' \<in> {0, 1, 2, 3}" "mutex_locked s' \<longleftrightarrow> token = TOKEN_HANDOFF \<and> q \<noteq> []"
      "tl q \<noteq> [] \<Longrightarrow> mutex_parked s'"
    using cb locked I(1,4) by (cases q; cases "tl q";
        auto simp: unlock_slow_callback_def mutex_locked_def mutex_parked_def mutex_consts split: if_splits)+
  show ?thesis unfolding mx_ok_def own' using s' cont' by (cases q) auto
qed

lemma mx_ok_requeue:
  assumes ok: "mx_ok s q own cont park" and s': "s' = (if mv = [] then s else s OR PARKED_BIT)"
    and own: "\<And>u. own' u = own u" and cont: "\<And>u. cont u \<Longrightarrow> cont' u" and wk: "mv \<noteq> [] \<Longrightarrow> \<exists>u. cont' u \<or> own' u"
  shows "mx_ok s' (q @ mv) own' cont' False"
proof -
  note I = mx_okD [OF ok]
  have s: "s' \<in> {0, 1, 2, 3}" "mutex_locked s' = mutex_locked s" "mv \<noteq> [] \<Longrightarrow> mutex_parked s'" "mv = [] \<Longrightarrow> s' = s"
    using s' I(1) by (auto simp: mutex_locked_def mutex_parked_def mutex_consts split: if_splits)
  show ?thesis unfolding mx_ok_def own s(2)
    using s(1,3,4) I(2,3,4,6) cont wk own by (cases "mv = []") auto
qed

section \<open>The invariant\<close>

fun cv_own_pc :: "usize \<Rightarrow> cv_pc \<Rightarrow> bool" where
  "cv_own_pc a (InMutex b r p) \<longleftrightarrow> b = a \<and> own_pc p"
| "cv_own_pc a (CvPark b timed) \<longleftrightarrow> b = a"
| "cv_own_pc a (CvBad b) \<longleftrightarrow> b = a"
| "cv_own_pc a (CvUnlock b timed) \<longleftrightarrow> b = a"
| "cv_own_pc a (CvUnlockSlow b timed) \<longleftrightarrow> b = a"
| "cv_own_pc a (CvNotifyOne bk) \<longleftrightarrow> bk = Some a"
| "cv_own_pc a (CvNotifyOneSlow bk m) \<longleftrightarrow> bk = Some a"
| "cv_own_pc a (CvNotifyAll bk) \<longleftrightarrow> bk = Some a"
| "cv_own_pc a (CvNotifyAllSlow bk m) \<longleftrightarrow> bk = Some a"
| "cv_own_pc a (CvNotified bk n) \<longleftrightarrow> bk = Some a"
| "cv_own_pc a _ \<longleftrightarrow> False"

text \<open>A thread asleep for a mutex, which owns it once it is woken with the hand-off token.\<close>

fun cv_wait_pc :: "usize \<Rightarrow> cv_pc \<Rightarrow> bool" where
  "cv_wait_pc a (InMutex b r p) \<longleftrightarrow> b = a \<and> mutex_asleep p"
| "cv_wait_pc a (CvAsleep b timed) \<longleftrightarrow> b = a"
| "cv_wait_pc a _ \<longleftrightarrow> False"

fun cv_prep :: "usize \<Rightarrow> cv_pc \<Rightarrow> bool" where
  "cv_prep a (CvUnlock b timed) \<longleftrightarrow> b = a"
| "cv_prep a (CvUnlockSlow b timed) \<longleftrightarrow> b = a"
| "cv_prep a _ \<longleftrightarrow> False"

fun mutex_enters :: "mutex_pc \<Rightarrow> bool" where
  "mutex_enters (LockFast timed) = True"
| "mutex_enters _ = False"

fun cv_contend_pc :: "usize \<Rightarrow> cv_pc \<Rightarrow> bool" where
  "cv_contend_pc a (InMutex b r p) \<longleftrightarrow> b = a \<and> (contend_pc p \<or> mutex_enters p)"
| "cv_contend_pc a (CvExpired b) \<longleftrightarrow> b = a"
| "cv_contend_pc a _ \<longleftrightarrow> False"

definition cv_owns :: "(cv_shared, cv_pc) world \<Rightarrow> usize \<Rightarrow> tid \<Rightarrow> bool" where
  "cv_owns w a t \<longleftrightarrow> cv_own_pc a (pc w t) \<or> cv_wait_pc a (pc w t) \<and> \<not> parkedf w t \<and> utok w t = TOKEN_HANDOFF"

definition cv_contends :: "(cv_shared, cv_pc) world \<Rightarrow> usize \<Rightarrow> tid \<Rightarrow> bool" where
  "cv_contends w a t \<longleftrightarrow> cv_contend_pc a (pc w t) \<or> cv_wait_pc a (pc w t) \<and> \<not> parkedf w t"

text \<open>A thread or notifier that holds the lock of the mutex's bucket and relies on what it validated.\<close>

fun cv_parking :: "usize \<Rightarrow> cv_pc phase \<Rightarrow> bool" where
  "cv_parking a (Crit (InMutex b r (SlowPark timed))) \<longleftrightarrow> b = a"
| "cv_parking a (CritOp (CvNotifyOneSlow bk m) op) \<longleftrightarrow> m = a \<and> op \<in> {RequeueOne, RequeueAll}"
| "cv_parking a (CritOp (CvNotifyAllSlow bk m) op) \<longleftrightarrow> m = a \<and> op \<in> {RequeueOne, RequeueAll}"
| "cv_parking a _ \<longleftrightarrow> False"

fun pc_mutexes :: "cv_pc \<Rightarrow> usize set" where
  "pc_mutexes CvOut = {}"
| "pc_mutexes (InMutex b r p) = {b}"
| "pc_mutexes (CvPark b timed) = {b}"
| "pc_mutexes (CvBad b) = {b}"
| "pc_mutexes (CvUnlock b timed) = {b}"
| "pc_mutexes (CvUnlockSlow b timed) = {b}"
| "pc_mutexes (CvAsleep b timed) = {b}"
| "pc_mutexes (CvExpired b) = {b}"
| "pc_mutexes (CvNotifyOne bk) = set_option bk"
| "pc_mutexes (CvNotifyOneSlow bk m) = insert m (set_option bk)"
| "pc_mutexes (CvNotifyAll bk) = set_option bk"
| "pc_mutexes (CvNotifyAllSlow bk m) = insert m (set_option bk)"
| "pc_mutexes (CvNotified bk n) = set_option bk"

text \<open>The keys under which a sleeping thread can be queued, and the mutex of a thread in a wait.\<close>

fun cv_wkeys :: "usize \<Rightarrow> cv_pc \<Rightarrow> usize set" where
  "cv_wkeys c (InMutex b r p) = {b}"
| "cv_wkeys c (CvUnlock b timed) = {b, c}"
| "cv_wkeys c (CvUnlockSlow b timed) = {b, c}"
| "cv_wkeys c (CvAsleep b timed) = {b, c}"
| "cv_wkeys c _ = {}"

fun cv_waits :: "usize \<Rightarrow> cv_pc \<Rightarrow> bool" where
  "cv_waits a (CvUnlock b timed) \<longleftrightarrow> b = a"
| "cv_waits a (CvUnlockSlow b timed) \<longleftrightarrow> b = a"
| "cv_waits a (CvAsleep b timed) \<longleftrightarrow> b = a"
| "cv_waits a _ \<longleftrightarrow> False"

text \<open>
  The mutex of the waiters: what the state says, or what the thread that is in
  the middle of \<open>notify_all\<close> has read, which has already cleared the state.
\<close>

definition notifying_all :: "(cv_shared, cv_pc) world \<Rightarrow> usize \<Rightarrow> bool" where
  "notifying_all w m \<longleftrightarrow> (\<exists>t bk op. loc w t = CritOp (CvNotifyAllSlow bk m) op)"

definition cv_current :: "(cv_shared, cv_pc) world \<Rightarrow> usize \<Rightarrow> bool" where
  "cv_current w m \<longleftrightarrow> cv_state (shared w) = m \<or> notifying_all w m"

text \<open>What a thread in a critical section relies on.\<close>

fun crit_ok :: "usize \<Rightarrow> cv_pc phase \<Rightarrow> bool" where
  "crit_ok s (Crit (CvPark m timed)) \<longleftrightarrow> s = m"
| "crit_ok s (CritOp (CvNotifyOneSlow bk m) op) \<longleftrightarrow> s = m \<and> op \<in> {RequeueOne, UnparkOne}"
| "crit_ok s (CritOp (CvNotifyAllSlow bk m) op) \<longleftrightarrow> s = 0 \<and> op \<in> {RequeueAll, UnparkOneRequeueRest}"
| "crit_ok s _ \<longleftrightarrow> True"

fun entering :: "cv_pc phase \<Rightarrow> bool" where
  "entering (Crit (CvPark m timed)) = True"
| "entering _ = False"

definition thread_ok :: "usize \<Rightarrow> (cv_shared, cv_pc) world \<Rightarrow> tid \<Rightarrow> bool" where
  "thread_ok c w t \<longleftrightarrow> 0 \<notin> pc_mutexes (pc w t) \<and> c \<notin> pc_mutexes (pc w t)
     \<and> ((\<exists>a. cv_prep a (pc w t)) \<longrightarrow> \<not> parkedf w t \<longrightarrow> utok w t \<noteq> TOKEN_HANDOFF)
     \<and> (cv_asleep (pc w t) \<longrightarrow> wkey w t \<in> cv_wkeys c (pc w t))
     \<and> (\<forall>a. t \<in> set (queues w c) \<longrightarrow> cv_waits a (pc w t) \<longrightarrow> cv_current w a)
     \<and> crit_ok (cv_state (shared w)) (loc w t)"

definition mutex_ok :: "(cv_shared, cv_pc) world \<Rightarrow> usize \<Rightarrow> bool" where
  "mutex_ok w a \<longleftrightarrow> mx_ok (cv_mutex (shared w) a) (queues w a) (cv_owns w a) (cv_contends w a) (\<exists>t. cv_parking a (loc w t))"

definition state_ok :: "usize \<Rightarrow> (cv_shared, cv_pc) world \<Rightarrow> bool" where
  "state_ok c w \<longleftrightarrow> (cv_state (shared w) \<noteq> 0 \<longrightarrow> cv_state (shared w) \<noteq> c
     \<and> (queues w c \<noteq> [] \<or> (\<exists>t. entering (loc w t))))"

definition cv_inv :: "usize \<Rightarrow> (cv_shared, cv_pc) world \<Rightarrow> bool" where
  "cv_inv c w \<longleftrightarrow> (\<forall>t. thread_ok c w t) \<and> (\<forall>a. a \<noteq> c \<longrightarrow> mutex_ok w a) \<and> state_ok c w"

lemma cv_invD:
  assumes "cv_inv c w"
  shows "thread_ok c w t" and "a \<noteq> c \<Longrightarrow> mutex_ok w a" and "state_ok c w"
  using assms by (auto simp: cv_inv_def)

section \<open>Steps that leave the queues alone\<close>

definition moves :: "tid \<Rightarrow> cv_pc phase \<Rightarrow> (cv_shared, cv_pc) world \<Rightarrow> (cv_shared, cv_pc) world \<Rightarrow> bool" where
  "moves t ph w w' \<longleftrightarrow> loc w' = (loc w)(t := ph) \<and> queues w' = queues w \<and> wkey w' = wkey w
     \<and> parkedf w' = parkedf w \<and> utok w' = utok w"

lemma movesD:
  assumes "moves t ph w w'"
  shows "loc w' = (loc w)(t := ph)" "queues w' = queues w" "wkey w' = wkey w" "parkedf w' = parkedf w" "utok w' = utok w"
  using assms by (simp_all add: moves_def)

lemma thread_ok_frame:
  assumes ok: "thread_ok c w u"
    and w': "loc w' u = loc w u" "wkey w' u = wkey w u" "parkedf w' u = parkedf w u" "utok w' u = utok w u"
    and q: "\<And>a. u \<in> set (queues w' c) \<Longrightarrow> cv_waits a (pc w u) \<Longrightarrow> u \<in> set (queues w c) \<and> (cv_current w a \<longrightarrow> cv_current w' a)"
    and cr: "crit_ok (cv_state (shared w')) (loc w u)"
  shows "thread_ok c w' u"
  using ok q cr unfolding thread_ok_def w' by blast

lemma notifying_all_mono:
  "(\<And>u. u \<noteq> t \<Longrightarrow> loc w' u = loc w u) \<Longrightarrow> (\<And>l op. loc w t \<noteq> CritOp l op) \<Longrightarrow> notifying_all w m \<Longrightarrow> notifying_all w' m"
  unfolding notifying_all_def by metis

lemma cv_inv_run:
  assumes inv: "cv_inv c w" and l: "loc w t = Run p" and m: "moves t ph w w'"
    and s: "cv_state (shared w') = cv_state (shared w)"
    and t: "thread_ok c w' t" and mx: "\<And>a. a \<noteq> c \<Longrightarrow> mutex_ok w a \<Longrightarrow> mutex_ok w' a"
  shows "cv_inv c w'"
proof -
  note M = movesD [OF m]
  have cur: "cv_current w a \<Longrightarrow> cv_current w' a" for a
    using notifying_all_mono [of t w' w a] l by (auto simp: cv_current_def M s)
  have th: "thread_ok c w' u" for u
  proof (cases "u = t")
    case False
    have u: "thread_ok c w u" by (rule cv_invD(1) [OF inv])
    then have "crit_ok (cv_state (shared w)) (loc w u)" by (simp add: thread_ok_def)
    then show ?thesis using False cur by (intro thread_ok_frame [OF u]) (simp_all add: M s)
  qed (simp add: t)
  have "entering (loc w u) \<Longrightarrow> entering (loc w' u)" for u using l by (auto simp: M)
  then have "state_ok c w'"
    using cv_invD(3) [OF inv] by (auto simp: state_ok_def M(2) s)
  then show ?thesis using th mx cv_invD(2) [OF inv] by (simp add: cv_inv_def)
qed

lemma mutex_ok_same:
  assumes ok: "mutex_ok w a" and m: "moves t ph w w'" and s: "cv_mutex (shared w') a = cv_mutex (shared w) a"
    and own: "cv_owns w' a t = cv_owns w a t" and cont: "cv_contends w a t \<Longrightarrow> cv_contends w' a t \<or> cv_owns w' a t"
    and park: "cv_parking a ph \<Longrightarrow> cv_mutex (shared w) a = 3"
  shows "mutex_ok w' a"
  unfolding mutex_ok_def movesD(2) [OF m] s
proof (rule mx_ok_frame [OF ok [unfolded mutex_ok_def]])
  note M = movesD [OF m]
  show "cv_owns w' a u = cv_owns w a u" for u using own by (cases "u = t") (simp_all add: cv_owns_def M)
  show "cv_contends w' a u \<or> cv_owns w' a u" if "cv_contends w a u" for u
    using that cont by (cases "u = t") (simp_all add: cv_contends_def cv_owns_def M)
  show "(\<exists>t. cv_parking a (loc w t)) \<or> cv_mutex (shared w) a = 3" if "\<exists>t. cv_parking a (loc w' t)"
    using that park by (auto simp: M split: if_splits)
qed

lemma mutex_ok_move:
  assumes ok: "mutex_ok w a" and m: "moves t (Run q) w w'"
    and mv: "mx_move (cv_mutex (shared w) a) (cv_owns w a t) (cv_contends w a t)
      (cv_mutex (shared w') a) (cv_owns w' a t) (cv_contends w' a t)"
  shows "mutex_ok w' a"
  unfolding mutex_ok_def movesD(2) [OF m]
proof (rule mx_ok_move [where t = t, OF ok [unfolded mutex_ok_def]])
  show "mx_move (cv_mutex (shared w) a) (cv_owns w a t) (cv_contends w a t)
      (cv_mutex (shared w') a) (cv_owns w' a t) (cv_contends w' a t)" by (rule mv)
  note M = movesD [OF m]
  show "cv_owns w' a u = cv_owns w a u" if "u \<noteq> t" for u using that by (simp add: cv_owns_def M)
  show "cv_contends w' a u" if "u \<noteq> t" "cv_contends w a u" for u using that by (simp add: cv_contends_def M)
  show "\<exists>t. cv_parking a (loc w t)" if "\<exists>t. cv_parking a (loc w' t)" using that by (auto simp: M split: if_splits)
qed

text \<open>A thread that is awake moves to a point where it is awake.\<close>

lemma thread_ok_awake:
  assumes "thread_ok c w t" and "moves t (Run p') w w'" and "\<not> cv_asleep p'" and "0 \<notin> pc_mutexes p'" "c \<notin> pc_mutexes p'"
  shows "thread_ok c w' t"
proof -
  have "\<not> cv_prep a p'" "\<not> cv_waits a p'" for a using assms(3) by (cases p'; simp)+
  then show ?thesis using assms by (simp add: thread_ok_def moves_def)
qed

lemma cv_inv_awake:
  assumes inv: "cv_inv c w" and l: "loc w t = Run p" and m: "moves t (Run p') w w'" and s: "shared w' = shared w"
    and a: "\<not> cv_asleep p" "\<not> cv_asleep p'"
    and pm: "0 \<notin> pc_mutexes p'" "c \<notin> pc_mutexes p'"
    and own: "\<And>a. cv_own_pc a p' = cv_own_pc a p" and cont: "\<And>a. cv_contend_pc a p \<Longrightarrow> cv_contend_pc a p'"
  shows "cv_inv c w'"
proof (rule cv_inv_run [OF inv l m])
  show "thread_ok c w' t" by (rule thread_ok_awake [OF cv_invD(1) [OF inv] m a(2) pm])
  have nw: "\<not> cv_wait_pc a p" "\<not> cv_wait_pc a p'" for a using a by (cases p; cases p'; simp)+
  show "mutex_ok w' a" if "mutex_ok w a" for a
  proof (rule mutex_ok_same [OF that m])
    show "cv_owns w' a t = cv_owns w a t" using nw own by (simp add: cv_owns_def l movesD(1) [OF m])
    show "cv_contends w' a t \<or> cv_owns w' a t" if "cv_contends w a t"
      using nw cont that by (simp add: cv_contends_def l movesD(1) [OF m])
  qed (simp_all add: s)
qed (simp add: s)

text \<open>A thread acquires the bucket locks of its call.\<close>

lemma cv_inv_enter:
  assumes inv: "cv_inv c w" and l: "loc w t = Run p" and m: "moves t (Crit p) w w'" and s: "shared w' = shared w"
    and ne: "\<not> entering (Crit p)" and park: "\<And>a. cv_parking a (Crit p) \<Longrightarrow> cv_mutex (shared w) a = 3"
  shows "cv_inv c w'"
proof (rule cv_inv_run [OF inv l m])
  note M = movesD [OF m]
  have "crit_ok x (Crit p)" for x using ne by (cases p) simp_all
  moreover have "thread_ok c w t" by (rule cv_invD(1) [OF inv])
  moreover have "cv_current w a \<Longrightarrow> cv_current w' a" for a
    using notifying_all_mono [of t w' w a] l by (auto simp: cv_current_def M s)
  ultimately show "thread_ok c w' t" by (auto simp: thread_ok_def M l)
  show "mutex_ok w' a" if "mutex_ok w a" for a
    by (rule mutex_ok_same [OF that m]) (use park in \<open>simp_all add: s cv_owns_def cv_contends_def M l\<close>)
qed (simp add: s)

text \<open>Accesses of a mutex's state by the functions of the mutex.\<close>

lemma mutex_atomic_move:
  assumes s: "s \<in> {0, 1, 2, 3}" and f: "mutex_client a t p = Atomic f" and own: "own_pc p \<longrightarrow> mutex_locked s"
  shows "mx_move s (own_pc p) (contend_pc p \<or> mutex_enters p) (fst (f n s)) (own_pc (snd (f n s)))
    (contend_pc (snd (f n s)) \<or> mutex_enters (snd (f n s)))"
proof -
  note L = mutex_local_ok [OF s f own, of n, unfolded local_ok_def]
  have e: "contend_pc (snd (f n s)) \<or> \<not> mutex_parked s" if "mutex_enters p"
    using that f by (cases p) (auto simp: lock_fast_def cas_fail mutex_parked_def)
  show ?thesis unfolding mx_move_def using L e by blast
qed

lemma cv_in_mutex_atomic:
  assumes "cv_in_mutex c t a r p = Atomic f" and "p \<noteq> Idle" "p \<noteq> Owner"
  obtains h where "mutex_client a t p = Atomic h" "f = (\<lambda>n g. map_prod id (InMutex a r) (on_mutex a (h n) g))"
  using assms by (cases p) (auto simp: cv_in_mutex_def)

lemma cv_mutex_atomic_inv:
  assumes inv: "cv_inv c w" and l: "loc w t = Run (InMutex a r p)" and h: "mutex_client a t p = Atomic h"
    and m: "moves t (Run (InMutex a r (snd (h n (cv_mutex (shared w) a))))) w w'"
    and g: "shared w' = set_mutex a (fst (h n (cv_mutex (shared w) a))) (shared w)"
  shows "cv_inv c w'"
proof -
  let ?s = "cv_mutex (shared w) a" and ?p = "snd (h n (cv_mutex (shared w) a))"
  note M = movesD [OF m] and T = cv_invD(1) [OF inv, of t, unfolded thread_ok_def l]
  have ac: "a \<noteq> c" "a \<noteq> 0" using T by auto
  have mo: "mutex_ok w a" by (rule cv_invD(2) [OF inv ac(1)])
  have na: "\<not> mutex_asleep p" using h by (cases p) auto
  have s: "?s \<in> {0, 1, 2, 3}" by (rule mx_okD(1) [OF mo [unfolded mutex_ok_def]])
  have own: "own_pc p \<longrightarrow> mutex_locked ?s"
    using mx_okD(2) [OF mo [unfolded mutex_ok_def]] l by (metis at_phase.simps(1) cv_own_pc.simps(1) cv_owns_def)
  have na': "\<not> mutex_asleep ?p" using mutex_local_ok [OF s h own, of n] by (simp add: local_ok_def)
  note mv = mutex_atomic_move [OF s h own, of n]
  show ?thesis
  proof (rule cv_inv_run [OF inv l m])
    show "cv_state (shared w') = cv_state (shared w)" by (simp add: g set_mutex_def)
    show "thread_ok c w' t"
      by (rule thread_ok_awake [OF cv_invD(1) [OF inv] m]) (use na' ac in simp_all)
    show "mutex_ok w' b" if "mutex_ok w b" for b
    proof (cases "b = a")
      case True
      show ?thesis
        unfolding True
        by (rule mutex_ok_move [OF mo m])
          (use mv na na' in \<open>simp add: g set_mutex_def cv_owns_def cv_contends_def M l\<close>)
    next
      case False
      then show ?thesis
        by (intro mutex_ok_same [OF that m]) (auto simp: g set_mutex_def cv_owns_def cv_contends_def M l)
    qed
  qed
qed

text \<open>\<open>before_sleep\<close> unlocks the mutex.\<close>

lemma cv_unlock_inv:
  assumes inv: "cv_inv c w" and l: "loc w t = Run (CvUnlock a timed)"
    and m: "moves t (Run (snd (wait_unlock a timed (shared w)))) w w'"
    and g: "shared w' = fst (wait_unlock a timed (shared w))"
  shows "cv_inv c w'"
proof -
  let ?s = "cv_mutex (shared w) a"
  note M = movesD [OF m] and T = cv_invD(1) [OF inv, of t, unfolded thread_ok_def l]
  have ac: "a \<noteq> c" using T by auto
  have mo: "mutex_ok w a" by (rule cv_invD(2) [OF inv ac])
  have own: "cv_owns w a t" by (simp add: cv_owns_def l)
  have "mutex_locked ?s" using mx_okD(2) [OF mo [unfolded mutex_ok_def]] own by blast
  then have "?s = 1 \<or> ?s = 3" by (simp add: mutex_locked_def)
  then consider
      "wait_unlock a timed (shared w) = (set_mutex a 0 (shared w), CvAsleep a timed)" "?s = 1"
    | "wait_unlock a timed (shared w) = (set_mutex a 3 (shared w), CvUnlockSlow a timed)" "?s = 3"
    by (auto simp: wait_unlock_def unlock_fast_def atomic_simps mutex_consts)
  then show ?thesis
  proof cases
    case 1
    have J: "\<not> parkedf w t \<longrightarrow> utok w t \<noteq> TOKEN_HANDOFF" using T by auto
    show ?thesis
    proof (rule cv_inv_run [OF inv l m])
      show "cv_state (shared w') = cv_state (shared w)" by (simp add: g 1 set_mutex_def)
      have "cv_current w b \<Longrightarrow> cv_current w' b" for b
        using notifying_all_mono [of t w' w b] l by (auto simp: cv_current_def M g 1 set_mutex_def)
      then show "thread_ok c w' t" using T by (auto simp: thread_ok_def M 1)
      show "mutex_ok w' b" if "mutex_ok w b" for b
      proof (cases "b = a")
        case True
        show ?thesis unfolding True
          by (rule mutex_ok_move [OF mo m])
            (use J 1 in \<open>auto simp: mx_move_def g set_mutex_def cv_owns_def cv_contends_def M l mutex_locked_def mutex_parked_def\<close>)
      next
        case False
        then show ?thesis
          by (intro mutex_ok_same [OF that m]) (auto simp: g 1 set_mutex_def cv_owns_def cv_contends_def M l)
      qed
    qed
  next
    case 2
    have g': "shared w' = shared w" using 2 by (simp add: g set_mutex_def fun_upd_idem)
    show ?thesis
    proof (rule cv_inv_run [OF inv l m])
      show "cv_state (shared w') = cv_state (shared w)" by (simp add: g')
      have "cv_current w b \<Longrightarrow> cv_current w' b" for b
        using notifying_all_mono [of t w' w b] l by (auto simp: cv_current_def M g')
      then show "thread_ok c w' t" using T by (auto simp: thread_ok_def M 2)
      show "mutex_ok w' b" if "mutex_ok w b" for b
        by (rule mutex_ok_same [OF that m]) (auto simp: g' 2 cv_owns_def cv_contends_def M l)
    qed
  qed
qed

text \<open>A sleeping thread that was woken goes on, as owner or to lock the mutex.\<close>

definition resume :: "cv_pc \<Rightarrow> usize \<Rightarrow> cv_pc" where
  "resume p token = (case p of
     InMutex a r (SlowAsleep timed) \<Rightarrow> InMutex a r (lock_slow_unparked timed token)
   | CvAsleep a timed \<Rightarrow> wait_unparked a token | _ \<Rightarrow> p)"

fun sleeps :: "cv_pc \<Rightarrow> bool" where
  "sleeps (InMutex a r p) = mutex_asleep p"
| "sleeps (CvAsleep a timed) = True"
| "sleeps _ = False"

lemma sleeps_cases:
  assumes "sleeps p"
  obtains a r timed where "p = InMutex a r (SlowAsleep timed)" | a timed where "p = CvAsleep a timed"
  using assms by (cases p rule: sleeps.cases) (auto elim: mutex_asleep.elims)

lemma mutex_ok_resume:
  assumes ok: "mutex_ok w b" and l: "loc w t = Run p \<or> loc w t = Crit p" "sleeps p" "\<not> parkedf w t"
    and m: "moves t (Run (resume p (utok w t))) w w'" and g: "shared w' = shared w"
  shows "mutex_ok w' b"
proof (rule mutex_ok_same [OF ok m])
  have pt: "pc w t = p" using l(1) by auto
  note M = movesD [OF m]
  have "pc w' t = resume p (utok w t)" by (simp add: M)
  then show "cv_owns w' b t = cv_owns w b t" and "cv_contends w b t \<Longrightarrow> cv_contends w' b t \<or> cv_owns w' b t"
    using l(3) by (cases rule: sleeps_cases [OF l(2)];
      simp add: cv_owns_def cv_contends_def pt M resume_def wait_unparked_def lock_slow_unparked_def)+
qed (simp_all add: g)

lemma resume_awake:
  assumes "sleeps p"
  shows "\<not> cv_asleep (resume p token)" "pc_mutexes (resume p token) = pc_mutexes p"
  using assms by (cases rule: sleeps_cases; simp add: resume_def wait_unparked_def lock_slow_unparked_def)+

lemma cv_resume_inv:
  assumes inv: "cv_inv c w" and l: "loc w t = Run p" "sleeps p" "\<not> parkedf w t"
    and m: "moves t (Run (resume p (utok w t))) w w'" and g: "shared w' = shared w"
  shows "cv_inv c w'"
proof (rule cv_inv_run [OF inv l(1) m])
  show "thread_ok c w' t"
    by (rule thread_ok_awake [OF cv_invD(1) [OF inv] m])
      (use resume_awake [OF l(2)] cv_invD(1) [OF inv, of t] l(1) in \<open>auto simp: thread_ok_def\<close>)
  show "mutex_ok w' b" if "mutex_ok w b" for b
    by (rule mutex_ok_resume [OF that _ l(2,3) m g]) (simp add: l)
qed (simp add: g)

section \<open>Critical sections\<close>

lemma crit_key:
  assumes "\<not> crit_ok x ph \<or> entering ph \<or> (\<exists>bk m op. ph = CritOp (CvNotifyAllSlow bk m) op)"
  shows "loc w u = ph \<Longrightarrow> c \<in> held_keys (cv_client c) w u"
  using assms by (cases "(x, ph)" rule: crit_ok.cases) (auto simp: held_keys_def)

lemma park_key:
  assumes "cv_parking a (loc w u)"
  shows "a \<in> held_keys (cv_client c) w u"
  using assms by (cases "(a, loc w u)" rule: cv_parking.cases) (auto simp: held_keys_def cv_in_mutex_def)

lemma holder_unique:
  assumes "condvar.lot_inv c w" and "k \<in> held_keys (cv_client c) w u" and "k \<in> held_keys (cv_client c) w t"
  shows "u = t"
  using assms by (auto simp: condvar.lot_inv_def lock_inv_def) (metis option.inject)

lemma holder_none:
  assumes "condvar.lot_inv c w" and "holder w k = None"
  shows "k \<notin> held_keys (cv_client c) w u"
  using assms by (auto simp: condvar.lot_inv_def lock_inv_def) (metis option.distinct(1))

text \<open>While nobody, or only one thread, holds the lock of the condition variable's bucket.\<close>

lemma others_free:
  assumes "\<And>u. u \<noteq> t \<Longrightarrow> c \<notin> held_keys (cv_client c) w u"
  shows "u \<noteq> t \<Longrightarrow> crit_ok x (loc w u)" "u \<noteq> t \<Longrightarrow> \<not> entering (loc w u)"
    "notifying_all w m \<Longrightarrow> \<exists>bk op. loc w t = CritOp (CvNotifyAllSlow bk m) op"
  using crit_key [of x "loc w u" w u c] assms by (blast, blast)
    (use crit_key assms in \<open>unfold notifying_all_def, metis\<close>)

text \<open>\<open>validate\<close> of a wait succeeds.\<close>

lemma waiter_current:
  assumes inv: "cv_inv c w" and nn: "\<And>m. \<not> notifying_all w m" and u: "u \<in> set (queues w c)" "cv_waits a (pc w u)"
  shows "cv_state (shared w) = a" "a \<noteq> 0"
proof -
  note T = cv_invD(1) [OF inv, of u, unfolded thread_ok_def]
  show "cv_state (shared w) = a" using T u nn by (auto simp: cv_current_def)
  show "a \<noteq> 0" using T u(2) by (cases "pc w u") auto
qed

lemma cv_park_enter_inv:
  assumes inv: "cv_inv c w" and li: "condvar.lot_inv c w" and l: "loc w t = Run (CvPark a timed)"
    and h: "holder w c = None" and v: "wait_validate a (shared w) = (g, True)"
    and m: "moves t (Crit (CvPark a timed)) w w'" and g: "shared w' = g"
  shows "cv_inv c w'"
proof -
  note M = movesD [OF m] and T = cv_invD(1) [OF inv, of t, unfolded thread_ok_def l]
  note free = others_free [of t c w, OF holder_none [OF li h]]
  have nn: "\<not> notifying_all w b" for b using free(3) [of b] l by auto
  have s: "cv_state g = a" "cv_mutex g = cv_mutex (shared w)" "cv_state (shared w) = 0 \<or> cv_state (shared w) = a"
    using v by (auto simp: wait_validate_def set_cv_def split: if_splits)
  have th: "thread_ok c w' u" for u
  proof (cases "u = t")
    case True
    have "t \<notin> set (queues w c)" using li l by (auto simp: condvar.lot_inv_def queue_inv_def)
    then show ?thesis using T unfolding True by (simp add: thread_ok_def M g s)
  next
    case False
    show ?thesis
    proof (rule thread_ok_frame [OF cv_invD(1) [OF inv]])
      show "crit_ok (cv_state (shared w')) (loc w u)" by (rule free(1) [OF False])
      show "u \<in> set (queues w c) \<and> (cv_current w b \<longrightarrow> cv_current w' b)"
        if "u \<in> set (queues w' c)" "cv_waits b (pc w u)" for b
        using waiter_current [OF inv nn, of u b] that s by (auto simp: M(2) cv_current_def g)
    qed (use False in \<open>simp_all add: M\<close>)
  qed
  have mx: "mutex_ok w' b" if "b \<noteq> c" for b
    by (rule mutex_ok_same [OF cv_invD(2) [OF inv that] m]) (simp_all add: g s cv_owns_def cv_contends_def M l)
  have "entering (loc w' t)" by (simp add: M)
  then have "state_ok c w'" using T by (auto simp: state_ok_def g s)
  then show ?thesis using th mx by (simp add: cv_inv_def)
qed

text \<open>\<open>validate\<close> of a notification succeeds.\<close>

lemma cv_notify_enter_inv:
  assumes inv: "cv_inv c w" and li: "condvar.lot_inv c w" and l: "loc w t = Run p"
    and p: "p = CvNotifyOneSlow bk a \<or> p = CvNotifyAllSlow bk a"
    and h: "holder w c = None" and cur: "cv_state (shared w) = a"
    and op: "op = (case (mutex_locked (cv_mutex (shared w) a), p) of
        (True, CvNotifyOneSlow _ _) \<Rightarrow> RequeueOne | (False, CvNotifyOneSlow _ _) \<Rightarrow> UnparkOne
      | (True, _) \<Rightarrow> RequeueAll | _ \<Rightarrow> UnparkOneRequeueRest)"
    and m: "moves t (CritOp p op) w w'"
    and s: "cv_state (shared w') = (case p of CvNotifyOneSlow _ _ \<Rightarrow> a | _ \<Rightarrow> 0)"
    and g: "cv_mutex (shared w') = (cv_mutex (shared w))(a := if mutex_locked (cv_mutex (shared w) a) then 3 else cv_mutex (shared w) a)"
  shows "cv_inv c w'"
proof -
  note M = movesD [OF m] and T = cv_invD(1) [OF inv, of t, unfolded thread_ok_def l]
  note free = others_free [of t c w, OF holder_none [OF li h]]
  have nn: "\<not> notifying_all w b" for b using free(3) [of b] l by auto
  have th: "thread_ok c w' u" for u
  proof (cases "u = t")
    case True
    have "t \<notin> set (queues w c)" using li l p by (auto simp: condvar.lot_inv_def queue_inv_def)
    then show ?thesis using T p unfolding True by (auto simp: thread_ok_def M s op split: bool.splits)
  next
    case False
    have "cv_current w' a" using p by (auto simp: cv_current_def s notifying_all_def M)
    then show ?thesis
      using False free(1) [OF False] waiter_current [OF inv nn, of u] cur
      by (intro thread_ok_frame [OF cv_invD(1) [OF inv]]) (auto simp: M)
  qed
  have mx: "mutex_ok w' b" if "b \<noteq> c" for b
  proof (cases "b = a \<and> mutex_locked (cv_mutex (shared w) a)")
    case True
    have own: "cv_owns w' b u = cv_owns w b u" for u by (simp add: cv_owns_def M l)
    have "cv_mutex (shared w') b = 3" using True by (simp add: g)
    then show ?thesis
      using mx_ok_3 [OF cv_invD(2) [OF inv that, unfolded mutex_ok_def] _ own] True by (simp add: mutex_ok_def)
  next
    case False
    show ?thesis
      by (rule mutex_ok_same [OF cv_invD(2) [OF inv that] m])
        (use False p in \<open>auto simp: g cv_owns_def cv_contends_def M l op split: if_splits bool.splits\<close>)
  qed
  have "queues w c \<noteq> []" if "a \<noteq> 0"
    using cv_invD(3) [OF inv] that free(2) [of _] l cur by (metis entering.simps(2) state_ok_def)
  then have "state_ok c w'" using cv_invD(3) [OF inv] p cur by (auto simp: state_ok_def s M)
  then show ?thesis using th mx by (simp add: cv_inv_def)
qed

text \<open>The work under the bucket lock of \<open>park\<close> and \<open>unpark_one\<close>.\<close>

lemma cv_inv_crit:
  assumes inv: "cv_inv c w" and l: "loc w t = Crit p" and loc: "loc w' = (loc w)(t := Run p')"
    and data: "\<And>u. u \<noteq> t \<Longrightarrow> wkey w' u = wkey w u"
      "\<And>u. u \<noteq> t \<Longrightarrow> parkedf w' u = parkedf w u \<and> utok w' u = utok w u \<or> (\<forall>a. \<not> cv_prep a (pc w u))"
    and q: "\<And>u. u \<noteq> t \<Longrightarrow> u \<in> set (queues w' c) \<Longrightarrow> u \<in> set (queues w c)"
    and st: "cv_state (shared w') = cv_state (shared w)
      \<or> cv_state (shared w') = 0 \<and> queues w' c = [] \<and> (\<forall>u. u \<noteq> t \<longrightarrow> crit_ok 0 (loc w u))"
    and qe: "cv_state (shared w') \<noteq> 0 \<Longrightarrow> queues w c \<noteq> [] \<or> entering (Crit p) \<Longrightarrow> queues w' c \<noteq> []"
    and t: "thread_ok c w' t" and mx: "\<And>a. a \<noteq> c \<Longrightarrow> mutex_ok w a \<Longrightarrow> mutex_ok w' a"
  shows "cv_inv c w'"
proof -
  have nm: "notifying_all w a \<Longrightarrow> notifying_all w' a" for a
    by (rule notifying_all_mono [of t]) (simp_all add: loc l)
  have th: "thread_ok c w' u" if "u \<noteq> t" for u
  proof -
    note T = cv_invD(1) [OF inv, of u, unfolded thread_ok_def]
    have "cv_current w a \<Longrightarrow> queues w' c \<noteq> [] \<Longrightarrow> cv_current w' a" for a
      using nm [of a] st by (auto simp: cv_current_def)
    moreover have "crit_ok (cv_state (shared w')) (loc w u)" using T st that by auto
    moreover have "loc w' u = loc w u" by (simp add: loc that)
    ultimately show ?thesis
      using T q [OF that] data(1) [OF that] data(2) [OF that] unfolding thread_ok_def
      by (metis list.set(1) empty_iff)
  qed
  have "entering (loc w u) \<Longrightarrow> u \<noteq> t \<Longrightarrow> entering (loc w' u)" for u by (simp add: loc)
  then have "state_ok c w'"
    using cv_invD(3) [OF inv] st qe l unfolding state_ok_def by metis
  then show ?thesis using th t mx cv_invD(2) [OF inv] unfolding cv_inv_def by metis
qed

lemma mutex_ok_other:
  assumes ok: "mutex_ok w b" and s: "cv_mutex (shared w') b = cv_mutex (shared w) b" "queues w' b = queues w b"
    and loc: "loc w' = (loc w)(t := Run p')" and own: "\<And>u. cv_owns w' b u = cv_owns w b u"
    and cont: "\<And>u. cv_contends w b u \<Longrightarrow> cv_contends w' b u \<or> cv_owns w' b u"
  shows "mutex_ok w' b"
  unfolding mutex_ok_def s
  by (rule mx_ok_frame [OF ok [unfolded mutex_ok_def] own cont]) (auto simp: loc split: if_splits)

lemma crit_free:
  assumes li: "condvar.lot_inv c w" and l: "loc w t = Crit p" and k: "k \<in> lock_keys (wkey w t) (cv_client c t p)"
  shows "u \<noteq> t \<Longrightarrow> k \<notin> held_keys (cv_client c) w u"
    "(\<And>a. \<not> cv_parking k (Run p')) \<Longrightarrow> loc w' = (loc w)(t := Run p') \<Longrightarrow> \<not> (\<exists>u. cv_parking k (loc w' u))"
proof -
  have t: "k \<in> held_keys (cv_client c) w t" using l k by (simp add: held_keys_def)
  show *: "u \<noteq> t \<Longrightarrow> k \<notin> held_keys (cv_client c) w u" for u using holder_unique [OF li _ t] by blast
  show "loc w' = (loc w)(t := Run p') \<Longrightarrow> \<not> (\<exists>u. cv_parking k (loc w' u))"
    using park_key [of k w _ c] * by auto
qed

lemma cv_enqueue_mutex_inv:
  assumes inv: "cv_inv c w" and li: "condvar.lot_inv c w" and l: "loc w t = Crit (InMutex a r (SlowPark timed))"
    and r: "crit_step (cv_client c) t n (InMutex a r (SlowPark timed)) w = Some w'"
  shows "cv_inv c w'"
proof -
  note T = cv_invD(1) [OF inv, of t, unfolded thread_ok_def l]
  have ac: "a \<noteq> c" "a \<noteq> 0" using T by auto
  have w': "shared w' = shared w" "loc w' = (loc w)(t := Run (InMutex a r (SlowAsleep timed)))"
    "queues w' = (queues w)(a := queues w a @ [t])" "wkey w' = (wkey w)(t := a)" "parkedf w' = (parkedf w)(t := True)" "utok w' = utok w"
    using r by (auto simp: crit_step_def cv_in_mutex_def lot_simps)
  have mo: "mutex_ok w a" by (rule cv_invD(2) [OF inv ac(1)])
  have own: "cv_owns w' b u = cv_owns w b u" for b u by (auto simp: cv_owns_def w' l)
  have cont: "cv_contends w b u \<Longrightarrow> b \<noteq> a \<Longrightarrow> cv_contends w' b u" for b u by (auto simp: cv_contends_def w' l split: if_splits)
  have 3: "cv_mutex (shared w) a = 3"
    using mx_okD(5) [OF mo [unfolded mutex_ok_def]] l by (metis cv_parking.simps(1))
  show ?thesis
  proof (rule cv_inv_crit [OF inv l w'(2)])
    show "thread_ok c w' t" using T ac by (simp add: thread_ok_def w')
    show "mutex_ok w' b" if "mutex_ok w b" for b
    proof (cases "b = a")
      case True
      have "mutex_locked (cv_mutex (shared w) a)" by (simp add: 3 mutex_locked_def)
      from mx_ok_3 [OF mo [unfolded mutex_ok_def] this own]
      show ?thesis unfolding mutex_ok_def True w'(1) 3 .
    next
      case False
      then show ?thesis using own cont by (intro mutex_ok_other [OF that _ _ w'(2)]) (simp_all add: w'(1,3))
    qed
  qed (use ac in \<open>auto simp: w'\<close>)
qed

lemma cv_enqueue_wait_inv:
  assumes inv: "cv_inv c w" and li: "condvar.lot_inv c w" and l: "loc w t = Crit (CvPark a timed)"
    and r: "crit_step (cv_client c) t n (CvPark a timed) w = Some w'"
  shows "cv_inv c w'"
proof -
  note T = cv_invD(1) [OF inv, of t, unfolded thread_ok_def l]
  have ac: "a \<noteq> c" "a \<noteq> 0" "cv_state (shared w) = a" using T by auto
  have w': "shared w' = shared w" "loc w' = (loc w)(t := Run (CvUnlock a timed))"
    "queues w' = (queues w)(c := queues w c @ [t])" "wkey w' = (wkey w)(t := c)" "parkedf w' = (parkedf w)(t := True)" "utok w' = utok w"
    using r by (auto simp: crit_step_def lot_simps)
  show ?thesis
  proof (rule cv_inv_crit [OF inv l w'(2)])
    show "thread_ok c w' t" using T ac by (auto simp: thread_ok_def w' cv_current_def)
    show "mutex_ok w' b" if "b \<noteq> c" "mutex_ok w b" for b
      by (rule mutex_ok_other [OF that(2) _ _ w'(2)])
        (use that(1) in \<open>auto simp: w' cv_owns_def cv_contends_def l split: if_splits\<close>)
  qed (use ac in \<open>auto simp: w'\<close>)
qed

lemma cv_resume_crit_inv:
  assumes inv: "cv_inv c w" and l: "loc w t = Crit p" "sleeps p" "\<not> parkedf w t"
    and m: "moves t (Run (resume p (utok w t))) w w'" and g: "shared w' = shared w"
  shows "cv_inv c w'"
proof (rule cv_inv_crit [OF inv l(1) movesD(1) [OF m]])
  show "thread_ok c w' t"
    by (rule thread_ok_awake [OF cv_invD(1) [OF inv] m])
      (use resume_awake [OF l(2)] cv_invD(1) [OF inv, of t] l(1) in \<open>auto simp: thread_ok_def\<close>)
  show "mutex_ok w' b" if "mutex_ok w b" for b
    by (rule mutex_ok_resume [OF that _ l(2,3) m g]) (simp add: l)
qed (use l(2) in \<open>auto simp: g movesD [OF m] elim: sleeps_cases\<close>)

text \<open>A wait for a mutex times out.\<close>

lemma cv_timeout_mutex_inv:
  assumes inv: "cv_inv c w" and li: "condvar.lot_inv c w" and l: "loc w t = Crit (InMutex a r (SlowAsleep timed))"
    and pk: "parkedf w t" and r: "crit_step (cv_client c) t n (InMutex a r (SlowAsleep timed)) w = Some w'"
  shows "cv_inv c w'"
proof -
  note T = cv_invD(1) [OF inv, of t, unfolded thread_ok_def l]
  have ac: "a \<noteq> c" "a \<noteq> 0" and k: "wkey w t = a" using T by auto
  define q where "q = remove1 t (queues w a)"
  have w': "shared w' = set_mutex a (lock_slow_timed_out a (q = []) (cv_mutex (shared w) a)) (shared w)"
    "loc w' = (loc w)(t := Run (InMutex a r Idle))"
    "queues w' = (queues w)(a := q)" "wkey w' = wkey w" "parkedf w' = parkedf w" "utok w' = utok w"
    using r pk by (auto simp: crit_step_def cv_in_mutex_def lot_simps Let_def k q_def)
  have mo: "mutex_ok w a" by (rule cv_invD(2) [OF inv ac(1)])
  have own: "cv_owns w' b u = cv_owns w b u" for b u using pk by (auto simp: cv_owns_def w' l)
  have cont: "cv_contends w b u \<Longrightarrow> cv_contends w' b u" for b u using pk by (auto simp: cv_contends_def w' l split: if_splits)
  have "a \<in> lock_keys (wkey w t) (cv_client c t (InMutex a r (SlowAsleep timed)))" by (simp add: k cv_in_mutex_def)
  then have np: "\<not> (\<exists>u. cv_parking a (loc w' u))" by (intro crit_free(2) [OF li l _ _ w'(2)]) simp_all
  have "t \<in> set (queues w a)" using li l pk k by (auto simp: condvar.lot_inv_def queue_inv_def)
  then have qne: "queues w a \<noteq> []" by auto
  show ?thesis
  proof (rule cv_inv_crit [OF inv l w'(2)])
    show "thread_ok c w' t" using T ac by (simp add: thread_ok_def w')
    show "mutex_ok w' b" if "mutex_ok w b" for b
    proof (cases "b = a")
      case True
      have "mx_ok (cv_mutex (shared w') a) q (cv_owns w' a) (cv_contends w' a) False"
        by (rule mx_ok_timeout [OF mo [unfolded mutex_ok_def] qne _ _ own cont])
          (auto simp: w'(1) set_mutex_def lock_slow_timed_out_def atomic_simps)
      then show ?thesis using np unfolding mutex_ok_def True by (simp add: w'(3))
    next
      case False
      then show ?thesis using own cont by (intro mutex_ok_other [OF that _ _ w'(2)]) (simp_all add: w'(1,3) set_mutex_def)
    qed
  qed (use ac in \<open>auto simp: w' set_mutex_def\<close>)
qed

text \<open>A wait for a notification times out, before or after the thread was moved to the mutex.\<close>

lemma cv_timeout_wait_inv:
  assumes inv: "cv_inv c w" and li: "condvar.lot_inv c w" and l: "loc w t = Crit (CvAsleep a timed)"
    and pk: "parkedf w t" and r: "crit_step (cv_client c) t n (CvAsleep a timed) w = Some w'"
  shows "cv_inv c w'"
proof -
  note T = cv_invD(1) [OF inv, of t, unfolded thread_ok_def l]
  define k where "k = wkey w t"
  have ac: "a \<noteq> c" "a \<noteq> 0" and k: "k = a \<or> k = c" using T by (auto simp: k_def)
  define q where "q = remove1 t (queues w k)"
  have w': "shared w' = wait_timed_out c t k (q = []) (shared w)" "loc w' = (loc w)(t := Run (CvExpired a))"
    "queues w' = (queues w)(k := q)" "wkey w' = wkey w" "parkedf w' = parkedf w" "utok w' = utok w"
    using r pk by (auto simp: crit_step_def lot_simps Let_def k_def q_def)
  have g: "cv_mutex (shared w') = cv_mutex (shared w)"
    "cv_state (shared w') = (if k = c \<and> q = [] then 0 else cv_state (shared w))"
    by (auto simp: w'(1) wait_timed_out_def Let_def set_cv_def)
  have own: "cv_owns w' b u = cv_owns w b u" for b u using pk by (auto simp: cv_owns_def w' l)
  have cont: "cv_contends w b u \<Longrightarrow> cv_contends w' b u" for b u using pk by (auto simp: cv_contends_def w' l split: if_splits)
  have kk: "k \<in> lock_keys (wkey w t) (cv_client c t (CvAsleep a timed))" by (simp add: k_def)
  have np: "\<not> (\<exists>u. cv_parking k (loc w' u))" by (rule crit_free(2) [OF li l kk _ w'(2)]) simp
  have fr: "crit_ok x (loc w u)" if "k = c" "u \<noteq> t" for x u
    using others_free(1) [of t c w] crit_free(1) [OF li l kk] that by blast
  have "t \<in> set (queues w k)" using li l pk k_def by (auto simp: condvar.lot_inv_def queue_inv_def)
  then have qne: "queues w k \<noteq> []" by auto
  show ?thesis
  proof (rule cv_inv_crit [OF inv l w'(2)])
    show "thread_ok c w' t" using T ac by (simp add: thread_ok_def w'(2))
    show "mutex_ok w' b" if "b \<noteq> c" "mutex_ok w b" for b
    proof (cases "b = k")
      case True
      have "mx_ok (cv_mutex (shared w') b) q (cv_owns w' b) (cv_contends w' b) False"
        by (rule mx_ok_timeout [OF that(2) [unfolded mutex_ok_def] _ _ _ own cont]) (use qne True in \<open>simp_all add: g\<close>)
      then show ?thesis using np unfolding mutex_ok_def True by (simp add: w'(3))
    next
      case False
      then show ?thesis using own cont by (intro mutex_ok_other [OF that(2) _ _ w'(2)]) (simp_all add: w'(3) g)
    qed
    show "u \<in> set (queues w c)" if "u \<in> set (queues w' c)" for u
      using that set_remove1_subset [of t "queues w c"] by (auto simp: w'(3) q_def split: if_splits)
  qed (use fr in \<open>auto simp: w'(2-6) g\<close>)
qed

text \<open>Who can be in the queue of a mutex: a thread asleep for it, or its owner about to sleep.\<close>

lemma in_mutex_queue:
  assumes inv: "cv_inv c w" and li: "condvar.lot_inv c w" and u: "u \<in> set (queues w a)" and ac: "a \<noteq> c"
  shows "cv_wait_pc a (pc w u) \<or> cv_prep a (pc w u)" and "cv_wait_pc b (pc w u) \<or> cv_prep b (pc w u) \<Longrightarrow> b = a" and "parkedf w u"
proof -
  have q: "cv_asleep (pc w u)" "parkedf w u" "wkey w u = a" using li u by (auto simp: condvar.lot_inv_def queue_inv_def)
  then have "a \<in> cv_wkeys c (pc w u)" using cv_invD(1) [OF inv, of u] by (simp add: thread_ok_def)
  then show "cv_wait_pc a (pc w u) \<or> cv_prep a (pc w u)" "cv_wait_pc b (pc w u) \<or> cv_prep b (pc w u) \<Longrightarrow> b = a"
    using q(1) ac by (cases "pc w u"; auto)+
  show "parkedf w u" by (rule q(2))
qed

lemma cv_unlock_slow_inv:
  assumes inv: "cv_inv c w" and li: "condvar.lot_inv c w" and l: "loc w t = Crit p"
    and p: "p = InMutex a r (UnlockSlow fair relock) \<and> p' = InMutex a r (if relock then LockFast False else Idle)
      \<or> p = CvUnlockSlow a timed \<and> p' = CvAsleep a timed \<and> \<not> fair"
    and r: "crit_step (cv_client c) t n p w = Some w'"
  shows "cv_inv c w'"
proof -
  note T = cv_invD(1) [OF inv, of t, unfolded thread_ok_def l]
  have ac: "a \<noteq> c" "a \<noteq> 0" using T p by auto
  define q where "q = queues w a"
  define res where "res = \<lparr>unparked_threads = min 1 (length q), requeued_threads = 0,
      have_more_threads = 1 < length q, be_fair = (q \<noteq> [] \<and> fair_choice n)\<rparr>"
  obtain s token where cb: "unlock_slow_callback fair res (cv_mutex (shared w) a) = (s, token)" by fastforce
  have w': "shared w' = set_mutex a s (shared w)" "loc w' = (loc w)(t := Run p')" "wkey w' = wkey w"
      "\<And>u. parkedf w' u \<longleftrightarrow> parkedf w u \<and> u \<notin> set (take 1 q)"
      "\<And>u. utok w' u = (if u \<in> set (take 1 q) then token else utok w u)"
      "queues w' = (queues w)(a := tl q)"
    using r cb p by (auto simp: crit_step_def cv_in_mutex_def lot_simps Let_def q_def res_def on_mutex_def)
  have t1: "u \<in> set (take (Suc 0) q) \<longleftrightarrow> q \<noteq> [] \<and> u = hd q" for u by (cases q) auto
  have mo: "mutex_ok w a" by (rule cv_invD(2) [OF inv ac(1)])
  have owt: "cv_owns w a t" using l p by (auto simp: cv_owns_def)
  have none: "\<not> cv_owns w a u" if "u \<noteq> t" for u using mx_okD(3) [OF mo [unfolded mutex_ok_def] owt] that by blast
  have Q: "cv_wait_pc b (pc w (hd q)) \<or> cv_prep b (pc w (hd q)) \<longleftrightarrow> b = a" if "q \<noteq> []" for b
    using in_mutex_queue [OF inv li, of "hd q" a] that ac(1) by (metis hd_in_set q_def)
  have prep_own: "cv_prep b x \<Longrightarrow> cv_own_pc b x" for b x by (cases x) auto
  have np: "\<not> cv_prep b (pc w (hd q))" if "q \<noteq> []" "hd q \<noteq> t" for b
    using Q [OF that(1), of b] none [OF that(2)] prep_own by (auto simp: cv_owns_def)
  have Wt: "hd q = t \<Longrightarrow> q \<noteq> [] \<Longrightarrow> p' = CvAsleep a timed" using Q [of a] p l by auto
  have J: "p' = CvAsleep a timed \<Longrightarrow> \<not> parkedf w t \<Longrightarrow> utok w t \<noteq> TOKEN_HANDOFF" using T p by auto
  have pt: "\<not> cv_own_pc b p'" "cv_wait_pc b p' \<longleftrightarrow> b = a \<and> p' = CvAsleep a timed" for b using p by (auto split: if_splits)
  have own_a: "cv_owns w' a u \<longleftrightarrow> token = TOKEN_HANDOFF \<and> q \<noteq> [] \<and> u = hd q" for u
  proof (cases "u = t")
    case True
    then show ?thesis using pt J Wt by (auto simp: cv_owns_def w' t1)
  next
    case False
    then show ?thesis
      using none [OF False] Q [of a] np by (auto simp: cv_owns_def w' t1)
  qed
  have cont_a: "q \<noteq> [] \<Longrightarrow> cv_contends w' a (hd q)"
    using Wt pt Q [of a] np by (auto simp: cv_contends_def w' t1)
  have other: "cv_owns w' b u = cv_owns w b u" "cv_contends w' b u = cv_contends w b u" if "b \<noteq> a" for b u
    using that Q [of b] p l by (auto simp: cv_owns_def cv_contends_def w' t1)
  have "a \<in> lock_keys (wkey w t) (cv_client c t p)" using p by (auto simp: cv_in_mutex_def)
  then have npk: "\<not> (\<exists>u. cv_parking a (loc w' u))" by (intro crit_free(2) [OF li l _ _ w'(2)]) simp_all
  show ?thesis
  proof (rule cv_inv_crit [OF inv l w'(2)])
    show "parkedf w' u = parkedf w u \<and> utok w' u = utok w u \<or> (\<forall>b. \<not> cv_prep b (pc w u))" if "u \<noteq> t" for u
      using np that by (auto simp: w' t1)
    have "notifying_all w b \<Longrightarrow> notifying_all w' b" for b by (rule notifying_all_mono [of t]) (simp_all add: w'(2) l)
    then have "cv_current w b \<Longrightarrow> cv_current w' b" for b by (auto simp: cv_current_def w'(1) set_mutex_def)
    then show "thread_ok c w' t" using T p ac by (auto simp: thread_ok_def w'(2,3,6) split: if_splits)
    show "mutex_ok w' b" if "mutex_ok w b" for b
    proof (cases "b = a")
      case True
      have "mx_ok s (tl q) (cv_owns w' a) (cv_contends w' a) False"
        by (rule mx_ok_unlock [where t = t and own = "cv_owns w a", OF mo [unfolded mutex_ok_def, folded q_def] owt
              cb [unfolded res_def] own_a]) (rule cont_a)
      then show ?thesis using npk unfolding mutex_ok_def True by (simp add: w'(1,6) set_mutex_def)
    next
      case False
      then show ?thesis using other by (intro mutex_ok_other [OF that _ _ w'(2)]) (simp_all add: w'(1,6) set_mutex_def)
    qed
  qed (use ac p in \<open>auto simp: w'(1,2,3,6) set_mutex_def\<close>)
qed

section \<open>Notifications\<close>

text \<open>What is left of the waiters after an operation, and who waits.\<close>

lemma requeue_rest:
  assumes "requeue_pick op q = (wk, mv)" and "distinct q"
  shows "op \<in> {RequeueOne, UnparkOne} \<Longrightarrow> filter (\<lambda>u. u \<notin> set wk \<union> set mv) q = tl q"
    and "op \<in> {RequeueAll, UnparkOneRequeueRest} \<Longrightarrow> filter (\<lambda>u. u \<notin> set wk \<union> set mv) q = []"
    and "wk @ mv = (if op \<in> {RequeueOne, UnparkOne} then take 1 q else if op = Abort then [] else q)"
    and "op \<in> {UnparkOne, UnparkOneRequeueRest} \<Longrightarrow> wk = take 1 q" and "op \<in> {RequeueOne, RequeueAll} \<Longrightarrow> wk = []"
    and "op = UnparkOne \<Longrightarrow> mv = []"
  using assms by (cases op; cases q; auto simp: filter_empty_conv)+

lemma waiters_current:
  assumes inv: "cv_inv c w" and li: "condvar.lot_inv c w" and l: "loc w t = CritOp p op"
    and p: "p = CvNotifyOneSlow bk a \<or> p = CvNotifyAllSlow bk a" and u: "u \<in> set (queues w c)"
  shows "cv_waits a (pc w u)" and "cv_waits b (pc w u) \<Longrightarrow> b = a"
proof -
  note T = cv_invD(1) [OF inv, of u, unfolded thread_ok_def] and Tt = cv_invD(1) [OF inv, of t, unfolded thread_ok_def l]
  have kt: "c \<in> held_keys (cv_client c) w t" using l p by (auto simp: held_keys_def)
  have free: "\<And>v. v \<noteq> t \<Longrightarrow> c \<notin> held_keys (cv_client c) w v" using holder_unique [OF li _ kt] by blast
  have "cv_asleep (pc w u)" "wkey w u = c" using li u by (auto simp: condvar.lot_inv_def queue_inv_def)
  then obtain b where b: "cv_waits b (pc w u)" using T by (cases "pc w u") auto
  have b0: "b \<noteq> 0" using T b by (cases "pc w u") auto
  have "cv_current w b" using T u b by blast
  then have "b = a"
    using others_free(3) [of t c w b, OF free] Tt p l b0 by (auto simp: cv_current_def)
  then show "cv_waits a (pc w u)" using b by simp
  then show "cv_waits b (pc w u) \<Longrightarrow> b = a" for b by (cases "pc w u") auto
qed

definition notify_mutex :: "cv_pc \<Rightarrow> RequeueOp \<Rightarrow> tid list \<Rightarrow> u8 \<Rightarrow> u8" where
  "notify_mutex p op mv s = (case p of CvNotifyAllSlow _ _ \<Rightarrow>
     if op = UnparkOneRequeueRest \<and> mv \<noteq> [] then s OR PARKED_BIT else s | _ \<Rightarrow> s)"

definition notify_state :: "cv_pc \<Rightarrow> tid list \<Rightarrow> usize \<Rightarrow> usize" where
  "notify_state p q s = (case p of CvNotifyOneSlow _ _ \<Rightarrow> if 1 < length q then s else 0 | _ \<Rightarrow> s)"

lemma notify_step_result:
  assumes l: "p = CvNotifyOneSlow bk a \<or> p = CvNotifyAllSlow bk a"
    and ac: "a \<noteq> c" and op: "p = CvNotifyOneSlow bk a \<longrightarrow> op \<in> {RequeueOne, UnparkOne}"
    and pick: "requeue_pick op (queues w c) = (wk, mv)"
    and r: "requeue_step (cv_client c) t n p op w = Some w'"
  shows "loc w' = (loc w)(t := Run (CvNotified bk (length wk + length mv)))"
    and "queues w' = (queues w)(c := filter (\<lambda>u. u \<notin> set wk \<union> set mv) (queues w c), a := queues w a @ mv)"
    and "wkey w' u = (if u \<in> set mv then a else wkey w u)"
    and "utok w' u = (if u \<in> set wk then TOKEN_NORMAL else utok w u)"
    and "parkedf w' u \<longleftrightarrow> parkedf w u \<and> u \<notin> set wk"
    and "cv_mutex (shared w') = (cv_mutex (shared w))(a := notify_mutex p op mv (cv_mutex (shared w) a))"
    and "cv_state (shared w') = notify_state p (queues w c) (cv_state (shared w))"
  using l ac op pick r
  by (auto simp: requeue_step_def Let_def lot_simps notify_one_callback_def notify_all_callback_def requeue_one_def
      notify_mutex_def notify_state_def set_cv_def set_mutex_def mark_parked_def atomic_simps notify_result_def
      split: if_splits)

lemma mutex_ok_notify:
  assumes inv: "cv_inv c w" and li: "condvar.lot_inv c w" and l: "loc w t = CritOp p op"
    and p: "p = CvNotifyOneSlow bk a \<or> p = CvNotifyAllSlow bk a"
    and pick: "requeue_pick op (queues w c) = (wk, mv)"
    and r: "requeue_step (cv_client c) t n p op w = Some w'" and b: "b \<noteq> c"
  shows "mutex_ok w' b"
proof -
  note Tt = cv_invD(1) [OF inv, of t, unfolded thread_ok_def l]
  have ac: "a \<noteq> c" and op: "p = CvNotifyOneSlow bk a \<longrightarrow> op \<in> {RequeueOne, UnparkOne}"
    "p = CvNotifyAllSlow bk a \<longrightarrow> op \<in> {RequeueAll, UnparkOneRequeueRest}" using Tt p by auto
  note W = notify_step_result [OF p ac op(1) pick r]
  have d: "distinct (queues w c)" using li by (simp add: condvar.lot_inv_def queue_inv_def)
  have sub: "set wk \<subseteq> set (queues w c)" "set mv \<subseteq> set (queues w c)" using requeue_pick_set [OF pick d] by auto
  have wt: "cv_waits a (pc w u)" "parkedf w u" "u \<noteq> t" if "u \<in> set (queues w c)" for u
  proof -
    show "cv_waits a (pc w u)" by (rule waiters_current(1) [OF inv li l p that])
    then show "u \<noteq> t" using l p by auto
    show "parkedf w u" using li that by (auto simp: condvar.lot_inv_def queue_inv_def)
  qed
  have tok: "TOKEN_NORMAL \<noteq> TOKEN_HANDOFF" by (simp add: mutex_consts)
  have own: "cv_owns w' b u = cv_owns w b u" for u
    using wt [of u] sub(1) tok p l by (auto simp: cv_owns_def W(1,4,5) split: if_splits)
  have cont: "cv_contends w b u \<Longrightarrow> cv_contends w' b u" for u
    using p l by (auto simp: cv_contends_def W(1,5) split: if_splits)
  note ok = cv_invD(2) [OF inv b]
  show ?thesis
  proof (cases "b = a")
    case False
    then show ?thesis using own cont b by (intro mutex_ok_other [OF ok _ _ W(1)]) (simp_all add: W(2,6))
  next
    case True
    have "a \<in> held_keys (cv_client c) w t" using l p by (auto simp: held_keys_def)
    then have np: "\<not> (\<exists>u. cv_parking b (loc w' u))"
      using park_key [of a w _ c] holder_unique [OF li] True by (auto simp: W(1))
    have qb: "queues w' b = queues w b @ mv" using True by (simp add: W(2))
    have sb: "cv_mutex (shared w') b = notify_mutex p op mv (cv_mutex (shared w) b)" by (simp add: W(6) True)
    show ?thesis
    proof (cases "op \<in> {RequeueOne, RequeueAll}")
      case req: True
      then have "cv_parking b (loc w t)" using l p True by auto
      then have 3: "cv_mutex (shared w) b = 3" using mx_okD(5) [OF ok [unfolded mutex_ok_def]] by blast
      have "mutex_locked (cv_mutex (shared w) b)" by (simp add: 3 mutex_locked_def)
      from mx_ok_3 [OF ok [unfolded mutex_ok_def] this own] show ?thesis
        using req p by (auto simp: mutex_ok_def sb notify_mutex_def 3)
    next
      case False
      then have "op \<in> {UnparkOne, UnparkOneRequeueRest}" using op p by auto
      note rr = requeue_rest(4) [OF pick d this] requeue_rest(6) [OF pick d]
      have s': "cv_mutex (shared w') b = (if mv = [] then cv_mutex (shared w) b else cv_mutex (shared w) b OR PARKED_BIT)"
        using rr(2) op p False by (auto simp: sb notify_mutex_def)
      have "\<exists>u. cv_contends w' b u \<or> cv_owns w' b u" if "mv \<noteq> []"
      proof -
        have qn: "queues w c \<noteq> []" using that sub(2) by auto
        let ?u = "hd (queues w c)"
        have u: "?u \<in> set (queues w c)" "?u \<in> set wk" using qn rr(1) by (cases "queues w c"; simp)+
        have "cv_wait_pc b (pc w ?u) \<or> cv_own_pc b (pc w ?u)" using wt(1) [OF u(1)] True by (cases "pc w ?u") auto
        then show ?thesis using wt(3) [OF u(1)] u(2)
          by (intro exI [of _ ?u]) (auto simp: cv_contends_def cv_owns_def W(1,5))
      qed
      from mx_ok_requeue [OF ok [unfolded mutex_ok_def] s' own cont this] show ?thesis
        using np by (simp add: mutex_ok_def qb)
    qed
  qed
qed

lemma cv_notify_inv:
  assumes inv: "cv_inv c w" and li: "condvar.lot_inv c w" and l: "loc w t = CritOp p op"
    and p: "p = CvNotifyOneSlow bk a \<or> p = CvNotifyAllSlow bk a"
    and r: "requeue_step (cv_client c) t n p op w = Some w'"
  shows "cv_inv c w'"
proof -
  obtain wk mv where pick: "requeue_pick op (queues w c) = (wk, mv)" by fastforce
  note Tt = cv_invD(1) [OF inv, of t, unfolded thread_ok_def l]
  have ac: "a \<noteq> c" "a \<noteq> 0" and op: "p = CvNotifyOneSlow bk a \<longrightarrow> op \<in> {RequeueOne, UnparkOne}"
    "p = CvNotifyAllSlow bk a \<longrightarrow> op \<in> {RequeueAll, UnparkOneRequeueRest}" using Tt p by auto
  note W = notify_step_result [OF p ac(1) op(1) pick r]
  have d: "distinct (queues w c)" using li by (simp add: condvar.lot_inv_def queue_inv_def)
  note wt = waiters_current [OF inv li l p]
  have kt: "c \<in> held_keys (cv_client c) w t" using l p by (auto simp: held_keys_def)
  have free: "crit_ok x (loc w u)" if "u \<noteq> t" for x u
    using others_free(1) [of t c w u x] holder_unique [OF li _ kt] that by blast
  have qc: "queues w' c = (if p = CvNotifyOneSlow bk a then tl (queues w c) else [])"
    using requeue_rest(1,2) [OF pick d] op p ac(1) by (auto simp: W(2))
  have st: "cv_state (shared w') = (if p = CvNotifyOneSlow bk a \<and> 1 < length (queues w c) then a else 0)"
    using Tt p by (auto simp: W(7) notify_state_def)
  have sc: "cv_state (shared w') = a" if "queues w' c \<noteq> []"
    using that by (cases "queues w c"; cases "tl (queues w c)") (auto simp: qc st split: if_splits)
  have mvq: "set mv \<subseteq> set (queues w c)" using requeue_pick_set [OF pick d] by auto
  have tok: "TOKEN_NORMAL \<noteq> TOKEN_HANDOFF" by (simp add: mutex_consts)
  have th: "thread_ok c w' u" for u
  proof (cases "u = t")
    case True
    then show ?thesis using Tt p by (auto simp: thread_ok_def W(1))
  next
    case False
    note T = cv_invD(1) [OF inv, of u, unfolded thread_ok_def]
    have pcu: "pc w' u = pc w u" "loc w' u = loc w u" using False by (simp_all add: W(1))
    have "wkey w' u \<in> cv_wkeys c (pc w u)" if "cv_asleep (pc w u)"
    proof (cases "u \<in> set mv")
      case True
      then have "cv_waits a (pc w u)" using wt(1) mvq by blast
      then show ?thesis using True by (cases "pc w u") (auto simp: W(3))
    next
      case False
      then show ?thesis using T that by (simp add: W(3))
    qed
    moreover have "cv_current w' b" if "u \<in> set (queues w' c)" "cv_waits b (pc w u)" for b
    proof -
      have "u \<in> set (queues w c)"
        using that(1) by (cases "queues w c") (auto simp: qc split: if_splits)
      then have "b = a" using wt(2) that(2) by blast
      moreover have "queues w' c \<noteq> []" using that(1) by auto
      then have "cv_state (shared w') = a" by (rule sc)
      ultimately show ?thesis by (simp add: cv_current_def)
    qed
    ultimately show ?thesis
      using T tok free [OF False] unfolding thread_ok_def pcu W(4,5) by auto
  qed
  have "queues w' c \<noteq> []" if "cv_state (shared w') \<noteq> 0"
    using that by (cases "queues w c"; cases "tl (queues w c)") (auto simp: qc st split: if_splits)
  then have "state_ok c w'" using ac by (auto simp: state_ok_def st)
  then show ?thesis using th mutex_ok_notify [OF inv li l p pick r] by (simp add: cv_inv_def)
qed

section \<open>The invariant is kept\<close>

lemma moves_goto: "moves t (Run p) w (goto t p (w\<lparr>shared := g\<rparr>))"
  by (simp add: moves_def lot_simps)

lemma moves_acquire:
  "acquire t ks ph (w\<lparr>shared := g\<rparr>) = Some w' \<Longrightarrow> moves t ph w w' \<and> shared w' = g \<and> (\<forall>k\<in>set ks. holder w k = None)"
  by (auto simp: moves_def acquire_def split: if_splits)

lemma moves_acquire_same:
  "acquire t ks ph w = Some w' \<Longrightarrow> moves t ph w w' \<and> shared w' = shared w"
  by (auto simp: moves_def acquire_def split: if_splits)

lemma cv_call_ok:
  "0 \<notin> pc_mutexes (cv_call c n)" "c \<notin> pc_mutexes (cv_call c n)" "\<not> cv_own_pc a (cv_call c n)"
  by (auto simp: cv_call_def Let_def mutex_call_def split: if_splits)

lemma cv_leave_ok:
  "pc_mutexes (cv_leave a n) = {a}" "cv_own_pc b (cv_leave a n) \<longleftrightarrow> b = a"
  by (auto simp: cv_leave_def mutex_leave_def split: if_splits)

lemma cv_mutex_run_inv:
  assumes inv: "cv_inv c w" and li: "condvar.lot_inv c w" and l: "loc w t = Run (InMutex a r p)"
    and s: "run_step (cv_client c) t n (InMutex a r p) w = Some w'"
  shows "cv_inv c w'"
proof (cases "p = Idle \<or> p = Owner")
  case True
  note T = cv_invD(1) [OF inv, of t, unfolded thread_ok_def l]
  let ?p = "if p = Idle then cv_call c n else cv_leave a n"
  have w': "moves t (Run ?p) w w' \<and> shared w' = shared w"
    using s True by (auto simp: run_step_def cv_in_mutex_def moves_goto) (auto simp: lot_simps moves_def)
  show ?thesis
    by (rule cv_inv_awake [OF inv l conjunct1 [OF w'] conjunct2 [OF w']])
      (use True T in \<open>auto simp: cv_call_ok cv_leave_ok cv_call_awake cv_leave_awake\<close>)
next
  case False
  show ?thesis
  proof (cases "mutex_client a t p")
    case (Atomic h)
    have c: "cv_in_mutex c t a r p = lift_action a r (Atomic h)"
      using False Atomic by (cases p) (auto simp: cv_in_mutex_def)
    show ?thesis
      by (rule cv_mutex_atomic_inv [OF inv l Atomic, of n])
        (use s in \<open>auto simp: run_step_def c on_mutex_def moves_def lot_simps split: prod.splits\<close>)
  next
    case (ParkEnq k token v li' ls)
    then obtain timed where p: "p = SlowPark timed" by (cases p) auto
    have v: "on_mutex a lock_slow_validate (shared w) = (shared w, cv_mutex (shared w) a = 3)"
      by (simp add: on_mutex_def lock_slow_validate_def set_mutex_def mutex_consts)
    show ?thesis
    proof (cases "cv_mutex (shared w) a = 3")
      case True
      then have w': "moves t (Crit (InMutex a r p)) w w' \<and> shared w' = shared w"
        using s v by (auto simp: run_step_def cv_in_mutex_def p dest!: moves_acquire_same split: if_splits)
      show ?thesis
        by (rule cv_inv_enter [OF inv l conjunct1 [OF w'] conjunct2 [OF w']]) (use True p in simp_all)
    next
      case False
      then have w': "moves t (Run (InMutex a r (SlowReload timed))) w w' \<and> shared w' = shared w"
        using s v by (auto simp: run_step_def cv_in_mutex_def p moves_goto lot_simps split: if_splits) (auto simp: moves_def)
      show ?thesis
        by (rule cv_inv_awake [OF inv l conjunct1 [OF w'] conjunct2 [OF w']])
          (use p cv_invD(1) [OF inv, of t] in \<open>auto simp: thread_ok_def l\<close>)
    qed
  next
    case (ParkSleep timed cb lu le)
    then have p: "p = SlowAsleep timed" by (cases p) auto
    show ?thesis
    proof (cases "parkedf w t")
      case True
      then have w': "moves t (Crit (InMutex a r p)) w w' \<and> shared w' = shared w"
        using s by (auto simp: run_step_def cv_in_mutex_def p dest!: moves_acquire_same split: if_splits)
      show ?thesis
        by (rule cv_inv_enter [OF inv l conjunct1 [OF w'] conjunct2 [OF w']]) (simp_all add: p)
    next
      case False
      have w': "moves t (Run (resume (InMutex a r p) (utok w t))) w w' \<and> shared w' = shared w"
        using s False by (auto simp: run_step_def cv_in_mutex_def p resume_def moves_def lot_simps)
      show ?thesis
        by (rule cv_resume_inv [OF inv l _ False conjunct1 [OF w'] conjunct2 [OF w']]) (simp add: p)
    qed
  next
    case (CallUnparkOne k cb cont)
    then obtain fair relock where p: "p = UnlockSlow fair relock" by (cases p) auto
    have w': "moves t (Crit (InMutex a r p)) w w' \<and> shared w' = shared w"
      using s by (auto simp: run_step_def cv_in_mutex_def p dest!: moves_acquire_same)
    show ?thesis
      by (rule cv_inv_enter [OF inv l conjunct1 [OF w'] conjunct2 [OF w']]) (simp_all add: p)
  qed (cases p; simp)+
qed

lemma cv_notify_run_inv:
  assumes inv: "cv_inv c w" and li: "condvar.lot_inv c w" and l: "loc w t = Run p"
    and p: "p = CvNotifyOneSlow bk a \<or> p = CvNotifyAllSlow bk a"
    and s: "run_step (cv_client c) t n p w = Some w'"
  shows "cv_inv c w'"
proof (cases "cv_state (shared w) = a")
  case False
  then have w': "moves t (Run (CvNotified bk 0)) w w' \<and> shared w' = shared w"
    using s p by (auto simp: run_step_def notify_one_validate_def notify_all_validate_def moves_def lot_simps
        notify_result_def UnparkResult_default_def split: if_splits)
  show ?thesis
    by (rule cv_inv_awake [OF inv l conjunct1 [OF w'] conjunct2 [OF w']])
      (use p cv_invD(1) [OF inv, of t] in \<open>auto simp: thread_ok_def l\<close>)
next
  case True
  have ac: "a \<noteq> c" using cv_invD(1) [OF inv, of t] p l by (auto simp: thread_ok_def)
  have mo: "mutex_ok w a" by (rule cv_invD(2) [OF inv ac])
  have mp: "mark_parked_if_locked (cv_mutex (shared w) a) =
      (if mutex_locked (cv_mutex (shared w) a) then 3 else cv_mutex (shared w) a, mutex_locked (cv_mutex (shared w) a))"
    using mx_okD(1) [OF mo [unfolded mutex_ok_def]]
    by (auto simp: mark_parked_if_locked_def mutex_locked_def mutex_consts)
  let ?s = "if mutex_locked (cv_mutex (shared w) a) then 3 else cv_mutex (shared w) a"
  have v: "notify_one_validate a (shared w) =
      (set_mutex a ?s (shared w), if mutex_locked (cv_mutex (shared w) a) then RequeueOne else UnparkOne)"
    "notify_all_validate a (shared w) =
      (set_mutex a ?s (set_cv 0 (shared w)), if mutex_locked (cv_mutex (shared w) a) then RequeueAll else UnparkOneRequeueRest)"
    by (simp_all add: notify_one_validate_def notify_all_validate_def mp True)
  define op where "op = (case (mutex_locked (cv_mutex (shared w) a), p) of
      (True, CvNotifyOneSlow _ _) \<Rightarrow> RequeueOne | (False, CvNotifyOneSlow _ _) \<Rightarrow> UnparkOne
    | (True, _) \<Rightarrow> RequeueAll | _ \<Rightarrow> UnparkOneRequeueRest)"
  define g where "g = set_mutex a ?s (case p of CvNotifyOneSlow _ _ \<Rightarrow> shared w | _ \<Rightarrow> set_cv 0 (shared w))"
  have h: "holder w c = None" "acquire t [c, a] (CritOp p op) (w\<lparr>shared := g\<rparr>) = Some w'"
    using s p by (auto simp: run_step_def v op_def g_def split: if_splits)
  have sg: "cv_state g = (case p of CvNotifyOneSlow _ _ \<Rightarrow> a | _ \<Rightarrow> 0)" "cv_mutex g = (cv_mutex (shared w))(a := ?s)"
    using p True by (auto simp: g_def set_mutex_def set_cv_def)
  note w' = moves_acquire [OF h(2)]
  show ?thesis
    by (rule cv_notify_enter_inv [OF inv li l p h(1) True op_def]) (use w' sg in simp_all)
qed

lemma cv_run_step_inv:
  assumes inv: "cv_inv c w" and li: "condvar.lot_inv c w" and l: "loc w t = Run p"
    and s: "run_step (cv_client c) t n p w = Some w'"
  shows "cv_inv c w'"
proof -
  note T = cv_invD(1) [OF inv, of t, unfolded thread_ok_def l]
  have awake: "cv_inv c w'" if "cv_client c t p = Atomic (\<lambda>n g. (g, f n g))" "\<not> cv_asleep p" "\<not> cv_asleep (f n (shared w))"
      "0 \<notin> pc_mutexes (f n (shared w))" "c \<notin> pc_mutexes (f n (shared w))"
      "\<And>a. cv_own_pc a (f n (shared w)) = cv_own_pc a p" "\<And>a. cv_contend_pc a p \<Longrightarrow> cv_contend_pc a (f n (shared w))" for f
    by (rule cv_inv_awake [OF inv l _ _ that(2-7)]) (use s in \<open>auto simp: run_step_def that(1) moves_def lot_simps\<close>)
  have st: "cv_state (shared w) \<noteq> 0 \<Longrightarrow> cv_state (shared w) \<noteq> c" using cv_invD(3) [OF inv] by (simp add: state_ok_def)
  show ?thesis
  proof (cases p)
    case CvOut
    show ?thesis by (rule awake [of "\<lambda>n g. cv_call c n"]) (simp_all add: CvOut cv_call_ok cv_call_awake)
  next
    case (InMutex a r q)
    then show ?thesis using cv_mutex_run_inv [OF inv li] l s by blast
  next
    case (CvPark a timed)
    obtain g v where v: "wait_validate a (shared w) = (g, v)" by fastforce
    show ?thesis
    proof (cases v)
      case True
      then have w': "moves t (Crit p) w w' \<and> shared w' = g \<and> holder w c = None"
        using s v by (auto simp: run_step_def CvPark dest!: moves_acquire split: if_splits)
      show ?thesis
        by (rule cv_park_enter_inv [OF inv li, of t a timed g]) (use w' v True l in \<open>simp_all add: CvPark\<close>)
    next
      case False
      then have w': "moves t (Run (CvBad a)) w w' \<and> shared w' = shared w"
        using s v by (auto simp: run_step_def CvPark wait_validate_def moves_def lot_simps split: if_splits)
      show ?thesis
        by (rule cv_inv_awake [OF inv l conjunct1 [OF w'] conjunct2 [OF w']]) (use T in \<open>auto simp: CvPark\<close>)
    qed
  next
    case (CvBad a)
    show ?thesis
      by (rule awake [of "\<lambda>n g. InMutex a None (UnlockFast False)"]) (use T in \<open>auto simp: CvBad\<close>)
  next
    case (CvUnlock a timed)
    show ?thesis
      by (rule cv_unlock_inv [OF inv, of t a timed])
        (use s l in \<open>auto simp: run_step_def CvUnlock moves_def lot_simps split: prod.splits\<close>)
  next
    case (CvUnlockSlow a timed)
    have w': "moves t (Crit p) w w' \<and> shared w' = shared w"
      using s by (auto simp: run_step_def CvUnlockSlow dest!: moves_acquire_same)
    show ?thesis
      by (rule cv_inv_enter [OF inv l conjunct1 [OF w'] conjunct2 [OF w']]) (simp_all add: CvUnlockSlow)
  next
    case (CvAsleep a timed)
    show ?thesis
    proof (cases "parkedf w t")
      case True
      then have w': "moves t (Crit p) w w' \<and> shared w' = shared w"
        using s by (auto simp: run_step_def CvAsleep dest!: moves_acquire_same split: if_splits)
      show ?thesis
        by (rule cv_inv_enter [OF inv l conjunct1 [OF w'] conjunct2 [OF w']]) (simp_all add: CvAsleep)
    next
      case False
      have w': "moves t (Run (resume p (utok w t))) w w' \<and> shared w' = shared w"
        using s False by (auto simp: run_step_def CvAsleep resume_def moves_def lot_simps)
      show ?thesis
        by (rule cv_resume_inv [OF inv l _ False conjunct1 [OF w'] conjunct2 [OF w']]) (simp add: CvAsleep)
    qed
  next
    case (CvExpired a)
    show ?thesis
      by (rule awake [of "\<lambda>n. wait_expired a t"]) (use T in \<open>auto simp: CvExpired wait_expired_def\<close>)
  next
    case (CvNotifyOne bk)
    show ?thesis
      by (rule awake [of "\<lambda>n. notify_entry (CvNotifyOneSlow bk) bk"])
        (use T st in \<open>auto simp: CvNotifyOne notify_entry_def split: if_splits\<close>)
  next
    case (CvNotifyAll bk)
    show ?thesis
      by (rule awake [of "\<lambda>n. notify_entry (CvNotifyAllSlow bk) bk"])
        (use T st in \<open>auto simp: CvNotifyAll notify_entry_def split: if_splits\<close>)
  next
    case (CvNotified bk k)
    show ?thesis
      by (rule awake [of "\<lambda>n g. cv_back bk"])
        (use T in \<open>auto simp: CvNotified cv_back_def split: option.splits\<close>)
  next
    case (CvNotifyOneSlow bk a)
    then show ?thesis using cv_notify_run_inv [OF inv li l, of bk a n w'] s by simp
  next
    case (CvNotifyAllSlow bk a)
    then show ?thesis using cv_notify_run_inv [OF inv li l, of bk a n w'] s by simp
  qed
qed

lemma cv_crit_step_inv:
  assumes inv: "cv_inv c w" and li: "condvar.lot_inv c w" and l: "loc w t = Crit p"
    and s: "crit_step (cv_client c) t n p w = Some w'"
  shows "cv_inv c w'"
proof -
  have sl: ?thesis if p: "sleeps p" "\<not> parkedf w t"
  proof -
    have w': "moves t (Run (resume p (utok w t))) w w' \<and> shared w' = shared w"
      using s p by (auto elim!: sleeps_cases simp: crit_step_def cv_in_mutex_def resume_def moves_def lot_simps Let_def)
    show ?thesis by (rule cv_resume_crit_inv [OF inv l p conjunct1 [OF w'] conjunct2 [OF w']])
  qed
  show ?thesis
  proof (cases p)
    case (InMutex a r q)
    show ?thesis
    proof (cases q)
      case (SlowPark timed)
      then show ?thesis using cv_enqueue_mutex_inv [OF inv li] l s InMutex by blast
    next
      case (SlowAsleep timed)
      then show ?thesis
        using sl cv_timeout_mutex_inv [OF inv li, of t a r timed n w'] l s InMutex by (cases "parkedf w t") simp_all
    next
      case (UnlockSlow fair relock)
      then show ?thesis using cv_unlock_slow_inv [OF inv li l _ s] InMutex by blast
    qed (use s in \<open>simp_all add: InMutex crit_step_def cv_in_mutex_def\<close>)
  next
    case (CvPark a timed)
    then show ?thesis using cv_enqueue_wait_inv [OF inv li] l s by blast
  next
    case (CvUnlockSlow a timed)
    then show ?thesis using cv_unlock_slow_inv [OF inv li l _ s, where fair = False] by blast
  next
    case (CvAsleep a timed)
    then show ?thesis
      using sl cv_timeout_wait_inv [OF inv li, of t a timed n w'] l s by (cases "parkedf w t") simp_all
  qed (use s in \<open>simp_all add: crit_step_def\<close>)
qed

lemma cv_step_inv:
  assumes inv: "cv_inv c w" and li: "condvar.lot_inv c w" and s: "step (cv_client c) (t, n) w = Some w'"
  shows "cv_inv c w'"
proof (cases "loc w t")
  case (Run p)
  then show ?thesis using cv_run_step_inv [OF inv li Run] s by (simp add: step_def)
next
  case (Crit p)
  then show ?thesis using cv_crit_step_inv [OF inv li Crit] s by (simp add: step_def)
next
  case (CritOp p op)
  then have r: "requeue_step (cv_client c) t n p op w = Some w'" using s by (simp add: step_def)
  have ne: "cv_in_mutex c t a r q \<noteq> CallUnparkRequeue kf kt v cb cont" for a r q kf kt v cb cont
    by (cases q) (simp_all add: cv_in_mutex_def)
  show ?thesis
  proof (cases p)
    case (CvNotifyOneSlow bk a)
    then show ?thesis using cv_notify_inv [OF inv li CritOp _ r] by blast
  next
    case (CvNotifyAllSlow bk a)
    then show ?thesis using cv_notify_inv [OF inv li CritOp _ r] by blast
  next
    case (InMutex a m q)
    then show ?thesis using r by (cases q) (simp_all add: requeue_step_def cv_in_mutex_def)
  qed (use r in \<open>simp_all add: requeue_step_def\<close>)
qed

lemma cv_start_inv: "cv_inv c cv_start" "condvar.lot_inv c cv_start"
proof -
  show "condvar.lot_inv c cv_start" unfolding cv_start_def by (rule condvar.init_lot_inv) simp
  show "cv_inv c cv_start"
    by (simp add: cv_inv_def thread_ok_def mutex_ok_def mx_ok_def state_ok_def cv_start_def world_init_def cv_owns_def
        mutex_locked_def)
qed

lemma cv_reach_inv:
  assumes "reach (cv_client c) cv_start w"
  shows "cv_inv c w \<and> condvar.lot_inv c w"
  using assms
proof (induction rule: reach.induct)
  case reach_init
  show ?case by (simp add: cv_start_inv)
next
  case (reach_step w tc w')
  then show ?case
    using cv_step_inv [of c w "fst tc" "snd tc" w'] condvar.lot_inv_step [of c w "fst tc" "snd tc" w'] by simp
qed

end
