(* ===== verification/Condvar_Claims.thy ===== *)
theory Condvar_Claims
  imports Condvar_Safety
begin

text \<open>
  What the condition variable guarantees, in every interleaving of threads that lock any mutexes, wait
  with and without a timeout and notify.
\<close>

section \<open>Enabled steps\<close>

lemma cv_run_enabled:
  assumes l: "loc w u = Run p" and p: "sleeps p \<longrightarrow> \<not> parkedf w u"
    and free: "\<And>k. k \<in> lock_keys (wkey w u) (cv_client c u p) \<Longrightarrow> holder w k = None"
  shows "\<exists>w'. step (cv_client c) (u, n) w = Some w'"
proof (cases p)
  case (InMutex a r q)
  then show ?thesis using l p free
    by (cases q) (auto simp: step_def run_step_def cv_in_mutex_def acquire_def Let_def split: prod.splits)
qed (use l p free in \<open>auto simp: step_def run_step_def acquire_def Let_def split: prod.splits\<close>)

lemma cv_enabled:
  assumes li: "condvar.lot_inv c w" and u: "cv_owns w a u \<or> cv_contends w a u"
  shows "\<exists>v w'. (v = u \<or> (\<exists>k. holder w k = Some v)) \<and> step (cv_client c) (v, n) w = Some w'"
proof (cases "\<exists>p. loc w u = Run p")
  case True
  then obtain p where l: "loc w u = Run p" by blast
  have sl: "sleeps p \<longrightarrow> \<not> parkedf w u"
    using u l by (auto simp: cv_owns_def cv_contends_def elim!: sleeps_cases)
  show ?thesis
  proof (cases "\<exists>k v. holder w k = Some v")
    case True
    then obtain k v where v: "holder w k = Some v" by blast
    then show ?thesis using condvar.holder_enabled [OF li v, of n] by blast
  next
    case False
    then have "holder w k = None" for k by (cases "holder w k") auto
    then show ?thesis using cv_run_enabled [OF l sl, of c n] by blast
  qed
next
  case False
  then show ?thesis using condvar.crit_enabled [OF li, of u] by blast
qed

lemma asleep_not_contending: "mutex_asleep p \<Longrightarrow> \<not> contend_pc p \<and> \<not> mutex_enters p"
  by (cases p) simp_all

lemma cv_own_address:
  assumes inv: "cv_inv c w" and own: "cv_own_pc a (pc w t)"
  shows "a \<noteq> c"
proof -
  have "a \<in> pc_mutexes (pc w t)" using own by (cases "pc w t") auto
  then show ?thesis using cv_invD(1) [OF inv, of t] by (auto simp: thread_ok_def)
qed

section \<open>The mutex of the waiters\<close>

lemma waiter_current_mutex:
  assumes "cv_inv c w" and "t \<in> set (queues w c)" "cv_waits a (pc w t)"
  shows "cv_current w a" "a \<noteq> 0"
  using cv_invD(1) [OF assms(1), of t] assms(2,3) by (cases "pc w t"; auto simp: thread_ok_def)+

lemma waiter_has_mutex:
  assumes inv: "cv_inv c w" and li: "condvar.lot_inv c w" and t: "t \<in> set (queues w c)"
  shows "\<exists>a. cv_waits a (pc w t)"
proof -
  have "cv_asleep (pc w t)" "wkey w t = c" using li t by (auto simp: condvar.lot_inv_def queue_inv_def)
  then show ?thesis using cv_invD(1) [OF inv, of t] by (cases "pc w t") (auto simp: thread_ok_def)
qed

lemma waits_unique: "cv_waits a p \<Longrightarrow> cv_waits b p \<Longrightarrow> a = b"
  by (cases p) auto

lemma current_unique:
  assumes inv: "cv_inv c w" and li: "condvar.lot_inv c w" and ab: "cv_current w a" "cv_current w b" "a \<noteq> 0" "b \<noteq> 0"
  shows "a = b"
proof (cases "\<exists>m. notifying_all w m")
  case True
  then obtain t bk m op where t: "loc w t = CritOp (CvNotifyAllSlow bk m) op" by (auto simp: notifying_all_def)
  have k: "c \<in> held_keys (cv_client c) w t" using t by (simp add: held_keys_def)
  have s0: "cv_state (shared w) = 0" using cv_invD(1) [OF inv, of t] t by (simp add: thread_ok_def)
  have "c \<notin> held_keys (cv_client c) w u" if "u \<noteq> t" for u using holder_unique [OF li _ k] that by blast
  then have "x = m" if "notifying_all w x" for x using others_free(3) [of t c w x] that t by auto
  then show ?thesis using ab s0 by (auto simp: cv_current_def)
qed (use ab in \<open>auto simp: cv_current_def\<close>)

lemma condvar_waiters:
  assumes inv: "cv_inv c w" and li: "condvar.lot_inv c w" and h: "holder w c = None"
  shows "(cv_state (shared w) \<noteq> 0 \<longleftrightarrow> queues w c \<noteq> [])
    \<and> (\<forall>t\<in>set (queues w c). cv_waits (cv_state (shared w)) (pc w t) \<and> (\<forall>b. cv_waits b (pc w t) \<longrightarrow> b = cv_state (shared w)))"
proof -
  note no = holder_none [OF li h]
  have "c \<in> held_keys (cv_client c) w v" if "loc w v = CritOp (CvNotifyAllSlow bk m) op" for v bk m op
    using that by (simp add: held_keys_def)
  then have nn: "\<not> notifying_all w m" for m using no by (auto simp: notifying_all_def)
  have ne: "\<not> entering (loc w u)" for u using crit_key [of 0 "loc w u" w u c] no by blast
  have wt: "cv_waits (cv_state (shared w)) (pc w t) \<and> (\<forall>b. cv_waits b (pc w t) \<longrightarrow> b = cv_state (shared w)) \<and> cv_state (shared w) \<noteq> 0"
    if t: "t \<in> set (queues w c)" for t
  proof -
    obtain a where a: "cv_waits a (pc w t)" using waiter_has_mutex [OF inv li t] by blast
    have "cv_state (shared w) = a" "a \<noteq> 0" using waiter_current_mutex [OF inv t a] nn by (auto simp: cv_current_def)
    then show ?thesis using a waits_unique by blast
  qed
  have "cv_state (shared w) \<noteq> 0 \<Longrightarrow> queues w c \<noteq> []" using cv_invD(3) [OF inv] ne by (auto simp: state_ok_def)
  then show ?thesis using wt by (metis list.set_sel(1))
qed

section \<open>A concrete run\<close>

text \<open>
  Threads 2 and 4 lock the mutex at 8 and wait on the condition variable at 100; thread 3 locks the
  mutex and is about to notify while it holds it.
\<close>

definition wait_run :: "tid \<Rightarrow> (tid \<times> nat) list" where
  "wait_run t = [(t, 32), (t, 0), (t, 3), (t, 0), (t, 0), (t, 0)]"

definition waiting_schedule :: "(tid \<times> nat) list" where
  "waiting_schedule = wait_run 2 @ wait_run 4 @ [(3, 32), (3, 0)]"

definition cv_view :: "(cv_shared, cv_pc) world \<Rightarrow> cv_pc phase \<times> cv_pc phase \<times> cv_pc phase \<times> tid list \<times> tid list \<times> u8 \<times> usize" where
  "cv_view w = (loc w 2, loc w 3, loc w 4, queues w 100, queues w 8, cv_mutex (shared w) 8, cv_state (shared w))"

definition waited :: "(cv_shared, cv_pc) world" where
  "waited = the (run (cv_client 100) waiting_schedule cv_start)"

lemma waited_facts:
  "cv_view waited = (Run (CvAsleep 8 False), Run (InMutex 8 None Owner), Run (CvAsleep 8 False), [2, 4], [], 1, 8)"
  "reach (cv_client 100) cv_start waited"
proof -
  have *: "map_option cv_view (run (cv_client 100) waiting_schedule cv_start) =
      Some (Run (CvAsleep 8 False), Run (InMutex 8 None Owner), Run (CvAsleep 8 False), [2, 4], [], 1, 8)"
    by code_simp
  then obtain w where w: "run (cv_client 100) waiting_schedule cv_start = Some w" by auto
  then have c: "waited = w" by (simp add: waited_def)
  show "cv_view waited = (Run (CvAsleep 8 False), Run (InMutex 8 None Owner), Run (CvAsleep 8 False), [2, 4], [], 1, 8)"
    using * by (simp add: c w)
  show "reach (cv_client 100) cv_start waited" unfolding c by (rule run_reach [OF w reach_init])
qed

section \<open>Theorems\<close>

text \<open>
  Claim C15. Waiting keeps mutual exclusion: also with threads that give the mutex up in a wait, are moved
  from the condition variable to the mutex, are handed the mutex while they sleep or time out, at
  most one thread is between acquiring a mutex and releasing it, and its locked bit is set. In
  particular a wait that has returned holds its mutex alone.
\<close>

theorem condvar_mutual_exclusion:
  assumes "reach (cv_client c) cv_start w"
    and "cv_own_pc a (pc w t)" and "cv_own_pc a (pc w u)"
  shows "t = u \<and> mutex_is_locked (cv_mutex (shared w) a)"
proof -
  note inv = conjunct1 [OF cv_reach_inv [OF assms(1)]]
  note mo = cv_invD(2) [OF inv cv_own_address [OF inv assms(2)], unfolded mutex_ok_def]
  have "cv_owns w a t" "cv_owns w a u" using assms(2,3) by (simp_all add: cv_owns_def)
  then have "t = u" "mutex_locked (cv_mutex (shared w) a)" using mx_okD(2,3) [OF mo] by blast+
  then show ?thesis using mutex_bits(1) [OF mx_okD(1) [OF mo]] by (simp add: mutex_is_locked_def)
qed

theorem condvar_mutual_exclusion_witness:
  "cv_own_pc 8 (pc waited 3) \<and> mutex_is_locked (cv_mutex (shared waited) 8)"
  using condvar_mutual_exclusion [OF waited_facts(2), of 8 3 3] waited_facts(1) by (auto simp: cv_view_def)

text \<open>
  Claim C16. A thread in the queue of a mutex, put there by \<open>lock\<close> or moved there by a notification, is
  not forgotten: the parked bit of the mutex is set, and the mutex has an owner or a thread that is awake contends for
  it; that thread, or one that holds a bucket lock, can take a step.
\<close>

theorem condvar_no_lost_wakeup:
  assumes "reach (cv_client c) cv_start w" and "a \<noteq> c" and "queues w a \<noteq> []"
  shows "cv_mutex (shared w) a AND PARKED_BIT \<noteq> 0
    \<and> (\<exists>u v w'. (cv_owns w a u \<or> cv_contends w a u \<and> u \<notin> set (queues w a))
        \<and> (v = u \<or> (\<exists>k. holder w k = Some v)) \<and> step (cv_client c) (v, n) w = Some w')"
proof -
  note inv = conjunct1 [OF cv_reach_inv [OF assms(1)]] and li = conjunct2 [OF cv_reach_inv [OF assms(1)]]
  note mo = cv_invD(2) [OF inv assms(2), unfolded mutex_ok_def]
  have nq: "u \<notin> set (queues w a)" if "cv_contends w a u" for u
    using that in_mutex_queue [OF inv li _ assms(2), of u]
    by (cases "pc w u") (auto simp: cv_contends_def dest: asleep_not_contending)
  have "\<exists>u. cv_owns w a u \<or> cv_contends w a u" using mx_okD(2,6) [OF mo] assms(3) by blast
  then obtain u where u: "cv_owns w a u \<or> cv_contends w a u" by blast
  from cv_enabled [OF li u, of n] obtain v w' where "v = u \<or> (\<exists>k. holder w k = Some v)" "step (cv_client c) (v, n) w = Some w'"
    by blast
  moreover have "cv_mutex (shared w) a AND PARKED_BIT \<noteq> 0"
    using mx_okD(4) [OF mo assms(3)] mutex_bits(2) [OF mx_okD(1) [OF mo]] by blast
  ultimately show ?thesis using u nq by blast
qed

theorem condvar_no_lost_wakeup_witness:
  "\<exists>w. run (cv_client 100) (waiting_schedule @ [(3, 6), (3, 0), (3, 0), (3, 0)]) cv_start = Some w
     \<and> queues w 8 = [2, 4] \<and> cv_mutex (shared w) 8 AND PARKED_BIT \<noteq> 0"
proof -
  let ?s = "waiting_schedule @ [(3, 6), (3, 0), (3, 0), (3, 0)]"
  have *: "map_option (\<lambda>w. queues w 8) (run (cv_client 100) ?s cv_start) = Some [2, 4]" by code_simp
  then obtain w where w: "run (cv_client 100) ?s cv_start = Some w" "queues w 8 = [2, 4]" by auto
  from condvar_no_lost_wakeup [OF run_reach [OF w(1) reach_init], of 8] w show ?thesis by auto
qed

text \<open>
  Claim C17. The waiters agree on the mutex: all threads in the queue of the condition variable wait with
  the same mutex, and unless a call is in progress the state is that mutex if there are
  waiters and null if there are none. So a notification finds every waiter, and a condition variable without waiters
  can be used with another mutex.
\<close>

theorem condvar_state_tracks_waiters:
  assumes "reach (cv_client c) cv_start w"
  shows "(\<forall>t\<in>set (queues w c). \<forall>u\<in>set (queues w c). \<forall>a b. cv_waits a (pc w t) \<longrightarrow> cv_waits b (pc w u) \<longrightarrow> a = b)
    \<and> (holder w c = None \<longrightarrow> (cv_state (shared w) \<noteq> 0 \<longleftrightarrow> queues w c \<noteq> [])
        \<and> (\<forall>t\<in>set (queues w c). cv_waits (cv_state (shared w)) (pc w t)))"
proof -
  note inv = conjunct1 [OF cv_reach_inv [OF assms(1)]] and li = conjunct2 [OF cv_reach_inv [OF assms(1)]]
  have "a = b" if "t \<in> set (queues w c)" "u \<in> set (queues w c)" "cv_waits a (pc w t)" "cv_waits b (pc w u)" for t u a b
    using waiter_current_mutex [OF inv that(1,3)] waiter_current_mutex [OF inv that(2,4)] current_unique [OF inv li] by blast
  then show ?thesis using condvar_waiters [OF inv li] by blast
qed

theorem condvar_state_tracks_waiters_witness:
  "holder waited 100 = None \<and> queues waited 100 = [2, 4] \<and> cv_waits (cv_state (shared waited)) (pc waited 4)"
proof -
  have *: "map_option (\<lambda>w. holder w 100) (run (cv_client 100) waiting_schedule cv_start) = Some None" by code_simp
  then have h: "holder waited 100 = None" by (auto simp: waited_def)
  show ?thesis
    using condvar_state_tracks_waiters [OF waited_facts(2)] waited_facts(1) h by (simp add: cv_view_def)
qed

text \<open>
  Claim C18. The panic of \<open>wait\<close>: a thread that waits with a mutex panics exactly if another thread waits on the condition
  variable with another mutex. The panic leaves the condition variable and the mutexes as they are, and the thread
  still owns its mutex, so the guard unlocks it.
\<close>

theorem condvar_panics_on_second_mutex:
  assumes "reach (cv_client c) cv_start w" and "loc w t = Run (CvPark a timed)" and "step (cv_client c) (t, n) w = Some w'"
  shows "(loc w' t = Run (CvBad a) \<longleftrightarrow> (\<exists>u\<in>set (queues w c). \<exists>b. cv_waits b (pc w u) \<and> b \<noteq> a))
    \<and> (loc w' t = Run (CvBad a) \<longrightarrow> shared w' = shared w \<and> queues w' = queues w \<and> cv_own_pc a (pc w' t))
    \<and> (loc w' t \<noteq> Run (CvBad a) \<longrightarrow> loc w' t = Crit (CvPark a timed) \<and> cv_state (shared w') = a)"
proof -
  note inv = conjunct1 [OF cv_reach_inv [OF assms(1)]] and li = conjunct2 [OF cv_reach_inv [OF assms(1)]]
  have h: "holder w c = None" using assms(2,3) by (auto simp: step_def run_step_def split: prod.splits if_splits)
  note R = condvar_waiters [OF inv li h]
  obtain g v where v: "wait_validate a (shared w) = (g, v)" by fastforce
  have bad: "\<not> v \<longleftrightarrow> cv_state (shared w) \<noteq> 0 \<and> cv_state (shared w) \<noteq> a" "\<not> v \<Longrightarrow> g = shared w" "v \<Longrightarrow> cv_state g = a"
    using v by (auto simp: wait_validate_def set_cv_def split: if_splits)
  have w': "loc w' t = (if v then Crit (CvPark a timed) else Run (CvBad a))" "shared w' = g" "queues w' = queues w"
    using assms(2,3) v by (auto simp: step_def run_step_def acquire_def goto_def split: if_splits)
  have "\<not> v \<longleftrightarrow> (\<exists>u\<in>set (queues w c). \<exists>b. cv_waits b (pc w u) \<and> b \<noteq> a)"
  proof (cases "queues w c = []")
    case False
    then have "hd (queues w c) \<in> set (queues w c)" by simp
    then show ?thesis using bad(1) R False by blast
  qed (use bad(1) R in simp)
  then show ?thesis using w' bad by auto
qed

theorem condvar_panics_on_second_mutex_witness:
  "\<exists>w w'. run (cv_client 100) (wait_run 2 @ [(3, 36), (3, 0), (3, 3)]) cv_start = Some w
     \<and> step (cv_client 100) (3, 0) w = Some w' \<and> loc w' 3 = Run (CvBad 9)"
proof -
  let ?s = "wait_run 2 @ [(3, 36), (3, 0), (3, 3)]"
  have *: "map_option (\<lambda>w. (loc w 3, loc w 2, queues w 100, map_option (\<lambda>w'. ()) (step (cv_client 100) (3, 0) w)))
      (run (cv_client 100) ?s cv_start) = Some (Run (CvPark 9 False), Run (CvAsleep 8 False), [2], Some ())"
    by code_simp
  then obtain w where w: "run (cv_client 100) ?s cv_start = Some w" "loc w 3 = Run (CvPark 9 False)"
    "loc w 2 = Run (CvAsleep 8 False)" "queues w 100 = [2]" "step (cv_client 100) (3, 0) w \<noteq> None" by auto
  then obtain w' where w': "step (cv_client 100) (3, 0) w = Some w'" by blast
  from condvar_panics_on_second_mutex [OF run_reach [OF w(1) reach_init] w(2) w'] w w' show ?thesis by auto
qed

text \<open>
  Claim C19. \<open>notify_all\<close> reaches every waiter: the queue of the condition variable is empty afterwards, the result is
  the number of threads that waited, the one that waited longest is woken or, like all the others, moved to
  the end of the mutex's queue in order; if any was moved the parked bit of the mutex is set.
\<close>

theorem condvar_notify_all_reaches_all:
  assumes "reach (cv_client c) cv_start w" and "loc w t = CritOp (CvNotifyAllSlow bk a) op"
  shows "\<exists>w'. step (cv_client c) (t, n) w = Some w' \<and> queues w' c = [] \<and> cv_state (shared w') = 0
    \<and> loc w' t = Run (CvNotified bk (length (queues w c)))
    \<and> (if op = RequeueAll then queues w' a = queues w a @ queues w c
       else queues w' a = queues w a @ tl (queues w c) \<and> (\<forall>u. queues w c \<noteq> [] \<longrightarrow> u = hd (queues w c) \<longrightarrow> \<not> parkedf w' u))
    \<and> (queues w' a \<noteq> [] \<longrightarrow> cv_mutex (shared w') a AND PARKED_BIT \<noteq> 0)"
proof -
  note inv = conjunct1 [OF cv_reach_inv [OF assms(1)]] and li = conjunct2 [OF cv_reach_inv [OF assms(1)]]
  have op: "op \<in> {RequeueAll, UnparkOneRequeueRest}" "cv_state (shared w) = 0" "a \<noteq> c"
    using cv_invD(1) [OF inv, of t] assms(2) by (auto simp: thread_ok_def)
  obtain w' where s: "step (cv_client c) (t, n) w = Some w'"
    using condvar.crit_enabled [OF li, of t] assms(2) by (metis phase.distinct(3))
  then have r: "requeue_step (cv_client c) t n (CvNotifyAllSlow bk a) op w = Some w'" using assms(2) by (simp add: step_def)
  obtain wk mv where pick: "requeue_pick op (queues w c) = (wk, mv)" by fastforce
  have d: "distinct (queues w c)" using li by (simp add: condvar.lot_inv_def queue_inv_def)
  have W: "loc w' = (loc w)(t := Run (CvNotified bk (length wk + length mv)))"
    "queues w' = (queues w)(c := filter (\<lambda>u. u \<notin> set wk \<union> set mv) (queues w c), a := queues w a @ mv)"
    "parkedf w' u \<longleftrightarrow> parkedf w u \<and> u \<notin> set wk" "cv_state (shared w') = 0" for u
    using notify_step_result [OF _ op(3) _ pick r, of bk] op(2) by (simp_all add: notify_state_def)
  have q: "queues w' c = []" using requeue_rest(2) [OF pick d op(1)] op(3) by (simp add: W)
  have n: "length wk + length mv = length (queues w c)" using requeue_rest(3) [OF pick d] op(1) by (auto simp flip: length_append)
  have "reach (cv_client c) cv_start w'" by (rule reach_step [OF assms(1) s])
  note inv' = conjunct1 [OF cv_reach_inv [OF this]]
  note mo = cv_invD(2) [OF inv' op(3), unfolded mutex_ok_def]
  have pb: "queues w' a \<noteq> [] \<longrightarrow> cv_mutex (shared w') a AND PARKED_BIT \<noteq> 0"
    using mx_okD(4) [OF mo] mutex_bits(2) [OF mx_okD(1) [OF mo]] by blast
  have mv: "if op = RequeueAll then queues w' a = queues w a @ queues w c
       else queues w' a = queues w a @ tl (queues w c) \<and> (\<forall>u. queues w c \<noteq> [] \<longrightarrow> u = hd (queues w c) \<longrightarrow> \<not> parkedf w' u)"
    using pick op(1) by (cases "queues w c") (auto simp: W)
  show ?thesis
    by (intro exI [of _ w'] conjI s q W(4) pb mv) (simp add: W(1) n)
qed

theorem condvar_notify_all_reaches_all_witness:
  "\<exists>w w'. run (cv_client 100) (waiting_schedule @ [(3, 6), (3, 0), (3, 0)]) cv_start = Some w
     \<and> step (cv_client 100) (3, 0) w = Some w' \<and> queues w' 100 = [] \<and> loc w' 3 = Run (CvNotified (Some 8) 2) \<and> queues w' 8 = [2, 4]"
proof -
  let ?s = "waiting_schedule @ [(3, 6), (3, 0), (3, 0)]"
  have *: "map_option (\<lambda>w. (loc w 3, queues w 100, queues w 8)) (run (cv_client 100) ?s cv_start) =
      Some (CritOp (CvNotifyAllSlow (Some 8) 8) RequeueAll, [2, 4], [])" by code_simp
  then obtain w where w: "run (cv_client 100) ?s cv_start = Some w" "loc w 3 = CritOp (CvNotifyAllSlow (Some 8) 8) RequeueAll"
    "queues w 100 = [2, 4]" "queues w 8 = []" by auto
  from condvar_notify_all_reaches_all [OF run_reach [OF w(1) reach_init] w(2), of 0] w show ?thesis by auto
qed

text \<open>
  \<open>notify_one\<close> reaches the longest waiter and no other: it is woken if the mutex was free and put
  at the end of the mutex's queue if it was locked; the others stay, and the state is cleared exactly if none is left.
\<close>

theorem condvar_notify_one_reaches_oldest:
  assumes "reach (cv_client c) cv_start w" and "loc w t = CritOp (CvNotifyOneSlow bk a) op" and "queues w c = u # us"
  shows "\<exists>w'. step (cv_client c) (t, n) w = Some w' \<and> queues w' c = us \<and> loc w' t = Run (CvNotified bk 1)
    \<and> cv_state (shared w') = (if us = [] then 0 else a)
    \<and> (if op = RequeueOne then queues w' a = queues w a @ [u] \<and> parkedf w' u
       else queues w' a = queues w a \<and> \<not> parkedf w' u \<and> utok w' u = TOKEN_NORMAL)
    \<and> (\<forall>v. v \<noteq> u \<longrightarrow> parkedf w' v = parkedf w v)"
proof -
  note inv = conjunct1 [OF cv_reach_inv [OF assms(1)]] and li = conjunct2 [OF cv_reach_inv [OF assms(1)]]
  have op: "op \<in> {RequeueOne, UnparkOne}" "cv_state (shared w) = a" "a \<noteq> c"
    using cv_invD(1) [OF inv, of t] assms(2) by (auto simp: thread_ok_def)
  obtain w' where s: "step (cv_client c) (t, n) w = Some w'"
    using condvar.crit_enabled [OF li, of t] assms(2) by (metis phase.distinct(3))
  then have r: "requeue_step (cv_client c) t n (CvNotifyOneSlow bk a) op w = Some w'" using assms(2) by (simp add: step_def)
  obtain wk mv where pick: "requeue_pick op (queues w c) = (wk, mv)" by fastforce
  have d: "distinct (queues w c)" using li by (simp add: condvar.lot_inv_def queue_inv_def)
  have "u \<in> set (queues w c)" by (simp add: assms(3))
  then have pu: "parkedf w u" using li unfolding condvar.lot_inv_def queue_inv_def by blast
  have W: "loc w' = (loc w)(t := Run (CvNotified bk (length wk + length mv)))"
    "queues w' = (queues w)(c := filter (\<lambda>u. u \<notin> set wk \<union> set mv) (queues w c), a := queues w a @ mv)"
    "parkedf w' v \<longleftrightarrow> parkedf w v \<and> v \<notin> set wk" "utok w' v = (if v \<in> set wk then TOKEN_NORMAL else utok w v)"
    "cv_state (shared w') = (if us = [] then 0 else a)" for v
    using notify_step_result [OF _ op(3) _ pick r, of bk] op(1,2) assms(3) by (simp_all add: notify_state_def)
  have q: "queues w' c = us" using requeue_rest(1) [OF pick d op(1)] op(3) by (simp add: W assms(3))
  show ?thesis
    by (intro exI [of _ w'] conjI s q W(5)) (use pick op(1) pu in \<open>auto simp: W assms(3)\<close>)
qed

theorem condvar_notify_one_reaches_oldest_witness:
  "\<exists>w w'. run (cv_client 100) (waiting_schedule @ [(5, 0), (5, 0), (5, 0)]) cv_start = Some w
     \<and> step (cv_client 100) (5, 0) w = Some w' \<and> queues w' 100 = [4] \<and> queues w' 8 = [2]"
proof -
  let ?s = "waiting_schedule @ [(5, 0), (5, 0), (5, 0)]"
  have *: "map_option (\<lambda>w. (loc w 5, queues w 100, queues w 8)) (run (cv_client 100) ?s cv_start) =
      Some (CritOp (CvNotifyOneSlow None 8) RequeueOne, [2, 4], [])" by code_simp
  then obtain w where w: "run (cv_client 100) ?s cv_start = Some w" "loc w 5 = CritOp (CvNotifyOneSlow None 8) RequeueOne"
    "queues w 100 = [2, 4]" "queues w 8 = []" by auto
  from condvar_notify_one_reaches_oldest [OF run_reach [OF w(1) reach_init] w(2,3), of 0] w show ?thesis by auto
qed

end
