(* ===== verification/Raw_Fair_Mutex.thy ===== *)
theory Raw_Fair_Mutex
  imports Mutex_Safety
begin

text \<open>
  The fair mutex of \<open>src/src/raw_fair_mutex.rs\<close>: the raw mutex with \<open>unlock\<close> replaced by
  \<open>unlock_fair\<close>. Its steps are those of the mutex, with the owner's choice of \<open>unlock\<close> read as
  \<open>unlock_fair\<close>.
\<close>

definition fair_leave :: "nat \<Rightarrow> nat" where
  "fair_leave n = (if n = 0 then 1 else n)"

definition fair_step :: "usize \<Rightarrow> (u8, mutex_pc) world stepper" where
  "fair_step a tc w = (case tc of (t, n) \<Rightarrow> step (mutex_client a) (t, if mutex_own w t then fair_leave n else n) w)"

fun fair_run :: "usize \<Rightarrow> (tid \<times> nat) list \<Rightarrow> (u8, mutex_pc) world \<Rightarrow> (u8, mutex_pc) world option" where
  "fair_run a [] w = Some w"
| "fair_run a (tc # tcs) w = Option.bind (fair_step a tc w) (fair_run a tcs)"

lemma fair_run_steps: "fair_run a tcs w = Some w' \<Longrightarrow> steps_to (fair_step a) w0 w \<Longrightarrow> steps_to (fair_step a) w0 w'"
  by (induction tcs arbitrary: w) (auto simp: bind_eq_Some_conv intro: steps_next)

lemma fair_steps_reach: "steps_to (fair_step a) mutex_start w \<Longrightarrow> steps_to (step (mutex_client a)) mutex_start w"
proof (induction rule: steps_to.induct)
  case (steps_next m tc m')
  then show ?case
    by (cases tc) (auto simp: fair_step_def intro: steps_to.intros split: if_splits)
qed (rule steps_init)

interpretation fair_mutex: raw_mutex "fair_step a" mutex_start mutex_idle mutex_own mutex_locking for a
proof
  fix m m' :: "(u8, mutex_pc) world" and t u n
  show "mutex_idle mutex_start t" by (rule mutex_trait.init_idle)
  show "mutex_idle m t \<Longrightarrow> \<not> mutex_own m t" by (rule mutex_trait.idle_not_own)
  show "mutex_locking m t \<Longrightarrow> \<not> mutex_idle m t" by (rule mutex_trait.locking_not_idle)
  show "t = u" if "steps_to (fair_step a) mutex_start m" "mutex_own m t" "mutex_own m u"
    by (rule mutex_trait.exclusion [OF fair_steps_reach [OF that(1)] that(2,3)])
  show "mutex_own m' u = mutex_own m u \<and> mutex_idle m' u = mutex_idle m u \<and> mutex_locking m' u = mutex_locking m u"
    if "fair_step a (t, n) m = Some m'" "u \<noteq> t"
    using that(1) mutex_trait.others [OF _ that(2)] by (auto simp: fair_step_def)
  show "mutex_locking m' t" if "mutex_idle m t" "fair_step a (t, 0) m = Some m'"
    using that(2) mutex_trait.lock_call [OF that(1)] mutex_trait.idle_not_own [OF that(1)] by (simp add: fair_step_def)
  show "mutex_locking m' t \<or> mutex_own m' t" if "mutex_locking m t" "fair_step a (t, n) m = Some m'"
    using that(2) mutex_trait.lock_keeps [OF that(1)] by (auto simp: fair_step_def)
  show "\<not> mutex_own m' t" if "mutex_own m t" "n < 3" "fair_step a (t, n) m = Some m'"
    using that mutex_trait.leave_call [OF that(1), of "fair_leave n"] by (simp add: fair_step_def fair_leave_def split: if_splits)
qed

text \<open>Every release of a fair mutex is fair.\<close>

primrec fair_pc :: "mutex_pc \<Rightarrow> bool" where
  "fair_pc Idle = True"
| "fair_pc (LockFast timed) = True"
| "fair_pc (SlowEntry timed) = True"
| "fair_pc (LockSlow timed sw s) = True"
| "fair_pc (SlowPark timed) = True"
| "fair_pc (SlowAsleep timed) = True"
| "fair_pc (SlowReload timed) = True"
| "fair_pc TryEntry = True"
| "fair_pc (TryLoop s) = True"
| "fair_pc Owner = True"
| "fair_pc (UnlockFast fair) = fair"
| "fair_pc (UnlockSlow fair relock) = fair"
| "fair_pc BumpCheck = True"

lemma fair_pc_step:
  assumes f: "fair_pc (pc w t)" and s: "fair_step a (t, n) w = Some w'"
  shows "fair_pc (pc w' t)"
proof (cases "loc w t")
  case (Run p)
  then show ?thesis using f s
    by (cases p) (auto simp: fair_step_def fair_leave_def mutex_own_run step_def run_step_def lot_simps mutex_ops
        lock_slow_validate_def atomic_simps Let_def split: if_splits prod.splits)
next
  case (Crit p)
  then show ?thesis using f s
    by (cases p) (auto simp: fair_step_def step_def crit_step_def lot_simps mutex_ops mutex_own_run Let_def split: if_splits prod.splits)
next
  case (CritOp p op)
  then show ?thesis using f s by (cases p) (simp_all add: fair_step_def mutex_own_run step_def requeue_step_def)
qed

lemma fair_pc_reach: "steps_to (fair_step a) mutex_start w \<Longrightarrow> fair_pc (pc w t)"
proof (induction arbitrary: t rule: steps_to.induct)
  case steps_init
  show ?case by (simp add: mutex_start_def world_init_def)
next
  case (steps_next m tc m')
  obtain u n where tc: "tc = (u, n)" by fastforce
  have s: "step (mutex_client a) (u, if mutex_own m u then fair_leave n else n) m = Some m'"
    using steps_next.hyps(2) by (simp add: tc fair_step_def)
  show ?case
    using fair_pc_step [of m u a n m'] steps_next step_other [OF s, of t] by (cases "t = u") (auto simp: tc)
qed

text \<open>
  A fair mutex never lets a newcomer overtake: whenever a release finds threads in
  the queue, whichever function releases, the mutex stays locked and the thread that has waited longest owns it.
\<close>

theorem fair_mutex_always_hands_off:
  assumes "steps_to (fair_step a) mutex_start w" and "loc w t = Crit (UnlockSlow fair relock)" and "queues w a = u # us"
  shows "\<exists>w'. fair_step a (t, n) w = Some w' \<and> queues w' a = us \<and> mutex_is_locked (shared w') \<and> (\<forall>v. owns w' v \<longleftrightarrow> v = u)"
proof -
  have "fair_pc (pc w t)" by (rule fair_pc_reach [OF assms(1)])
  then have l: "loc w t = Crit (UnlockSlow True relock)" using assms(2) by simp
  note inv = mutex_reach_inv [OF steps_to_reach [OF fair_steps_reach [OF assms(1)]]]
  show ?thesis
    using handoff_step [OF conjunct1 [OF inv] conjunct2 [OF inv] l assms(3)] by (simp add: fair_step_def) blast
qed

theorem fair_mutex_always_hands_off_witness:
  "\<exists>w w'. fair_run 8 (contended_schedule @ [(2, 0), (2, 0), (2, 0)]) mutex_start = Some w
     \<and> fair_step 8 (2, 0) w = Some w' \<and> (\<forall>v. owns w' v \<longleftrightarrow> v = 3)"
proof -
  let ?s = "contended_schedule @ [(2, 0), (2, 0), (2, 0)]"
  have *: "map_option (\<lambda>w. (loc w 2, queues w 8)) (fair_run 8 ?s mutex_start) = Some (Crit (UnlockSlow True False), [3])"
    by code_simp
  then obtain w where w: "fair_run 8 ?s mutex_start = Some w" "loc w 2 = Crit (UnlockSlow True False)" "queues w 8 = [3]" by auto
  from fair_mutex_always_hands_off [OF fair_run_steps [OF w(1) steps_init] w(2,3), of 0] w show ?thesis by auto
qed

end
