(* ===== verification/Re_Mutex.thy ===== *)
theory Re_Mutex
  imports Raw_Fair_Mutex
begin

text \<open>
  The reentrant mutex of \<open>lock_api/src/remutex.rs\<close>. It is generic in the raw mutex, and so is the model: the
  inner mutex is a machine that meets the contract \<open>raw_mutex\<close>, and the ids of the threads are given by a function that
  differs on different threads, which is what the trait \<open>GetThreadId\<close> asks for. Ids are not zero; a number with
  the id zero is not a thread and takes no step.
\<close>

section \<open>State and operations\<close>

text \<open>
  The points of the functions. \<open>ReIdle d\<close> is a thread outside with \<open>d\<close> guards; the numbers that a point
  carries are the guards it holds, the function of the inner mutex that is called (as in \<open>Lock_Traits\<close>) and
  for \<open>bump\<close> its local variable \<open>id\<close>. \<open>RePanic\<close> is the overflow of the count.
\<close>

datatype (plugins only: code size) re_pc =
    ReIdle nat
  | ReLock nat nat
  | ReCount nat
  | RePanic nat
  | ReCall nat
  | ReWait nat
  | ReSetOwner
  | ReSetCount
  | ReUnlock nat nat
  | ReClear nat
  | ReCallUnlock nat
  | ReUnlocking
  | ReBump nat
  | ReBumpOwner usize
  | ReBumpCount usize
  | ReBumpCall usize
  | ReBumping usize
  | ReBumpSet usize
  | ReBumpDone

record 'm re_world =
  re_inner :: 'm
  re_owner :: usize
  re_count :: usize
  re_loc :: "nat \<Rightarrow> re_pc"

definition re_goto :: "nat \<Rightarrow> re_pc \<Rightarrow> 'm re_world \<Rightarrow> 'm re_world" where
  "re_goto t p w = w\<lparr>re_loc := (re_loc w)(t := p)\<rparr>"

text \<open>What a thread outside calls: a lock function, and with a guard also an unlock function or \<open>bump\<close>.\<close>

definition re_call :: "nat \<Rightarrow> nat \<Rightarrow> re_pc" where
  "re_call d n = (if n < 3 then ReLock d n
     else if d = 0 then ReIdle d
     else if n < 5 then ReUnlock d (n - 3) else if n = 5 then ReBump d else ReIdle d)"

text \<open>\<open>lock_internal\<close>: the check of the owner, the count, and the two stores.\<close>

definition re_lock_check :: "usize \<Rightarrow> nat \<Rightarrow> nat \<Rightarrow> usize \<Rightarrow> re_pc" where
  "re_lock_check tid d k owner = (if owner = tid then ReCount d else ReCall k)"

definition re_add :: "nat \<Rightarrow> usize \<Rightarrow> usize \<times> re_pc" where
  "re_add d count = (case checked_add count 1 of
     None \<Rightarrow> (count, RePanic d) | Some c \<Rightarrow> (c, ReIdle (d + 1)))"

text \<open>
  \<open>unlock\<close> and \<open>unlock_fair\<close>; the subtraction wraps, which never happens for a caller that holds the mutex.
\<close>

definition re_sub :: "nat \<Rightarrow> nat \<Rightarrow> usize \<Rightarrow> usize \<times> re_pc" where
  "re_sub d f count = (let lock_count = count - 1 in
     (lock_count, if lock_count = 0 then ReClear f else ReIdle (d - 1)))"

definition re_bump :: "nat \<Rightarrow> usize \<Rightarrow> usize \<Rightarrow> re_pc" where
  "re_bump d count owner = (if count = 1 then ReBumpOwner owner else ReIdle d)"

text \<open>A call of the inner mutex: its first step, and the steps until it returns.\<close>

definition re_inner_step :: "'m stepper \<Rightarrow> nat \<Rightarrow> nat \<Rightarrow> re_pc \<Rightarrow> 'm re_world \<Rightarrow> 'm re_world option" where
  "re_inner_step istep t n p w = (case istep (t, n) (re_inner w) of
     None \<Rightarrow> None | Some m \<Rightarrow> Some (re_goto t p (w\<lparr>re_inner := m\<rparr>)))"

definition re_act :: "'m stepper \<Rightarrow> ('m \<Rightarrow> nat \<Rightarrow> bool) \<Rightarrow> ('m \<Rightarrow> nat \<Rightarrow> bool) \<Rightarrow> usize \<Rightarrow> nat \<Rightarrow> nat \<Rightarrow>
    'm re_world \<Rightarrow> 'm re_world option" where
  "re_act istep idle own tid t n w = (case re_loc w t of
     ReIdle d \<Rightarrow> Some (re_goto t (re_call d n) w)
   | ReLock d k \<Rightarrow> Some (re_goto t (re_lock_check (tid) d k (re_owner w)) w)
   | ReCount d \<Rightarrow> (case re_add d (re_count w) of (c, p) \<Rightarrow> Some (re_goto t p (w\<lparr>re_count := c\<rparr>)))
   | RePanic d \<Rightarrow> Some (re_goto t (ReIdle d) w)
   | ReCall k \<Rightarrow> re_inner_step istep t k (ReWait k) w
   | ReWait k \<Rightarrow> if own (re_inner w) t then Some (re_goto t ReSetOwner w)
       else if idle (re_inner w) t then Some (re_goto t (if k = 0 then ReSetOwner else ReIdle 0) w)
       else re_inner_step istep t n (ReWait k) w
   | ReSetOwner \<Rightarrow> Some (re_goto t ReSetCount (w\<lparr>re_owner := tid\<rparr>))
   | ReSetCount \<Rightarrow> Some (re_goto t (ReIdle 1) (w\<lparr>re_count := 1\<rparr>))
   | ReUnlock d f \<Rightarrow> (case re_sub d f (re_count w) of (c, p) \<Rightarrow> Some (re_goto t p (w\<lparr>re_count := c\<rparr>)))
   | ReClear f \<Rightarrow> Some (re_goto t (ReCallUnlock f) (w\<lparr>re_owner := 0\<rparr>))
   | ReCallUnlock f \<Rightarrow> re_inner_step istep t f ReUnlocking w
   | ReUnlocking \<Rightarrow> if idle (re_inner w) t then Some (re_goto t (ReIdle 0) w)
       else re_inner_step istep t n ReUnlocking w
   | ReBump d \<Rightarrow> Some (re_goto t (re_bump d (re_count w) (re_owner w)) w)
   | ReBumpOwner i \<Rightarrow> Some (re_goto t (ReBumpCount i) (w\<lparr>re_owner := 0\<rparr>))
   | ReBumpCount i \<Rightarrow> Some (re_goto t (ReBumpCall i) (w\<lparr>re_count := 0\<rparr>))
   | ReBumpCall i \<Rightarrow> re_inner_step istep t 2 (ReBumping i) w
   | ReBumping i \<Rightarrow> if own (re_inner w) t then Some (re_goto t (ReBumpSet i) w)
       else re_inner_step istep t n (ReBumping i) w
   | ReBumpSet i \<Rightarrow> Some (re_goto t ReBumpDone (w\<lparr>re_owner := i\<rparr>))
   | ReBumpDone \<Rightarrow> Some (re_goto t (ReIdle 1) (w\<lparr>re_count := 1\<rparr>)))"

definition re_step :: "'m stepper \<Rightarrow> ('m \<Rightarrow> nat \<Rightarrow> bool) \<Rightarrow> ('m \<Rightarrow> nat \<Rightarrow> bool) \<Rightarrow> (nat \<Rightarrow> usize) \<Rightarrow> 'm re_world stepper" where
  "re_step istep idle own tid_of tc w = (case tc of (t, n) \<Rightarrow>
     if tid_of t = 0 then None else re_act istep idle own (tid_of t) t n w)"

definition re_start :: "'m \<Rightarrow> 'm re_world" where
  "re_start m = \<lparr>re_inner = m, re_owner = 0, re_count = 0, re_loc = (\<lambda>_. ReIdle 0)\<rparr>"

definition is_owned_by_current_thread :: "(nat \<Rightarrow> usize) \<Rightarrow> nat \<Rightarrow> 'm re_world \<Rightarrow> bool" where
  "is_owned_by_current_thread tid_of t w \<longleftrightarrow> re_owner w = tid_of t"

definition re_is_locked :: "('m \<Rightarrow> bool) \<Rightarrow> 'm re_world \<Rightarrow> bool" where
  "re_is_locked is_locked w = is_locked (re_inner w)"

section \<open>Invariant\<close>

text \<open>
  A thread that has the inner mutex: what the count is while it is at a point, and whether the owner is set.
\<close>

primrec re_view :: "re_pc \<Rightarrow> (nat \<times> bool) option" where
  "re_view (ReIdle d) = (if d = 0 then None else Some (d, True))"
| "re_view (ReLock d k) = (if d = 0 then None else Some (d, True))"
| "re_view (ReCount d) = Some (d, True)"
| "re_view (RePanic d) = Some (d, True)"
| "re_view (ReCall k) = None"
| "re_view (ReWait k) = None"
| "re_view ReSetOwner = Some (0, False)"
| "re_view ReSetCount = Some (0, True)"
| "re_view (ReUnlock d f) = Some (d, True)"
| "re_view (ReClear f) = Some (0, True)"
| "re_view (ReCallUnlock f) = Some (0, False)"
| "re_view ReUnlocking = None"
| "re_view (ReBump d) = Some (d, True)"
| "re_view (ReBumpOwner i) = Some (1, True)"
| "re_view (ReBumpCount i) = Some (1, False)"
| "re_view (ReBumpCall i) = Some (0, False)"
| "re_view (ReBumping i) = None"
| "re_view (ReBumpSet i) = Some (0, False)"
| "re_view ReBumpDone = Some (0, True)"

primrec re_pc_ok :: "usize \<Rightarrow> re_pc \<Rightarrow> bool" where
  "re_pc_ok tid (ReIdle d) = True"
| "re_pc_ok tid (ReLock d k) = True"
| "re_pc_ok tid (ReCount d) = (0 < d)"
| "re_pc_ok tid (RePanic d) = (0 < d)"
| "re_pc_ok tid (ReCall k) = True"
| "re_pc_ok tid (ReWait k) = True"
| "re_pc_ok tid ReSetOwner = True"
| "re_pc_ok tid ReSetCount = True"
| "re_pc_ok tid (ReUnlock d f) = (0 < d \<and> f < 2)"
| "re_pc_ok tid (ReClear f) = (f < 2)"
| "re_pc_ok tid (ReCallUnlock f) = (f < 2)"
| "re_pc_ok tid ReUnlocking = True"
| "re_pc_ok tid (ReBump d) = (0 < d)"
| "re_pc_ok tid (ReBumpOwner i) = (i = tid)"
| "re_pc_ok tid (ReBumpCount i) = (i = tid)"
| "re_pc_ok tid (ReBumpCall i) = (i = tid)"
| "re_pc_ok tid (ReBumping i) = (i = tid)"
| "re_pc_ok tid (ReBumpSet i) = (i = tid)"
| "re_pc_ok tid ReBumpDone = True"

fun re_outside :: "re_pc \<Rightarrow> bool" where
  "re_outside (ReIdle d) = (d = 0)"
| "re_outside (ReLock d k) = (d = 0)"
| "re_outside (ReCall k) = True"
| "re_outside _ = False"

fun re_in_lock :: "re_pc \<Rightarrow> bool" where
  "re_in_lock (ReWait k) = (k = 0)"
| "re_in_lock _ = False"

lemma re_add_result:
  assumes "unat c = d"
  shows "re_add d c = (if d + 1 < 2 ^ 64 then (c + 1, ReIdle (d + 1)) else (c, RePanic d))"
    and "d + 1 < 2 ^ 64 \<Longrightarrow> unat (c + 1) = d + 1"
  using assms by (auto simp: re_add_def checked_add_def unat_word_ariths)

lemma re_sub_result:
  assumes "unat c = d" and "0 < d"
  shows "unat (c - 1) = d - 1" and "c - 1 = 0 \<longleftrightarrow> d = 1"
proof -
  have "c \<noteq> 0" using assms by auto
  then show *: "unat (c - 1) = d - 1" using assms(1) by (simp add: unat_minus_one)
  show "c - 1 = 0 \<longleftrightarrow> d = 1" using * assms by (auto simp flip: unat_eq_0)
qed

locale re_mutex = raw_mutex +
  fixes tid_of :: "nat \<Rightarrow> usize"
  assumes tid_inj: "tid_of t \<noteq> 0 \<Longrightarrow> tid_of t = tid_of u \<Longrightarrow> t = u"
begin

definition re_inv :: "'a re_world \<Rightarrow> bool" where
  "re_inv w \<longleftrightarrow> steps_to istep minit (re_inner w)
     \<and> (\<forall>t. re_pc_ok (tid_of t) (re_loc w t) \<and> (re_view (re_loc w t) \<noteq> None \<longrightarrow> tid_of t \<noteq> 0))
     \<and> (\<forall>t. re_outside (re_loc w t) \<longrightarrow> idle (re_inner w) t)
     \<and> (\<forall>t. re_in_lock (re_loc w t) \<longrightarrow> locking (re_inner w) t \<or> own (re_inner w) t)
     \<and> (\<forall>t c b. re_view (re_loc w t) = Some (c, b) \<longrightarrow>
          own (re_inner w) t \<and> unat (re_count w) = c \<and> re_owner w = (if b then tid_of t else 0))
     \<and> ((\<forall>t. re_view (re_loc w t) = None) \<longrightarrow> re_count w = 0 \<and> re_owner w = 0)"

lemma re_invD:
  assumes "re_inv w"
  shows "steps_to istep minit (re_inner w)" and "re_pc_ok (tid_of t) (re_loc w t)"
    and "re_outside (re_loc w t) \<Longrightarrow> idle (re_inner w) t"
    and "re_in_lock (re_loc w t) \<Longrightarrow> locking (re_inner w) t \<or> own (re_inner w) t"
    and "re_view (re_loc w t) = Some (c, b) \<Longrightarrow> own (re_inner w) t"
    and "re_view (re_loc w t) = Some (c, b) \<Longrightarrow> unat (re_count w) = c"
    and "re_view (re_loc w t) = Some (c, b) \<Longrightarrow> re_owner w = (if b then tid_of t else 0)"
    and "(\<And>t. re_view (re_loc w t) = None) \<Longrightarrow> re_count w = 0 \<and> re_owner w = 0"
    and "re_view (re_loc w t) \<noteq> None \<Longrightarrow> tid_of t \<noteq> 0"
  using assms unfolding re_inv_def by blast+

text \<open>A move of one thread, which may step the inner mutex.\<close>

lemma re_inv_move:
  assumes inv: "re_inv w" and tid: "tid_of t \<noteq> 0" and loc: "re_loc w' = (re_loc w)(t := p')"
    and inner: "re_inner w' = re_inner w \<or> (\<exists>n. istep (t, n) (re_inner w) = Some (re_inner w'))"
    and ok: "re_pc_ok (tid_of t) p'" and out: "re_outside p' \<Longrightarrow> idle (re_inner w') t"
    and inl: "re_in_lock p' \<Longrightarrow> locking (re_inner w') t \<or> own (re_inner w') t"
    and view: "re_view (re_loc w t) = None \<and> re_view p' = None \<and> re_count w' = re_count w \<and> re_owner w' = re_owner w
      \<or> own (re_inner w) t \<and> (case re_view p' of None \<Rightarrow> re_count w' = 0 \<and> re_owner w' = 0
          | Some (c, b) \<Rightarrow> own (re_inner w') t \<and> unat (re_count w') = c \<and> re_owner w' = (if b then tid_of t else 0))"
  shows "re_inv w'"
proof -
  note I = re_invD [OF inv]
  have other: "own (re_inner w') u = own (re_inner w) u" "idle (re_inner w') u = idle (re_inner w) u"
    "locking (re_inner w') u = locking (re_inner w) u" "re_loc w' u = re_loc w u" if "u \<noteq> t" for u
    using inner others that by (auto simp: loc)
  have steps: "steps_to istep minit (re_inner w')"
    using inner I(1) steps_next by (metis (no_types))
  have self: "re_loc w' t = p'" by (simp add: loc)
  have none: "re_view (re_loc w u) = None" if "own (re_inner w) t" "u \<noteq> t" for u
    using I(5) [of u] exclusion [OF I(1) that(1)] that(2) by (cases "re_view (re_loc w u)") auto
  from view show ?thesis
  proof (elim disjE)
    assume v: "re_view (re_loc w t) = None \<and> re_view p' = None \<and> re_count w' = re_count w \<and> re_owner w' = re_owner w"
    then have same: "re_view (re_loc w' u) = re_view (re_loc w u)" for u by (cases "u = t") (simp_all add: self other(4))
    show ?thesis unfolding re_inv_def
    proof (intro conjI allI impI)
      show "own (re_inner w') u" if "re_view (re_loc w' u) = Some (c, b)" for u c b
        using I(5) [of u c b] other(1) [of u] that v same [of u] by (cases "u = t") auto
      show "re_pc_ok (tid_of u) (re_loc w' u)" for u using I(2) [of u] ok other(4) [of u] self by (cases "u = t") auto
      show "tid_of u \<noteq> 0" if "re_view (re_loc w' u) \<noteq> None" for u
        using that I(9) [of u] tid other(4) [of u] self by (cases "u = t") auto
      show "idle (re_inner w') u" if "re_outside (re_loc w' u)" for u
        using that I(3) [of u] out other [of u] self by (cases "u = t") auto
      show "locking (re_inner w') u \<or> own (re_inner w') u" if "re_in_lock (re_loc w' u)" for u
        using that I(4) [of u] inl other [of u] self by (cases "u = t") auto
    qed (use I(6,7,8) v steps in \<open>simp_all add: same\<close>)
  next
    assume v: "own (re_inner w) t \<and> (case re_view p' of None \<Rightarrow> re_count w' = 0 \<and> re_owner w' = 0
          | Some (c, b) \<Rightarrow> own (re_inner w') t \<and> unat (re_count w') = c \<and> re_owner w' = (if b then tid_of t else 0))"
    have only: "u = t" if "re_view (re_loc w' u) = Some (c, b)" for u c b
      using none [of u] that v other(4) [of u] by (cases "u = t") auto
    show ?thesis unfolding re_inv_def
    proof (intro conjI allI impI)
      fix u c b
      assume u: "re_view (re_loc w' u) = Some (c, b)"
      note [simp] = only [OF u]
      have "re_view p' = Some (c, b)" using u self by simp
      then show "own (re_inner w') u" "unat (re_count w') = c" "re_owner w' = (if b then tid_of u else 0)" using v by auto
    next
      assume "\<forall>t. re_view (re_loc w' t) = None"
      then have "re_view p' = None" using self by metis
      then show "re_count w' = 0" "re_owner w' = 0" using v by auto
    next
      show "re_pc_ok (tid_of u) (re_loc w' u)" for u using I(2) [of u] ok other(4) [of u] self by (cases "u = t") auto
      show "tid_of u \<noteq> 0" if "re_view (re_loc w' u) \<noteq> None" for u
        using that I(9) [of u] tid other(4) [of u] self by (cases "u = t") auto
      show "idle (re_inner w') u" if "re_outside (re_loc w' u)" for u
        using that I(3) [of u] out other [of u] self by (cases "u = t") auto
      show "locking (re_inner w') u \<or> own (re_inner w') u" if "re_in_lock (re_loc w' u)" for u
        using that I(4) [of u] inl other [of u] self by (cases "u = t") auto
    qed (rule steps)
  qed
qed

lemma re_owner_mine:
  assumes inv: "re_inv w" and o: "re_owner w = tid_of t" and nz: "tid_of t \<noteq> 0"
  shows "\<exists>c. re_view (re_loc w t) = Some (c, True)"
proof -
  note I = re_invD [OF inv]
  obtain u where "re_view (re_loc w u) \<noteq> None" using I(8) o nz by metis
  then obtain c b where v: "re_view (re_loc w u) = Some (c, b)" by auto
  then have "b" "u = t" using I(7) [OF v] o nz tid_inj by (auto split: if_splits)
  then show ?thesis using v by auto
qed

text \<open>A thread that has the inner mutex without a view is alone and finds the fields cleared.\<close>

lemma re_fresh:
  assumes inv: "re_inv w" and o: "own (re_inner w) t" and n: "re_view (re_loc w t) = None"
  shows "re_count w = 0" "re_owner w = 0"
proof -
  note I = re_invD [OF inv]
  have "re_view (re_loc w u) = None" for u
    using I(5) [of u] exclusion [OF I(1) o] n by (cases "re_view (re_loc w u)") auto
  then show "re_count w = 0" "re_owner w = 0" using I(8) by blast+
qed

lemma re_inner_stepD:
  assumes "re_inner_step istep t n p w = Some w'"
  shows "istep (t, n) (re_inner w) = Some (re_inner w')" "re_loc w' = (re_loc w)(t := p)"
    "re_count w' = re_count w" "re_owner w' = re_owner w"
  using assms by (auto simp: re_inner_step_def re_goto_def split: option.splits)

lemma re_step_inv:
  assumes inv: "re_inv w" and s: "re_step istep idle own tid_of (t, n) w = Some w'"
  shows "re_inv w'"
proof -
  note I = re_invD [OF inv]
  have V: "case re_view (re_loc w t) of None \<Rightarrow> True
      | Some (c, b) \<Rightarrow> own (re_inner w) t \<and> unat (re_count w) = c \<and> re_owner w = (if b then tid_of t else 0)"
    using I(5-7) [of t] by (auto split: option.split)
  have nz: "tid_of t \<noteq> 0" and s: "re_act istep idle own (tid_of t) t n w = Some w'"
    using s by (auto simp: re_step_def split: if_splits)
  show ?thesis
  proof (cases "re_loc w t")
    case (ReIdle d)
    show ?thesis
      by (rule re_inv_move [OF inv nz, of w' "re_call d n"])
        (use s ReIdle I(3) [of t] V in \<open>auto simp: re_act_def re_goto_def re_call_def split: if_splits\<close>)
  next
    case (ReLock d k)
    have "re_owner w = tid_of t \<longleftrightarrow> d \<noteq> 0"
      using re_owner_mine [OF inv _ nz] V ReLock by (auto split: if_splits)
    then show ?thesis
      by (intro re_inv_move [OF inv nz, of w' "re_lock_check (tid_of t) d k (re_owner w)"])
        (use s ReLock I(3) [of t] V in \<open>auto simp: re_act_def re_goto_def re_lock_check_def\<close>)
  next
    case (ReCount d)
    have d: "unat (re_count w) = d" "0 < d" using V I(2) [of t] ReCount by auto
    show ?thesis
      by (rule re_inv_move [OF inv nz, of w' "snd (re_add d (re_count w))"])
        (use s ReCount d re_add_result [OF d(1)] V in \<open>auto simp: re_act_def re_goto_def split: if_splits\<close>)
  next
    case (RePanic d)
    show ?thesis
      by (rule re_inv_move [OF inv nz, of w' "ReIdle d"])
        (use s RePanic I(2) [of t] V in \<open>auto simp: re_act_def re_goto_def\<close>)
  next
    case (ReCall k)
    have D: "re_inner_step istep t k (ReWait k) w = Some w'" using s ReCall by (simp add: re_act_def)
    note D = re_inner_stepD [OF D]
    show ?thesis
      by (rule re_inv_move [OF inv nz, of w' "ReWait k"])
        (use D ReCall I(3) [of t] lock_call [of "re_inner w" t] in auto)
  next
    case (ReWait k)
    show ?thesis
    proof (cases "own (re_inner w) t \<or> idle (re_inner w) t")
      case False
      then have "re_inner_step istep t n (ReWait k) w = Some w'" using s ReWait by (simp add: re_act_def)
      note D = re_inner_stepD [OF this]
      show ?thesis
        by (rule re_inv_move [OF inv nz, of w' "ReWait k"])
          (use D ReWait I(4) [of t] lock_keeps False in auto)
    next
      case True
      have k: "k \<noteq> 0" if "\<not> own (re_inner w) t"
        using that True I(4) [of t] ReWait locking_not_idle by auto
      have z: "own (re_inner w) t \<Longrightarrow> re_count w = 0 \<and> re_owner w = 0" using re_fresh [OF inv] ReWait by simp
      show ?thesis
        by (rule re_inv_move [OF inv nz, of w' "if own (re_inner w) t then ReSetOwner else ReIdle 0"])
          (use s ReWait True k z in \<open>auto simp: re_act_def re_goto_def split: if_splits\<close>)
    qed
  next
    case (ReUnlock d f)
    have d: "unat (re_count w) = d" "0 < d" using V I(2) [of t] ReUnlock by auto
    show ?thesis
      by (rule re_inv_move [OF inv nz, of w' "snd (re_sub d f (re_count w))"])
        (use s ReUnlock d re_sub_result [OF d] V I(2) [of t] in \<open>auto simp: re_act_def re_goto_def re_sub_def Let_def\<close>)
  next
    case (ReCallUnlock f)
    have D: "re_inner_step istep t f ReUnlocking w = Some w'" using s ReCallUnlock by (simp add: re_act_def)
    note D = re_inner_stepD [OF D]
    show ?thesis
      by (rule re_inv_move [OF inv nz, of w' ReUnlocking])
        (use D ReCallUnlock V in \<open>auto simp: unat_eq_0\<close>)
  next
    case ReUnlocking
    show ?thesis
    proof (cases "idle (re_inner w) t")
      case True
      then show ?thesis
        by (intro re_inv_move [OF inv nz, of w' "ReIdle 0"])
          (use s ReUnlocking in \<open>auto simp: re_act_def re_goto_def\<close>)
    next
      case False
      then have "re_inner_step istep t n ReUnlocking w = Some w'" using s ReUnlocking by (simp add: re_act_def)
      note D = re_inner_stepD [OF this]
      show ?thesis by (rule re_inv_move [OF inv nz, of w' ReUnlocking]) (use D ReUnlocking in auto)
    qed
  next
    case (ReBump d)
    have d: "unat (re_count w) = d" "0 < d" "re_owner w = tid_of t" using V I(2) [of t] ReBump by auto
    have "re_count w = 1 \<longleftrightarrow> d = 1" using d(1) by (auto simp flip: unat_1 simp: word_unat_eq_iff)
    then show ?thesis
      by (intro re_inv_move [OF inv nz, of w' "re_bump d (re_count w) (re_owner w)"])
        (use s ReBump d V in \<open>auto simp: re_act_def re_goto_def re_bump_def\<close>)
  next
    case (ReBumpCall i)
    have D: "re_inner_step istep t 2 (ReBumping i) w = Some w'" using s ReBumpCall by (simp add: re_act_def)
    note D = re_inner_stepD [OF D]
    show ?thesis by (rule re_inv_move [OF inv nz, of w' "ReBumping i"]) (use D ReBumpCall V I(2) [of t] in \<open>auto simp: unat_eq_0\<close>)
  next
    case (ReBumping i)
    show ?thesis
    proof (cases "own (re_inner w) t")
      case True
      then show ?thesis
        by (intro re_inv_move [OF inv nz, of w' "ReBumpSet i"])
          (use s ReBumping re_fresh [OF inv True] I(2) [of t] in \<open>auto simp: re_act_def re_goto_def\<close>)
    next
      case False
      then have "re_inner_step istep t n (ReBumping i) w = Some w'" using s ReBumping by (simp add: re_act_def)
      note D = re_inner_stepD [OF this]
      show ?thesis by (rule re_inv_move [OF inv nz, of w' "ReBumping i"]) (use D ReBumping I(2) [of t] in auto)
    qed
  next
    case ReSetOwner
    show ?thesis by (rule re_inv_move [OF inv nz, of w' ReSetCount])
      (use s ReSetOwner V in \<open>auto simp: re_act_def re_goto_def\<close>)
  next
    case ReSetCount
    show ?thesis by (rule re_inv_move [OF inv nz, of w' "ReIdle 1"])
      (use s ReSetCount V in \<open>auto simp: re_act_def re_goto_def\<close>)
  next
    case (ReClear f)
    show ?thesis by (rule re_inv_move [OF inv nz, of w' "ReCallUnlock f"])
      (use s ReClear V I(2) [of t] in \<open>auto simp: re_act_def re_goto_def\<close>)
  next
    case (ReBumpOwner i)
    show ?thesis by (rule re_inv_move [OF inv nz, of w' "ReBumpCount i"])
      (use s ReBumpOwner V I(2) [of t] in \<open>auto simp: re_act_def re_goto_def\<close>)
  next
    case (ReBumpCount i)
    show ?thesis by (rule re_inv_move [OF inv nz, of w' "ReBumpCall i"])
      (use s ReBumpCount V I(2) [of t] in \<open>auto simp: re_act_def re_goto_def\<close>)
  next
    case (ReBumpSet i)
    show ?thesis by (rule re_inv_move [OF inv nz, of w' ReBumpDone])
      (use s ReBumpSet V I(2) [of t] in \<open>auto simp: re_act_def re_goto_def\<close>)
  next
    case ReBumpDone
    show ?thesis by (rule re_inv_move [OF inv nz, of w' "ReIdle 1"])
      (use s ReBumpDone V in \<open>auto simp: re_act_def re_goto_def\<close>)
  qed
qed

lemma re_reach_inv:
  assumes "steps_to (re_step istep idle own tid_of) (re_start minit) w"
  shows "re_inv w"
  using assms
proof (induction rule: steps_to.induct)
  case steps_init
  show ?case by (simp add: re_inv_def re_start_def steps_to.steps_init init_idle)
next
  case (steps_next m tc m')
  then show ?case using re_step_inv [of m "fst tc" "snd tc" m'] by simp
qed

end

text \<open>The number of guards a thread outside holds.\<close>

primrec re_guards :: "re_pc \<Rightarrow> nat" where
  "re_guards (ReIdle d) = d"
| "re_guards (ReLock d k) = d"
| "re_guards (ReCount d) = d"
| "re_guards (RePanic d) = d"
| "re_guards (ReCall k) = 0"
| "re_guards (ReWait k) = 0"
| "re_guards ReSetOwner = 0"
| "re_guards ReSetCount = 0"
| "re_guards (ReUnlock d f) = d"
| "re_guards (ReClear f) = 0"
| "re_guards (ReCallUnlock f) = 0"
| "re_guards ReUnlocking = 0"
| "re_guards (ReBump d) = d"
| "re_guards (ReBumpOwner i) = 1"
| "re_guards (ReBumpCount i) = 1"
| "re_guards (ReBumpCall i) = 0"
| "re_guards (ReBumping i) = 0"
| "re_guards (ReBumpSet i) = 0"
| "re_guards ReBumpDone = 0"

lemma re_guards_view: "0 < re_guards p \<Longrightarrow> \<exists>b. re_view p = Some (re_guards p, b)"
  by (cases p) auto

text \<open>The reentrant mutex of \<open>parking_lot\<close>, over its raw mutex.\<close>

abbreviation re_lock_step :: "usize \<Rightarrow> (nat \<Rightarrow> usize) \<Rightarrow> (u8, mutex_pc) world re_world stepper" where
  "re_lock_step a tid_of \<equiv> re_step (step (mutex_client a)) mutex_idle mutex_own tid_of"

lemma re_mutexI:
  "(\<And>t u. tid_of t \<noteq> 0 \<Longrightarrow> tid_of t = tid_of u \<Longrightarrow> t = u) \<Longrightarrow>
    re_mutex (step (mutex_client a)) mutex_start mutex_idle mutex_own mutex_locking tid_of"
  by (intro re_mutex.intro mutex_trait.raw_mutex_axioms re_mutex_axioms.intro)

text \<open>Ids as the addresses of thread-local variables could give them, for the threads 1, 2, and so on.\<close>

definition thread_key :: "nat \<Rightarrow> usize" where
  "thread_key t = (if int t < 2 ^ 64 then of_nat t else 0)"

lemma thread_key_inj:
  assumes "thread_key t \<noteq> 0" and "thread_key t = thread_key u"
  shows "t = u"
proof -
  have "int t < 2 ^ 64" "int u < 2 ^ 64" using assms unfolding thread_key_def by metis+
  then have l: "t < 2 ^ 64" "u < 2 ^ 64" by simp_all
  have "unat (of_nat x :: usize) = x" if "x < 2 ^ 64" for x
    using that unat_of_nat [of x, where 'a = 64] by simp
  note * = this [OF l(1)] this [OF l(2)]
  have "(of_nat t :: usize) = of_nat u" using assms unfolding thread_key_def by metis
  then show ?thesis using * by metis
qed

interpretation re_lock: re_mutex "step (mutex_client a)" mutex_start mutex_idle mutex_own mutex_locking thread_key for a
  by (rule re_mutexI) (rule thread_key_inj)

interpretation re_fair: re_mutex "fair_step a" mutex_start mutex_idle mutex_own mutex_locking thread_key for a
  by (intro re_mutex.intro fair_mutex.raw_mutex_axioms re_mutex_axioms.intro thread_key_inj)

section \<open>Theorems\<close>

fun re_run :: "'m re_world stepper \<Rightarrow> (nat \<times> nat) list \<Rightarrow> 'm re_world \<Rightarrow> 'm re_world option" where
  "re_run st [] w = Some w"
| "re_run st (tc # tcs) w = Option.bind (st tc w) (re_run st tcs)"

lemma re_run_steps: "re_run st tcs w = Some w' \<Longrightarrow> steps_to st w0 w \<Longrightarrow> steps_to st w0 w'"
  by (induction tcs arbitrary: w) (auto simp: bind_eq_Some_conv intro: steps_next)

text \<open>Thread 2 locks twice; thread 3 has found another owner and is asleep in the inner mutex.\<close>

definition nested_schedule :: "(nat \<times> nat) list" where
  "nested_schedule = replicate 7 (2, 0) @ [(2, 0), (2, 0), (2, 0)] @ replicate 18 (3, 0)"

definition nested :: "(u8, mutex_pc) world re_world" where
  "nested = the (re_run (re_lock_step 8 thread_key) nested_schedule (re_start mutex_start))"

lemma nested_facts:
  "re_loc nested 2 = ReIdle 2" "re_loc nested 3 = ReWait 0" "re_count nested = 2" "re_owner nested = 2"
  "steps_to (re_lock_step 8 thread_key) (re_start mutex_start) nested"
proof -
  have *: "map_option (\<lambda>w. (re_loc w 2, re_loc w 3, re_count w, re_owner w, queues (re_inner w) 8))
      (re_run (re_lock_step 8 thread_key) nested_schedule (re_start mutex_start)) = Some (ReIdle 2, ReWait 0, 2, 2, [3])"
    by code_simp
  then obtain w where w: "re_run (re_lock_step 8 thread_key) nested_schedule (re_start mutex_start) = Some w" by auto
  then have n: "nested = w" by (simp add: nested_def)
  show "re_loc nested 2 = ReIdle 2" "re_loc nested 3 = ReWait 0" "re_count nested = 2" "re_owner nested = 2"
    using * by (auto simp: n w)
  show "steps_to (re_lock_step 8 thread_key) (re_start mutex_start) nested"
    unfolding n by (rule re_run_steps [OF w steps_init])
qed

lemma remutex_one_owner:
  assumes "\<And>t u. tid_of t \<noteq> 0 \<Longrightarrow> tid_of t = tid_of u \<Longrightarrow> t = u"
    and "steps_to (re_lock_step a tid_of) (re_start mutex_start) w"
    and "0 < re_guards (re_loc w t)" and "0 < re_guards (re_loc w u)"
  shows "t = u \<and> unat (re_count w) = re_guards (re_loc w t) \<and> mutex_own (re_inner w) t"
proof -
  have M: "re_mutex (step (mutex_client a)) mutex_start mutex_idle mutex_own mutex_locking tid_of"
    by (rule re_mutexI) (rule assms(1))
  note inv = re_mutex.re_reach_inv [OF M assms(2)]
  obtain b c where v: "re_view (re_loc w t) = Some (re_guards (re_loc w t), b)" "re_view (re_loc w u) = Some (re_guards (re_loc w u), c)"
    using re_guards_view assms(3,4) by blast
  have own: "mutex_own (re_inner w) t" "mutex_own (re_inner w) u"
    using re_mutex.re_invD(5) [OF M inv] v by blast+
  have "t = u" by (rule mutex_trait.exclusion [OF re_mutex.re_invD(1) [OF M inv] own])
  then show ?thesis using own re_mutex.re_invD(6) [OF M inv v(1)] by simp
qed

text \<open>
  Reentrancy keeps exclusion: in every interleaving of threads that lock, try to lock, unlock and
  bump a reentrant mutex any number of times, only one thread has guards, the count is the number of its
  guards and it owns the inner mutex.
\<close>

theorem remutex_exclusion:
  assumes "\<And>t u. tid_of t \<noteq> 0 \<Longrightarrow> tid_of t = tid_of u \<Longrightarrow> t = u"
    and "steps_to (re_lock_step a tid_of) (re_start mutex_start) w"
    and "0 < re_guards (re_loc w t)" and "0 < re_guards (re_loc w u)"
  shows "t = u \<and> unat (re_count w) = re_guards (re_loc w t) \<and> mutex_own (re_inner w) t"
  using assms by (rule remutex_one_owner)

theorem remutex_exclusion_witness:
  "re_guards (re_loc nested 2) = 2 \<and> unat (re_count nested) = 2 \<and> mutex_own (re_inner nested) 2"
  using remutex_exclusion [of thread_key, OF thread_key_inj nested_facts(5), of 2 2] by (simp add: nested_facts)

text \<open>
  The test of the owner is exact: a thread that is not inside a call is told that it owns the mutex exactly
  if it has a guard, so \<open>lock\<close> counts up exactly for a thread that already holds the mutex.
\<close>

theorem remutex_owner_test_exact:
  assumes "\<And>t u. tid_of t \<noteq> 0 \<Longrightarrow> tid_of t = tid_of u \<Longrightarrow> t = u"
    and "steps_to (re_lock_step a tid_of) (re_start mutex_start) w" and "tid_of t \<noteq> 0"
    and "re_loc w t = ReIdle d \<or> re_loc w t = ReLock d k"
  shows "(is_owned_by_current_thread tid_of t w \<longleftrightarrow> 0 < d)
    \<and> (re_loc w t = ReLock d k \<longrightarrow> (\<exists>w'. re_lock_step a tid_of (t, n) w = Some w'
      \<and> re_loc w' t = (if 0 < d then ReCount d else ReCall k)))"
proof -
  have M: "re_mutex (step (mutex_client a)) mutex_start mutex_idle mutex_own mutex_locking tid_of"
    by (rule re_mutexI) (rule assms(1))
  note inv = re_mutex.re_reach_inv [OF M assms(2)]
  have "re_view (re_loc w t) = (if d = 0 then None else Some (d, True))" using assms(4) by auto
  then have o: "re_owner w = tid_of t \<longleftrightarrow> 0 < d"
    using re_mutex.re_owner_mine [OF M inv _ assms(3)] re_mutex.re_invD(7) [OF M inv, of t d True] by (auto split: if_splits)
  then show ?thesis
    using assms(3) by (auto simp: is_owned_by_current_thread_def re_step_def re_act_def re_goto_def re_lock_check_def)
qed

theorem remutex_owner_test_exact_witness:
  "is_owned_by_current_thread thread_key 2 nested"
  using remutex_owner_test_exact [of thread_key, OF thread_key_inj nested_facts(5), of 2 2] nested_facts(1)
  by (simp add: thread_key_def)

text \<open>
  Claim C33. The count never wraps: locking again adds one as long as the result fits in a word and panics
  otherwise, leaving the count and the guards as they were.
\<close>

theorem remutex_count_checked:
  assumes "\<And>t u. tid_of t \<noteq> 0 \<Longrightarrow> tid_of t = tid_of u \<Longrightarrow> t = u"
    and "steps_to (re_lock_step a tid_of) (re_start mutex_start) w" and "re_loc w t = ReCount d"
  shows "\<exists>w'. re_lock_step a tid_of (t, n) w = Some w' \<and> re_owner w' = re_owner w
    \<and> (if d + 1 < 2 ^ 64 then re_loc w' t = ReIdle (d + 1) \<and> unat (re_count w') = d + 1
       else re_loc w' t = RePanic d \<and> re_count w' = re_count w)"
proof -
  have M: "re_mutex (step (mutex_client a)) mutex_start mutex_idle mutex_own mutex_locking tid_of"
    by (rule re_mutexI) (rule assms(1))
  note inv = re_mutex.re_reach_inv [OF M assms(2)]
  have c: "unat (re_count w) = d" "tid_of t \<noteq> 0"
    using re_mutex.re_invD(6,9) [OF M inv, of t] assms(3) by auto
  show ?thesis using assms(3) c re_add_result [OF c(1)]
    by (cases "d + 1 < 2 ^ 64") (simp_all add: re_step_def re_act_def re_goto_def)
qed

theorem remutex_count_checked_witness:
  "\<exists>w w'. re_run (re_lock_step 8 thread_key) (nested_schedule @ [(2, 0), (2, 0)]) (re_start mutex_start) = Some w
     \<and> re_lock_step 8 thread_key (2, 0) w = Some w' \<and> unat (re_count w') = 3"
proof -
  let ?s = "nested_schedule @ [(2, 0), (2, 0)]"
  have *: "map_option (\<lambda>w. re_loc w 2) (re_run (re_lock_step 8 thread_key) ?s (re_start mutex_start)) = Some (ReCount 2)"
    by code_simp
  then obtain w where w: "re_run (re_lock_step 8 thread_key) ?s (re_start mutex_start) = Some w" "re_loc w 2 = ReCount 2" by auto
  from remutex_count_checked [of thread_key, OF thread_key_inj re_run_steps [OF w(1) steps_init] w(2), of 0] w
  show ?thesis by auto
qed

text \<open>
  The debug assertion of \<open>lock_internal\<close> holds: a thread that has just acquired the inner mutex finds
  the count at zero and itself as the only thread with a claim to the mutex, and leaves with one guard.
\<close>

theorem remutex_first_lock_finds_zero:
  assumes "\<And>t u. tid_of t \<noteq> 0 \<Longrightarrow> tid_of t = tid_of u \<Longrightarrow> t = u"
    and "steps_to (re_lock_step a tid_of) (re_start mutex_start) w" and "re_loc w t = ReSetCount"
  shows "re_count w = 0 \<and> re_owner w = tid_of t \<and> (\<forall>u. u \<noteq> t \<longrightarrow> re_guards (re_loc w u) = 0)
    \<and> (\<exists>w'. re_lock_step a tid_of (t, n) w = Some w' \<and> re_loc w' t = ReIdle 1 \<and> re_count w' = 1)"
proof -
  have M: "re_mutex (step (mutex_client a)) mutex_start mutex_idle mutex_own mutex_locking tid_of"
    by (rule re_mutexI) (rule assms(1))
  note inv = re_mutex.re_reach_inv [OF M assms(2)]
  note I = re_mutex.re_invD [OF M inv]
  have v: "re_view (re_loc w t) = Some (0, True)" using assms(3) by simp
  have "re_guards (re_loc w u) = 0" if "u \<noteq> t" for u
  proof (rule ccontr)
    assume "re_guards (re_loc w u) \<noteq> 0"
    then obtain b where b: "re_view (re_loc w u) = Some (re_guards (re_loc w u), b)" using re_guards_view by blast
    show False using mutex_trait.exclusion [OF I(1) I(5) [OF b] I(5) [OF v]] that by blast
  qed
  moreover have "re_count w = 0" "re_owner w = tid_of t" "tid_of t \<noteq> 0"
    using I(6) [OF v] I(7) [OF v] I(9) [of t] v by (auto simp: unat_eq_0)
  ultimately show ?thesis using assms(3) by (simp add: re_step_def re_act_def re_goto_def)
qed

theorem remutex_first_lock_finds_zero_witness:
  "\<exists>w. re_run (re_lock_step 8 thread_key) (replicate 6 (2, 0)) (re_start mutex_start) = Some w
     \<and> re_loc w 2 = ReSetCount \<and> re_count w = 0"
proof -
  let ?s = "replicate 6 (2, 0)"
  have *: "map_option (\<lambda>w. re_loc w 2) (re_run (re_lock_step 8 thread_key) ?s (re_start mutex_start)) = Some ReSetCount"
    by code_simp
  then obtain w where w: "re_run (re_lock_step 8 thread_key) ?s (re_start mutex_start) = Some w" "re_loc w 2 = ReSetCount" by auto
  from remutex_first_lock_finds_zero [of thread_key, OF thread_key_inj re_run_steps [OF w(1) steps_init] w(2), of 0] w
  show ?thesis by auto
qed

end
