(* ===== verification/Deadlock.thy ===== *)
theory Deadlock
  imports Lot_Spec "HOL-Library.Multiset"
begin

text \<open>
  The deadlock detector, \<open>mod deadlock_impl\<close> of \<open>core/src/parking_lot.rs\<close>: the resources a thread holds, the wait graph of the
  sleeping threads and the search for cycles in it. The functions of the crate \<open>petgraph\<close> (a test for cycles and a
  depth-first search that reports events) are parameters, and so is the order in which a \<open>HashSet\<close> gives its
  elements. What is done with the threads on a cycle is in \<open>Deadlock_Reports\<close>.
\<close>

section \<open>Resources\<close>

text \<open>A channel of backtraces is a number. A system thread id is a \<open>tid\<close>.\<close>

record DeadlockData =
  resources :: "usize list"
  deadlocked :: bool
  backtrace_sender :: "nat option"
  thread_id :: tid

definition DeadlockData_new :: "tid \<Rightarrow> DeadlockData" where
  "DeadlockData_new current = \<lparr>resources = [], deadlocked = False, backtrace_sender = None, thread_id = current\<rparr>"

text \<open>\<open>rposition\<close> gives the last position that satisfies the predicate, \<open>swap_remove\<close> moves the last element to the one removed.\<close>

fun rposition :: "('a \<Rightarrow> bool) \<Rightarrow> 'a list \<Rightarrow> nat option" where
  "rposition P [] = None"
| "rposition P (x # xs) = (case rposition P xs of Some p \<Rightarrow> Some (Suc p) | None \<Rightarrow> if P x then Some 0 else None)"

definition swap_remove :: "nat \<Rightarrow> 'a list \<Rightarrow> 'a list" where
  "swap_remove p xs = butlast (xs[p := last xs])"

definition acquire_resource :: "usize \<Rightarrow> DeadlockData \<Rightarrow> DeadlockData" where
  "acquire_resource k d = d\<lparr>resources := resources d @ [k]\<rparr>"

definition release_resource :: "usize \<Rightarrow> DeadlockData \<Rightarrow> DeadlockData" where
  "release_resource k d = (case rposition (\<lambda>x. x = k) (resources d) of
     Some p \<Rightarrow> d\<lparr>resources := swap_remove p (resources d)\<rparr> | None \<Rightarrow> d)"

section \<open>The wait graph\<close>

datatype WaitGraphNode = Thread tid | Resource usize

text \<open>The derived order: threads before resources, each by its address.\<close>

instantiation WaitGraphNode :: linorder
begin

fun less_eq_WaitGraphNode :: "WaitGraphNode \<Rightarrow> WaitGraphNode \<Rightarrow> bool" where
  "Thread t \<le> Thread u = (t \<le> u)"
| "Thread t \<le> Resource r = True"
| "Resource r \<le> Thread t = False"
| "Resource r \<le> Resource q = (r \<le> q)"

definition less_WaitGraphNode :: "WaitGraphNode \<Rightarrow> WaitGraphNode \<Rightarrow> bool" where
  "x < y \<longleftrightarrow> x \<le> y \<and> \<not> y \<le> (x :: WaitGraphNode)"

instance
proof
  fix x y z :: WaitGraphNode
  show "x < y \<longleftrightarrow> x \<le> y \<and> \<not> y \<le> x" by (rule less_WaitGraphNode_def)
  show "x \<le> x" by (cases x) simp_all
  show "x \<le> y \<Longrightarrow> y \<le> z \<Longrightarrow> x \<le> z" by (cases x; cases y; cases z) auto
  show "x \<le> y \<Longrightarrow> y \<le> x \<Longrightarrow> x = y" by (cases x; cases y) auto
  show "x \<le> y \<or> y \<le> x" by (cases x; cases y) auto
qed

end

type_synonym wait_graph = "(WaitGraphNode \<times> WaitGraphNode) list"

text \<open>The edges added for one thread in a queue: its resources wait for it and it waits for its key.\<close>

definition thread_edges :: "heap \<Rightarrow> (tid \<Rightarrow> DeadlockData) \<Rightarrow> tid \<Rightarrow> wait_graph" where
  "thread_edges h dl current =
     (if \<not> parked_with_timeout (h current) \<and> \<not> deadlocked (dl current)
      then map (\<lambda>r. (Resource r, Thread current)) (resources (dl current)) @ [(Thread current, Resource (key (h current)))]
      else [])"

partial_function (option) wait_graph_bucket ::
    "heap \<Rightarrow> (tid \<Rightarrow> DeadlockData) \<Rightarrow> td_ptr \<Rightarrow> wait_graph \<Rightarrow> wait_graph option" where
  "wait_graph_bucket h dl current g = (case current of
     None \<Rightarrow> Some g
   | Some c \<Rightarrow> wait_graph_bucket h dl (next_in_queue (h c)) (g @ thread_edges h dl c))"

fun wait_graph_table :: "heap \<Rightarrow> (tid \<Rightarrow> DeadlockData) \<Rightarrow> Bucket list \<Rightarrow> wait_graph \<Rightarrow> wait_graph option" where
  "wait_graph_table h dl [] g = Some g"
| "wait_graph_table h dl (b # bs) g =
     Option.bind (wait_graph_bucket h dl (queue_head b) g) (wait_graph_table h dl bs)"

section \<open>Cycles\<close>

text \<open>\<open>min_by_key\<close> gives the first of several least elements; the iterator repeats the input for ever.\<close>

fun min_pos :: "'a::linorder list \<Rightarrow> nat" where
  "min_pos [] = 0"
| "min_pos [x] = 0"
| "min_pos (x # y # ys) = (let p = min_pos (y # ys) in if x \<le> (y # ys) ! p then 0 else Suc p)"

definition normalize_cycle :: "'a::linorder list \<Rightarrow> 'a list" where
  "normalize_cycle input =
     map (\<lambda>i. input ! ((min_pos input + i) mod length input)) [0..<length input]"

datatype DfsEvent =
    Discover WaitGraphNode
  | TreeEdge WaitGraphNode WaitGraphNode
  | BackEdge WaitGraphNode WaitGraphNode
  | CrossForwardEdge WaitGraphNode WaitGraphNode
  | Finish WaitGraphNode

text \<open>The closure given to the search; \<open>None\<close> is the panic of \<open>unwrap\<close>.\<close>

fun on_event :: "DfsEvent \<Rightarrow> tid list \<times> tid list list \<Rightarrow> (tid list \<times> tid list list) option" where
  "on_event (Discover (Thread n)) (path, cycles) = Some (path @ [n], cycles)"
| "on_event (Finish (Thread _)) (path, cycles) = Some (butlast path, cycles)"
| "on_event (BackEdge _ (Thread n)) (path, cycles) = (case rposition (\<lambda>i. i = n) path of
     None \<Rightarrow> None
   | Some from \<Rightarrow> Some (path, List.insert (normalize_cycle (drop from path)) cycles))"
| "on_event _ pc = Some pc"

fun on_events :: "DfsEvent list \<Rightarrow> tid list \<times> tid list list \<Rightarrow> (tid list \<times> tid list list) option" where
  "on_events [] pc = Some pc"
| "on_events (e # es) pc = Option.bind (on_event e pc) (on_events es)"

fun is_thread :: "WaitGraphNode \<Rightarrow> bool" where
  "is_thread (Thread _) = True"
| "is_thread _ = False"

definition graph_nodes :: "wait_graph \<Rightarrow> WaitGraphNode list" where
  "graph_nodes g = rev (remdups (rev (concat (map (\<lambda>(a, b). [a, b]) g))))"

type_synonym search = "wait_graph \<Rightarrow> WaitGraphNode list \<Rightarrow> DfsEvent list"

text \<open>The collected cycles are a \<open>HashSet\<close>: a list without repetition here, given out in the order \<open>hash_order\<close>.\<close>

definition graph_cycles :: "(tid list list \<Rightarrow> tid list list) \<Rightarrow> search \<Rightarrow> wait_graph \<Rightarrow> tid list list option" where
  "graph_cycles hash_order depth_first_search g =
     map_option (\<lambda>(path, cycles). hash_order cycles)
       (on_events (depth_first_search g (filter is_thread (graph_nodes g))) ([], []))"

section \<open>The fast check\<close>

text \<open>The graph of the fast check has the addresses of the threads and the keys as nodes of one type.\<close>

fun node_addr :: "(tid \<Rightarrow> usize) \<Rightarrow> WaitGraphNode \<Rightarrow> usize" where
  "node_addr addr (Thread t) = addr t"
| "node_addr addr (Resource r) = r"

definition check_wait_graph_fast :: "((usize \<times> usize) list \<Rightarrow> bool) \<Rightarrow> (tid \<Rightarrow> usize) \<Rightarrow> nat \<Rightarrow> ParkingLot \<Rightarrow>
    (tid \<Rightarrow> DeadlockData) \<Rightarrow> (bool \<times> ParkingLot) option" where
  "check_wait_graph_fast is_cyclic_directed addr now lot dl = do {
     (tb, lot) \<leftarrow> get_hashtable now lot;
     g \<leftarrow> wait_graph_table (threads lot) dl (entries tb) [];
     Some (is_cyclic_directed (map (map_prod (node_addr addr) (node_addr addr)) g), lot)
   }"

section \<open>Resources are a multiset\<close>

lemma rposition_Some:
  "rposition P xs = Some p \<Longrightarrow> p < length xs \<and> P (xs ! p) \<and> (\<forall>j. p < j \<longrightarrow> j < length xs \<longrightarrow> \<not> P (xs ! j))"
proof (induction xs arbitrary: p)
  case (Cons x xs)
  show ?case
  proof (cases "rposition P xs")
    case None
    have "\<not> P y" if "y \<in> set xs" for y using None that
      by (induction xs) (auto split: option.splits if_splits)
    then show ?thesis using Cons.prems None by (auto split: if_splits simp: nth_Cons split: nat.splits)
  next
    case (Some q)
    then show ?thesis using Cons by (auto simp: nth_Cons split: nat.splits)
  qed
qed simp

lemma rposition_None: "rposition P xs = None \<longleftrightarrow> (\<forall>x\<in>set xs. \<not> P x)"
  by (induction xs) (auto split: option.splits)

lemma rposition_last: "P y \<Longrightarrow> rposition P (xs @ [y]) = Some (length xs)"
  by (induction xs) simp_all

lemma swap_remove_mset:
  assumes "p < length xs"
  shows "mset (swap_remove p xs) = mset xs - {#xs ! p#}"
proof -
  have "xs \<noteq> []" using assms by auto
  then obtain ys y where xs: "xs = ys @ [y]" by (metis append_butlast_last_id)
  show ?thesis
  proof (cases "p = length ys")
    case True
    then show ?thesis by (simp add: swap_remove_def xs list_update_append)
  next
    case False
    then have p: "p < length ys" using assms by (simp add: xs)
    then have "swap_remove p xs = ys[p := y]" by (simp add: swap_remove_def xs list_update_append butlast_append)
    moreover have "mset (ys[p := y]) = add_mset y (mset ys - {#ys ! p#})" using p by (simp add: mset_update)
    ultimately show ?thesis using p by (simp add: xs nth_append)
  qed
qed

lemma release_resource_mset: "mset (resources (release_resource k d)) = mset (resources d) - {#k#}"
proof (cases "rposition (\<lambda>x. x = k) (resources d)")
  case None
  then have "k \<notin># mset (resources d)" by (auto simp: rposition_None)
  then show ?thesis using None by (simp add: release_resource_def diff_single_trivial)
next
  case (Some p)
  then show ?thesis using rposition_Some [OF Some] by (simp add: release_resource_def swap_remove_mset)
qed

text \<open>
  The list of held resources is exact: what a thread acquires and then releases leaves its list as it
  was, and a release takes away one occurrence of the key and nothing else, or nothing if the key is not held.
\<close>

theorem release_undoes_acquire:
  "release_resource k (acquire_resource k d) = d
   \<and> mset (resources (release_resource j (acquire_resource k d))) = add_mset k (mset (resources d)) - {#j#}
   \<and> (k \<notin> set (resources d) \<longrightarrow> release_resource k d = d)"
proof -
  have "release_resource k (acquire_resource k d) = d"
    by (simp add: release_resource_def acquire_resource_def rposition_last swap_remove_def list_update_append)
  moreover have "release_resource k d = d" if "k \<notin> set (resources d)"
    using that by (auto simp: release_resource_def split: option.split dest!: rposition_Some)
  ultimately show ?thesis by (simp add: release_resource_mset) (simp add: acquire_resource_def)
qed

theorem release_undoes_acquire_witness:
  "release_resource 7 (DeadlockData_new 1) = DeadlockData_new 1"
  using release_undoes_acquire [of 7 "DeadlockData_new 1" 7] by (simp add: DeadlockData_new_def)

section \<open>Normal form of a cycle\<close>

lemma normalize_cycle_rotate: "normalize_cycle xs = rotate (min_pos xs) xs"
  by (rule nth_equalityI) (simp_all add: normalize_cycle_def nth_rotate)

lemma min_pos_less: "xs \<noteq> [] \<Longrightarrow> min_pos xs < length xs"
  by (induction xs rule: min_pos.induct) (auto simp: Let_def)

lemma min_pos_min: "xs \<noteq> [] \<Longrightarrow> xs ! min_pos xs = Min (set xs)"
proof (induction xs rule: min_pos.induct)
  case (3 x y ys)
  let ?p = "min_pos (y # ys)"
  have m: "(y # ys) ! ?p = Min (set (y # ys))" using 3 by simp
  have "Min (set (x # y # ys)) = min x (Min (set (y # ys)))" by simp
  then show ?case using m by (auto simp: Let_def min_def)
qed simp_all

lemma distinct_rotate_min:
  assumes d: "distinct xs" and ne: "xs \<noteq> []" and k: "k < length xs" "xs ! k = Min (set xs)"
  shows "rotate k xs = normalize_cycle xs"
proof -
  have "min_pos xs = k"
    using nth_eq_iff_index_eq [OF d min_pos_less [OF ne] k(1)] min_pos_min [OF ne] k(2) by simp
  then show ?thesis by (simp add: normalize_cycle_rotate)
qed

text \<open>
  The normal form of a cycle is canonical: it is a rotation of the cycle that starts with the least thread, and the
  same cycle entered at another thread has the same normal form. So the set of cycles holds each cycle once.
\<close>

theorem normalize_cycle_canonical:
  assumes "distinct xs"
  shows "normalize_cycle (rotate n xs) = normalize_cycle xs
    \<and> (\<exists>k. normalize_cycle xs = rotate k xs) \<and> (xs \<noteq> [] \<longrightarrow> hd (normalize_cycle xs) = Min (set xs))"
proof (cases "xs = []")
  case True
  then show ?thesis by (simp add: normalize_cycle_rotate)
next
  case False
  define ys where "ys = rotate n xs"
  have ys: "distinct ys" "ys \<noteq> []" "set ys = set xs" "length ys = length xs" using assms False by (simp_all add: ys_def)
  have "normalize_cycle ys = rotate (min_pos ys + n) xs"
    by (simp add: normalize_cycle_rotate ys_def rotate_rotate)
  also have "\<dots> = rotate ((min_pos ys + n) mod length xs) xs" by (rule rotate_conv_mod)
  also have "\<dots> = normalize_cycle xs"
  proof (rule distinct_rotate_min [OF assms False])
    show "(min_pos ys + n) mod length xs < length xs" using False by simp
    have "ys ! min_pos ys = xs ! ((n + min_pos ys) mod length xs)"
      unfolding ys_def by (rule nth_rotate) (use min_pos_less [OF ys(2)] in \<open>simp add: ys_def\<close>)
    then show "xs ! ((min_pos ys + n) mod length xs) = Min (set xs)"
      using min_pos_min [OF ys(2)] ys(3) by (simp add: add.commute)
  qed
  finally have "normalize_cycle (rotate n xs) = normalize_cycle xs" by (simp add: ys_def)
  moreover have "hd (normalize_cycle xs) = Min (set xs)"
    using hd_rotate_conv_nth [OF False, of "min_pos xs"] min_pos_less [OF False] min_pos_min [OF False]
    by (simp add: normalize_cycle_rotate)
  ultimately show ?thesis using normalize_cycle_rotate by blast
qed

theorem normalize_cycle_canonical_witness:
  "distinct [5, 2, 9 :: nat] \<and> normalize_cycle (rotate 1 [5, 2, 9]) = normalize_cycle [5, 2, 9 :: nat]
   \<and> normalize_cycle [5, 2, 9 :: nat] = [2, 9, 5]"
proof -
  have "normalize_cycle [5, 2, 9 :: nat] = [2, 9, 5]" by code_simp
  then show ?thesis using normalize_cycle_canonical [of "[5, 2, 9 :: nat]" 1] by simp
qed

section \<open>What the graph says\<close>

text \<open>A thread that the detector looks at: it sleeps in the lot without a timeout and has not been reported.\<close>

definition blocked :: "heap \<Rightarrow> (tid \<Rightarrow> DeadlockData) \<Rightarrow> tid set \<Rightarrow> tid \<Rightarrow> bool" where
  "blocked h dl S t \<longleftrightarrow> t \<in> S \<and> \<not> parked_with_timeout (h t) \<and> \<not> deadlocked (dl t)"

definition waits_for :: "heap \<Rightarrow> (tid \<Rightarrow> DeadlockData) \<Rightarrow> tid set \<Rightarrow> tid \<Rightarrow> tid \<Rightarrow> bool" where
  "waits_for h dl S t u \<longleftrightarrow> blocked h dl S t \<and> blocked h dl S u \<and> key (h t) \<in> set (resources (dl u))"

definition wait_cycle :: "(tid \<Rightarrow> tid \<Rightarrow> bool) \<Rightarrow> tid list \<Rightarrow> bool" where
  "wait_cycle R ts \<longleftrightarrow> ts \<noteq> [] \<and> (\<forall>i<length ts. R (ts ! i) (ts ! (Suc i mod length ts)))"

lemma wait_graph_bucket_lst:
  "lst h p vs \<Longrightarrow> wait_graph_bucket h dl p g = Some (g @ concat (map (thread_edges h dl) vs))"
proof (induction vs arbitrary: p g)
  case Nil
  then show ?case by (simp add: wait_graph_bucket.simps)
next
  case (Cons v vs)
  then show ?case by (simp add: wait_graph_bucket.simps [of h dl "Some v"])
qed

lemma wait_graph_table_queues:
  assumes "\<forall>i<length bs. lst h (queue_head (bs ! i)) (Q i)"
  shows "wait_graph_table h dl bs g = Some (g @ concat (map (thread_edges h dl) (concat (map Q [0..<length bs]))))"
  using assms
proof (induction bs arbitrary: g Q)
  case (Cons b bs)
  have 0: "lst h (queue_head b) (Q 0)" using Cons.prems by auto
  have "\<forall>i<length bs. lst h (queue_head (bs ! i)) (Q (Suc i))" using Cons.prems by auto
  note IH = Cons.IH [OF this]
  have "[0..<length (b # bs)] = 0 # map Suc [0..<length bs]" by (simp add: upt_conv_Cons map_Suc_upt del: upt_Suc)
  then show ?case using wait_graph_bucket_lst [OF 0, of dl g] IH by (simp add: comp_def)
qed simp

text \<open>The threads in the queues.\<close>

definition sleeping :: "ParkingLot \<Rightarrow> tid set" where
  "sleeping lot = {t. enqueued lot t}"

lemma wait_graph_edges:
  assumes "lot_rep lot tb Q"
  shows "\<exists>g. wait_graph_table (threads lot) dl (entries tb) [] = Some g
    \<and> (\<forall>a b. (a, b) \<in> set g \<longleftrightarrow>
        (\<exists>t. blocked (threads lot) dl (sleeping lot) t \<and>
          (a = Thread t \<and> b = Resource (key (threads lot t)) \<or> (\<exists>r\<in>set (resources (dl t)). a = Resource r \<and> b = Thread t))))"
proof -
  let ?h = "threads lot"
  have q: "lst ?h (queue_head (entries tb ! i)) (Q i)" if "i < length (entries tb)" for i
    using lot_repD(3) [OF assms that] by (simp add: bucket_queue_def)
  have S: "t \<in> sleeping lot \<longleftrightarrow> (\<exists>i<length (entries tb). t \<in> set (Q i))" for t
    using lot_rep_enqueued [OF assms] by (simp add: sleeping_def)
  define ts where "ts = concat (map Q [0..<length (entries tb)])"
  have ts: "t \<in> set ts \<longleftrightarrow> t \<in> sleeping lot" for t unfolding S ts_def by (auto simp: atLeast0LessThan)
  have e: "(a, b) \<in> set (thread_edges ?h dl t) \<longleftrightarrow> \<not> parked_with_timeout (?h t) \<and> \<not> deadlocked (dl t) \<and>
      (a = Thread t \<and> b = Resource (key (?h t)) \<or> (\<exists>r\<in>set (resources (dl t)). a = Resource r \<and> b = Thread t))" for a b t
    by (auto simp: thread_edges_def)
  have "wait_graph_table ?h dl (entries tb) [] = Some (concat (map (thread_edges ?h dl) ts))"
    using wait_graph_table_queues [of "entries tb" ?h Q dl "[]"] q by (simp add: ts_def)
  moreover have "(a, b) \<in> set (concat (map (thread_edges ?h dl) ts)) \<longleftrightarrow> (\<exists>t. blocked ?h dl (sleeping lot) t \<and>
      (a = Thread t \<and> b = Resource (key (?h t)) \<or> (\<exists>r\<in>set (resources (dl t)). a = Resource r \<and> b = Thread t)))" for a b
    using e ts by (auto simp: blocked_def)
  ultimately show ?thesis by blast
qed

section \<open>The search\<close>

text \<open>
  What the documentation of \<open>petgraph\<close> says of a depth-first search: the nodes that are discovered and not
  finished form the stack of the search, each reached by an edge from the one below or a start; an edge
  to a node on the stack is a back edge; a node is finished when all its edges have been seen; the starts are searched in order.
\<close>

fun dfs_ok :: "wait_graph \<Rightarrow> WaitGraphNode list \<Rightarrow> WaitGraphNode list \<Rightarrow> WaitGraphNode list \<Rightarrow> DfsEvent list \<Rightarrow> bool" where
  "dfs_ok g starts stk fin [] \<longleftrightarrow> stk = [] \<and> set starts \<subseteq> set fin"
| "dfs_ok g starts stk fin (Discover n # es) \<longleftrightarrow> n \<notin> set stk \<and> n \<notin> set fin
     \<and> (case stk of [] \<Rightarrow> List.find (\<lambda>s. s \<notin> set fin) starts = Some n | u # _ \<Rightarrow> (u, n) \<in> set g) \<and> dfs_ok g starts (n # stk) fin es"
| "dfs_ok g starts stk fin (TreeEdge u v # es) \<longleftrightarrow> stk \<noteq> [] \<and> hd stk = u \<and> (u, v) \<in> set g
     \<and> v \<notin> set stk \<and> v \<notin> set fin \<and> dfs_ok g starts stk fin es"
| "dfs_ok g starts stk fin (BackEdge u v # es) \<longleftrightarrow> stk \<noteq> [] \<and> hd stk = u \<and> (u, v) \<in> set g
     \<and> v \<in> set stk \<and> dfs_ok g starts stk fin es"
| "dfs_ok g starts stk fin (CrossForwardEdge u v # es) \<longleftrightarrow> stk \<noteq> [] \<and> hd stk = u \<and> (u, v) \<in> set g
     \<and> v \<in> set fin \<and> dfs_ok g starts stk fin es"
| "dfs_ok g starts stk fin (Finish n # es) \<longleftrightarrow> stk \<noteq> [] \<and> hd stk = n
     \<and> (\<forall>(a, b)\<in>set g. a = n \<longrightarrow> b \<in> set stk \<or> b \<in> set fin) \<and> dfs_ok g starts (tl stk) (n # fin) es"

text \<open>The threads on the stack, bottom first: the variable \<open>path\<close>.\<close>

fun stack_threads :: "WaitGraphNode list \<Rightarrow> tid list" where
  "stack_threads [] = []"
| "stack_threads (Thread t # stk) = stack_threads stk @ [t]"
| "stack_threads (Resource r # stk) = stack_threads stk"

fun stack_ok :: "wait_graph \<Rightarrow> WaitGraphNode list \<Rightarrow> bool" where
  "stack_ok g [] \<longleftrightarrow> True"
| "stack_ok g [n] \<longleftrightarrow> is_thread n"
| "stack_ok g (y # x # s) \<longleftrightarrow> (x, y) \<in> set g \<and> stack_ok g (x # s)"

definition graph_waits :: "wait_graph \<Rightarrow> tid \<Rightarrow> tid \<Rightarrow> bool" where
  "graph_waits g t u \<longleftrightarrow> (\<exists>r. (Thread t, Resource r) \<in> set g \<and> (Resource r, Thread u) \<in> set g)"

definition bipartite :: "wait_graph \<Rightarrow> bool" where
  "bipartite g \<longleftrightarrow> (\<forall>a b. (a, b) \<in> set g \<longrightarrow> is_thread a \<noteq> is_thread b)"

definition linked :: "(tid \<Rightarrow> tid \<Rightarrow> bool) \<Rightarrow> tid list \<Rightarrow> bool" where
  "linked R ts \<longleftrightarrow> (\<forall>i. Suc i < length ts \<longrightarrow> R (ts ! i) (ts ! Suc i))"

lemma stack_threads_set: "n \<in> set (stack_threads stk) \<longleftrightarrow> Thread n \<in> set stk"
  by (induction stk rule: stack_threads.induct) auto

lemma stack_threads_distinct: "distinct stk \<Longrightarrow> distinct (stack_threads stk)"
  by (induction stk rule: stack_threads.induct) (auto simp: stack_threads_set)

lemma linked_snoc:
  "linked R (ts @ [t]) \<longleftrightarrow> linked R ts \<and> (ts \<noteq> [] \<longrightarrow> R (last ts) t)"
proof
  assume l: "linked R (ts @ [t])"
  have "linked R ts" unfolding linked_def
  proof (intro allI impI)
    fix i assume i: "Suc i < length ts"
    then show "R (ts ! i) (ts ! Suc i)" using l [unfolded linked_def, rule_format, of i] by (simp add: nth_append)
  qed
  moreover have "R (last ts) t" if ne: "ts \<noteq> []"
  proof -
    obtain m where m: "length ts = Suc m" using ne by (cases "length ts") auto
    then show ?thesis using l [unfolded linked_def, rule_format, of m] ne by (simp add: nth_append last_conv_nth)
  qed
  ultimately show "linked R ts \<and> (ts \<noteq> [] \<longrightarrow> R (last ts) t)" by blast
next
  assume l: "linked R ts \<and> (ts \<noteq> [] \<longrightarrow> R (last ts) t)"
  show "linked R (ts @ [t])" unfolding linked_def
  proof (intro allI impI)
    fix i assume i: "Suc i < length (ts @ [t])"
    show "R ((ts @ [t]) ! i) ((ts @ [t]) ! Suc i)"
    proof (cases "Suc i < length ts")
      case True
      then show ?thesis using l by (simp add: linked_def nth_append)
    next
      case False
      then have e: "length ts = Suc i" using i by simp
      then have ne: "ts \<noteq> []" by auto
      then have "last ts = ts ! i" using e by (simp add: last_conv_nth)
      then show ?thesis using l e ne by (simp add: nth_append)
    qed
  qed
qed

lemma stack_top:
  assumes "stack_ok g stk" and "bipartite g"
  shows "linked (graph_waits g) (stack_threads stk)
    \<and> (\<forall>r s. stk = Resource r # s \<longrightarrow> stack_threads stk \<noteq> [] \<and> (Thread (last (stack_threads stk)), Resource r) \<in> set g)"
  using assms
proof (induction stk rule: stack_threads.induct)
  case 1
  then show ?case by (simp add: linked_def)
next
  case (2 t stk)
  show ?case
  proof (cases stk)
    case Nil
    then show ?thesis by (simp add: linked_def)
  next
    case (Cons x s)
    then have e: "(x, Thread t) \<in> set g" "stack_ok g stk" using 2 by auto
    have "\<not> is_thread x" using e(1) 2(3) by (auto simp: bipartite_def)
    then obtain r where x: "x = Resource r" by (cases x) auto
    have IH: "linked (graph_waits g) (stack_threads stk)" "stack_threads stk \<noteq> []" "(Thread (last (stack_threads stk)), Resource r) \<in> set g"
      using 2(1) [OF e(2) 2(3)] Cons x by auto
    then have "graph_waits g (last (stack_threads stk)) t" using e(1) x by (auto simp: graph_waits_def)
    then show ?thesis using IH by (simp add: linked_snoc)
  qed
next
  case (3 r stk)
  show ?case
  proof (cases stk)
    case Nil
    then show ?thesis using 3 by simp
  next
    case (Cons x s)
    then have e: "(x, Resource r) \<in> set g" "stack_ok g stk" using 3 by auto
    have "is_thread x" using e(1) 3(3) by (auto simp: bipartite_def)
    then obtain t where x: "x = Thread t" by (cases x) auto
    have "linked (graph_waits g) (stack_threads stk)" using 3(1) [OF e(2) 3(3)] by blast
    then show ?thesis using e(1) by (simp add: Cons x)
  qed
qed

lemma linked_cycle:
  assumes l: "linked R ts" and f: "f < length ts" and c: "R (last ts) (ts ! f)"
  shows "wait_cycle R (drop f ts)"
  unfolding wait_cycle_def
proof (intro conjI allI impI)
  show "drop f ts \<noteq> []" using f by simp
  fix i assume i: "i < length (drop f ts)"
  show "R (drop f ts ! i) (drop f ts ! (Suc i mod length (drop f ts)))"
  proof (cases "Suc i < length (drop f ts)")
    case True
    then show ?thesis using l [unfolded linked_def, rule_format, of "f + i"] by simp
  next
    case False
    then have e: "length (drop f ts) = Suc i" using i by simp
    then have "f + i = length ts - 1" using f by auto
    then have "drop f ts ! i = last ts" using f by (subst last_conv_nth) auto
    moreover have "Suc i mod length (drop f ts) = 0" unfolding e by simp
    ultimately show ?thesis using c f by (simp del: length_drop)
  qed
qed

lemma wait_cycle_rotate: "wait_cycle R ts \<Longrightarrow> wait_cycle R (rotate n ts)"
  unfolding wait_cycle_def
proof (intro conjI allI impI)
  assume *: "ts \<noteq> [] \<and> (\<forall>i<length ts. R (ts ! i) (ts ! (Suc i mod length ts)))"
  then show "rotate n ts \<noteq> []" by simp
  fix i assume i: "i < length (rotate n ts)"
  have m: "Suc i mod length ts < length ts" "(n + i) mod length ts < length ts" using * by simp_all
  have "R (ts ! ((n + i) mod length ts)) (ts ! (Suc ((n + i) mod length ts) mod length ts))" using * m by blast
  moreover have "Suc ((n + i) mod length ts) mod length ts = (n + Suc i mod length ts) mod length ts"
    by (metis add_Suc_right mod_Suc_eq mod_add_right_eq)
  ultimately show "R (rotate n ts ! i) (rotate n ts ! (Suc i mod length (rotate n ts)))"
    using i m by (simp add: nth_rotate)
qed

text \<open>A list in normal form.\<close>

definition normal :: "tid list \<Rightarrow> bool" where
  "normal c \<longleftrightarrow> normalize_cycle c = c"

lemma normal_normalize: "distinct xs \<Longrightarrow> normal (normalize_cycle xs)"
  using normalize_cycle_canonical [of xs "min_pos xs"] by (simp add: normal_def normalize_cycle_rotate [symmetric])

text \<open>The closure never panics and collects only cycles of the graph, each once and in normal form.\<close>

definition found_ok :: "wait_graph \<Rightarrow> tid list list \<Rightarrow> bool" where
  "found_ok g cycles \<longleftrightarrow> distinct cycles \<and> (\<forall>c\<in>set cycles. wait_cycle (graph_waits g) c \<and> distinct c \<and> normal c)"

lemma on_event_back:
  assumes st: "stack_ok g stk" "distinct stk" and bi: "bipartite g"
    and e: "hd stk = u" "stk \<noteq> []" "(u, Thread n) \<in> set g" "Thread n \<in> set stk"
    and cs: "found_ok g cycles"
  shows "\<exists>cycles'. on_event (BackEdge u (Thread n)) (stack_threads stk, cycles) = Some (stack_threads stk, cycles')
    \<and> found_ok g cycles'"
proof -
  let ?path = "stack_threads stk"
  have "n \<in> set ?path" using e(4) by (simp add: stack_threads_set)
  then obtain f where f: "rposition (\<lambda>i. i = n) ?path = Some f"
    by (metis (full_types) not_None_eq rposition_None)
  have fl: "f < length ?path" "?path ! f = n" using rposition_Some [OF f] by auto
  have "\<not> is_thread u" using e(3) bi by (auto simp: bipartite_def)
  then obtain r where u: "u = Resource r" by (cases u) auto
  then obtain s where stk: "stk = Resource r # s" using e(1,2) by (cases stk) auto
  note top = stack_top [OF st(1) bi]
  have "(Thread (last ?path), Resource r) \<in> set g" using top stk by blast
  moreover have "(Resource r, Thread (?path ! f)) \<in> set g" using e(3) by (simp add: u fl(2))
  ultimately have "graph_waits g (last ?path) (?path ! f)" unfolding graph_waits_def by blast
  then have "wait_cycle (graph_waits g) (drop f ?path)" using linked_cycle [OF _ fl(1)] top by blast
  then have "wait_cycle (graph_waits g) (normalize_cycle (drop f ?path))"
    by (simp add: normalize_cycle_rotate wait_cycle_rotate)
  moreover have d: "distinct (drop f ?path)" using stack_threads_distinct [OF st(2)] by simp
  moreover have "distinct (normalize_cycle (drop f ?path))" using d by (simp add: normalize_cycle_rotate)
  ultimately show ?thesis using f cs normal_normalize [OF d] by (auto simp: found_ok_def)
qed

lemma on_events_sound:
  assumes "dfs_ok g starts stk fin es" and "stack_ok g stk" and "distinct stk" and bi: "bipartite g"
    and ts: "\<forall>s\<in>set starts. is_thread s" and "found_ok g cycles"
  shows "\<exists>path cycles'. on_events es (stack_threads stk, cycles) = Some (path, cycles') \<and> found_ok g cycles'"
  using assms(1-3,6)
proof (induction es arbitrary: stk fin cycles)
  case Nil
  then show ?case by auto
next
  case (Cons e es)
  show ?case
  proof (cases e)
    case (Discover n)
    have "is_thread n" if "stk = []"
      using Cons.prems(1) that ts by (auto simp: Discover find_Some_iff)
    then have d: "dfs_ok g starts (n # stk) fin es" "stack_ok g (n # stk)" "distinct (n # stk)"
      using Cons.prems(1-3) by (cases stk; simp add: Discover)+
    have "on_event e (stack_threads stk, cycles) = Some (stack_threads (n # stk), cycles)"
      by (cases n) (simp_all add: Discover)
    then show ?thesis using Cons.IH [OF d Cons.prems(4)] by simp
  next
    case (TreeEdge u v)
    then show ?thesis using Cons.IH [OF _ Cons.prems(2-4), of fin] Cons.prems(1) by simp
  next
    case (CrossForwardEdge u v)
    then show ?thesis using Cons.IH [OF _ Cons.prems(2-4), of fin] Cons.prems(1) by simp
  next
    case (Finish n)
    obtain s where stk: "stk = n # s" using Cons.prems(1) by (cases stk) (auto simp: Finish)
    have d: "dfs_ok g starts s (n # fin) es" "stack_ok g s" "distinct s"
      using Cons.prems by (cases s; auto simp: Finish stk)+
    have "on_event e (stack_threads stk, cycles) = Some (stack_threads s, cycles)"
      by (cases n) (simp_all add: Finish stk)
    then show ?thesis using Cons.IH [OF d Cons.prems(4)] by simp
  next
    case (BackEdge u v)
    have d: "dfs_ok g starts stk fin es" "hd stk = u" "stk \<noteq> []" "(u, v) \<in> set g" "v \<in> set stk"
      using Cons.prems(1) by (simp_all add: BackEdge)
    show ?thesis
    proof (cases v)
      case (Thread n)
      obtain cycles' where c: "on_event e (stack_threads stk, cycles) = Some (stack_threads stk, cycles')"
          "found_ok g cycles'"
        using on_event_back [OF Cons.prems(2,3) bi d(2,3) _ _ Cons.prems(4), of n] d(4,5) unfolding BackEdge Thread by blast
      then show ?thesis using Cons.IH [OF d(1) Cons.prems(2,3) c(2)] by simp
    next
      case (Resource r)
      then show ?thesis using Cons.IH [OF d(1) Cons.prems(2-4)] by (simp add: BackEdge)
    qed
  qed
qed

lemma graph_cycles_sound:
  assumes "dfs_ok g (filter is_thread (graph_nodes g)) [] [] (dfs g (filter is_thread (graph_nodes g)))" and "bipartite g"
    and "\<And>cs. mset (order cs) = mset cs"
  shows "\<exists>cycles. graph_cycles order dfs g = Some cycles \<and> found_ok g cycles"
proof -
  obtain path cycles where c: "on_events (dfs g (filter is_thread (graph_nodes g))) ([], []) = Some (path, cycles)" "found_ok g cycles"
    using on_events_sound [OF assms(1) _ _ assms(2), of "[]"] by (auto simp: found_ok_def)
  have "found_ok g (order cycles)"
    using c(2) mset_eq_setD [OF assms(3)] mset_eq_imp_distinct_iff [OF assms(3)] by (simp add: found_ok_def)
  then show ?thesis using c(1) by (simp add: graph_cycles_def)
qed

section \<open>The graph of a lot\<close>

definition wait_graph :: "ParkingLot \<Rightarrow> (tid \<Rightarrow> DeadlockData) \<Rightarrow> wait_graph option" where
  "wait_graph lot dl = Option.bind (HASHTABLE lot) (\<lambda>tb. wait_graph_table (threads lot) dl (entries tb) [])"

lemma graph_waits_blocked:
  assumes "\<forall>a b. (a, b) \<in> set g \<longleftrightarrow> (\<exists>t. blocked h dl S t \<and>
      (a = Thread t \<and> b = Resource (key (h t)) \<or> (\<exists>r\<in>set (resources (dl t)). a = Resource r \<and> b = Thread t)))"
  shows "bipartite g" and "graph_waits g t u \<longleftrightarrow> waits_for h dl S t u"
  using assms by (auto simp: bipartite_def graph_waits_def waits_for_def)

section \<open>A concrete graph\<close>

text \<open>
  Threads 2 and 3 sleep on key 64, in this order. One of them holds the resource 64 itself, as a thread does
  that locks a mutex twice; the other is only a bystander.
\<close>

lemma concat_single:
  assumes "j < n" and "\<And>i. i < n \<Longrightarrow> i \<noteq> j \<Longrightarrow> Q i = []"
  shows "concat (map Q [0..<n]) = Q j"
proof -
  have "[0..<n] = [0..<j] @ j # [Suc j..<n]" using assms(1) by (metis less_imp_le_nat upt_add_eq_append upt_conv_Cons zero_le le_Suc_ex)
  moreover have "concat (map Q [0..<j]) = []" "concat (map Q [Suc j..<n]) = []" using assms by simp_all
  ultimately show ?thesis by (simp only: map_append concat_append list.map concat.simps append_Nil append_Nil2)
qed

lemma sample_lot_queues:
  assumes rep: "lot_rep sample_lot tb Q"
  shows "concat (map Q [0..<length (entries tb)]) = [2, 3]"
proof -
  have enq: "enqueued sample_lot t \<Longrightarrow> key (threads sample_lot t) = 64" for t
    using waiting_key [OF sample_lot_wf, of t] by (auto simp: enqueued_def sample_lot_waiting split: if_splits)
  have k: "key (threads sample_lot t) = 64" if "i < length (entries tb)" "t \<in> set (Q i)" for i t
    using enq lot_rep_enqueued [OF rep, of t] that by blast
  have i: "idx tb 64 < length (entries tb)" by (rule idx_hash(2) [OF lot_repD(2) [OF rep]])
  have "filter (\<lambda>t. key (threads sample_lot t) = 64) (Q (idx tb 64)) = Q (idx tb 64)"
    using k [OF i] by simp
  then have Q64: "Q (idx tb 64) = [2, 3]" using lot_rep_waiting [OF rep, of 64] by (simp add: sample_lot_waiting)
  have "Q i = []" if "i < length (entries tb)" "i \<noteq> idx tb 64" for i
  proof (rule ccontr)
    assume "Q i \<noteq> []"
    then have t: "hd (Q i) \<in> set (Q i)" by simp
    show False using lot_repD(4) [OF rep that(1) t] k [OF that(1) t] that(2) by (simp add: idx_def)
  qed
  from concat_single [OF i this] Q64 show ?thesis by simp
qed

lemma enq_lot_untimed:
  assumes "lot_wf l" and "\<not> enqueued l t" and "enq_lot t k l = Some l'"
  shows "parked_with_timeout (threads l' u) = (if u = t then False else parked_with_timeout (threads l u))"
proof -
  obtain l2 where l2: "enq_lot t k l = Some l2"
      "td_data (threads l2 t) = \<lparr>parker = prepare_park (parker (threads l t)), key = k,
        next_in_queue = None, unpark_token = unpark_token (threads l t), park_token = DEFAULT_PARK_TOKEN,
        parked_with_timeout = False\<rparr>"
      "\<forall>u. u \<noteq> t \<longrightarrow> td_data (threads l2 u) = td_data (threads l u)"
    using park_begin_append [where validate = "\<lambda>s. (s, True)" and s = "()", OF assms(1,2) refl,
        of k DEFAULT_PARK_TOKEN False]
    by (auto simp: enq_lot_def)
  have "l' = l2" using l2(1) assms(3) by simp
  moreover have "\<not> parked_with_timeout (threads l2 t)"
    using arg_cong [OF l2(2), of parked_with_timeout] by (simp add: td_data_def)
  moreover have "parked_with_timeout (threads l2 u) = parked_with_timeout (threads l u)" if "u \<noteq> t" for u
  proof -
    have "td_data (threads l2 u) = td_data (threads l u)" using l2(3) that by blast
    from arg_cong [OF this, of parked_with_timeout] show ?thesis by (simp add: td_data_def)
  qed
  ultimately show ?thesis by simp
qed

lemma sample_lot_untimed: "\<not> parked_with_timeout (threads sample_lot 2)" "\<not> parked_with_timeout (threads sample_lot 3)"
proof -
  obtain l0 where l0: "create_hashtable 0 empty_lot = Some l0" "lot_wf l0" "\<And>k. waiting l0 k = []"
    using create_hashtable_wf [of empty_lot 0] by (auto simp: empty_lot_def)
  have w0: "waiting l0 = (\<lambda>_. [])" using l0(3) by (simp add: fun_eq_iff)
  obtain l1 where l1: "enq_lot 2 64 l0 = Some l1" "lot_wf l1" "waiting l1 = (\<lambda>_. [])(64 := [2])"
    using lot.enq_law [OF l0(2), of 2 64] by (auto simp: w0)
  obtain l2 where l2: "enq_lot 3 64 l1 = Some l2"
    using lot.enq_law [OF l1(2), of 3 64] by (auto simp: l1(3))
  have s: "sample_lot = l2" using l0(1) l1(1) l2(1) by (simp add: sample_lot_def)
  have n: "\<not> enqueued l1 3" "\<not> enqueued l0 2" by (auto simp: enqueued_def l1(3) l0(3))
  show "\<not> parked_with_timeout (threads sample_lot 2)" "\<not> parked_with_timeout (threads sample_lot 3)"
    unfolding s using enq_lot_untimed [OF l1(2) n(1) l2(1)] enq_lot_untimed [OF l0(2) n(2) l1(1)] by auto
qed

definition holds_64 :: "tid \<Rightarrow> tid \<Rightarrow> DeadlockData" where
  "holds_64 u t = (DeadlockData_new t)\<lparr>resources := if t = u then [64] else []\<rparr>"

lemma sample_wait_graph:
  "wait_graph sample_lot dl = Some (thread_edges (threads sample_lot) dl 2 @ thread_edges (threads sample_lot) dl 3)"
proof -
  obtain tb Q where rep: "lot_rep sample_lot tb Q" using sample_lot_wf by (rule lot_wf_rep)
  have "lst (threads sample_lot) (queue_head (entries tb ! i)) (Q i)" if "i < length (entries tb)" for i
    using lot_repD(3) [OF rep that] by (simp add: bucket_queue_def)
  then show ?thesis
    using wait_graph_table_queues [of "entries tb" "threads sample_lot" Q dl "[]"]
    by (simp add: wait_graph_def lot_repD(1) [OF rep] sample_lot_queues [OF rep])
qed

lemma sample_edges:
  "thread_edges (threads sample_lot) (holds_64 u) 2 =
     (if u = 2 then [(Resource 64, Thread 2)] else []) @ [(Thread 2, Resource 64)]"
  "thread_edges (threads sample_lot) (holds_64 u) 3 =
     (if u = 3 then [(Resource 64, Thread 3)] else []) @ [(Thread 3, Resource 64)]"
proof -
  have "key (threads sample_lot 2) = 64" "key (threads sample_lot 3) = 64"
    using waiting_key [OF sample_lot_wf, of _ 64] by (simp_all add: sample_lot_waiting)
  then show "thread_edges (threads sample_lot) (holds_64 u) 2 =
     (if u = 2 then [(Resource 64, Thread 2)] else []) @ [(Thread 2, Resource 64)]"
  "thread_edges (threads sample_lot) (holds_64 u) 3 =
     (if u = 3 then [(Resource 64, Thread 3)] else []) @ [(Thread 3, Resource 64)]"
    by (auto simp: thread_edges_def sample_lot_untimed holds_64_def DeadlockData_new_def)
qed

definition self_deadlock_events :: "DfsEvent list" where
  "self_deadlock_events = [Discover (Thread 2), TreeEdge (Thread 2) (Resource 64), Discover (Resource 64),
     BackEdge (Resource 64) (Thread 2), Finish (Resource 64), Finish (Thread 2), Discover (Thread 3),
     CrossForwardEdge (Thread 3) (Resource 64), Finish (Thread 3)]"

text \<open>
  A deadlock that is not reported: thread 3 waits for a resource it holds itself, and thread 2, which waits for the
  same resource and comes first, is not part of the cycle. The search that starts from thread 2 reaches the
  cycle at the resource, the back edge ends at the resource and not at a thread, and the closure ignores it. When the
  search comes to thread 3 it is already finished.
\<close>

theorem deadlock_missed_behind_bystander:
  "\<exists>g events. wait_graph sample_lot (holds_64 3) = Some g
    \<and> dfs_ok g (filter is_thread (graph_nodes g)) [] [] events
    \<and> graph_cycles (\<lambda>cs. cs) (\<lambda>_ _. events) g = Some []
    \<and> wait_cycle (waits_for (threads sample_lot) (holds_64 3) (sleeping sample_lot)) [3]"
proof -
  let ?g = "[(Thread 2, Resource 64), (Resource 64, Thread 3), (Thread 3, Resource 64)]"
  let ?e = "[Discover (Thread 2), TreeEdge (Thread 2) (Resource 64), Discover (Resource 64),
     TreeEdge (Resource 64) (Thread 3), Discover (Thread 3), BackEdge (Thread 3) (Resource 64), Finish (Thread 3),
     Finish (Resource 64), Finish (Thread 2)]"
  have g: "wait_graph sample_lot (holds_64 3) = Some ?g" by (simp add: sample_wait_graph sample_edges)
  have st: "filter is_thread (graph_nodes ?g) = [Thread 2, Thread 3]" by (simp add: graph_nodes_def)
  have ok: "dfs_ok ?g (filter is_thread (graph_nodes ?g)) [] [] ?e" unfolding st by simp
  have c: "graph_cycles (\<lambda>cs. cs) (\<lambda>_ _. ?e) ?g = Some []" by (simp add: graph_cycles_def)
  have "key (threads sample_lot 3) = 64"
    using waiting_key [OF sample_lot_wf, of _ 64] by (simp add: sample_lot_waiting)
  moreover have "enqueued sample_lot 3" unfolding enqueued_def by (rule exI [of _ 64]) (simp add: sample_lot_waiting)
  ultimately have "wait_cycle (waits_for (threads sample_lot) (holds_64 3) (sleeping sample_lot)) [3]"
    by (simp add: wait_cycle_def waits_for_def blocked_def sleeping_def holds_64_def DeadlockData_new_def sample_lot_untimed)
  then show ?thesis using g ok c by (intro exI [of _ ?g] exI [of _ ?e] conjI)
qed

end
