(* ===== verification/Deadlock_Reports.thy ===== *)
theory Deadlock_Reports
  imports Deadlock
begin

text \<open>
  What the deadlock detector of \<open>core/src/parking_lot.rs\<close> does with the cycles it has found: the slow check with
  \<open>DEADLOCK_DETECTION_LOCK\<close>, the loop that marks and wakes the threads of one cycle after the other and collects
  their reports from a channel, and the hook \<open>on_unpark\<close> in which a woken thread reports itself and
  sleeps for ever. Checkers and sleeping threads are interleaved step by step.
\<close>

section \<open>Channels\<close>

text \<open>
  A channel of \<open>std::sync::mpsc\<close>: the number of its senders, the messages in the order they were sent, and whether the
  receiver still exists. A message is the thread id of a \<open>DeadlockedThread\<close>; the backtrace is left out.
\<close>

record channel =
  senders :: nat
  sent :: "tid list"
  receiving :: bool

definition new_channel :: channel where
  "new_channel = \<lparr>senders = 1, sent = [], receiving = True\<rparr>"

definition clone_sender :: "nat \<Rightarrow> channel list \<Rightarrow> channel list" where
  "clone_sender n cs = cs[n := (cs ! n)\<lparr>senders := senders (cs ! n) + 1\<rparr>]"

definition drop_sender :: "nat \<Rightarrow> channel list \<Rightarrow> channel list" where
  "drop_sender n cs = cs[n := (cs ! n)\<lparr>senders := senders (cs ! n) - 1\<rparr>]"

definition send :: "nat \<Rightarrow> tid \<Rightarrow> channel list \<Rightarrow> channel list" where
  "send n m cs = cs[n := (cs ! n)\<lparr>sent := sent (cs ! n) @ [m]\<rparr>]"

definition drop_receiver :: "nat \<Rightarrow> channel list \<Rightarrow> channel list" where
  "drop_receiver n cs = cs[n := (cs ! n)\<lparr>receiving := False\<rparr>]"

section \<open>A sleeping thread\<close>

text \<open>
  The points of a thread that called \<open>park\<close> without a timeout: asleep in \<open>ThreadParker::park\<close>, in the hook, at the
  statements of the hook, asleep for ever, back from \<open>park\<close>, or in a panic (an \<open>unwrap\<close> or \<open>unreachable!\<close>).
\<close>

datatype parked_thread = InPark | Hook | Sending nat | Dropping nat | Preparing | ForEver | Returned | Panicked

definition on_unpark :: "DeadlockData \<Rightarrow> DeadlockData \<times> parked_thread" where
  "on_unpark d = (if deadlocked d
     then (case backtrace_sender d of
         None \<Rightarrow> (d, Panicked)
       | Some sender \<Rightarrow> (d\<lparr>backtrace_sender := None\<rparr>, Sending sender))
     else (d, Returned))"

text \<open>The hook as the rest of the crate calls it, which does nothing without the feature.\<close>

definition deadlock_on_unpark :: "bool \<Rightarrow> DeadlockData \<Rightarrow> DeadlockData \<times> parked_thread" where
  "deadlock_on_unpark deadlock_detection d = (if deadlock_detection then on_unpark d else (d, Returned))"

text \<open>
  One step. \<open>ThreadParker::park\<close> returns once the parker is unlocked; \<open>None\<close> means that the thread sleeps or is not
  in \<open>park\<close> any more. A send fails if the receiver is gone.
\<close>

fun sleeper_step :: "parked_thread \<Rightarrow> DeadlockData \<Rightarrow> ThreadParker \<Rightarrow> channel list \<Rightarrow>
    (parked_thread \<times> DeadlockData \<times> ThreadParker \<times> channel list) option" where
  "sleeper_step InPark d p cs = (if timed_out p then None else Some (Hook, d, p, cs))"
| "sleeper_step Hook d p cs = (let (d, s) = deadlock_on_unpark True d in Some (s, d, p, cs))"
| "sleeper_step (Sending n) d p cs = Some (if receiving (cs ! n)
     then (Dropping n, d, p, send n (thread_id d) cs) else (Panicked, d, p, drop_sender n cs))"
| "sleeper_step (Dropping n) d p cs = Some (Preparing, d, p, drop_sender n cs)"
| "sleeper_step Preparing d p cs = Some (ForEver, d, prepare_park p, cs)"
| "sleeper_step ForEver d p cs = (if timed_out p then None else Some (Panicked, d, p, cs))"
| "sleeper_step Returned d p cs = None"
| "sleeper_step Panicked d p cs = None"

section \<open>A checker\<close>

text \<open>
  The points of a call of \<open>check_deadlock\<close>: the fast check, \<open>DEADLOCK_DETECTION_LOCK\<close>, the reading of the queues with
  all buckets locked (the loop that locks them is in \<open>Bucket_Locks\<close>), the search, the loop over the cycles and
  in it the loop over the threads of one cycle, the blocking \<open>receiver.iter().collect()\<close>, the end.
\<close>

datatype checker =
    Idle
  | FastCheck
  | TakeLock
  | ReadQueues
  | Search wait_graph
  | NextCycle "tid list list" "tid list list"
  | MarkNext nat "tid list" "tid list list" "tid list list"
  | UnparkHandle nat "tid list" "tid list list" "tid list list"
  | CollectReports nat "tid list list" "tid list list"
  | ReleaseLock "tid list list"
  | Finished "tid list list"
  | CheckerPanicked

record report_world =
  lot :: ParkingLot
  data :: "tid \<Rightarrow> DeadlockData"
  channels :: "channel list"
  sleepers :: "tid \<Rightarrow> parked_thread"
  checkers :: "tid \<Rightarrow> checker"
  detection_lock :: "tid option"

text \<open>What the check gets from elsewhere: \<open>petgraph\<close>, the addresses of the threads, the order of a \<open>HashSet\<close>.\<close>

record graph_env =
  is_cyclic_directed :: "(usize \<times> usize) list \<Rightarrow> bool"
  address :: "tid \<Rightarrow> usize"
  depth_first_search :: search
  hash_order :: "nat \<Rightarrow> tid list list \<Rightarrow> tid list list"

text \<open>
  One round of the loop over a cycle up to the unlocking of the bucket: the thread is marked and given a sender of the
  channel, and its parker is unlocked. A sender that it still had is dropped by the assignment.
\<close>

definition mark_deadlocked :: "nat \<Rightarrow> tid \<Rightarrow> report_world \<Rightarrow> report_world" where
  "mark_deadlocked n t w = (let d = data w t; h = threads (lot w); cs = clone_sender n (channels w) in
     w\<lparr>data := (data w)(t := d\<lparr>deadlocked := True, backtrace_sender := Some n\<rparr>),
       channels := (case backtrace_sender d of None \<Rightarrow> cs | Some m \<Rightarrow> drop_sender m cs),
       lot := (lot w)\<lparr>threads := h(t := (h t)\<lparr>parker := unpark_lock (parker (h t))\<rparr>)\<rparr>\<rparr>)"

definition at_check :: "tid \<Rightarrow> checker \<Rightarrow> report_world \<Rightarrow> report_world" where
  "at_check a p w = w\<lparr>checkers := (checkers w)(a := p)\<rparr>"

text \<open>\<open>handle.unpark()\<close> wakes the thread if it sleeps in the system call and changes nothing else.\<close>

fun check_wait_graph_slow :: "graph_env \<Rightarrow> nat \<Rightarrow> tid \<Rightarrow> checker \<Rightarrow> report_world \<Rightarrow> report_world option" where
  "check_wait_graph_slow env c a TakeLock w =
     (if detection_lock w = None then Some (at_check a ReadQueues (w\<lparr>detection_lock := Some a\<rparr>)) else None)"
| "check_wait_graph_slow env c a ReadQueues w = do {
     (tb, l) \<leftarrow> get_hashtable c (lot w);
     g \<leftarrow> wait_graph_table (threads l) (data w) (entries tb) [];
     Some (at_check a (Search g) (w\<lparr>lot := l\<rparr>))
   }"
| "check_wait_graph_slow env c a (Search g) w =
     Some (at_check a (case graph_cycles (hash_order env c) (depth_first_search env) g of
         None \<Rightarrow> CheckerPanicked | Some cycles \<Rightarrow> NextCycle cycles []) w)"
| "check_wait_graph_slow env c a (NextCycle [] results) w = Some (at_check a (ReleaseLock results) w)"
| "check_wait_graph_slow env c a (NextCycle (cycle # cycles) results) w =
     Some (at_check a (MarkNext (length (channels w)) cycle cycles results) (w\<lparr>channels := channels w @ [new_channel]\<rparr>))"
| "check_wait_graph_slow env c a (MarkNext n (t # ts) cycles results) w =
     Some (at_check a (UnparkHandle n ts cycles results) (mark_deadlocked n t w))"
| "check_wait_graph_slow env c a (UnparkHandle n ts cycles results) w = Some (at_check a (MarkNext n ts cycles results) w)"
| "check_wait_graph_slow env c a (MarkNext n [] cycles results) w =
     Some (at_check a (CollectReports n cycles results) (w\<lparr>channels := drop_sender n (channels w)\<rparr>))"
| "check_wait_graph_slow env c a (CollectReports n cycles results) w =
     (if senders (channels w ! n) = 0
      then Some (at_check a (NextCycle cycles (results @ [sent (channels w ! n)])) (w\<lparr>channels := drop_receiver n (channels w)\<rparr>))
      else None)"
| "check_wait_graph_slow env c a (ReleaseLock results) w = Some (at_check a (Finished results) (w\<lparr>detection_lock := None\<rparr>))"
| "check_wait_graph_slow env c a _ w = None"

fun check_deadlock :: "graph_env \<Rightarrow> nat \<Rightarrow> tid \<Rightarrow> checker \<Rightarrow> report_world \<Rightarrow> report_world option" where
  "check_deadlock env c a Idle w = Some (at_check a FastCheck w)"
| "check_deadlock env c a FastCheck w = do {
     (cyclic, l) \<leftarrow> check_wait_graph_fast (is_cyclic_directed env) (address env) c (lot w) (data w);
     Some (at_check a (if cyclic then TakeLock else Finished []) (w\<lparr>lot := l\<rparr>))
   }"
| "check_deadlock env c a p w = check_wait_graph_slow env c a p w"

section \<open>Interleaving\<close>

text \<open>
  A step of a sleeping thread or of a checker; the number is the time. A thread that parked with a timeout is never marked, and
  whether and when its time is over does not matter to the checkers: it takes no step here.
\<close>

datatype actor = Sleeper tid | Checker tid

fun report_step :: "graph_env \<Rightarrow> actor \<times> nat \<Rightarrow> report_world \<Rightarrow> report_world option" where
  "report_step env (Sleeper t, c) w = (if parked_with_timeout (threads (lot w) t) then None
     else map_option (\<lambda>(s, d, p, cs). w\<lparr>sleepers := (sleepers w)(t := s), data := (data w)(t := d), channels := cs,
         lot := (lot w)\<lparr>threads := (threads (lot w))(t := (threads (lot w) t)\<lparr>parker := p\<rparr>)\<rparr>\<rparr>)
       (sleeper_step (sleepers w t) (data w t) (parker (threads (lot w) t)) (channels w)))"
| "report_step env (Checker a, c) w = check_deadlock env c a (checkers w a) w"

fun report_run :: "graph_env \<Rightarrow> (actor \<times> nat) list \<Rightarrow> report_world \<Rightarrow> report_world option" where
  "report_run env [] w = Some w"
| "report_run env (x # xs) w = Option.bind (report_step env x w) (report_run env xs)"

text \<open>The threads \<open>ts\<close> are in \<open>park\<close>, nobody has called the detector yet.\<close>

definition report_start :: "ParkingLot \<Rightarrow> (tid \<Rightarrow> DeadlockData) \<Rightarrow> tid list \<Rightarrow> report_world" where
  "report_start l dl ts = \<lparr>lot = l, data = dl, channels = [], sleepers = (\<lambda>t. if t \<in> set ts then InPark else Returned),
     checkers = (\<lambda>_. Idle), detection_lock = None\<rparr>"

section \<open>Two cycles without a choice\<close>

text \<open>If every thread waits for one other thread only, two cycles in normal form that share a thread are equal.\<close>

definition one_target :: "(tid \<Rightarrow> tid \<Rightarrow> bool) \<Rightarrow> bool" where
  "one_target R \<longleftrightarrow> (\<forall>t u v. R t u \<longrightarrow> R t v \<longrightarrow> u = v)"

lemma wait_cycle_next:
  assumes "wait_cycle R c" and "Suc i < length c"
  shows "R (c ! i) (c ! Suc i)"
proof -
  have "R (c ! i) (c ! (Suc i mod length c))"
    using assms(1) Suc_lessD [OF assms(2)] unfolding wait_cycle_def by blast
  then show ?thesis using assms(2) by simp
qed

lemma wait_cycle_back:
  assumes "wait_cycle R c"
  shows "R (c ! (length c - 1)) (c ! 0)"
proof -
  have "0 < length c" using assms by (simp add: wait_cycle_def)
  then show ?thesis using assms [unfolded wait_cycle_def, THEN conjunct2, rule_format, of "length c - 1"] by simp
qed

lemma same_start_prefix:
  assumes "wait_cycle R c" "wait_cycle R c'" and "one_target R" and "c ! 0 = c' ! 0"
  shows "i < length c \<Longrightarrow> i < length c' \<Longrightarrow> c ! i = c' ! i"
proof (induction i)
  case (Suc i)
  then have "R (c ! i) (c ! Suc i)" "R (c ! i) (c' ! Suc i)"
    using wait_cycle_next [OF assms(1) Suc.prems(1)] wait_cycle_next [OF assms(2) Suc.prems(2)] by simp_all
  then show ?case using assms(3) unfolding one_target_def by blast
qed (use assms(4) in simp)

lemma same_start_length:
  assumes c: "wait_cycle R c" "wait_cycle R c'" and f: "one_target R" and d: "distinct c'" and s: "c ! 0 = c' ! 0"
  shows "length c' \<le> length c"
proof (rule ccontr)
  assume l: "\<not> length c' \<le> length c"
  have ne: "0 < length c" using c(1) by (simp add: wait_cycle_def)
  define i where "i = length c - 1"
  have i: "i < length c" "Suc i = length c" "Suc i < length c'" using ne l by (simp_all add: i_def)
  have "c ! i = c' ! i" using same_start_prefix [OF c f s, of i] i by simp
  then have "R (c ! i) (c' ! Suc i)" using wait_cycle_next [OF c(2) i(3)] by simp
  moreover have "R (c ! i) (c' ! 0)" using wait_cycle_back [OF c(1)] s by (simp add: i_def)
  ultimately have "c' ! Suc i = c' ! 0" using f unfolding one_target_def by blast
  moreover have "0 < length c'" using i(3) by linarith
  ultimately show False using d i(3) nth_eq_iff_index_eq [of c' "Suc i" 0] by simp
qed

lemma cycles_equal_or_disjoint:
  assumes c: "wait_cycle R c" "distinct c" "normal c" and c': "wait_cycle R c'" "distinct c'" "normal c'"
    and f: "one_target R" and t: "t \<in> set c" "t \<in> set c'"
  shows "c = c'"
proof -
  obtain i j where i: "i < length c" "c ! i = t" and j: "j < length c'" "c' ! j = t" using t by (meson in_set_conv_nth)
  then have p: "0 < length c" "0 < length c'" by linarith+
  then have s: "rotate i c ! 0 = rotate j c' ! 0" using i j by (simp add: nth_rotate)
  have w: "wait_cycle R (rotate i c)" "wait_cycle R (rotate j c')" using c(1) c'(1) by (simp_all add: wait_cycle_rotate)
  have l: "length c' \<le> length c" "length c \<le> length c'"
    using same_start_length [OF w f _ s] same_start_length [OF w(2,1) f _ s [symmetric]] c(2) c'(2) by simp_all
  have "rotate i c = rotate j c'"
    by (rule nth_equalityI) (use l same_start_prefix [OF w f s] in auto)
  then show ?thesis
    using normalize_cycle_canonical [OF c(2), of i] normalize_cycle_canonical [OF c'(2), of j] c(3) c'(3) by (simp add: normal_def)
qed

lemma found_disjoint:
  assumes "found_ok g cycles" and "one_target (graph_waits g)"
  shows "distinct (concat cycles)"
proof -
  have d: "distinct cycles" "\<And>c. c \<in> set cycles \<Longrightarrow> wait_cycle (graph_waits g) c \<and> distinct c \<and> normal c"
    using assms(1) by (auto simp: found_ok_def)
  have "set c \<inter> set c' = {}" if "c \<in> set cycles" "c' \<in> set cycles" "c \<noteq> c'" for c c'
    using cycles_equal_or_disjoint [of "graph_waits g" c c'] d(2) [OF that(1)] d(2) [OF that(2)] assms(2) that(3) by blast
  then show ?thesis using d by (auto simp: distinct_concat_iff intro: distinct_removeAll)
qed

section \<open>The invariant\<close>

text \<open>
  What the proofs remember beside the world: the channel for which a thread was marked, the cycle of a channel, and
  the channels a checker has collected.
\<close>

record history =
  mark :: "tid \<Rightarrow> nat option"
  cycle_of :: "nat \<Rightarrow> tid list"
  collected :: "tid \<Rightarrow> nat list"

definition all_collected :: "history \<Rightarrow> nat set" where
  "all_collected G = (\<Union>a. set (collected G a))"

text \<open>The threads the detector looks at, and who waits for whom, in the world \<open>w0\<close> before the first check.\<close>

definition stuck :: "report_world \<Rightarrow> tid \<Rightarrow> bool" where
  "stuck w0 = blocked (threads (lot w0)) (data w0) (sleeping (lot w0))"

definition waits :: "report_world \<Rightarrow> tid \<Rightarrow> tid \<Rightarrow> bool" where
  "waits w0 = waits_for (threads (lot w0)) (data w0) (sleeping (lot w0))"

text \<open>The marked threads with a sender, and those that have sent their report.\<close>

definition holding :: "parked_thread \<Rightarrow> bool" where
  "holding s \<longleftrightarrow> (case s of InPark \<Rightarrow> True | Hook \<Rightarrow> True | Sending _ \<Rightarrow> True | Dropping _ \<Rightarrow> True | _ \<Rightarrow> False)"

definition told :: "parked_thread \<Rightarrow> bool" where
  "told s \<longleftrightarrow> (case s of Dropping _ \<Rightarrow> True | Preparing \<Rightarrow> True | ForEver \<Rightarrow> True | _ \<Rightarrow> False)"

definition with_sender :: "history \<Rightarrow> (tid \<Rightarrow> parked_thread) \<Rightarrow> nat \<Rightarrow> tid set" where
  "with_sender G sl n = {t. mark G t = Some n \<and> holding (sl t)}"

definition reported :: "history \<Rightarrow> (tid \<Rightarrow> parked_thread) \<Rightarrow> nat \<Rightarrow> tid set" where
  "reported G sl n = {t. mark G t = Some n \<and> told (sl t)}"

definition marked_ok :: "nat \<Rightarrow> parked_thread \<Rightarrow> DeadlockData \<Rightarrow> ThreadParker \<Rightarrow> bool" where
  "marked_ok n s d p \<longleftrightarrow> s \<in> {InPark, Hook, Sending n, Dropping n, Preparing, ForEver} \<and> deadlocked d
     \<and> backtrace_sender d = (if s = InPark \<or> s = Hook then Some n else None) \<and> (timed_out p \<longleftrightarrow> s = ForEver)"

definition frame_inv :: "report_world \<Rightarrow> report_world \<Rightarrow> bool" where
  "frame_inv w0 w \<longleftrightarrow> (\<exists>tb Q. lot_rep (lot w0) tb Q \<and> lot_rep (lot w) tb Q)
     \<and> (\<forall>t. key (threads (lot w) t) = key (threads (lot w0) t)
         \<and> parked_with_timeout (threads (lot w) t) = parked_with_timeout (threads (lot w0) t)
         \<and> resources (data w t) = resources (data w0 t) \<and> thread_id (data w t) = thread_id (data w0 t))"

definition thread_inv :: "report_world \<Rightarrow> history \<Rightarrow> report_world \<Rightarrow> tid \<Rightarrow> bool" where
  "thread_inv w0 G w t \<longleftrightarrow> (case mark G t of
     None \<Rightarrow> sleepers w t = sleepers w0 t \<and> parker (threads (lot w) t) = parker (threads (lot w0) t)
       \<and> \<not> deadlocked (data w t) \<and> backtrace_sender (data w t) = None
   | Some n \<Rightarrow> n < length (channels w) \<and> t \<in> set (cycle_of G n) \<and> stuck w0 t
       \<and> marked_ok n (sleepers w t) (data w t) (parker (threads (lot w) t)))"

fun own :: "checker \<Rightarrow> nat option" where
  "own (MarkNext n ts cs rs) = Some n"
| "own (UnparkHandle n ts cs rs) = Some n"
| "own _ = None"

definition owned :: "report_world \<Rightarrow> nat \<Rightarrow> bool" where
  "owned w n \<longleftrightarrow> (\<exists>a. own (checkers w a) = Some n)"

definition channel_inv :: "report_world \<Rightarrow> history \<Rightarrow> report_world \<Rightarrow> nat \<Rightarrow> bool" where
  "channel_inv w0 G w n \<longleftrightarrow> distinct (cycle_of G n) \<and> wait_cycle (waits w0) (cycle_of G n)
     \<and> (receiving (channels w ! n) \<longleftrightarrow> n \<notin> all_collected G)
     \<and> senders (channels w ! n) = of_bool (owned w n) + card (with_sender G (sleepers w) n)
     \<and> mset (sent (channels w ! n)) = image_mset (\<lambda>t. thread_id (data w0 t)) (mset_set (reported G (sleepers w) n))
     \<and> (n \<in> all_collected G \<longrightarrow> with_sender G (sleepers w) n = {} \<and> \<not> owned w n \<and> (\<forall>t\<in>set (cycle_of G n). mark G t = Some n))"

definition unmarked :: "report_world \<Rightarrow> history \<Rightarrow> tid list \<Rightarrow> bool" where
  "unmarked w0 G ts \<longleftrightarrow> distinct ts \<and> (\<forall>t\<in>set ts. mark G t = None \<and> stuck w0 t)"

definition pending :: "report_world \<Rightarrow> history \<Rightarrow> tid list \<Rightarrow> tid list list \<Rightarrow> bool" where
  "pending w0 G ts cs \<longleftrightarrow> unmarked w0 G (ts @ concat cs) \<and> (\<forall>c\<in>set cs. wait_cycle (waits w0) c)"

definition graph_inv :: "graph_env \<Rightarrow> report_world \<Rightarrow> history \<Rightarrow> wait_graph \<Rightarrow> bool" where
  "graph_inv env w0 G g \<longleftrightarrow> (\<forall>a b. (a, b) \<in> set g \<longleftrightarrow> (\<exists>t. stuck w0 t \<and> mark G t = None \<and>
       (a = Thread t \<and> b = Resource (key (threads (lot w0) t)) \<or> (\<exists>r\<in>set (resources (data w0 t)). a = Resource r \<and> b = Thread t))))
     \<and> dfs_ok g (filter is_thread (graph_nodes g)) [] [] (depth_first_search env g (filter is_thread (graph_nodes g)))"

definition marking :: "history \<Rightarrow> report_world \<Rightarrow> nat \<Rightarrow> tid list \<Rightarrow> bool" where
  "marking G w n ts \<longleftrightarrow> n < length (channels w) \<and> n \<notin> all_collected G
     \<and> (\<exists>ms. cycle_of G n = ms @ ts \<and> (\<forall>t\<in>set ms. mark G t = Some n))"

definition results_of :: "history \<Rightarrow> report_world \<Rightarrow> tid \<Rightarrow> tid list list" where
  "results_of G w a = map (\<lambda>n. sent (channels w ! n)) (collected G a)"

fun point_inv :: "graph_env \<Rightarrow> report_world \<Rightarrow> history \<Rightarrow> report_world \<Rightarrow> tid \<Rightarrow> checker \<Rightarrow> bool" where
  "point_inv env w0 G w a (Search g) \<longleftrightarrow> collected G a = [] \<and> graph_inv env w0 G g"
| "point_inv env w0 G w a (NextCycle cs rs) \<longleftrightarrow> rs = results_of G w a \<and> pending w0 G [] cs"
| "point_inv env w0 G w a (MarkNext n ts cs rs) \<longleftrightarrow> rs = results_of G w a \<and> pending w0 G ts cs \<and> marking G w n ts"
| "point_inv env w0 G w a (UnparkHandle n ts cs rs) \<longleftrightarrow> rs = results_of G w a \<and> pending w0 G ts cs \<and> marking G w n ts"
| "point_inv env w0 G w a (CollectReports n cs rs) \<longleftrightarrow> rs = results_of G w a \<and> pending w0 G [] cs \<and> marking G w n []"
| "point_inv env w0 G w a (ReleaseLock rs) \<longleftrightarrow> rs = results_of G w a"
| "point_inv env w0 G w a (Finished rs) \<longleftrightarrow> rs = results_of G w a"
| "point_inv env w0 G w a CheckerPanicked \<longleftrightarrow> False"
| "point_inv env w0 G w a _ \<longleftrightarrow> collected G a = []"

fun in_lock :: "checker \<Rightarrow> bool" where
  "in_lock Idle = False"
| "in_lock FastCheck = False"
| "in_lock TakeLock = False"
| "in_lock (Finished rs) = False"
| "in_lock CheckerPanicked = False"
| "in_lock _ = True"

definition history_inv :: "history \<Rightarrow> report_world \<Rightarrow> bool" where
  "history_inv G w \<longleftrightarrow> (\<forall>a. distinct (collected G a) \<and> (\<forall>n\<in>set (collected G a). n < length (channels w)))
     \<and> (\<forall>a b. a \<noteq> b \<longrightarrow> set (collected G a) \<inter> set (collected G b) = {})"

definition report_inv :: "graph_env \<Rightarrow> report_world \<Rightarrow> history \<Rightarrow> report_world \<Rightarrow> bool" where
  "report_inv env w0 G w \<longleftrightarrow> frame_inv w0 w \<and> (\<forall>t. thread_inv w0 G w t) \<and> (\<forall>n<length (channels w). channel_inv w0 G w n)
     \<and> (\<forall>a. point_inv env w0 G w a (checkers w a)) \<and> (\<forall>a. in_lock (checkers w a) \<longleftrightarrow> detection_lock w = Some a)
     \<and> history_inv G w"

lemma report_invD:
  assumes "report_inv env w0 G w"
  shows "frame_inv w0 w" "thread_inv w0 G w t" "n < length (channels w) \<Longrightarrow> channel_inv w0 G w n"
    "point_inv env w0 G w a (checkers w a)" "in_lock (checkers w a) \<longleftrightarrow> detection_lock w = Some a" "history_inv G w"
  using assms by (simp_all add: report_inv_def)

lemma report_invI:
  assumes "frame_inv w0 w" "\<And>t. thread_inv w0 G w t" "\<And>n. n < length (channels w) \<Longrightarrow> channel_inv w0 G w n"
    "\<And>a. point_inv env w0 G w a (checkers w a)" "\<And>a. in_lock (checkers w a) \<longleftrightarrow> detection_lock w = Some a" "history_inv G w"
  shows "report_inv env w0 G w"
  using assms by (simp add: report_inv_def)

lemma own_in_lock: "own p = Some n \<Longrightarrow> in_lock p"
  by (cases p) simp_all

lemma own_alone:
  assumes "report_inv env w0 G w" and "detection_lock w = Some a" and "own (checkers w b) = Some n"
  shows "b = a"
  using report_invD(5) [OF assms(1), of b] own_in_lock [OF assms(3)] assms(2) by simp

section \<open>Steps of a sleeping thread\<close>

lemma lot_rep_parker:
  assumes "lot_rep l tb Q"
  shows "lot_rep (l\<lparr>threads := (threads l)(t := (threads l t)\<lparr>parker := p\<rparr>)\<rparr>) tb Q"
proof -
  let ?h = "(threads l)(t := (threads l t)\<lparr>parker := p\<rparr>)"
  have "next_in_queue (?h u) = next_in_queue (threads l u)" "key (?h u) = key (threads l u)" for u by simp_all
  then show ?thesis
    using assms bucket_queue_cong [of _ ?h "threads l"] by (simp add: lot_rep_def)
qed

lemma frame_inv_thread:
  assumes "frame_inv w0 w" and "resources d = resources (data w t)" "thread_id d = thread_id (data w t)"
    and "lot w' = (lot w)\<lparr>threads := (threads (lot w))(t := (threads (lot w) t)\<lparr>parker := p\<rparr>)\<rparr>"
    and "data w' = (data w)(t := d)"
  shows "frame_inv w0 w'"
  using assms lot_rep_parker [of "lot w" _ _ t p] unfolding frame_inv_def by (auto simp: assms(4,5))

lemma with_sender_upd:
  assumes "mark G t = Some n"
  shows "with_sender G (sl(t := s)) m = (if m = n then (if holding s then insert t (with_sender G sl n) else with_sender G sl n - {t})
    else with_sender G sl m)"
  using assms by (auto simp: with_sender_def)

lemma reported_upd:
  assumes "mark G t = Some n"
  shows "reported G (sl(t := s)) m = (if m = n then (if told s then insert t (reported G sl n) else reported G sl n - {t})
    else reported G sl m)"
  using assms by (auto simp: reported_def)

lemma marked_finite:
  assumes "report_inv env w0 G w"
  shows "finite {t. mark G t = Some n}"
proof -
  have "t \<in> set (cycle_of G n)" if "mark G t = Some n" for t
    using report_invD(2) [OF assms, of t] that by (simp add: thread_inv_def)
  then have "{t. mark G t = Some n} \<subseteq> set (cycle_of G n)" by blast
  then show ?thesis by (rule finite_subset) simp
qed

lemma with_sender_finite: "report_inv env w0 G w \<Longrightarrow> finite (with_sender G sl n)"
  by (rule finite_subset [OF _ marked_finite [of env w0 G w n]]) (auto simp: with_sender_def)

lemma reported_finite: "report_inv env w0 G w \<Longrightarrow> finite (reported G sl n)"
  by (rule finite_subset [OF _ marked_finite [of env w0 G w n]]) (auto simp: reported_def)

lemma results_of_cong:
  "(\<And>n. n \<in> set (collected G a) \<Longrightarrow> sent (channels w' ! n) = sent (channels w ! n)) \<Longrightarrow> results_of G w' a = results_of G w a"
  by (simp add: results_of_def)

lemma point_inv_cong:
  assumes "results_of G w' a = results_of G w a" and "length (channels w') = length (channels w)"
  shows "point_inv env w0 G w' a p = point_inv env w0 G w a p"
  by (cases p) (simp_all add: assms marking_def)

lemma collected_all: "n \<in> set (collected G a) \<Longrightarrow> n \<in> all_collected G"
  by (auto simp: all_collected_def)

lemma sleeper_update_inv:
  assumes inv: "report_inv env w0 G w" and t: "mark G t = Some n"
    and w': "w' = w\<lparr>sleepers := (sleepers w)(t := s'), data := (data w)(t := d), channels := (channels w)[n := ch'],
      lot := (lot w)\<lparr>threads := (threads (lot w))(t := (threads (lot w) t)\<lparr>parker := p\<rparr>)\<rparr>\<rparr>"
    and d: "resources d = resources (data w t)" "thread_id d = thread_id (data w t)" and ok: "marked_ok n s' d p"
    and s: "s = sleepers w t" and ch: "ch = channels w ! n" and r: "receiving ch' = receiving ch"
    and cnt: "senders ch' + of_bool (holding s) = senders ch + of_bool (holding s')" and hold: "holding s' \<Longrightarrow> holding s"
    and tl: "told s \<Longrightarrow> told s'" "told s' \<Longrightarrow> \<not> told s \<Longrightarrow> holding s"
    and sent: "sent ch' = sent ch @ (if told s' \<and> \<not> told s then [thread_id d] else [])"
  shows "report_inv env w0 G w'"
proof (rule report_invI)
  note th = report_invD(2) [OF inv, of t, unfolded thread_inv_def t, simplified]
  have n: "n < length (channels w)" using th by simp
  note c = report_invD(3) [OF inv n, unfolded channel_inv_def]
  have id: "thread_id d = thread_id (data w0 t)" using report_invD(1) [OF inv] d(2) by (simp add: frame_inv_def)
  have nc: "n \<notin> all_collected G" if "holding s" using c that t by (auto simp: with_sender_def s)
  have res: "results_of G w' a = results_of G w a" for a
  proof (rule results_of_cong)
    fix m assume m: "m \<in> set (collected G a)"
    show "sent (channels w' ! m) = sent (channels w ! m)"
    proof (cases "m = n")
      case True
      then have "\<not> holding s" using nc collected_all [OF m] by blast
      then show ?thesis using True n sent tl by (auto simp: w' ch)
    qed (simp add: w')
  qed
  show "frame_inv w0 w'" by (rule frame_inv_thread [OF report_invD(1) [OF inv] d, where p = p]) (simp_all add: w')
  show "thread_inv w0 G w' u" for u
    using report_invD(2) [OF inv, of u] th ok t by (cases "u = t") (auto simp: thread_inv_def w' split: option.splits)
  show "in_lock (checkers w' a) \<longleftrightarrow> detection_lock w' = Some a" for a using report_invD(5) [OF inv] by (simp add: w')
  show "history_inv G w'" using report_invD(6) [OF inv] by (simp add: history_inv_def w')
  show "point_inv env w0 G w' a (checkers w' a)" for a
    using report_invD(4) [OF inv, of a] point_inv_cong [OF res [of a]] by (simp add: w')
  have ow: "owned w' m = owned w m" for m by (simp add: owned_def w')
  have sl: "sleepers w' = (sleepers w)(t := s')" by (simp add: w')
  show "channel_inv w0 G w' m" if "m < length (channels w')" for m
  proof (cases "m = n")
    case False
    then show ?thesis using report_invD(3) [OF inv, of m] that t
      by (simp add: channel_inv_def ow sl with_sender_upd reported_upd) (auto simp: w')
  next
    case True
    have f: "finite (with_sender G (sleepers w) n)" "finite (reported G (sleepers w) n)"
      using with_sender_finite [OF inv] reported_finite [OF inv] by blast+
    have ti: "t \<in> with_sender G (sleepers w) n \<longleftrightarrow> holding s" "t \<in> reported G (sleepers w) n \<longleftrightarrow> told s"
      using t by (simp_all add: with_sender_def reported_def s)
    have 1: "card (with_sender G (sleepers w') n) + of_bool (holding s) = card (with_sender G (sleepers w) n) + of_bool (holding s')"
      using f(1) hold ti(1) card_Suc_Diff1 [of "with_sender G (sleepers w) n" t] unfolding sl with_sender_upd [OF t]
      by (auto simp: insert_absorb)
    have 2: "mset_set (reported G (sleepers w') n) = mset_set (reported G (sleepers w) n) + (if told s' \<and> \<not> told s then {#t#} else {#})"
      using f(2) ti(2) tl(1) unfolding sl reported_upd [OF t] by (auto simp: insert_absorb)
    have 3: "with_sender G (sleepers w') n = {}" if "n \<in> all_collected G"
      using that nc hold c ti(1) unfolding sl with_sender_upd [OF t] by auto
    have ch': "channels w' ! n = ch'" using n by (simp add: w')
    show ?thesis
      unfolding True channel_inv_def ch' ow using c cnt r 1 2 3 sent id by (auto simp: ch [symmetric])
  qed
qed

text \<open>A thread that was not marked does not move.\<close>

definition ready :: "report_world \<Rightarrow> bool" where
  "ready w0 \<longleftrightarrow> (\<forall>t. (sleepers w0 t = InPark \<and> (parked_with_timeout (threads (lot w0) t) \<or> timed_out (parker (threads (lot w0) t))))
     \<or> sleepers w0 t = Returned)"

lemma sleeper_step_inv:
  assumes inv: "report_inv env w0 G w" and rd: "ready w0" and s: "report_step env (Sleeper t, c) w = Some w'"
  shows "report_inv env w0 G w' \<and> (\<exists>n. mark G t = Some n)"
proof -
  let ?p = "parker (threads (lot w) t)"
  have tm: "parked_with_timeout (threads (lot w) t) = parked_with_timeout (threads (lot w0) t)"
    using report_invD(1) [OF inv] by (simp add: frame_inv_def)
  obtain s' d p cs where st: "sleeper_step (sleepers w t) (data w t) ?p (channels w) = Some (s', d, p, cs)"
    and w': "w' = w\<lparr>sleepers := (sleepers w)(t := s'), data := (data w)(t := d), channels := cs,
      lot := (lot w)\<lparr>threads := (threads (lot w))(t := (threads (lot w) t)\<lparr>parker := p\<rparr>)\<rparr>\<rparr>"
    and nt: "\<not> parked_with_timeout (threads (lot w) t)"
    using s by (auto split: if_splits)
  show ?thesis
  proof (cases "mark G t")
    case None
    then have "sleepers w t = sleepers w0 t" "?p = parker (threads (lot w0) t)"
      using report_invD(2) [OF inv, of t] by (simp_all add: thread_inv_def)
    then show ?thesis using rd [unfolded ready_def, rule_format, of t] st nt tm by auto
  next
    case (Some n)
    note th = report_invD(2) [OF inv, of t, unfolded thread_inv_def Some, simplified]
    note c = report_invD(3) [OF inv conjunct1 [OF th], unfolded channel_inv_def]
    have n: "n < length (channels w)" using th by simp
    have pos: "0 < senders (channels w ! n)" "receiving (channels w ! n)" if "holding (sleepers w t)"
    proof -
      have "t \<in> with_sender G (sleepers w) n" using that Some by (simp add: with_sender_def)
      then show "0 < senders (channels w ! n)" "receiving (channels w ! n)"
        using c with_sender_finite [OF inv, of "sleepers w" n] card_gt_0_iff [of "with_sender G (sleepers w) n"] by auto
    qed
    define ch' where "ch' = cs ! n"
    have "report_inv env w0 G w'"
    proof (rule sleeper_update_inv [OF inv Some, where ch' = ch' and s' = s' and d = d and p = p])
      have sl: "sleepers w t \<in> {InPark, Hook, Sending n, Dropping n, Preparing, ForEver}" using th by (simp add: marked_ok_def)
      have cs: "cs = (channels w)[n := ch']"
        using st sl n by (auto simp: ch'_def send_def drop_sender_def on_unpark_def deadlock_on_unpark_def split: if_splits option.splits)
      show "w' = w\<lparr>sleepers := (sleepers w)(t := s'), data := (data w)(t := d), channels := (channels w)[n := ch'],
        lot := (lot w)\<lparr>threads := (threads (lot w))(t := (threads (lot w) t)\<lparr>parker := p\<rparr>)\<rparr>\<rparr>"
        using w' cs by simp
      note defs = ch'_def send_def drop_sender_def on_unpark_def deadlock_on_unpark_def marked_ok_def holding_def told_def prepare_park_def timed_out_def
      show "resources d = resources (data w t)" "thread_id d = thread_id (data w t)"
        using st sl th by (auto simp: defs split: if_splits option.splits)
      show "marked_ok n s' d p" using st sl th pos by (auto simp: defs split: if_splits option.splits)
      show "receiving ch' = receiving (channels w ! n)" using st sl th n by (auto simp: defs split: if_splits option.splits)
      show "senders ch' + of_bool (holding (sleepers w t)) = senders (channels w ! n) + of_bool (holding s')"
        using st sl th n pos by (auto simp: defs split: if_splits option.splits)
      show "holding s' \<Longrightarrow> holding (sleepers w t)" using st sl th by (auto simp: defs split: if_splits option.splits)
      show "told (sleepers w t) \<Longrightarrow> told s'" using st sl th by (auto simp: defs split: if_splits option.splits)
      show "told s' \<Longrightarrow> \<not> told (sleepers w t) \<Longrightarrow> holding (sleepers w t)"
        using st sl th by (auto simp: defs split: if_splits option.splits)
      show "sent ch' = sent (channels w ! n) @ (if told s' \<and> \<not> told (sleepers w t) then [thread_id d] else [])"
        using st sl th n pos by (auto simp: defs split: if_splits option.splits)
    qed simp_all
    then show ?thesis using Some by blast
  qed
qed

section \<open>Steps of a checker\<close>

text \<open>
  What is asked of the start: a well-formed lot, the threads in its queues asleep in \<open>park\<close>, no thread marked. Of the
  environment: a search that does what \<open>petgraph\<close> documents, on every graph that the detector can build from the queues, and
  a \<open>HashSet\<close> that gives out each of its elements once.
\<close>

definition fresh :: "report_world \<Rightarrow> bool" where
  "fresh w0 \<longleftrightarrow> lot_wf (lot w0) \<and> ready w0 \<and> (\<forall>t. t \<in> sleeping (lot w0) \<longleftrightarrow> sleepers w0 t = InPark) \<and> channels w0 = []
     \<and> checkers w0 = (\<lambda>_. Idle) \<and> detection_lock w0 = None
     \<and> (\<forall>t. \<not> deadlocked (data w0 t) \<and> backtrace_sender (data w0 t) = None)"

definition search_ok :: "graph_env \<Rightarrow> report_world \<Rightarrow> bool" where
  "search_ok env w0 \<longleftrightarrow> (\<forall>c cs. mset (hash_order env c cs) = mset cs)
     \<and> (\<forall>D g. (\<forall>t. resources (D t) = resources (data w0 t)) \<longrightarrow> wait_graph (lot w0) D = Some g \<longrightarrow>
         dfs_ok g (filter is_thread (graph_nodes g)) [] [] (depth_first_search env g (filter is_thread (graph_nodes g))))"

lemma checker_update_inv:
  assumes inv: "report_inv env w0 G w" and w': "w' = w\<lparr>checkers := (checkers w)(a := p), detection_lock := lk\<rparr>"
    and o: "own p = own (checkers w a)" and p: "point_inv env w0 G w a p"
    and lk: "\<And>b. in_lock (if b = a then p else checkers w b) \<longleftrightarrow> lk = Some b"
  shows "report_inv env w0 G w'"
proof (rule report_invI)
  have ow: "owned w' n = owned w n" for n using o by (auto simp: owned_def w')
  show "frame_inv w0 w'" using report_invD(1) [OF inv] by (simp add: frame_inv_def w')
  show "thread_inv w0 G w' t" for t using report_invD(2) [OF inv, of t] by (simp add: thread_inv_def w' split: option.splits)
  show "channel_inv w0 G w' n" if "n < length (channels w')" for n
    using report_invD(3) [OF inv, of n] that by (simp add: channel_inv_def ow) (auto simp: w')
  have "results_of G w' b = results_of G w b" for b by (simp add: results_of_def w')
  then have "point_inv env w0 G w' b q = point_inv env w0 G w b q" for b q by (rule point_inv_cong) (simp add: w')
  then show "point_inv env w0 G w' b (checkers w' b)" for b using report_invD(4) [OF inv, of b] p by (simp add: w')
  show "in_lock (checkers w' b) \<longleftrightarrow> detection_lock w' = Some b" for b using lk [of b] by (simp add: w' split: if_splits)
  show "history_inv G w'" using report_invD(6) [OF inv] by (simp add: history_inv_def w')
qed

text \<open>A move inside or outside of the lock.\<close>

lemma checker_move_inv:
  assumes inv: "report_inv env w0 G w" and "own p = own (checkers w a)" and "point_inv env w0 G w a p"
    and "in_lock p = in_lock (checkers w a)"
  shows "report_inv env w0 G (at_check a p w)"
  by (rule checker_update_inv [OF inv _ assms(2,3), where lk = "detection_lock w"])
    (use report_invD(5) [OF inv] assms(4) in \<open>auto simp: at_check_def\<close>)

lemma wait_graph_same:
  assumes "lot_rep l tb Q" "lot_rep l' tb Q" and "\<And>t. key (threads l' t) = key (threads l t)"
    and "\<And>t. parked_with_timeout (threads l' t) = parked_with_timeout (threads l t)"
  shows "wait_graph_table (threads l') D (entries tb) [] = wait_graph l D"
proof -
  have q: "\<forall>i<length (entries tb). lst (threads l) (queue_head (entries tb ! i)) (Q i)"
    "\<forall>i<length (entries tb). lst (threads l') (queue_head (entries tb ! i)) (Q i)"
    using lot_repD(3) [OF assms(1)] lot_repD(3) [OF assms(2)] by (simp_all add: bucket_queue_def)
  have "thread_edges (threads l') D = thread_edges (threads l) D" by (rule ext) (simp add: thread_edges_def assms(3,4))
  then show ?thesis
    using wait_graph_table_queues [OF q(1), of D "[]"] wait_graph_table_queues [OF q(2), of D "[]"]
    by (simp add: wait_graph_def lot_repD(1) [OF assms(1)])
qed

lemma current_graph:
  assumes inv: "report_inv env w0 G w" and fr: "fresh w0" and sk: "search_ok env w0"
  shows "\<exists>tb g. HASHTABLE (lot w) = Some tb \<and> wait_graph_table (threads (lot w)) (data w) (entries tb) [] = Some g \<and> graph_inv env w0 G g"
proof -
  obtain tb Q where rep: "lot_rep (lot w0) tb Q" "lot_rep (lot w) tb Q" using report_invD(1) [OF inv] by (auto simp: frame_inv_def)
  have fi: "key (threads (lot w) t) = key (threads (lot w0) t)" "parked_with_timeout (threads (lot w) t) = parked_with_timeout (threads (lot w0) t)"
    "resources (data w t) = resources (data w0 t)" for t using report_invD(1) [OF inv] by (auto simp: frame_inv_def)
  have S: "sleeping (lot w) = sleeping (lot w0)"
    using lot_rep_enqueued [OF rep(1)] lot_rep_enqueued [OF rep(2)] by (simp add: sleeping_def)
  have dd: "deadlocked (data w t) \<longleftrightarrow> mark G t \<noteq> None" for t
    using report_invD(2) [OF inv, of t] by (auto simp: thread_inv_def marked_ok_def split: option.splits)
  have b: "blocked (threads (lot w)) (data w) (sleeping (lot w)) t \<longleftrightarrow> stuck w0 t \<and> mark G t = None" for t
    using fr by (auto simp: blocked_def stuck_def S fi dd fresh_def)
  obtain g where g: "wait_graph_table (threads (lot w)) (data w) (entries tb) [] = Some g"
    "\<forall>a b. (a, b) \<in> set g \<longleftrightarrow> (\<exists>t. blocked (threads (lot w)) (data w) (sleeping (lot w)) t \<and>
      (a = Thread t \<and> b = Resource (key (threads (lot w) t)) \<or> (\<exists>r\<in>set (resources (data w t)). a = Resource r \<and> b = Thread t)))"
    using wait_graph_edges [OF rep(2), of "data w"] by blast
  have "wait_graph (lot w0) (data w) = Some g" using wait_graph_same [OF rep fi(1,2), of "data w"] g(1) by simp
  then have "dfs_ok g (filter is_thread (graph_nodes g)) [] [] (depth_first_search env g (filter is_thread (graph_nodes g)))"
    using sk fi(3) unfolding search_ok_def by blast
  then have "graph_inv env w0 G g" using g(2) fi unfolding graph_inv_def b by simp
  then show ?thesis using g(1) lot_repD(1) [OF rep(2)] by blast
qed

lemma graph_inv_waits:
  assumes "graph_inv env w0 G g"
  shows "bipartite g" and "graph_waits g t u \<Longrightarrow> waits w0 t u \<and> stuck w0 t \<and> mark G t = None"
proof -
  have e: "(a, b) \<in> set g \<longleftrightarrow> (\<exists>t. stuck w0 t \<and> mark G t = None \<and>
       (a = Thread t \<and> b = Resource (key (threads (lot w0) t)) \<or> (\<exists>r\<in>set (resources (data w0 t)). a = Resource r \<and> b = Thread t)))" for a b
    using assms by (simp add: graph_inv_def)
  show "bipartite g" by (auto simp: bipartite_def e)
  show "graph_waits g t u \<Longrightarrow> waits w0 t u \<and> stuck w0 t \<and> mark G t = None"
    by (auto simp: graph_waits_def e waits_def waits_for_def stuck_def)
qed

lemma found_pending:
  assumes gi: "graph_inv env w0 G g" and sk: "search_ok env w0" and one: "one_target (waits w0)"
  shows "\<exists>cycles. graph_cycles (hash_order env c) (depth_first_search env) g = Some cycles \<and> pending w0 G [] cycles"
proof -
  note gw = graph_inv_waits [OF gi]
  obtain cycles where c: "graph_cycles (hash_order env c) (depth_first_search env) g = Some cycles" "found_ok g cycles"
    using graph_cycles_sound [OF _ gw(1), of "depth_first_search env" "hash_order env c"] gi sk by (auto simp: graph_inv_def search_ok_def)
  have "one_target (graph_waits g)" using one gw(2) unfolding one_target_def by blast
  then have d: "distinct (concat cycles)" by (rule found_disjoint [OF c(2)])
  have w: "wait_cycle (graph_waits g) cy" if "cy \<in> set cycles" for cy using c(2) that by (simp add: found_ok_def)
  have "wait_cycle (waits w0) cy" if "cy \<in> set cycles" for cy using w [OF that] gw(2) by (simp add: wait_cycle_def)
  moreover have "mark G t = None \<and> stuck w0 t" if "cy \<in> set cycles" "t \<in> set cy" for cy t
  proof -
    obtain i where "i < length cy" "cy ! i = t" using \<open>t \<in> set cy\<close> by (meson in_set_conv_nth)
    then have "graph_waits g t (cy ! (Suc i mod length cy))" using w [OF that(1)] by (auto simp: wait_cycle_def)
    then show ?thesis using gw(2) by blast
  qed
  ultimately have "pending w0 G [] cycles" using d by (auto simp: pending_def unmarked_def)
  then show ?thesis using c(1) by blast
qed

lemma owned_upd:
  assumes "checkers w' = (checkers w)(a := q)"
  shows "owned w' m \<longleftrightarrow> own q = Some m \<or> (\<exists>b. b \<noteq> a \<and> own (checkers w b) = Some m)"
  unfolding owned_def assms by (metis fun_upd_apply)

lemma owned_split: "owned w m \<longleftrightarrow> own (checkers w a) = Some m \<or> (\<exists>b. b \<noteq> a \<and> own (checkers w b) = Some m)"
  unfolding owned_def by metis

text \<open>The loop over the cycles makes a channel.\<close>

lemma new_channel_inv:
  assumes inv: "report_inv env w0 G w" and p: "checkers w a = NextCycle (cy # cs) rs" and n: "n = length (channels w)"
  shows "report_inv env w0 (G\<lparr>cycle_of := (cycle_of G)(n := cy)\<rparr>)
    (at_check a (MarkNext n cy cs rs) (w\<lparr>channels := channels w @ [new_channel]\<rparr>))" (is "report_inv env w0 ?G ?w")
proof (rule report_invI)
  have pi: "rs = results_of G w a" "pending w0 G [] (cy # cs)" using report_invD(4) [OF inv, of a] p by simp_all
  have lk: "detection_lock w = Some a" using report_invD(5) [OF inv, of a] p by simp
  have mk: "mark G t = Some m \<Longrightarrow> m < n" for t m using report_invD(2) [OF inv, of t] n by (simp add: thread_inv_def)
  have cl: "m \<in> set (collected G b) \<Longrightarrow> m < n" for m b using report_invD(6) [OF inv] n by (auto simp: history_inv_def)
  have nc: "n \<notin> all_collected G" using cl by (auto simp: all_collected_def)
  have ac: "all_collected ?G = all_collected G" by (simp add: all_collected_def)
  have ws: "with_sender ?G sl m = with_sender G sl m" "reported ?G sl m = reported G sl m" for sl m
    by (simp_all add: with_sender_def reported_def)
  have ch: "channels ?w = channels w @ [new_channel]" "sleepers ?w = sleepers w" by (simp_all add: at_check_def)
  have res: "results_of ?G ?w b = results_of G w b" for b
    using cl n by (auto simp: results_of_def at_check_def nth_append)
  have own: "own (checkers w b) \<noteq> Some n" for b
  proof
    assume "own (checkers w b) = Some n"
    then show False using report_invD(4) [OF inv, of b] n by (cases "checkers w b") (auto simp: marking_def)
  qed
  show "frame_inv w0 ?w" using report_invD(1) [OF inv] by (simp add: frame_inv_def at_check_def)
  show "thread_inv w0 ?G ?w t" for t
    using report_invD(2) [OF inv, of t] mk [of t] by (auto simp: thread_inv_def at_check_def split: option.splits)
  show "in_lock (checkers ?w b) \<longleftrightarrow> detection_lock ?w = Some b" for b
    using report_invD(5) [OF inv, of b] lk by (simp add: at_check_def)
  show "history_inv ?G ?w" using report_invD(6) [OF inv] by (auto simp: history_inv_def at_check_def intro: less_SucI)
  have pd: "pending w0 ?G = pending w0 G" "unmarked w0 ?G = unmarked w0 G" "graph_inv env w0 ?G = graph_inv env w0 G"
    by (simp_all add: pending_def unmarked_def graph_inv_def fun_eq_iff)
  show "point_inv env w0 ?G ?w b (checkers ?w b)" for b
  proof (cases "b = a")
    case True
    then show ?thesis using pi n nc
      by (simp add: at_check_def marking_def pd) (use res [of a] ac in \<open>auto simp: at_check_def pending_def unmarked_def\<close>)
  next
    case False
    then have "\<not> in_lock (checkers w b)" using report_invD(5) [OF inv, of b] lk by simp
    then show ?thesis using report_invD(4) [OF inv, of b] False res [of b] by (cases "checkers w b") (auto simp: at_check_def)
  qed
  have ow: "owned ?w m \<longleftrightarrow> owned w m \<or> m = n" for m
    using p owned_upd [of ?w w a "MarkNext n cy cs rs"] owned_split [of w m a] by (auto simp: at_check_def)
  show "channel_inv w0 ?G ?w m" if m: "m < length (channels ?w)" for m
  proof (cases "m = n")
    case True
    have "with_sender G (sleepers w) n = {}" "reported G (sleepers w) n = {}"
      using mk by (fastforce simp: with_sender_def reported_def)+
    then show ?thesis using pi(2) nc n ow [of n]
      unfolding True channel_inv_def ch ws ac by (auto simp: new_channel_def pending_def unmarked_def)
  next
    case False
    then show ?thesis using report_invD(3) [OF inv, of m] m n ow [of m]
      unfolding channel_inv_def ch ws ac by (auto simp: nth_append)
  qed
qed

text \<open>Marking a thread.\<close>

lemma own_none: "report_inv env w0 G w \<Longrightarrow> detection_lock w = Some a \<Longrightarrow> b \<noteq> a \<Longrightarrow> own (checkers w b) = None"
  using own_alone by (metis not_None_eq)

lemma others_outside:
  assumes "report_inv env w0 G w" and "detection_lock w = Some a" and "b \<noteq> a"
  shows "\<not> in_lock (checkers w b)"
  using report_invD(5) [OF assms(1), of b] assms(2,3) by simp

lemma mark_inv:
  assumes inv: "report_inv env w0 G w" and fr: "fresh w0" and p: "checkers w a = MarkNext n (t # ts) cs rs"
  shows "report_inv env w0 (G\<lparr>mark := (mark G)(t := Some n)\<rparr>) (at_check a (UnparkHandle n ts cs rs) (mark_deadlocked n t w))"
    (is "report_inv env w0 ?G ?w")
proof (rule report_invI)
  have pi: "rs = results_of G w a" "pending w0 G (t # ts) cs" "marking G w n (t # ts)" using report_invD(4) [OF inv, of a] p by simp_all
  have lk: "detection_lock w = Some a" using report_invD(5) [OF inv, of a] p by simp
  have n: "n < length (channels w)" "n \<notin> all_collected G" using pi(3) by (simp_all add: marking_def)
  obtain ms where ms: "cycle_of G n = ms @ t # ts" "\<forall>u\<in>set ms. mark G u = Some n" using pi(3) by (auto simp: marking_def)
  have t: "mark G t = None" "stuck w0 t" "distinct ((t # ts) @ concat cs)" using pi(2) by (auto simp: pending_def unmarked_def)
  note th = report_invD(2) [OF inv, of t, unfolded thread_inv_def t(1), simplified]
  have ch: "channels ?w = (channels w)[n := (channels w ! n)\<lparr>senders := senders (channels w ! n) + 1\<rparr>]"
    using th by (simp add: at_check_def mark_deadlocked_def clone_sender_def Let_def)
  have f: "sleepers ?w = sleepers w" "checkers ?w = (checkers w)(a := UnparkHandle n ts cs rs)" "detection_lock ?w = detection_lock w"
    "data ?w = (data w)(t := (data w t)\<lparr>deadlocked := True, backtrace_sender := Some n\<rparr>)"
    "lot ?w = (lot w)\<lparr>threads := (threads (lot w))(t := (threads (lot w) t)\<lparr>parker := unpark_lock (parker (threads (lot w) t))\<rparr>)\<rparr>"
    by (simp_all add: at_check_def mark_deadlocked_def Let_def)
  have res: "results_of ?G ?w b = results_of G w b" for b
    using n by (auto simp: results_of_def ch nth_list_update dest: collected_all)
  have sl: "sleepers w0 t = InPark" using fr t(2) by (simp add: fresh_def stuck_def blocked_def)
  show "frame_inv w0 ?w" by (rule frame_inv_thread [OF report_invD(1) [OF inv] _ _ f(5,4)]) simp_all
  show "thread_inv w0 ?G ?w u" for u
  proof (cases "u = t")
    case True
    then show ?thesis using n t ms th sl
      by (simp add: thread_inv_def f ch marked_ok_def unpark_lock_def timed_out_def)
  next
    case False
    then show ?thesis using report_invD(2) [OF inv, of u] by (auto simp: thread_inv_def f ch split: option.splits)
  qed
  show "in_lock (checkers ?w b) \<longleftrightarrow> detection_lock ?w = Some b" for b
    using report_invD(5) [OF inv, of b] lk by (simp add: f)
  show "history_inv ?G ?w" using report_invD(6) [OF inv] by (simp add: history_inv_def ch)
  show "point_inv env w0 ?G ?w b (checkers ?w b)" for b
  proof (cases "b = a")
    case True
    have "pending w0 ?G ts cs" using pi(2) by (auto simp: pending_def unmarked_def)
    moreover have "marking ?G ?w n ts"
      using n ms by (auto simp: marking_def ch all_collected_def intro!: exI [of _ "ms @ [t]"])
    ultimately show ?thesis using True pi(1) res [of a] unfolding f(2) by simp
  next
    case False
    then show ?thesis using report_invD(4) [OF inv, of b] others_outside [OF inv lk False] res [of b]
      by (cases "checkers w b") (auto simp: f)
  qed
  have ac: "all_collected ?G = all_collected G" by (simp add: all_collected_def)
  have ow: "owned ?w m \<longleftrightarrow> owned w m" for m using owned_upd [OF f(2)] owned_split [of w m a] p by simp
  have ws: "with_sender ?G (sleepers w) m = (if m = n then insert t (with_sender G (sleepers w) n) else with_sender G (sleepers w) m)"
    "reported ?G (sleepers w) m = reported G (sleepers w) m" for m
    using t th sl by (auto simp: with_sender_def reported_def holding_def told_def)
  show "channel_inv w0 ?G ?w m" if m: "m < length (channels ?w)" for m
  proof (cases "m = n")
    case True
    have "t \<notin> with_sender G (sleepers w) n" using t(1) by (simp add: with_sender_def)
    then have "card (with_sender ?G (sleepers w) n) = card (with_sender G (sleepers w) n) + 1"
      using with_sender_finite [OF inv] by (simp add: ws)
    then show ?thesis using report_invD(3) [OF inv n(1)] n
      unfolding True channel_inv_def ac ow f(1) ws(2) by (simp add: ch)
  next
    case False
    have "\<forall>u\<in>set (cycle_of G m). mark ?G u = Some m" if "\<forall>u\<in>set (cycle_of G m). mark G u = Some m" using that t(1) by auto
    then show ?thesis using report_invD(3) [OF inv, of m] m False
      unfolding channel_inv_def ac ow f(1) ws(2) by (auto simp: ch ws(1))
  qed
qed

text \<open>The checker drops its own sender.\<close>

lemma drop_own_inv:
  assumes inv: "report_inv env w0 G w" and p: "checkers w a = MarkNext n [] cs rs"
  shows "report_inv env w0 G (at_check a (CollectReports n cs rs) (w\<lparr>channels := drop_sender n (channels w)\<rparr>))" (is "report_inv env w0 G ?w")
proof (rule report_invI)
  have pi: "rs = results_of G w a" "pending w0 G [] cs" "marking G w n []" using report_invD(4) [OF inv, of a] p by simp_all
  have lk: "detection_lock w = Some a" using report_invD(5) [OF inv, of a] p by simp
  have n: "n < length (channels w)" "n \<notin> all_collected G" using pi(3) by (simp_all add: marking_def)
  have f: "channels ?w = (channels w)[n := (channels w ! n)\<lparr>senders := senders (channels w ! n) - 1\<rparr>]"
    "sleepers ?w = sleepers w" "checkers ?w = (checkers w)(a := CollectReports n cs rs)" "detection_lock ?w = detection_lock w"
    "data ?w = data w" "lot ?w = lot w" by (simp_all add: at_check_def drop_sender_def)
  have res: "results_of G ?w b = results_of G w b" for b
    using n by (auto simp: results_of_def f(1) nth_list_update dest: collected_all)
  show "frame_inv w0 ?w" using report_invD(1) [OF inv] by (simp add: frame_inv_def f)
  show "thread_inv w0 G ?w t" for t using report_invD(2) [OF inv, of t] by (simp add: thread_inv_def f split: option.splits)
  show "in_lock (checkers ?w b) \<longleftrightarrow> detection_lock ?w = Some b" for b using report_invD(5) [OF inv, of b] lk by (simp add: f)
  show "history_inv G ?w" using report_invD(6) [OF inv] by (simp add: history_inv_def f)
  have "point_inv env w0 G ?w b q = point_inv env w0 G w b q" for b q by (rule point_inv_cong [OF res]) (simp add: f)
  then show "point_inv env w0 G ?w b (checkers ?w b)" for b using report_invD(4) [OF inv, of b] pi unfolding f(3) by simp
  have ow: "owned ?w m \<longleftrightarrow> owned w m \<and> m \<noteq> n" for m
    using owned_upd [OF f(3)] owned_split [of w m a] p own_none [OF inv lk] by auto
  have own: "owned w n" using p unfolding owned_def by (intro exI [of _ a]) simp
  show "channel_inv w0 G ?w m" if m: "m < length (channels ?w)" for m
    using report_invD(3) [OF inv, of m] m n own unfolding channel_inv_def ow f(2) by (cases "m = n") (auto simp: f(1))
qed

text \<open>All reports are in: the receiver ends.\<close>

lemma collect_inv:
  assumes inv: "report_inv env w0 G w" and p: "checkers w a = CollectReports n cs rs" and s: "senders (channels w ! n) = 0"
  shows "report_inv env w0 (G\<lparr>collected := (collected G)(a := collected G a @ [n])\<rparr>)
    (at_check a (NextCycle cs (rs @ [sent (channels w ! n)])) (w\<lparr>channels := drop_receiver n (channels w)\<rparr>))"
    (is "report_inv env w0 ?G ?w")
proof (rule report_invI)
  have pi: "rs = results_of G w a" "pending w0 G [] cs" "marking G w n []" using report_invD(4) [OF inv, of a] p by simp_all
  have lk: "detection_lock w = Some a" using report_invD(5) [OF inv, of a] p by simp
  have n: "n < length (channels w)" "n \<notin> all_collected G" "\<forall>t\<in>set (cycle_of G n). mark G t = Some n"
    using pi(3) by (simp_all add: marking_def)
  have f: "channels ?w = (channels w)[n := (channels w ! n)\<lparr>receiving := False\<rparr>]"
    "sleepers ?w = sleepers w" "checkers ?w = (checkers w)(a := NextCycle cs (rs @ [sent (channels w ! n)]))"
    "detection_lock ?w = detection_lock w" "data ?w = data w" "lot ?w = lot w" by (simp_all add: at_check_def drop_receiver_def)
  have st: "sent (channels ?w ! m) = sent (channels w ! m)" for m using n by (cases "m = n") (simp_all add: f(1))
  have ac: "all_collected ?G = insert n (all_collected G)" by (auto simp: all_collected_def split: if_splits)
  have res: "results_of ?G ?w b = (if b = a then results_of G w a @ [sent (channels w ! n)] else results_of G w b)" for b
    by (simp add: results_of_def st)
  show "frame_inv w0 ?w" using report_invD(1) [OF inv] by (simp add: frame_inv_def f)
  show "thread_inv w0 ?G ?w t" for t using report_invD(2) [OF inv, of t] by (simp add: thread_inv_def f split: option.splits)
  show "in_lock (checkers ?w b) \<longleftrightarrow> detection_lock ?w = Some b" for b using report_invD(5) [OF inv, of b] lk by (simp add: f)
  show "history_inv ?G ?w"
    using report_invD(6) [OF inv] n by (auto simp: history_inv_def f dest: collected_all)
  show "point_inv env w0 ?G ?w b (checkers ?w b)" for b
  proof (cases "b = a")
    case True
    have "pending w0 ?G [] cs" using pi(2) by (simp add: pending_def unmarked_def)
    then show ?thesis using True pi(1) res [of a] unfolding f(3) by simp
  next
    case False
    then show ?thesis using report_invD(4) [OF inv, of b] others_outside [OF inv lk False] res [of b]
      by (cases "checkers w b") (auto simp: f)
  qed
  have ow: "owned ?w m \<longleftrightarrow> owned w m" for m using owned_upd [OF f(3)] owned_split [of w m a] p by simp
  have ws: "with_sender ?G sl m = with_sender G sl m" "reported ?G sl m = reported G sl m" for sl m
    by (simp_all add: with_sender_def reported_def)
  show "channel_inv w0 ?G ?w m" if m: "m < length (channels ?w)" for m
    using report_invD(3) [OF inv, of m] m n s with_sender_finite [OF inv, of "sleepers w" n]
    unfolding channel_inv_def ow f(2) ws ac by (cases "m = n") (auto simp: f(1))
qed

section \<open>Every step keeps the invariant\<close>

lemma fast_check_returns:
  assumes "HASHTABLE l = Some tb" and "wait_graph_table (threads l) D (entries tb) [] = Some g"
  shows "\<exists>b. check_wait_graph_fast cyc addr now l D = Some (b, l)"
  using assms by (simp add: check_wait_graph_fast_def get_hashtable_def)

lemma checker_step_inv:
  assumes inv: "report_inv env w0 G w" and fr: "fresh w0" and sk: "search_ok env w0" and one: "one_target (waits w0)"
    and s: "report_step env (Checker a, c) w = Some w'"
  shows "\<exists>G'. report_inv env w0 G' w'"
proof -
  note pi = report_invD(4) [OF inv, of a] and lk = report_invD(5) [OF inv]
  obtain tb g where g: "HASHTABLE (lot w) = Some tb" "wait_graph_table (threads (lot w)) (data w) (entries tb) [] = Some g" "graph_inv env w0 G g"
    using current_graph [OF inv fr sk] by blast
  have st: "check_deadlock env c a (checkers w a) w = Some w'" using s by simp
  have move: "report_inv env w0 G (at_check a p w)" if "own p = own (checkers w a)" "point_inv env w0 G w a p" "in_lock p = in_lock (checkers w a)" for p
    using checker_move_inv [OF inv that] .
  show ?thesis
  proof (cases "checkers w a")
    case Idle
    then show ?thesis using st move [of FastCheck] pi by auto
  next
    case FastCheck
    obtain b where "check_wait_graph_fast (is_cyclic_directed env) (address env) c (lot w) (data w) = Some (b, lot w)"
      using fast_check_returns [OF g(1,2)] by blast
    then have "w' = at_check a (if b then TakeLock else Finished []) w" using st FastCheck by simp
    then show ?thesis
      using move [of "if b then TakeLock else Finished []"] pi FastCheck by (auto simp: results_of_def split: if_splits)
  next
    case TakeLock
    have w': "detection_lock w = None" "w' = w\<lparr>checkers := (checkers w)(a := ReadQueues), detection_lock := Some a\<rparr>"
      using st TakeLock by (auto simp: at_check_def split: if_splits)
    have "report_inv env w0 G w'"
      by (rule checker_update_inv [OF inv w'(2)]) (use pi lk w'(1) TakeLock in auto)
    then show ?thesis by blast
  next
    case ReadQueues
    then have "w' = at_check a (Search g) w" using st g(1,2) by (simp add: get_hashtable_def)
    then show ?thesis using move [of "Search g"] pi g(3) ReadQueues by auto
  next
    case (Search g)
    then obtain cycles where c: "graph_cycles (hash_order env c) (depth_first_search env) g = Some cycles" "pending w0 G [] cycles"
      using found_pending [OF _ sk one, of G g c] pi by auto
    then have "w' = at_check a (NextCycle cycles []) w" using st Search by simp
    then show ?thesis using move [of "NextCycle cycles []"] pi c(2) Search by (auto simp: results_of_def)
  next
    case (NextCycle cs rs)
    show ?thesis
    proof (cases cs)
      case Nil
      then show ?thesis using st move [of "ReleaseLock rs"] pi NextCycle by auto
    next
      case (Cons cy cs')
      then show ?thesis using st new_channel_inv [OF inv, of a cy cs' rs] NextCycle by auto
    qed
  next
    case (MarkNext n ts cs rs)
    then show ?thesis
      using st drop_own_inv [OF inv, of a n cs rs] mark_inv [OF inv fr, of a n "hd ts" "tl ts" cs rs] by (cases ts) auto
  next
    case (UnparkHandle n ts cs rs)
    then show ?thesis using st move [of "MarkNext n ts cs rs"] pi by auto
  next
    case (CollectReports n cs rs)
    then show ?thesis using st collect_inv [OF inv CollectReports] by (auto split: if_splits)
  next
    case (ReleaseLock rs)
    have l: "detection_lock w = Some a" using lk [of a] ReleaseLock by simp
    have w': "w' = w\<lparr>checkers := (checkers w)(a := Finished rs), detection_lock := None\<rparr>"
      using st ReleaseLock by (auto simp: at_check_def)
    have "report_inv env w0 G w'"
      by (rule checker_update_inv [OF inv w']) (use pi ReleaseLock others_outside [OF inv l] in auto)
    then show ?thesis by blast
  next
    case (Finished rs)
    then show ?thesis using st by simp
  next
    case CheckerPanicked
    then show ?thesis using st by simp
  qed
qed

lemma report_step_inv:
  assumes "report_inv env w0 G w" and "fresh w0" and "search_ok env w0" and "one_target (waits w0)" and "report_step env x w = Some w'"
  shows "\<exists>G'. report_inv env w0 G' w'"
proof (cases "fst x")
  case (Sleeper t)
  then show ?thesis using sleeper_step_inv [OF assms(1), of t "snd x" w'] assms(2,5) by (cases x) (auto simp: fresh_def)
next
  case (Checker a)
  then show ?thesis using checker_step_inv [OF assms(1-4), of a "snd x" w'] assms(5) by (cases x) auto
qed

lemma report_run_inv:
  assumes "report_inv env w0 G w" and "fresh w0" and "search_ok env w0" and "one_target (waits w0)" and "report_run env xs w = Some w'"
  shows "\<exists>G'. report_inv env w0 G' w'"
  using assms(1,5)
proof (induction xs arbitrary: w G)
  case (Cons x xs)
  then show ?case using report_step_inv [OF Cons.prems(1) assms(2-4), of x] by (auto simp: bind_eq_Some_conv)
qed auto

lemma report_start_inv:
  assumes "fresh w0"
  shows "report_inv env w0 \<lparr>mark = (\<lambda>_. None), cycle_of = (\<lambda>_. []), collected = (\<lambda>_. [])\<rparr> w0"
proof (rule report_invI)
  obtain tb Q where "lot_rep (lot w0) tb Q" using assms by (auto simp: fresh_def intro: lot_wf_rep)
  then show "frame_inv w0 w0" by (auto simp: frame_inv_def)
qed (use assms in \<open>auto simp: fresh_def thread_inv_def history_inv_def\<close>)

end
