(* ===== verification/Deadlock_Claims.thy ===== *)
theory Deadlock_Claims
  imports Deadlock_Reports
begin

text \<open>
  What a call of \<open>check_deadlock\<close> delivers: the lists it returns are cycles of waiting threads, and it returns. The section
  on a mutex locked twice runs such a call from beginning to end; the last one shows what happens to a thread that is on
  two cycles, which the conditions of the two theorems exclude.
\<close>

section \<open>Reports\<close>

lemma not_holding_told: "marked_ok n s d p \<Longrightarrow> \<not> holding s \<Longrightarrow> told s"
  by (auto simp: marked_ok_def holding_def told_def)

lemma collected_report:
  assumes inv: "report_inv env w0 G w" and n: "n \<in> all_collected G"
  shows "mset (sent (channels w ! n)) = mset (map (\<lambda>t. thread_id (data w0 t)) (cycle_of G n))"
    and "distinct (cycle_of G n)" and "wait_cycle (waits w0) (cycle_of G n)"
    and "t \<in> set (cycle_of G n) \<longleftrightarrow> mark G t = Some n"
proof -
  have "n < length (channels w)" using report_invD(6) [OF inv] n by (auto simp: history_inv_def all_collected_def)
  note c = report_invD(3) [OF inv this, unfolded channel_inv_def]
  have m: "t \<in> set (cycle_of G n) \<longleftrightarrow> mark G t = Some n" for t
    using c n report_invD(2) [OF inv, of t] by (auto simp: thread_inv_def)
  have "told (sleepers w t)" if "mark G t = Some n" for t
  proof (rule not_holding_told)
    show "marked_ok n (sleepers w t) (data w t) (parker (threads (lot w) t))"
      using report_invD(2) [OF inv, of t] that by (simp add: thread_inv_def)
    show "\<not> holding (sleepers w t)" using c n that by (auto simp: with_sender_def)
  qed
  then have "reported G (sleepers w) n = set (cycle_of G n)" using m by (auto simp: reported_def)
  then show "mset (sent (channels w ! n)) = mset (map (\<lambda>t. thread_id (data w0 t)) (cycle_of G n))"
    using c by (simp add: mset_set_set)
  show "distinct (cycle_of G n)" "wait_cycle (waits w0) (cycle_of G n)" "t \<in> set (cycle_of G n) \<longleftrightarrow> mark G t = Some n"
    using c m by simp_all
qed

definition reports_cycle :: "report_world \<Rightarrow> tid list \<Rightarrow> tid list \<Rightarrow> bool" where
  "reports_cycle w0 r c \<longleftrightarrow> mset r = mset (map (\<lambda>t. thread_id (data w0 t)) c) \<and> distinct c \<and> wait_cycle (waits w0) c"

lemma report_inv_results:
  assumes inv: "report_inv env w0 G w"
  defines "C \<equiv> \<lambda>a. map (cycle_of G) (collected G a)"
  shows "checkers w a = Finished rs \<Longrightarrow> list_all2 (reports_cycle w0) rs (C a)"
    and "i < length (C a) \<Longrightarrow> j < length (C b) \<Longrightarrow> (a, i) \<noteq> (b, j) \<Longrightarrow> set (C a ! i) \<inter> set (C b ! j) = {}"
proof -
  show "list_all2 (reports_cycle w0) rs (C a)" if "checkers w a = Finished rs"
  proof -
    have "rs = results_of G w a" using report_invD(4) [OF inv, of a] that by simp
    then show ?thesis
      using collected_report [OF inv] collected_all [of _ G a]
      by (auto simp: results_of_def C_def reports_cycle_def list_all2_conv_all_nth)
  qed
  show "set (C a ! i) \<inter> set (C b ! j) = {}" if "i < length (C a)" "j < length (C b)" "(a, i) \<noteq> (b, j)"
  proof -
    let ?n = "collected G a ! i" and ?m = "collected G b ! j"
    have l: "i < length (collected G a)" "j < length (collected G b)" using that by (simp_all add: C_def)
    have "?n \<noteq> ?m"
    proof (cases "a = b")
      case True
      then show ?thesis using l that(3) report_invD(6) [OF inv] by (auto simp: history_inv_def nth_eq_iff_index_eq)
    next
      case False
      then show ?thesis using nth_mem [OF l(1)] nth_mem [OF l(2)] report_invD(6) [OF inv] unfolding history_inv_def by fastforce
    qed
    moreover have "?n \<in> all_collected G" "?m \<in> all_collected G"
      using nth_mem [OF l(1)] nth_mem [OF l(2)] collected_all by blast+
    ultimately have "t \<notin> set (cycle_of G ?n) \<or> t \<notin> set (cycle_of G ?m)" for t
      using collected_report(4) [OF inv, of ?n t] collected_report(4) [OF inv, of ?m t] by auto
    then show ?thesis using l by (auto simp: C_def)
  qed
qed

section \<open>Progress\<close>

fun sleeper_rank :: "parked_thread \<Rightarrow> nat" where
  "sleeper_rank InPark = 5"
| "sleeper_rank Hook = 4"
| "sleeper_rank (Sending n) = 3"
| "sleeper_rank (Dropping n) = 2"
| "sleeper_rank Preparing = 1"
| "sleeper_rank _ = 0"

definition cycles_cost :: "tid list list \<Rightarrow> nat" where
  "cycles_cost cs = (\<Sum>c\<leftarrow>cs. 2 * length c + 3)"

text \<open>The steps a checker still has to take; \<open>k\<close> is the number of threads in the queues.\<close>

fun checker_rank :: "nat \<Rightarrow> checker \<Rightarrow> nat" where
  "checker_rank k Idle = 5 * k + 7"
| "checker_rank k FastCheck = 5 * k + 6"
| "checker_rank k TakeLock = 5 * k + 5"
| "checker_rank k ReadQueues = 5 * k + 4"
| "checker_rank k (Search g) = 5 * k + 3"
| "checker_rank k (NextCycle cs rs) = cycles_cost cs + 2"
| "checker_rank k (MarkNext n ts cs rs) = 2 * length ts + cycles_cost cs + 4"
| "checker_rank k (UnparkHandle n ts cs rs) = 2 * length ts + cycles_cost cs + 5"
| "checker_rank k (CollectReports n cs rs) = cycles_cost cs + 3"
| "checker_rank k (ReleaseLock rs) = 1"
| "checker_rank k (Finished rs) = 0"
| "checker_rank k CheckerPanicked = 0"

definition report_rank :: "report_world \<Rightarrow> tid set \<Rightarrow> report_world \<Rightarrow> nat" where
  "report_rank w0 A w = (\<Sum>t\<in>sleeping (lot w0). sleeper_rank (sleepers w t))
     + (\<Sum>a\<in>A. checker_rank (card (sleeping (lot w0))) (checkers w a))"

lemma sleeping_finite: "lot_wf l \<Longrightarrow> finite (sleeping l)"
proof -
  assume "lot_wf l"
  then obtain tb Q where rep: "lot_rep l tb Q" by (rule lot_wf_rep)
  have "sleeping l = (\<Union>i\<in>{..<length (entries tb)}. set (Q i))" using lot_rep_enqueued [OF rep] by (auto simp: sleeping_def)
  then show ?thesis by simp
qed

lemma cycles_cost_concat: "(\<And>c. c \<in> set cs \<Longrightarrow> c \<noteq> []) \<Longrightarrow> cycles_cost cs \<le> 5 * length (concat cs)"
proof (induction cs)
  case (Cons c cs)
  have "c \<noteq> []" using Cons.prems [of c] by simp
  moreover have "cycles_cost cs \<le> 5 * length (concat cs)" using Cons by simp
  ultimately show ?case by (cases c) (simp_all add: cycles_cost_def)
qed (simp add: cycles_cost_def)

lemma pending_cost:
  assumes "fresh w0" and "pending w0 G [] cs"
  shows "cycles_cost cs \<le> 5 * card (sleeping (lot w0))"
proof -
  have d: "distinct (concat cs)" and s: "set (concat cs) \<subseteq> sleeping (lot w0)"
    using assms(2) by (auto simp: pending_def unmarked_def stuck_def blocked_def)
  have "length (concat cs) \<le> card (sleeping (lot w0))"
    using card_mono [OF sleeping_finite s] assms(1) distinct_card [OF d] by (simp add: fresh_def)
  moreover have "cycles_cost cs \<le> 5 * length (concat cs)"
    by (rule cycles_cost_concat) (use assms(2) in \<open>auto simp: pending_def wait_cycle_def\<close>)
  ultimately show ?thesis by simp
qed

lemma sleeper_rank_step:
  "sleeper_step s d p cs = Some (s', d', p', cs') \<Longrightarrow> s \<noteq> ForEver \<Longrightarrow> sleeper_rank s' < sleeper_rank s"
  by (cases s) (auto simp: deadlock_on_unpark_def on_unpark_def split: if_splits option.splits)

lemma sum_point:
  fixes f g :: "tid \<Rightarrow> nat"
  assumes "finite A" and "a \<in> A" and "f a < g a" and "\<And>b. b \<noteq> a \<Longrightarrow> f b = g b"
  shows "sum f A < sum g A"
  using assms by (metis order_refl sum_strict_mono_ex1 less_imp_le)

lemma sleeper_step_rank:
  assumes inv: "report_inv env w0 G w" and fr: "fresh w0" and s: "report_step env (Sleeper t, c) w = Some w'"
  shows "report_rank w0 A w' < report_rank w0 A w"
proof -
  obtain n where n: "mark G t = Some n" using sleeper_step_inv [OF inv _ s] fr by (auto simp: fresh_def)
  note th = report_invD(2) [OF inv, of t, unfolded thread_inv_def n, simplified]
  have t: "t \<in> sleeping (lot w0)" using th by (simp add: stuck_def blocked_def)
  obtain s' d p cs where st: "sleeper_step (sleepers w t) (data w t) (parker (threads (lot w) t)) (channels w) = Some (s', d, p, cs)"
    and w': "sleepers w' = (sleepers w)(t := s')" "checkers w' = checkers w"
    using s by (auto split: if_splits)
  have "sleepers w t \<noteq> ForEver"
  proof
    assume "sleepers w t = ForEver"
    then show False using st th by (simp add: marked_ok_def)
  qed
  then have "sleeper_rank s' < sleeper_rank (sleepers w t)" using sleeper_rank_step [OF st] by blast
  then show ?thesis
    using sum_point [OF sleeping_finite t, of "\<lambda>u. sleeper_rank (sleepers w' u)" "\<lambda>u. sleeper_rank (sleepers w u)"] fr
    by (simp add: report_rank_def w' fresh_def)
qed

lemma checker_step_rank:
  assumes inv: "report_inv env w0 G w" and fr: "fresh w0" and sk: "search_ok env w0" and one: "one_target (waits w0)"
    and s: "report_step env (Checker a, c) w = Some w'" and A: "finite A" "a \<in> A"
  shows "report_rank w0 A w' < report_rank w0 A w"
proof -
  let ?k = "card (sleeping (lot w0))"
  note pi = report_invD(4) [OF inv, of a]
  have st: "check_deadlock env c a (checkers w a) w = Some w'" using s by simp
  have f: "\<exists>q. checkers w' = (checkers w)(a := q) \<and> checker_rank ?k q < checker_rank ?k (checkers w a)" "sleepers w' = sleepers w"
  proof -
    show "sleepers w' = sleepers w"
      using st by (cases "(env, c, a, checkers w a, w)" rule: check_deadlock.cases)
        (auto simp: at_check_def mark_deadlocked_def Let_def bind_eq_Some_conv split: if_splits elim!: check_wait_graph_slow.elims)
    show "\<exists>q. checkers w' = (checkers w)(a := q) \<and> checker_rank ?k q < checker_rank ?k (checkers w a)"
    proof (cases "checkers w a")
      case (Search g)
      then obtain cycles where c: "graph_cycles (hash_order env c) (depth_first_search env) g = Some cycles" "pending w0 G [] cycles"
        using found_pending [OF _ sk one, of G g c] pi by auto
      then show ?thesis using st Search pending_cost [OF fr c(2)] by (auto simp: at_check_def)
    next
      case (NextCycle cs rs)
      then show ?thesis using st by (cases cs) (auto simp: at_check_def cycles_cost_def)
    next
      case (MarkNext n ts cs rs)
      then show ?thesis using st by (cases ts) (auto simp: at_check_def mark_deadlocked_def Let_def)
    qed (use st in \<open>auto simp: at_check_def bind_eq_Some_conv split: if_splits\<close>)
  qed
  then obtain q where q: "checkers w' = (checkers w)(a := q)" "checker_rank ?k q < checker_rank ?k (checkers w a)" by blast
  then show ?thesis
    using sum_point [OF A, of "\<lambda>b. checker_rank ?k (checkers w' b)" "\<lambda>b. checker_rank ?k (checkers w b)"]
    by (simp add: report_rank_def f(2))
qed

text \<open>The actors of a schedule: sleeping threads, and checkers from a set.\<close>

definition from_checkers :: "tid set \<Rightarrow> (actor \<times> nat) list \<Rightarrow> bool" where
  "from_checkers A xs \<longleftrightarrow> (\<forall>a c. (Checker a, c) \<in> set xs \<longrightarrow> a \<in> A)"

lemma report_run_rank:
  assumes "report_inv env w0 G w" and fr: "fresh w0" "search_ok env w0" "one_target (waits w0)"
    and "report_run env xs w = Some w'" and "finite A" and "from_checkers A xs"
  shows "length xs + report_rank w0 A w' \<le> report_rank w0 A w"
  using assms(1,5,7)
proof (induction xs arbitrary: w G)
  case (Cons x xs)
  obtain w1 where w1: "report_step env x w = Some w1" "report_run env xs w1 = Some w'" using Cons.prems(2) by (auto simp: bind_eq_Some_conv)
  obtain G1 where "report_inv env w0 G1 w1" using report_step_inv [OF Cons.prems(1) fr w1(1)] by blast
  then have "length xs + report_rank w0 A w' \<le> report_rank w0 A w1" using Cons.IH w1(2) Cons.prems(3) by (auto simp: from_checkers_def)
  moreover have "report_rank w0 A w1 < report_rank w0 A w"
  proof (cases x)
    case (Pair y c)
    show ?thesis
    proof (cases y)
      case (Sleeper t)
      then show ?thesis using sleeper_step_rank [OF Cons.prems(1) fr(1)] w1(1) Pair by blast
    next
      case (Checker a)
      then have "a \<in> A" using Cons.prems(3) Pair by (auto simp: from_checkers_def)
      then show ?thesis using checker_step_rank [OF Cons.prems(1) fr _ assms(6)] w1(1) Pair Checker by blast
    qed
  qed
  ultimately show ?case by simp
qed simp

lemma others_idle:
  assumes "report_run env xs w = Some w'" and "from_checkers A xs" and "\<And>a. a \<notin> A \<Longrightarrow> checkers w a = Idle"
  shows "a \<notin> A \<Longrightarrow> checkers w' a = Idle"
  using assms
proof (induction xs arbitrary: w)
  case (Cons x xs)
  obtain w1 where w1: "report_step env x w = Some w1" "report_run env xs w1 = Some w'" using Cons.prems(2) by (auto simp: bind_eq_Some_conv)
  have "checkers w1 b = checkers w b" if "b \<notin> A" for b
  proof (cases x)
    case (Pair y c)
    show ?thesis
    proof (cases y)
      case (Sleeper t)
      then show ?thesis using w1(1) Pair by (auto split: if_splits)
    next
      case (Checker a)
      then have "b \<noteq> a" using Cons.prems(3) Pair that by (auto simp: from_checkers_def)
      moreover have "check_deadlock env c a (checkers w a) w = Some w1" using w1(1) Pair Checker by simp
      ultimately show ?thesis
        by (cases "(env, c, a, checkers w a, w)" rule: check_deadlock.cases)
          (auto simp: at_check_def mark_deadlocked_def Let_def bind_eq_Some_conv split: if_splits elim!: check_wait_graph_slow.elims)
    qed
  qed
  then show ?case using Cons.IH [OF Cons.prems(1) w1(2)] Cons.prems(3,4) by (auto simp: from_checkers_def)
qed simp

lemma holder_moves:
  assumes inv: "report_inv env w0 G w" and t: "t \<in> with_sender G (sleepers w) n"
  shows "report_step env (Sleeper t, c) w \<noteq> None"
proof -
  have m: "mark G t = Some n" "holding (sleepers w t)" using t by (simp_all add: with_sender_def)
  note th = report_invD(2) [OF inv, of t, unfolded thread_inv_def m(1), simplified]
  have "\<not> parked_with_timeout (threads (lot w) t)"
    using th report_invD(1) [OF inv] by (simp add: stuck_def blocked_def frame_inv_def)
  then show ?thesis using th m(2) by (auto simp: marked_ok_def holding_def split: prod.splits)
qed

lemma lock_owner_moves:
  assumes inv: "report_inv env w0 G w" and fr: "fresh w0" and sk: "search_ok env w0" and lk: "detection_lock w = Some a"
  shows "\<exists>x. (\<forall>b. fst x = Checker b \<longrightarrow> b = a) \<and> report_step env x w \<noteq> None"
proof -
  have l: "in_lock (checkers w a)" using report_invD(5) [OF inv] lk by blast
  have c: "report_step env (Checker a, 0) w \<noteq> None \<or> (\<exists>n cs rs. checkers w a = CollectReports n cs rs \<and> senders (channels w ! n) \<noteq> 0)"
  proof (cases "checkers w a")
    case ReadQueues
    then show ?thesis using current_graph [OF inv fr sk] by (auto simp: get_hashtable_def)
  next
    case (NextCycle cs rs)
    then show ?thesis by (cases cs) auto
  next
    case (MarkNext n ts cs rs)
    then show ?thesis by (cases ts) auto
  qed (use l in auto)
  then show ?thesis
  proof
    assume "report_step env (Checker a, 0) w \<noteq> None"
    then show ?thesis by (intro exI [of _ "(Checker a, 0)"]) simp
  next
    assume "\<exists>n cs rs. checkers w a = CollectReports n cs rs \<and> senders (channels w ! n) \<noteq> 0"
    then obtain n cs rs where n: "checkers w a = CollectReports n cs rs" "senders (channels w ! n) \<noteq> 0" by blast
    then have "n < length (channels w)" using report_invD(4) [OF inv, of a] by (simp add: marking_def)
    moreover have "\<not> owned w n" using own_none [OF inv lk] n(1) by (auto simp: owned_split [of w n a])
    ultimately have "with_sender G (sleepers w) n \<noteq> {}" using report_invD(3) [OF inv] n(2) by (auto simp: channel_inv_def)
    then obtain t where "t \<in> with_sender G (sleepers w) n" by blast
    then show ?thesis using holder_moves [OF inv, of t n 0] by (intro exI [of _ "(Sleeper t, 0)"]) simp
  qed
qed

lemma checker_not_stuck:
  assumes inv: "report_inv env w0 G w" and fr: "fresh w0" "search_ok env w0"
    and idle: "\<And>b. b \<notin> A \<Longrightarrow> checkers w b = Idle" and a: "a \<in> A" "\<nexists>rs. checkers w a = Finished rs"
  shows "\<exists>x. from_checkers A [x] \<and> report_step env x w \<noteq> None"
proof (cases "detection_lock w")
  case (Some b)
  then have "b \<in> A" using idle [of b] report_invD(5) [OF inv, of b] by (cases "b \<in> A") auto
  moreover obtain x where x: "\<forall>d. fst x = Checker d \<longrightarrow> d = b" "report_step env x w \<noteq> None"
    using lock_owner_moves [OF inv fr Some] by blast
  ultimately have "from_checkers A [x]" by (auto simp: from_checkers_def)
  then show ?thesis using x(2) by blast
next
  case None
  then have "\<not> in_lock (checkers w a)" using report_invD(5) [OF inv, of a] by simp
  then have "report_step env (Checker a, 0) w \<noteq> None"
    using a(2) report_invD(4) [OF inv, of a] None current_graph [OF inv fr]
    by (cases "checkers w a") (auto simp: get_hashtable_def check_wait_graph_fast_def)
  then show ?thesis using a(1) by (intro exI [of _ "(Checker a, 0)"]) (simp add: from_checkers_def)
qed

section \<open>Theorems\<close>

text \<open>
  Claim C34. The detector reports only deadlocks, each once. Take any number of calls of \<open>check_deadlock\<close>, interleaved
  step by step with the sleeping threads, with a search that does what \<open>petgraph\<close> documents, and suppose that no thread
  waits for two others (every lock has one holder, as mutexes and write locks have). Then neither a sleeping thread nor a
  checker panics; a thread that is marked is on a cycle of threads that sleep without a timeout, each waiting for
  a resource that the next one holds; and what a call returns is, list by list, the threads of such cycles, every thread of
  a cycle once. No two lists, of the same or of different calls, share a thread.
\<close>

theorem deadlock_reports_are_cycles:
  assumes "fresh w0" and "search_ok env w0" and "one_target (waits w0)" and "report_run env xs w0 = Some w"
  shows "(\<forall>t. sleepers w t \<noteq> Panicked) \<and> (\<forall>a. checkers w a \<noteq> CheckerPanicked)
    \<and> (\<forall>t. deadlocked (data w t) \<longrightarrow> (\<exists>c. t \<in> set c \<and> distinct c \<and> wait_cycle (waits w0) c))
    \<and> (\<exists>C. (\<forall>a rs. checkers w a = Finished rs \<longrightarrow> list_all2 (reports_cycle w0) rs (C a))
        \<and> (\<forall>a b i j. i < length (C a) \<longrightarrow> j < length (C b) \<longrightarrow> (a, i) \<noteq> (b, j) \<longrightarrow> set (C a ! i) \<inter> set (C b ! j) = {}))"
proof -
  obtain G where inv: "report_inv env w0 G w" using report_run_inv [OF report_start_inv assms] assms(1) by blast
  have t: "sleepers w t \<noteq> Panicked \<and> (deadlocked (data w t) \<longrightarrow> (\<exists>c. t \<in> set c \<and> distinct c \<and> wait_cycle (waits w0) c))" for t
  proof (cases "mark G t")
    case None
    moreover have "sleepers w0 t = InPark \<or> sleepers w0 t = Returned" using assms(1) by (auto simp: fresh_def ready_def)
    ultimately show ?thesis using report_invD(2) [OF inv, of t] by (auto simp: thread_inv_def)
  next
    case (Some n)
    then have th: "n < length (channels w)" "t \<in> set (cycle_of G n)" "sleepers w t \<noteq> Panicked"
      using report_invD(2) [OF inv, of t] by (auto simp: thread_inv_def marked_ok_def)
    then show ?thesis using report_invD(3) [OF inv th(1)] by (auto simp: channel_inv_def)
  qed
  moreover have "checkers w a \<noteq> CheckerPanicked" for a using report_invD(4) [OF inv, of a] by auto
  ultimately show ?thesis
    using report_inv_results [OF inv] by (intro conjI allI exI [of _ "\<lambda>a. map (cycle_of G) (collected G a)"]) blast+
qed

text \<open>
  Claim C35. \<open>check_deadlock\<close> comes back. Under the same conditions the calls of the checkers \<open>A\<close> and the sleeping threads
  they wake take boundedly many steps in all, in whatever order they run, and when nobody can take a step any more
  every one of the calls has returned: no call waits for ever for \<open>DEADLOCK_DETECTION_LOCK\<close> or for a report.
\<close>

theorem check_deadlock_returns:
  assumes "fresh w0" and "search_ok env w0" and "one_target (waits w0)" and "report_run env xs w0 = Some w"
    and "finite A" and "from_checkers A xs"
  shows "length xs \<le> 5 * card (sleeping (lot w0)) + card A * (5 * card (sleeping (lot w0)) + 7)
    \<and> ((\<forall>x. from_checkers A [x] \<longrightarrow> report_step env x w = None) \<longrightarrow> (\<forall>a\<in>A. \<exists>rs. checkers w a = Finished rs))"
proof -
  note inv0 = report_start_inv [OF assms(1), of env]
  obtain G where inv: "report_inv env w0 G w" using report_run_inv [OF inv0 assms(1-4)] by blast
  have i0: "checkers w0 a = Idle" for a using assms(1) by (simp add: fresh_def)
  have "length xs \<le> report_rank w0 A w0" using report_run_rank [OF inv0 assms(1-6)] by simp
  moreover have "(\<Sum>t\<in>sleeping (lot w0). sleeper_rank (sleepers w0 t)) \<le> card (sleeping (lot w0)) * 5"
  proof (rule sum_bounded_above [where 'a = nat, simplified])
    fix t show "sleeper_rank (sleepers w0 t) \<le> 5" by (cases "sleepers w0 t") simp_all
  qed
  ultimately have "length xs \<le> 5 * card (sleeping (lot w0)) + card A * (5 * card (sleeping (lot w0)) + 7)"
    by (simp add: report_rank_def i0)
  moreover have "\<exists>rs. checkers w a = Finished rs"
    if e: "\<forall>x. from_checkers A [x] \<longrightarrow> report_step env x w = None" and a: "a \<in> A" for a
  proof (rule ccontr)
    assume n: "\<nexists>rs. checkers w a = Finished rs"
    have idle: "checkers w b = Idle" if "b \<notin> A" for b using others_idle [OF assms(4,6) i0 that] .
    obtain x where "from_checkers A [x]" "report_step env x w \<noteq> None"
      using checker_not_stuck [OF inv assms(1,2) idle a n] by blast
    then show False using e by simp
  qed
  ultimately show ?thesis by blast
qed

section \<open>A mutex locked twice\<close>

text \<open>
  Threads 2 and 3 sleep on key 64. Thread 2 holds it, as a thread does that locks a mutex twice; thread 3 is a
  bystander. The search is given by what it reports for the graphs of this lot.
\<close>

definition relock_env :: graph_env where
  "relock_env = \<lparr>is_cyclic_directed = (\<lambda>g. list_ex (\<lambda>(a, b). (b, a) \<in> set g) g), address = of_nat,
     depth_first_search = (\<lambda>g starts.
       if starts = [Thread 2, Thread 3] then self_deadlock_events
       else if starts = [Thread 2] then [Discover (Thread 2), TreeEdge (Thread 2) (Resource 64), Discover (Resource 64),
         BackEdge (Resource 64) (Thread 2), Finish (Resource 64), Finish (Thread 2)]
       else if starts = [Thread 3] then [Discover (Thread 3), TreeEdge (Thread 3) (Resource 64), Discover (Resource 64),
         Finish (Resource 64), Finish (Thread 3)]
       else []),
     hash_order = (\<lambda>c cs. cs)\<rparr>"

definition relock_world :: report_world where
  "relock_world = report_start sample_lot (holds_64 2) [2, 3]"

lemma sample_key: "key (threads sample_lot 2) = 64" "key (threads sample_lot 3) = 64"
  using waiting_key [OF sample_lot_wf, of _ 64] by (simp_all add: sample_lot_waiting)

lemma sample_sleeping: "sleeping sample_lot = {2, 3}"
  by (auto simp: sleeping_def enqueued_def sample_lot_waiting split: if_splits)

lemma relock_fresh: "fresh relock_world"
  by (auto simp: fresh_def ready_def relock_world_def report_start_def sample_lot_wf sample_sleeping sample_lot_timed_out
      holds_64_def DeadlockData_new_def)

lemma relock_one_target: "one_target (waits relock_world)"
  by (auto simp: one_target_def waits_def waits_for_def relock_world_def report_start_def holds_64_def DeadlockData_new_def blocked_def
      split: if_splits)

lemma relock_edges:
  assumes "\<forall>t. resources (D t) = resources (holds_64 2 t)"
  shows "thread_edges (threads sample_lot) D 2 = (if deadlocked (D 2) then [] else [(Resource 64, Thread 2), (Thread 2, Resource 64)])"
    "thread_edges (threads sample_lot) D 3 = (if deadlocked (D 3) then [] else [(Thread 3, Resource 64)])"
  using assms by (auto simp: thread_edges_def sample_lot_untimed sample_key holds_64_def DeadlockData_new_def)

lemma relock_search_ok: "search_ok relock_env relock_world"
proof -
  have "dfs_ok g (filter is_thread (graph_nodes g)) [] [] (depth_first_search relock_env g (filter is_thread (graph_nodes g)))"
    if r: "\<forall>t. resources (D t) = resources (holds_64 2 t)" and g: "wait_graph sample_lot D = Some g" for D g
  proof -
    have "g = (if deadlocked (D 2) then [] else [(Resource 64, Thread 2), (Thread 2, Resource 64)]) @
        (if deadlocked (D 3) then [] else [(Thread 3, Resource 64)])"
      using g by (simp add: sample_wait_graph relock_edges [OF r])
    then show ?thesis
      by (cases "deadlocked (D 2)"; cases "deadlocked (D 3)") (simp_all add: graph_nodes_def relock_env_def self_deadlock_events_def)
  qed
  then show ?thesis by (simp add: search_ok_def relock_world_def report_start_def) (simp add: relock_env_def)
qed

definition relock_schedule :: "(actor \<times> nat) list" where
  "relock_schedule = map (\<lambda>x. (x, 0))
     [Checker 9, Checker 9, Checker 9, Checker 9, Checker 9, Checker 9, Checker 9, Checker 9, Checker 9,
      Sleeper 2, Sleeper 2, Sleeper 2, Sleeper 2, Sleeper 2, Checker 9, Checker 9, Checker 9]"

lemma relock_graph:
  obtains tb where "HASHTABLE sample_lot = Some tb"
    "wait_graph_table (threads sample_lot) (holds_64 2) (entries tb) [] = Some [(Resource 64, Thread 2), (Thread 2, Resource 64), (Thread 3, Resource 64)]"
proof -
  have "wait_graph sample_lot (holds_64 2) = Some [(Resource 64, Thread 2), (Thread 2, Resource 64), (Thread 3, Resource 64)]"
    by (simp add: sample_wait_graph sample_edges)
  then show ?thesis using that by (auto simp: wait_graph_def bind_eq_Some_conv)
qed

lemma relock_cycles:
  "graph_cycles (hash_order relock_env c) (depth_first_search relock_env)
     [(Resource 64, Thread 2), (Thread 2, Resource 64), (Thread 3, Resource 64)] = Some [[2]]"
  by (simp add: graph_cycles_def relock_env_def graph_nodes_def self_deadlock_events_def normalize_cycle_def List.insert_def)

lemma holds_64_fields:
  "backtrace_sender (holds_64 u t) = None" "thread_id (holds_64 u t) = t" "\<not> deadlocked (holds_64 u t)"
  by (simp_all add: holds_64_def DeadlockData_new_def)

lemmas relock_step_defs = holds_64_fields new_channel_def mark_deadlocked_def clone_sender_def drop_sender_def send_def drop_receiver_def
  deadlock_on_unpark_def on_unpark_def unpark_lock_def prepare_park_def timed_out_def Let_def sample_lot_untimed

lemma relock_run:
  "\<exists>w. report_run relock_env relock_schedule relock_world = Some w \<and> checkers w 9 = Finished [[2]]"
proof -
  obtain tb where tb: "HASHTABLE sample_lot = Some tb"
    "wait_graph_table (threads sample_lot) (holds_64 2) (entries tb) [] = Some [(Resource 64, Thread 2), (Thread 2, Resource 64), (Thread 3, Resource 64)]"
    by (rule relock_graph)
  have fast: "check_wait_graph_fast (is_cyclic_directed relock_env) (address relock_env) 0 sample_lot (holds_64 2) = Some (True, sample_lot)"
    by (simp add: check_wait_graph_fast_def get_hashtable_def tb relock_env_def)
  show ?thesis
    by (simp add: relock_schedule_def relock_world_def report_start_def at_check_def fast get_hashtable_def tb relock_cycles relock_step_defs)
qed

text \<open>The claims at work: the call reports the cycle of thread 2 alone, within the bound.\<close>

theorem deadlock_reports_are_cycles_witness:
  "\<exists>w c. report_run relock_env relock_schedule relock_world = Some w \<and> checkers w 9 = Finished [[2]]
     \<and> reports_cycle relock_world [2] c \<and> (\<forall>t. sleepers w t \<noteq> Panicked)"
proof -
  obtain w where w: "report_run relock_env relock_schedule relock_world = Some w" "checkers w 9 = Finished [[2]]"
    using relock_run by blast
  note d = deadlock_reports_are_cycles [OF relock_fresh relock_search_ok relock_one_target w(1)]
  then obtain C where "\<forall>a rs. checkers w a = Finished rs \<longrightarrow> list_all2 (reports_cycle relock_world) rs (C a)" by blast
  then have "list_all2 (reports_cycle relock_world) [[2]] (C 9)" using w(2) by blast
  then show ?thesis using w d by (auto simp: list_all2_Cons1)
qed

theorem check_deadlock_returns_witness:
  "\<exists>w. report_run relock_env relock_schedule relock_world = Some w \<and> length relock_schedule \<le> 27"
proof -
  obtain w where w: "report_run relock_env relock_schedule relock_world = Some w" using relock_run by blast
  have "from_checkers {9} relock_schedule" by (simp add: from_checkers_def relock_schedule_def)
  then show ?thesis
    using check_deadlock_returns [OF relock_fresh relock_search_ok relock_one_target w, of "{9}"] w
    by (simp add: relock_world_def report_start_def sample_sleeping)
qed

section \<open>A thread on two cycles\<close>

text \<open>
  Two threads that hold a read lock both ask for the write lock: thread 2 has taken the writer bit and waits on key 65 for
  the readers to leave, thread 3 waits on key 64. As readers both have the resources 64 and 65.
\<close>

definition upgrade_lot :: ParkingLot where
  "upgrade_lot = the (do { l0 \<leftarrow> create_hashtable 0 empty_lot; l1 \<leftarrow> enq_lot 2 65 l0; enq_lot 3 64 l1 })"

definition both_read :: "tid \<Rightarrow> DeadlockData" where
  "both_read t = (DeadlockData_new t)\<lparr>resources := if t = 2 \<or> t = 3 then [64, 65] else []\<rparr>"

definition upgrade_world :: report_world where
  "upgrade_world = report_start upgrade_lot both_read [2, 3]"

lemma upgrade_lot_wf: "lot_wf upgrade_lot"
  and upgrade_lot_waiting: "waiting upgrade_lot = (\<lambda>_. [])(65 := [2], 64 := [3])"
  and upgrade_lot_asleep: "timed_out (parker (threads upgrade_lot 2))" "timed_out (parker (threads upgrade_lot 3))"
  and upgrade_lot_untimed: "\<not> parked_with_timeout (threads upgrade_lot 2)" "\<not> parked_with_timeout (threads upgrade_lot 3)"
proof -
  obtain l0 where l0: "create_hashtable 0 empty_lot = Some l0" "lot_wf l0" "\<And>k. waiting l0 k = []"
    using create_hashtable_wf [of empty_lot 0] by (auto simp: empty_lot_def)
  have w0: "waiting l0 = (\<lambda>_. [])" using l0(3) by (simp add: fun_eq_iff)
  obtain l1 where l1: "enq_lot 2 65 l0 = Some l1" "lot_wf l1" "waiting l1 = (\<lambda>_. [])(65 := [2])"
    using lot.enq_law [OF l0(2), of 2 65] by (auto simp: w0)
  obtain l2 where l2: "enq_lot 3 64 l1 = Some l2" "lot_wf l2" "waiting l2 = (\<lambda>_. [])(65 := [2], 64 := [3])"
    using lot.enq_law [OF l1(2), of 3 64] by (auto simp: l1(3))
  have s: "upgrade_lot = l2" using l0(1) l1(1) l2(1) by (simp add: upgrade_lot_def)
  have n: "\<not> enqueued l1 3" "\<not> enqueued l0 2" by (auto simp: enqueued_def l1(3) l0(3) split: if_splits)
  show "lot_wf upgrade_lot" "waiting upgrade_lot = (\<lambda>_. [])(65 := [2], 64 := [3])" using l2 by (simp_all add: s)
  show "timed_out (parker (threads upgrade_lot 2))" "timed_out (parker (threads upgrade_lot 3))"
    using enq_lot_parker [OF l1(2) n(1) l2(1)] enq_lot_parker [OF l0(2) n(2) l1(1), of 2]
    by (simp_all add: s timed_out_def prepare_park_def)
  show "\<not> parked_with_timeout (threads upgrade_lot 2)" "\<not> parked_with_timeout (threads upgrade_lot 3)"
    using enq_lot_untimed [OF l1(2) n(1) l2(1)] enq_lot_untimed [OF l0(2) n(2) l1(1)] by (auto simp: s)
qed

lemma upgrade_key: "key (threads upgrade_lot 2) = 65" "key (threads upgrade_lot 3) = 64"
  using waiting_key [OF upgrade_lot_wf, of 2 65] waiting_key [OF upgrade_lot_wf, of 3 64] by (simp_all add: upgrade_lot_waiting)

lemma upgrade_sleeping: "sleeping upgrade_lot = {2, 3}"
proof -
  have "2 \<in> set (waiting upgrade_lot 65)" "3 \<in> set (waiting upgrade_lot 64)" by (simp_all add: upgrade_lot_waiting)
  then have "{2, 3} \<subseteq> sleeping upgrade_lot" unfolding sleeping_def enqueued_def by blast
  moreover have "sleeping upgrade_lot \<subseteq> {2, 3}" by (auto simp: sleeping_def enqueued_def upgrade_lot_waiting split: if_splits)
  ultimately show ?thesis by blast
qed

lemma distinct_concat_map:
  assumes "\<And>i. i \<in> set is \<Longrightarrow> distinct (Q i)" and "\<And>i j. i \<in> set is \<Longrightarrow> j \<in> set is \<Longrightarrow> i \<noteq> j \<Longrightarrow> set (Q i) \<inter> set (Q j) = {}"
    and "distinct is"
  shows "distinct (concat (map Q is))"
  using assms
proof (induction "is")
  case (Cons i "is")
  have "distinct (concat (map Q is))" using Cons by (simp add: Ball_def)
  moreover have "set (Q i) \<inter> set (Q j) = {}" if "j \<in> set is" for j using Cons.prems(2) [of i j] Cons.prems(3) that by auto
  ultimately show ?case using Cons.prems(1) by auto
qed simp

text \<open>The order of the buckets of the two keys is left open: the queues are read in one order or the other.\<close>

lemma upgrade_wait_graph:
  obtains "\<And>D. wait_graph upgrade_lot D = Some (thread_edges (threads upgrade_lot) D 2 @ thread_edges (threads upgrade_lot) D 3)"
  | "\<And>D. wait_graph upgrade_lot D = Some (thread_edges (threads upgrade_lot) D 3 @ thread_edges (threads upgrade_lot) D 2)"
proof -
  obtain tb Q where rep: "lot_rep upgrade_lot tb Q" using upgrade_lot_wf by (rule lot_wf_rep)
  define q where "q = concat (map Q [0..<length (entries tb)])"
  have b: "bucket_queue (threads upgrade_lot, entries tb ! i) (Q i)" if "i < length (entries tb)" for i by (rule lot_repD(3) [OF rep that])
  have "distinct q" unfolding q_def
  proof (rule distinct_concat_map)
    fix i j assume i: "i \<in> set [0..<length (entries tb)]"
    then show "distinct (Q i)" using b [of i] by (simp add: bucket_queue_def)
    assume j: "j \<in> set [0..<length (entries tb)]" "i \<noteq> j"
    show "set (Q i) \<inter> set (Q j) = {}" using lot_repD(4) [OF rep, of i] lot_repD(4) [OF rep, of j] i j by fastforce
  qed simp
  moreover have "set q = {2, 3}"
    using upgrade_sleeping lot_rep_enqueued [OF rep] by (auto simp: q_def sleeping_def atLeast0LessThan)
  ultimately have "q = [2, 3] \<or> q = [3, 2]"
  proof -
    have "length q = 2" using distinct_card [OF \<open>distinct q\<close>] \<open>set q = {2, 3}\<close> by simp
    then obtain x y where "q = [x, y]" by (cases q rule: list.exhaust; cases "tl q") auto
    then show ?thesis using \<open>distinct q\<close> \<open>set q = {2, 3}\<close> by (auto simp: doubleton_eq_iff)
  qed
  moreover have "wait_graph upgrade_lot D = Some (concat (map (thread_edges (threads upgrade_lot) D) q))" for D
    using wait_graph_table_queues [of "entries tb" "threads upgrade_lot" Q D "[]"] b
    by (simp add: wait_graph_def lot_repD(1) [OF rep] q_def bucket_queue_def)
  ultimately show ?thesis using that by auto
qed

definition upgrade_events :: "tid \<Rightarrow> usize \<Rightarrow> tid \<Rightarrow> usize \<Rightarrow> DfsEvent list" where
  "upgrade_events t k u j = [Discover (Thread t), TreeEdge (Thread t) (Resource k), Discover (Resource k),
     BackEdge (Resource k) (Thread t), TreeEdge (Resource k) (Thread u), Discover (Thread u), TreeEdge (Thread u) (Resource j),
     Discover (Resource j), BackEdge (Resource j) (Thread t), BackEdge (Resource j) (Thread u), Finish (Resource j),
     Finish (Thread u), Finish (Resource k), Finish (Thread t)]"

definition one_event :: "tid \<Rightarrow> usize \<Rightarrow> DfsEvent list" where
  "one_event t k = [Discover (Thread t), TreeEdge (Thread t) (Resource k), Discover (Resource k),
     BackEdge (Resource k) (Thread t), Finish (Resource k), Finish (Thread t)]"

definition upgrade_env :: graph_env where
  "upgrade_env = \<lparr>is_cyclic_directed = (\<lambda>g. list_ex (\<lambda>(a, b). (b, a) \<in> set g) g), address = of_nat,
     depth_first_search = (\<lambda>g starts.
       if starts = [Thread 2, Thread 3] then upgrade_events 2 65 3 64
       else if starts = [Thread 3, Thread 2] then upgrade_events 3 64 2 65
       else if starts = [Thread 2] then one_event 2 65
       else if starts = [Thread 3] then one_event 3 64
       else []),
     hash_order = (\<lambda>c cs. if mset cs = mset [[2], [2, 3], [3]] then [[2], [2, 3], [3]] else cs)\<rparr>"

lemma upgrade_edges:
  assumes "\<forall>t. resources (D t) = resources (both_read t)"
  shows "thread_edges (threads upgrade_lot) D 2 =
      (if deadlocked (D 2) then [] else [(Resource 64, Thread 2), (Resource 65, Thread 2), (Thread 2, Resource 65)])"
    "thread_edges (threads upgrade_lot) D 3 =
      (if deadlocked (D 3) then [] else [(Resource 64, Thread 3), (Resource 65, Thread 3), (Thread 3, Resource 64)])"
  using assms by (auto simp: thread_edges_def upgrade_lot_untimed upgrade_key both_read_def DeadlockData_new_def)

lemma upgrade_fresh: "fresh upgrade_world"
  by (auto simp: fresh_def ready_def upgrade_world_def report_start_def upgrade_lot_wf upgrade_sleeping upgrade_lot_asleep
      both_read_def DeadlockData_new_def)

lemmas upgrade_event_defs = upgrade_env_def upgrade_events_def one_event_def

lemma upgrade_search_ok: "search_ok upgrade_env upgrade_world"
proof -
  have "dfs_ok g (filter is_thread (graph_nodes g)) [] [] (depth_first_search upgrade_env g (filter is_thread (graph_nodes g)))"
    if r: "\<forall>t. resources (D t) = resources (both_read t)" and g: "wait_graph upgrade_lot D = Some g" for D g
    by (rule upgrade_wait_graph; cases "deadlocked (D 2)"; cases "deadlocked (D 3)")
      (use g in \<open>auto simp: upgrade_edges [OF r] graph_nodes_def upgrade_event_defs\<close>)
  then show ?thesis by (simp add: search_ok_def upgrade_world_def report_start_def) (simp add: upgrade_env_def)
qed

text \<open>
  The checker finds the cycles 2, 2 3 and 3 and starts with the first one. Thread 2 reports itself and sleeps for ever. For
  the second cycle the checker marks and wakes it again.
\<close>

definition upgrade_schedule :: "(actor \<times> nat) list" where
  "upgrade_schedule = map (\<lambda>x. (x, 0))
     [Checker 9, Checker 9, Checker 9, Checker 9, Checker 9, Checker 9, Checker 9, Checker 9, Checker 9,
      Sleeper 2, Sleeper 2, Sleeper 2, Sleeper 2, Sleeper 2, Checker 9, Checker 9, Checker 9, Sleeper 2]"

lemma upgrade_graph:
  obtains tb g where "HASHTABLE upgrade_lot = Some tb" "wait_graph_table (threads upgrade_lot) both_read (entries tb) [] = Some g"
    "graph_cycles (hash_order upgrade_env 0) (depth_first_search upgrade_env) g = Some [[2], [2, 3], [3]]"
    "is_cyclic_directed upgrade_env (map (map_prod (node_addr of_nat) (node_addr of_nat)) g)"
proof -
  have e: "thread_edges (threads upgrade_lot) both_read 2 = [(Resource 64, Thread 2), (Resource 65, Thread 2), (Thread 2, Resource 65)]"
    "thread_edges (threads upgrade_lot) both_read 3 = [(Resource 64, Thread 3), (Resource 65, Thread 3), (Thread 3, Resource 64)]"
    using upgrade_edges [of both_read] by (simp_all add: both_read_def DeadlockData_new_def)
  have "\<exists>g. wait_graph upgrade_lot both_read = Some g
      \<and> graph_cycles (hash_order upgrade_env 0) (depth_first_search upgrade_env) g = Some [[2], [2, 3], [3]]
      \<and> is_cyclic_directed upgrade_env (map (map_prod (node_addr of_nat) (node_addr of_nat)) g)"
    by (rule upgrade_wait_graph)
      (simp_all add: e graph_cycles_def graph_nodes_def upgrade_event_defs normalize_cycle_def List.insert_def)
  then show ?thesis using that by (auto simp: wait_graph_def bind_eq_Some_conv)
qed

lemma both_read_fields:
  "backtrace_sender (both_read t) = None" "thread_id (both_read t) = t" "\<not> deadlocked (both_read t)"
  by (simp_all add: both_read_def DeadlockData_new_def)

text \<open>
  Without the condition that every thread waits for one other thread only, a woken thread runs into the
  \<open>unreachable!\<close> behind its last \<open>park\<close>.
\<close>

theorem thread_on_two_cycles_panics:
  "fresh upgrade_world \<and> search_ok upgrade_env upgrade_world
    \<and> (\<exists>w. report_run upgrade_env upgrade_schedule upgrade_world = Some w \<and> sleepers w 2 = Panicked)"
proof (intro conjI)
  obtain tb g where tb: "HASHTABLE upgrade_lot = Some tb" "wait_graph_table (threads upgrade_lot) both_read (entries tb) [] = Some g"
    "graph_cycles (hash_order upgrade_env 0) (depth_first_search upgrade_env) g = Some [[2], [2, 3], [3]]"
    "is_cyclic_directed upgrade_env (map (map_prod (node_addr of_nat) (node_addr of_nat)) g)"
    by (rule upgrade_graph)
  have addr: "address upgrade_env = of_nat" by (simp add: upgrade_env_def)
  have fast: "check_wait_graph_fast (is_cyclic_directed upgrade_env) (address upgrade_env) 0 upgrade_lot both_read = Some (True, upgrade_lot)"
    using tb by (simp add: check_wait_graph_fast_def get_hashtable_def addr)
  show "\<exists>w. report_run upgrade_env upgrade_schedule upgrade_world = Some w \<and> sleepers w 2 = Panicked"
    by (simp add: upgrade_schedule_def upgrade_world_def report_start_def at_check_def fast get_hashtable_def tb both_read_fields
        relock_step_defs upgrade_lot_untimed)
qed (rule upgrade_fresh upgrade_search_ok)+

end
