(* ===== verification/Parker_Platforms.thy ===== *)
theory Parker_Platforms
  imports Thread_Parker
begin

text \<open>
  The thread parkers of the platforms other than Linux, one section per file under
  \<open>core/src/thread_parker/\<close>. Each has its flag, the functions of the trait, the computation of the
  relative timeout it hands to the system, and an interpretation of the contract of \<open>ThreadParkerT\<close>. A loop of
  \<open>park_until\<close> runs over what its iterations observe: the flag, the clock in nanoseconds, and the result of the wait
  where the code looks at it; \<open>None\<close> is "still waiting when the observations end".
\<close>

section \<open>Spinning on a flag: generic.rs\<close>

record GenericParker =
  generic_parked :: bool

definition generic_new :: GenericParker where
  "generic_new = \<lparr>generic_parked = False\<rparr>"

definition generic_prepare_park :: "GenericParker \<Rightarrow> GenericParker" where
  "generic_prepare_park p = p\<lparr>generic_parked := True\<rparr>"

definition generic_timed_out :: "GenericParker \<Rightarrow> bool" where
  "generic_timed_out p \<longleftrightarrow> generic_parked p \<noteq> False"

definition generic_unpark_lock :: "GenericParker \<Rightarrow> GenericParker" where
  "generic_unpark_lock p = p\<lparr>generic_parked := False\<rparr>"

fun generic_park :: "bool list \<Rightarrow> unit option" where
  "generic_park [] = None"
| "generic_park (b # bs) = (if b \<noteq> False then generic_park bs else Some ())"

fun generic_park_until :: "nat \<Rightarrow> (bool \<times> nat) list \<Rightarrow> bool option" where
  "generic_park_until timeout [] = None"
| "generic_park_until timeout ((b, now) # obs) =
     (if b \<noteq> False then if timeout \<le> now then Some False else generic_park_until timeout obs else Some True)"

definition generic_expire :: "GenericParker \<Rightarrow> bool \<times> GenericParker" where
  "generic_expire p = (generic_parked p = False, p)"

interpretation generic: thread_parker
  generic_prepare_park generic_expire "\<lambda>p. (generic_unpark_lock p, ())" "\<lambda>h p. p" "\<lambda>p. Some (generic_timed_out p)"
  by unfold_locales
    (auto simp: generic_prepare_park_def generic_expire_def generic_unpark_lock_def generic_timed_out_def)

section \<open>Fortanix SGX: sgx.rs\<close>

text \<open>The enclave waits for an event sent to its thread control structure; \<open>WAIT_INDEFINITE\<close> comes from the system.\<close>

record SgxParker =
  sgx_parked :: bool
  tcs :: nat

datatype sgx_wait = SgxOk | SgxTimedOut | SgxWouldBlock | SgxError

definition sgx_new :: "nat \<Rightarrow> SgxParker" where
  "sgx_new current_tcs = \<lparr>sgx_parked = False, tcs = current_tcs\<rparr>"

definition sgx_prepare_park :: "SgxParker \<Rightarrow> SgxParker" where
  "sgx_prepare_park p = p\<lparr>sgx_parked := True\<rparr>"

definition sgx_timed_out :: "SgxParker \<Rightarrow> bool" where
  "sgx_timed_out p \<longleftrightarrow> sgx_parked p"

definition sgx_unpark_lock :: "SgxParker \<Rightarrow> SgxParker \<times> nat" where
  "sgx_unpark_lock p = (p\<lparr>sgx_parked := False\<rparr>, tcs p)"

text \<open>\<open>checked_duration_since\<close> gives no duration only if the deadline lies strictly in the past.\<close>

definition checked_duration_since :: "nat \<Rightarrow> nat \<Rightarrow> nat option" where
  "checked_duration_since timeout now = (if now \<le> timeout then Some (timeout - now) else None)"

definition sgx_wait_nanos :: "nat \<Rightarrow> nat \<Rightarrow> 64 word" where
  "sgx_wait_nanos WAIT_INDEFINITE remaining = of_nat (min remaining (WAIT_INDEFINITE - 1))"

fun sgx_park_until :: "(64 word \<Rightarrow> nat \<Rightarrow> sgx_wait) \<Rightarrow> nat \<Rightarrow> nat \<Rightarrow> (bool \<times> nat) list \<Rightarrow> bool option" where
  "sgx_park_until wait WAIT_INDEFINITE timeout [] = None"
| "sgx_park_until wait WAIT_INDEFINITE timeout ((b, now) # obs) =
     (if b then
        (case checked_duration_since timeout now of
           None \<Rightarrow> Some False
         | Some remaining \<Rightarrow>
             (case wait (sgx_wait_nanos WAIT_INDEFINITE remaining) (length obs) of
                SgxTimedOut \<Rightarrow> Some False
              | SgxWouldBlock \<Rightarrow> Some False
              | _ \<Rightarrow> sgx_park_until wait WAIT_INDEFINITE timeout obs))
      else Some True)"

definition sgx_expire :: "SgxParker \<Rightarrow> bool \<times> SgxParker" where
  "sgx_expire p = (\<not> sgx_parked p, p)"

text \<open>When it is the wait that reports the timeout the flag is not looked at again.\<close>

definition sgx_expire_wait :: "SgxParker \<Rightarrow> bool \<times> SgxParker" where
  "sgx_expire_wait p = (False, p)"

lemmas sgx_defs = sgx_prepare_park_def sgx_expire_def sgx_expire_wait_def sgx_unpark_lock_def sgx_timed_out_def

interpretation sgx: thread_parker
  sgx_prepare_park sgx_expire sgx_unpark_lock "\<lambda>h p. p" "\<lambda>p. Some (sgx_timed_out p)"
  by unfold_locales (auto simp: sgx_defs)

interpretation sgx_late: thread_parker
  sgx_prepare_park sgx_expire_wait sgx_unpark_lock "\<lambda>h p. p" "\<lambda>p. Some (sgx_timed_out p)"
  by unfold_locales (auto simp: sgx_defs)

section \<open>Redox: redox.rs\<close>

record RedoxParker =
  redox_futex :: "32 word"

definition REDOX_UNPARKED :: "32 word" where
  "REDOX_UNPARKED = 0"

definition REDOX_PARKED :: "32 word" where
  "REDOX_PARKED = 1"

definition redox_new :: RedoxParker where
  "redox_new = \<lparr>redox_futex = REDOX_UNPARKED\<rparr>"

definition redox_prepare_park :: "RedoxParker \<Rightarrow> RedoxParker" where
  "redox_prepare_park p = p\<lparr>redox_futex := REDOX_PARKED\<rparr>"

definition redox_timed_out :: "RedoxParker \<Rightarrow> bool" where
  "redox_timed_out p \<longleftrightarrow> redox_futex p \<noteq> REDOX_UNPARKED"

definition redox_unpark_lock :: "RedoxParker \<Rightarrow> RedoxParker" where
  "redox_unpark_lock p = p\<lparr>redox_futex := REDOX_UNPARKED\<rparr>"

fun redox_park :: "32 word list \<Rightarrow> bool option" where
  "redox_park [] = None"
| "redox_park (w # ws) = (if w \<noteq> REDOX_UNPARKED then redox_park ws else Some True)"

fun redox_park_until :: "nat \<Rightarrow> (32 word \<times> nat) list \<Rightarrow> bool option" where
  "redox_park_until timeout [] = None"
| "redox_park_until timeout ((w, now) # obs) =
     (if w \<noteq> REDOX_UNPARKED then
        if timeout \<le> now then Some False
        else if (timeout - now) div 1000000000 > 2 ^ 63 - 1 then redox_park (map fst obs)
        else redox_park_until timeout obs
      else Some True)"

definition redox_expire :: "RedoxParker \<Rightarrow> bool \<times> RedoxParker" where
  "redox_expire p = (redox_futex p = REDOX_UNPARKED, p)"

lemmas redox_defs = redox_prepare_park_def redox_expire_def redox_unpark_lock_def redox_timed_out_def
  REDOX_UNPARKED_def REDOX_PARKED_def

interpretation redox: thread_parker
  redox_prepare_park redox_expire "\<lambda>p. (redox_unpark_lock p, ())" "\<lambda>h p. p" "\<lambda>p. Some (redox_timed_out p)"
  by unfold_locales (auto simp: redox_defs)

section \<open>WebAssembly with atomics: wasm\_atomic.rs\<close>

record WasmParker =
  wasm_parked :: "32 word"

definition WASM_UNPARKED :: "32 word" where
  "WASM_UNPARKED = 0"

definition WASM_PARKED :: "32 word" where
  "WASM_PARKED = 1"

definition wasm_new :: WasmParker where
  "wasm_new = \<lparr>wasm_parked = WASM_UNPARKED\<rparr>"

definition wasm_prepare_park :: "WasmParker \<Rightarrow> WasmParker" where
  "wasm_prepare_park p = p\<lparr>wasm_parked := WASM_PARKED\<rparr>"

definition wasm_timed_out :: "WasmParker \<Rightarrow> bool" where
  "wasm_timed_out p \<longleftrightarrow> wasm_parked p = WASM_PARKED"

definition wasm_unpark_lock :: "WasmParker \<Rightarrow> WasmParker" where
  "wasm_unpark_lock p = p\<lparr>wasm_parked := WASM_UNPARKED\<rparr>"

fun wasm_park :: "32 word list \<Rightarrow> unit option" where
  "wasm_park [] = None"
| "wasm_park (w # ws) = (if w = WASM_PARKED then wasm_park ws else Some ())"

fun wasm_park_until :: "nat \<Rightarrow> (32 word \<times> nat) list \<Rightarrow> bool option" where
  "wasm_park_until timeout [] = None"
| "wasm_park_until timeout ((w, now) # obs) =
     (if w = WASM_PARKED then
        (case checked_duration_since timeout now of Some left \<Rightarrow> wasm_park_until timeout obs | None \<Rightarrow> Some False)
      else Some True)"

text \<open>The nanoseconds handed to the wait instruction: a signed 64-bit number.\<close>

definition wasm_nanos_left :: "nat \<Rightarrow> int" where
  "wasm_nanos_left left = (if left \<le> 2 ^ 63 - 1 then int left else 2 ^ 63 - 1)"

definition wasm_expire :: "WasmParker \<Rightarrow> bool \<times> WasmParker" where
  "wasm_expire p = (wasm_parked p \<noteq> WASM_PARKED, p)"

lemmas wasm_defs = wasm_prepare_park_def wasm_expire_def wasm_unpark_lock_def wasm_timed_out_def
  WASM_UNPARKED_def WASM_PARKED_def

interpretation wasm: thread_parker
  wasm_prepare_park wasm_expire "\<lambda>p. (wasm_unpark_lock p, ())" "\<lambda>h p. p" "\<lambda>p. Some (wasm_timed_out p)"
  by unfold_locales (auto simp: wasm_defs)

section \<open>POSIX threads: unix.rs\<close>

datatype unix_platform = Apple | Android | Espidf | OtherUnix

datatype unix_clock = REALTIME | MONOTONIC

text \<open>
  The mutex of \<open>libc\<close> appears as the flag that says whether somebody holds it, the condition variable by the clock
  its deadlines are read on; \<open>PTHREAD_COND_INITIALIZER\<close> gives the real-time clock.
\<close>

record UnixParker =
  should_park :: bool
  mutex_held :: bool
  condvar_clock :: unix_clock
  initialized :: bool

definition unix_new :: UnixParker where
  "unix_new = \<lparr>should_park = False, mutex_held = False, condvar_clock = REALTIME, initialized = False\<rparr>"

definition unix_init :: "unix_platform \<Rightarrow> UnixParker \<Rightarrow> UnixParker" where
  "unix_init os p = (if os \<in> {Apple, Android, Espidf} then p else p\<lparr>condvar_clock := MONOTONIC\<rparr>)"

definition unix_prepare_park :: "unix_platform \<Rightarrow> UnixParker \<Rightarrow> UnixParker" where
  "unix_prepare_park os p = (let p = p\<lparr>should_park := True\<rparr> in
     if \<not> initialized p then (unix_init os p)\<lparr>initialized := True\<rparr> else p)"

text \<open>\<open>None\<close>: the call waits for the mutex, which the unparker holds from \<open>unpark_lock\<close> to \<open>unpark\<close>.\<close>

definition unix_timed_out :: "UnixParker \<Rightarrow> bool option" where
  "unix_timed_out p = (if mutex_held p then None else Some (should_park p))"

definition unix_unpark_lock :: "UnixParker \<Rightarrow> UnixParker" where
  "unix_unpark_lock p = p\<lparr>mutex_held := True\<rparr>"

definition unix_unpark :: "UnixParker \<Rightarrow> UnixParker" where
  "unix_unpark p = p\<lparr>should_park := False, mutex_held := False\<rparr>"

text \<open>\<open>park_until\<close> holds the mutex when it looks at the clock and releases it before it returns.\<close>

definition unix_expire :: "UnixParker \<Rightarrow> bool \<times> UnixParker" where
  "unix_expire p = (\<not> should_park p, p)"

definition timespec_now_clock :: "unix_platform \<Rightarrow> unix_clock" where
  "timespec_now_clock os = (if os = Apple then REALTIME else if os = Android then REALTIME else MONOTONIC)"

definition checked_add_time :: "int \<Rightarrow> int \<Rightarrow> int \<Rightarrow> int option" where
  "checked_add_time time_max a b = (if - time_max - 1 \<le> a + b \<and> a + b \<le> time_max then Some (a + b) else None)"

definition timeout_to_timespec :: "int \<Rightarrow> int \<times> int \<Rightarrow> int \<Rightarrow> (int \<times> int) option" where
  "timeout_to_timespec time_max now timeout =
     (if timeout div 1000000000 > time_max then None
      else
        let nsec = snd now + timeout mod 1000000000;
            sec = checked_add_time time_max (fst now) (timeout div 1000000000)
        in if nsec \<ge> 1000000000
           then map_option (\<lambda>sec. (sec, nsec - 1000000000)) (Option.bind sec (\<lambda>sec. checked_add_time time_max sec 1))
           else map_option (\<lambda>sec. (sec, nsec)) sec)"

lemmas unix_defs = unix_prepare_park_def unix_init_def unix_expire_def unix_unpark_lock_def unix_unpark_def unix_timed_out_def

text \<open>The contract is about a parker whose mutex nobody else holds when the thread starts to park.\<close>

definition unix_prepare :: "unix_platform \<Rightarrow> UnixParker \<Rightarrow> UnixParker" where
  "unix_prepare os p = unix_prepare_park os (p\<lparr>mutex_held := False\<rparr>)"

interpretation unix: thread_parker
  "unix_prepare os" unix_expire "\<lambda>p. (unix_unpark_lock p, ())" "\<lambda>h. unix_unpark" unix_timed_out for os
  by unfold_locales (auto simp: unix_defs unix_prepare_def Let_def)

text \<open>
  On every POSIX platform but one the deadline that \<open>park_until\<close> computes is on the clock that the condition
  variable reads it on, for a parker made by \<open>new\<close> however often it has been prepared; on ESP-IDF the condition variable
  stays on the real-time clock and the deadline is computed on the monotonic one.
\<close>

theorem unix_deadline_clock:
  "condvar_clock ((unix_prepare_park os ^^ Suc n) unix_new) = timespec_now_clock os \<longleftrightarrow> os \<noteq> Espidf"
proof -
  have "condvar_clock ((unix_prepare_park os ^^ Suc n) unix_new) = (if os = OtherUnix then MONOTONIC else REALTIME)
      \<and> initialized ((unix_prepare_park os ^^ Suc n) unix_new)"
    by (induction n) (cases os; simp add: unix_defs unix_new_def Let_def)+
  then show ?thesis by (cases os) (simp_all add: timespec_now_clock_def)
qed

text \<open>
  The absolute deadline is exact: if the addition does not overflow, the result is the current time plus the
  timeout in a normalized \<open>timespec\<close>; there is no result exactly if the seconds of the timeout or of that sum do not fit a
  \<open>time_t\<close>, and then the thread sleeps without a deadline.
\<close>

theorem timeout_to_timespec_exact:
  assumes "0 \<le> nsec" "nsec < 1000000000" "- time_max - 1 \<le> sec" "sec \<le> time_max" "0 \<le> timeout" "0 \<le> time_max"
  shows "timeout_to_timespec time_max (sec, nsec) timeout =
    (let deadline = sec * 1000000000 + nsec + timeout in
     if timeout div 1000000000 \<le> time_max \<and> deadline div 1000000000 \<le> time_max
     then Some (deadline div 1000000000, deadline mod 1000000000) else None)"
proof -
  define s n where "s = timeout div 1000000000" and "n = timeout mod 1000000000"
  have t: "timeout = s * 1000000000 + n" "0 \<le> n" "n < 1000000000" "0 \<le> s"
    using assms(5) by (simp_all add: s_def n_def pos_imp_zdiv_nonneg_iff)
  have e: "sec * 1000000000 + nsec + timeout = (nsec + n) + (sec + s) * 1000000000"
    unfolding t(1) by (simp add: algebra_simps)
  note d = e [THEN arg_cong, of "\<lambda>x. x div 1000000000", unfolded div_mult_self1 [OF zero_neq_numeral [symmetric]]]
    e [THEN arg_cong, of "\<lambda>x. x mod 1000000000", unfolded mod_mult_self1]
  show ?thesis
  proof (cases "nsec + n \<ge> 1000000000")
    case True
    then have q: "(nsec + n) div 1000000000 = 1" "(nsec + n) mod 1000000000 = nsec + n - 1000000000"
      using assms(2) t(3) int_div_pos_eq [of "nsec + n" 1000000000 1 "nsec + n - 1000000000"]
        int_mod_pos_eq [of "nsec + n" 1000000000 1 "nsec + n - 1000000000"] by simp_all
    show ?thesis using assms(3,4,6) t(4) True
      by (simp add: timeout_to_timespec_def checked_add_time_def Let_def d q s_def [symmetric] n_def [symmetric] not_le)
  next
    case False
    then have q: "(nsec + n) div 1000000000 = 0" "(nsec + n) mod 1000000000 = nsec + n"
      using assms(1) t(2) by simp_all
    show ?thesis using assms(3,4,6) t(4) False
      by (simp add: timeout_to_timespec_def checked_add_time_def Let_def d q s_def [symmetric] n_def [symmetric] not_le)
  qed
qed

theorem timeout_to_timespec_exact_witness:
  "timeout_to_timespec 2147483647 (2147483000, 999999999) 600000000001 = Some (2147483601, 0)
   \<and> timeout_to_timespec 2147483647 (2147483000, 999999999) 647000000001 = None"
  using timeout_to_timespec_exact [of 999999999 2147483647 2147483000 600000000001]
    timeout_to_timespec_exact [of 999999999 2147483647 2147483000 647000000001]
  by (simp add: Let_def)

end
