(* ===== verification/Parker_Windows.thy ===== *)
theory Parker_Windows
  imports Thread_Parker
begin

text \<open>
  The thread parker of Windows, \<open>core/src/thread_parker/windows/\<close>: the choice of the backend in \<open>mod.rs\<close>, the backend
  on NT keyed events of \<open>keyed_event.rs\<close>, the one on \<open>WaitOnAddress\<close> of \<open>waitaddress.rs\<close>, and the rendezvous of
  \<open>park_until\<close> and \<open>unpark\<close> through a keyed event as a step relation. What the system answers is an argument.
\<close>

section \<open>Backends\<close>

text \<open>Handles and addresses of functions are numbers.\<close>

record KeyedEvent =
  handle :: nat
  NtReleaseKeyedEvent :: nat
  NtWaitForKeyedEvent :: nat

record WaitAddress =
  WaitOnAddress :: nat
  WakeByAddressSingle :: nat

datatype Backend = KeyedEventBackend KeyedEvent | WaitAddressBackend WaitAddress

datatype win_error = NoBackend

definition STATUS_SUCCESS :: int where
  "STATUS_SUCCESS = 0"

definition keyed_create :: "bool \<Rightarrow> (string \<Rightarrow> nat option) \<Rightarrow> (nat \<Rightarrow> int \<times> nat) \<Rightarrow> KeyedEvent option" where
  "keyed_create ntdll_found GetProcAddress call =
     (if \<not> ntdll_found then None
      else Option.bind (GetProcAddress ''NtCreateKeyedEvent'') (\<lambda>create.
           Option.bind (GetProcAddress ''NtReleaseKeyedEvent'') (\<lambda>release.
           Option.bind (GetProcAddress ''NtWaitForKeyedEvent'') (\<lambda>wait.
             let (status, h) = call create in
             if status \<noteq> STATUS_SUCCESS then None
             else Some \<lparr>handle = h, NtReleaseKeyedEvent = release, NtWaitForKeyedEvent = wait\<rparr>))))"

definition waitaddress_create :: "bool \<Rightarrow> (string \<Rightarrow> nat option) \<Rightarrow> WaitAddress option" where
  "waitaddress_create synch_dll_found GetProcAddress =
     (if \<not> synch_dll_found then None
      else Option.bind (GetProcAddress ''WaitOnAddress'') (\<lambda>wait.
           Option.bind (GetProcAddress ''WakeByAddressSingle'') (\<lambda>wake.
             Some \<lparr>WaitOnAddress = wait, WakeByAddressSingle = wake\<rparr>)))"

text \<open>
  \<open>BACKEND\<close> is null or the backend everyone uses. A thread that finds it null makes its own and publishes it by a
  compare-exchange from null; the loser of a race drops its own and takes what it found.
\<close>

definition Backend_choose :: "WaitAddress option \<Rightarrow> KeyedEvent option \<Rightarrow> win_error + Backend" where
  "Backend_choose waitaddress keyed_event = (case waitaddress of
     Some w \<Rightarrow> Inr (WaitAddressBackend w)
   | None \<Rightarrow> (case keyed_event of Some k \<Rightarrow> Inr (KeyedEventBackend k) | None \<Rightarrow> Inl NoBackend))"

definition Backend_publish :: "Backend \<Rightarrow> Backend option \<Rightarrow> Backend \<times> Backend option" where
  "Backend_publish b BACKEND = (case BACKEND of None \<Rightarrow> (b, Some b) | Some g \<Rightarrow> (g, Some g))"

text \<open>The outcome of \<open>get\<close> for a thread that loads \<open>seen\<close> and, if it has to publish, finds \<open>BACKEND\<close>.\<close>

definition Backend_get :: "WaitAddress option \<Rightarrow> KeyedEvent option \<Rightarrow> Backend option \<Rightarrow> Backend option \<Rightarrow>
    (win_error + Backend) \<times> Backend option" where
  "Backend_get waitaddress keyed_event seen BACKEND = (case seen of
     Some b \<Rightarrow> (Inr b, BACKEND)
   | None \<Rightarrow> (case Backend_choose waitaddress keyed_event of
       Inl e \<Rightarrow> (Inl e, BACKEND)
     | Inr b \<Rightarrow> map_prod Inr id (Backend_publish b BACKEND)))"

lemma Backend_get_once:
  "fst (Backend_get w k None (Some g)) = Inr g \<or> Backend_choose w k = Inl NoBackend"
  "Backend_get w k None B = (Inr b, B') \<Longrightarrow> B' = Some b"
  "snd (Backend_get w k seen (Some g)) = Some g"
  by (auto simp: Backend_get_def Backend_choose_def Backend_publish_def split: option.splits sum.splits)

section \<open>Keyed events\<close>

definition STATE_UNPARKED :: usize where
  "STATE_UNPARKED = 0"

definition STATE_PARKED :: usize where
  "STATE_PARKED = 1"

definition STATE_TIMED_OUT :: usize where
  "STATE_TIMED_OUT = 2"

definition keyed_prepare_park :: "usize \<Rightarrow> usize" where
  "keyed_prepare_park k = STATE_PARKED"

definition keyed_timed_out :: "usize \<Rightarrow> bool" where
  "keyed_timed_out k \<longleftrightarrow> k = STATE_TIMED_OUT"

text \<open>The handle says whether \<open>unpark\<close> has a key to release: false is the null pointer.\<close>

definition keyed_unpark_lock :: "usize \<Rightarrow> usize \<times> bool" where
  "keyed_unpark_lock k = (STATE_UNPARKED, k = STATE_PARKED)"

text \<open>After the deadline: swap the state and, if it was unparked, wait for the release and report that.\<close>

definition keyed_expire :: "usize \<Rightarrow> bool \<times> usize" where
  "keyed_expire k = (k = STATE_UNPARKED, STATE_TIMED_OUT)"

text \<open>
  The relative timeout in units of 100 nanoseconds, negative as the system wants it, in signed 64-bit
  arithmetic; the conversion of the seconds from \<open>u64\<close> wraps.
\<close>

definition i64_checked :: "int \<Rightarrow> int option" where
  "i64_checked x = (if - (2 ^ 63) \<le> x \<and> x < 2 ^ 63 then Some x else None)"

definition keyed_nt_timeout :: "64 word \<Rightarrow> int \<Rightarrow> int option" where
  "keyed_nt_timeout secs subsec_nanos =
     Option.bind (i64_checked (sint secs * (- 10000000))) (\<lambda>x. i64_checked (x - (subsec_nanos + 99) div 100))"

section \<open>WaitOnAddress\<close>

definition INFINITE :: "32 word" where
  "INFINITE = 4294967295"

definition waitaddress_prepare_park :: "usize \<Rightarrow> usize" where
  "waitaddress_prepare_park k = 1"

definition waitaddress_timed_out :: "usize \<Rightarrow> bool" where
  "waitaddress_timed_out k \<longleftrightarrow> k \<noteq> 0"

definition waitaddress_unpark_lock :: "usize \<Rightarrow> usize" where
  "waitaddress_unpark_lock k = 0"

fun waitaddress_park :: "usize list \<Rightarrow> unit option" where
  "waitaddress_park [] = None"
| "waitaddress_park (k # ks) = (if k \<noteq> 0 then waitaddress_park ks else Some ())"

fun waitaddress_park_until :: "nat \<Rightarrow> (usize \<times> nat) list \<Rightarrow> bool option" where
  "waitaddress_park_until timeout [] = None"
| "waitaddress_park_until timeout ((k, now) # obs) =
     (if k \<noteq> 0 then if timeout \<le> now then Some False else waitaddress_park_until timeout obs else Some True)"

definition waitaddress_expire :: "usize \<Rightarrow> bool \<times> usize" where
  "waitaddress_expire k = (k = 0, k)"

definition u64_checked :: "int \<Rightarrow> int option" where
  "u64_checked x = (if x < 2 ^ 64 then Some x else None)"

definition waitaddress_millis :: "int \<Rightarrow> int \<Rightarrow> 32 word" where
  "waitaddress_millis secs subsec_nanos =
     (case Option.bind (u64_checked (secs * 1000)) (\<lambda>x. u64_checked (x + (subsec_nanos + 999999) div 1000000)) of
        Some ms \<Rightarrow> if ms > 2 ^ 32 - 1 then INFINITE else word_of_int ms
      | None \<Rightarrow> INFINITE)"

section \<open>The parker\<close>

record WindowsParker =
  wkey :: usize
  backend :: Backend

datatype win_handle = KeyedHandle bool | WaitAddressHandle

definition windows_new :: "Backend \<Rightarrow> WindowsParker" where
  "windows_new b = \<lparr>wkey = 0, backend = b\<rparr>"

definition windows_prepare_park :: "WindowsParker \<Rightarrow> WindowsParker" where
  "windows_prepare_park p = p\<lparr>wkey := (case backend p of
     KeyedEventBackend x \<Rightarrow> keyed_prepare_park (wkey p) | WaitAddressBackend x \<Rightarrow> waitaddress_prepare_park (wkey p))\<rparr>"

definition windows_timed_out :: "WindowsParker \<Rightarrow> bool" where
  "windows_timed_out p = (case backend p of
     KeyedEventBackend x \<Rightarrow> keyed_timed_out (wkey p) | WaitAddressBackend x \<Rightarrow> waitaddress_timed_out (wkey p))"

definition windows_unpark_lock :: "WindowsParker \<Rightarrow> WindowsParker \<times> win_handle" where
  "windows_unpark_lock p = (case backend p of
     KeyedEventBackend x \<Rightarrow> (let (k, h) = keyed_unpark_lock (wkey p) in (p\<lparr>wkey := k\<rparr>, KeyedHandle h))
   | WaitAddressBackend x \<Rightarrow> (p\<lparr>wkey := waitaddress_unpark_lock (wkey p)\<rparr>, WaitAddressHandle))"

definition windows_expire :: "WindowsParker \<Rightarrow> bool \<times> WindowsParker" where
  "windows_expire p = (case backend p of
     KeyedEventBackend x \<Rightarrow> (let (r, k) = keyed_expire (wkey p) in (r, p\<lparr>wkey := k\<rparr>))
   | WaitAddressBackend x \<Rightarrow> (let (r, k) = waitaddress_expire (wkey p) in (r, p\<lparr>wkey := k\<rparr>)))"

lemmas windows_defs = windows_prepare_park_def windows_timed_out_def windows_unpark_lock_def windows_expire_def
  keyed_prepare_park_def keyed_timed_out_def keyed_unpark_lock_def keyed_expire_def
  waitaddress_prepare_park_def waitaddress_timed_out_def waitaddress_unpark_lock_def waitaddress_expire_def
  STATE_UNPARKED_def STATE_PARKED_def STATE_TIMED_OUT_def

text \<open>Neither \<open>release\<close> nor \<open>WakeByAddressSingle\<close> changes the state that \<open>timed_out\<close> reads.\<close>

interpretation windows: thread_parker
  windows_prepare_park windows_expire windows_unpark_lock "\<lambda>h p. p" "\<lambda>p. Some (windows_timed_out p)"
  by unfold_locales (auto simp: windows_defs split: Backend.splits if_splits)

section \<open>Timeouts\<close>

lemma ceiling_div:
  fixes a m :: int
  assumes "0 < m"
  shows "a \<le> (a + (m - 1)) div m * m" and "(a + (m - 1)) div m * m < a + m"
proof -
  have "(a + (m - 1)) div m * m = a + (m - 1) - (a + (m - 1)) mod m" by (simp add: minus_mod_eq_div_mult)
  moreover have "0 \<le> (a + (m - 1)) mod m" "(a + (m - 1)) mod m < m" using assms by simp_all
  ultimately show "a \<le> (a + (m - 1)) div m * m" "(a + (m - 1)) div m * m < a + m" by linarith+
qed

text \<open>
  The timeouts handed to Windows never end early by rounding and end less than one unit late: the keyed
  event waits for the remaining time rounded up to 100 nanoseconds, for every number of seconds that fits an \<open>i64\<close>,
  and \<open>WaitOnAddress\<close> for the remaining time rounded up to a millisecond unless that does not fit, in which
  case it waits without a deadline.
\<close>

theorem windows_timeouts_round_up:
  assumes n: "0 \<le> n" "n < 1000000000" and "uint secs < 2 ^ 63"
    and k: "keyed_nt_timeout secs n = Some x" and w: "waitaddress_millis (uint secs) n \<noteq> INFINITE"
  defines "left \<equiv> uint secs * 1000000000 + n"
  shows "left \<le> - x * 100 \<and> - x * 100 < left + 100
    \<and> left \<le> uint (waitaddress_millis (uint secs) n) * 1000000
    \<and> uint (waitaddress_millis (uint secs) n) * 1000000 < left + 1000000"
proof -
  have "- (2 ^ 63) \<le> uint secs" by (rule order_trans [OF _ uint_ge_0]) simp
  then have s: "sint secs = uint secs" using assms(3) by (simp add: sint_uint signed_take_bit_int_eq_self)
  have x: "x = - (uint secs * 10000000 + (n + 99) div 100)"
    using k by (auto simp: keyed_nt_timeout_def i64_checked_def s split: if_splits bind_splits)
  define ms where "ms = uint secs * 1000 + (n + 999999) div 1000000"
  have "waitaddress_millis (uint secs) n = word_of_int ms" "ms < 2 ^ 32"
    using w by (auto simp: waitaddress_millis_def u64_checked_def ms_def split: if_splits bind_splits option.splits)
  moreover have "0 \<le> ms" using n(1) by (simp add: ms_def)
  ultimately have m: "uint (waitaddress_millis (uint secs) n) = uint secs * 1000 + (n + 999999) div 1000000"
    by (simp add: uint_word_of_int_eq take_bit_int_eq_self) (simp add: ms_def)
  show ?thesis
    using ceiling_div [of 100 n] ceiling_div [of 1000000 n] by (simp add: x m left_def algebra_simps)
qed

theorem windows_timeouts_round_up_witness:
  "keyed_nt_timeout 3 250 = Some (- 30000003) \<and> uint (waitaddress_millis 3 250) * 1000000 < 3001000250"
proof -
  have k: "keyed_nt_timeout 3 250 = Some (- 30000003)" by (simp add: keyed_nt_timeout_def i64_checked_def)
  have w: "waitaddress_millis (uint (3 :: 64 word)) 250 \<noteq> INFINITE"
    by (simp add: waitaddress_millis_def u64_checked_def INFINITE_def)
  show ?thesis using windows_timeouts_round_up [of 250 3, OF _ _ _ k w] k by simp
qed

text \<open>
  Beyond that bound the conversion of the seconds to \<open>i64\<close> wraps and the check for an overflow does not see it: a remaining time
  of more than \<open>2 ^ 64 - 1000\<close> seconds becomes a positive number, which the system reads as a date long past.
\<close>

theorem keyed_nt_timeout_wraps: "keyed_nt_timeout (- 1000) 0 = Some 10000000000"
  by (simp add: keyed_nt_timeout_def i64_checked_def)

end
