(* ===== verification/Parker_Machines.thy ===== *)
theory Parker_Machines
  imports Parker_Platforms Parker_Windows
begin

text \<open>
  A thread that parks and a thread that unparks it, step by step, for every thread parker that can sleep: on a word
  that the system compares before it puts the thread to sleep (Linux, Redox, WebAssembly, \<open>WaitOnAddress\<close>), on a mutex
  and a condition variable (POSIX), and on a keyed event (Windows). \<open>timed\<close> says whether the thread runs \<open>park_until\<close>;
  its deadline may pass at any time. What the system calls do is an argument, and what the code relies on of them a hypothesis.
\<close>

section \<open>Parking on a word\<close>

datatype unpark_pc = UnparkIdle | UnparkLocked | UnparkDone

datatype sleep_pc = AtTest | AtClock | InWait | Asleep | Returned bool

text \<open>
  What the loops use of a parker: how it is prepared, the test of the loop, what \<open>unpark_lock\<close> stores, whether the wait
  call may put the thread to sleep, and whether the wake call may leave a sleeper asleep.
\<close>

record 'p sleeper =
  set_parked :: "'p \<Rightarrow> 'p"
  still_parked :: "'p \<Rightarrow> bool"
  clear_parked :: "'p \<Rightarrow> 'p"
  may_sleep :: "'p \<Rightarrow> bool"
  wake_misses :: bool

definition linux_sleeper :: "(32 word \<Rightarrow> 32 word \<Rightarrow> bool) \<Rightarrow> bool \<Rightarrow> ThreadParker sleeper" where
  "linux_sleeper FUTEX_WAIT misses = \<lparr>set_parked = prepare_park, still_parked = (\<lambda>p. futex p \<noteq> 0),
     clear_parked = unpark_lock, may_sleep = (\<lambda>p. FUTEX_WAIT (futex p) 1), wake_misses = misses\<rparr>"

definition redox_sleeper :: "(32 word \<Rightarrow> 32 word \<Rightarrow> bool) \<Rightarrow> bool \<Rightarrow> RedoxParker sleeper" where
  "redox_sleeper FUTEX_WAIT misses = \<lparr>set_parked = redox_prepare_park, still_parked = (\<lambda>p. redox_futex p \<noteq> REDOX_UNPARKED),
     clear_parked = redox_unpark_lock, may_sleep = (\<lambda>p. FUTEX_WAIT (redox_futex p) REDOX_PARKED), wake_misses = misses\<rparr>"

definition wasm_sleeper :: "(32 word \<Rightarrow> 32 word \<Rightarrow> bool) \<Rightarrow> bool \<Rightarrow> WasmParker sleeper" where
  "wasm_sleeper memory_atomic_wait32 misses = \<lparr>set_parked = wasm_prepare_park, still_parked = (\<lambda>p. wasm_parked p = WASM_PARKED),
     clear_parked = wasm_unpark_lock, may_sleep = (\<lambda>p. memory_atomic_wait32 (wasm_parked p) WASM_PARKED), wake_misses = misses\<rparr>"

definition waitaddress_sleeper :: "(usize \<Rightarrow> usize \<Rightarrow> bool) \<Rightarrow> bool \<Rightarrow> usize sleeper" where
  "waitaddress_sleeper WaitOnAddr misses = \<lparr>set_parked = waitaddress_prepare_park, still_parked = (\<lambda>k. k \<noteq> 0),
     clear_parked = waitaddress_unpark_lock, may_sleep = (\<lambda>k. WaitOnAddr k 1), wake_misses = misses\<rparr>"

record 'p sleep_world =
  flag :: 'p
  waiter :: sleep_pc
  unparker :: unpark_pc

inductive sleep_step :: "'p sleeper \<Rightarrow> bool \<Rightarrow> 'p sleep_world \<Rightarrow> 'p sleep_world \<Rightarrow> bool" for S timed where
  test_unparked: "waiter s = AtTest \<Longrightarrow> \<not> still_parked S (flag s) \<Longrightarrow> sleep_step S timed s (s\<lparr>waiter := Returned True\<rparr>)"
| test_parked: "waiter s = AtTest \<Longrightarrow> still_parked S (flag s) \<Longrightarrow>
    sleep_step S timed s (s\<lparr>waiter := if timed then AtClock else InWait\<rparr>)"
| deadline: "waiter s = AtClock \<Longrightarrow> sleep_step S timed s (s\<lparr>waiter := Returned False\<rparr>)"
| no_deadline: "waiter s = AtClock \<Longrightarrow> sleep_step S timed s (s\<lparr>waiter := InWait\<rparr>)"
| wait_returns: "waiter s = InWait \<Longrightarrow> sleep_step S timed s (s\<lparr>waiter := AtTest\<rparr>)"
| wait_sleeps: "waiter s = InWait \<Longrightarrow> may_sleep S (flag s) \<Longrightarrow> sleep_step S timed s (s\<lparr>waiter := Asleep\<rparr>)"
| wake_up: "waiter s = Asleep \<Longrightarrow> sleep_step S timed s (s\<lparr>waiter := AtTest\<rparr>)"
| call_unpark_lock: "unparker s = UnparkIdle \<Longrightarrow>
    sleep_step S timed s (s\<lparr>flag := clear_parked S (flag s), unparker := UnparkLocked\<rparr>)"
| call_unpark: "unparker s = UnparkLocked \<Longrightarrow> sleep_step S timed s
    (s\<lparr>waiter := if waiter s = Asleep \<and> \<not> wake_misses S then AtTest else waiter s, unparker := UnparkDone\<rparr>)"

definition sleep_start :: "'p sleeper \<Rightarrow> 'p \<Rightarrow> 'p sleep_world" where
  "sleep_start S p = \<lparr>flag = set_parked S p, waiter = AtTest, unparker = UnparkIdle\<rparr>"

fun sleep_rank :: "sleep_pc \<Rightarrow> nat" where
  "sleep_rank (Returned b) = 0"
| "sleep_rank AtTest = 1"
| "sleep_rank InWait = 2"
| "sleep_rank AtClock = 3"
| "sleep_rank Asleep = 4"

text \<open>
  No wakeup is lost: the thread returns true only if it is being unparked; and once \<open>unpark\<close> has returned the thread is
  not asleep, it can step until it has returned, and every step from then on brings it closer to that.
\<close>

definition no_lost_wakeup :: "'p sleeper \<Rightarrow> bool" where
  "no_lost_wakeup S \<longleftrightarrow> (\<forall>timed p s. (sleep_step S timed)\<^sup>*\<^sup>* (sleep_start S p) s \<longrightarrow>
     (waiter s = Returned True \<longrightarrow> unparker s \<noteq> UnparkIdle)
     \<and> (unparker s = UnparkDone \<longrightarrow> waiter s \<noteq> Asleep
        \<and> ((\<exists>b. waiter s = Returned b) \<or> (\<exists>s'. sleep_step S timed s s'))
        \<and> (\<forall>s'. sleep_step S timed s s' \<longrightarrow> sleep_rank (waiter s') < sleep_rank (waiter s))))"

text \<open>The laws of the flag: a compare-and-sleep can sleep only while the flag says parked.\<close>

locale word_parker =
  fixes S :: "'p sleeper"
  assumes set_parked: "still_parked S (set_parked S p)"
    and clear_parked: "\<not> still_parked S (clear_parked S p)"
    and sleep_parked: "may_sleep S p \<Longrightarrow> still_parked S p"
    and wake_hits: "\<not> wake_misses S"
begin

lemma sleep_inv:
  assumes "(sleep_step S timed)\<^sup>*\<^sup>* (sleep_start S p) s"
  shows "(unparker s = UnparkIdle \<longleftrightarrow> still_parked S (flag s)) \<and> (waiter s = Returned True \<longrightarrow> unparker s \<noteq> UnparkIdle)
    \<and> (unparker s = UnparkDone \<longrightarrow> waiter s \<noteq> Asleep)"
  using assms
proof (induction rule: rtranclp_induct)
  case (step s s')
  from step(2) step.IH show ?case
    by cases (auto simp: clear_parked sleep_parked wake_hits split: if_splits)
qed (simp add: sleep_start_def set_parked)

lemma woken_steps:
  assumes "\<not> still_parked S (flag s)" and "unparker s = UnparkDone" and "sleep_step S timed s s'"
  shows "sleep_rank (waiter s') < sleep_rank (waiter s)"
  using assms(3,1,2) by cases (auto dest: sleep_parked)

lemma not_stuck: "waiter s \<noteq> Returned True \<Longrightarrow> waiter s \<noteq> Returned False \<Longrightarrow> \<exists>s'. sleep_step S timed s s'"
  using sleep_step.intros [of s S timed] by (cases "waiter s") (metis (full_types))+

lemma no_lost_wakeup: "no_lost_wakeup S"
  unfolding no_lost_wakeup_def
proof (intro allI impI)
  fix timed p s
  assume r: "(sleep_step S timed)\<^sup>*\<^sup>* (sleep_start S p) s"
  note i = sleep_inv [OF r]
  show "(waiter s = Returned True \<longrightarrow> unparker s \<noteq> UnparkIdle)
     \<and> (unparker s = UnparkDone \<longrightarrow> waiter s \<noteq> Asleep
        \<and> ((\<exists>b. waiter s = Returned b) \<or> (\<exists>s'. sleep_step S timed s s'))
        \<and> (\<forall>s'. sleep_step S timed s s' \<longrightarrow> sleep_rank (waiter s') < sleep_rank (waiter s)))"
    using i not_stuck [of s timed] woken_steps [of s timed] by auto
qed

end

text \<open>With a system whose wait compares as documented each of the four parkers meets the laws.\<close>

lemmas sleeper_defs = linux_sleeper_def redox_sleeper_def wasm_sleeper_def waitaddress_sleeper_def
  prepare_park_def unpark_lock_def redox_defs wasm_defs waitaddress_prepare_park_def waitaddress_unpark_lock_def

lemma word_parkers:
  assumes "\<And>w e. wait32 w e \<Longrightarrow> w = e" and "\<And>w e. wait64 w e \<Longrightarrow> w = e"
  shows "word_parker (linux_sleeper wait32 False)" and "word_parker (redox_sleeper wait32 False)"
    and "word_parker (wasm_sleeper wait32 False)" and "word_parker (waitaddress_sleeper wait64 False)"
  by (unfold_locales; auto simp: sleeper_defs dest!: assms)+

interpretation linux_word: word_parker "linux_sleeper (=) False"
  by (rule word_parkers(1) [of "(=)" "(=)"]) simp_all

interpretation redox_word: word_parker "redox_sleeper (=) False"
  by (rule word_parkers(2) [of "(=)" "(=)"]) simp_all

interpretation wasm_word: word_parker "wasm_sleeper (=) False"
  by (rule word_parkers(3) [of "(=)" "(=)"]) simp_all

interpretation waitaddress_word: word_parker "waitaddress_sleeper (=) False"
  by (rule word_parkers(4) [of "(=)" "(=)"]) simp_all

text \<open>
  Claim C36. No wakeup is lost by the parkers that sleep on a word: if the wait call of the system sleeps only while
  the word has the value it is given and the wake call wakes a sleeper, then the Linux, Redox,
  WebAssembly and \<open>WaitOnAddress\<close> parkers return true only when they are unparked, and a thread for which
  \<open>unpark\<close> has returned is awake and returns within three of its own steps.
\<close>

theorem word_parkers_no_lost_wakeup:
  assumes "\<And>w e. wait32 w e \<Longrightarrow> w = e" and "\<And>w e. wait64 w e \<Longrightarrow> w = e" and "\<not> misses"
  shows "no_lost_wakeup (linux_sleeper wait32 misses) \<and> no_lost_wakeup (redox_sleeper wait32 misses)
    \<and> no_lost_wakeup (wasm_sleeper wait32 misses) \<and> no_lost_wakeup (waitaddress_sleeper wait64 misses)"
  using word_parkers [of wait32 wait64, OF assms(1,2), THEN word_parker.no_lost_wakeup] assms(3) by simp

theorem word_parkers_no_lost_wakeup_witness:
  "no_lost_wakeup (linux_sleeper (=) False) \<and> no_lost_wakeup (waitaddress_sleeper (\<lambda>w e. w = e \<and> w = 1) False)"
  using word_parkers_no_lost_wakeup [of "(=)" "\<lambda>w e. w = e \<and> w = 1" False] by simp

section \<open>Parking on a condition variable\<close>

datatype unix_pc = WantsMutex | HoldsMutex | InCondWait | UnixReturned bool

record unix_world =
  uparker :: UnixParker
  uwaiter :: unix_pc
  uunparker :: unpark_pc

text \<open>
  \<open>grants\<close> says when \<open>pthread_mutex_lock\<close> may return, given whether the mutex is held; \<open>misses\<close> whether
  \<open>pthread_cond_signal\<close> may leave the only waiter waiting. A wait may end at any time and then needs the mutex again.
\<close>

inductive unix_step :: "(bool \<Rightarrow> bool) \<Rightarrow> bool \<Rightarrow> bool \<Rightarrow> unix_world \<Rightarrow> unix_world \<Rightarrow> bool" for grants misses timed where
  lock_mutex: "uwaiter s = WantsMutex \<Longrightarrow> grants (mutex_held (uparker s)) \<Longrightarrow>
    unix_step grants misses timed s (s\<lparr>uwaiter := HoldsMutex, uparker := (uparker s)\<lparr>mutex_held := True\<rparr>\<rparr>)"
| unparked: "uwaiter s = HoldsMutex \<Longrightarrow> \<not> should_park (uparker s) \<Longrightarrow>
    unix_step grants misses timed s (s\<lparr>uwaiter := UnixReturned True, uparker := (uparker s)\<lparr>mutex_held := False\<rparr>\<rparr>)"
| unix_deadline: "uwaiter s = HoldsMutex \<Longrightarrow> should_park (uparker s) \<Longrightarrow> timed \<Longrightarrow>
    unix_step grants misses timed s (s\<lparr>uwaiter := UnixReturned False, uparker := (uparker s)\<lparr>mutex_held := False\<rparr>\<rparr>)"
| cond_wait: "uwaiter s = HoldsMutex \<Longrightarrow> should_park (uparker s) \<Longrightarrow>
    unix_step grants misses timed s (s\<lparr>uwaiter := InCondWait, uparker := (uparker s)\<lparr>mutex_held := False\<rparr>\<rparr>)"
| wait_ends: "uwaiter s = InCondWait \<Longrightarrow> unix_step grants misses timed s (s\<lparr>uwaiter := WantsMutex\<rparr>)"
| unix_call_unpark_lock: "uunparker s = UnparkIdle \<Longrightarrow> grants (mutex_held (uparker s)) \<Longrightarrow>
    unix_step grants misses timed s (s\<lparr>uunparker := UnparkLocked, uparker := unix_unpark_lock (uparker s)\<rparr>)"
| unix_call_unpark: "uunparker s = UnparkLocked \<Longrightarrow>
    unix_step grants misses timed s (s\<lparr>uunparker := UnparkDone, uparker := unix_unpark (uparker s),
      uwaiter := if uwaiter s = InCondWait \<and> \<not> misses then WantsMutex else uwaiter s\<rparr>)"

definition unix_start :: "unix_platform \<Rightarrow> UnixParker \<Rightarrow> unix_world" where
  "unix_start os p = \<lparr>uparker = unix_prepare os p, uwaiter = WantsMutex, uunparker = UnparkIdle\<rparr>"

fun unix_rank :: "unix_pc \<Rightarrow> nat" where
  "unix_rank (UnixReturned b) = 0"
| "unix_rank HoldsMutex = 1"
| "unix_rank WantsMutex = 2"
| "unix_rank InCondWait = 3"

definition unix_inv :: "unix_world \<Rightarrow> bool" where
  "unix_inv s \<longleftrightarrow> (mutex_held (uparker s) \<longleftrightarrow> uwaiter s = HoldsMutex \<or> uunparker s = UnparkLocked)
    \<and> \<not> (uwaiter s = HoldsMutex \<and> uunparker s = UnparkLocked)
    \<and> (should_park (uparker s) \<longleftrightarrow> uunparker s \<noteq> UnparkDone)
    \<and> (uwaiter s = UnixReturned True \<longrightarrow> uunparker s = UnparkDone)
    \<and> (uunparker s = UnparkDone \<longrightarrow> uwaiter s \<noteq> InCondWait)"

lemma unix_inv_step:
  assumes "unix_step grants False timed s s'" and "unix_inv s" and "\<not> grants True"
  shows "unix_inv s'"
  using assms by cases (auto simp: unix_inv_def unix_unpark_lock_def unix_unpark_def split: if_splits)

lemma unix_inv_reach:
  assumes "(unix_step grants False timed)\<^sup>*\<^sup>* (unix_start os p) s" and "\<not> grants True"
  shows "unix_inv s"
  using assms(1)
proof (induction rule: rtranclp_induct)
  case base
  show ?case by (simp add: unix_inv_def unix_start_def unix_prepare_def unix_prepare_park_def unix_init_def Let_def)
next
  case (step s s')
  then show ?case using unix_inv_step assms(2) by blast
qed

lemma unix_progress:
  assumes "unix_inv s" and "uunparker s = UnparkDone" and "grants False" and "uwaiter s \<noteq> UnixReturned True" "uwaiter s \<noteq> UnixReturned False"
  shows "\<exists>s'. unix_step grants misses timed s s'"
proof (cases "uwaiter s")
  case WantsMutex
  show ?thesis by (rule exI, rule lock_mutex) (use WantsMutex assms in \<open>simp_all add: unix_inv_def\<close>)
next
  case HoldsMutex
  show ?thesis by (rule exI, rule unparked) (use HoldsMutex assms in \<open>simp_all add: unix_inv_def\<close>)
next
  case (UnixReturned b)
  with assms show ?thesis by (cases b) auto
qed (use assms in \<open>simp add: unix_inv_def\<close>)

lemma unix_rank_step:
  assumes "unix_step grants misses timed s s'" and "unix_inv s" and "uunparker s = UnparkDone"
  shows "unix_rank (uwaiter s') < unix_rank (uwaiter s)"
  using assms by cases (auto simp: unix_inv_def)

text \<open>
  The POSIX parker: with a mutex that one thread at a time can hold and a signal that wakes the
  waiter, the thread and its unparker never hold the mutex together; the thread returns true only when \<open>unpark\<close> has let
  go of the parker; and once it has, the thread does not wait on the condition variable, can step until it has
  returned, and gets closer to that with every step.
\<close>

theorem unix_parker_handshake:
  assumes "(unix_step grants misses timed)\<^sup>*\<^sup>* (unix_start os p) s"
    and "\<And>held. grants held \<longleftrightarrow> \<not> held" and "\<not> misses"
  shows "\<not> (uwaiter s = HoldsMutex \<and> uunparker s = UnparkLocked)
    \<and> (uwaiter s = UnixReturned True \<longrightarrow> uunparker s = UnparkDone)
    \<and> (uunparker s = UnparkDone \<longrightarrow> uwaiter s \<noteq> InCondWait
        \<and> ((\<exists>b. uwaiter s = UnixReturned b) \<or> (\<exists>s'. unix_step grants misses timed s s'))
        \<and> (\<forall>s'. unix_step grants misses timed s s' \<longrightarrow> unix_rank (uwaiter s') < unix_rank (uwaiter s)))"
proof -
  have "misses = False" using assms(3) by simp
  note r = assms(1) [unfolded this]
  have i: "unix_inv s" by (rule unix_inv_reach [OF r]) (simp add: assms(2))
  show ?thesis
    using i unix_progress [OF i, of grants misses timed] unix_rank_step [OF _ i, of grants misses timed] assms(2)
    by (auto simp: unix_inv_def)
qed

theorem unix_parker_handshake_witness:
  "\<exists>s. (unix_step Not False True)\<^sup>*\<^sup>* (unix_start Apple unix_new) s \<and> uunparker s = UnparkDone \<and> uwaiter s \<noteq> InCondWait"
proof -
  let ?s = "unix_start Apple unix_new"
  let ?s1 = "?s\<lparr>uunparker := UnparkLocked, uparker := unix_unpark_lock (uparker ?s)\<rparr>"
  let ?s2 = "?s1\<lparr>uunparker := UnparkDone, uparker := unix_unpark (uparker ?s1), uwaiter := if uwaiter ?s1 = InCondWait \<and> \<not> False then WantsMutex else uwaiter ?s1\<rparr>"
  have "unix_step Not False True ?s ?s1"
    by (rule unix_call_unpark_lock) (simp_all add: unix_start_def unix_prepare_def unix_prepare_park_def unix_init_def unix_new_def Let_def)
  moreover have "unix_step Not False True ?s1 ?s2" by (rule unix_call_unpark) simp
  ultimately have "(unix_step Not False True)\<^sup>*\<^sup>* ?s ?s2" by simp
  moreover have "uunparker ?s2 = UnparkDone" by simp
  ultimately show ?thesis using unix_parker_handshake [of Not False True Apple unix_new ?s2] by blast
qed

section \<open>Parking on a keyed event\<close>

datatype keyed_pc = KeyedEntry | KeyedTimedWait | KeyedSwap | KeyedWait | KeyedReturned bool

datatype keyed_unpark_pc = KeyedIdle | KeyedHolds bool | KeyedDone

record keyed_world =
  kstate :: usize
  kwaiter :: keyed_pc
  kunparker :: keyed_unpark_pc

text \<open>
  \<open>meets\<close> says when a release of the key may complete, given whether a thread waits for the key; the thread's wait
  completes with it. \<open>park_until\<close> enters with its deadline passed, with a timeout, or without one when it
  overflows; \<open>park\<close> without one.
\<close>

inductive keyed_step :: "(bool \<Rightarrow> bool) \<Rightarrow> bool \<Rightarrow> keyed_world \<Rightarrow> keyed_world \<Rightarrow> bool" for meets timed where
  enter_late: "kwaiter s = KeyedEntry \<Longrightarrow> timed \<Longrightarrow> keyed_step meets timed s (s\<lparr>kwaiter := KeyedSwap\<rparr>)"
| enter_timed: "kwaiter s = KeyedEntry \<Longrightarrow> timed \<Longrightarrow> keyed_step meets timed s (s\<lparr>kwaiter := KeyedTimedWait\<rparr>)"
| enter_untimed: "kwaiter s = KeyedEntry \<Longrightarrow> keyed_step meets timed s (s\<lparr>kwaiter := KeyedWait\<rparr>)"
| wait_times_out: "kwaiter s = KeyedTimedWait \<Longrightarrow> keyed_step meets timed s (s\<lparr>kwaiter := KeyedSwap\<rparr>)"
| swap_state: "kwaiter s = KeyedSwap \<Longrightarrow> keyed_expire (kstate s) = (unparked, k) \<Longrightarrow>
    keyed_step meets timed s (s\<lparr>kstate := k, kwaiter := if unparked then KeyedWait else KeyedReturned False\<rparr>)"
| keyed_call_unpark_lock: "kunparker s = KeyedIdle \<Longrightarrow> keyed_unpark_lock (kstate s) = (k, h) \<Longrightarrow>
    keyed_step meets timed s (s\<lparr>kstate := k, kunparker := KeyedHolds h\<rparr>)"
| keyed_call_unpark_null: "kunparker s = KeyedHolds False \<Longrightarrow> keyed_step meets timed s (s\<lparr>kunparker := KeyedDone\<rparr>)"
| keyed_release: "kunparker s = KeyedHolds True \<Longrightarrow> meets (kwaiter s \<in> {KeyedTimedWait, KeyedWait}) \<Longrightarrow>
    keyed_step meets timed s (s\<lparr>kunparker := KeyedDone,
      kwaiter := if kwaiter s \<in> {KeyedTimedWait, KeyedWait} then KeyedReturned True else kwaiter s\<rparr>)"

definition keyed_start :: "usize \<Rightarrow> keyed_world" where
  "keyed_start k = \<lparr>kstate = keyed_prepare_park k, kwaiter = KeyedEntry, kunparker = KeyedIdle\<rparr>"

definition keyed_inv :: "keyed_world \<Rightarrow> bool" where
  "keyed_inv s \<longleftrightarrow> (case kunparker s of
     KeyedIdle \<Rightarrow> if kwaiter s = KeyedReturned False then kstate s = STATE_TIMED_OUT
                 else kstate s = STATE_PARKED \<and> kwaiter s \<noteq> KeyedReturned True
   | KeyedHolds True \<Rightarrow> kwaiter s \<notin> {KeyedReturned True, KeyedReturned False} \<and> (kwaiter s \<noteq> KeyedWait \<longrightarrow> kstate s = STATE_UNPARKED)
   | KeyedHolds False \<Rightarrow> kwaiter s = KeyedReturned False \<and> kstate s = STATE_UNPARKED
   | KeyedDone \<Rightarrow> kwaiter s = KeyedReturned True \<or> kwaiter s = KeyedReturned False \<and> kstate s = STATE_UNPARKED)"

lemma keyed_inv_step:
  assumes "keyed_step meets timed s s'" and "keyed_inv s" and "\<not> meets False"
  shows "keyed_inv s'"
  using assms
  by cases (auto simp: keyed_inv_def keyed_expire_def keyed_unpark_lock_def STATE_UNPARKED_def STATE_PARKED_def STATE_TIMED_OUT_def
    split: keyed_unpark_pc.splits bool.splits if_splits)

lemma keyed_inv_reach:
  assumes "(keyed_step meets timed)\<^sup>*\<^sup>* (keyed_start k) s" and "\<not> meets False"
  shows "keyed_inv s"
  using assms(1)
proof (induction rule: rtranclp_induct)
  case base
  show ?case by (simp add: keyed_inv_def keyed_start_def keyed_prepare_park_def)
next
  case (step s s')
  then show ?case using keyed_inv_step assms(2) by blast
qed

lemma keyed_handle_steps:
  assumes "keyed_inv s" and "kunparker s = KeyedHolds h" and "meets True"
  shows "\<exists>s'. keyed_step meets timed s s'"
proof (cases h)
  case False
  show ?thesis by (rule exI, rule keyed_call_unpark_null) (use False assms(2) in simp)
next
  case True
  have a: "kunparker s = KeyedHolds True" using assms(2) True by simp
  show ?thesis
  proof (cases "kwaiter s")
    case KeyedEntry
    show ?thesis by (rule exI, rule enter_untimed) (rule KeyedEntry)
  next
    case KeyedSwap
    obtain u k where kx: "keyed_expire (kstate s) = (u, k)" by fastforce
    show ?thesis by (rule exI, rule swap_state [OF KeyedSwap]) (rule kx)
  next
    case (KeyedReturned b)
    then show ?thesis using assms(1) a by (cases b) (simp_all add: keyed_inv_def)
  qed (rule exI, rule keyed_release; use a assms(3) in simp)+
qed

text \<open>
  Claim C37. The rendezvous through a keyed event is balanced: with a system where a release completes exactly with a
  waiter, the thread returns true only when the release has completed, the unparker never has a release to make for a
  thread that has returned, it never finishes with the thread still waiting, and while it has a handle some step is
  possible. When the thread returns false and \<open>unpark_lock\<close> was called, \<open>timed_out\<close> says that it was unparked.
\<close>

theorem keyed_event_rendezvous:
  assumes "(keyed_step meets timed)\<^sup>*\<^sup>* (keyed_start k) s" and "\<And>waiting. meets waiting \<longleftrightarrow> waiting"
  shows "(kwaiter s = KeyedReturned True \<longrightarrow> kunparker s = KeyedDone)
    \<and> (kwaiter s = KeyedReturned False \<longrightarrow> kunparker s \<noteq> KeyedHolds True \<and> (keyed_timed_out (kstate s) \<longleftrightarrow> kunparker s = KeyedIdle))
    \<and> (kunparker s = KeyedDone \<longrightarrow> (\<exists>b. kwaiter s = KeyedReturned b))
    \<and> (\<forall>h. kunparker s = KeyedHolds h \<longrightarrow> (\<exists>s'. keyed_step meets timed s s'))"
proof -
  have i: "keyed_inv s" by (rule keyed_inv_reach [OF assms(1)]) (simp add: assms(2))
  have "\<exists>s'. keyed_step meets timed s s'" if "kunparker s = KeyedHolds h" for h
    by (rule keyed_handle_steps [OF i that]) (simp add: assms(2))
  then show ?thesis using i
    by (auto simp: keyed_inv_def keyed_timed_out_def STATE_UNPARKED_def STATE_PARKED_def STATE_TIMED_OUT_def
      split: keyed_unpark_pc.splits bool.splits if_splits)
qed

theorem keyed_event_rendezvous_witness:
  "\<exists>s. (keyed_step (\<lambda>b. b) True)\<^sup>*\<^sup>* (keyed_start 0) s \<and> kwaiter s = KeyedReturned False \<and> keyed_timed_out (kstate s)"
proof -
  let ?s = "keyed_start 0"
  let ?s1 = "?s\<lparr>kwaiter := KeyedSwap\<rparr>"
  let ?s2 = "?s1\<lparr>kstate := STATE_TIMED_OUT, kwaiter := if False then KeyedWait else KeyedReturned False\<rparr>"
  have "keyed_step (\<lambda>b. b) True ?s ?s1" by (rule enter_late) (simp_all add: keyed_start_def)
  moreover have "keyed_step (\<lambda>b. b) True ?s1 ?s2"
    by (rule swap_state) (simp_all add: keyed_expire_def keyed_start_def keyed_prepare_park_def STATE_PARKED_def STATE_UNPARKED_def)
  ultimately have "(keyed_step (\<lambda>b. b) True)\<^sup>*\<^sup>* ?s ?s2" by simp
  moreover have "kwaiter ?s2 = KeyedReturned False" "kunparker ?s2 = KeyedIdle" by (simp_all add: keyed_start_def)
  ultimately show ?thesis using keyed_event_rendezvous [of "\<lambda>b. b" True 0 ?s2] by blast
qed

end
