(* ===== verification/Condvar_Api.thy ===== *)
theory Condvar_Api
  imports Lot_Prelude
begin

text \<open>
  The condition variable of \<open>lock_api/src/condvar.rs\<close>, generic in the raw condition variable. An operation acts on the
  state of its caller, the data behind the mutex and whatever else it can see: it may never return (\<open>None\<close>), panic (\<open>Inl\<close>,
  with the state as it is then) or return a value with the new state (\<open>Inr\<close>). The operations of the raw condition variable give the
  mutex up and have it back when they return, so the state can change in them in any way; the closure \<open>condition\<close> runs with the mutex held.
\<close>

section \<open>Operations\<close>

type_synonym ('e, 'r) effect = "'e \<Rightarrow> ('e + 'r \<times> 'e) option"

definition and_effect :: "('e, 'r) effect \<Rightarrow> ('r \<Rightarrow> ('e, 's) effect) \<Rightarrow> ('e, 's) effect" where
  "and_effect p k e = Option.bind (p e) (\<lambda>x. case x of Inl e' \<Rightarrow> Some (Inl e') | Inr (r, e') \<Rightarrow> k r e')"

lemma and_effect_mono [partial_function_mono]:
  assumes "\<And>r e'. mono_option (\<lambda>f. k f r e')"
  shows "mono_option (\<lambda>f. and_effect p (k f) e)"
  unfolding and_effect_def
proof (rule bind_mono)
  show "mono_option (\<lambda>f. case y of Inl e' \<Rightarrow> Some (Inl e') | Inr (r, e') \<Rightarrow> k f r e')" for y
    by (cases y) (auto simp: option.const_mono intro: assms)
qed (rule option.const_mono)

definition giving :: "'r \<Rightarrow> ('e, 'r) effect" where
  "giving r e = Some (Inr (r, e))"

text \<open>The traits \<open>RawCondvar\<close> and \<open>RawCondvarTimed\<close>, for one mutex.\<close>

record ('e, 'i, 'd) RawCondvar =
  raw_wait :: "('e, unit) effect"
  raw_notify_one :: "('e, bool) effect"
  raw_notify_all :: "('e, usize) effect"
  checked_duration_to_instant :: "'d \<Rightarrow> 'e \<Rightarrow> 'i option"
  raw_wait_until :: "'i \<Rightarrow> ('e, bool) effect"

definition RawCondvarTimed_wait_for :: "('e, 'i, 'd) RawCondvar \<Rightarrow> 'd \<Rightarrow> ('e, bool) effect" where
  "RawCondvarTimed_wait_for c timeout e = (case checked_duration_to_instant c timeout e of
     Some timeout \<Rightarrow> raw_wait_until c timeout e
   | None \<Rightarrow> and_effect (raw_wait c) (\<lambda>_. giving False) e)"

datatype WaitTimeoutResult = WaitTimeoutResult bool

primrec WaitTimeoutResult_timed_out :: "WaitTimeoutResult \<Rightarrow> bool" where
  "WaitTimeoutResult_timed_out (WaitTimeoutResult b) = b"

record 'c Condvar =
  condvar_inner :: 'c

definition Condvar_new :: "'c \<Rightarrow> 'c Condvar" where
  "Condvar_new INIT = \<lparr>condvar_inner = INIT\<rparr>"

definition Condvar_default :: "'c \<Rightarrow> 'c Condvar" where
  "Condvar_default INIT = Condvar_new INIT"

definition Condvar_raw :: "'c Condvar \<Rightarrow> 'c" where
  "Condvar_raw s = condvar_inner s"

definition Condvar_notify_one :: "('e, 'i, 'd) RawCondvar Condvar \<Rightarrow> ('e, bool) effect" where
  "Condvar_notify_one s = raw_notify_one (condvar_inner s)"

definition Condvar_notify_all :: "('e, 'i, 'd) RawCondvar Condvar \<Rightarrow> ('e, usize) effect" where
  "Condvar_notify_all s = raw_notify_all (condvar_inner s)"

definition Condvar_wait :: "('e, 'i, 'd) RawCondvar Condvar \<Rightarrow> ('e, unit) effect" where
  "Condvar_wait s = raw_wait (condvar_inner s)"

partial_function (option) Condvar_wait_while ::
    "('e, 'i, 'd) RawCondvar Condvar \<Rightarrow> ('e, bool) effect \<Rightarrow> ('e, unit) effect" where
  "Condvar_wait_while s condition e = and_effect condition (\<lambda>again e.
     if again then and_effect (raw_wait (condvar_inner s)) (\<lambda>_. Condvar_wait_while s condition) e else giving () e) e"

definition Condvar_wait_until :: "('e, 'i, 'd) RawCondvar Condvar \<Rightarrow> 'i \<Rightarrow> ('e, WaitTimeoutResult) effect" where
  "Condvar_wait_until s timeout = and_effect (raw_wait_until (condvar_inner s) timeout) (\<lambda>b. giving (WaitTimeoutResult b))"

definition Condvar_wait_for :: "('e, 'i, 'd) RawCondvar Condvar \<Rightarrow> 'd \<Rightarrow> ('e, WaitTimeoutResult) effect" where
  "Condvar_wait_for s timeout = and_effect (RawCondvarTimed_wait_for (condvar_inner s) timeout) (\<lambda>b. giving (WaitTimeoutResult b))"

text \<open>The loop of \<open>wait_while_until\<close>, with its variable \<open>result\<close>.\<close>

partial_function (option) wait_while_until_loop ::
    "('e, 'i, 'd) RawCondvar Condvar \<Rightarrow> ('e, bool) effect \<Rightarrow> 'i \<Rightarrow> WaitTimeoutResult \<Rightarrow> ('e, WaitTimeoutResult) effect" where
  "wait_while_until_loop s condition timeout result e = (if WaitTimeoutResult_timed_out result then giving result e
     else and_effect condition (\<lambda>again e. if again
       then and_effect (raw_wait_until (condvar_inner s) timeout) (\<lambda>b. wait_while_until_loop s condition timeout (WaitTimeoutResult b)) e
       else giving result e) e)"

definition Condvar_wait_while_until ::
    "('e, 'i, 'd) RawCondvar Condvar \<Rightarrow> ('e, bool) effect \<Rightarrow> 'i \<Rightarrow> ('e, WaitTimeoutResult) effect" where
  "Condvar_wait_while_until s condition timeout = wait_while_until_loop s condition timeout (WaitTimeoutResult False)"

definition Condvar_wait_while_for ::
    "('e, 'i, 'd) RawCondvar Condvar \<Rightarrow> ('e, bool) effect \<Rightarrow> 'd \<Rightarrow> ('e, WaitTimeoutResult) effect" where
  "Condvar_wait_while_for s condition timeout e = (case checked_duration_to_instant (condvar_inner s) timeout e of
     Some timeout \<Rightarrow> Condvar_wait_while_until s condition timeout e
   | None \<Rightarrow> and_effect (Condvar_wait_while s condition) (\<lambda>_. giving (WaitTimeoutResult False)) e)"

definition Condvar_fmt :: string where
  "Condvar_fmt = ''Condvar { .. }''"

section \<open>The condition variable of parking_lot\<close>

text \<open>
  \<open>src/src/raw_condvar.rs\<close> implements both traits with one function, \<open>wait_until_internal\<close>, whose steps are modelled in \<open>Raw_Condvar\<close>; here it is
  a parameter. Instants and durations are numbers of nanoseconds, \<open>latest\<close> is the last instant that can be represented, and \<open>now\<close> reads the clock.
\<close>

definition to_deadline :: "nat \<Rightarrow> ('e \<Rightarrow> nat) \<Rightarrow> nat \<Rightarrow> 'e \<Rightarrow> nat option" where
  "to_deadline latest now timeout e = (if now e + timeout \<le> latest then Some (now e + timeout) else None)"

definition parking_lot_condvar ::
    "nat \<Rightarrow> ('e \<Rightarrow> nat) \<Rightarrow> (nat option \<Rightarrow> ('e, bool) effect) \<Rightarrow> ('e, bool) effect \<Rightarrow> ('e, usize) effect \<Rightarrow> ('e, nat, nat) RawCondvar" where
  "parking_lot_condvar latest now wait_until_internal one every =
     \<lparr>raw_wait = and_effect (wait_until_internal None) (\<lambda>_. giving ()), raw_notify_one = one, raw_notify_all = every,
      checked_duration_to_instant = to_deadline latest now, raw_wait_until = (\<lambda>timeout. wait_until_internal (Some timeout))\<rparr>"

definition parking_lot_wait_for ::
    "nat \<Rightarrow> ('e \<Rightarrow> nat) \<Rightarrow> (nat option \<Rightarrow> ('e, bool) effect) \<Rightarrow> nat \<Rightarrow> ('e, bool) effect" where
  "parking_lot_wait_for latest now wait_until_internal timeout e = wait_until_internal (to_deadline latest now timeout e) e"

text \<open>Its own \<open>wait_for\<close> does what the provided method of the trait does, as a wait without a deadline does not time out.\<close>

lemma parking_lot_wait_for_default:
  assumes "\<And>e b e'. wait_until_internal None e = Some (Inr (b, e')) \<Longrightarrow> \<not> b"
  shows "parking_lot_wait_for latest now wait_until_internal = RawCondvarTimed_wait_for (parking_lot_condvar latest now wait_until_internal one every)"
proof (intro ext)
  fix timeout e
  have "and_effect (and_effect (wait_until_internal None) (\<lambda>_. giving ())) (\<lambda>_. giving False) e = wait_until_internal None e"
    using assms by (cases "wait_until_internal None e") (auto simp: and_effect_def giving_def split: sum.splits)
  then show "parking_lot_wait_for latest now wait_until_internal timeout e =
      RawCondvarTimed_wait_for (parking_lot_condvar latest now wait_until_internal one every) timeout e"
    by (simp add: parking_lot_wait_for_def RawCondvarTimed_wait_for_def parking_lot_condvar_def split: option.split)
qed

section \<open>What the loops do\<close>

lemma and_effect_Inr:
  "and_effect p k e = Some (Inr x) \<longleftrightarrow> (\<exists>r e'. p e = Some (Inr (r, e')) \<and> k r e' = Some (Inr x))"
  by (cases "p e") (auto simp: and_effect_def split: sum.splits)

lemma giving_Inr [simp]: "giving r e = Some (Inr (r', e')) \<longleftrightarrow> r' = r \<and> e' = e"
  by (auto simp: giving_def)

text \<open>
  \<open>rounds n\<close>: the state after \<open>n\<close> rounds of a loop, in each of which the condition was true and the wait that followed did not time out.
\<close>

primrec rounds :: "('e, bool) effect \<Rightarrow> ('e, bool) effect \<Rightarrow> nat \<Rightarrow> 'e \<Rightarrow> 'e option" where
  "rounds condition wait 0 e = Some e"
| "rounds condition wait (Suc n) e = (case condition e of
     Some (Inr (True, e1)) \<Rightarrow> (case wait e1 of Some (Inr (False, e2)) \<Rightarrow> rounds condition wait n e2 | _ \<Rightarrow> None)
   | _ \<Rightarrow> None)"

lemma rounds_Suc:
  "rounds condition wait (Suc n) e = Some x \<longleftrightarrow>
     (\<exists>e1 e2. condition e = Some (Inr (True, e1)) \<and> wait e1 = Some (Inr (False, e2)) \<and> rounds condition wait n e2 = Some x)"
  by (auto split: option.splits sum.splits bool.splits)

definition untimed :: "('e, unit) effect \<Rightarrow> ('e, bool) effect" where
  "untimed wait = and_effect wait (\<lambda>_. giving False)"

text \<open>How the last round of \<open>wait_while_until\<close> ends: the condition is false, or the wait times out.\<close>

definition last_round :: "('e, bool) effect \<Rightarrow> ('e, bool) effect \<Rightarrow> 'e \<Rightarrow> WaitTimeoutResult \<Rightarrow> 'e \<Rightarrow> bool" where
  "last_round condition wait x result e' \<longleftrightarrow> condition x = Some (Inr (False, e')) \<and> result = WaitTimeoutResult False
     \<or> (\<exists>y. condition x = Some (Inr (True, y)) \<and> wait y = Some (Inr (True, e')) \<and> result = WaitTimeoutResult True)"

lemma wait_while_sound:
  assumes "Condvar_wait_while s condition e = Some (Inr ((), e'))"
  shows "\<exists>n x. rounds condition (untimed (raw_wait (condvar_inner s))) n e = Some x \<and> condition x = Some (Inr (False, e'))"
proof -
  have "out = Inr ((), e') \<longrightarrow>
      (\<exists>n x. rounds condition (untimed (raw_wait (condvar_inner s))) n e = Some x \<and> condition x = Some (Inr (False, e')))"
    if "Condvar_wait_while s condition e = Some out" for out
    using that
  proof (rule Condvar_wait_while.raw_induct [rotated])
    fix f :: "('a, 'b, 'c) RawCondvar Condvar \<Rightarrow> ('a, bool) effect \<Rightarrow> ('a, unit) effect"
      and s :: "('a, 'b, 'c) RawCondvar Condvar" and condition :: "('a, bool) effect" and e out
    assume IH: "\<And>s condition e out. f s condition e = Some out \<Longrightarrow> out = Inr ((), e') \<longrightarrow>
        (\<exists>n x. rounds condition (untimed (raw_wait (condvar_inner s))) n e = Some x \<and> condition x = Some (Inr (False, e')))"
      and b: "and_effect condition (\<lambda>again e. if again then and_effect (raw_wait (condvar_inner s)) (\<lambda>_. f s condition) e else giving () e) e = Some out"
    show "out = Inr ((), e') \<longrightarrow>
        (\<exists>n x. rounds condition (untimed (raw_wait (condvar_inner s))) n e = Some x \<and> condition x = Some (Inr (False, e')))"
    proof
      assume "out = Inr ((), e')"
      then consider "condition e = Some (Inr (False, e'))"
        | e1 e2 where "condition e = Some (Inr (True, e1))" "raw_wait (condvar_inner s) e1 = Some (Inr ((), e2))" "f s condition e2 = Some out"
        using b by (auto simp: and_effect_Inr split: if_splits)
      then show "\<exists>n x. rounds condition (untimed (raw_wait (condvar_inner s))) n e = Some x \<and> condition x = Some (Inr (False, e'))"
      proof cases
        case 1
        then show ?thesis by (intro exI [of _ 0]) auto
      next
        case 2
        obtain n x where "rounds condition (untimed (raw_wait (condvar_inner s))) n e2 = Some x" "condition x = Some (Inr (False, e'))"
          using IH [OF 2(3)] \<open>out = _\<close> by blast
        then show ?thesis using 2(1,2)
          by (intro exI [of _ "Suc n"] exI [of _ x]) (simp add: rounds_Suc untimed_def and_effect_Inr del: rounds.simps)
      qed
    qed
  qed
  then show ?thesis using assms by blast
qed

lemma wait_while_complete:
  "rounds condition (untimed (raw_wait (condvar_inner s))) n e = Some x \<Longrightarrow> condition x = Some (Inr (False, e')) \<Longrightarrow>
     Condvar_wait_while s condition e = Some (Inr ((), e'))"
proof (induction n arbitrary: e)
  case 0
  then show ?case by (subst Condvar_wait_while.simps) (auto simp: and_effect_Inr)
next
  case (Suc n)
  then show ?case
    by (subst Condvar_wait_while.simps) (auto simp: rounds_Suc untimed_def and_effect_Inr simp del: rounds.simps)
qed

lemma loop_timed_out [simp]:
  "wait_while_until_loop s condition timeout (WaitTimeoutResult True) e = giving (WaitTimeoutResult True) e"
  by (subst wait_while_until_loop.simps) simp

lemma wait_loop_sound:
  assumes "wait_while_until_loop s condition timeout (WaitTimeoutResult False) e = Some (Inr (result, e'))"
  shows "\<exists>n x. rounds condition (raw_wait_until (condvar_inner s) timeout) n e = Some x
    \<and> last_round condition (raw_wait_until (condvar_inner s) timeout) x result e'"
proof -
  define P where "P s condition timeout res e out \<longleftrightarrow> out = Inr (result, e') \<longrightarrow>
      (if WaitTimeoutResult_timed_out res then result = res \<and> e' = e
       else \<exists>n x. rounds condition (raw_wait_until (condvar_inner s) timeout) n e = Some x
         \<and> last_round condition (raw_wait_until (condvar_inner s) timeout) x result e')"
    for s :: "('a, 'b, 'c) RawCondvar Condvar" and condition timeout res e and out :: "'a + WaitTimeoutResult \<times> 'a"
  have all: "P s condition timeout res e out" if "wait_while_until_loop s condition timeout res e = Some out" for res out
    using that
  proof (rule wait_while_until_loop.raw_induct [rotated])
    fix f :: "('a, 'b, 'c) RawCondvar Condvar \<Rightarrow> ('a, bool) effect \<Rightarrow> 'b \<Rightarrow> WaitTimeoutResult \<Rightarrow> ('a, WaitTimeoutResult) effect"
      and s :: "('a, 'b, 'c) RawCondvar Condvar" and condition :: "('a, bool) effect" and timeout res e out
    let ?w = "raw_wait_until (condvar_inner s) timeout"
    assume IH: "\<And>s condition timeout res e out. f s condition timeout res e = Some out \<Longrightarrow> P s condition timeout res e out"
      and b: "(if WaitTimeoutResult_timed_out res then giving res e
        else and_effect condition (\<lambda>again e. if again
          then and_effect ?w (\<lambda>b. f s condition timeout (WaitTimeoutResult b)) e else giving res e) e) = Some out"
    show "P s condition timeout res e out"
    proof (cases "out = Inr (result, e') \<and> \<not> WaitTimeoutResult_timed_out res")
      case False
      then show ?thesis using b by (auto simp: P_def)
    next
      case True
      then have res: "res = WaitTimeoutResult False" by (cases res) simp
      from True b consider "condition e = Some (Inr (False, e'))" "result = res"
        | e1 c e2 where "condition e = Some (Inr (True, e1))" "?w e1 = Some (Inr (c, e2))" "f s condition timeout (WaitTimeoutResult c) e2 = Some out"
        by (auto simp: and_effect_Inr split: if_splits)
      then have "\<exists>n x. rounds condition ?w n e = Some x \<and> last_round condition ?w x result e'"
      proof cases
        case 1
        then show ?thesis by (intro exI [of _ 0]) (auto simp: last_round_def res)
      next
        case 2
        note ih = IH [OF 2(3), unfolded P_def, rule_format, OF conjunct1 [OF True]]
        show ?thesis
        proof (cases c)
          assume c: c
          then show ?thesis using ih 2(1,2) by (intro exI [of _ 0] exI [of _ e]) (auto simp: last_round_def)
        next
          assume c: "\<not> c"
          then obtain n x where "rounds condition ?w n e2 = Some x" "last_round condition ?w x result e'" using ih by auto
          then show ?thesis using 2(1,2) c
            by (intro exI [of _ "Suc n"] exI [of _ x]) (auto simp: rounds_Suc simp del: rounds.simps)
        qed
      qed
      then show ?thesis using res by (simp add: P_def)
    qed
  qed
  show ?thesis using all [OF assms] by (simp add: P_def)
qed

lemma wait_loop_complete:
  "rounds condition (raw_wait_until (condvar_inner s) timeout) n e = Some x \<Longrightarrow>
     last_round condition (raw_wait_until (condvar_inner s) timeout) x result e' \<Longrightarrow>
     wait_while_until_loop s condition timeout (WaitTimeoutResult False) e = Some (Inr (result, e'))"
proof (induction n arbitrary: e)
  case 0
  then consider "condition e = Some (Inr (False, e'))" "result = WaitTimeoutResult False"
    | y where "condition e = Some (Inr (True, y))" "raw_wait_until (condvar_inner s) timeout y = Some (Inr (True, e'))" "result = WaitTimeoutResult True"
    by (auto simp: last_round_def)
  then show ?case by cases (subst wait_while_until_loop.simps, simp add: and_effect_def)+
next
  case (Suc n)
  obtain e1 e2 where c: "condition e = Some (Inr (True, e1))" "raw_wait_until (condvar_inner s) timeout e1 = Some (Inr (False, e2))"
    "rounds condition (raw_wait_until (condvar_inner s) timeout) n e2 = Some x"
    using Suc.prems(1) unfolding rounds_Suc by blast
  show ?case
    by (subst wait_while_until_loop.simps) (simp add: and_effect_def c(1,2) Suc.IH [OF c(3) Suc.prems(2)])
qed

section \<open>Theorems\<close>

text \<open>
  \<open>wait_while\<close> returns exactly when the condition has become false: it returns in a state if and only if, after some number of
  rounds of a true condition and a wait, the condition is false and leaves that state. It waits no more and no less often.
\<close>

theorem wait_while_exact:
  "Condvar_wait_while s condition e = Some (Inr ((), e')) \<longleftrightarrow>
     (\<exists>n x. rounds condition (untimed (raw_wait (condvar_inner s))) n e = Some x \<and> condition x = Some (Inr (False, e')))"
  by (rule iffI [OF wait_while_sound]) (auto intro: wait_while_complete)

text \<open>
  Claim C20. \<open>wait_while_until\<close> returns exactly at the first false condition or the first wait that times out, and its result tells which; after
  a time-out the condition is not asked again.
\<close>

theorem wait_while_until_exact:
  "Condvar_wait_while_until s condition timeout e = Some (Inr (result, e')) \<longleftrightarrow>
     (\<exists>n x. rounds condition (raw_wait_until (condvar_inner s) timeout) n e = Some x
       \<and> last_round condition (raw_wait_until (condvar_inner s) timeout) x result e')"
  unfolding Condvar_wait_while_until_def by (rule iffI [OF wait_loop_sound]) (auto intro: wait_loop_complete)

end
