(* ===== verification/Guard_Prog.thy ===== *)
theory Guard_Prog
  imports Lot_Prelude "HOL-Library.Multiset"
begin

text \<open>
  The functions of the guards in \<open>lock_api\<close> are short programs over the functions of a raw lock: this theory has
  the programs and what it means that one of them is safe.

  A program makes calls and ends by returning or by unwinding from a panic. A call is a function of the raw lock
  (\<open>RawMutex\<close>, \<open>RawRwLock\<close> and the traits that extend them, or \<open>RawReentrantMutex\<close>), a use of the
  reference to the protected data, or a clone or drop of the \<open>Arc\<close> that holds the lock; it is answered by a \<open>bool\<close>, which the
  program ignores for a call without a result. A program is about one lock; what else a closure does is not part of it.
\<close>

section \<open>Programs\<close>

datatype lock_mode = SharedMode | UpgradableMode | ExclusiveMode | ReentrantMode

datatype patience = Blocking | Immediate | WithDuration | WithInstant

text \<open>
  \<open>Acquire m recursive p\<close> is a lock function, \<open>Release m fair\<close> an unlock function, \<open>Bump m\<close> a bump,
  \<open>Convert m m' p\<close> an upgrade or downgrade, \<open>Query exclusive\<close> one of \<open>is_locked\<close> and \<open>is_locked_exclusive\<close>, and
  \<open>Access write\<close> a use of the data.
\<close>

datatype raw_call =
    Acquire lock_mode bool patience
  | Release lock_mode bool
  | Bump lock_mode
  | Convert lock_mode lock_mode patience
  | Query bool
  | Access bool
  | CloneArc
  | DropArc

datatype 'r prog = Return 'r | Unwind | Invoke raw_call "bool \<Rightarrow> 'r prog"

primrec handle_unwind :: "'r prog \<Rightarrow> ('r \<Rightarrow> 's prog) \<Rightarrow> 's prog \<Rightarrow> 's prog" where
  "handle_unwind (Return r) k u = k r"
| "handle_unwind Unwind k u = u"
| "handle_unwind (Invoke c f) k u = Invoke c (\<lambda>b. handle_unwind (f b) k u)"

text \<open>
  \<open>and_then\<close> is sequencing; \<open>dropping\<close> runs a closure while a value with a destructor is owned, which runs if the closure unwinds;
  \<open>defer\<close> is the macro of \<open>scopeguard\<close>: the deferred call runs when the scope ends in either way.
\<close>

definition and_then :: "'r prog \<Rightarrow> ('r \<Rightarrow> 's prog) \<Rightarrow> 's prog" where
  "and_then p k = handle_unwind p k Unwind"

definition invoke :: "raw_call \<Rightarrow> 'r \<Rightarrow> 'r prog" where
  "invoke c r = Invoke c (\<lambda>_. Return r)"

definition dropping :: "'d prog \<Rightarrow> 'r prog \<Rightarrow> ('r \<Rightarrow> 's prog) \<Rightarrow> 's prog" where
  "dropping d p k = handle_unwind p k (and_then d (\<lambda>_. Unwind))"

definition defer_call :: "raw_call \<Rightarrow> 'r prog \<Rightarrow> 'r prog" where
  "defer_call c p = handle_unwind p (\<lambda>r. invoke c r) (Invoke c (\<lambda>_. Unwind))"

section \<open>Resources\<close>

text \<open>
  What the raw functions ask of their caller and give to it, as the safety sections of the traits say: a hold of the
  lock in a mode, and an owned count of the \<open>Arc\<close>.
\<close>

datatype holding = Hold lock_mode | OwnedArc

fun call_ok :: "raw_call \<Rightarrow> holding multiset \<Rightarrow> bool" where
  "call_ok (Acquire m r p) h = True"
| "call_ok (Release m f) h = (Hold m \<in># h)"
| "call_ok (Bump m) h = (Hold m \<in># h)"
| "call_ok (Convert m m' p) h = (Hold m \<in># h)"
| "call_ok (Query e) h = True"
| "call_ok (Access w) h = (if w then Hold ExclusiveMode \<in># h
     else Hold SharedMode \<in># h \<or> Hold UpgradableMode \<in># h \<or> Hold ExclusiveMode \<in># h \<or> Hold ReentrantMode \<in># h)"
| "call_ok CloneArc h = True"
| "call_ok DropArc h = (OwnedArc \<in># h)"

fun call_effect :: "raw_call \<Rightarrow> bool \<Rightarrow> holding multiset \<Rightarrow> holding multiset" where
  "call_effect (Acquire m r p) b h = (if p = Blocking \<or> b then add_mset (Hold m) h else h)"
| "call_effect (Release m f) b h = h - {#Hold m#}"
| "call_effect (Bump m) b h = h"
| "call_effect (Convert m m' p) b h = (if p = Blocking \<or> b then add_mset (Hold m') (h - {#Hold m#}) else h)"
| "call_effect (Query e) b h = h"
| "call_effect (Access w) b h = h"
| "call_effect CloneArc b h = add_mset OwnedArc h"
| "call_effect DropArc b h = h - {#OwnedArc#}"

section \<open>Safety\<close>

text \<open>
  The weakest precondition of a program for a postcondition on how it ends (\<open>None\<close> for unwinding) and what is then
  held: every call it makes has what it asks for, whatever the earlier calls answered.
\<close>

primrec wp :: "'r prog \<Rightarrow> ('r option \<Rightarrow> holding multiset \<Rightarrow> bool) \<Rightarrow> holding multiset \<Rightarrow> bool" where
  "wp (Return r) Q h = Q (Some r) h"
| "wp Unwind Q h = Q None h"
| "wp (Invoke c f) Q h = (call_ok c h \<and> wp (f True) Q (call_effect c True h) \<and> wp (f False) Q (call_effect c False h))"

lemma wp_mono:
  assumes "wp p Q h" and "\<And>r h'. Q r h' \<Longrightarrow> Q' r h'"
  shows "wp p Q' h"
  using assms
proof (induction p arbitrary: h)
  case (Invoke c f)
  then show ?case using rangeI [of f True] rangeI [of f False] by auto
qed auto

lemma wp_handle_unwind:
  "wp (handle_unwind p k u) Q h = wp p (\<lambda>r h'. case r of Some x \<Rightarrow> wp (k x) Q h' | None \<Rightarrow> wp u Q h') h"
proof (induction p arbitrary: h)
  case (Invoke c f)
  then show ?case using rangeI [of f True] rangeI [of f False] by auto
qed auto

lemma wp_and_then:
  "wp (and_then p k) Q h = wp p (\<lambda>r h'. case r of Some x \<Rightarrow> wp (k x) Q h' | None \<Rightarrow> Q None h') h"
  by (simp add: and_then_def wp_handle_unwind cong: option.case_cong)

lemma wp_invoke:
  "wp (invoke c r) Q h = (call_ok c h \<and> Q (Some r) (call_effect c True h) \<and> Q (Some r) (call_effect c False h))"
  by (simp add: invoke_def)

lemma wp_dropping:
  "wp (dropping d p k) Q h = wp p (\<lambda>r h'. case r of Some x \<Rightarrow> wp (k x) Q h' | None \<Rightarrow> wp d (\<lambda>_. Q None) h') h"
  unfolding dropping_def wp_handle_unwind wp_and_then
  by (rule arg_cong [where f = "\<lambda>Q'. wp p Q' h"]) (intro ext, auto split: option.split elim: wp_mono)

lemma wp_defer_call:
  "wp (defer_call c p) Q h =
     wp p (\<lambda>r h'. call_ok c h' \<and> Q r (call_effect c True h') \<and> Q r (call_effect c False h')) h"
  unfolding defer_call_def wp_handle_unwind wp_invoke
  by (rule arg_cong [where f = "\<lambda>Q'. wp p Q' h"]) (intro ext, auto split: option.split)

lemmas wp_simps = wp_and_then wp_invoke wp_dropping wp_defer_call

section \<open>Guards\<close>

text \<open>
  What a caller can own: the guards, the reference a leaked guard leaves behind, and the \<open>Arc\<close> itself. The number of a
  mapped guard stands for its pointer into the data. \<open>Forgotten t\<close> is a value whose destructor will never run.
\<close>

datatype token =
    MutexGuard
  | ArcMutexGuard
  | MappedMutexGuard nat
  | RwLockReadGuard
  | ArcRwLockReadGuard
  | MappedRwLockReadGuard nat
  | RwLockWriteGuard
  | ArcRwLockWriteGuard
  | MappedRwLockWriteGuard nat
  | RwLockUpgradableReadGuard
  | ArcRwLockUpgradableReadGuard
  | ReentrantMutexGuard
  | ArcReentrantMutexGuard
  | MappedReentrantMutexGuard nat
  | ArcHandle
  | Forgotten token

primrec token_mode :: "token \<Rightarrow> lock_mode option" where
  "token_mode MutexGuard = Some ExclusiveMode"
| "token_mode ArcMutexGuard = Some ExclusiveMode"
| "token_mode (MappedMutexGuard p) = Some ExclusiveMode"
| "token_mode RwLockReadGuard = Some SharedMode"
| "token_mode ArcRwLockReadGuard = Some SharedMode"
| "token_mode (MappedRwLockReadGuard p) = Some SharedMode"
| "token_mode RwLockWriteGuard = Some ExclusiveMode"
| "token_mode ArcRwLockWriteGuard = Some ExclusiveMode"
| "token_mode (MappedRwLockWriteGuard p) = Some ExclusiveMode"
| "token_mode RwLockUpgradableReadGuard = Some UpgradableMode"
| "token_mode ArcRwLockUpgradableReadGuard = Some UpgradableMode"
| "token_mode ReentrantMutexGuard = Some ReentrantMode"
| "token_mode ArcReentrantMutexGuard = Some ReentrantMode"
| "token_mode (MappedReentrantMutexGuard p) = Some ReentrantMode"
| "token_mode ArcHandle = None"
| "token_mode (Forgotten t) = token_mode t"

primrec token_arc :: "token \<Rightarrow> bool" where
  "token_arc MutexGuard = False"
| "token_arc ArcMutexGuard = True"
| "token_arc (MappedMutexGuard p) = False"
| "token_arc RwLockReadGuard = False"
| "token_arc ArcRwLockReadGuard = True"
| "token_arc (MappedRwLockReadGuard p) = False"
| "token_arc RwLockWriteGuard = False"
| "token_arc ArcRwLockWriteGuard = True"
| "token_arc (MappedRwLockWriteGuard p) = False"
| "token_arc RwLockUpgradableReadGuard = False"
| "token_arc ArcRwLockUpgradableReadGuard = True"
| "token_arc ReentrantMutexGuard = False"
| "token_arc ArcReentrantMutexGuard = True"
| "token_arc (MappedReentrantMutexGuard p) = False"
| "token_arc ArcHandle = True"
| "token_arc (Forgotten t) = token_arc t"

definition token_res :: "token \<Rightarrow> holding multiset" where
  "token_res t = (case token_mode t of None \<Rightarrow> {#} | Some m \<Rightarrow> {#Hold m#}) + (if token_arc t then {#OwnedArc#} else {#})"

primrec tokens_res :: "token list \<Rightarrow> holding multiset" where
  "tokens_res [] = {#}"
| "tokens_res (t # ts) = token_res t + tokens_res ts"

lemma tokens_res_append [simp]: "tokens_res (ts @ us) = tokens_res ts + tokens_res us"
  by (induction ts) (simp_all add: add.assoc)

type_synonym guard_action = "token list prog"

end
