(* ===== verification/Mutex_Guard.thy ===== *)
theory Mutex_Guard
  imports Guard_Prog
begin

text \<open>
  The mutex of \<open>lock_api/src/mutex.rs\<close>: every function that locks or unlocks it and every function of its three guard types, as
  programs over the raw mutex. A guard is created by \<open>make_guard_unchecked\<close> after a lock function said that the lock is held, and
  releases it when it is dropped. The functions with a closure take the program of the closure; the pointer a mapping
  closure returns, or that it returns none, is an argument too.
\<close>

section \<open>The raw lock\<close>

abbreviation mx_lock :: raw_call where
  "mx_lock \<equiv> Acquire ExclusiveMode False Blocking"

abbreviation mx_try_lock :: raw_call where
  "mx_try_lock \<equiv> Acquire ExclusiveMode False Immediate"

abbreviation mx_try_lock_for :: raw_call where
  "mx_try_lock_for \<equiv> Acquire ExclusiveMode False WithDuration"

abbreviation mx_try_lock_until :: raw_call where
  "mx_try_lock_until \<equiv> Acquire ExclusiveMode False WithInstant"

abbreviation mx_unlock :: raw_call where
  "mx_unlock \<equiv> Release ExclusiveMode False"

abbreviation mx_unlock_fair :: raw_call where
  "mx_unlock_fair \<equiv> Release ExclusiveMode True"

abbreviation mx_bump :: raw_call where
  "mx_bump \<equiv> Bump ExclusiveMode"

text \<open>The provided methods of the traits.\<close>

definition RawMutex_is_locked :: "bool prog" where
  "RawMutex_is_locked = Invoke mx_try_lock (\<lambda>acquired_lock.
     if acquired_lock then Invoke mx_unlock (\<lambda>_. Return (\<not> acquired_lock)) else Return (\<not> acquired_lock))"

definition RawMutexFair_bump :: "unit prog" where
  "RawMutexFair_bump = Invoke mx_unlock_fair (\<lambda>_. invoke mx_lock ())"

section \<open>The lock\<close>

text \<open>The lock owns the raw lock and the data; a lock that is owned as a whole needs no locking.\<close>

record ('r, 't) Mutex =
  mutex_raw :: 'r
  mutex_data :: 't

definition Mutex_new :: "'r \<Rightarrow> 't \<Rightarrow> ('r, 't) Mutex" where
  "Mutex_new INIT val = \<lparr>mutex_raw = INIT, mutex_data = val\<rparr>"

definition Mutex_into_inner :: "('r, 't) Mutex \<Rightarrow> 't" where
  "Mutex_into_inner s = mutex_data s"

definition Mutex_from_raw :: "'r \<Rightarrow> 't \<Rightarrow> ('r, 't) Mutex" where
  "Mutex_from_raw raw val = \<lparr>mutex_raw = raw, mutex_data = val\<rparr>"

definition Mutex_const_new :: "'r \<Rightarrow> 't \<Rightarrow> ('r, 't) Mutex" where
  "Mutex_const_new raw val = Mutex_from_raw raw val"

definition Mutex_into_inner_with_raw :: "('r, 't) Mutex \<Rightarrow> 'r \<times> 't" where
  "Mutex_into_inner_with_raw s = (mutex_raw s, mutex_data s)"

definition Mutex_get_mut :: "('t \<Rightarrow> 't) \<Rightarrow> ('r, 't) Mutex \<Rightarrow> ('r, 't) Mutex" where
  "Mutex_get_mut f s = s\<lparr>mutex_data := f (mutex_data s)\<rparr>"

definition Mutex_default :: "'r \<Rightarrow> 't \<Rightarrow> ('r, 't) Mutex" where
  "Mutex_default INIT default_val = Mutex_new INIT default_val"

definition Mutex_from :: "'r \<Rightarrow> 't \<Rightarrow> ('r, 't) Mutex" where
  "Mutex_from INIT t = Mutex_new INIT t"

lemma mutex_owned:
  "Mutex_into_inner_with_raw (Mutex_get_mut f (Mutex_const_new raw val)) = (raw, f val)"
  "Mutex_into_inner (Mutex_get_mut f (Mutex_new INIT val)) = f val"
  by (simp_all add: Mutex_into_inner_with_raw_def Mutex_get_mut_def Mutex_const_new_def Mutex_from_raw_def Mutex_into_inner_def Mutex_new_def)

definition Mutex_make_guard_unchecked :: "guard_action" where
  "Mutex_make_guard_unchecked = Return [MutexGuard]"

definition Mutex_make_arc_guard_unchecked :: "guard_action" where
  "Mutex_make_arc_guard_unchecked = invoke CloneArc [ArcMutexGuard]"

definition Mutex_lock :: "guard_action" where
  "Mutex_lock = Invoke mx_lock (\<lambda>_. Mutex_make_guard_unchecked)"

definition Mutex_try_lock :: "guard_action" where
  "Mutex_try_lock = Invoke mx_try_lock (\<lambda>ok. if ok then Mutex_make_guard_unchecked else Return [])"

definition Mutex_is_locked :: "bool prog" where
  "Mutex_is_locked = Invoke (Query False) Return"

definition Mutex_force_unlock :: "guard_action" where
  "Mutex_force_unlock = invoke mx_unlock []"

definition Mutex_lock_arc :: "guard_action" where
  "Mutex_lock_arc = Invoke mx_lock (\<lambda>_. Mutex_make_arc_guard_unchecked)"

definition Mutex_try_lock_arc :: "guard_action" where
  "Mutex_try_lock_arc = Invoke mx_try_lock (\<lambda>ok. if ok then Mutex_make_arc_guard_unchecked else Return [])"

definition Mutex_force_unlock_fair :: "guard_action" where
  "Mutex_force_unlock_fair = invoke mx_unlock_fair []"

definition Mutex_try_lock_for :: "guard_action" where
  "Mutex_try_lock_for = Invoke mx_try_lock_for (\<lambda>ok. if ok then Mutex_make_guard_unchecked else Return [])"

definition Mutex_try_lock_until :: "guard_action" where
  "Mutex_try_lock_until = Invoke mx_try_lock_until (\<lambda>ok. if ok then Mutex_make_guard_unchecked else Return [])"

definition Mutex_try_lock_arc_for :: "guard_action" where
  "Mutex_try_lock_arc_for = Invoke mx_try_lock_for (\<lambda>ok. if ok then Mutex_make_arc_guard_unchecked else Return [])"

definition Mutex_try_lock_arc_until :: "guard_action" where
  "Mutex_try_lock_arc_until = Invoke mx_try_lock_until (\<lambda>ok. if ok then Mutex_make_arc_guard_unchecked else Return [])"

section \<open>MutexGuard\<close>

definition MutexGuard_drop :: "guard_action" where
  "MutexGuard_drop = invoke mx_unlock []"

definition MutexGuard_map :: "nat \<Rightarrow> guard_action \<Rightarrow> guard_action" where
  "MutexGuard_map data f = dropping MutexGuard_drop f (\<lambda>gs. Return (MappedMutexGuard data # gs))"

definition MutexGuard_try_map :: "nat option \<Rightarrow> guard_action \<Rightarrow> guard_action" where
  "MutexGuard_try_map data f = dropping MutexGuard_drop f (\<lambda>gs.
     case data of Some data \<Rightarrow> Return (MappedMutexGuard data # gs) | None \<Rightarrow> Return (MutexGuard # gs))"

definition MutexGuard_try_map_or_err :: "'e + nat \<Rightarrow> guard_action \<Rightarrow> guard_action" where
  "MutexGuard_try_map_or_err data f = dropping MutexGuard_drop f (\<lambda>gs.
     case data of Inr data \<Rightarrow> Return (MappedMutexGuard data # gs) | Inl e \<Rightarrow> Return (MutexGuard # gs))"

definition MutexGuard_unlocked :: "guard_action \<Rightarrow> guard_action" where
  "MutexGuard_unlocked f = Invoke mx_unlock (\<lambda>_.
     and_then (defer_call mx_lock f) (\<lambda>gs. Return (MutexGuard # gs)))"

definition MutexGuard_leak :: "guard_action" where
  "MutexGuard_leak = Return [Forgotten MutexGuard]"

definition MutexGuard_unlock_fair :: "guard_action" where
  "MutexGuard_unlock_fair = invoke mx_unlock_fair []"

definition MutexGuard_unlocked_fair :: "guard_action \<Rightarrow> guard_action" where
  "MutexGuard_unlocked_fair f = Invoke mx_unlock_fair (\<lambda>_.
     and_then (defer_call mx_lock f) (\<lambda>gs. Return (MutexGuard # gs)))"

definition MutexGuard_bump :: "guard_action" where
  "MutexGuard_bump = invoke mx_bump [MutexGuard]"

definition MutexGuard_deref :: "guard_action" where
  "MutexGuard_deref = invoke (Access False) [MutexGuard]"

definition MutexGuard_deref_mut :: "guard_action" where
  "MutexGuard_deref_mut = invoke (Access True) [MutexGuard]"

section \<open>ArcMutexGuard\<close>

definition ArcMutexGuard_drop :: "guard_action" where
  "ArcMutexGuard_drop = Invoke mx_unlock (\<lambda>_. invoke DropArc [])"

definition ArcMutexGuard_unlocked :: "guard_action \<Rightarrow> guard_action" where
  "ArcMutexGuard_unlocked f = Invoke mx_unlock (\<lambda>_.
     and_then (defer_call mx_lock f) (\<lambda>gs. Return (ArcMutexGuard # gs)))"

definition ArcMutexGuard_into_arc :: "guard_action" where
  "ArcMutexGuard_into_arc = invoke mx_unlock [ArcHandle]"

definition ArcMutexGuard_into_arc_fair :: "guard_action" where
  "ArcMutexGuard_into_arc_fair = invoke mx_unlock_fair [ArcHandle]"

definition ArcMutexGuard_unlock_fair :: "guard_action" where
  "ArcMutexGuard_unlock_fair = and_then ArcMutexGuard_into_arc_fair (\<lambda>_. invoke DropArc [])"

definition ArcMutexGuard_unlocked_fair :: "guard_action \<Rightarrow> guard_action" where
  "ArcMutexGuard_unlocked_fair f = Invoke mx_unlock_fair (\<lambda>_.
     and_then (defer_call mx_lock f) (\<lambda>gs. Return (ArcMutexGuard # gs)))"

definition ArcMutexGuard_bump :: "guard_action" where
  "ArcMutexGuard_bump = invoke mx_bump [ArcMutexGuard]"

definition ArcMutexGuard_deref :: "guard_action" where
  "ArcMutexGuard_deref = invoke (Access False) [ArcMutexGuard]"

definition ArcMutexGuard_deref_mut :: "guard_action" where
  "ArcMutexGuard_deref_mut = invoke (Access True) [ArcMutexGuard]"

section \<open>MappedMutexGuard\<close>

definition MappedMutexGuard_drop :: "guard_action" where
  "MappedMutexGuard_drop = invoke mx_unlock []"

definition MappedMutexGuard_map :: "nat \<Rightarrow> guard_action \<Rightarrow> guard_action" where
  "MappedMutexGuard_map data f = dropping MappedMutexGuard_drop f (\<lambda>gs. Return (MappedMutexGuard data # gs))"

definition MappedMutexGuard_try_map :: "nat \<Rightarrow> nat option \<Rightarrow> guard_action \<Rightarrow> guard_action" where
  "MappedMutexGuard_try_map q data f = dropping MappedMutexGuard_drop f (\<lambda>gs.
     case data of Some data \<Rightarrow> Return (MappedMutexGuard data # gs) | None \<Rightarrow> Return (MappedMutexGuard q # gs))"

definition MappedMutexGuard_try_map_or_err :: "nat \<Rightarrow> 'e + nat \<Rightarrow> guard_action \<Rightarrow> guard_action" where
  "MappedMutexGuard_try_map_or_err q data f = dropping MappedMutexGuard_drop f (\<lambda>gs.
     case data of Inr data \<Rightarrow> Return (MappedMutexGuard data # gs) | Inl e \<Rightarrow> Return (MappedMutexGuard q # gs))"

definition MappedMutexGuard_unlock_fair :: "guard_action" where
  "MappedMutexGuard_unlock_fair = invoke mx_unlock_fair []"

definition MappedMutexGuard_deref :: "nat \<Rightarrow> guard_action" where
  "MappedMutexGuard_deref q = invoke (Access False) [MappedMutexGuard q]"

definition MappedMutexGuard_deref_mut :: "nat \<Rightarrow> guard_action" where
  "MappedMutexGuard_deref_mut q = invoke (Access True) [MappedMutexGuard q]"

section \<open>Printing and serializing\<close>

text \<open>The formatter and the serializer are closures that read the data; if they unwind the guard is dropped.\<close>

definition Mutex_fmt :: "guard_action \<Rightarrow> guard_action" where
  "Mutex_fmt f = and_then Mutex_try_lock (\<lambda>guard.
     if guard \<noteq> [] then dropping MutexGuard_drop f (\<lambda>gs. and_then MutexGuard_drop (\<lambda>_. Return gs)) else Return [])"

definition Mutex_serialize :: "guard_action \<Rightarrow> guard_action" where
  "Mutex_serialize f = and_then Mutex_lock (\<lambda>_.
     dropping MutexGuard_drop f (\<lambda>gs. and_then MutexGuard_drop (\<lambda>_. Return gs)))"

section \<open>Tables of the functions\<close>

text \<open>
  What a caller can do: lock functions, functions that borrow a guard, functions that take one, and functions with a closure that runs
  while the lock is released or while the guard is held. A forgotten guard can be released or made a guard again.
\<close>

definition mx_acquires :: "guard_action list" where
  "mx_acquires =
    [Mutex_lock,
     Mutex_try_lock,
     Mutex_lock_arc,
     Mutex_try_lock_arc,
     Mutex_try_lock_for,
     Mutex_try_lock_until,
     Mutex_try_lock_arc_for,
     Mutex_try_lock_arc_until]"

definition mx_by_ref :: "nat \<Rightarrow> (token \<times> guard_action) list" where
  "mx_by_ref q =
    [(MutexGuard, MutexGuard_bump),
     (MutexGuard, MutexGuard_deref),
     (MutexGuard, MutexGuard_deref_mut),
     (ArcMutexGuard, ArcMutexGuard_bump),
     (ArcMutexGuard, ArcMutexGuard_deref),
     (ArcMutexGuard, ArcMutexGuard_deref_mut),
     ((MappedMutexGuard q), MappedMutexGuard_deref q),
     ((MappedMutexGuard q), MappedMutexGuard_deref_mut q)]"

definition mx_by_value :: "nat \<Rightarrow> (token \<times> guard_action) list" where
  "mx_by_value q =
    [(MutexGuard, MutexGuard_drop),
     (MutexGuard, MutexGuard_leak),
     (MutexGuard, MutexGuard_unlock_fair),
     (ArcMutexGuard, ArcMutexGuard_drop),
     (ArcMutexGuard, ArcMutexGuard_into_arc),
     (ArcMutexGuard, ArcMutexGuard_into_arc_fair),
     (ArcMutexGuard, ArcMutexGuard_unlock_fair),
     ((MappedMutexGuard q), MappedMutexGuard_drop),
     ((MappedMutexGuard q), MappedMutexGuard_unlock_fair),
     (Forgotten MutexGuard, Mutex_force_unlock),
     (Forgotten MutexGuard, Mutex_force_unlock_fair),
     (Forgotten MutexGuard, Mutex_make_guard_unchecked)]"

definition mx_released :: "(token \<times> (guard_action \<Rightarrow> guard_action)) list" where
  "mx_released =
    [(MutexGuard, MutexGuard_unlocked),
     (MutexGuard, MutexGuard_unlocked_fair),
     (ArcMutexGuard, ArcMutexGuard_unlocked),
     (ArcMutexGuard, ArcMutexGuard_unlocked_fair)]"

definition mx_mapped :: "nat \<Rightarrow> nat \<Rightarrow> nat option \<Rightarrow> 'e + nat \<Rightarrow> (token \<times> (guard_action \<Rightarrow> guard_action)) list" where
  "mx_mapped q data opt res =
    [(MutexGuard, MutexGuard_map data),
     (MutexGuard, MutexGuard_try_map opt),
     (MutexGuard, MutexGuard_try_map_or_err res),
     ((MappedMutexGuard q), MappedMutexGuard_map data),
     ((MappedMutexGuard q), MappedMutexGuard_try_map q opt),
     ((MappedMutexGuard q), MappedMutexGuard_try_map_or_err q res)]"

definition mx_shown :: "(guard_action \<Rightarrow> guard_action) list" where
  "mx_shown =
    [Mutex_fmt,
     Mutex_serialize]"

lemmas mx_fn_defs = RawMutex_is_locked_def RawMutexFair_bump_def Mutex_make_guard_unchecked_def Mutex_make_arc_guard_unchecked_def
  Mutex_lock_def Mutex_try_lock_def Mutex_is_locked_def Mutex_force_unlock_def
  Mutex_lock_arc_def Mutex_try_lock_arc_def Mutex_force_unlock_fair_def Mutex_try_lock_for_def
  Mutex_try_lock_until_def Mutex_try_lock_arc_for_def Mutex_try_lock_arc_until_def MutexGuard_drop_def
  MutexGuard_map_def MutexGuard_try_map_def MutexGuard_try_map_or_err_def MutexGuard_unlocked_def
  MutexGuard_leak_def MutexGuard_unlock_fair_def MutexGuard_unlocked_fair_def MutexGuard_bump_def
  MutexGuard_deref_def MutexGuard_deref_mut_def ArcMutexGuard_drop_def ArcMutexGuard_unlocked_def
  ArcMutexGuard_into_arc_def ArcMutexGuard_into_arc_fair_def ArcMutexGuard_unlock_fair_def ArcMutexGuard_unlocked_fair_def
  ArcMutexGuard_bump_def ArcMutexGuard_deref_def ArcMutexGuard_deref_mut_def MappedMutexGuard_drop_def
  MappedMutexGuard_map_def MappedMutexGuard_try_map_def MappedMutexGuard_try_map_or_err_def MappedMutexGuard_unlock_fair_def
  MappedMutexGuard_deref_def MappedMutexGuard_deref_mut_def Mutex_fmt_def Mutex_serialize_def

end
