(* ===== verification/Re_Guard.thy ===== *)
theory Re_Guard
  imports Guard_Prog
begin

text \<open>
  The reentrant mutex of \<open>lock_api/src/remutex.rs\<close>: its functions and those of its three guard types as programs over
  \<open>RawReentrantMutex\<close>. Its guards give shared access to the data only.
\<close>

section \<open>The raw lock\<close>

abbreviation rem_lock :: raw_call where
  "rem_lock \<equiv> Acquire ReentrantMode False Blocking"

abbreviation rem_try_lock :: raw_call where
  "rem_try_lock \<equiv> Acquire ReentrantMode False Immediate"

abbreviation rem_try_lock_for :: raw_call where
  "rem_try_lock_for \<equiv> Acquire ReentrantMode False WithDuration"

abbreviation rem_try_lock_until :: raw_call where
  "rem_try_lock_until \<equiv> Acquire ReentrantMode False WithInstant"

abbreviation rem_unlock :: raw_call where
  "rem_unlock \<equiv> Release ReentrantMode False"

abbreviation rem_unlock_fair :: raw_call where
  "rem_unlock_fair \<equiv> Release ReentrantMode True"

abbreviation rem_bump :: raw_call where
  "rem_bump \<equiv> Bump ReentrantMode"

section \<open>The lock\<close>

text \<open>The lock owns the raw lock and the data; a lock that is owned as a whole needs no locking.\<close>

record ('r, 'g) RawReentrantMutex =
  rem_owner :: usize
  rem_lock_count :: usize
  rem_mutex :: 'r
  rem_get_thread_id :: 'g

record ('r, 'g, 't) ReentrantMutex =
  rem_raw :: "('r, 'g) RawReentrantMutex"
  rem_data :: 't

definition ReentrantMutex_new :: "'r \<Rightarrow> 'g \<Rightarrow> 't \<Rightarrow> ('r, 'g, 't) ReentrantMutex" where
  "ReentrantMutex_new INIT ID_INIT val = \<lparr>rem_raw = \<lparr>rem_owner = 0, rem_lock_count = 0, rem_mutex = INIT, rem_get_thread_id = ID_INIT\<rparr>,
     rem_data = val\<rparr>"

definition ReentrantMutex_into_inner :: "('r, 'g, 't) ReentrantMutex \<Rightarrow> 't" where
  "ReentrantMutex_into_inner s = rem_data s"

definition ReentrantMutex_from_raw :: "'r \<Rightarrow> 'g \<Rightarrow> 't \<Rightarrow> ('r, 'g, 't) ReentrantMutex" where
  "ReentrantMutex_from_raw raw_mutex get_thread_id val = \<lparr>rem_raw = \<lparr>rem_owner = 0, rem_lock_count = 0, rem_mutex = raw_mutex, rem_get_thread_id = get_thread_id\<rparr>,
     rem_data = val\<rparr>"

definition ReentrantMutex_const_new :: "'r \<Rightarrow> 'g \<Rightarrow> 't \<Rightarrow> ('r, 'g, 't) ReentrantMutex" where
  "ReentrantMutex_const_new raw_mutex get_thread_id val = ReentrantMutex_from_raw raw_mutex get_thread_id val"

definition ReentrantMutex_into_inner_with_raw :: "('r, 'g, 't) ReentrantMutex \<Rightarrow> 'r \<times> 'g \<times> 't" where
  "ReentrantMutex_into_inner_with_raw s = (rem_mutex (rem_raw s), rem_get_thread_id (rem_raw s), rem_data s)"

definition ReentrantMutex_get_mut :: "('t \<Rightarrow> 't) \<Rightarrow> ('r, 'g, 't) ReentrantMutex \<Rightarrow> ('r, 'g, 't) ReentrantMutex" where
  "ReentrantMutex_get_mut f s = s\<lparr>rem_data := f (rem_data s)\<rparr>"

definition ReentrantMutex_default :: "'r \<Rightarrow> 'g \<Rightarrow> 't \<Rightarrow> ('r, 'g, 't) ReentrantMutex" where
  "ReentrantMutex_default INIT ID_INIT default_val = ReentrantMutex_new INIT ID_INIT default_val"

definition ReentrantMutex_from :: "'r \<Rightarrow> 'g \<Rightarrow> 't \<Rightarrow> ('r, 'g, 't) ReentrantMutex" where
  "ReentrantMutex_from INIT ID_INIT t = ReentrantMutex_new INIT ID_INIT t"

lemma remutex_owned:
  "ReentrantMutex_into_inner_with_raw (ReentrantMutex_get_mut f (ReentrantMutex_const_new raw gid val)) = (raw, gid, f val)"
  "ReentrantMutex_into_inner (ReentrantMutex_get_mut f (ReentrantMutex_new INIT gid val)) = f val"
  by (simp_all add: ReentrantMutex_into_inner_with_raw_def ReentrantMutex_get_mut_def ReentrantMutex_const_new_def ReentrantMutex_from_raw_def ReentrantMutex_into_inner_def ReentrantMutex_new_def)

definition ReentrantMutex_make_guard_unchecked :: "guard_action" where
  "ReentrantMutex_make_guard_unchecked = Return [ReentrantMutexGuard]"

definition ReentrantMutex_make_arc_guard_unchecked :: "guard_action" where
  "ReentrantMutex_make_arc_guard_unchecked = invoke CloneArc [ArcReentrantMutexGuard]"

definition ReentrantMutex_lock :: "guard_action" where
  "ReentrantMutex_lock = Invoke rem_lock (\<lambda>_. ReentrantMutex_make_guard_unchecked)"

definition ReentrantMutex_try_lock :: "guard_action" where
  "ReentrantMutex_try_lock = Invoke rem_try_lock (\<lambda>ok. if ok then ReentrantMutex_make_guard_unchecked else Return [])"

definition ReentrantMutex_is_locked :: "bool prog" where
  "ReentrantMutex_is_locked = Invoke (Query False) Return"

definition ReentrantMutex_force_unlock :: "guard_action" where
  "ReentrantMutex_force_unlock = invoke rem_unlock []"

definition ReentrantMutex_lock_arc :: "guard_action" where
  "ReentrantMutex_lock_arc = Invoke rem_lock (\<lambda>_. ReentrantMutex_make_arc_guard_unchecked)"

definition ReentrantMutex_try_lock_arc :: "guard_action" where
  "ReentrantMutex_try_lock_arc = Invoke rem_try_lock (\<lambda>ok. if ok then ReentrantMutex_make_arc_guard_unchecked else Return [])"

definition ReentrantMutex_force_unlock_fair :: "guard_action" where
  "ReentrantMutex_force_unlock_fair = invoke rem_unlock_fair []"

definition ReentrantMutex_try_lock_for :: "guard_action" where
  "ReentrantMutex_try_lock_for = Invoke rem_try_lock_for (\<lambda>ok. if ok then ReentrantMutex_make_guard_unchecked else Return [])"

definition ReentrantMutex_try_lock_until :: "guard_action" where
  "ReentrantMutex_try_lock_until = Invoke rem_try_lock_until (\<lambda>ok. if ok then ReentrantMutex_make_guard_unchecked else Return [])"

definition ReentrantMutex_try_lock_arc_for :: "guard_action" where
  "ReentrantMutex_try_lock_arc_for = Invoke rem_try_lock_for (\<lambda>ok. if ok then ReentrantMutex_make_arc_guard_unchecked else Return [])"

definition ReentrantMutex_try_lock_arc_until :: "guard_action" where
  "ReentrantMutex_try_lock_arc_until = Invoke rem_try_lock_until (\<lambda>ok. if ok then ReentrantMutex_make_arc_guard_unchecked else Return [])"

section \<open>ReentrantMutexGuard\<close>

definition ReentrantMutexGuard_drop :: "guard_action" where
  "ReentrantMutexGuard_drop = invoke rem_unlock []"

definition ReentrantMutexGuard_map :: "nat \<Rightarrow> guard_action \<Rightarrow> guard_action" where
  "ReentrantMutexGuard_map data f = dropping ReentrantMutexGuard_drop f (\<lambda>gs. Return (MappedReentrantMutexGuard data # gs))"

definition ReentrantMutexGuard_try_map :: "nat option \<Rightarrow> guard_action \<Rightarrow> guard_action" where
  "ReentrantMutexGuard_try_map data f = dropping ReentrantMutexGuard_drop f (\<lambda>gs.
     case data of Some data \<Rightarrow> Return (MappedReentrantMutexGuard data # gs) | None \<Rightarrow> Return (ReentrantMutexGuard # gs))"

definition ReentrantMutexGuard_try_map_or_err :: "'e + nat \<Rightarrow> guard_action \<Rightarrow> guard_action" where
  "ReentrantMutexGuard_try_map_or_err data f = dropping ReentrantMutexGuard_drop f (\<lambda>gs.
     case data of Inr data \<Rightarrow> Return (MappedReentrantMutexGuard data # gs) | Inl e \<Rightarrow> Return (ReentrantMutexGuard # gs))"

definition ReentrantMutexGuard_unlocked :: "guard_action \<Rightarrow> guard_action" where
  "ReentrantMutexGuard_unlocked f = Invoke rem_unlock (\<lambda>_.
     and_then (defer_call rem_lock f) (\<lambda>gs. Return (ReentrantMutexGuard # gs)))"

definition ReentrantMutexGuard_unlock_fair :: "guard_action" where
  "ReentrantMutexGuard_unlock_fair = invoke rem_unlock_fair []"

definition ReentrantMutexGuard_unlocked_fair :: "guard_action \<Rightarrow> guard_action" where
  "ReentrantMutexGuard_unlocked_fair f = Invoke rem_unlock_fair (\<lambda>_.
     and_then (defer_call rem_lock f) (\<lambda>gs. Return (ReentrantMutexGuard # gs)))"

definition ReentrantMutexGuard_bump :: "guard_action" where
  "ReentrantMutexGuard_bump = invoke rem_bump [ReentrantMutexGuard]"

definition ReentrantMutexGuard_deref :: "guard_action" where
  "ReentrantMutexGuard_deref = invoke (Access False) [ReentrantMutexGuard]"

section \<open>ArcReentrantMutexGuard\<close>

definition ArcReentrantMutexGuard_drop :: "guard_action" where
  "ArcReentrantMutexGuard_drop = Invoke rem_unlock (\<lambda>_. invoke DropArc [])"

definition ArcReentrantMutexGuard_unlocked :: "guard_action \<Rightarrow> guard_action" where
  "ArcReentrantMutexGuard_unlocked f = Invoke rem_unlock (\<lambda>_.
     and_then (defer_call rem_lock f) (\<lambda>gs. Return (ArcReentrantMutexGuard # gs)))"

definition ArcReentrantMutexGuard_into_arc :: "guard_action" where
  "ArcReentrantMutexGuard_into_arc = invoke rem_unlock [ArcHandle]"

definition ArcReentrantMutexGuard_into_arc_fair :: "guard_action" where
  "ArcReentrantMutexGuard_into_arc_fair = invoke rem_unlock_fair [ArcHandle]"

definition ArcReentrantMutexGuard_unlock_fair :: "guard_action" where
  "ArcReentrantMutexGuard_unlock_fair = and_then ArcReentrantMutexGuard_into_arc_fair (\<lambda>_. invoke DropArc [])"

definition ArcReentrantMutexGuard_unlocked_fair :: "guard_action \<Rightarrow> guard_action" where
  "ArcReentrantMutexGuard_unlocked_fair f = Invoke rem_unlock_fair (\<lambda>_.
     and_then (defer_call rem_lock f) (\<lambda>gs. Return (ArcReentrantMutexGuard # gs)))"

definition ArcReentrantMutexGuard_bump :: "guard_action" where
  "ArcReentrantMutexGuard_bump = invoke rem_bump [ArcReentrantMutexGuard]"

definition ArcReentrantMutexGuard_deref :: "guard_action" where
  "ArcReentrantMutexGuard_deref = invoke (Access False) [ArcReentrantMutexGuard]"

section \<open>MappedReentrantMutexGuard\<close>

definition MappedReentrantMutexGuard_drop :: "guard_action" where
  "MappedReentrantMutexGuard_drop = invoke rem_unlock []"

definition MappedReentrantMutexGuard_map :: "nat \<Rightarrow> guard_action \<Rightarrow> guard_action" where
  "MappedReentrantMutexGuard_map data f = dropping MappedReentrantMutexGuard_drop f (\<lambda>gs. Return (MappedReentrantMutexGuard data # gs))"

definition MappedReentrantMutexGuard_try_map :: "nat \<Rightarrow> nat option \<Rightarrow> guard_action \<Rightarrow> guard_action" where
  "MappedReentrantMutexGuard_try_map q data f = dropping MappedReentrantMutexGuard_drop f (\<lambda>gs.
     case data of Some data \<Rightarrow> Return (MappedReentrantMutexGuard data # gs) | None \<Rightarrow> Return (MappedReentrantMutexGuard q # gs))"

definition MappedReentrantMutexGuard_try_map_or_err :: "nat \<Rightarrow> 'e + nat \<Rightarrow> guard_action \<Rightarrow> guard_action" where
  "MappedReentrantMutexGuard_try_map_or_err q data f = dropping MappedReentrantMutexGuard_drop f (\<lambda>gs.
     case data of Inr data \<Rightarrow> Return (MappedReentrantMutexGuard data # gs) | Inl e \<Rightarrow> Return (MappedReentrantMutexGuard q # gs))"

definition MappedReentrantMutexGuard_unlock_fair :: "guard_action" where
  "MappedReentrantMutexGuard_unlock_fair = invoke rem_unlock_fair []"

definition MappedReentrantMutexGuard_deref :: "nat \<Rightarrow> guard_action" where
  "MappedReentrantMutexGuard_deref q = invoke (Access False) [MappedReentrantMutexGuard q]"

section \<open>Printing and serializing\<close>

text \<open>The formatter and the serializer are closures that read the data; if they unwind the guard is dropped.\<close>

definition ReentrantMutex_fmt :: "guard_action \<Rightarrow> guard_action" where
  "ReentrantMutex_fmt f = and_then ReentrantMutex_try_lock (\<lambda>guard.
     if guard \<noteq> [] then dropping ReentrantMutexGuard_drop f (\<lambda>gs. and_then ReentrantMutexGuard_drop (\<lambda>_. Return gs)) else Return [])"

definition ReentrantMutex_serialize :: "guard_action \<Rightarrow> guard_action" where
  "ReentrantMutex_serialize f = and_then ReentrantMutex_lock (\<lambda>_.
     dropping ReentrantMutexGuard_drop f (\<lambda>gs. and_then ReentrantMutexGuard_drop (\<lambda>_. Return gs)))"

section \<open>Tables of the functions\<close>

text \<open>
  What a caller can do: lock functions, functions that borrow a guard, functions that take one, and functions with a closure that runs
  while the lock is released or while the guard is held. A forgotten guard can be released or made a guard again.
\<close>

definition rem_acquires :: "guard_action list" where
  "rem_acquires =
    [ReentrantMutex_lock,
     ReentrantMutex_try_lock,
     ReentrantMutex_lock_arc,
     ReentrantMutex_try_lock_arc,
     ReentrantMutex_try_lock_for,
     ReentrantMutex_try_lock_until,
     ReentrantMutex_try_lock_arc_for,
     ReentrantMutex_try_lock_arc_until]"

definition rem_by_ref :: "nat \<Rightarrow> (token \<times> guard_action) list" where
  "rem_by_ref q =
    [(ReentrantMutexGuard, ReentrantMutexGuard_bump),
     (ReentrantMutexGuard, ReentrantMutexGuard_deref),
     (ArcReentrantMutexGuard, ArcReentrantMutexGuard_bump),
     (ArcReentrantMutexGuard, ArcReentrantMutexGuard_deref),
     ((MappedReentrantMutexGuard q), MappedReentrantMutexGuard_deref q)]"

definition rem_by_value :: "nat \<Rightarrow> (token \<times> guard_action) list" where
  "rem_by_value q =
    [(ReentrantMutexGuard, ReentrantMutexGuard_drop),
     (ReentrantMutexGuard, ReentrantMutexGuard_unlock_fair),
     (ArcReentrantMutexGuard, ArcReentrantMutexGuard_drop),
     (ArcReentrantMutexGuard, ArcReentrantMutexGuard_into_arc),
     (ArcReentrantMutexGuard, ArcReentrantMutexGuard_into_arc_fair),
     (ArcReentrantMutexGuard, ArcReentrantMutexGuard_unlock_fair),
     ((MappedReentrantMutexGuard q), MappedReentrantMutexGuard_drop),
     ((MappedReentrantMutexGuard q), MappedReentrantMutexGuard_unlock_fair),
     (Forgotten ReentrantMutexGuard, ReentrantMutex_force_unlock),
     (Forgotten ReentrantMutexGuard, ReentrantMutex_force_unlock_fair),
     (Forgotten ReentrantMutexGuard, ReentrantMutex_make_guard_unchecked)]"

definition rem_released :: "(token \<times> (guard_action \<Rightarrow> guard_action)) list" where
  "rem_released =
    [(ReentrantMutexGuard, ReentrantMutexGuard_unlocked),
     (ReentrantMutexGuard, ReentrantMutexGuard_unlocked_fair),
     (ArcReentrantMutexGuard, ArcReentrantMutexGuard_unlocked),
     (ArcReentrantMutexGuard, ArcReentrantMutexGuard_unlocked_fair)]"

definition rem_mapped :: "nat \<Rightarrow> nat \<Rightarrow> nat option \<Rightarrow> 'e + nat \<Rightarrow> (token \<times> (guard_action \<Rightarrow> guard_action)) list" where
  "rem_mapped q data opt res =
    [(ReentrantMutexGuard, ReentrantMutexGuard_map data),
     (ReentrantMutexGuard, ReentrantMutexGuard_try_map opt),
     (ReentrantMutexGuard, ReentrantMutexGuard_try_map_or_err res),
     ((MappedReentrantMutexGuard q), MappedReentrantMutexGuard_map data),
     ((MappedReentrantMutexGuard q), MappedReentrantMutexGuard_try_map q opt),
     ((MappedReentrantMutexGuard q), MappedReentrantMutexGuard_try_map_or_err q res)]"

definition rem_shown :: "(guard_action \<Rightarrow> guard_action) list" where
  "rem_shown =
    [ReentrantMutex_fmt,
     ReentrantMutex_serialize]"

lemmas rem_fn_defs = ReentrantMutex_make_guard_unchecked_def ReentrantMutex_make_arc_guard_unchecked_def ReentrantMutex_lock_def ReentrantMutex_try_lock_def
  ReentrantMutex_is_locked_def ReentrantMutex_force_unlock_def ReentrantMutex_lock_arc_def ReentrantMutex_try_lock_arc_def
  ReentrantMutex_force_unlock_fair_def ReentrantMutex_try_lock_for_def ReentrantMutex_try_lock_until_def ReentrantMutex_try_lock_arc_for_def
  ReentrantMutex_try_lock_arc_until_def ReentrantMutexGuard_drop_def ReentrantMutexGuard_map_def ReentrantMutexGuard_try_map_def
  ReentrantMutexGuard_try_map_or_err_def ReentrantMutexGuard_unlocked_def ReentrantMutexGuard_unlock_fair_def ReentrantMutexGuard_unlocked_fair_def
  ReentrantMutexGuard_bump_def ReentrantMutexGuard_deref_def ArcReentrantMutexGuard_drop_def ArcReentrantMutexGuard_unlocked_def
  ArcReentrantMutexGuard_into_arc_def ArcReentrantMutexGuard_into_arc_fair_def ArcReentrantMutexGuard_unlock_fair_def ArcReentrantMutexGuard_unlocked_fair_def
  ArcReentrantMutexGuard_bump_def ArcReentrantMutexGuard_deref_def MappedReentrantMutexGuard_drop_def MappedReentrantMutexGuard_map_def
  MappedReentrantMutexGuard_try_map_def MappedReentrantMutexGuard_try_map_or_err_def MappedReentrantMutexGuard_unlock_fair_def MappedReentrantMutexGuard_deref_def
  ReentrantMutex_fmt_def ReentrantMutex_serialize_def

end
