(* ===== verification/Rw_Guard.thy ===== *)
theory Rw_Guard
  imports Guard_Prog
begin

text \<open>
  The reader-writer lock of \<open>lock_api/src/rwlock.rs\<close>: every function that locks it, unlocks it or changes the mode, and every
  function of its eight guard types, as programs over the raw lock.
\<close>

section \<open>The raw lock\<close>

abbreviation raw_lock_shared :: raw_call where
  "raw_lock_shared \<equiv> Acquire SharedMode False Blocking"

abbreviation raw_try_lock_shared :: raw_call where
  "raw_try_lock_shared \<equiv> Acquire SharedMode False Immediate"

abbreviation raw_try_lock_shared_for :: raw_call where
  "raw_try_lock_shared_for \<equiv> Acquire SharedMode False WithDuration"

abbreviation raw_try_lock_shared_until :: raw_call where
  "raw_try_lock_shared_until \<equiv> Acquire SharedMode False WithInstant"

abbreviation raw_unlock_shared :: raw_call where
  "raw_unlock_shared \<equiv> Release SharedMode False"

abbreviation raw_unlock_shared_fair :: raw_call where
  "raw_unlock_shared_fair \<equiv> Release SharedMode True"

abbreviation raw_bump_shared :: raw_call where
  "raw_bump_shared \<equiv> Bump SharedMode"

abbreviation raw_lock_exclusive :: raw_call where
  "raw_lock_exclusive \<equiv> Acquire ExclusiveMode False Blocking"

abbreviation raw_try_lock_exclusive :: raw_call where
  "raw_try_lock_exclusive \<equiv> Acquire ExclusiveMode False Immediate"

abbreviation raw_try_lock_exclusive_for :: raw_call where
  "raw_try_lock_exclusive_for \<equiv> Acquire ExclusiveMode False WithDuration"

abbreviation raw_try_lock_exclusive_until :: raw_call where
  "raw_try_lock_exclusive_until \<equiv> Acquire ExclusiveMode False WithInstant"

abbreviation raw_unlock_exclusive :: raw_call where
  "raw_unlock_exclusive \<equiv> Release ExclusiveMode False"

abbreviation raw_unlock_exclusive_fair :: raw_call where
  "raw_unlock_exclusive_fair \<equiv> Release ExclusiveMode True"

abbreviation raw_bump_exclusive :: raw_call where
  "raw_bump_exclusive \<equiv> Bump ExclusiveMode"

abbreviation raw_lock_upgradable :: raw_call where
  "raw_lock_upgradable \<equiv> Acquire UpgradableMode False Blocking"

abbreviation raw_try_lock_upgradable :: raw_call where
  "raw_try_lock_upgradable \<equiv> Acquire UpgradableMode False Immediate"

abbreviation raw_try_lock_upgradable_for :: raw_call where
  "raw_try_lock_upgradable_for \<equiv> Acquire UpgradableMode False WithDuration"

abbreviation raw_try_lock_upgradable_until :: raw_call where
  "raw_try_lock_upgradable_until \<equiv> Acquire UpgradableMode False WithInstant"

abbreviation raw_unlock_upgradable :: raw_call where
  "raw_unlock_upgradable \<equiv> Release UpgradableMode False"

abbreviation raw_unlock_upgradable_fair :: raw_call where
  "raw_unlock_upgradable_fair \<equiv> Release UpgradableMode True"

abbreviation raw_bump_upgradable :: raw_call where
  "raw_bump_upgradable \<equiv> Bump UpgradableMode"

abbreviation raw_lock_shared_recursive :: raw_call where
  "raw_lock_shared_recursive \<equiv> Acquire SharedMode True Blocking"

abbreviation raw_try_lock_shared_recursive :: raw_call where
  "raw_try_lock_shared_recursive \<equiv> Acquire SharedMode True Immediate"

abbreviation raw_try_lock_shared_recursive_for :: raw_call where
  "raw_try_lock_shared_recursive_for \<equiv> Acquire SharedMode True WithDuration"

abbreviation raw_try_lock_shared_recursive_until :: raw_call where
  "raw_try_lock_shared_recursive_until \<equiv> Acquire SharedMode True WithInstant"

abbreviation raw_downgrade :: raw_call where
  "raw_downgrade \<equiv> Convert ExclusiveMode SharedMode Blocking"

abbreviation raw_downgrade_to_upgradable :: raw_call where
  "raw_downgrade_to_upgradable \<equiv> Convert ExclusiveMode UpgradableMode Blocking"

abbreviation raw_downgrade_upgradable :: raw_call where
  "raw_downgrade_upgradable \<equiv> Convert UpgradableMode SharedMode Blocking"

abbreviation raw_upgrade :: raw_call where
  "raw_upgrade \<equiv> Convert UpgradableMode ExclusiveMode Blocking"

abbreviation raw_try_upgrade :: raw_call where
  "raw_try_upgrade \<equiv> Convert UpgradableMode ExclusiveMode Immediate"

abbreviation raw_try_upgrade_for :: raw_call where
  "raw_try_upgrade_for \<equiv> Convert UpgradableMode ExclusiveMode WithDuration"

abbreviation raw_try_upgrade_until :: raw_call where
  "raw_try_upgrade_until \<equiv> Convert UpgradableMode ExclusiveMode WithInstant"

text \<open>The provided methods of the traits.\<close>

definition RawRwLock_is_locked :: "bool prog" where
  "RawRwLock_is_locked = Invoke raw_try_lock_exclusive (\<lambda>acquired_lock.
     if acquired_lock then Invoke raw_unlock_exclusive (\<lambda>_. Return (\<not> acquired_lock)) else Return (\<not> acquired_lock))"

definition RawRwLock_is_locked_exclusive :: "bool prog" where
  "RawRwLock_is_locked_exclusive = Invoke raw_try_lock_shared (\<lambda>acquired_lock.
     if acquired_lock then Invoke raw_unlock_shared (\<lambda>_. Return (\<not> acquired_lock)) else Return (\<not> acquired_lock))"

definition RawRwLockFair_bump_shared :: "unit prog" where
  "RawRwLockFair_bump_shared = Invoke raw_unlock_shared_fair (\<lambda>_. invoke raw_lock_shared ())"

definition RawRwLockFair_bump_exclusive :: "unit prog" where
  "RawRwLockFair_bump_exclusive = Invoke raw_unlock_exclusive_fair (\<lambda>_. invoke raw_lock_exclusive ())"

definition RawRwLockUpgradeFair_bump_upgradable :: "unit prog" where
  "RawRwLockUpgradeFair_bump_upgradable = Invoke raw_unlock_upgradable_fair (\<lambda>_. invoke raw_lock_upgradable ())"

section \<open>The lock\<close>

text \<open>The lock owns the raw lock and the data; a lock that is owned as a whole needs no locking.\<close>

record ('r, 't) RwLock =
  rwlock_raw :: 'r
  rwlock_data :: 't

definition RwLock_new :: "'r \<Rightarrow> 't \<Rightarrow> ('r, 't) RwLock" where
  "RwLock_new INIT val = \<lparr>rwlock_raw = INIT, rwlock_data = val\<rparr>"

definition RwLock_into_inner :: "('r, 't) RwLock \<Rightarrow> 't" where
  "RwLock_into_inner s = rwlock_data s"

definition RwLock_from_raw :: "'r \<Rightarrow> 't \<Rightarrow> ('r, 't) RwLock" where
  "RwLock_from_raw raw val = \<lparr>rwlock_raw = raw, rwlock_data = val\<rparr>"

definition RwLock_const_new :: "'r \<Rightarrow> 't \<Rightarrow> ('r, 't) RwLock" where
  "RwLock_const_new raw val = RwLock_from_raw raw val"

definition RwLock_into_inner_with_raw :: "('r, 't) RwLock \<Rightarrow> 'r \<times> 't" where
  "RwLock_into_inner_with_raw s = (rwlock_raw s, rwlock_data s)"

definition RwLock_get_mut :: "('t \<Rightarrow> 't) \<Rightarrow> ('r, 't) RwLock \<Rightarrow> ('r, 't) RwLock" where
  "RwLock_get_mut f s = s\<lparr>rwlock_data := f (rwlock_data s)\<rparr>"

definition RwLock_default :: "'r \<Rightarrow> 't \<Rightarrow> ('r, 't) RwLock" where
  "RwLock_default INIT default_val = RwLock_new INIT default_val"

definition RwLock_from :: "'r \<Rightarrow> 't \<Rightarrow> ('r, 't) RwLock" where
  "RwLock_from INIT t = RwLock_new INIT t"

lemma rwlock_owned:
  "RwLock_into_inner_with_raw (RwLock_get_mut f (RwLock_const_new raw val)) = (raw, f val)"
  "RwLock_into_inner (RwLock_get_mut f (RwLock_new INIT val)) = f val"
  by (simp_all add: RwLock_into_inner_with_raw_def RwLock_get_mut_def RwLock_const_new_def RwLock_from_raw_def RwLock_into_inner_def RwLock_new_def)

definition RwLock_make_read_guard_unchecked :: "guard_action" where
  "RwLock_make_read_guard_unchecked = Return [RwLockReadGuard]"

definition RwLock_make_write_guard_unchecked :: "guard_action" where
  "RwLock_make_write_guard_unchecked = Return [RwLockWriteGuard]"

definition RwLock_make_upgradable_guard_unchecked :: "guard_action" where
  "RwLock_make_upgradable_guard_unchecked = Return [RwLockUpgradableReadGuard]"

definition RwLock_make_arc_read_guard_unchecked :: "guard_action" where
  "RwLock_make_arc_read_guard_unchecked = invoke CloneArc [ArcRwLockReadGuard]"

definition RwLock_make_arc_write_guard_unchecked :: "guard_action" where
  "RwLock_make_arc_write_guard_unchecked = invoke CloneArc [ArcRwLockWriteGuard]"

definition RwLock_make_upgradable_arc_guard_unchecked :: "guard_action" where
  "RwLock_make_upgradable_arc_guard_unchecked = invoke CloneArc [ArcRwLockUpgradableReadGuard]"

definition RwLock_read :: "guard_action" where
  "RwLock_read = Invoke raw_lock_shared (\<lambda>_. RwLock_make_read_guard_unchecked)"

definition RwLock_try_read :: "guard_action" where
  "RwLock_try_read = Invoke raw_try_lock_shared (\<lambda>ok. if ok then RwLock_make_read_guard_unchecked else Return [])"

definition RwLock_write :: "guard_action" where
  "RwLock_write = Invoke raw_lock_exclusive (\<lambda>_. RwLock_make_write_guard_unchecked)"

definition RwLock_try_write :: "guard_action" where
  "RwLock_try_write = Invoke raw_try_lock_exclusive (\<lambda>ok. if ok then RwLock_make_write_guard_unchecked else Return [])"

definition RwLock_is_locked :: "bool prog" where
  "RwLock_is_locked = Invoke (Query False) Return"

definition RwLock_is_locked_exclusive :: "bool prog" where
  "RwLock_is_locked_exclusive = Invoke (Query True) Return"

definition RwLock_force_unlock_read :: "guard_action" where
  "RwLock_force_unlock_read = invoke raw_unlock_shared []"

definition RwLock_force_unlock_write :: "guard_action" where
  "RwLock_force_unlock_write = invoke raw_unlock_exclusive []"

definition RwLock_read_arc :: "guard_action" where
  "RwLock_read_arc = Invoke raw_lock_shared (\<lambda>_. RwLock_make_arc_read_guard_unchecked)"

definition RwLock_try_read_arc :: "guard_action" where
  "RwLock_try_read_arc = Invoke raw_try_lock_shared (\<lambda>ok. if ok then RwLock_make_arc_read_guard_unchecked else Return [])"

definition RwLock_write_arc :: "guard_action" where
  "RwLock_write_arc = Invoke raw_lock_exclusive (\<lambda>_. RwLock_make_arc_write_guard_unchecked)"

definition RwLock_try_write_arc :: "guard_action" where
  "RwLock_try_write_arc = Invoke raw_try_lock_exclusive (\<lambda>ok. if ok then RwLock_make_arc_write_guard_unchecked else Return [])"

definition RwLock_force_unlock_read_fair :: "guard_action" where
  "RwLock_force_unlock_read_fair = invoke raw_unlock_shared_fair []"

definition RwLock_force_unlock_write_fair :: "guard_action" where
  "RwLock_force_unlock_write_fair = invoke raw_unlock_exclusive_fair []"

definition RwLock_try_read_for :: "guard_action" where
  "RwLock_try_read_for = Invoke raw_try_lock_shared_for (\<lambda>ok. if ok then RwLock_make_read_guard_unchecked else Return [])"

definition RwLock_try_read_until :: "guard_action" where
  "RwLock_try_read_until = Invoke raw_try_lock_shared_until (\<lambda>ok. if ok then RwLock_make_read_guard_unchecked else Return [])"

definition RwLock_try_write_for :: "guard_action" where
  "RwLock_try_write_for = Invoke raw_try_lock_exclusive_for (\<lambda>ok. if ok then RwLock_make_write_guard_unchecked else Return [])"

definition RwLock_try_write_until :: "guard_action" where
  "RwLock_try_write_until = Invoke raw_try_lock_exclusive_until (\<lambda>ok. if ok then RwLock_make_write_guard_unchecked else Return [])"

definition RwLock_try_read_arc_for :: "guard_action" where
  "RwLock_try_read_arc_for = Invoke raw_try_lock_shared_for (\<lambda>ok. if ok then RwLock_make_arc_read_guard_unchecked else Return [])"

definition RwLock_try_read_arc_until :: "guard_action" where
  "RwLock_try_read_arc_until = Invoke raw_try_lock_shared_until (\<lambda>ok. if ok then RwLock_make_arc_read_guard_unchecked else Return [])"

definition RwLock_try_write_arc_for :: "guard_action" where
  "RwLock_try_write_arc_for = Invoke raw_try_lock_exclusive_for (\<lambda>ok. if ok then RwLock_make_arc_write_guard_unchecked else Return [])"

definition RwLock_try_write_arc_until :: "guard_action" where
  "RwLock_try_write_arc_until = Invoke raw_try_lock_exclusive_until (\<lambda>ok. if ok then RwLock_make_arc_write_guard_unchecked else Return [])"

definition RwLock_read_recursive :: "guard_action" where
  "RwLock_read_recursive = Invoke raw_lock_shared_recursive (\<lambda>_. RwLock_make_read_guard_unchecked)"

definition RwLock_try_read_recursive :: "guard_action" where
  "RwLock_try_read_recursive = Invoke raw_try_lock_shared_recursive (\<lambda>ok. if ok then RwLock_make_read_guard_unchecked else Return [])"

definition RwLock_read_arc_recursive :: "guard_action" where
  "RwLock_read_arc_recursive = Invoke raw_lock_shared_recursive (\<lambda>_. RwLock_make_arc_read_guard_unchecked)"

definition RwLock_try_read_recursive_arc :: "guard_action" where
  "RwLock_try_read_recursive_arc = Invoke raw_try_lock_shared_recursive (\<lambda>ok. if ok then RwLock_make_arc_read_guard_unchecked else Return [])"

definition RwLock_try_read_recursive_for :: "guard_action" where
  "RwLock_try_read_recursive_for = Invoke raw_try_lock_shared_recursive_for (\<lambda>ok. if ok then RwLock_make_read_guard_unchecked else Return [])"

definition RwLock_try_read_recursive_until :: "guard_action" where
  "RwLock_try_read_recursive_until = Invoke raw_try_lock_shared_recursive_until (\<lambda>ok. if ok then RwLock_make_read_guard_unchecked else Return [])"

definition RwLock_try_read_arc_recursive_for :: "guard_action" where
  "RwLock_try_read_arc_recursive_for = Invoke raw_try_lock_shared_recursive_for (\<lambda>ok. if ok then RwLock_make_arc_read_guard_unchecked else Return [])"

definition RwLock_try_read_arc_recursive_until :: "guard_action" where
  "RwLock_try_read_arc_recursive_until = Invoke raw_try_lock_shared_recursive_until (\<lambda>ok. if ok then RwLock_make_arc_read_guard_unchecked else Return [])"

definition RwLock_upgradable_read :: "guard_action" where
  "RwLock_upgradable_read = Invoke raw_lock_upgradable (\<lambda>_. RwLock_make_upgradable_guard_unchecked)"

definition RwLock_try_upgradable_read :: "guard_action" where
  "RwLock_try_upgradable_read = Invoke raw_try_lock_upgradable (\<lambda>ok. if ok then RwLock_make_upgradable_guard_unchecked else Return [])"

definition RwLock_upgradable_read_arc :: "guard_action" where
  "RwLock_upgradable_read_arc = Invoke raw_lock_upgradable (\<lambda>_. RwLock_make_upgradable_arc_guard_unchecked)"

definition RwLock_try_upgradable_read_arc :: "guard_action" where
  "RwLock_try_upgradable_read_arc = Invoke raw_try_lock_upgradable (\<lambda>ok. if ok then RwLock_make_upgradable_arc_guard_unchecked else Return [])"

definition RwLock_try_upgradable_read_for :: "guard_action" where
  "RwLock_try_upgradable_read_for = Invoke raw_try_lock_upgradable_for (\<lambda>ok. if ok then RwLock_make_upgradable_guard_unchecked else Return [])"

definition RwLock_try_upgradable_read_until :: "guard_action" where
  "RwLock_try_upgradable_read_until = Invoke raw_try_lock_upgradable_until (\<lambda>ok. if ok then RwLock_make_upgradable_guard_unchecked else Return [])"

definition RwLock_try_upgradable_read_arc_for :: "guard_action" where
  "RwLock_try_upgradable_read_arc_for = Invoke raw_try_lock_upgradable_for (\<lambda>ok. if ok then RwLock_make_upgradable_arc_guard_unchecked else Return [])"

definition RwLock_try_upgradable_read_arc_until :: "guard_action" where
  "RwLock_try_upgradable_read_arc_until = Invoke raw_try_lock_upgradable_until (\<lambda>ok. if ok then RwLock_make_upgradable_arc_guard_unchecked else Return [])"

section \<open>RwLockReadGuard\<close>

definition RwLockReadGuard_drop :: "guard_action" where
  "RwLockReadGuard_drop = invoke raw_unlock_shared []"

definition RwLockReadGuard_map :: "nat \<Rightarrow> guard_action \<Rightarrow> guard_action" where
  "RwLockReadGuard_map data f = dropping RwLockReadGuard_drop f (\<lambda>gs. Return (MappedRwLockReadGuard data # gs))"

definition RwLockReadGuard_try_map :: "nat option \<Rightarrow> guard_action \<Rightarrow> guard_action" where
  "RwLockReadGuard_try_map data f = dropping RwLockReadGuard_drop f (\<lambda>gs.
     case data of Some data \<Rightarrow> Return (MappedRwLockReadGuard data # gs) | None \<Rightarrow> Return (RwLockReadGuard # gs))"

definition RwLockReadGuard_try_map_or_err :: "'e + nat \<Rightarrow> guard_action \<Rightarrow> guard_action" where
  "RwLockReadGuard_try_map_or_err data f = dropping RwLockReadGuard_drop f (\<lambda>gs.
     case data of Inr data \<Rightarrow> Return (MappedRwLockReadGuard data # gs) | Inl e \<Rightarrow> Return (RwLockReadGuard # gs))"

definition RwLockReadGuard_unlocked :: "guard_action \<Rightarrow> guard_action" where
  "RwLockReadGuard_unlocked f = Invoke raw_unlock_shared (\<lambda>_.
     and_then (defer_call raw_lock_shared f) (\<lambda>gs. Return (RwLockReadGuard # gs)))"

definition RwLockReadGuard_unlock_fair :: "guard_action" where
  "RwLockReadGuard_unlock_fair = invoke raw_unlock_shared_fair []"

definition RwLockReadGuard_unlocked_fair :: "guard_action \<Rightarrow> guard_action" where
  "RwLockReadGuard_unlocked_fair f = Invoke raw_unlock_shared_fair (\<lambda>_.
     and_then (defer_call raw_lock_shared f) (\<lambda>gs. Return (RwLockReadGuard # gs)))"

definition RwLockReadGuard_bump :: "guard_action" where
  "RwLockReadGuard_bump = invoke raw_bump_shared [RwLockReadGuard]"

definition RwLockReadGuard_deref :: "guard_action" where
  "RwLockReadGuard_deref = invoke (Access False) [RwLockReadGuard]"

section \<open>ArcRwLockReadGuard\<close>

definition ArcRwLockReadGuard_drop :: "guard_action" where
  "ArcRwLockReadGuard_drop = Invoke raw_unlock_shared (\<lambda>_. invoke DropArc [])"

definition ArcRwLockReadGuard_unlocked :: "guard_action \<Rightarrow> guard_action" where
  "ArcRwLockReadGuard_unlocked f = Invoke raw_unlock_shared (\<lambda>_.
     and_then (defer_call raw_lock_shared f) (\<lambda>gs. Return (ArcRwLockReadGuard # gs)))"

definition ArcRwLockReadGuard_into_arc :: "guard_action" where
  "ArcRwLockReadGuard_into_arc = invoke raw_unlock_shared [ArcHandle]"

definition ArcRwLockReadGuard_into_arc_fair :: "guard_action" where
  "ArcRwLockReadGuard_into_arc_fair = invoke raw_unlock_shared_fair [ArcHandle]"

definition ArcRwLockReadGuard_unlock_fair :: "guard_action" where
  "ArcRwLockReadGuard_unlock_fair = and_then ArcRwLockReadGuard_into_arc_fair (\<lambda>_. invoke DropArc [])"

definition ArcRwLockReadGuard_unlocked_fair :: "guard_action \<Rightarrow> guard_action" where
  "ArcRwLockReadGuard_unlocked_fair f = Invoke raw_unlock_shared_fair (\<lambda>_.
     and_then (defer_call raw_lock_shared f) (\<lambda>gs. Return (ArcRwLockReadGuard # gs)))"

definition ArcRwLockReadGuard_bump :: "guard_action" where
  "ArcRwLockReadGuard_bump = invoke raw_bump_shared [ArcRwLockReadGuard]"

definition ArcRwLockReadGuard_deref :: "guard_action" where
  "ArcRwLockReadGuard_deref = invoke (Access False) [ArcRwLockReadGuard]"

section \<open>RwLockWriteGuard\<close>

definition RwLockWriteGuard_drop :: "guard_action" where
  "RwLockWriteGuard_drop = invoke raw_unlock_exclusive []"

definition RwLockWriteGuard_map :: "nat \<Rightarrow> guard_action \<Rightarrow> guard_action" where
  "RwLockWriteGuard_map data f = dropping RwLockWriteGuard_drop f (\<lambda>gs. Return (MappedRwLockWriteGuard data # gs))"

definition RwLockWriteGuard_try_map :: "nat option \<Rightarrow> guard_action \<Rightarrow> guard_action" where
  "RwLockWriteGuard_try_map data f = dropping RwLockWriteGuard_drop f (\<lambda>gs.
     case data of Some data \<Rightarrow> Return (MappedRwLockWriteGuard data # gs) | None \<Rightarrow> Return (RwLockWriteGuard # gs))"

definition RwLockWriteGuard_try_map_or_err :: "'e + nat \<Rightarrow> guard_action \<Rightarrow> guard_action" where
  "RwLockWriteGuard_try_map_or_err data f = dropping RwLockWriteGuard_drop f (\<lambda>gs.
     case data of Inr data \<Rightarrow> Return (MappedRwLockWriteGuard data # gs) | Inl e \<Rightarrow> Return (RwLockWriteGuard # gs))"

definition RwLockWriteGuard_unlocked :: "guard_action \<Rightarrow> guard_action" where
  "RwLockWriteGuard_unlocked f = Invoke raw_unlock_exclusive (\<lambda>_.
     and_then (defer_call raw_lock_exclusive f) (\<lambda>gs. Return (RwLockWriteGuard # gs)))"

definition RwLockWriteGuard_unlock_fair :: "guard_action" where
  "RwLockWriteGuard_unlock_fair = invoke raw_unlock_exclusive_fair []"

definition RwLockWriteGuard_unlocked_fair :: "guard_action \<Rightarrow> guard_action" where
  "RwLockWriteGuard_unlocked_fair f = Invoke raw_unlock_exclusive_fair (\<lambda>_.
     and_then (defer_call raw_lock_exclusive f) (\<lambda>gs. Return (RwLockWriteGuard # gs)))"

definition RwLockWriteGuard_bump :: "guard_action" where
  "RwLockWriteGuard_bump = invoke raw_bump_exclusive [RwLockWriteGuard]"

definition RwLockWriteGuard_deref :: "guard_action" where
  "RwLockWriteGuard_deref = invoke (Access False) [RwLockWriteGuard]"

definition RwLockWriteGuard_deref_mut :: "guard_action" where
  "RwLockWriteGuard_deref_mut = invoke (Access True) [RwLockWriteGuard]"

definition RwLockWriteGuard_downgrade :: "guard_action" where
  "RwLockWriteGuard_downgrade = invoke raw_downgrade [RwLockReadGuard]"

definition RwLockWriteGuard_downgrade_to_upgradable :: "guard_action" where
  "RwLockWriteGuard_downgrade_to_upgradable = invoke raw_downgrade_to_upgradable [RwLockUpgradableReadGuard]"

section \<open>ArcRwLockWriteGuard\<close>

definition ArcRwLockWriteGuard_drop :: "guard_action" where
  "ArcRwLockWriteGuard_drop = Invoke raw_unlock_exclusive (\<lambda>_. invoke DropArc [])"

definition ArcRwLockWriteGuard_unlocked :: "guard_action \<Rightarrow> guard_action" where
  "ArcRwLockWriteGuard_unlocked f = Invoke raw_unlock_exclusive (\<lambda>_.
     and_then (defer_call raw_lock_exclusive f) (\<lambda>gs. Return (ArcRwLockWriteGuard # gs)))"

definition ArcRwLockWriteGuard_into_arc :: "guard_action" where
  "ArcRwLockWriteGuard_into_arc = invoke raw_unlock_exclusive [ArcHandle]"

definition ArcRwLockWriteGuard_into_arc_fair :: "guard_action" where
  "ArcRwLockWriteGuard_into_arc_fair = invoke raw_unlock_exclusive_fair [ArcHandle]"

definition ArcRwLockWriteGuard_unlock_fair :: "guard_action" where
  "ArcRwLockWriteGuard_unlock_fair = and_then ArcRwLockWriteGuard_into_arc_fair (\<lambda>_. invoke DropArc [])"

definition ArcRwLockWriteGuard_unlocked_fair :: "guard_action \<Rightarrow> guard_action" where
  "ArcRwLockWriteGuard_unlocked_fair f = Invoke raw_unlock_exclusive_fair (\<lambda>_.
     and_then (defer_call raw_lock_exclusive f) (\<lambda>gs. Return (ArcRwLockWriteGuard # gs)))"

definition ArcRwLockWriteGuard_bump :: "guard_action" where
  "ArcRwLockWriteGuard_bump = invoke raw_bump_exclusive [ArcRwLockWriteGuard]"

definition ArcRwLockWriteGuard_deref :: "guard_action" where
  "ArcRwLockWriteGuard_deref = invoke (Access False) [ArcRwLockWriteGuard]"

definition ArcRwLockWriteGuard_deref_mut :: "guard_action" where
  "ArcRwLockWriteGuard_deref_mut = invoke (Access True) [ArcRwLockWriteGuard]"

definition ArcRwLockWriteGuard_downgrade :: "guard_action" where
  "ArcRwLockWriteGuard_downgrade = invoke raw_downgrade [ArcRwLockReadGuard]"

definition ArcRwLockWriteGuard_downgrade_to_upgradable :: "guard_action" where
  "ArcRwLockWriteGuard_downgrade_to_upgradable = invoke raw_downgrade_to_upgradable [ArcRwLockUpgradableReadGuard]"

section \<open>RwLockUpgradableReadGuard\<close>

definition RwLockUpgradableReadGuard_drop :: "guard_action" where
  "RwLockUpgradableReadGuard_drop = invoke raw_unlock_upgradable []"

definition RwLockUpgradableReadGuard_unlocked :: "guard_action \<Rightarrow> guard_action" where
  "RwLockUpgradableReadGuard_unlocked f = Invoke raw_unlock_upgradable (\<lambda>_.
     and_then (defer_call raw_lock_upgradable f) (\<lambda>gs. Return (RwLockUpgradableReadGuard # gs)))"

definition RwLockUpgradableReadGuard_unlock_fair :: "guard_action" where
  "RwLockUpgradableReadGuard_unlock_fair = invoke raw_unlock_upgradable_fair []"

definition RwLockUpgradableReadGuard_unlocked_fair :: "guard_action \<Rightarrow> guard_action" where
  "RwLockUpgradableReadGuard_unlocked_fair f = Invoke raw_unlock_upgradable_fair (\<lambda>_.
     and_then (defer_call raw_lock_upgradable f) (\<lambda>gs. Return (RwLockUpgradableReadGuard # gs)))"

definition RwLockUpgradableReadGuard_bump :: "guard_action" where
  "RwLockUpgradableReadGuard_bump = invoke raw_bump_upgradable [RwLockUpgradableReadGuard]"

definition RwLockUpgradableReadGuard_deref :: "guard_action" where
  "RwLockUpgradableReadGuard_deref = invoke (Access False) [RwLockUpgradableReadGuard]"

definition RwLockUpgradableReadGuard_upgrade :: "guard_action" where
  "RwLockUpgradableReadGuard_upgrade = invoke raw_upgrade [RwLockWriteGuard]"

definition RwLockUpgradableReadGuard_try_upgrade :: "guard_action" where
  "RwLockUpgradableReadGuard_try_upgrade = Invoke raw_try_upgrade (\<lambda>ok. Return [if ok then RwLockWriteGuard else RwLockUpgradableReadGuard])"

definition RwLockUpgradableReadGuard_try_upgrade_for :: "guard_action" where
  "RwLockUpgradableReadGuard_try_upgrade_for = Invoke raw_try_upgrade_for (\<lambda>ok. Return [if ok then RwLockWriteGuard else RwLockUpgradableReadGuard])"

definition RwLockUpgradableReadGuard_try_upgrade_until :: "guard_action" where
  "RwLockUpgradableReadGuard_try_upgrade_until = Invoke raw_try_upgrade_until (\<lambda>ok. Return [if ok then RwLockWriteGuard else RwLockUpgradableReadGuard])"

definition RwLockUpgradableReadGuard_downgrade :: "guard_action" where
  "RwLockUpgradableReadGuard_downgrade = invoke raw_downgrade_upgradable [RwLockReadGuard]"

definition RwLockUpgradableReadGuard_with_upgraded :: "guard_action \<Rightarrow> guard_action" where
  "RwLockUpgradableReadGuard_with_upgraded f = Invoke raw_upgrade (\<lambda>_.
     and_then (defer_call raw_downgrade_to_upgradable f) (\<lambda>gs. Return (RwLockUpgradableReadGuard # gs)))"

definition RwLockUpgradableReadGuard_try_with_upgraded :: "guard_action \<Rightarrow> guard_action" where
  "RwLockUpgradableReadGuard_try_with_upgraded f = Invoke raw_try_upgrade (\<lambda>ok.
     if ok then and_then (defer_call raw_downgrade_to_upgradable f) (\<lambda>gs. Return (RwLockUpgradableReadGuard # gs)) else Return [RwLockUpgradableReadGuard])"

definition RwLockUpgradableReadGuard_try_with_upgraded_for :: "guard_action \<Rightarrow> guard_action" where
  "RwLockUpgradableReadGuard_try_with_upgraded_for f = Invoke raw_try_upgrade_for (\<lambda>ok.
     if ok then and_then (defer_call raw_downgrade_to_upgradable f) (\<lambda>gs. Return (RwLockUpgradableReadGuard # gs)) else Return [RwLockUpgradableReadGuard])"

definition RwLockUpgradableReadGuard_try_with_upgraded_until :: "guard_action \<Rightarrow> guard_action" where
  "RwLockUpgradableReadGuard_try_with_upgraded_until f = Invoke raw_try_upgrade_until (\<lambda>ok.
     if ok then and_then (defer_call raw_downgrade_to_upgradable f) (\<lambda>gs. Return (RwLockUpgradableReadGuard # gs)) else Return [RwLockUpgradableReadGuard])"

section \<open>ArcRwLockUpgradableReadGuard\<close>

definition ArcRwLockUpgradableReadGuard_drop :: "guard_action" where
  "ArcRwLockUpgradableReadGuard_drop = Invoke raw_unlock_upgradable (\<lambda>_. invoke DropArc [])"

definition ArcRwLockUpgradableReadGuard_unlocked :: "guard_action \<Rightarrow> guard_action" where
  "ArcRwLockUpgradableReadGuard_unlocked f = Invoke raw_unlock_upgradable (\<lambda>_.
     and_then (defer_call raw_lock_upgradable f) (\<lambda>gs. Return (ArcRwLockUpgradableReadGuard # gs)))"

definition ArcRwLockUpgradableReadGuard_into_arc :: "guard_action" where
  "ArcRwLockUpgradableReadGuard_into_arc = invoke raw_unlock_upgradable [ArcHandle]"

definition ArcRwLockUpgradableReadGuard_into_arc_fair :: "guard_action" where
  "ArcRwLockUpgradableReadGuard_into_arc_fair = invoke raw_unlock_upgradable_fair [ArcHandle]"

definition ArcRwLockUpgradableReadGuard_unlock_fair :: "guard_action" where
  "ArcRwLockUpgradableReadGuard_unlock_fair = and_then ArcRwLockUpgradableReadGuard_into_arc_fair (\<lambda>_. invoke DropArc [])"

definition ArcRwLockUpgradableReadGuard_unlocked_fair :: "guard_action \<Rightarrow> guard_action" where
  "ArcRwLockUpgradableReadGuard_unlocked_fair f = Invoke raw_unlock_upgradable_fair (\<lambda>_.
     and_then (defer_call raw_lock_upgradable f) (\<lambda>gs. Return (ArcRwLockUpgradableReadGuard # gs)))"

definition ArcRwLockUpgradableReadGuard_bump :: "guard_action" where
  "ArcRwLockUpgradableReadGuard_bump = invoke raw_bump_upgradable [ArcRwLockUpgradableReadGuard]"

definition ArcRwLockUpgradableReadGuard_deref :: "guard_action" where
  "ArcRwLockUpgradableReadGuard_deref = invoke (Access False) [ArcRwLockUpgradableReadGuard]"

definition ArcRwLockUpgradableReadGuard_upgrade :: "guard_action" where
  "ArcRwLockUpgradableReadGuard_upgrade = invoke raw_upgrade [ArcRwLockWriteGuard]"

definition ArcRwLockUpgradableReadGuard_try_upgrade :: "guard_action" where
  "ArcRwLockUpgradableReadGuard_try_upgrade = Invoke raw_try_upgrade (\<lambda>ok. Return [if ok then ArcRwLockWriteGuard else ArcRwLockUpgradableReadGuard])"

definition ArcRwLockUpgradableReadGuard_try_upgrade_for :: "guard_action" where
  "ArcRwLockUpgradableReadGuard_try_upgrade_for = Invoke raw_try_upgrade_for (\<lambda>ok. Return [if ok then ArcRwLockWriteGuard else ArcRwLockUpgradableReadGuard])"

definition ArcRwLockUpgradableReadGuard_try_upgrade_until :: "guard_action" where
  "ArcRwLockUpgradableReadGuard_try_upgrade_until = Invoke raw_try_upgrade_until (\<lambda>ok. Return [if ok then ArcRwLockWriteGuard else ArcRwLockUpgradableReadGuard])"

definition ArcRwLockUpgradableReadGuard_downgrade :: "guard_action" where
  "ArcRwLockUpgradableReadGuard_downgrade = invoke raw_downgrade_upgradable [ArcRwLockReadGuard]"

definition ArcRwLockUpgradableReadGuard_with_upgraded :: "guard_action \<Rightarrow> guard_action" where
  "ArcRwLockUpgradableReadGuard_with_upgraded f = Invoke raw_upgrade (\<lambda>_.
     and_then (defer_call raw_downgrade_to_upgradable f) (\<lambda>gs. Return (ArcRwLockUpgradableReadGuard # gs)))"

definition ArcRwLockUpgradableReadGuard_try_with_upgraded :: "guard_action \<Rightarrow> guard_action" where
  "ArcRwLockUpgradableReadGuard_try_with_upgraded f = Invoke raw_try_upgrade (\<lambda>ok.
     if ok then and_then (defer_call raw_downgrade_to_upgradable f) (\<lambda>gs. Return (ArcRwLockUpgradableReadGuard # gs)) else Return [ArcRwLockUpgradableReadGuard])"

definition ArcRwLockUpgradableReadGuard_try_with_upgraded_for :: "guard_action \<Rightarrow> guard_action" where
  "ArcRwLockUpgradableReadGuard_try_with_upgraded_for f = Invoke raw_try_upgrade_for (\<lambda>ok.
     if ok then and_then (defer_call raw_downgrade_to_upgradable f) (\<lambda>gs. Return (ArcRwLockUpgradableReadGuard # gs)) else Return [ArcRwLockUpgradableReadGuard])"

definition ArcRwLockUpgradableReadGuard_try_with_upgraded_until :: "guard_action \<Rightarrow> guard_action" where
  "ArcRwLockUpgradableReadGuard_try_with_upgraded_until f = Invoke raw_try_upgrade_until (\<lambda>ok.
     if ok then and_then (defer_call raw_downgrade_to_upgradable f) (\<lambda>gs. Return (ArcRwLockUpgradableReadGuard # gs)) else Return [ArcRwLockUpgradableReadGuard])"

section \<open>MappedRwLockReadGuard\<close>

definition MappedRwLockReadGuard_drop :: "guard_action" where
  "MappedRwLockReadGuard_drop = invoke raw_unlock_shared []"

definition MappedRwLockReadGuard_map :: "nat \<Rightarrow> guard_action \<Rightarrow> guard_action" where
  "MappedRwLockReadGuard_map data f = dropping MappedRwLockReadGuard_drop f (\<lambda>gs. Return (MappedRwLockReadGuard data # gs))"

definition MappedRwLockReadGuard_try_map :: "nat \<Rightarrow> nat option \<Rightarrow> guard_action \<Rightarrow> guard_action" where
  "MappedRwLockReadGuard_try_map q data f = dropping MappedRwLockReadGuard_drop f (\<lambda>gs.
     case data of Some data \<Rightarrow> Return (MappedRwLockReadGuard data # gs) | None \<Rightarrow> Return (MappedRwLockReadGuard q # gs))"

definition MappedRwLockReadGuard_try_map_or_else :: "nat \<Rightarrow> 'e + nat \<Rightarrow> guard_action \<Rightarrow> guard_action" where
  "MappedRwLockReadGuard_try_map_or_else q data f = dropping MappedRwLockReadGuard_drop f (\<lambda>gs.
     case data of Inr data \<Rightarrow> Return (MappedRwLockReadGuard data # gs) | Inl e \<Rightarrow> Return (MappedRwLockReadGuard q # gs))"

definition MappedRwLockReadGuard_unlock_fair :: "guard_action" where
  "MappedRwLockReadGuard_unlock_fair = invoke raw_unlock_shared_fair []"

definition MappedRwLockReadGuard_deref :: "nat \<Rightarrow> guard_action" where
  "MappedRwLockReadGuard_deref q = invoke (Access False) [MappedRwLockReadGuard q]"

section \<open>MappedRwLockWriteGuard\<close>

definition MappedRwLockWriteGuard_drop :: "guard_action" where
  "MappedRwLockWriteGuard_drop = invoke raw_unlock_exclusive []"

definition MappedRwLockWriteGuard_map :: "nat \<Rightarrow> guard_action \<Rightarrow> guard_action" where
  "MappedRwLockWriteGuard_map data f = dropping MappedRwLockWriteGuard_drop f (\<lambda>gs. Return (MappedRwLockWriteGuard data # gs))"

definition MappedRwLockWriteGuard_try_map :: "nat \<Rightarrow> nat option \<Rightarrow> guard_action \<Rightarrow> guard_action" where
  "MappedRwLockWriteGuard_try_map q data f = dropping MappedRwLockWriteGuard_drop f (\<lambda>gs.
     case data of Some data \<Rightarrow> Return (MappedRwLockWriteGuard data # gs) | None \<Rightarrow> Return (MappedRwLockWriteGuard q # gs))"

definition MappedRwLockWriteGuard_try_map_or_err :: "nat \<Rightarrow> 'e + nat \<Rightarrow> guard_action \<Rightarrow> guard_action" where
  "MappedRwLockWriteGuard_try_map_or_err q data f = dropping MappedRwLockWriteGuard_drop f (\<lambda>gs.
     case data of Inr data \<Rightarrow> Return (MappedRwLockWriteGuard data # gs) | Inl e \<Rightarrow> Return (MappedRwLockWriteGuard q # gs))"

definition MappedRwLockWriteGuard_unlock_fair :: "guard_action" where
  "MappedRwLockWriteGuard_unlock_fair = invoke raw_unlock_exclusive_fair []"

definition MappedRwLockWriteGuard_deref :: "nat \<Rightarrow> guard_action" where
  "MappedRwLockWriteGuard_deref q = invoke (Access False) [MappedRwLockWriteGuard q]"

definition MappedRwLockWriteGuard_deref_mut :: "nat \<Rightarrow> guard_action" where
  "MappedRwLockWriteGuard_deref_mut q = invoke (Access True) [MappedRwLockWriteGuard q]"

section \<open>Printing and serializing\<close>

definition RwLock_fmt :: "guard_action \<Rightarrow> guard_action" where
  "RwLock_fmt f = and_then RwLock_try_read (\<lambda>guard.
     if guard \<noteq> [] then dropping RwLockReadGuard_drop f (\<lambda>gs. and_then RwLockReadGuard_drop (\<lambda>_. Return gs)) else Return [])"

definition RwLock_serialize :: "guard_action \<Rightarrow> guard_action" where
  "RwLock_serialize f = and_then RwLock_read (\<lambda>_.
     dropping RwLockReadGuard_drop f (\<lambda>gs. and_then RwLockReadGuard_drop (\<lambda>_. Return gs)))"

section \<open>Tables of the functions\<close>

text \<open>
  What a caller can do with the lock, as in \<open>Mutex_Guard\<close>; the closures of \<open>upgraded\<close> run while the guard is upgraded.
\<close>

definition rw_acquires :: "guard_action list" where
  "rw_acquires =
    [RwLock_read,
     RwLock_try_read,
     RwLock_write,
     RwLock_try_write,
     RwLock_read_arc,
     RwLock_try_read_arc,
     RwLock_write_arc,
     RwLock_try_write_arc,
     RwLock_try_read_for,
     RwLock_try_read_until,
     RwLock_try_write_for,
     RwLock_try_write_until,
     RwLock_try_read_arc_for,
     RwLock_try_read_arc_until,
     RwLock_try_write_arc_for,
     RwLock_try_write_arc_until,
     RwLock_read_recursive,
     RwLock_try_read_recursive,
     RwLock_read_arc_recursive,
     RwLock_try_read_recursive_arc,
     RwLock_try_read_recursive_for,
     RwLock_try_read_recursive_until,
     RwLock_try_read_arc_recursive_for,
     RwLock_try_read_arc_recursive_until,
     RwLock_upgradable_read,
     RwLock_try_upgradable_read,
     RwLock_upgradable_read_arc,
     RwLock_try_upgradable_read_arc,
     RwLock_try_upgradable_read_for,
     RwLock_try_upgradable_read_until,
     RwLock_try_upgradable_read_arc_for,
     RwLock_try_upgradable_read_arc_until]"

definition rw_by_ref :: "nat \<Rightarrow> (token \<times> guard_action) list" where
  "rw_by_ref q =
    [(RwLockReadGuard, RwLockReadGuard_bump),
     (RwLockReadGuard, RwLockReadGuard_deref),
     (ArcRwLockReadGuard, ArcRwLockReadGuard_bump),
     (ArcRwLockReadGuard, ArcRwLockReadGuard_deref),
     (RwLockWriteGuard, RwLockWriteGuard_bump),
     (RwLockWriteGuard, RwLockWriteGuard_deref),
     (RwLockWriteGuard, RwLockWriteGuard_deref_mut),
     (ArcRwLockWriteGuard, ArcRwLockWriteGuard_bump),
     (ArcRwLockWriteGuard, ArcRwLockWriteGuard_deref),
     (ArcRwLockWriteGuard, ArcRwLockWriteGuard_deref_mut),
     (RwLockUpgradableReadGuard, RwLockUpgradableReadGuard_bump),
     (RwLockUpgradableReadGuard, RwLockUpgradableReadGuard_deref),
     (ArcRwLockUpgradableReadGuard, ArcRwLockUpgradableReadGuard_bump),
     (ArcRwLockUpgradableReadGuard, ArcRwLockUpgradableReadGuard_deref),
     ((MappedRwLockReadGuard q), MappedRwLockReadGuard_deref q),
     ((MappedRwLockWriteGuard q), MappedRwLockWriteGuard_deref q),
     ((MappedRwLockWriteGuard q), MappedRwLockWriteGuard_deref_mut q)]"

definition rw_by_value :: "nat \<Rightarrow> (token \<times> guard_action) list" where
  "rw_by_value q =
    [(RwLockReadGuard, RwLockReadGuard_drop),
     (RwLockReadGuard, RwLockReadGuard_unlock_fair),
     (ArcRwLockReadGuard, ArcRwLockReadGuard_drop),
     (ArcRwLockReadGuard, ArcRwLockReadGuard_into_arc),
     (ArcRwLockReadGuard, ArcRwLockReadGuard_into_arc_fair),
     (ArcRwLockReadGuard, ArcRwLockReadGuard_unlock_fair),
     (RwLockWriteGuard, RwLockWriteGuard_drop),
     (RwLockWriteGuard, RwLockWriteGuard_unlock_fair),
     (RwLockWriteGuard, RwLockWriteGuard_downgrade),
     (RwLockWriteGuard, RwLockWriteGuard_downgrade_to_upgradable),
     (ArcRwLockWriteGuard, ArcRwLockWriteGuard_drop),
     (ArcRwLockWriteGuard, ArcRwLockWriteGuard_into_arc),
     (ArcRwLockWriteGuard, ArcRwLockWriteGuard_into_arc_fair),
     (ArcRwLockWriteGuard, ArcRwLockWriteGuard_unlock_fair),
     (ArcRwLockWriteGuard, ArcRwLockWriteGuard_downgrade),
     (ArcRwLockWriteGuard, ArcRwLockWriteGuard_downgrade_to_upgradable),
     (RwLockUpgradableReadGuard, RwLockUpgradableReadGuard_drop),
     (RwLockUpgradableReadGuard, RwLockUpgradableReadGuard_unlock_fair),
     (RwLockUpgradableReadGuard, RwLockUpgradableReadGuard_upgrade),
     (RwLockUpgradableReadGuard, RwLockUpgradableReadGuard_try_upgrade),
     (RwLockUpgradableReadGuard, RwLockUpgradableReadGuard_try_upgrade_for),
     (RwLockUpgradableReadGuard, RwLockUpgradableReadGuard_try_upgrade_until),
     (RwLockUpgradableReadGuard, RwLockUpgradableReadGuard_downgrade),
     (ArcRwLockUpgradableReadGuard, ArcRwLockUpgradableReadGuard_drop),
     (ArcRwLockUpgradableReadGuard, ArcRwLockUpgradableReadGuard_into_arc),
     (ArcRwLockUpgradableReadGuard, ArcRwLockUpgradableReadGuard_into_arc_fair),
     (ArcRwLockUpgradableReadGuard, ArcRwLockUpgradableReadGuard_unlock_fair),
     (ArcRwLockUpgradableReadGuard, ArcRwLockUpgradableReadGuard_upgrade),
     (ArcRwLockUpgradableReadGuard, ArcRwLockUpgradableReadGuard_try_upgrade),
     (ArcRwLockUpgradableReadGuard, ArcRwLockUpgradableReadGuard_try_upgrade_for),
     (ArcRwLockUpgradableReadGuard, ArcRwLockUpgradableReadGuard_try_upgrade_until),
     (ArcRwLockUpgradableReadGuard, ArcRwLockUpgradableReadGuard_downgrade),
     ((MappedRwLockReadGuard q), MappedRwLockReadGuard_drop),
     ((MappedRwLockReadGuard q), MappedRwLockReadGuard_unlock_fair),
     ((MappedRwLockWriteGuard q), MappedRwLockWriteGuard_drop),
     ((MappedRwLockWriteGuard q), MappedRwLockWriteGuard_unlock_fair),
     (Forgotten RwLockReadGuard, RwLock_force_unlock_read),
     (Forgotten RwLockReadGuard, RwLock_force_unlock_read_fair),
     (Forgotten RwLockWriteGuard, RwLock_force_unlock_write),
     (Forgotten RwLockWriteGuard, RwLock_force_unlock_write_fair),
     (Forgotten RwLockReadGuard, RwLock_make_read_guard_unchecked),
     (Forgotten RwLockWriteGuard, RwLock_make_write_guard_unchecked),
     (Forgotten RwLockUpgradableReadGuard, RwLock_make_upgradable_guard_unchecked)]"

definition rw_released :: "(token \<times> (guard_action \<Rightarrow> guard_action)) list" where
  "rw_released =
    [(RwLockReadGuard, RwLockReadGuard_unlocked),
     (RwLockReadGuard, RwLockReadGuard_unlocked_fair),
     (ArcRwLockReadGuard, ArcRwLockReadGuard_unlocked),
     (ArcRwLockReadGuard, ArcRwLockReadGuard_unlocked_fair),
     (RwLockWriteGuard, RwLockWriteGuard_unlocked),
     (RwLockWriteGuard, RwLockWriteGuard_unlocked_fair),
     (ArcRwLockWriteGuard, ArcRwLockWriteGuard_unlocked),
     (ArcRwLockWriteGuard, ArcRwLockWriteGuard_unlocked_fair),
     (RwLockUpgradableReadGuard, RwLockUpgradableReadGuard_unlocked),
     (RwLockUpgradableReadGuard, RwLockUpgradableReadGuard_unlocked_fair),
     (ArcRwLockUpgradableReadGuard, ArcRwLockUpgradableReadGuard_unlocked),
     (ArcRwLockUpgradableReadGuard, ArcRwLockUpgradableReadGuard_unlocked_fair)]"

definition rw_mapped :: "nat \<Rightarrow> nat \<Rightarrow> nat option \<Rightarrow> 'e + nat \<Rightarrow> (token \<times> (guard_action \<Rightarrow> guard_action)) list" where
  "rw_mapped q data opt res =
    [(RwLockReadGuard, RwLockReadGuard_map data),
     (RwLockReadGuard, RwLockReadGuard_try_map opt),
     (RwLockReadGuard, RwLockReadGuard_try_map_or_err res),
     (RwLockWriteGuard, RwLockWriteGuard_map data),
     (RwLockWriteGuard, RwLockWriteGuard_try_map opt),
     (RwLockWriteGuard, RwLockWriteGuard_try_map_or_err res),
     ((MappedRwLockReadGuard q), MappedRwLockReadGuard_map data),
     ((MappedRwLockReadGuard q), MappedRwLockReadGuard_try_map q opt),
     ((MappedRwLockReadGuard q), MappedRwLockReadGuard_try_map_or_else q res),
     ((MappedRwLockWriteGuard q), MappedRwLockWriteGuard_map data),
     ((MappedRwLockWriteGuard q), MappedRwLockWriteGuard_try_map q opt),
     ((MappedRwLockWriteGuard q), MappedRwLockWriteGuard_try_map_or_err q res)]"

definition rw_upgraded :: "(token \<times> (guard_action \<Rightarrow> guard_action)) list" where
  "rw_upgraded =
    [(RwLockUpgradableReadGuard, RwLockUpgradableReadGuard_with_upgraded),
     (ArcRwLockUpgradableReadGuard, ArcRwLockUpgradableReadGuard_with_upgraded)]"

definition rw_try_upgraded :: "(token \<times> (guard_action \<Rightarrow> guard_action)) list" where
  "rw_try_upgraded =
    [(RwLockUpgradableReadGuard, RwLockUpgradableReadGuard_try_with_upgraded),
     (RwLockUpgradableReadGuard, RwLockUpgradableReadGuard_try_with_upgraded_for),
     (RwLockUpgradableReadGuard, RwLockUpgradableReadGuard_try_with_upgraded_until),
     (ArcRwLockUpgradableReadGuard, ArcRwLockUpgradableReadGuard_try_with_upgraded),
     (ArcRwLockUpgradableReadGuard, ArcRwLockUpgradableReadGuard_try_with_upgraded_for),
     (ArcRwLockUpgradableReadGuard, ArcRwLockUpgradableReadGuard_try_with_upgraded_until)]"

definition rw_shown :: "(guard_action \<Rightarrow> guard_action) list" where
  "rw_shown =
    [RwLock_fmt,
     RwLock_serialize]"

lemmas rw_fn_defs = RawRwLock_is_locked_def RawRwLock_is_locked_exclusive_def RawRwLockFair_bump_shared_def RawRwLockFair_bump_exclusive_def
  RawRwLockUpgradeFair_bump_upgradable_def RwLock_make_read_guard_unchecked_def RwLock_make_write_guard_unchecked_def RwLock_make_upgradable_guard_unchecked_def
  RwLock_make_arc_read_guard_unchecked_def RwLock_make_arc_write_guard_unchecked_def RwLock_make_upgradable_arc_guard_unchecked_def RwLock_read_def
  RwLock_try_read_def RwLock_write_def RwLock_try_write_def RwLock_is_locked_def
  RwLock_is_locked_exclusive_def RwLock_force_unlock_read_def RwLock_force_unlock_write_def RwLock_read_arc_def
  RwLock_try_read_arc_def RwLock_write_arc_def RwLock_try_write_arc_def RwLock_force_unlock_read_fair_def
  RwLock_force_unlock_write_fair_def RwLock_try_read_for_def RwLock_try_read_until_def RwLock_try_write_for_def
  RwLock_try_write_until_def RwLock_try_read_arc_for_def RwLock_try_read_arc_until_def RwLock_try_write_arc_for_def
  RwLock_try_write_arc_until_def RwLock_read_recursive_def RwLock_try_read_recursive_def RwLock_read_arc_recursive_def
  RwLock_try_read_recursive_arc_def RwLock_try_read_recursive_for_def RwLock_try_read_recursive_until_def RwLock_try_read_arc_recursive_for_def
  RwLock_try_read_arc_recursive_until_def RwLock_upgradable_read_def RwLock_try_upgradable_read_def RwLock_upgradable_read_arc_def
  RwLock_try_upgradable_read_arc_def RwLock_try_upgradable_read_for_def RwLock_try_upgradable_read_until_def RwLock_try_upgradable_read_arc_for_def
  RwLock_try_upgradable_read_arc_until_def RwLockReadGuard_drop_def RwLockReadGuard_map_def RwLockReadGuard_try_map_def
  RwLockReadGuard_try_map_or_err_def RwLockReadGuard_unlocked_def RwLockReadGuard_unlock_fair_def RwLockReadGuard_unlocked_fair_def
  RwLockReadGuard_bump_def RwLockReadGuard_deref_def ArcRwLockReadGuard_drop_def ArcRwLockReadGuard_unlocked_def
  ArcRwLockReadGuard_into_arc_def ArcRwLockReadGuard_into_arc_fair_def ArcRwLockReadGuard_unlock_fair_def ArcRwLockReadGuard_unlocked_fair_def
  ArcRwLockReadGuard_bump_def ArcRwLockReadGuard_deref_def RwLockWriteGuard_drop_def RwLockWriteGuard_map_def
  RwLockWriteGuard_try_map_def RwLockWriteGuard_try_map_or_err_def RwLockWriteGuard_unlocked_def RwLockWriteGuard_unlock_fair_def
  RwLockWriteGuard_unlocked_fair_def RwLockWriteGuard_bump_def RwLockWriteGuard_deref_def RwLockWriteGuard_deref_mut_def
  RwLockWriteGuard_downgrade_def RwLockWriteGuard_downgrade_to_upgradable_def ArcRwLockWriteGuard_drop_def ArcRwLockWriteGuard_unlocked_def
  ArcRwLockWriteGuard_into_arc_def ArcRwLockWriteGuard_into_arc_fair_def ArcRwLockWriteGuard_unlock_fair_def ArcRwLockWriteGuard_unlocked_fair_def
  ArcRwLockWriteGuard_bump_def ArcRwLockWriteGuard_deref_def ArcRwLockWriteGuard_deref_mut_def ArcRwLockWriteGuard_downgrade_def
  ArcRwLockWriteGuard_downgrade_to_upgradable_def RwLockUpgradableReadGuard_drop_def RwLockUpgradableReadGuard_unlocked_def RwLockUpgradableReadGuard_unlock_fair_def
  RwLockUpgradableReadGuard_unlocked_fair_def RwLockUpgradableReadGuard_bump_def RwLockUpgradableReadGuard_deref_def RwLockUpgradableReadGuard_upgrade_def
  RwLockUpgradableReadGuard_try_upgrade_def RwLockUpgradableReadGuard_try_upgrade_for_def RwLockUpgradableReadGuard_try_upgrade_until_def RwLockUpgradableReadGuard_downgrade_def
  RwLockUpgradableReadGuard_with_upgraded_def RwLockUpgradableReadGuard_try_with_upgraded_def RwLockUpgradableReadGuard_try_with_upgraded_for_def RwLockUpgradableReadGuard_try_with_upgraded_until_def
  ArcRwLockUpgradableReadGuard_drop_def ArcRwLockUpgradableReadGuard_unlocked_def ArcRwLockUpgradableReadGuard_into_arc_def ArcRwLockUpgradableReadGuard_into_arc_fair_def
  ArcRwLockUpgradableReadGuard_unlock_fair_def ArcRwLockUpgradableReadGuard_unlocked_fair_def ArcRwLockUpgradableReadGuard_bump_def ArcRwLockUpgradableReadGuard_deref_def
  ArcRwLockUpgradableReadGuard_upgrade_def ArcRwLockUpgradableReadGuard_try_upgrade_def ArcRwLockUpgradableReadGuard_try_upgrade_for_def ArcRwLockUpgradableReadGuard_try_upgrade_until_def
  ArcRwLockUpgradableReadGuard_downgrade_def ArcRwLockUpgradableReadGuard_with_upgraded_def ArcRwLockUpgradableReadGuard_try_with_upgraded_def ArcRwLockUpgradableReadGuard_try_with_upgraded_for_def
  ArcRwLockUpgradableReadGuard_try_with_upgraded_until_def MappedRwLockReadGuard_drop_def MappedRwLockReadGuard_map_def MappedRwLockReadGuard_try_map_def
  MappedRwLockReadGuard_try_map_or_else_def MappedRwLockReadGuard_unlock_fair_def MappedRwLockReadGuard_deref_def MappedRwLockWriteGuard_drop_def
  MappedRwLockWriteGuard_map_def MappedRwLockWriteGuard_try_map_def MappedRwLockWriteGuard_try_map_or_err_def MappedRwLockWriteGuard_unlock_fair_def
  MappedRwLockWriteGuard_deref_def MappedRwLockWriteGuard_deref_mut_def RwLock_fmt_def RwLock_serialize_def

end
