(* ===== verification/Guard_Safety.thy ===== *)
theory Guard_Safety
  imports Mutex_Guard Re_Guard Rw_Guard
begin

text \<open>
  Why the guards of \<open>lock_api\<close> are safe. A caller owns tokens: guards, an \<open>Arc\<close>, what is left of forgotten guards. The typing
  \<open>client\<close> says which programs a caller can write with the public functions, with closures that are such programs themselves and with
  panics anywhere; the soundness theorem says that no such program ever calls a function of the raw lock without
  holding what that function asks for, and that the holds are always exactly those of the tokens it owns.
\<close>

section \<open>Dropping\<close>

primrec drop_token :: "token \<Rightarrow> guard_action" where
  "drop_token MutexGuard = MutexGuard_drop"
| "drop_token ArcMutexGuard = ArcMutexGuard_drop"
| "drop_token (MappedMutexGuard p) = MappedMutexGuard_drop"
| "drop_token RwLockReadGuard = RwLockReadGuard_drop"
| "drop_token ArcRwLockReadGuard = ArcRwLockReadGuard_drop"
| "drop_token (MappedRwLockReadGuard p) = MappedRwLockReadGuard_drop"
| "drop_token RwLockWriteGuard = RwLockWriteGuard_drop"
| "drop_token ArcRwLockWriteGuard = ArcRwLockWriteGuard_drop"
| "drop_token (MappedRwLockWriteGuard p) = MappedRwLockWriteGuard_drop"
| "drop_token RwLockUpgradableReadGuard = RwLockUpgradableReadGuard_drop"
| "drop_token ArcRwLockUpgradableReadGuard = ArcRwLockUpgradableReadGuard_drop"
| "drop_token ReentrantMutexGuard = ReentrantMutexGuard_drop"
| "drop_token ArcReentrantMutexGuard = ArcReentrantMutexGuard_drop"
| "drop_token (MappedReentrantMutexGuard p) = MappedReentrantMutexGuard_drop"
| "drop_token ArcHandle = invoke DropArc []"
| "drop_token (Forgotten t) = Return []"

primrec drop_tokens :: "token list \<Rightarrow> guard_action" where
  "drop_tokens [] = Return []"
| "drop_tokens (t # ts) = and_then (drop_token t) (\<lambda>_. drop_tokens ts)"

primrec forgotten :: "token \<Rightarrow> bool" where
  "forgotten MutexGuard = False"
| "forgotten ArcMutexGuard = False"
| "forgotten (MappedMutexGuard p) = False"
| "forgotten RwLockReadGuard = False"
| "forgotten ArcRwLockReadGuard = False"
| "forgotten (MappedRwLockReadGuard p) = False"
| "forgotten RwLockWriteGuard = False"
| "forgotten ArcRwLockWriteGuard = False"
| "forgotten (MappedRwLockWriteGuard p) = False"
| "forgotten RwLockUpgradableReadGuard = False"
| "forgotten ArcRwLockUpgradableReadGuard = False"
| "forgotten ReentrantMutexGuard = False"
| "forgotten ArcReentrantMutexGuard = False"
| "forgotten (MappedReentrantMutexGuard p) = False"
| "forgotten ArcHandle = False"
| "forgotten (Forgotten t) = True"

lemmas guard_fn_defs = mx_fn_defs rw_fn_defs rem_fn_defs

lemma wp_drop_token:
  "wp (drop_token t) Q (R + token_res t) = Q (Some []) (R + (if forgotten t then token_res t else {#}))"
  by (cases t) (simp_all add: guard_fn_defs wp_invoke token_res_def)

lemma wp_drop_tokens:
  "wp (drop_tokens ts) Q (R + tokens_res ts) = Q (Some []) (R + tokens_res (filter forgotten ts))"
proof (induction ts arbitrary: R Q)
  case (Cons t ts)
  have e: "R + tokens_res (t # ts) = (R + tokens_res ts) + token_res t" by simp
  show ?case
    unfolding e drop_tokens.simps wp_and_then wp_drop_token
    using Cons.IH [of Q "R + (if forgotten t then token_res t else {#})"] by (simp add: ac_simps)
qed simp

section \<open>What a caller can write\<close>

datatype lock_kind = MutexKind | RwLockKind | ReentrantKind

fun acquires :: "lock_kind \<Rightarrow> guard_action list" where
  "acquires MutexKind = mx_acquires"
| "acquires RwLockKind = rw_acquires"
| "acquires ReentrantKind = rem_acquires"

fun by_ref :: "lock_kind \<Rightarrow> nat \<Rightarrow> (token \<times> guard_action) list" where
  "by_ref MutexKind = mx_by_ref"
| "by_ref RwLockKind = rw_by_ref"
| "by_ref ReentrantKind = rem_by_ref"

fun by_value :: "lock_kind \<Rightarrow> nat \<Rightarrow> (token \<times> guard_action) list" where
  "by_value MutexKind = mx_by_value"
| "by_value RwLockKind = rw_by_value"
| "by_value ReentrantKind = rem_by_value"

fun released :: "lock_kind \<Rightarrow> (token \<times> (guard_action \<Rightarrow> guard_action)) list" where
  "released MutexKind = mx_released"
| "released RwLockKind = rw_released"
| "released ReentrantKind = rem_released"

fun mapped :: "lock_kind \<Rightarrow> nat \<Rightarrow> nat \<Rightarrow> nat option \<Rightarrow> nat + nat \<Rightarrow> (token \<times> (guard_action \<Rightarrow> guard_action)) list" where
  "mapped MutexKind = mx_mapped"
| "mapped RwLockKind = rw_mapped"
| "mapped ReentrantKind = rem_mapped"

fun upgraded :: "lock_kind \<Rightarrow> (token \<times> (guard_action \<Rightarrow> guard_action)) list" where
  "upgraded RwLockKind = rw_upgraded"
| "upgraded _ = []"

fun try_upgraded :: "lock_kind \<Rightarrow> (token \<times> (guard_action \<Rightarrow> guard_action)) list" where
  "try_upgraded RwLockKind = rw_try_upgraded"
| "try_upgraded _ = []"

fun shown :: "lock_kind \<Rightarrow> (guard_action \<Rightarrow> guard_action) list" where
  "shown MutexKind = mx_shown"
| "shown RwLockKind = rw_shown"
| "shown ReentrantKind = rem_shown"

fun shown_mode :: "lock_kind \<Rightarrow> lock_mode" where
  "shown_mode MutexKind = ExclusiveMode"
| "shown_mode RwLockKind = SharedMode"
| "shown_mode ReentrantKind = ReentrantMode"

text \<open>The values a program can return.\<close>

primrec results :: "'r prog \<Rightarrow> 'r set" where
  "results (Return r) = {r}"
| "results Unwind = {}"
| "results (Invoke c f) = results (f True) \<union> results (f False)"

text \<open>
  \<open>client k B G p\<close>: the program \<open>p\<close> can be written by a caller that owns the tokens \<open>G\<close> and has borrowed references
  that rest on the holds \<open>B\<close>; it returns the tokens it owns at the end, and if it panics they are dropped.
  \<open>api k B ins keep p\<close>: the call \<open>p\<close> of a public function takes the tokens \<open>ins\<close>; if it unwinds the caller still owns \<open>keep\<close>.
  During a call the caller may have lent some of its tokens (\<open>L\<close>). A closure that may not be called owns no tokens.
\<close>

inductive client :: "lock_kind \<Rightarrow> holding multiset \<Rightarrow> token list \<Rightarrow> guard_action \<Rightarrow> bool"
  and api :: "lock_kind \<Rightarrow> holding multiset \<Rightarrow> token list \<Rightarrow> token list \<Rightarrow> guard_action \<Rightarrow> bool" for k where
  client_return: "client k B G (Return G)"
| client_panic: "client k B G (and_then (drop_tokens G) (\<lambda>_. Unwind))"
| client_permute: "client k B G p \<Longrightarrow> mset G' = mset G \<Longrightarrow> client k B G' p"
| client_access: "call_ok (Access w) B \<Longrightarrow> client k B G p \<Longrightarrow> client k B G (Invoke (Access w) (\<lambda>_. p))"
| client_forget: "client k B (Forgotten t # G) p \<Longrightarrow> client k B (t # G) p"
| client_call: "api k (B + tokens_res L) ins keep p \<Longrightarrow> (\<And>gs. gs \<in> results p \<Longrightarrow> client k B (gs @ L @ G) (cont gs)) \<Longrightarrow>
    client k B (ins @ L @ G) (handle_unwind p cont (and_then (drop_tokens (keep @ L @ G)) (\<lambda>_. Unwind)))"
| api_acquire: "p \<in> set (acquires k) \<Longrightarrow> api k B [] [] p"
| api_by_ref: "(t, p) \<in> set (by_ref k q) \<Longrightarrow> api k B [t] [t] p"
| api_by_value: "(t, p) \<in> set (by_value k q) \<Longrightarrow> api k B [t] [] p"
| api_arc: "api k B [ArcHandle] [] (invoke DropArc [])"
| api_clone: "api k B [ArcHandle] [ArcHandle] (invoke CloneArc [ArcHandle, ArcHandle])"
| api_released: "(t, fn) \<in> set (released k) \<Longrightarrow> client k B C f \<Longrightarrow> api k B (t # C) [t] (fn f)"
| api_mapped: "(t, fn) \<in> set (mapped k q data opt res) \<Longrightarrow> client k (B + token_res t) C f \<Longrightarrow> api k B (t # C) [] (fn f)"
| api_upgraded: "(t, fn) \<in> set (upgraded k) \<Longrightarrow> client k (B + {#Hold ExclusiveMode#}) C f \<Longrightarrow> api k B (t # C) [t] (fn f)"
| api_try_upgraded: "(t, fn) \<in> set (try_upgraded k) \<Longrightarrow> client k (B + {#Hold ExclusiveMode#}) [] f \<Longrightarrow> api k B [t] [t] (fn f)"
| api_shown: "fn \<in> set (shown k) \<Longrightarrow> client k (B + {#Hold (shown_mode k)#}) [] f \<Longrightarrow> api k B [] [] (fn f)"

section \<open>The functions one by one\<close>

text \<open>
  How a call ends: with the holds \<open>R\<close> of others as they were, the holds of the tokens it returns, or, if it unwinds,
  those of \<open>keep\<close> and of tokens that were forgotten.
\<close>

definition ends :: "holding multiset \<Rightarrow> token list \<Rightarrow> token list option \<Rightarrow> holding multiset \<Rightarrow> bool" where
  "ends R keep r h = (case r of
     Some gs \<Rightarrow> h = R + tokens_res gs
   | None \<Rightarrow> \<exists>F. list_all forgotten F \<and> h = R + tokens_res keep + tokens_res F)"

lemma ends_Some [simp]: "ends R keep (Some gs) h \<longleftrightarrow> h = R + tokens_res gs"
  by (simp add: ends_def)

lemma ends_None: "ends R keep None h \<longleftrightarrow> (\<exists>F. list_all forgotten F \<and> h = R + tokens_res keep + tokens_res F)"
  by (simp add: ends_def)

lemma ends_add: "ends (add_mset x R) keep r h \<longleftrightarrow> x \<in># h \<and> ends R keep r (h - {#x#})"
proof (cases r)
  case None
  have "(\<exists>F. list_all forgotten F \<and> h = add_mset x (R + tokens_res keep + tokens_res F)) \<longleftrightarrow>
      x \<in># h \<and> (\<exists>F. list_all forgotten F \<and> h - {#x#} = R + tokens_res keep + tokens_res F)"
    by (metis add_mset_remove_trivial insert_DiffM union_single_eq_member)
  then show ?thesis by (simp add: None ends_None)
next
  case (Some gs)
  then show ?thesis by simp (metis add_mset_remove_trivial insert_DiffM union_single_eq_member)
qed

lemma ends_add_fun: "ends (add_mset x R) keep = (\<lambda>r h. x \<in># h \<and> ends R keep r (h - {#x#}))"
  by (intro ext) (rule ends_add)

lemma wp_results: "wp p Q h \<Longrightarrow> wp p (\<lambda>r h. Q r h \<and> (\<forall>x. r = Some x \<longrightarrow> x \<in> results p)) h"
proof (induction p arbitrary: h)
  case (Invoke c f)
  have "wp (f b) (\<lambda>r h. Q r h \<and> (\<forall>x. r = Some x \<longrightarrow> x \<in> results (Invoke c f))) (call_effect c b h)" for b
  proof -
    have "wp (f b) Q (call_effect c b h)" using Invoke.prems by (cases b) simp_all
    from Invoke.IH [OF rangeI this] show ?thesis by (rule wp_mono) (cases b; auto)
  qed
  then show ?case using Invoke.prems by simp
qed auto

lemmas table_defs = mx_acquires_def mx_by_ref_def mx_by_value_def mx_released_def mx_mapped_def mx_shown_def
  rw_acquires_def rw_by_ref_def rw_by_value_def rw_released_def rw_mapped_def rw_shown_def rw_upgraded_def rw_try_upgraded_def
  rem_acquires_def rem_by_ref_def rem_by_value_def rem_released_def rem_mapped_def rem_shown_def

lemma wp_acquire: "p \<in> set (acquires k) \<Longrightarrow> wp p (ends R []) R"
  by (cases k) (auto simp: table_defs guard_fn_defs wp_simps token_res_def)

lemma wp_by_ref: "(t, p) \<in> set (by_ref k q) \<Longrightarrow> wp p (ends R [t]) (R + token_res t)"
  by (cases k) (auto simp: table_defs guard_fn_defs wp_simps token_res_def)

lemma wp_by_value: "(t, p) \<in> set (by_value k q) \<Longrightarrow> wp p (ends R []) (R + token_res t)"
  by (cases k) (auto simp: table_defs guard_fn_defs wp_simps token_res_def)

text \<open>The three shapes of the functions with a closure.\<close>

lemma released_shape:
  "(t, fn) \<in> set (released k) \<Longrightarrow> \<exists>m fair. token_mode t = Some m
     \<and> fn f = Invoke (Release m fair) (\<lambda>_. and_then (defer_call (Acquire m False Blocking) f) (\<lambda>gs. Return (t # gs)))"
  by (cases k) (auto simp: table_defs guard_fn_defs)

lemma mapped_shape:
  assumes "(t, fn) \<in> set (mapped k q data opt res)"
  shows "\<exists>u. fn f = dropping (drop_token t) f (\<lambda>gs. Return (u # gs)) \<and> token_res u = token_res t \<and> \<not> forgotten t"
  by (insert assms, cases k; cases opt; cases res; simp only: mapped.simps table_defs list.set insert_iff empty_iff prod.inject simp_thms;
      (elim disjE conjE)?; hypsubst; unfold guard_fn_defs drop_token.simps option.case sum.case;
      (rule exI, rule conjI, rule refl, simp add: token_res_def))

lemma upgraded_shape:
  "(t, fn) \<in> set (upgraded k) \<Longrightarrow> token_mode t = Some UpgradableMode
     \<and> fn f = Invoke raw_upgrade (\<lambda>_. and_then (defer_call raw_downgrade_to_upgradable f) (\<lambda>gs. Return (t # gs)))"
  by (cases k) (auto simp: table_defs guard_fn_defs)

lemma try_upgraded_shape:
  "(t, fn) \<in> set (try_upgraded k) \<Longrightarrow> token_mode t = Some UpgradableMode \<and> (\<exists>p. p \<noteq> Blocking
     \<and> fn f = Invoke (Convert UpgradableMode ExclusiveMode p)
         (\<lambda>ok. if ok then and_then (defer_call raw_downgrade_to_upgradable f) (\<lambda>gs. Return (t # gs)) else Return [t]))"
  by (cases k) (auto simp: table_defs guard_fn_defs)

section \<open>Soundness\<close>

lemma sound_released:
  assumes "(t, fn) \<in> set (released k)" and f: "\<And>R. wp f (ends (R + B) []) (R + B + tokens_res C)"
  shows "wp (fn f) (ends (R + B) [t]) (R + B + tokens_res (t # C))"
proof -
  obtain m fair where t: "token_mode t = Some m"
    and fn: "fn f = Invoke (Release m fair) (\<lambda>_. and_then (defer_call (Acquire m False Blocking) f) (\<lambda>gs. Return (t # gs)))"
    using released_shape [OF assms(1)] by blast
  define X where "X = (if token_arc t then {#OwnedArc#} else {#})"
  have r: "token_res t = add_mset (Hold m) X" by (simp add: token_res_def t X_def)
  have "wp f (ends (R + X + B) []) (R + X + B + tokens_res C)" by (rule f)
  then have "wp f (\<lambda>r h. case r of Some gs \<Rightarrow> ends (R + B) [t] (Some (t # gs)) (add_mset (Hold m) h) | None \<Rightarrow> ends (R + B) [t] None (add_mset (Hold m) h))
      (R + X + B + tokens_res C)"
    by (rule wp_mono) (auto simp: ends_None r ac_simps split: option.split)
  then show ?thesis
    unfolding fn by (simp add: wp_simps r ac_simps option.case_distrib cong: option.case_cong)
qed

lemma sound_mapped:
  assumes "(t, fn) \<in> set (mapped k q data opt res)"
    and f: "\<And>R. wp f (ends (R + (B + token_res t)) []) (R + (B + token_res t) + tokens_res C)"
  shows "wp (fn f) (ends (R + B) []) (R + B + tokens_res (t # C))"
proof -
  obtain u where fn: "fn f = dropping (drop_token t) f (\<lambda>gs. Return (u # gs))" and u: "token_res u = token_res t" "\<not> forgotten t"
    using mapped_shape [OF assms(1)] by blast
  have d: "wp (drop_token t) (\<lambda>_. ends (R + B) [] None) h" if "ends (R + (B + token_res t)) [] None h" for h
  proof -
    obtain F where F: "list_all forgotten F" "h = (R + B + tokens_res F) + token_res t"
      using \<open>ends _ _ _ h\<close> by (auto simp: ends_None ac_simps)
    show ?thesis unfolding F(2) wp_drop_token using u(2) F(1) by (auto simp: ends_None)
  qed
  have "wp f (\<lambda>r h. case r of Some gs \<Rightarrow> h = R + B + tokens_res (u # gs) | None \<Rightarrow> wp (drop_token t) (\<lambda>_. ends (R + B) [] None) h)
      (R + (B + token_res t) + tokens_res C)"
    using f [of R] by (rule wp_mono) (use d in \<open>auto simp: u(1) ac_simps split: option.split\<close>)
  then show ?thesis unfolding fn by (simp add: wp_dropping ac_simps cong: option.case_cong)
qed

text \<open>Both kinds of upgrade end with the deferred downgrade.\<close>

lemma sound_upgrade:
  assumes t: "token_mode t = Some UpgradableMode"
    and f: "\<And>R. wp f (ends (R + (B + {#Hold ExclusiveMode#})) []) (R + (B + {#Hold ExclusiveMode#}) + tokens_res C)"
  shows "wp (and_then (defer_call raw_downgrade_to_upgradable f) (\<lambda>gs. Return (t # gs))) (ends (R + B) [t])
    (add_mset (Hold ExclusiveMode) (R + B + tokens_res (t # C) - {#Hold UpgradableMode#}))"
proof -
  define X where "X = (if token_arc t then {#OwnedArc#} else {#})"
  have r: "token_res t = add_mset (Hold UpgradableMode) X" by (simp add: token_res_def t X_def)
  have "wp f (ends (R + X + (B + {#Hold ExclusiveMode#})) []) (R + X + (B + {#Hold ExclusiveMode#}) + tokens_res C)" by (rule f)
  then have "wp f (\<lambda>r h. Hold ExclusiveMode \<in># h \<and> ends (R + X + B) [] r (h - {#Hold ExclusiveMode#}))
      (R + X + (B + {#Hold ExclusiveMode#}) + tokens_res C)"
    by (simp add: ends_add_fun)
  then have "wp f (\<lambda>r h. Hold ExclusiveMode \<in># h \<and> (case r of
      Some gs \<Rightarrow> ends (R + B) [t] (Some (t # gs)) (add_mset (Hold UpgradableMode) (h - {#Hold ExclusiveMode#}))
    | None \<Rightarrow> ends (R + B) [t] None (add_mset (Hold UpgradableMode) (h - {#Hold ExclusiveMode#}))))
      (R + X + (B + {#Hold ExclusiveMode#}) + tokens_res C)"
    by (rule wp_mono) (auto simp: ends_None r ac_simps split: option.split)
  then show ?thesis
    by (simp add: wp_simps r ac_simps option.case_distrib cong: option.case_cong)
qed

fun shown_guard :: "lock_kind \<Rightarrow> token" where
  "shown_guard MutexKind = MutexGuard"
| "shown_guard RwLockKind = RwLockReadGuard"
| "shown_guard ReentrantKind = ReentrantMutexGuard"

definition show_under :: "token \<Rightarrow> guard_action \<Rightarrow> guard_action" where
  "show_under t f = dropping (drop_token t) f (\<lambda>gs. and_then (drop_token t) (\<lambda>_. Return gs))"

lemma shown_shape:
  assumes "fn \<in> set (shown k)" and "wp (show_under (shown_guard k) f) Q (add_mset (Hold (shown_mode k)) h)" and "Q (Some []) h"
  shows "wp (fn f) Q h"
  using assms
  by (cases k) (auto simp: table_defs wp_and_then show_under_def
    Mutex_fmt_def Mutex_serialize_def Mutex_try_lock_def Mutex_lock_def Mutex_make_guard_unchecked_def
    RwLock_fmt_def RwLock_serialize_def RwLock_try_read_def RwLock_read_def RwLock_make_read_guard_unchecked_def
    ReentrantMutex_fmt_def ReentrantMutex_serialize_def ReentrantMutex_try_lock_def ReentrantMutex_lock_def ReentrantMutex_make_guard_unchecked_def)

lemma sound_shown:
  assumes "fn \<in> set (shown k)"
    and f: "\<And>R. wp f (ends (R + (B + {#Hold (shown_mode k)#})) []) (R + (B + {#Hold (shown_mode k)#}) + tokens_res [])"
  shows "wp (fn f) (ends (R + B) []) (R + B)"
proof -
  let ?t = "shown_guard k"
  have t: "token_res ?t = {#Hold (shown_mode k)#}" "\<not> forgotten ?t" by (cases k; simp add: token_res_def)+
  have d: "wp (drop_token ?t) Q h \<longleftrightarrow> Q (Some []) (h - {#Hold (shown_mode k)#})" if "Hold (shown_mode k) \<in># h" for Q h
    using wp_drop_token [of ?t Q "h - {#Hold (shown_mode k)#}"] t that by simp
  have "wp f (\<lambda>r h. Hold (shown_mode k) \<in># h \<and> ends (R + B) [] r (h - {#Hold (shown_mode k)#})) (add_mset (Hold (shown_mode k)) (R + B))"
    using f [of R] by (simp add: ends_add_fun)
  then have "wp (show_under ?t f) (ends (R + B) []) (add_mset (Hold (shown_mode k)) (R + B))"
    unfolding show_under_def wp_dropping wp_and_then
    by (rule wp_mono) (auto simp: d split: option.split)
  then show ?thesis by (intro shown_shape [OF assms(1)]) simp_all
qed

lemma tokens_res_mset: "tokens_res ts = (\<Sum>t\<in>#mset ts. token_res t)"
  by (induction ts) simp_all

lemma token_res_forgotten [simp]: "token_res (Forgotten t) = token_res t"
  by (simp add: token_res_def)

lemma list_all_forgotten_filter [simp]: "list_all forgotten (filter forgotten ts)"
  by (simp add: list_all_iff)

lemma sound_panic:
  assumes "list_all forgotten F"
  shows "wp (and_then (drop_tokens ts) (\<lambda>_. Unwind)) (ends R []) (R + tokens_res ts + tokens_res F)"
proof -
  have "wp (and_then (drop_tokens ts) (\<lambda>_. Unwind)) (ends R []) ((R + tokens_res F) + tokens_res ts)"
    unfolding wp_and_then wp_drop_tokens using assms
    by (auto simp: ends_None ac_simps intro!: exI [of _ "F @ filter forgotten ts"])
  then show ?thesis by (simp add: ac_simps)
qed

lemma sound_call:
  assumes p: "wp p (ends (R + tokens_res (L @ G) + B) keep) (R + tokens_res (L @ G) + B + tokens_res ins)"
    and k: "\<And>gs. gs \<in> results p \<Longrightarrow> wp (cont gs) (ends (R + B) []) (R + B + tokens_res (gs @ L @ G))"
  shows "wp (handle_unwind p cont (and_then (drop_tokens (keep @ L @ G)) (\<lambda>_. Unwind))) (ends (R + B) []) (R + B + tokens_res (ins @ L @ G))"
proof -
  let ?u = "and_then (drop_tokens (keep @ L @ G)) (\<lambda>_. Unwind)"
  have n: "wp ?u (ends (R + B) []) h" if e: "ends (R + tokens_res (L @ G) + B) keep None h" for h
  proof -
    obtain F where F: "list_all forgotten F" "h = (R + B) + tokens_res (keep @ L @ G) + tokens_res F"
      using e by (auto simp: ends_None ac_simps)
    show ?thesis unfolding F(2) by (rule sound_panic [OF F(1)])
  qed
  have "wp p (\<lambda>r h. case r of Some x \<Rightarrow> wp (cont x) (ends (R + B) []) h | None \<Rightarrow> wp ?u (ends (R + B) []) h)
      (R + tokens_res (L @ G) + B + tokens_res ins)"
    by (rule wp_mono [OF wp_results [OF p]]) (use k n in \<open>auto simp: ac_simps split: option.split\<close>)
  then show ?thesis unfolding wp_handle_unwind by (simp add: ac_simps)
qed

theorem client_api_sound:
  "client k B G p \<Longrightarrow> wp p (ends (R + B) []) (R + B + tokens_res G)"
  "api k B ins keep p \<Longrightarrow> wp p (ends (R + B) keep) (R + B + tokens_res ins)"
proof (induction arbitrary: R and R rule: client_api.inducts)
  case (client_panic B G)
  show ?case using sound_panic [of "[]" G "R + B"] by simp
next
  case (client_permute B G p G')
  then show ?case by (simp add: tokens_res_mset)
next
  case (client_access w B G p)
  have "call_ok (Access w) (R + B + tokens_res G)"
    using client_access.hyps(1) by (auto split: if_splits)
  then show ?case using client_access.IH(2) [of R] by (simp del: call_ok.simps)
next
  case (client_call B L ins keep p G cont)
  show ?case
  proof (rule sound_call)
    show "wp p (ends (R + tokens_res (L @ G) + B) keep) (R + tokens_res (L @ G) + B + tokens_res ins)"
      using client_call.IH(2) [of "R + tokens_res G"] by (simp add: ac_simps)
  qed (rule client_call.IH)
next
  case (api_acquire p B)
  then show ?case using wp_acquire [of p k "R + B"] by simp
next
  case (api_by_ref t p q B)
  then show ?case using wp_by_ref [of t p k q "R + B"] by simp
next
  case (api_by_value t p q B)
  then show ?case using wp_by_value [of t p k q "R + B"] by simp
next
  case (api_released t fn B C f)
  then show ?case by (intro sound_released) blast+
next
  case (api_mapped t fn q data opt res B C f)
  then show ?case by (intro sound_mapped) blast+
next
  case (api_upgraded t fn B C f)
  note sh = upgraded_shape [OF api_upgraded(1)]
  have "Hold UpgradableMode \<in># token_res t" using sh by (simp add: token_res_def)
  then show ?case using sh sound_upgrade [of t f B C R] api_upgraded(3) by simp
next
  case (api_try_upgraded t fn B f)
  obtain p where sh: "token_mode t = Some UpgradableMode" "p \<noteq> Blocking"
    "fn f = Invoke (Convert UpgradableMode ExclusiveMode p)
       (\<lambda>ok. if ok then and_then (defer_call raw_downgrade_to_upgradable f) (\<lambda>gs. Return (t # gs)) else Return [t])"
    using try_upgraded_shape [OF api_try_upgraded(1)] by blast
  have "Hold UpgradableMode \<in># token_res t" using sh by (simp add: token_res_def)
  then show ?case using sh(2) sound_upgrade [of t f B "[]" R, OF sh(1)] api_try_upgraded(3) by (simp add: sh(3))
next
  case (api_shown fn B f)
  then show ?case using sound_shown [of fn k f B R] by simp
qed (simp_all add: wp_invoke token_res_def)

section \<open>Theorems\<close>

text \<open>A call of a public function, after which a caller that lent nothing goes on.\<close>

definition then_call :: "guard_action \<Rightarrow> token list \<Rightarrow> (token list \<Rightarrow> guard_action) \<Rightarrow> guard_action" where
  "then_call p keep cont = handle_unwind p cont (and_then (drop_tokens keep) (\<lambda>_. Unwind))"

lemma client_then_call:
  assumes "api k B ins keep p" and "\<And>gs. gs \<in> results p \<Longrightarrow> client k B gs (cont gs)"
  shows "client k B ins (then_call p keep cont)"
  using client_call [of k B "[]" ins keep p "[]" cont] assms by (simp add: then_call_def)

text \<open>A thread that locks a mutex and gives it up while a closure runs, which panics.\<close>

definition unlocked_user :: guard_action where
  "unlocked_user = then_call Mutex_lock [] (\<lambda>_.
     then_call (MutexGuard_unlocked (and_then (drop_tokens []) (\<lambda>_. Unwind))) [MutexGuard] (\<lambda>gs. Return gs))"

lemma unlocked_user_client: "client MutexKind {#} [] unlocked_user"
  unfolding unlocked_user_def
proof (rule client_then_call, rule api_acquire)
  show "Mutex_lock \<in> set (acquires MutexKind)" by (simp add: mx_acquires_def)
  fix gs assume "gs \<in> results Mutex_lock"
  then have gs: "gs = [MutexGuard]" by (simp add: Mutex_lock_def Mutex_make_guard_unchecked_def)
  have "api MutexKind {#} [MutexGuard] [MutexGuard] (MutexGuard_unlocked (and_then (drop_tokens []) (\<lambda>_. Unwind)))"
    by (rule api_released [where C = "[]" and fn = MutexGuard_unlocked, OF _ client_panic]) (simp add: mx_released_def)
  then show "client MutexKind {#} gs
    (then_call (MutexGuard_unlocked (and_then (drop_tokens []) (\<lambda>_. Unwind))) [MutexGuard] (\<lambda>gs. Return gs))"
    unfolding gs by (rule client_then_call) (rule client_return)
qed

text \<open>
  Claim C10. The guards are safe: in every program that can be written with the public functions of \<open>lock_api\<close>, closures that panic
  included, each call of an unlock, bump, upgrade or downgrade function of the raw lock, each use of the data and each drop of an
  \<open>Arc\<close> happens while the hold it needs is there, whatever the lock functions answer; at the end the holds are exactly
  those of the guards the program returns, or, if it panics, those of guards it had forgotten.
\<close>

theorem guards_are_safe:
  assumes "client k {#} G p"
  shows "wp p (ends {#} []) (tokens_res G)"
  using client_api_sound(1) [OF assms, of "{#}"] by simp

theorem guards_are_safe_witness:
  "client MutexKind {#} [] unlocked_user \<and> wp unlocked_user (ends {#} []) {#}"
  using guards_are_safe [OF unlocked_user_client] unlocked_user_client by simp

end
