(* ===== verification/Guard_Machine.thy ===== *)
theory Guard_Machine
  imports Guard_Safety Lock_Traits
begin

text \<open>
  Threads that run programs with guards on one lock. The raw lock is a machine as in \<open>Lock_Traits\<close>, whose steps belong to agents. A
  thread of the program has agents of its own (\<open>home\<close> says whose an agent is): an idle one makes a call that acquires, and the one
  that holds the lock makes the calls on that hold. So a thread can hold a reader-writer lock twice, and one that locks a mutex it
  holds waits for itself, as in the program; a raw lock that does not ask which thread calls it cannot tell the difference. The reentrant
  mutex asks, and there a thread is its only agent.
\<close>

section \<open>The machine\<close>

text \<open>
  \<open>rest\<close> says that an agent is outside the functions of the lock and what it holds, \<open>code\<close> which number makes an agent
  with given holds call a function. \<open>Calling c a H k\<close> is a thread in the call \<open>c\<close> made by its agent \<open>a\<close>, which held \<open>H\<close>.
\<close>

datatype gthread = Running guard_action | Calling raw_call nat "lock_mode multiset" "bool \<Rightarrow> guard_action"

record 'm guard_world =
  raw_state :: 'm
  gthreads :: "nat \<Rightarrow> gthread"

fun success :: "raw_call \<Rightarrow> lock_mode multiset \<Rightarrow> lock_mode multiset" where
  "success (Acquire m r p) H = add_mset m H"
| "success (Release m f) H = H - {#m#}"
| "success (Convert m m' p) H = add_mset m' (H - {#m#})"
| "success _ H = H"

fun may_fail :: "raw_call \<Rightarrow> bool" where
  "may_fail (Acquire m r p) = (p \<noteq> Blocking)"
| "may_fail (Convert m m' p) = (p \<noteq> Blocking)"
| "may_fail _ = False"

fun local_call :: "raw_call \<Rightarrow> bool" where
  "local_call (Query e) = True"
| "local_call (Access w) = True"
| "local_call CloneArc = True"
| "local_call DropArc = True"
| "local_call _ = False"

text \<open>
  One step of a thread: a local call is answered at once. A call of the lock begins with a step of the machine by the agent the number
  names, goes on with its steps until the agent is at rest again, and is answered by what the agent then holds. An agent at rest with anything
  but the two outcomes its function has has panicked, and its thread stops.
\<close>

definition gstep :: "'m stepper \<Rightarrow> (raw_call \<Rightarrow> lock_mode multiset \<Rightarrow> nat option) \<Rightarrow> ('m \<Rightarrow> nat \<Rightarrow> lock_mode multiset option) \<Rightarrow>
    (nat \<Rightarrow> nat) \<Rightarrow> 'm guard_world stepper" where
  "gstep istep code rest home tc w = (case tc of (t, n) \<Rightarrow> (case gthreads w t of
     Running (Invoke c k) \<Rightarrow>
       if local_call c then Some (w\<lparr>gthreads := (gthreads w)(t := Running (k (odd n)))\<rparr>)
       else if home n \<noteq> t then None
       else (case rest (raw_state w) n of
         None \<Rightarrow> None
       | Some H \<Rightarrow> (case code c H of
           None \<Rightarrow> None
         | Some i \<Rightarrow> (case istep (n, i) (raw_state w) of
             None \<Rightarrow> None
           | Some m \<Rightarrow> Some (w\<lparr>raw_state := m, gthreads := (gthreads w)(t := Calling c n H k)\<rparr>))))
   | Running _ \<Rightarrow> None
   | Calling c a H k \<Rightarrow> (case rest (raw_state w) a of
       None \<Rightarrow> map_option (\<lambda>m. w\<lparr>raw_state := m\<rparr>) (istep (a, n) (raw_state w))
     | Some H' \<Rightarrow>
         if H' = success c H then Some (w\<lparr>gthreads := (gthreads w)(t := Running (k True))\<rparr>)
         else if may_fail c \<and> H' = H then Some (w\<lparr>gthreads := (gthreads w)(t := Running (k False))\<rparr>)
         else None)))"

definition gstart :: "'m \<Rightarrow> (nat \<Rightarrow> guard_action) \<Rightarrow> 'm guard_world" where
  "gstart m p = \<lparr>raw_state = m, gthreads = (\<lambda>t. Running (p t))\<rparr>"

text \<open>The thread is about to use the data: \<open>Some True\<close> for a write.\<close>

definition next_access :: "'m guard_world \<Rightarrow> nat \<Rightarrow> bool option" where
  "next_access w t = (case gthreads w t of Running (Invoke (Access wr) k) \<Rightarrow> Some wr | _ \<Rightarrow> None)"

text \<open>A run of a machine, by the threads and numbers of its steps.\<close>

fun run_steps :: "'m stepper \<Rightarrow> (nat \<times> nat) list \<Rightarrow> 'm \<Rightarrow> 'm option" where
  "run_steps st [] m = Some m"
| "run_steps st (tc # tcs) m = (case st tc m of None \<Rightarrow> None | Some m' \<Rightarrow> run_steps st tcs m')"

lemma run_steps_to: "run_steps st tcs m = Some m' \<Longrightarrow> steps_to st m0 m \<Longrightarrow> steps_to st m0 m'"
  by (induction tcs arbitrary: m) (auto split: option.splits intro: steps_next)

section \<open>The contract of a raw lock\<close>

locale raw_lock =
  fixes istep :: "'m stepper" and minit :: 'm
    and rest :: "'m \<Rightarrow> nat \<Rightarrow> lock_mode multiset option"
    and code :: "raw_call \<Rightarrow> lock_mode multiset \<Rightarrow> nat option"
    and home :: "nat \<Rightarrow> nat"
  assumes init_rest: "rest minit a = Some {#}"
    and others: "istep (a, n) m = Some m' \<Longrightarrow> b \<noteq> a \<Longrightarrow> rest m' b = rest m b"
    and exclusive: "steps_to istep minit m \<Longrightarrow> rest m a = Some H \<Longrightarrow> rest m b = Some H' \<Longrightarrow> a \<noteq> b \<Longrightarrow>
      ExclusiveMode \<in># H \<or> ReentrantMode \<in># H \<Longrightarrow> H' = {#}"
    and code_release: "code (Release md f) H = Some i \<Longrightarrow> md \<in># H"
    and code_convert: "code (Convert md md' p) H = Some i \<Longrightarrow> md \<in># H"
begin

text \<open>The holds of a thread are those of its agents, finitely many of which hold something.\<close>

definition covers :: "'m \<Rightarrow> nat \<Rightarrow> nat set \<Rightarrow> bool" where
  "covers m t F \<longleftrightarrow> finite F \<and> (\<forall>a\<in>F. home a = t \<and> rest m a \<noteq> None) \<and> (\<forall>a. home a = t \<and> a \<notin> F \<longrightarrow> rest m a = Some {#})"

definition held :: "'m \<Rightarrow> nat set \<Rightarrow> lock_mode multiset" where
  "held m F = (\<Sum>a\<in>F. the (rest m a))"

definition holdings :: "lock_mode multiset \<Rightarrow> nat \<Rightarrow> holding multiset" where
  "holdings H n = image_mset Hold H + replicate_mset n OwnedArc"

fun thread_ok :: "'m \<Rightarrow> nat \<Rightarrow> gthread \<Rightarrow> bool" where
  "thread_ok m t (Running p) = (\<exists>F n. covers m t F \<and> wp p (\<lambda>_ _. True) (holdings (held m F) n))"
| "thread_ok m t (Calling c a H k) = (\<exists>F n. home a = t \<and> a \<notin> F \<and> \<not> local_call c \<and> finite F
     \<and> (\<forall>b\<in>F. home b = t \<and> rest m b \<noteq> None) \<and> (\<forall>b. home b = t \<and> b \<notin> F \<and> b \<noteq> a \<longrightarrow> rest m b = Some {#})
     \<and> wp (k True) (\<lambda>_ _. True) (holdings (success c H + held m F) n)
     \<and> (may_fail c \<longrightarrow> wp (k False) (\<lambda>_ _. True) (holdings (H + held m F) n)))"

definition world_ok :: "'m guard_world \<Rightarrow> bool" where
  "world_ok w \<longleftrightarrow> steps_to istep minit (raw_state w) \<and> (\<forall>t. thread_ok (raw_state w) t (gthreads w t))"

lemma held_cong: "(\<And>a. a \<in> F \<Longrightarrow> rest m' a = rest m a) \<Longrightarrow> held m' F = held m F"
  by (simp add: held_def)

lemma guard_thread_frame:
  assumes "thread_ok m t g" and same: "\<And>b. home b = t \<Longrightarrow> rest m' b = rest m b"
  shows "thread_ok m' t g"
proof (cases g)
  case (Running p)
  then obtain F n where F: "covers m t F" "wp p (\<lambda>_ _. True) (holdings (held m F) n)" using assms(1) by auto
  have "covers m' t F" using F(1) same by (auto simp: covers_def)
  moreover have "held m' F = held m F" using F(1) same by (intro held_cong) (auto simp: covers_def)
  ultimately show ?thesis using F(2) by (auto simp: Running intro!: exI [of _ F])
next
  case (Calling c a H k)
  then obtain F n where F: "home a = t" "a \<notin> F" "\<not> local_call c" "finite F" "\<forall>b\<in>F. home b = t \<and> rest m b \<noteq> None"
      "\<forall>b. home b = t \<and> b \<notin> F \<and> b \<noteq> a \<longrightarrow> rest m b = Some {#}"
      "wp (k True) (\<lambda>_ _. True) (holdings (success c H + held m F) n)"
      "may_fail c \<longrightarrow> wp (k False) (\<lambda>_ _. True) (holdings (H + held m F) n)"
    using assms(1) by auto
  have "held m' F = held m F" using F(5) same by (intro held_cong) auto
  then show ?thesis unfolding Calling thread_ok.simps
    using F same by (intro exI [of _ F] exI [of _ n]) simp
qed

lemma call_effect_holdings:
  assumes "\<not> local_call c" "\<And>md f. c = Release md f \<Longrightarrow> md \<in># H" "\<And>md md' p. c = Convert md md' p \<Longrightarrow> md \<in># H"
  shows "call_effect c True (holdings (H + S) n) = holdings (success c H + S) n"
    and "may_fail c \<Longrightarrow> call_effect c False (holdings (H + S) n) = holdings (H + S) n"
proof -
  have drop: "holdings (H + S) n - {#Hold md#} = holdings (H - {#md#} + S) n" if e: "md \<in># H" for md
    using multi_member_split [OF e] by (auto simp: holdings_def)
  show "call_effect c True (holdings (H + S) n) = holdings (success c H + S) n"
    using assms by (cases c) (auto simp: drop, auto simp: holdings_def)
  show "call_effect c False (holdings (H + S) n) = holdings (H + S) n" if "may_fail c"
    using that by (cases c) auto
qed

lemma thread_ok_begin:
  assumes "thread_ok m t (Running (Invoke c k))" and c: "\<not> local_call c" and a: "home a = t" "rest m a = Some H" "code c H = Some i"
    and s: "istep (a, i) m = Some m'"
  shows "thread_ok m' t (Calling c a H k)"
proof -
  obtain F n where F: "covers m t F" "wp (Invoke c k) (\<lambda>_ _. True) (holdings (held m F) n)" using assms(1) by auto
  have S: "held m F = H + held m (F - {a})"
    using F(1) a by (cases "a \<in> F") (auto simp: covers_def held_def sum.remove)
  have same: "rest m' b = rest m b" if "b \<noteq> a" for b using others [OF s that] .
  have h: "held m' (F - {a}) = held m (F - {a})" by (rule held_cong) (simp add: same)
  have m: "\<And>md f. c = Release md f \<Longrightarrow> md \<in># H" "\<And>md md' p. c = Convert md md' p \<Longrightarrow> md \<in># H"
    using a(3) code_release code_convert by blast+
  have "wp (k True) (\<lambda>_ _. True) (holdings (success c H + held m (F - {a})) n)"
    "may_fail c \<Longrightarrow> wp (k False) (\<lambda>_ _. True) (holdings (H + held m (F - {a})) n)"
    using F(2) call_effect_holdings [OF c m, where S = "held m (F - {a})" and n = n] by (simp_all add: S)
  then show ?thesis
    using F(1) a(1) c h same by (auto simp: covers_def intro!: exI [of _ "F - {a}"] exI [of _ n])
qed

lemma thread_ok_return:
  assumes "thread_ok m t (Calling c a H k)" and r: "rest m a = Some H'"
    and ans: "H' = success c H \<and> b \<or> may_fail c \<and> H' = H \<and> \<not> b"
  shows "thread_ok m t (Running (k b))"
proof -
  obtain F n where F: "home a = t" "a \<notin> F" "finite F" "\<forall>b\<in>F. home b = t \<and> rest m b \<noteq> None"
      "\<forall>b. home b = t \<and> b \<notin> F \<and> b \<noteq> a \<longrightarrow> rest m b = Some {#}"
      "wp (k True) (\<lambda>_ _. True) (holdings (success c H + held m F) n)"
      "may_fail c \<longrightarrow> wp (k False) (\<lambda>_ _. True) (holdings (H + held m F) n)"
    using assms(1) by auto
  have "covers m t (insert a F)" using F r by (auto simp: covers_def)
  moreover have "held m (insert a F) = H' + held m F" using F(2,3) r by (simp add: held_def)
  moreover have "wp (k b) (\<lambda>_ _. True) (holdings (H' + held m F) n)" using ans F(6,7) by (cases b) auto
  ultimately show ?thesis by (auto intro!: exI [of _ "insert a F"])
qed

lemma thread_ok_local:
  assumes "thread_ok m t (Running (Invoke c k))" and c: "local_call c"
  shows "thread_ok m t (Running (k b))"
proof -
  obtain F n where F: "covers m t F" "wp (Invoke c k) (\<lambda>_ _. True) (holdings (held m F) n)" using assms(1) by auto
  have k: "wp (k b) (\<lambda>_ _. True) (call_effect c b (holdings (held m F) n))" using F(2) by (cases b) simp_all
  have "\<exists>n'. call_effect c b (holdings (held m F) n) = holdings (held m F) n'"
  proof (cases c)
    case CloneArc
    then show ?thesis by (auto simp: holdings_def intro!: exI [of _ "Suc n"])
  next
    case DropArc
    have "n \<noteq> 0" using F(2) DropArc by (auto simp: holdings_def split: if_splits)
    then obtain n' where "n = Suc n'" by (cases n) auto
    then show ?thesis by (auto simp: holdings_def DropArc intro!: exI [of _ n'])
  qed (use c in auto)
  then obtain n' where "call_effect c b (holdings (held m F) n) = holdings (held m F) n'" by blast
  then show ?thesis using k F(1) by auto
qed

lemma thread_ok_inside:
  assumes "thread_ok m t (Calling c a H k)" and s: "istep (a, n) m = Some m'"
  shows "thread_ok m' t (Calling c a H k)"
proof -
  obtain F n where F: "home a = t" "a \<notin> F" "\<not> local_call c" "finite F" "\<forall>b\<in>F. home b = t \<and> rest m b \<noteq> None"
      "\<forall>b. home b = t \<and> b \<notin> F \<and> b \<noteq> a \<longrightarrow> rest m b = Some {#}"
      "wp (k True) (\<lambda>_ _. True) (holdings (success c H + held m F) n)"
      "may_fail c \<longrightarrow> wp (k False) (\<lambda>_ _. True) (holdings (H + held m F) n)"
    using assms(1) by auto
  have same: "rest m' b = rest m b" if "b \<noteq> a" for b using others [OF s that] .
  have sF: "rest m' b = rest m b" if "b \<in> F" for b using same F(2) that by metis
  have "held m' F = held m F" using sF by (rule held_cong)
  then show ?thesis unfolding thread_ok.simps
    using F same sF by (intro exI [of _ F] exI [of _ n]) auto
qed

lemma gstep_cases:
  assumes "gstep istep code rest home (t, n) w = Some w'"
  obtains (local) c k where "gthreads w t = Running (Invoke c k)" "local_call c"
      "w' = w\<lparr>gthreads := (gthreads w)(t := Running (k (odd n)))\<rparr>"
    | (begins) c k H i m where "gthreads w t = Running (Invoke c k)" "\<not> local_call c" "home n = t" "rest (raw_state w) n = Some H"
      "code c H = Some i" "istep (n, i) (raw_state w) = Some m"
      "w' = w\<lparr>raw_state := m, gthreads := (gthreads w)(t := Calling c n H k)\<rparr>"
    | (inside) c a H k m where "gthreads w t = Calling c a H k" "rest (raw_state w) a = None" "istep (a, n) (raw_state w) = Some m" "w' = w\<lparr>raw_state := m\<rparr>"
    | (returns) c a H k H' b where "gthreads w t = Calling c a H k" "rest (raw_state w) a = Some H'"
      "H' = success c H \<and> b \<or> may_fail c \<and> H' = H \<and> \<not> b" "w' = w\<lparr>gthreads := (gthreads w)(t := Running (k b))\<rparr>"
proof (cases "gthreads w t")
  case (Running p)
  then show thesis using assms local begins by (auto simp: gstep_def split: prog.splits option.splits if_splits)
next
  case (Calling c a H k)
  show thesis
  proof (cases "rest (raw_state w) a")
    case None
    then show thesis using assms Calling inside [OF Calling None] by (auto simp: gstep_def)
  next
    case (Some H')
    then show thesis using assms Calling returns [OF Calling Some, of True] returns [OF Calling Some, of False]
      by (auto simp: gstep_def split: if_splits)
  qed
qed

lemma thread_ok_home: "thread_ok m t (Calling c a H k) \<Longrightarrow> home a = t"
  by auto

lemma gstep_ok:
  assumes ok: "world_ok w" and s: "gstep istep code rest home (t, n) w = Some w'"
  shows "world_ok w'"
proof -
  have R: "steps_to istep minit (raw_state w)" and T: "\<And>u. thread_ok (raw_state w) u (gthreads w u)"
    using ok by (simp_all add: world_ok_def)
  have lift: "world_ok w'" if e: "steps_to istep minit (raw_state w')" "thread_ok (raw_state w') t (gthreads w' t)"
    "\<And>u. u \<noteq> t \<Longrightarrow> gthreads w' u = gthreads w u" "\<And>b. home b \<noteq> t \<Longrightarrow> rest (raw_state w') b = rest (raw_state w) b"
  proof -
    have "thread_ok (raw_state w') u (gthreads w' u)" for u
    proof (cases "u = t")
      case False
      then show ?thesis using guard_thread_frame [OF T [of u], of "raw_state w'"] e(3,4) by auto
    qed (use e(2) in simp)
    then show ?thesis using e(1) by (simp add: world_ok_def)
  qed
  from s show ?thesis
  proof (cases rule: gstep_cases)
    case (local c k)
    then show ?thesis using R thread_ok_local [of "raw_state w" t c k "odd n"] T [of t] by (intro lift) auto
  next
    case (begins c k H i m)
    have "thread_ok m t (Calling c n H k)"
      using thread_ok_begin [OF _ begins(2-6)] T [of t] begins(1) by simp
    moreover have "rest m b = rest (raw_state w) b" if "home b \<noteq> t" for b
      using others [OF begins(6), of b] begins(3) that by blast
    ultimately show ?thesis using steps_next [OF R begins(6)] begins(7) by (intro lift) auto
  next
    case (inside c a H k m)
    have "thread_ok m t (Calling c a H k)" and h: "home a = t"
      using thread_ok_inside [OF _ inside(3)] T [of t] inside(1) by auto
    moreover have "rest m b = rest (raw_state w) b" if "home b \<noteq> t" for b
      using others [OF inside(3), of b] h that by blast
    ultimately show ?thesis using steps_next [OF R inside(3)] inside by (intro lift) auto
  next
    case (returns c a H k H' b)
    then show ?thesis using R thread_ok_return [of "raw_state w" t c a H k H' b] T [of t] by (intro lift) auto
  qed
qed

lemma gstart_ok:
  assumes "\<And>t. client kd {#} (replicate (n t) ArcHandle) (p t)"
  shows "world_ok (gstart minit p)"
proof -
  have "thread_ok minit t (Running (p t))" for t
  proof -
    have r: "tokens_res (replicate j ArcHandle) = replicate_mset j OwnedArc" for j
      by (induction j) (simp_all add: token_res_def)
    have "wp (p t) (ends {#} []) (holdings {#} (n t))"
      using client_api_sound(1) [OF assms [of t], of "{#}"] by (simp add: r holdings_def)
    then have "wp (p t) (\<lambda>_ _. True) (holdings (held minit {}) (n t))"
      unfolding held_def sum.empty by (rule wp_mono) simp
    then show ?thesis by (auto simp: covers_def init_rest intro!: exI [of _ "{}"])
  qed
  then show ?thesis by (simp add: world_ok_def gstart_def steps_init)
qed

lemma greach_ok:
  assumes "\<And>t. client kd {#} (replicate (n t) ArcHandle) (p t)" and "steps_to (gstep istep code rest home) (gstart minit p) w"
  shows "world_ok w"
  using assms(2)
proof (induction rule: steps_to.induct)
  case steps_init
  show ?case by (rule gstart_ok [OF assms(1)])
next
  case (steps_next w tc w')
  then show ?case using gstep_ok [of w "fst tc" "snd tc" w'] by simp
qed

lemma access_held:
  assumes "world_ok w" "next_access w t = Some wr"
  shows "\<exists>a H. home a = t \<and> rest (raw_state w) a = Some H \<and> H \<noteq> {#} \<and> (wr \<longrightarrow> ExclusiveMode \<in># H)"
proof -
  obtain k where "gthreads w t = Running (Invoke (Access wr) k)"
    using assms(2) by (auto simp: next_access_def split: gthread.splits prog.splits raw_call.splits)
  then have "thread_ok (raw_state w) t (Running (Invoke (Access wr) k))" using assms(1) by (metis world_ok_def)
  then obtain F n where F: "covers (raw_state w) t F" "call_ok (Access wr) (holdings (held (raw_state w) F) n)" by auto
  have in_F: "\<exists>a\<in>F. md \<in># the (rest (raw_state w) a)" if "Hold md \<in># holdings (held (raw_state w) F) n" for md
    using that F(1) by (auto simp: holdings_def held_def set_mset_sum covers_def split: if_splits)
  have "\<exists>a\<in>F. (\<exists>md. md \<in># the (rest (raw_state w) a)) \<and> (wr \<longrightarrow> ExclusiveMode \<in># the (rest (raw_state w) a))"
    using F(2) in_F by (auto split: if_splits) blast+
  then obtain a md where a: "a \<in> F" "md \<in># the (rest (raw_state w) a)" "wr \<longrightarrow> ExclusiveMode \<in># the (rest (raw_state w) a)"
    by blast
  moreover obtain H where "rest (raw_state w) a = Some H" "home a = t" using F(1) a(1) by (auto simp: covers_def)
  ultimately show ?thesis by (intro exI [of _ a] exI [of _ H]) auto
qed

text \<open>
  The data of the lock is never used by two threads at a time, unless both only read it and hold the lock in modes that share.
\<close>

lemma no_race:
  assumes "world_ok w" and "next_access w t = Some wr" and "next_access w u = Some wr'" and "t \<noteq> u"
  shows "\<not> wr \<and> \<not> wr'"
proof -
  obtain a H where a: "home a = t" "rest (raw_state w) a = Some H" "H \<noteq> {#}" "wr \<longrightarrow> ExclusiveMode \<in># H"
    using access_held [OF assms(1,2)] by blast
  obtain b H' where b: "home b = u" "rest (raw_state w) b = Some H'" "H' \<noteq> {#}" "wr' \<longrightarrow> ExclusiveMode \<in># H'"
    using access_held [OF assms(1,3)] by blast
  have "a \<noteq> b" using a(1) b(1) assms(4) by blast
  then show ?thesis
    using exclusive [of "raw_state w" a H b H'] exclusive [of "raw_state w" b H' a H] a b assms(1) by (auto simp: world_ok_def)
qed

lemma alone:
  assumes "world_ok w" and only: "\<And>a H md. rest (raw_state w) a = Some H \<Longrightarrow> md \<in># H \<Longrightarrow> md = ExclusiveMode \<or> md = ReentrantMode"
    and "next_access w t \<noteq> None" and "next_access w u \<noteq> None"
  shows "t = u"
proof (rule ccontr)
  assume tu: "t \<noteq> u"
  obtain a H where a: "home a = t" "rest (raw_state w) a = Some H" "H \<noteq> {#}" using access_held [OF assms(1)] assms(3) by blast
  obtain b H' where b: "home b = u" "rest (raw_state w) b = Some H'" "H' \<noteq> {#}" using access_held [OF assms(1)] assms(4) by blast
  obtain md where "md \<in># H" using a(3) by blast
  then have "ExclusiveMode \<in># H \<or> ReentrantMode \<in># H" using only [OF a(2)] by blast
  moreover have "a \<noteq> b" using a(1) b(1) tu by blast
  ultimately show False using exclusive [of "raw_state w" a H b H'] a b assms(1) by (auto simp: world_ok_def)
qed

end

section \<open>The outcomes of a call\<close>

text \<open>
  A raw lock that keeps its promises: from the first step of a call, what the agent can still come to rest with (\<open>promise\<close>) is
  within the outcomes of the function, so that a call is always answered when it is over.
\<close>

definition outcomes :: "raw_call \<Rightarrow> lock_mode multiset \<Rightarrow> lock_mode multiset set" where
  "outcomes c H = insert (success c H) (if may_fail c then {H} else {})"

locale lawful_lock = raw_lock istep minit rest code home
  for istep :: "'m stepper" and minit rest code home +
  fixes promise :: "'m \<Rightarrow> nat \<Rightarrow> lock_mode multiset set"
  assumes promise_others: "istep (a, n) m = Some m' \<Longrightarrow> b \<noteq> a \<Longrightarrow> promise m' b = promise m b"
    and promise_begins: "steps_to istep minit m \<Longrightarrow> rest m a = Some H \<Longrightarrow> code c H = Some i \<Longrightarrow> istep (a, i) m = Some m' \<Longrightarrow>
      promise m' a \<subseteq> outcomes c H"
    and promise_keeps: "steps_to istep minit m \<Longrightarrow> rest m a = None \<Longrightarrow> istep (a, n) m = Some m' \<Longrightarrow> promise m' a \<subseteq> promise m a"
    and promise_kept: "steps_to istep minit m \<Longrightarrow> rest m a = Some H \<Longrightarrow> H \<in> promise m a"
begin

definition promised :: "'m guard_world \<Rightarrow> bool" where
  "promised w \<longleftrightarrow> (\<forall>t c a H k. gthreads w t = Calling c a H k \<longrightarrow> promise (raw_state w) a \<subseteq> outcomes c H)"

lemma promised_same:
  assumes "promised w" and "raw_state w' = raw_state w"
    and "\<And>u c a H k. gthreads w' u = Calling c a H k \<Longrightarrow> gthreads w u = Calling c a H k"
  shows "promised w'"
  using assms unfolding promised_def by metis

lemma gstep_promised:
  assumes ok: "world_ok w" and pr: "promised w" and s: "gstep istep code rest home (t, n) w = Some w'"
  shows "promised w'"
proof -
  have R: "steps_to istep minit (raw_state w)" using ok by (simp add: world_ok_def)
  have P: "promise (raw_state w) a \<subseteq> outcomes c H" "home a = u" if "gthreads w u = Calling c a H k" for u c a H k
  proof -
    show "promise (raw_state w) a \<subseteq> outcomes c H" using pr that unfolding promised_def by blast
    show "home a = u" using ok thread_ok_home that by (metis world_ok_def)
  qed
  from s show ?thesis
  proof (cases rule: gstep_cases)
    case (local c k)
    show ?thesis by (rule promised_same [OF pr]) (use local in \<open>auto split: if_splits\<close>)
  next
    case (begins c k H i m)
    have "promise m a \<subseteq> outcomes c' H'" if "gthreads w u = Calling c' a H' k'" "u \<noteq> t" for u a c' H' k'
      using promise_others [OF begins(6), of a] P [OF that(1)] begins(3) that(2) by metis
    then show ?thesis using promise_begins [OF R begins(4-6)] by (simp add: promised_def begins(7)) blast
  next
    case (inside c a H k m)
    have "promise m b \<subseteq> outcomes c' H'" if e: "gthreads w u = Calling c' b H' k'" for u b c' H' k'
    proof (cases "b = a")
      case True
      then have "u = t" using P(2) [OF e] P(2) [OF inside(1)] by simp
      then show ?thesis using promise_keeps [OF R inside(2,3)] P(1) [OF e] inside(1) e by auto
    next
      case False
      then show ?thesis using promise_others [OF inside(3) False] P(1) [OF e] by simp
    qed
    then show ?thesis by (simp add: promised_def inside(4))
  next
    case (returns c a H k H' b)
    show ?thesis by (rule promised_same [OF pr]) (use returns in \<open>auto split: if_splits\<close>)
  qed
qed

lemma greach_promised:
  assumes "\<And>t. client kd {#} (replicate (n t) ArcHandle) (p t)" and "steps_to (gstep istep code rest home) (gstart minit p) w"
  shows "promised w"
  using assms(2)
proof (induction rule: steps_to.induct)
  case steps_init
  show ?case by (simp add: promised_def gstart_def)
next
  case (steps_next w tc w')
  then show ?case using gstep_promised [of w "fst tc" "snd tc" w'] greach_ok [OF assms(1)] by simp
qed

lemma call_promised:
  assumes "\<And>t. client kd {#} (replicate (n t) ArcHandle) (p t)" and "steps_to (gstep istep code rest home) (gstart minit p) w"
    and "gthreads w t = Calling c a H k"
  shows "promise (raw_state w) a \<subseteq> outcomes c H"
  using greach_promised [OF assms(1,2)] assms(3) unfolding promised_def by blast

lemma call_answered:
  assumes "\<And>t. client kd {#} (replicate (n t) ArcHandle) (p t)" and "steps_to (gstep istep code rest home) (gstart minit p) w"
    and t: "gthreads w t = Calling c a H k" "rest (raw_state w) a = Some H'"
  shows "\<exists>b w'. gstep istep code rest home (t, i) w = Some w' \<and> gthreads w' t = Running (k b) \<and> (b \<or> may_fail c)"
proof -
  have "steps_to istep minit (raw_state w)" using greach_ok [OF assms(1,2)] by (simp add: world_ok_def)
  then have "H' \<in> outcomes c H"
    using promise_kept [OF _ t(2)] call_promised [OF assms(1,2) t(1)] by blast
  then show ?thesis using t by (auto simp: gstep_def outcomes_def split: if_splits)
qed

end

end
