(* ===== verification/Guard_RwLock.thy ===== *)
theory Guard_RwLock
  imports Guard_Machine RwLock_Claims
begin

text \<open>
  The raw reader-writer lock meets the contract of the guards: an agent that holds it exclusively is alone, and every call ends with one of the
  outcomes of its function. The functions that lock panic when the reader count overflows; with at most \<open>2 ^ 59\<close> agents it cannot.
\<close>

section \<open>Exclusion\<close>

text \<open>At most \<open>2 ^ 59\<close> agents take part.\<close>

definition rw_step :: "bool \<Rightarrow> usize \<Rightarrow> (usize, rw_pc) world stepper" where
  "rw_step el addr tc w = (if int (fst tc) < 2 ^ 59 then step (rw_client el addr) tc w else None)"

definition rw_point :: "rw_pc \<Rightarrow> lock_mode multiset option" where
  "rw_point l = (if l = RwIdle then Some {#} else if l = RwShared then Some {#SharedMode#}
     else if l = RwUpgradable then Some {#UpgradableMode#} else if l = RwExclusive then Some {#ExclusiveMode#} else None)"

definition rw_rest :: "(usize, rw_pc) world \<Rightarrow> nat \<Rightarrow> lock_mode multiset option" where
  "rw_rest w a = (case loc w a of Run l \<Rightarrow> rw_point l | _ \<Rightarrow> None)"

definition rw_acquire_code :: "lock_mode \<Rightarrow> bool \<Rightarrow> patience \<Rightarrow> nat option" where
  "rw_acquire_code m recursive p = (case m of
     SharedMode \<Rightarrow> Some (case p of Blocking \<Rightarrow> if recursive then 2 else 0 | Immediate \<Rightarrow> if recursive then 5 else 4
       | _ \<Rightarrow> if recursive then 3 else 1)
   | ExclusiveMode \<Rightarrow> Some (case p of Blocking \<Rightarrow> 6 | Immediate \<Rightarrow> 8 | _ \<Rightarrow> 7)
   | UpgradableMode \<Rightarrow> Some (case p of Blocking \<Rightarrow> 9 | Immediate \<Rightarrow> 11 | _ \<Rightarrow> 10)
   | ReentrantMode \<Rightarrow> None)"

definition rw_release_code :: "lock_mode \<Rightarrow> bool \<Rightarrow> nat option" where
  "rw_release_code m fair = (case m of SharedMode \<Rightarrow> Some (if fair then 2 else 0) | ExclusiveMode \<Rightarrow> Some (if fair then 1 else 0)
     | UpgradableMode \<Rightarrow> Some (if fair then 6 else 0) | ReentrantMode \<Rightarrow> None)"

definition rw_bump_code :: "lock_mode \<Rightarrow> nat option" where
  "rw_bump_code m = (case m of SharedMode \<Rightarrow> Some 1 | ExclusiveMode \<Rightarrow> Some 2 | UpgradableMode \<Rightarrow> Some 1 | ReentrantMode \<Rightarrow> None)"

definition rw_convert_code :: "lock_mode \<Rightarrow> lock_mode \<Rightarrow> patience \<Rightarrow> nat option" where
  "rw_convert_code m m' p = (case (m, m') of
     (ExclusiveMode, SharedMode) \<Rightarrow> Some 3
   | (ExclusiveMode, UpgradableMode) \<Rightarrow> Some 4
   | (UpgradableMode, SharedMode) \<Rightarrow> Some 2
   | (UpgradableMode, ExclusiveMode) \<Rightarrow> Some (case p of Blocking \<Rightarrow> 3 | Immediate \<Rightarrow> 5 | _ \<Rightarrow> 4)
   | _ \<Rightarrow> None)"

definition rw_code :: "raw_call \<Rightarrow> lock_mode multiset \<Rightarrow> nat option" where
  "rw_code c H = (case c of
     Acquire m recursive p \<Rightarrow> if H = {#} then rw_acquire_code m recursive p else None
   | Release m fair \<Rightarrow> if H = {#m#} then rw_release_code m fair else None
   | Bump m \<Rightarrow> if H = {#m#} then rw_bump_code m else None
   | Convert m m' p \<Rightarrow> if H = {#m#} then rw_convert_code m m' p else None
   | _ \<Rightarrow> None)"

lemma rw_steps_run:
  "steps_to (rw_step el addr) rw_start w \<Longrightarrow> \<exists>tcs. run (rw_client el addr) tcs rw_start = Some w \<and> bounded (2 ^ 59) tcs"
proof (induction rule: steps_to.induct)
  case steps_init
  show ?case by (intro exI [of _ "[]"]) (simp add: bounded_def)
next
  case (steps_next w tc w')
  then obtain tcs where t: "run (rw_client el addr) tcs rw_start = Some w" "bounded (2 ^ 59) tcs" by blast
  have "run (rw_client el addr) (tcs @ [tc]) v = Some w'" if "run (rw_client el addr) tcs v = Some w" for v
    using that steps_next.hyps(2)
    by (induction tcs arbitrary: v) (auto simp: bind_eq_Some_conv rw_step_def split: if_splits)
  then show ?case using t steps_next.hyps(2)
    by (intro exI [of _ "tcs @ [tc]"]) (auto simp: bounded_def rw_step_def split: if_splits)
qed

lemma rw_rest_class:
  "rw_rest w a = Some H \<Longrightarrow> ExclusiveMode \<in># H \<or> ReentrantMode \<in># H \<Longrightarrow> rw_class (pc w a) = CX"
  "rw_rest w a = Some H \<Longrightarrow> rw_cls w a = CN \<Longrightarrow> H = {#}"
  by (cases "loc w a"; auto simp: rw_rest_def rw_point_def rw_cls_awake split: if_splits)+

interpretation rw_lock: raw_lock "rw_step el addr" rw_start rw_rest rw_code home for el addr home
proof
  fix m m' :: "(usize, rw_pc) world" and a b n i :: nat and H H' md md' f and p
  show "rw_rest rw_start a = Some {#}" by (simp add: rw_rest_def rw_point_def rw_start_def world_init_def)
  show "rw_rest m' b = rw_rest m b" if "rw_step el addr (a, n) m = Some m'" "b \<noteq> a"
    using step_other [of "rw_client el addr" a n m m' b] that by (simp add: rw_rest_def rw_step_def split: if_splits)
  show "H' = {#}" if "steps_to (rw_step el addr) rw_start m" "rw_rest m a = Some H" "rw_rest m b = Some H'" "a \<noteq> b"
    "ExclusiveMode \<in># H \<or> ReentrantMode \<in># H"
  proof -
    from rw_steps_run [OF that(1)]
    obtain tcs where "run (rw_client el addr) tcs rw_start = Some m" "bounded (2 ^ 59) tcs" by blast
    then have "rw_cls m b = CN"
      using rw_exclusive_alone [of el addr tcs m "2 ^ 59" a b] rw_rest_class(1) [OF that(2,5)] that(4) by simp
    then show ?thesis using rw_rest_class(2) [OF that(3)] by blast
  qed
  show "md \<in># H" if "rw_code (Release md f) H = Some i" using that by (auto simp: rw_code_def split: if_splits)
  show "md \<in># H" if "rw_code (Convert md md' p) H = Some i" using that by (auto simp: rw_code_def split: if_splits)
qed

section \<open>Outcomes\<close>

definition kind_mode :: "kind \<Rightarrow> lock_mode" where
  "kind_mode k = (case k of KShared _ \<Rightarrow> SharedMode | KExclusive \<Rightarrow> ExclusiveMode | KUpgradable \<Rightarrow> UpgradableMode)"

definition acquire_ends :: "kind \<Rightarrow> bool \<Rightarrow> lock_mode multiset set" where
  "acquire_ends k sure = insert {#kind_mode k#} (if sure then {} else {{#}})"

definition back_mode :: "bool \<Rightarrow> lock_mode multiset" where
  "back_mode was_upg = (if was_upg then {#UpgradableMode#} else {#})"

definition wait_ends :: "bool \<Rightarrow> bool \<Rightarrow> lock_mode multiset set" where
  "wait_ends was_upg timed = insert {#ExclusiveMode#} (if timed then {back_mode was_upg} else {})"

definition relock_ends :: "lock_mode \<Rightarrow> bool \<Rightarrow> lock_mode multiset set" where
  "relock_ends m relock = (if relock then {{#m#}} else {{#}})"

definition room :: "usize \<Rightarrow> bool" where
  "room g \<longleftrightarrow> checked_add g ONE_READER \<noteq> None \<and> checked_add g (ONE_READER OR UPGRADABLE_BIT) \<noteq> None"

text \<open>
  What an agent at a point can come to rest with. An agent in the panic, or about to look at a remembered state
  without room for a reader, has promised nothing: the set is \<open>UNIV\<close>.
\<close>

definition unless_full :: "usize \<Rightarrow> lock_mode multiset set \<Rightarrow> lock_mode multiset set" where
  "unless_full state E = (if room state then E else UNIV)"


primrec rw_ends :: "rw_pc \<Rightarrow> lock_mode multiset set" where
  "rw_ends RwIdle = {{#}}"
| "rw_ends RwPanicked = UNIV"
| "rw_ends RwShared = {{#SharedMode#}}"
| "rw_ends RwUpgradable = {{#UpgradableMode#}}"
| "rw_ends RwExclusive = {{#ExclusiveMode#}}"
| "rw_ends (SharedFast r h) = acquire_ends (KShared r) (h = Block False)"
| "rw_ends (SharedFastCas r h s) = acquire_ends (KShared r) (h = Block False)"
| "rw_ends (SharedTryEntry r) = acquire_ends (KShared r) False"
| "rw_ends (SharedTryLoop r s) = unless_full s (acquire_ends (KShared r) False)"
| "rw_ends (UpgFast h) = acquire_ends KUpgradable (h = Block False)"
| "rw_ends (UpgFastCas h s) = acquire_ends KUpgradable (h = Block False)"
| "rw_ends UpgTryEntry = acquire_ends KUpgradable False"
| "rw_ends (UpgTryLoop s) = unless_full s (acquire_ends KUpgradable False)"
| "rw_ends (ExclFast h) = acquire_ends KExclusive (h = Block False)"
| "rw_ends (CommonEntry k timed) = acquire_ends k (\<not> timed)"
| "rw_ends (CommonTry k timed sw s) = unless_full s (acquire_ends k (\<not> timed))"
| "rw_ends (CommonTryReload k timed sw) = acquire_ends k (\<not> timed)"
| "rw_ends (CommonBlocked k timed sw s) = acquire_ends k (\<not> timed)"
| "rw_ends (CommonPark k timed) = acquire_ends k (\<not> timed)"
| "rw_ends (CommonAsleep k timed) = acquire_ends k (\<not> timed)"
| "rw_ends (WaitReaders u timed) = wait_ends u timed"
| "rw_ends (WaitLoop u timed sw s) = wait_ends u timed"
| "rw_ends (WaitPark u timed sw) = wait_ends u timed"
| "rw_ends (WaitAsleep u timed sw) = wait_ends u timed"
| "rw_ends (WaitReload u timed sw) = wait_ends u timed"
| "rw_ends (WaitExpired u) = {back_mode u}"
| "rw_ends (WaitWake u) = {back_mode u}"
| "rw_ends (UnlockShared relock) = relock_ends SharedMode relock"
| "rw_ends (UnlockSharedSlow relock) = relock_ends SharedMode relock"
| "rw_ends (UnlockExcl fair) = {{#}}"
| "rw_ends (UnlockExclSlow fair relock) = relock_ends ExclusiveMode relock"
| "rw_ends UnlockUpg = {{#}}"
| "rw_ends (UnlockUpgCas s) = {{#}}"
| "rw_ends (UnlockUpgSlowEntry fair relock) = relock_ends UpgradableMode relock"
| "rw_ends (UnlockUpgSlowLoop fair relock s) = relock_ends UpgradableMode relock"
| "rw_ends (UnlockUpgWake fair relock) = relock_ends UpgradableMode relock"
| "rw_ends DowngradeExcl = {{#SharedMode#}}"
| "rw_ends DowngradeUpg = {{#SharedMode#}}"
| "rw_ends DowngradeToUpg = {{#UpgradableMode#}}"
| "rw_ends DowngradeWake = {{#SharedMode#}}"
| "rw_ends DowngradeToUpgWake = {{#UpgradableMode#}}"
| "rw_ends (UpgradeStart timed) = wait_ends True timed"
| "rw_ends TryUpgrade = wait_ends True True"
| "rw_ends TryUpgradeSlowEntry = wait_ends True True"
| "rw_ends (TryUpgradeSlowLoop s) = wait_ends True True"
| "rw_ends BumpShared = {{#SharedMode#}}"
| "rw_ends BumpExcl = {{#ExclusiveMode#}}"
| "rw_ends BumpUpg = {{#UpgradableMode#}}"

text \<open>The points outside the functions, from which an agent starts any call.\<close>

lemmas rw_ends_defs = unless_full_def acquire_ends_def wait_ends_def relock_ends_def back_mode_def kind_mode_def acquired_def after_fast_def
  back_to_prev_def relock_upg_def

lemma rw_ends_atomic:
  assumes "rw_client el a t l = Atomic f" and "rw_point l = None" and "room g"
  shows "rw_ends (snd (f c g)) \<subseteq> rw_ends l"
  using assms
  by (cases l) (auto simp: rw_point_def room_def rw_defs rw_ends_defs atomic_simps Let_def split: option.splits kind.splits how.splits if_splits)

definition rw_promise :: "(usize, rw_pc) world \<Rightarrow> nat \<Rightarrow> lock_mode multiset set" where
  "rw_promise w a = (case loc w a of
     Crit (CommonAsleep k timed) \<Rightarrow> acquire_ends k False
   | Crit (WaitAsleep u timed sw) \<Rightarrow> wait_ends u True
   | p \<Rightarrow> rw_ends (at_phase p))"

lemma rw_promise_run: "loc w a = Run l \<Longrightarrow> rw_promise w a = rw_ends l"
  by (simp add: rw_promise_def)

text \<open>A promise of finitely many outcomes rules the panic out.\<close>

lemma rw_promise_not_panicked:
  assumes "rw_promise w a \<subseteq> outcomes c H"
  shows "pc w a \<noteq> RwPanicked"
proof
  assume p: "pc w a = RwPanicked"
  have "rw_promise w a = UNIV" using p by (cases "loc w a") (simp_all add: rw_promise_def)
  moreover have "finite (outcomes c H)" by (simp add: outcomes_def)
  moreover have "infinite (UNIV :: lock_mode multiset set)"
  proof -
    have "inj (\<lambda>n. replicate_mset n SharedMode)" by (rule injI) (metis size_replicate_mset)
    then have "infinite (range (\<lambda>n. replicate_mset n SharedMode))" by (simp add: finite_image_iff)
    then show ?thesis using infinite_super subset_UNIV by blast
  qed
  ultimately show False using assms by (metis finite_subset)
qed

lemma rw_promise_step:
  assumes "rw_rest w a = None" and "step (rw_client el addr) (a, n) w = Some w'" and "room (shared w)"
  shows "rw_promise w' a \<subseteq> rw_promise w a"
proof (cases "loc w a")
  case (Run l)
  show ?thesis
  proof (cases "\<exists>f. rw_client el addr a l = Atomic f")
    case True
    then obtain f where f: "rw_client el addr a l = Atomic f" by blast
    have "loc w' a = Run (snd (f n (shared w)))"
      using assms(2) Run f by (auto simp: step_def run_step_def lot_simps split: prod.splits)
    then show ?thesis using rw_ends_atomic [OF f _ assms(3), of n] assms(1) Run by (simp add: rw_promise_run rw_rest_def)
  next
    case False
    then show ?thesis using assms(2) Run
      by (cases l) (auto simp: rw_promise_def step_def run_step_def lot_simps lock_common_unparked_def rw_ends_defs Let_def
          split: if_splits prod.splits kind.splits)
  qed
next
  case (Crit l)
  then show ?thesis using assms(2)
    by (cases l) (auto simp: rw_promise_def step_def crit_step_def lot_simps lock_common_unparked_def rw_ends_defs Let_def
        split: if_splits prod.splits kind.splits)
next
  case (CritOp l op)
  then show ?thesis using assms(2) by (cases l) (simp_all add: step_def requeue_step_def)
qed

lemma rw_steps_room:
  assumes "steps_to (rw_step el addr) rw_start w"
  shows "room (shared w)"
proof -
  from rw_steps_run [OF assms]
  obtain tcs where "run (rw_client el addr) tcs rw_start = Some w" "bounded (2 ^ 59) tcs" by blast
  then have inv: "rw_inv (2 ^ 59) addr w" using rw_reachable [of el addr tcs w "2 ^ 59"] by simp
  have "rw_cls w t = CN" if "2 ^ 59 \<le> t" for t
    using rw_invD(1) [OF inv that] by (simp add: rw_cls_def asleep_kind_def)
  then have "rds (shared w) \<le> 2 ^ 59" by (rule counts_bound [OF rw_invD(2) [OF inv]])
  then have "unat (shared w) + 20 < 2 ^ 64" by (simp add: rds_def)
  then show ?thesis by (simp add: room_def checked_add_def rw_consts)
qed

lemma rw_code_ends:
  "rw_acquire_code md r p = Some i \<Longrightarrow> rw_ends (rw_calls i) \<subseteq> outcomes (Acquire md r p) {#}"
  "rw_code c {#SharedMode#} = Some i \<Longrightarrow> rw_ends (shared_calls i) \<subseteq> outcomes c {#SharedMode#}"
  "rw_code c {#UpgradableMode#} = Some i \<Longrightarrow> rw_ends (upg_calls i) \<subseteq> outcomes c {#UpgradableMode#}"
  "rw_code c {#ExclusiveMode#} = Some i \<Longrightarrow> rw_ends (excl_calls i) \<subseteq> outcomes c {#ExclusiveMode#}"
  by (cases md; cases p; cases r; clarsimp simp: rw_acquire_code_def rw_calls_def rw_api_defs outcomes_def rw_ends_defs)
    (auto simp: rw_code_def rw_release_code_def rw_bump_code_def rw_convert_code_def shared_calls_def upg_calls_def excl_calls_def rw_api_defs
      outcomes_def rw_ends_defs split: raw_call.splits lock_mode.splits patience.splits if_splits)

lemma rw_begins:
  assumes "rw_rest m a = Some H" "rw_code c H = Some i" "step (rw_client el addr) (a, i) m = Some m'"
  shows "rw_promise m' a \<subseteq> outcomes c H"
proof -
  obtain l where l: "loc m a = Run l" "rw_point l = Some H" using assms(1) by (auto simp: rw_rest_def split: phase.splits)
  then consider "l = RwIdle" "H = {#}" | "l = RwShared" "H = {#SharedMode#}" | "l = RwUpgradable" "H = {#UpgradableMode#}"
    | "l = RwExclusive" "H = {#ExclusiveMode#}" by (auto simp: rw_point_def split: if_splits)
  then show ?thesis
  proof cases
    case 1
    then obtain md r p where c: "c = Acquire md r p" "rw_acquire_code md r p = Some i"
      using assms(2) by (auto simp: rw_code_def split: raw_call.splits if_splits)
    have "loc m' a = Run (rw_calls i)" using assms(3) l(1) 1 by (auto simp: step_def run_step_def lot_simps)
    then show ?thesis using rw_code_ends(1) [OF c(2)] c(1) 1 by (simp add: rw_promise_run)
  next
    case 2
    have "loc m' a = Run (shared_calls i)" using assms(3) l(1) 2 by (auto simp: step_def run_step_def lot_simps)
    then show ?thesis using rw_code_ends(2) assms(2) 2 by (simp add: rw_promise_run)
  next
    case 3
    have "loc m' a = Run (upg_calls i)" using assms(3) l(1) 3 by (auto simp: step_def run_step_def lot_simps)
    then show ?thesis using rw_code_ends(3) assms(2) 3 by (simp add: rw_promise_run)
  next
    case 4
    have "loc m' a = Run (excl_calls i)" using assms(3) l(1) 4 by (auto simp: step_def run_step_def lot_simps)
    then show ?thesis using rw_code_ends(4) assms(2) 4 by (simp add: rw_promise_run)
  qed
qed

interpretation rw_lawful: lawful_lock "rw_step el addr" rw_start rw_rest rw_code home rw_promise for el addr home
proof
  fix m m' :: "(usize, rw_pc) world" and a b n i :: nat and H c
  show "rw_promise m' b = rw_promise m b" if "rw_step el addr (a, n) m = Some m'" "b \<noteq> a"
    using step_other [of "rw_client el addr" a n m m' b] that by (simp add: rw_promise_def rw_step_def split: if_splits)
  show "rw_promise m' a \<subseteq> rw_promise m a"
    if "steps_to (rw_step el addr) rw_start m" "rw_rest m a = None" "rw_step el addr (a, n) m = Some m'"
    using rw_promise_step [OF that(2) _ rw_steps_room [OF that(1)]] that(3) by (simp add: rw_step_def split: if_splits)
  show "H \<in> rw_promise m a" if "rw_rest m a = Some H"
    using that by (auto simp: rw_rest_def rw_point_def rw_promise_run split: phase.splits if_splits)
  show "rw_promise m' a \<subseteq> outcomes c H" if "rw_rest m a = Some H" "rw_code c H = Some i" "rw_step el addr (a, i) m = Some m'"
    using rw_begins [OF that(1,2)] that(3) by (simp add: rw_step_def split: if_splits)
qed

end
