(* ===== verification/Guard_Locks.thy ===== *)
theory Guard_Locks
  imports Guard_RwLock Re_Mutex
begin

text \<open>
  The guards of \<open>lock_api\<close> over the raw locks of \<open>parking_lot\<close>: each raw lock meets the contract \<open>raw_lock\<close>, so threads that run any
  programs with guards use the data of a lock only as its kind allows.
\<close>

section \<open>The mutex\<close>

text \<open>Every machine with the contract of \<open>RawMutex\<close> can stand under the guards of \<open>Mutex\<close>.\<close>

definition trait_rest :: "('m \<Rightarrow> nat \<Rightarrow> bool) \<Rightarrow> ('m \<Rightarrow> nat \<Rightarrow> bool) \<Rightarrow> 'm \<Rightarrow> nat \<Rightarrow> lock_mode multiset option" where
  "trait_rest idle own m a = (if idle m a then Some {#} else if own m a then Some {#ExclusiveMode#} else None)"

definition patience_code :: "patience \<Rightarrow> nat" where
  "patience_code p = (case p of Blocking \<Rightarrow> 0 | Immediate \<Rightarrow> 2 | _ \<Rightarrow> 1)"

definition mutex_code :: "raw_call \<Rightarrow> lock_mode multiset \<Rightarrow> nat option" where
  "mutex_code c H = (case c of
     Acquire ExclusiveMode False p \<Rightarrow> if H = {#} then Some (patience_code p) else None
   | Release ExclusiveMode fair \<Rightarrow> if H = {#ExclusiveMode#} then Some (if fair then 1 else 0) else None
   | Bump ExclusiveMode \<Rightarrow> if H = {#ExclusiveMode#} then Some 2 else None
   | _ \<Rightarrow> None)"

lemma trait_rest_cases:
  assumes "trait_rest idle own m a = Some H"
  obtains "idle m a" "H = {#}" | "own m a" "H = {#ExclusiveMode#}"
  using assms by (auto simp: trait_rest_def split: if_splits)

sublocale raw_mutex \<subseteq> guards: raw_lock istep minit "trait_rest idle own" mutex_code home for home
proof
  fix m m' and a b n i :: nat and H H' md md' f and p
  show "trait_rest idle own minit a = Some {#}" by (simp add: trait_rest_def init_idle)
  show "trait_rest idle own m' b = trait_rest idle own m b" if "istep (a, n) m = Some m'" "b \<noteq> a"
    using others [OF that] by (simp add: trait_rest_def)
  show "H' = {#}" if "steps_to istep minit m" "trait_rest idle own m a = Some H" "trait_rest idle own m b = Some H'" "a \<noteq> b"
    "ExclusiveMode \<in># H \<or> ReentrantMode \<in># H"
    using that(3)
  proof (cases rule: trait_rest_cases)
    case 2
    have "own m a" using that(2,5) by (cases rule: trait_rest_cases) simp_all
    then show ?thesis using exclusion [OF that(1) _ 2(1)] that(4) by blast
  qed
  show "md \<in># H" if "mutex_code (Release md f) H = Some i"
    using that by (auto simp: mutex_code_def split: lock_mode.splits if_splits)
  show "md \<in># H" if "mutex_code (Convert md md' p) H = Some i"
    using that by (auto simp: mutex_code_def)
qed

context raw_mutex
begin

lemma guards_alone:
  assumes "\<And>t. client MutexKind {#} (replicate (n t) ArcHandle) (p t)"
    and "steps_to (gstep istep mutex_code (trait_rest idle own) home) (gstart minit p) w"
    and "next_access w t \<noteq> None" and "next_access w u \<noteq> None"
  shows "t = u"
proof (rule guards.alone [OF guards.greach_ok [OF assms(1,2)] _ assms(3,4)])
  show "md = ExclusiveMode \<or> md = ReentrantMode" if "trait_rest idle own (raw_state w) a = Some H" "md \<in># H" for a H md
    using that by (cases rule: trait_rest_cases) simp_all
qed

end

abbreviation mutex_rest :: "(u8, mutex_pc) world \<Rightarrow> nat \<Rightarrow> lock_mode multiset option" where
  "mutex_rest \<equiv> trait_rest mutex_idle mutex_own"

lemma mutex_rest_cases:
  assumes "mutex_rest w a = Some H"
  obtains "loc w a = Run Idle" "H = {#}" | "loc w a = Run Owner" "H = {#ExclusiveMode#}"
  using assms by (cases rule: trait_rest_cases) (auto simp: mutex_idle_run mutex_own_run)

lemma mutex_rest_None: "mutex_rest w a = None \<longleftrightarrow> loc w a \<noteq> Run Idle \<and> loc w a \<noteq> Run Owner"
  by (simp add: trait_rest_def mutex_idle_run mutex_own_run)

text \<open>What an agent inside a function can come to rest with; a thread that has timed out and has the lock of its bucket returns without the mutex.\<close>

primrec mutex_ends :: "mutex_pc \<Rightarrow> lock_mode multiset set" where
  "mutex_ends Idle = {{#}}"
| "mutex_ends (LockFast timed) = (if timed then {{#}, {#ExclusiveMode#}} else {{#ExclusiveMode#}})"
| "mutex_ends (SlowEntry timed) = (if timed then {{#}, {#ExclusiveMode#}} else {{#ExclusiveMode#}})"
| "mutex_ends (LockSlow timed sw s) = (if timed then {{#}, {#ExclusiveMode#}} else {{#ExclusiveMode#}})"
| "mutex_ends (SlowPark timed) = (if timed then {{#}, {#ExclusiveMode#}} else {{#ExclusiveMode#}})"
| "mutex_ends (SlowAsleep timed) = (if timed then {{#}, {#ExclusiveMode#}} else {{#ExclusiveMode#}})"
| "mutex_ends (SlowReload timed) = (if timed then {{#}, {#ExclusiveMode#}} else {{#ExclusiveMode#}})"
| "mutex_ends TryEntry = {{#}, {#ExclusiveMode#}}"
| "mutex_ends (TryLoop s) = {{#}, {#ExclusiveMode#}}"
| "mutex_ends Owner = {{#ExclusiveMode#}}"
| "mutex_ends (UnlockFast fair) = {{#}}"
| "mutex_ends (UnlockSlow fair relock) = (if relock then {{#ExclusiveMode#}} else {{#}})"
| "mutex_ends BumpCheck = {{#ExclusiveMode#}}"

definition mutex_promise :: "(u8, mutex_pc) world \<Rightarrow> nat \<Rightarrow> lock_mode multiset set" where
  "mutex_promise w a = (case loc w a of Crit l \<Rightarrow> if mutex_asleep l then {{#}, {#ExclusiveMode#}} else mutex_ends l | p \<Rightarrow> mutex_ends (at_phase p))"

lemma mutex_promise_step:
  assumes "mutex_rest w a = None" and "step (mutex_client addr) (a, n) w = Some w'"
  shows "mutex_promise w' a \<subseteq> mutex_promise w a"
proof (cases "loc w a")
  case (Run p)
  then show ?thesis using assms
    by (cases p) (auto simp: mutex_rest_None mutex_promise_def step_def run_step_def lot_simps mutex_ops lock_slow_validate_def
        atomic_simps Let_def split: if_splits prod.splits)
next
  case (Crit p)
  then show ?thesis using assms
    by (cases p) (auto simp: mutex_rest_None mutex_promise_def step_def crit_step_def lot_simps mutex_ops Let_def split: if_splits prod.splits)
next
  case (CritOp p op)
  then show ?thesis using assms by (cases p) (simp_all add: step_def requeue_step_def)
qed

interpretation mutex_lawful: lawful_lock "step (mutex_client addr)" mutex_start mutex_rest mutex_code home mutex_promise for addr home
proof
  fix m m' :: "(u8, mutex_pc) world" and a b n i :: nat and H c
  show "mutex_promise m' b = mutex_promise m b" if "step (mutex_client addr) (a, n) m = Some m'" "b \<noteq> a"
    using step_other [OF that] by (simp add: mutex_promise_def)
  show "mutex_promise m' a \<subseteq> mutex_promise m a" if "mutex_rest m a = None" "step (mutex_client addr) (a, n) m = Some m'"
    by (rule mutex_promise_step [OF that])
  show "H \<in> mutex_promise m a" if "mutex_rest m a = Some H"
    using that by (cases rule: mutex_rest_cases) (simp_all add: mutex_promise_def)
  show "mutex_promise m' a \<subseteq> outcomes c H" if r: "mutex_rest m a = Some H" "mutex_code c H = Some i" "step (mutex_client addr) (a, i) m = Some m'"
    using r(1)
  proof (cases rule: mutex_rest_cases)
    case 1
    then obtain p where c: "c = Acquire ExclusiveMode False p" "i = patience_code p"
      using r(2) by (auto simp: mutex_code_def split: raw_call.splits lock_mode.splits bool.splits if_splits)
    show ?thesis using r(3) 1
      by (cases p) (auto simp: c patience_code_def step_def run_step_def lot_simps mutex_call_def mutex_promise_def outcomes_def)
  next
    case 2
    then show ?thesis using r(2,3)
      by (auto simp: mutex_code_def step_def run_step_def lot_simps mutex_leave_def mutex_promise_def outcomes_def
          split: raw_call.splits lock_mode.splits bool.splits if_splits)
  qed
qed

section \<open>The reentrant mutex\<close>

definition re_rest :: "'m re_world \<Rightarrow> nat \<Rightarrow> lock_mode multiset option" where
  "re_rest w t = (case re_loc w t of ReIdle d \<Rightarrow> Some (replicate_mset d ReentrantMode) | _ \<Rightarrow> None)"

definition re_code :: "raw_call \<Rightarrow> lock_mode multiset \<Rightarrow> nat option" where
  "re_code c H = (case c of
     Acquire ReentrantMode False p \<Rightarrow> Some (patience_code p)
   | Release ReentrantMode fair \<Rightarrow> if ReentrantMode \<in># H then Some (if fair then 4 else 3) else None
   | Bump ReentrantMode \<Rightarrow> if ReentrantMode \<in># H then Some 5 else None
   | _ \<Rightarrow> None)"

lemma re_rest_guards: "re_rest w t = Some H \<Longrightarrow> H = replicate_mset (re_guards (re_loc w t)) ReentrantMode"
  by (cases "re_loc w t") (simp_all add: re_rest_def)

lemma re_step_other: "re_step istep idle own tid_of (t, n) w = Some w' \<Longrightarrow> u \<noteq> t \<Longrightarrow> re_loc w' u = re_loc w u"
  by (cases "re_loc w t") (auto simp: re_step_def re_act_def re_goto_def re_inner_step_def split: if_splits option.splits prod.splits)

sublocale re_mutex \<subseteq> re_guards: raw_lock "re_step istep idle own tid_of" "re_start minit" re_rest re_code "\<lambda>t. t"
proof
  fix m m' :: "'a re_world" and a b n i :: nat and H H' md md' f and p
  show "re_rest (re_start minit) a = Some {#}" by (simp add: re_rest_def re_start_def)
  show "re_rest m' b = re_rest m b" if "re_step istep idle own tid_of (a, n) m = Some m'" "b \<noteq> a"
    using re_step_other [OF that] by (simp add: re_rest_def)
  show "H' = {#}" if "steps_to (re_step istep idle own tid_of) (re_start minit) m" "re_rest m a = Some H" "re_rest m b = Some H'" "a \<noteq> b"
    "ExclusiveMode \<in># H \<or> ReentrantMode \<in># H"
  proof (rule ccontr)
    assume "H' \<noteq> {#}"
    then have g: "0 < re_guards (re_loc m b)" "0 < re_guards (re_loc m a)"
      using re_rest_guards [OF that(2)] re_rest_guards [OF that(3)] that(5) by (auto split: if_splits)
    note inv = re_reach_inv [OF that(1)]
    have "own (re_inner m) a" "own (re_inner m) b" using re_guards_view [OF g(1)] re_guards_view [OF g(2)] re_invD(5) [OF inv] by blast+
    then show False using exclusion [OF re_invD(1) [OF inv]] that(4) by blast
  qed
  show "md \<in># H" if "re_code (Release md f) H = Some i"
    using that by (auto simp: re_code_def split: lock_mode.splits if_splits)
  show "md \<in># H" if "re_code (Convert md md' p) H = Some i"
    using that by (auto simp: re_code_def)
qed

context re_mutex
begin

lemma re_guards_alone:
  assumes "\<And>t. client ReentrantKind {#} (replicate (n t) ArcHandle) (p t)"
    and "steps_to (gstep (re_step istep idle own tid_of) re_code re_rest (\<lambda>t. t)) (gstart (re_start minit) p) w"
    and "next_access w t \<noteq> None" and "next_access w u \<noteq> None"
  shows "t = u"
proof (rule re_guards.alone [OF re_guards.greach_ok [OF assms(1,2)] _ assms(3,4)])
  show "md = ExclusiveMode \<or> md = ReentrantMode" if "re_rest (raw_state w) a = Some H" "md \<in># H" for a H md
    using re_rest_guards [OF that(1)] that(2) by (simp split: if_splits)
qed

end

section \<open>Theorems\<close>

text \<open>A thread that locks, uses the data once and drops the guard, for each kind of lock.\<close>

definition lock_once :: "guard_action \<Rightarrow> token \<Rightarrow> guard_action \<Rightarrow> guard_action \<Rightarrow> guard_action" where
  "lock_once lock guard deref dropped = then_call lock [] (\<lambda>_. then_call deref [guard] (\<lambda>_. then_call dropped [] (\<lambda>gs. Return gs)))"

lemma lock_once_client:
  assumes "lock \<in> set (acquires k)" "results lock = {[g]}" "(g, deref) \<in> set (by_ref k q)" "results deref = {[g]}"
    "(g, dropped) \<in> set (by_value k q)"
  shows "client k {#} (replicate 0 ArcHandle) (lock_once lock g deref dropped)"
proof -
  have "client k {#} [g] (then_call dropped [] (\<lambda>gs. Return gs))"
    using api_by_value [OF assms(5)] client_return by (rule client_then_call)
  then have "client k {#} [g] (then_call deref [g] (\<lambda>_. then_call dropped [] (\<lambda>gs. Return gs)))"
    using assms(4) by (intro client_then_call [OF api_by_ref [OF assms(3)]]) simp
  then show ?thesis
    using assms(2) unfolding lock_once_def replicate_0 by (intro client_then_call [OF api_acquire [OF assms(1)]]) simp_all
qed

definition mutex_user :: guard_action where
  "mutex_user = lock_once Mutex_lock MutexGuard MutexGuard_deref_mut MutexGuard_drop"

definition reader :: guard_action where
  "reader = lock_once RwLock_read RwLockReadGuard RwLockReadGuard_deref RwLockReadGuard_drop"

definition re_user :: guard_action where
  "re_user = lock_once ReentrantMutex_lock ReentrantMutexGuard ReentrantMutexGuard_deref ReentrantMutexGuard_drop"

lemma users_are_clients:
  "client MutexKind {#} (replicate 0 ArcHandle) mutex_user"
  "client RwLockKind {#} (replicate 0 ArcHandle) reader"
  "client ReentrantKind {#} (replicate 0 ArcHandle) re_user"
  unfolding mutex_user_def reader_def re_user_def
  by (rule lock_once_client [where q = 0];
      simp add: mx_acquires_def mx_by_ref_def mx_by_value_def rw_acquires_def rw_by_ref_def rw_by_value_def rem_acquires_def rem_by_ref_def
        rem_by_value_def Mutex_lock_def Mutex_make_guard_unchecked_def RwLock_read_def RwLock_make_read_guard_unchecked_def ReentrantMutex_lock_def
        ReentrantMutex_make_guard_unchecked_def invoke_def MutexGuard_deref_mut_def RwLockReadGuard_deref_def ReentrantMutexGuard_deref_def)+

abbreviation mutex_world_step :: "usize \<Rightarrow> (nat \<Rightarrow> nat) \<Rightarrow> (u8, mutex_pc) world guard_world stepper" where
  "mutex_world_step addr home \<equiv> gstep (step (mutex_client addr)) mutex_code mutex_rest home"

abbreviation rw_world_step :: "bool \<Rightarrow> usize \<Rightarrow> (nat \<Rightarrow> nat) \<Rightarrow> (usize, rw_pc) world guard_world stepper" where
  "rw_world_step el addr home \<equiv> gstep (rw_step el addr) rw_code rw_rest home"

abbreviation re_world_step :: "usize \<Rightarrow> (nat \<Rightarrow> usize) \<Rightarrow> (u8, mutex_pc) world re_world guard_world stepper" where
  "re_world_step addr tid_of \<equiv> gstep (re_lock_step addr tid_of) re_code re_rest (\<lambda>t. t)"

text \<open>
  Four runs: a thread with the mutex while another waits for it, two readers, a thread with the reentrant mutex and another that has
  called \<open>lock\<close>, and a reader whose call is over.
\<close>

definition mutex_run :: "(u8, mutex_pc) world guard_world option" where
  "mutex_run = run_steps (mutex_world_step 8 (\<lambda>a. a mod 2)) [(1, 1), (1, 0), (1, 0), (0, 0), (0, 0)] (gstart mutex_start (\<lambda>_. mutex_user))"

definition readers_run :: "(usize, rw_pc) world guard_world option" where
  "readers_run = run_steps (rw_world_step False 8 (\<lambda>a. a mod 2))
     [(1, 1), (1, 0), (1, 0), (1, 0), (0, 0), (0, 0), (0, 0), (0, 0)] (gstart rw_start (\<lambda>_. reader))"

definition re_user_run :: "(u8, mutex_pc) world re_world guard_world option" where
  "re_user_run = run_steps (re_world_step 8 thread_key) ((2, 2) # replicate 7 (2, 0) @ [(1, 1)]) (gstart (re_start mutex_start) (\<lambda>_. re_user))"

definition reader_run :: "(usize, rw_pc) world guard_world option" where
  "reader_run = run_steps (rw_world_step False 8 (\<lambda>a. a mod 2)) [(1, 1), (1, 0), (1, 0)] (gstart rw_start (\<lambda>_. reader))"

lemma runs_at:
  "map_option (\<lambda>w. next_access w 1) mutex_run = Some (Some True)"
  "map_option (\<lambda>w. (map_option (\<lambda>_. ()) (next_access w 1), map_option (\<lambda>_. ()) (next_access w 0))) readers_run = Some (Some (), Some ())"
  "map_option (\<lambda>w. next_access w 2) re_user_run = Some (Some False)"
  "map_option (\<lambda>w. (case gthreads w 1 of Calling c a H k \<Rightarrow> a = 1 | _ \<Rightarrow> False, rw_rest (raw_state w) 1 = Some {#SharedMode#})) reader_run =
     Some (True, True)"
  by code_simp+

text \<open>
  Claim C11. The guards of a mutex exclude: threads that run any programs with the public functions of \<open>Mutex\<close> and its guards
  over \<open>RawMutex\<close> of \<open>parking_lot\<close>, however their steps interleave, are never two at a use of the data.
\<close>

theorem mutex_guards_exclude:
  assumes "\<And>t. client MutexKind {#} (replicate (n t) ArcHandle) (p t)"
    and "steps_to (mutex_world_step addr home) (gstart mutex_start p) w"
    and "next_access w t \<noteq> None" and "next_access w u \<noteq> None"
  shows "t = u"
  by (rule mutex_trait.guards_alone [OF assms])

theorem mutex_guards_exclude_witness:
  "\<exists>w. mutex_run = Some w \<and> next_access w 1 = Some True \<and> next_access w 0 = None"
proof -
  obtain w where w: "mutex_run = Some w" "next_access w 1 = Some True" using runs_at(1) by auto
  have "next_access w 0 = None"
    using mutex_guards_exclude [OF users_are_clients(1) run_steps_to [OF w(1) [unfolded mutex_run_def] steps_init], of 0 1] w(2)
    by (metis option.distinct(1) zero_neq_one)
  then show ?thesis using w by blast
qed

text \<open>The same for the fair mutex.\<close>

theorem fair_mutex_guards_exclude:
  assumes "\<And>t. client MutexKind {#} (replicate (n t) ArcHandle) (p t)"
    and "steps_to (gstep (fair_step addr) mutex_code mutex_rest home) (gstart mutex_start p) w"
    and "next_access w t \<noteq> None" and "next_access w u \<noteq> None"
  shows "t = u"
  by (rule fair_mutex.guards_alone [OF assms])

text \<open>
  Claim C12. The guards of a reader-writer lock exclude: threads that run any programs with the public functions of \<open>RwLock\<close> and its
  guards over \<open>RawRwLock\<close> of \<open>parking_lot\<close>, upgrades and downgrades included, use the data at the same time only to read it.
\<close>

theorem rwlock_guards_exclude:
  assumes "\<And>t. client RwLockKind {#} (replicate (n t) ArcHandle) (p t)"
    and "steps_to (rw_world_step el addr home) (gstart rw_start p) w"
    and "next_access w t = Some wr" and "next_access w u = Some wr'" and "t \<noteq> u"
  shows "\<not> wr \<and> \<not> wr'"
  by (rule rw_lock.no_race [OF rw_lock.greach_ok [OF assms(1,2)] assms(3-5)])

theorem rwlock_guards_exclude_witness:
  "\<exists>w. readers_run = Some w \<and> next_access w 1 = Some False \<and> next_access w 0 = Some False"
proof -
  obtain w x y where w: "readers_run = Some w" "next_access w 1 = Some x" "next_access w 0 = Some y"
    using runs_at(2) by auto
  show ?thesis
    using rwlock_guards_exclude [OF users_are_clients(2) run_steps_to [OF w(1) [unfolded readers_run_def] steps_init] w(2,3)] w by auto
qed

text \<open>
  Claim C14. The guards of a reentrant mutex exclude other threads: only one thread at a time uses the data, whatever number of guards it has.
\<close>

theorem remutex_guards_exclude:
  assumes "\<And>t u. tid_of t \<noteq> 0 \<Longrightarrow> tid_of t = tid_of u \<Longrightarrow> t = u"
    and "\<And>t. client ReentrantKind {#} (replicate (n t) ArcHandle) (p t)"
    and "steps_to (re_world_step addr tid_of) (gstart (re_start mutex_start) p) w"
    and "next_access w t \<noteq> None" and "next_access w u \<noteq> None"
  shows "t = u"
proof -
  have M: "re_mutex (step (mutex_client addr)) mutex_start mutex_idle mutex_own mutex_locking tid_of"
    by (rule re_mutexI) (rule assms(1))
  show ?thesis by (rule re_mutex.re_guards_alone [OF M assms(2-5)])
qed

theorem remutex_guards_exclude_witness:
  "\<exists>w. re_user_run = Some w \<and> next_access w 2 = Some False \<and> next_access w 1 = None"
proof -
  obtain w where w: "re_user_run = Some w" "next_access w 2 = Some False" using runs_at(3) by auto
  have "next_access w 1 = None"
  proof (rule ccontr)
    assume "next_access w 1 \<noteq> None"
    then have "(1::nat) = 2"
      using remutex_guards_exclude [of thread_key, OF thread_key_inj users_are_clients(3) run_steps_to [OF w(1) [unfolded re_user_run_def] steps_init], of 1 2] w(2)
      by simp
    then show False by simp
  qed
  then show ?thesis using w by blast
qed



end
