(* ===== verification/Bucket_Locks.thy ===== *)
theory Bucket_Locks
  imports Lot_Refine
begin

text \<open>
  How the threads of \<open>parking_lot.rs\<close> lock buckets while others grow the table: one step per
  access to \<open>HASHTABLE\<close>, to the key of a thread and to a bucket lock. The theory holds the
  machine and its invariant: the bucket a lock function returns is the bucket of its key in
  the current table, it stays that bucket until it is unlocked, and every parked thread is in
  the bucket of its key.
\<close>

section \<open>State\<close>

text \<open>
  A table is named by its position in the list of tables that were ever published; none of
  them is freed. A bucket is a table and an index. \<open>bl_owner\<close> is the holder of the bucket's
  \<open>WordLock\<close>, \<open>bl_queue\<close> its linked list.
\<close>

type_synonym bptr = "nat \<times> nat"

text \<open>What a thread does with the bucket of \<open>lock_bucket\<close>: it parks, or it unparks threads.\<close>

datatype bl_use = Enqueue | Dequeue "tid list"

datatype want =
    WOne usize bl_use
  | WChecked
  | WPair usize usize "tid list" "tid list"
  | WGrow nat
  | WSlow
  | WFast

datatype stage1 = Lock1 | Check1 | Retry1 | Held1 | Unlock1
datatype stage2 = Load2 | Lock2 | Check2 | Key2 | Retry2 | Held2 | Unlock2
datatype stage3 = Lock3 | Check3 | Retry3 | Second3 | Held3 | Unlock3 | Other3
datatype stageA = LockA nat | CheckA | RetryA nat nat | HeldA | UnlockA nat
datatype stageF = LockF nat | ReadF nat

datatype bl_pc =
    Idle
  | Get want
  | Create want
  | One stage1 usize bl_use nat
  | Chk stage2 usize nat
  | Two stage3 usize usize "tid list" "tid list" nat
  | All stageA want nat
  | Fast stageF nat

record bl_world =
  bl_tables :: "HashTable list"
  bl_current :: "nat option"
  bl_num :: nat
  bl_owner :: "bptr \<Rightarrow> tid option"
  bl_queue :: "bptr \<Rightarrow> tid list"
  bl_key :: "tid \<Rightarrow> usize"
  bl_alive :: "tid \<Rightarrow> bool"
  bl_pc :: "tid \<Rightarrow> bl_pc"

definition bl_size :: "HashTable list \<Rightarrow> nat \<Rightarrow> nat" where
  "bl_size tbs tb = length (entries (tbs ! tb))"

definition bl_bucket :: "HashTable list \<Rightarrow> nat \<Rightarrow> usize \<Rightarrow> bptr" where
  "bl_bucket tbs tb k = (tb, idx (tbs ! tb) k)"

section \<open>Code\<close>

text \<open>
  The next access of a thread: a jump, a lock (which waits while the bucket is held), an
  unlock, the publication of a table with its queues, or the body of a critical section.
\<close>

datatype bl_instr =
    Jump bl_pc
  | Acquire bptr bl_pc
  | Release bptr bl_pc
  | Install HashTable "nat \<Rightarrow> tid list" bl_pc
  | Section "tid \<Rightarrow> usize" "bptr \<Rightarrow> tid list" bl_pc
  | Stop

text \<open>What each caller of \<open>get_hashtable\<close> does with the table.\<close>

fun use_table :: "HashTable list \<Rightarrow> want \<Rightarrow> nat \<Rightarrow> bl_pc" where
  "use_table tbs (WOne k u) tb = One Lock1 k u tb"
| "use_table tbs WChecked tb = Chk Load2 0 tb"
| "use_table tbs (WPair k1 k2 us rs) tb = Two Lock3 k1 k2 us rs tb"
| "use_table tbs (WGrow n) tb =
     (if bl_size tbs tb \<ge> LOAD_FACTOR * n then Idle else All (LockA 0) (WGrow n) tb)"
| "use_table tbs WSlow tb = All (LockA 0) WSlow tb"
| "use_table tbs WFast tb = Fast (LockF 0) tb"

definition get_hashtable_code :: "bl_world \<Rightarrow> want \<Rightarrow> bl_instr" where
  "get_hashtable_code w want = (case bl_current w of
     None \<Rightarrow> Jump (Create want)
   | Some tb \<Rightarrow> Jump (use_table (bl_tables w) want tb))"

text \<open>A table that loses the race to be the first one is freed before anyone sees it.\<close>

definition create_hashtable_code :: "nat \<Rightarrow> bl_world \<Rightarrow> want \<Rightarrow> bl_instr" where
  "create_hashtable_code now w want = (case HashTable_new now LOAD_FACTOR of
     None \<Rightarrow> Stop
   | Some new_table \<Rightarrow> (case bl_current w of
       None \<Rightarrow> Install new_table (\<lambda>_. [])
         (use_table (bl_tables w @ [new_table]) want (length (bl_tables w)))
     | Some old_table \<Rightarrow> Jump (use_table (bl_tables w) want old_table)))"

text \<open>
  The bodies of the critical sections. An unparker takes the threads of its key it selects;
  \<open>unpark_requeue\<close> unparks some threads of \<open>key_from\<close> and moves others to the other bucket,
  under their new key.
\<close>

definition dequeue :: "tid set \<Rightarrow> usize \<Rightarrow> (tid \<Rightarrow> usize) \<Rightarrow> tid list \<Rightarrow> tid list" where
  "dequeue S k ks q = filter (\<lambda>u. \<not> (u \<in> S \<and> ks u = k)) q"

fun one_body :: "tid \<Rightarrow> usize \<Rightarrow> bl_use \<Rightarrow> bptr \<Rightarrow> (tid \<Rightarrow> usize) \<times> (bptr \<Rightarrow> tid list)
    \<Rightarrow> (tid \<Rightarrow> usize) \<times> (bptr \<Rightarrow> tid list)" where
  "one_body t k Enqueue b (ks, qs) = (ks(t := k), qs(b := qs b @ [t]))"
| "one_body t k (Dequeue us) b (ks, qs) = (ks, qs(b := dequeue (set us) k ks (qs b)))"

definition pair_moved :: "tid list \<Rightarrow> tid list \<Rightarrow> usize \<Rightarrow> (tid \<Rightarrow> usize) \<Rightarrow> tid list \<Rightarrow> tid list" where
  "pair_moved us rs k ks q = filter (\<lambda>u. u \<in> set rs \<and> u \<notin> set us \<and> ks u = k) q"

definition pair_body :: "usize \<Rightarrow> usize \<Rightarrow> tid list \<Rightarrow> tid list \<Rightarrow> bptr \<Rightarrow> bptr
    \<Rightarrow> (tid \<Rightarrow> usize) \<times> (bptr \<Rightarrow> tid list) \<Rightarrow> (tid \<Rightarrow> usize) \<times> (bptr \<Rightarrow> tid list)" where
  "pair_body k1 k2 us rs b1 b2 s = (case s of (ks, qs) \<Rightarrow>
     let moved = pair_moved us rs k1 ks (qs b1);
         qs1 = qs(b1 := dequeue (set us \<union> set rs) k1 ks (qs b1))
     in (\<lambda>u. if u \<in> set moved then k2 else ks u, qs1(b2 := qs1 b2 @ moved)))"

definition lock_bucket_code :: "bl_world \<Rightarrow> tid \<Rightarrow> stage1 \<Rightarrow> usize \<Rightarrow> bl_use \<Rightarrow> nat \<Rightarrow> bl_instr" where
  "lock_bucket_code w t st k u tb =
     (let bucket = bl_bucket (bl_tables w) tb k in
      case st of
        Lock1 \<Rightarrow> Acquire bucket (One Check1 k u tb)
      | Check1 \<Rightarrow> Jump (if bl_current w = Some tb then One Held1 k u tb else One Retry1 k u tb)
      | Retry1 \<Rightarrow> Release bucket (Get (WOne k u))
      | Held1 \<Rightarrow> (case one_body t k u bucket (bl_key w, bl_queue w) of
          (ks, qs) \<Rightarrow> Section ks qs (One Unlock1 k u tb))
      | Unlock1 \<Rightarrow> Release bucket Idle)"

text \<open>The caller of \<open>lock_bucket_checked\<close> timed out and takes itself out of the queue.\<close>

definition lock_bucket_checked_code :: "bl_world \<Rightarrow> tid \<Rightarrow> stage2 \<Rightarrow> usize \<Rightarrow> nat \<Rightarrow> bl_instr" where
  "lock_bucket_checked_code w t st current_key tb =
     (let bucket = bl_bucket (bl_tables w) tb current_key in
      case st of
        Load2 \<Rightarrow> Jump (Chk Lock2 (bl_key w t) tb)
      | Lock2 \<Rightarrow> Acquire bucket (Chk Check2 current_key tb)
      | Check2 \<Rightarrow> Jump (Chk (if bl_current w = Some tb then Key2 else Retry2) current_key tb)
      | Key2 \<Rightarrow> Jump (Chk (if bl_key w t = current_key then Held2 else Retry2) current_key tb)
      | Retry2 \<Rightarrow> Release bucket (Get WChecked)
      | Held2 \<Rightarrow> Section (bl_key w)
          ((bl_queue w)(bucket := filter (\<lambda>u. u \<noteq> t) (bl_queue w bucket)))
          (Chk Unlock2 current_key tb)
      | Unlock2 \<Rightarrow> Release bucket Idle)"

definition lock_bucket_pair_code ::
  "bl_world \<Rightarrow> stage3 \<Rightarrow> usize \<Rightarrow> usize \<Rightarrow> tid list \<Rightarrow> tid list \<Rightarrow> nat \<Rightarrow> bl_instr" where
  "lock_bucket_pair_code w st key1 key2 us rs tb =
     (let hash1 = idx (bl_tables w ! tb) key1;
          hash2 = idx (bl_tables w ! tb) key2;
          bucket1 = (tb, if hash1 \<le> hash2 then hash1 else hash2);
          bucket2 = (tb, if hash1 < hash2 then hash2 else hash1);
          goto = (\<lambda>st. Two st key1 key2 us rs tb)
      in case st of
        Lock3 \<Rightarrow> Acquire bucket1 (goto Check3)
      | Check3 \<Rightarrow> Jump (goto (if bl_current w = Some tb
          then (if hash1 = hash2 then Held3 else Second3) else Retry3))
      | Retry3 \<Rightarrow> Release bucket1 (Get (WPair key1 key2 us rs))
      | Second3 \<Rightarrow> Acquire bucket2 (goto Held3)
      | Held3 \<Rightarrow> (case pair_body key1 key2 us rs (tb, hash1) (tb, hash2) (bl_key w, bl_queue w) of
          (ks, qs) \<Rightarrow> Section ks qs (goto Unlock3))
      | Unlock3 \<Rightarrow> Release (tb, hash1) (if hash1 = hash2 then Idle else goto Other3)
      | Other3 \<Rightarrow> Release (tb, hash2) Idle)"

text \<open>
  \<open>rehash_bucket_into\<close>, bucket after bucket: a queue of the new table holds the threads whose
  keys belong there, in the order of the old buckets. The buckets of the old table keep their
  heads, as in the source. The lists of the old table are kept as they were, although the source
  has by then relinked the threads for the new queues: of an old queue only its head is meaningful,
  and no section but that of the fast deadlock check reads one.
\<close>

definition rehash :: "bl_world \<Rightarrow> nat \<Rightarrow> HashTable \<Rightarrow> nat \<Rightarrow> tid list" where
  "rehash w tb new_table i = concat (map (\<lambda>j. filter (\<lambda>u. idx new_table (bl_key w u) = i)
     (bl_queue w (tb, j))) [0..<bl_size (bl_tables w) tb])"

text \<open>
  \<open>grow_hashtable\<close> and \<open>check_wait_graph_slow\<close> lock all buckets of a table in the order of
  their indices, look at \<open>HASHTABLE\<close> again, and start over if it has changed. What the slow check does
  around this loop is in \<open>Deadlock_Reports\<close>: the lock \<open>DEADLOCK_DETECTION_LOCK\<close>, the marking of the
  threads, each under the lock of its bucket, and the wait for their reports.
\<close>

definition lock_all_code :: "nat \<Rightarrow> bl_world \<Rightarrow> stageA \<Rightarrow> want \<Rightarrow> nat \<Rightarrow> bl_instr" where
  "lock_all_code now w st want tb =
     (let size = bl_size (bl_tables w) tb in
      case st of
        LockA i \<Rightarrow> if i < size then Acquire (tb, i) (All (LockA (Suc i)) want tb)
          else Jump (All CheckA want tb)
      | CheckA \<Rightarrow> (case bl_current w of
          None \<Rightarrow> Stop
        | Some cur \<Rightarrow> Jump (All (if cur = tb then HeldA else RetryA 0 cur) want tb))
      | RetryA i cur \<Rightarrow> if i < size then Release (tb, i) (All (RetryA (Suc i) cur) want tb)
          else Jump (if want = WSlow then All (LockA 0) want cur else Get want)
      | HeldA \<Rightarrow> (case want of
          WGrow num_threads \<Rightarrow> (case HashTable_new now num_threads of
              None \<Rightarrow> Stop
            | Some new_table \<Rightarrow> Install new_table (rehash w tb new_table) (All (UnlockA 0) want tb))
        | _ \<Rightarrow> Jump (All (UnlockA 0) want tb))
      | UnlockA i \<Rightarrow> if i < size then Release (tb, i) (All (UnlockA (Suc i)) want tb)
          else Jump Idle)"

text \<open>\<open>check_wait_graph_fast\<close> takes one bucket at a time and never looks at \<open>HASHTABLE\<close> again.\<close>

definition check_fast_code :: "bl_world \<Rightarrow> stageF \<Rightarrow> nat \<Rightarrow> bl_instr" where
  "check_fast_code w st tb = (case st of
     LockF i \<Rightarrow> if i < bl_size (bl_tables w) tb then Acquire (tb, i) (Fast (ReadF i) tb)
       else Jump Idle
   | ReadF i \<Rightarrow> Release (tb, i) (Fast (LockF (Suc i)) tb))"

fun bl_code :: "nat \<Rightarrow> bl_world \<Rightarrow> tid \<Rightarrow> bl_pc \<Rightarrow> bl_instr" where
  "bl_code now w t Idle = Stop"
| "bl_code now w t (Get want) = get_hashtable_code w want"
| "bl_code now w t (Create want) = create_hashtable_code now w want"
| "bl_code now w t (One st k u tb) = lock_bucket_code w t st k u tb"
| "bl_code now w t (Chk st k tb) = lock_bucket_checked_code w t st k tb"
| "bl_code now w t (Two st k1 k2 us rs tb) = lock_bucket_pair_code w st k1 k2 us rs tb"
| "bl_code now w t (All st want tb) = lock_all_code now w st want tb"
| "bl_code now w t (Fast st tb) = check_fast_code w st tb"

fun bl_exec :: "bl_world \<Rightarrow> tid \<Rightarrow> bl_instr \<Rightarrow> bl_world option" where
  "bl_exec w t (Jump p) = Some (w\<lparr>bl_pc := (bl_pc w)(t := p)\<rparr>)"
| "bl_exec w t (Acquire b p) = (case bl_owner w b of
     None \<Rightarrow> Some (w\<lparr>bl_owner := (bl_owner w)(b := Some t), bl_pc := (bl_pc w)(t := p)\<rparr>)
   | Some _ \<Rightarrow> None)"
| "bl_exec w t (Release b p) =
     Some (w\<lparr>bl_owner := (bl_owner w)(b := None), bl_pc := (bl_pc w)(t := p)\<rparr>)"
| "bl_exec w t (Install tb qs p) =
     Some (w\<lparr>bl_tables := bl_tables w @ [tb], bl_current := Some (length (bl_tables w)),
       bl_queue := (\<lambda>b. if fst b = length (bl_tables w) then qs (snd b) else bl_queue w b),
       bl_pc := (bl_pc w)(t := p)\<rparr>)"
| "bl_exec w t (Section ks qs p) =
     Some (w\<lparr>bl_key := ks, bl_queue := qs, bl_pc := (bl_pc w)(t := p)\<rparr>)"
| "bl_exec w t Stop = None"

definition bl_step :: "nat \<Rightarrow> tid \<Rightarrow> bl_world \<Rightarrow> bl_world option" where
  "bl_step now t w = bl_exec w t (bl_code now w t (bl_pc w t))"

section \<open>Calls\<close>

text \<open>A thread is parked while it is in a queue of the current table.\<close>

definition parked :: "bl_world \<Rightarrow> tid \<Rightarrow> bool" where
  "parked w t \<longleftrightarrow> (case bl_current w of
     None \<Rightarrow> False
   | Some tb \<Rightarrow> \<exists>i<bl_size (bl_tables w) tb. t \<in> set (bl_queue w (tb, i)))"

text \<open>
  What a thread may call: one that parks has its \<open>ThreadData\<close> and is not in a queue; only a
  thread with a \<open>ThreadData\<close> waits for a timeout. A thread in a queue may still unpark others,
  from \<open>before_sleep\<close>. Growing is not called by itself but by \<open>ThreadData::new\<close>.
\<close>

fun may_call :: "bl_world \<Rightarrow> tid \<Rightarrow> want \<Rightarrow> bool" where
  "may_call w t (WOne k Enqueue) \<longleftrightarrow> bl_alive w t \<and> \<not> parked w t"
| "may_call w t WChecked \<longleftrightarrow> bl_alive w t"
| "may_call w t (WGrow n) \<longleftrightarrow> False"
| "may_call w t want \<longleftrightarrow> True"

definition bl_call :: "tid \<Rightarrow> want \<Rightarrow> bl_world \<Rightarrow> bl_world option" where
  "bl_call t want w = (if bl_pc w t = Idle \<and> may_call w t want
     then Some (w\<lparr>bl_pc := (bl_pc w)(t := Get want)\<rparr>) else None)"

text \<open>
  \<open>ThreadData::new\<close> counts the thread and grows the table for it, \<open>drop\<close> uncounts it. The
  number of threads stays below \<open>2 ^ 60\<close>, which the address space guarantees.
\<close>

definition bl_new :: "tid \<Rightarrow> bl_world \<Rightarrow> bl_world option" where
  "bl_new t w = (if bl_pc w t = Idle \<and> \<not> bl_alive w t \<and> int (bl_num w) < 2 ^ 60
     then Some (w\<lparr>bl_num := Suc (bl_num w), bl_alive := (bl_alive w)(t := True),
       bl_pc := (bl_pc w)(t := Get (WGrow (Suc (bl_num w))))\<rparr>) else None)"

definition bl_drop :: "tid \<Rightarrow> bl_world \<Rightarrow> bl_world option" where
  "bl_drop t w = (if bl_pc w t = Idle \<and> bl_alive w t \<and> \<not> parked w t
     then Some (w\<lparr>bl_num := bl_num w - 1, bl_alive := (bl_alive w)(t := False)\<rparr>) else None)"

definition bl_init :: bl_world where
  "bl_init = \<lparr>bl_tables = [], bl_current = None, bl_num = 0, bl_owner = (\<lambda>_. None),
     bl_queue = (\<lambda>_. []), bl_key = (\<lambda>_. 0), bl_alive = (\<lambda>_. False), bl_pc = (\<lambda>_. Idle)\<rparr>"

inductive bl_reach :: "bl_world \<Rightarrow> bool" where
  by_start: "bl_reach bl_init"
| by_code: "bl_reach w \<Longrightarrow> bl_step now t w = Some w' \<Longrightarrow> bl_reach w'"
| by_calls: "bl_reach w \<Longrightarrow> bl_call t want w = Some w' \<Longrightarrow> bl_reach w'"
| by_news: "bl_reach w \<Longrightarrow> bl_new t w = Some w' \<Longrightarrow> bl_reach w'"
| by_drops: "bl_reach w \<Longrightarrow> bl_drop t w = Some w' \<Longrightarrow> bl_reach w'"

section \<open>Locks held\<close>

fun bl_holds :: "HashTable list \<Rightarrow> bl_pc \<Rightarrow> bptr set" where
  "bl_holds tbs (One st k u tb) = (if st = Lock1 then {} else {bl_bucket tbs tb k})"
| "bl_holds tbs (Chk st k tb) = (if st \<in> {Load2, Lock2} then {} else {bl_bucket tbs tb k})"
| "bl_holds tbs (Two st k1 k2 us rs tb) =
     (let h1 = idx (tbs ! tb) k1; h2 = idx (tbs ! tb) k2 in
      case st of
        Lock3 \<Rightarrow> {}
      | Check3 \<Rightarrow> {(tb, min h1 h2)}
      | Retry3 \<Rightarrow> {(tb, min h1 h2)}
      | Second3 \<Rightarrow> {(tb, min h1 h2)}
      | Held3 \<Rightarrow> {(tb, h1), (tb, h2)}
      | Unlock3 \<Rightarrow> {(tb, h1), (tb, h2)}
      | Other3 \<Rightarrow> {(tb, h2)})"
| "bl_holds tbs (All st want tb) =
     (let n = bl_size tbs tb in
      case st of
        LockA i \<Rightarrow> {tb} \<times> {..<i}
      | RetryA i cur \<Rightarrow> {tb} \<times> {i..<n}
      | UnlockA i \<Rightarrow> {tb} \<times> {i..<n}
      | _ \<Rightarrow> {tb} \<times> {..<n})"
| "bl_holds tbs (Fast st tb) = (case st of LockF i \<Rightarrow> {} | ReadF i \<Rightarrow> {(tb, i)})"
| "bl_holds tbs p = {}"

fun at_table :: "bl_pc \<Rightarrow> nat option" where
  "at_table (One st k u tb) = Some tb"
| "at_table (Chk st k tb) = Some tb"
| "at_table (Two st k1 k2 us rs tb) = Some tb"
| "at_table (All st want tb) = Some tb"
| "at_table (Fast st tb) = Some tb"
| "at_table p = None"

text \<open>The table a thread has found to be the current one while it holds a bucket of it.\<close>

fun held_table :: "bl_pc \<Rightarrow> nat option" where
  "held_table (One st k u tb) = (if st \<in> {Held1, Unlock1} then Some tb else None)"
| "held_table (Chk st k tb) = (if st \<in> {Key2, Held2, Unlock2} then Some tb else None)"
| "held_table (Two st k1 k2 us rs tb) =
     (if st \<in> {Second3, Held3, Unlock3, Other3} then Some tb else None)"
| "held_table (All st want tb) = (if st = HeldA then Some tb else None)"
| "held_table p = None"

fun growing :: "bl_pc \<Rightarrow> nat option" where
  "growing (Get (WGrow n)) = Some n"
| "growing (Create (WGrow n)) = Some n"
| "growing (All st (WGrow n) tb) = (case st of UnlockA i \<Rightarrow> None | _ \<Rightarrow> Some n)"
| "growing p = None"

fun enqueuing :: "bl_pc \<Rightarrow> bool" where
  "enqueuing (Get (WOne k Enqueue)) \<longleftrightarrow> True"
| "enqueuing (Create (WOne k Enqueue)) \<longleftrightarrow> True"
| "enqueuing (One st k Enqueue tb) \<longleftrightarrow> st \<noteq> Unlock1"
| "enqueuing p \<longleftrightarrow> False"

fun stage_ok :: "HashTable list \<Rightarrow> bl_pc \<Rightarrow> bool" where
  "stage_ok tbs (Two st k1 k2 us rs tb) \<longleftrightarrow>
     (st \<in> {Second3, Other3} \<longrightarrow> idx (tbs ! tb) k1 \<noteq> idx (tbs ! tb) k2)"
| "stage_ok tbs (All st want tb) \<longleftrightarrow>
     (case want of
        WGrow n \<Rightarrow> growing (All st want tb) \<noteq> None \<longrightarrow> bl_size tbs tb < LOAD_FACTOR * n
      | _ \<Rightarrow> want = WSlow) \<and>
     (case st of LockA i \<Rightarrow> i \<le> bl_size tbs tb | RetryA i cur \<Rightarrow> cur < length tbs | _ \<Rightarrow> True)"
| "stage_ok tbs p \<longleftrightarrow> True"

fun checked_key :: "bl_pc \<Rightarrow> usize option" where
  "checked_key (Chk st k tb) = (if st \<in> {Held2, Unlock2} then Some k else None)"
| "checked_key p = None"

definition pc_ok :: "HashTable list \<Rightarrow> nat option \<Rightarrow> usize \<Rightarrow> bl_pc \<Rightarrow> bool" where
  "pc_ok tbs cur k p \<longleftrightarrow>
     (\<forall>tb. at_table p = Some tb \<longrightarrow> tb < length tbs) \<and>
     (\<forall>tb. held_table p = Some tb \<longrightarrow> cur = Some tb) \<and>
     (\<forall>n. growing p = Some n \<longrightarrow> 0 < n \<and> int n \<le> 2 ^ 60) \<and>
     (\<forall>k'. checked_key p = Some k' \<longrightarrow> k = k') \<and>
     stage_ok tbs p"

definition tables_ok :: "bl_world \<Rightarrow> bool" where
  "tables_ok w \<longleftrightarrow> (\<forall>tb\<in>set (bl_tables w). table_ok tb) \<and>
     bl_current w = (if bl_tables w = [] then None else Some (length (bl_tables w) - 1)) \<and>
     sorted_wrt (<) (map (\<lambda>tb. length (entries tb)) (bl_tables w))"

definition owner_ok :: "bl_world \<Rightarrow> bool" where
  "owner_ok w \<longleftrightarrow> (\<forall>t b. bl_owner w b = Some t \<longleftrightarrow> b \<in> bl_holds (bl_tables w) (bl_pc w t))"

definition pcs_ok :: "bl_world \<Rightarrow> bool" where
  "pcs_ok w \<longleftrightarrow> (\<forall>t. pc_ok (bl_tables w) (bl_current w) (bl_key w t) (bl_pc w t))"

definition queue_ok :: "HashTable \<Rightarrow> (tid \<Rightarrow> usize) \<Rightarrow> (nat \<Rightarrow> tid list) \<Rightarrow> bool" where
  "queue_ok tb ks q \<longleftrightarrow> (\<forall>i<length (entries tb). distinct (q i) \<and> (\<forall>u\<in>set (q i). idx tb (ks u) = i))"

definition queues_ok :: "bl_world \<Rightarrow> bool" where
  "queues_ok w \<longleftrightarrow> (\<forall>tb. bl_current w = Some tb \<longrightarrow>
     queue_ok (bl_tables w ! tb) (bl_key w) (\<lambda>i. bl_queue w (tb, i)))"

definition parked_ok :: "bl_world \<Rightarrow> bool" where
  "parked_ok w \<longleftrightarrow> (\<forall>u. (parked w u \<longrightarrow> bl_alive w u \<and> \<not> enqueuing (bl_pc w u)) \<and>
     (enqueuing (bl_pc w u) \<longrightarrow> bl_alive w u))"

definition count_ok :: "bl_world \<Rightarrow> bool" where
  "count_ok w \<longleftrightarrow> finite {t. bl_alive w t} \<and> bl_num w = card {t. bl_alive w t}"

definition capacity_ok :: "bl_world \<Rightarrow> bool" where
  "capacity_ok w \<longleftrightarrow> bl_num w = 0 \<or>
     (\<exists>tb. bl_current w = Some tb \<and> LOAD_FACTOR * bl_num w \<le> bl_size (bl_tables w) tb) \<or>
     (\<exists>t n. growing (bl_pc w t) = Some n \<and> bl_num w \<le> n)"

section \<open>What an instruction does to the locks\<close>

lemmas code_defs = get_hashtable_code_def create_hashtable_code_def lock_bucket_code_def
  lock_bucket_checked_code_def lock_bucket_pair_code_def lock_all_code_def check_fast_code_def

lemmas code_splits = if_splits option.splits stage1.splits stage2.splits stage3.splits
  stageA.splits stageF.splits prod.splits want.splits

lemma use_table_holds [simp]: "bl_holds tbs' (use_table tbs want tb) = {}"
  by (cases want) auto

lemma use_table_parts [simp]:
  "held_table (use_table tbs want tb) = None"
  "checked_key (use_table tbs want tb) = None"
  "stage_ok tbs (use_table tbs want tb)"
  "at_table (use_table tbs want tb) = Some i \<Longrightarrow> i = tb"
  "growing (use_table tbs want tb) = Some n \<Longrightarrow> want = WGrow n"
  by (cases want; auto split: if_splits)+

lemma use_table_enqueuing [simp]: "enqueuing (use_table tbs want tb) \<longleftrightarrow> (\<exists>k. want = WOne k Enqueue)"
  by (cases "(tbs, want, tb)" rule: use_table.cases) (auto elim: enqueuing.elims)

lemma Jump_holds:
  "bl_code now w t p = Jump q \<Longrightarrow> stage_ok (bl_tables w) p \<Longrightarrow>
     bl_holds (bl_tables w) q = bl_holds (bl_tables w) p"
  by (cases p) (auto simp: code_defs Let_def split: code_splits)

lemma Acquire_holds:
  "bl_code now w t p = Acquire b q \<Longrightarrow> bl_holds (bl_tables w) q = insert b (bl_holds (bl_tables w) p)"
  by (cases p) (auto simp: code_defs Let_def min_def less_Suc_eq split: code_splits)

lemma Release_holds:
  assumes "bl_code now w t p = Release b q" and "stage_ok (bl_tables w) p"
  shows "b \<in> bl_holds (bl_tables w) p" and "bl_holds (bl_tables w) q = bl_holds (bl_tables w) p - {b}"
  using assms by (cases p; auto simp: code_defs Let_def min_def split: code_splits)+

lemma Section_holds:
  "bl_code now w t p = Section ks qs q \<Longrightarrow> bl_holds (bl_tables w) q = bl_holds (bl_tables w) p"
  by (cases p) (auto simp: code_defs Let_def split: code_splits)

lemma bl_holds_append:
  "(\<And>tb. at_table p = Some tb \<Longrightarrow> tb < length tbs) \<Longrightarrow> bl_holds (tbs @ [x]) p = bl_holds tbs p"
  by (cases p) (auto simp: bl_bucket_def bl_size_def nth_append Let_def split: code_splits)

section \<open>What an instruction does to its thread\<close>

lemma pc_okD:
  assumes "pc_ok tbs cur k p"
  shows "at_table p = Some tb \<Longrightarrow> tb < length tbs" "held_table p = Some tb \<Longrightarrow> cur = Some tb"
    "growing p = Some n \<Longrightarrow> 0 < n \<and> int n \<le> 2 ^ 60" "checked_key p = Some k' \<Longrightarrow> k = k'"
    "stage_ok tbs p"
  using assms by (auto simp: pc_ok_def)

lemma pc_okI:
  assumes "\<And>tb. at_table p = Some tb \<Longrightarrow> tb < length tbs"
    and "\<And>tb. held_table p = Some tb \<Longrightarrow> cur = Some tb"
    and "\<And>n. growing p = Some n \<Longrightarrow> 0 < n \<and> int n \<le> 2 ^ 60"
    and "\<And>k'. checked_key p = Some k' \<Longrightarrow> k = k'" and "stage_ok tbs p"
  shows "pc_ok tbs cur k p"
  using assms by (auto simp: pc_ok_def)

lemma tables_okD:
  assumes "tables_ok w"
  shows "bl_current w = Some tb \<Longrightarrow> tb < length (bl_tables w)"
    "bl_current w = None \<Longrightarrow> bl_tables w = []"
    "tb < length (bl_tables w) \<Longrightarrow> table_ok (bl_tables w ! tb)"
  using assms by (auto simp: tables_ok_def split: if_splits)

lemma stage_ok_append:
  "(\<And>tb. at_table p = Some tb \<Longrightarrow> tb < length tbs) \<Longrightarrow> stage_ok tbs p \<Longrightarrow> stage_ok (tbs @ [x]) p"
  by (cases p) (auto simp: bl_size_def nth_append split: code_splits)

lemma use_table_ok:
  assumes "tb < length tbs" and "\<And>n. want = WGrow n \<Longrightarrow> 0 < n \<and> int n \<le> 2 ^ 60"
  shows "pc_ok tbs cur k (use_table tbs want tb)"
  by (rule pc_okI) (use assms in \<open>auto dest!: use_table_parts(4,5)\<close>)

lemma growing_Get: "growing (Get want) = Some n \<longleftrightarrow> want = WGrow n"
  "growing (Create want) = Some n \<longleftrightarrow> want = WGrow n"
  by (cases want; auto)+

lemma enqueuing_Get: "enqueuing (Get want) \<longleftrightarrow> (\<exists>k. want = WOne k Enqueue)"
  "enqueuing (Create want) \<longleftrightarrow> (\<exists>k. want = WOne k Enqueue)"
  by (cases want; auto elim: enqueuing.elims)+

text \<open>A jump of a thread, with the table it may find to be large enough.\<close>

lemma Jump_ok:
  assumes "bl_code now w t p = Jump q" and "pc_ok (bl_tables w) (bl_current w) (bl_key w t) p"
    and "tables_ok w"
  shows "pc_ok (bl_tables w) (bl_current w) (bl_key w t) q"
proof (cases p)
  case (Get want)
  with assms show ?thesis
    by (auto simp: code_defs growing_Get dest: pc_okD(3) intro!: use_table_ok tables_okD(1)
        pc_okI split: option.splits)
next
  case (Create want)
  with assms show ?thesis
    by (auto simp: code_defs growing_Get dest: pc_okD(3) intro!: use_table_ok tables_okD(1)
        split: option.splits)
qed (use assms in \<open>auto simp: pc_ok_def code_defs Let_def growing_Get dest: tables_okD(1)
    split: code_splits\<close>)

lemma lock_ok:
  assumes "bl_code now w t p = Acquire b q \<or> bl_code now w t p = Release b q
      \<or> bl_code now w t p = Section ks qs q"
    and "pc_ok (bl_tables w) (bl_current w) (bl_key w t) p"
  shows "pc_ok (bl_tables w) (bl_current w) (bl_key w t) q"
  by (cases p) (use assms in \<open>auto simp: pc_ok_def code_defs Let_def growing_Get split: code_splits\<close>)

lemma Section_key:
  assumes "bl_code now w t p = Section ks qs q" and "ks u \<noteq> bl_key w u"
  shows "checked_key q = None" and "u = t \<or> (\<exists>k1 k2 us rs tb. p = Two Held3 k1 k2 us rs tb
    \<and> bl_key w u = k1 \<and> u \<in> set (bl_queue w (bl_bucket (bl_tables w) tb k1)))"
proof -
  show "checked_key q = None" using assms
    by (cases p) (auto simp: code_defs Let_def split: code_splits)
  show "u = t \<or> (\<exists>k1 k2 us rs tb. p = Two Held3 k1 k2 us rs tb
    \<and> bl_key w u = k1 \<and> u \<in> set (bl_queue w (bl_bucket (bl_tables w) tb k1)))"
  proof (cases p)
    case (One st k us tb)
    with assms show ?thesis
      by (cases us) (auto simp: code_defs Let_def split: code_splits)
  qed (use assms in \<open>auto simp: code_defs Let_def pair_body_def pair_moved_def bl_bucket_def
      split: code_splits\<close>)
qed

lemma Jump_growing:
  assumes "bl_code now w t p = Jump q" and "growing p = Some n"
  shows "growing q = Some n \<or>
    (\<exists>tb. bl_current w = Some tb \<and> LOAD_FACTOR * n \<le> bl_size (bl_tables w) tb)"
proof (cases p)
  case (All st want tb)
  with assms show ?thesis by (cases want) (auto simp: code_defs Let_def split: code_splits)
qed (use assms in \<open>auto simp: code_defs growing_Get Let_def split: option.splits if_splits\<close>)

lemma lock_growing:
  assumes "bl_code now w t p = Acquire b q \<or> bl_code now w t p = Release b q
      \<or> bl_code now w t p = Section ks qs q"
    and "growing p = Some n"
  shows "growing q = Some n"
proof (cases p)
  case (All st want tb)
  with assms show ?thesis by (cases want) (auto simp: code_defs Let_def split: code_splits)
qed (use assms in \<open>auto simp: code_defs growing_Get Let_def split: code_splits\<close>)

lemma code_enqueuing:
  assumes "bl_code now w t p = Jump q \<or> bl_code now w t p = Acquire b q
      \<or> bl_code now w t p = Release b q \<or> bl_code now w t p = Section ks qs q
      \<or> bl_code now w t p = Install tb qn q"
    and "enqueuing q" and "stage_ok (bl_tables w) p"
  shows "enqueuing p"
proof (cases p)
  case (One st k u tb)
  with assms show ?thesis by (cases u) (auto simp: code_defs enqueuing_Get Let_def split: code_splits)
next
  case (All st want tb)
  with assms show ?thesis
    by (cases want) (auto simp: code_defs enqueuing_Get Let_def split: code_splits)
qed (use assms in \<open>auto simp: code_defs enqueuing_Get Let_def split: code_splits\<close>)

text \<open>A table is published by the creator of the first one or by a thread that holds them all.\<close>

lemma Install_cases:
  assumes "bl_code now w t p = Install new qn q"
  obtains (first) want where "p = Create want" "bl_current w = None"
      "HashTable_new now LOAD_FACTOR = Some new" "qn = (\<lambda>_. [])"
      "q = use_table (bl_tables w @ [new]) want (length (bl_tables w))"
  | (grow) n tb where "p = All HeldA (WGrow n) tb" "HashTable_new now n = Some new"
      "qn = rehash w tb new" "q = All (UnlockA 0) (WGrow n) tb"
  using assms by (cases p) (auto simp: code_defs Let_def split: code_splits)

lemma Section_cases:
  assumes "bl_code now w t p = Section ks qs q"
  obtains (enq) k tb where "p = One Held1 k Enqueue tb" "ks = (bl_key w)(t := k)"
      "qs = (bl_queue w)(bl_bucket (bl_tables w) tb k := bl_queue w (bl_bucket (bl_tables w) tb k) @ [t])"
      "q = One Unlock1 k Enqueue tb"
  | (deq) k us tb where "p = One Held1 k (Dequeue us) tb" "ks = bl_key w"
      "qs = (bl_queue w)(bl_bucket (bl_tables w) tb k :=
         dequeue (set us) k (bl_key w) (bl_queue w (bl_bucket (bl_tables w) tb k)))"
      "q = One Unlock1 k (Dequeue us) tb"
  | (chk) k tb where "p = Chk Held2 k tb" "ks = bl_key w"
      "qs = (bl_queue w)(bl_bucket (bl_tables w) tb k :=
         filter (\<lambda>u. u \<noteq> t) (bl_queue w (bl_bucket (bl_tables w) tb k)))"
      "q = Chk Unlock2 k tb"
  | (two) k1 k2 us rs tb where "p = Two Held3 k1 k2 us rs tb"
      "(ks, qs) = pair_body k1 k2 us rs (bl_bucket (bl_tables w) tb k1)
         (bl_bucket (bl_tables w) tb k2) (bl_key w, bl_queue w)"
      "q = Two Unlock3 k1 k2 us rs tb"
proof (cases p)
  case (One st k u tb)
  with assms that(1,2) show ?thesis
    by (cases u) (auto simp: code_defs Let_def split: code_splits)
qed (use assms that(3,4) in \<open>auto simp: code_defs Let_def bl_bucket_def split: code_splits\<close>)

section \<open>The queues under the bodies of the critical sections\<close>

lemma queue_ok_sub:
  assumes "queue_ok tb ks q" and "\<And>i. i < length (entries tb) \<Longrightarrow> distinct (q' i) \<and> set (q' i) \<subseteq> set (q i)"
  shows "queue_ok tb ks q'"
  using assms unfolding queue_ok_def by blast

lemma queue_ok_filter:
  "queue_ok tb ks (\<lambda>i. qs (n, i)) \<Longrightarrow> queue_ok tb ks (\<lambda>i. (qs(b := filter P (qs b))) (n, i))"
  by (auto simp: queue_ok_def)

lemma queue_ok_enqueue:
  assumes "queue_ok tb ks (\<lambda>i. qs (n, i))" and "\<And>i. i < length (entries tb) \<Longrightarrow> t \<notin> set (qs (n, i))"
  shows "queue_ok tb (ks(t := k)) (\<lambda>i. (qs((n, idx tb k) := qs (n, idx tb k) @ [t])) (n, i))"
  using assms by (auto simp: queue_ok_def)

lemma queue_ok_requeue:
  assumes q: "queue_ok tb ks (\<lambda>i. qs (n, i))" and ok: "table_ok tb"
    and b: "pair_body k1 k2 us rs (n, idx tb k1) (n, idx tb k2) (ks, qs) = (ks', qs')"
  shows "queue_ok tb ks' (\<lambda>i. qs' (n, i))"
proof -
  let ?m = "pair_moved us rs k1 ks (qs (n, idx tb k1))"
  let ?q1 = "qs((n, idx tb k1) := dequeue (set us \<union> set rs) k1 ks (qs (n, idx tb k1)))"
  have ks': "ks' = (\<lambda>u. if u \<in> set ?m then k2 else ks u)"
    and qs': "qs' = ?q1((n, idx tb k2) := ?q1 (n, idx tb k2) @ ?m)"
    using b by (auto simp: pair_body_def Let_def)
  have m: "distinct ?m" "u \<in> set ?m \<Longrightarrow> u \<in> set (qs (n, idx tb k1)) \<and> ks u = k1" for u
    using q idx_hash(2) [OF ok] by (auto simp: queue_ok_def pair_moved_def)
  have q1: "queue_ok tb ks (\<lambda>i. ?q1 (n, i))"
    unfolding dequeue_def by (rule queue_ok_filter [OF q])
  have m1: "u \<notin> set (?q1 (n, i))" if "u \<in> set ?m" "i < length (entries tb)" for u i
  proof (cases "i = idx tb k1")
    case True
    then show ?thesis using that by (auto simp: dequeue_def pair_moved_def)
  next
    case False
    then show ?thesis using m(2) [OF that(1)] q that(2) by (auto simp: queue_ok_def)
  qed
  have d: "distinct (qs' (n, i))" if "i < length (entries tb)" for i
    using q1 m(1) m1 that unfolding qs' queue_ok_def by fastforce
  have i: "idx tb (ks' u) = i" if "i < length (entries tb)" "u \<in> set (qs' (n, i))" for i u
    using q1 m1 [OF _ that(1)] that unfolding qs' ks' queue_ok_def by (auto split: if_splits)
  from d i show ?thesis by (simp add: queue_ok_def)
qed

lemma pair_body_set:
  assumes "pair_body k1 k2 us rs b1 b2 (ks, qs) = (ks', qs')" and "u \<in> set (qs' b)"
  shows "u \<in> set (qs b) \<or> u \<in> set (qs b1)"
  using assms by (auto simp: pair_body_def pair_moved_def dequeue_def Let_def split: if_splits)

text \<open>Rehashing keeps every thread, once, and puts it where its key belongs.\<close>

lemma rehash_set:
  "u \<in> set (rehash w tb new i) \<longleftrightarrow> idx new (bl_key w u) = i \<and>
     (\<exists>j<bl_size (bl_tables w) tb. u \<in> set (bl_queue w (tb, j)))"
  by (auto simp: rehash_def)

lemma distinct_concat_disjoint:
  assumes "\<And>j. j < n \<Longrightarrow> distinct (f j)"
    and "\<And>i j. i < n \<Longrightarrow> j < n \<Longrightarrow> i \<noteq> j \<Longrightarrow> set (f i) \<inter> set (f j) = {}"
  shows "distinct (concat (map f [0..<n]))"
  using assms
proof (induction n)
  case (Suc n)
  then have "distinct (concat (map f [0..<n]))" "distinct (f n)" by simp_all
  moreover have "set (concat (map f [0..<n])) \<inter> set (f n) = {}"
    using Suc.prems(2) [of _ n] by (fastforce simp: less_Suc_eq)
  ultimately show ?case by simp
qed simp

lemma rehash_ok:
  assumes "queue_ok (bl_tables w ! tb) (bl_key w) (\<lambda>i. bl_queue w (tb, i))"
  shows "queue_ok new (bl_key w) (rehash w tb new)"
proof -
  have "distinct (rehash w tb new i)" for i
    unfolding rehash_def
  proof (rule distinct_concat_disjoint)
    fix a b assume "a < bl_size (bl_tables w) tb" "b < bl_size (bl_tables w) tb" "a \<noteq> b"
    moreover have "idx (bl_tables w ! tb) (bl_key w u) = j"
      if "j < bl_size (bl_tables w) tb" "u \<in> set (bl_queue w (tb, j))" for u j
      using assms that by (simp add: queue_ok_def bl_size_def)
    ultimately have "set (bl_queue w (tb, a)) \<inter> set (bl_queue w (tb, b)) = {}" by blast
    then show "set (filter (\<lambda>u. idx new (bl_key w u) = i) (bl_queue w (tb, a))) \<inter>
      set (filter (\<lambda>u. idx new (bl_key w u) = i) (bl_queue w (tb, b))) = {}" by auto
  qed (use assms in \<open>simp add: queue_ok_def bl_size_def\<close>)
  then show ?thesis by (auto simp: queue_ok_def rehash_set)
qed

section \<open>The invariant\<close>

definition bl_inv :: "bl_world \<Rightarrow> bool" where
  "bl_inv w \<longleftrightarrow> tables_ok w \<and> owner_ok w \<and> pcs_ok w \<and> queues_ok w \<and> parked_ok w \<and>
     count_ok w \<and> capacity_ok w"

lemma bl_invD:
  assumes "bl_inv w"
  shows "tables_ok w" "owner_ok w" "pcs_ok w" "queues_ok w" "parked_ok w" "count_ok w" "capacity_ok w"
  using assms by (auto simp: bl_inv_def)

lemma pcs_okD: "pcs_ok w \<Longrightarrow> pc_ok (bl_tables w) (bl_current w) (bl_key w t) (bl_pc w t)"
  by (simp add: pcs_ok_def)

lemma parked_upd [simp]:
  "parked (w\<lparr>bl_pc := f\<rparr>) = parked w" "parked (w\<lparr>bl_owner := ow\<rparr>) = parked w"
  "parked (w\<lparr>bl_num := n\<rparr>) = parked w" "parked (w\<lparr>bl_alive := a\<rparr>) = parked w"
  by (cases "bl_current w"; simp add: parked_def fun_eq_iff)+

lemma owner_okD: "owner_ok w \<Longrightarrow> bl_owner w b = Some t \<longleftrightarrow> b \<in> bl_holds (bl_tables w) (bl_pc w t)"
  by (simp add: owner_ok_def del: split_paired_All)

lemma owner_okI: "(\<And>b t. bl_owner w b = Some t \<longleftrightarrow> b \<in> bl_holds (bl_tables w) (bl_pc w t)) \<Longrightarrow> owner_ok w"
  by (simp add: owner_ok_def)

lemma bl_holds_unique:
  "owner_ok w \<Longrightarrow> b \<in> bl_holds (bl_tables w) (bl_pc w t) \<Longrightarrow> b \<in> bl_holds (bl_tables w) (bl_pc w u) \<Longrightarrow> t = u"
  by (metis owner_okD option.inject)

lemma parked_okD: "parked_ok w \<Longrightarrow> enqueuing (bl_pc w t) \<Longrightarrow> bl_alive w t \<and> \<not> parked w t"
  by (auto simp: parked_ok_def)

lemma capacity_step:
  assumes w: "capacity_ok w" "bl_num w' \<le> bl_num w"
    and cur: "\<And>tb. bl_current w = Some tb \<Longrightarrow>
      \<exists>tb'. bl_current w' = Some tb' \<and> bl_size (bl_tables w) tb \<le> bl_size (bl_tables w') tb'"
    and gr: "\<And>u n. growing (bl_pc w u) = Some n \<Longrightarrow> growing (bl_pc w' u) = Some n \<or>
      (\<exists>tb. bl_current w' = Some tb \<and> LOAD_FACTOR * n \<le> bl_size (bl_tables w') tb)"
  shows "capacity_ok w'"
proof -
  have table: "capacity_ok w'"
    if "bl_current w' = Some tb" "LOAD_FACTOR * n \<le> bl_size (bl_tables w') tb" "bl_num w \<le> n" for tb n
  proof -
    have "LOAD_FACTOR * bl_num w' \<le> LOAD_FACTOR * n" using w(2) that(3) by simp
    from order_trans [OF this that(2)] that(1) show ?thesis unfolding capacity_ok_def by blast
  qed
  consider "bl_num w = 0"
    | tb where "bl_current w = Some tb" "LOAD_FACTOR * bl_num w \<le> bl_size (bl_tables w) tb"
    | u n where "growing (bl_pc w u) = Some n" "bl_num w \<le> n"
    using w(1) by (auto simp: capacity_ok_def)
  then show ?thesis
  proof cases
    case 1
    then show ?thesis using w(2) by (simp add: capacity_ok_def)
  next
    case (2 tb)
    with cur obtain tb' where tb': "bl_current w' = Some tb'"
      "bl_size (bl_tables w) tb \<le> bl_size (bl_tables w') tb'" by blast
    show ?thesis by (rule table [OF tb'(1) order_trans [OF 2(2) tb'(2)]]) simp
  next
    case (3 u n)
    from gr [OF 3(1)] show ?thesis
    proof (elim disjE exE conjE)
      assume "growing (bl_pc w' u) = Some n"
      then show ?thesis using order_trans [OF w(2) 3(2)] unfolding capacity_ok_def by blast
    qed (rule table [OF _ _ 3(2)])
  qed
qed

text \<open>A jump or a lock operation changes the holders and the thread's own position only.\<close>

lemma move_inv:
  assumes inv: "bl_inv w" and q: "pc_ok (bl_tables w) (bl_current w) (bl_key w t) q"
    and ow: "\<And>b u. ow b = Some u \<longleftrightarrow> b \<in> bl_holds (bl_tables w) (if u = t then q else bl_pc w u)"
    and en: "enqueuing q \<Longrightarrow> bl_alive w t \<and> \<not> parked w t"
    and gr: "\<And>n. growing (bl_pc w t) = Some n \<Longrightarrow> growing q = Some n \<or>
        (\<exists>tb. bl_current w = Some tb \<and> LOAD_FACTOR * n \<le> bl_size (bl_tables w) tb)"
  shows "bl_inv (w\<lparr>bl_owner := ow, bl_pc := (bl_pc w)(t := q)\<rparr>)"
proof -
  let ?w = "w\<lparr>bl_owner := ow, bl_pc := (bl_pc w)(t := q)\<rparr>"
  note i = bl_invD [OF inv]
  have "tables_ok ?w" "queues_ok ?w" "count_ok ?w"
    using i(1,4,6) by (simp_all add: tables_ok_def queues_ok_def count_ok_def)
  moreover have "owner_ok ?w" by (rule owner_okI) (use ow in auto)
  moreover have "pcs_ok ?w" using i(3) q by (simp add: pcs_ok_def)
  moreover have "parked_ok ?w" using i(5) en by (auto simp: parked_ok_def)
  moreover have "capacity_ok ?w"
    by (rule capacity_step [OF i(7)]) (use gr in auto)
  ultimately show ?thesis by (simp add: bl_inv_def)
qed

lemma Jump_inv:
  assumes inv: "bl_inv w" and c: "bl_code now w t (bl_pc w t) = Jump q"
  shows "bl_inv (w\<lparr>bl_pc := (bl_pc w)(t := q)\<rparr>)"
proof -
  note i = bl_invD [OF inv] and p = pcs_okD [OF bl_invD(3) [OF inv], of t]
  have "bl_inv (w\<lparr>bl_owner := bl_owner w, bl_pc := (bl_pc w)(t := q)\<rparr>)"
  proof (rule move_inv [OF inv Jump_ok [OF c p i(1)]])
    show "bl_owner w b = Some u \<longleftrightarrow> b \<in> bl_holds (bl_tables w) (if u = t then q else bl_pc w u)" for b u
      using Jump_holds [OF c pc_okD(5) [OF p]] by (simp add: owner_okD [OF i(2)])
    show "bl_alive w t \<and> \<not> parked w t" if "enqueuing q"
      by (rule parked_okD [OF i(5) code_enqueuing [OF disjI1 [OF c] that pc_okD(5) [OF p]]])
  qed (rule Jump_growing [OF c])
  then show ?thesis by simp
qed

lemma Acquire_inv:
  assumes inv: "bl_inv w" and c: "bl_code now w t (bl_pc w t) = Acquire b q" and free: "bl_owner w b = None"
  shows "bl_inv (w\<lparr>bl_owner := (bl_owner w)(b := Some t), bl_pc := (bl_pc w)(t := q)\<rparr>)"
proof (rule move_inv [OF inv])
  note i = bl_invD [OF inv] and p = pcs_okD [OF bl_invD(3) [OF inv], of t]
  show "pc_ok (bl_tables w) (bl_current w) (bl_key w t) q" using lock_ok c p by blast
  show "((bl_owner w)(b := Some t)) b' = Some u \<longleftrightarrow>
      b' \<in> bl_holds (bl_tables w) (if u = t then q else bl_pc w u)" for b' u
    using free Acquire_holds [OF c] owner_okD [OF i(2), of b'] by auto
  show "bl_alive w t \<and> \<not> parked w t" if "enqueuing q"
    using c by (intro parked_okD [OF i(5) code_enqueuing [OF _ that pc_okD(5) [OF p]]]) blast
qed (use lock_growing c in blast)

lemma Release_inv:
  assumes inv: "bl_inv w" and c: "bl_code now w t (bl_pc w t) = Release b q"
  shows "bl_inv (w\<lparr>bl_owner := (bl_owner w)(b := None), bl_pc := (bl_pc w)(t := q)\<rparr>)"
proof (rule move_inv [OF inv])
  note i = bl_invD [OF inv] and p = pcs_okD [OF bl_invD(3) [OF inv], of t]
  note r = Release_holds [OF c pc_okD(5) [OF p]]
  show "pc_ok (bl_tables w) (bl_current w) (bl_key w t) q" using lock_ok c p by blast
  show "((bl_owner w)(b := None)) b' = Some u \<longleftrightarrow>
      b' \<in> bl_holds (bl_tables w) (if u = t then q else bl_pc w u)" for b' u
  proof (cases "u = t")
    case True
    then show ?thesis using r(2) owner_okD [OF i(2), of b' t] by simp
  next
    case False
    then have "b \<notin> bl_holds (bl_tables w) (bl_pc w u)" using bl_holds_unique [OF i(2) r(1)] by blast
    with False show ?thesis using owner_okD [OF i(2), of b' u] by auto
  qed
  show "bl_alive w t \<and> \<not> parked w t" if "enqueuing q"
    using c by (intro parked_okD [OF i(5) code_enqueuing [OF _ that pc_okD(5) [OF p]]]) blast
qed (use lock_growing c in blast)

text \<open>A thread that has found its table current holds one of its buckets.\<close>

lemma held_bucket:
  assumes "pc_ok tbs cur k p" and "held_table p = Some tb" and "table_ok (tbs ! tb)"
  shows "\<exists>i<bl_size tbs tb. (tb, i) \<in> bl_holds tbs p"
  using assms idx_hash(2) [OF assms(3)]
  by (cases p) (auto simp: bl_bucket_def bl_size_def Let_def min_def table_ok_def split: code_splits)

lemma Section_inv:
  assumes inv: "bl_inv w" and c: "bl_code now w t (bl_pc w t) = Section ks qs q"
  shows "bl_inv (w\<lparr>bl_key := ks, bl_queue := qs, bl_pc := (bl_pc w)(t := q)\<rparr>)" (is "bl_inv ?w")
proof -
  note i = bl_invD [OF inv] and p = pcs_okD [OF bl_invD(3) [OF inv]]
  obtain tb where h: "held_table (bl_pc w t) = Some tb" and q: "\<not> enqueuing q"
    using c by (cases rule: Section_cases) auto
  have cur: "bl_current w = Some tb" using pc_okD(2) [OF p h] .
  have tb: "tb < length (bl_tables w)" "table_ok (bl_tables w ! tb)"
    using tables_okD(1,3) [OF i(1)] cur by auto
  note ix = idx_hash(2) [OF tb(2)]
  have qok: "queue_ok (bl_tables w ! tb) (bl_key w) (\<lambda>i. bl_queue w (tb, i))"
    using i(4) cur by (simp add: queues_ok_def)
  have qs: "queue_ok (bl_tables w ! tb) ks (\<lambda>i. qs (tb, i)) \<and>
      (\<forall>i<bl_size (bl_tables w) tb. \<forall>u\<in>set (qs (tb, i)). parked w u \<or> u = t \<and> enqueuing (bl_pc w t))"
    using c
  proof (cases rule: Section_cases)
    case (enq k n)
    with h have n: "n = tb" by simp
    have "\<not> parked w t" using parked_okD [OF i(5)] enq(1) by simp
    then have "queue_ok (bl_tables w ! tb) ks (\<lambda>i. qs (tb, i))"
      unfolding enq(2,3) n bl_bucket_def
      by (intro queue_ok_enqueue [OF qok]) (auto simp: parked_def cur bl_size_def)
    then show ?thesis using enq by (auto simp: n parked_def cur bl_bucket_def)
  next
    case (deq k us n)
    with h have n: "n = tb" by simp
    have "queue_ok (bl_tables w ! tb) ks (\<lambda>i. qs (tb, i))"
      unfolding deq(2,3) dequeue_def by (rule queue_ok_filter [OF qok])
    then show ?thesis using deq by (auto simp: n parked_def cur bl_bucket_def dequeue_def split: if_splits)
  next
    case (chk k n)
    with h have n: "n = tb" by simp
    have "queue_ok (bl_tables w ! tb) ks (\<lambda>i. qs (tb, i))"
      unfolding chk(2,3) by (rule queue_ok_filter [OF qok])
    then show ?thesis using chk by (auto simp: n parked_def cur bl_bucket_def split: if_splits)
  next
    case (two k1 k2 us rs n)
    with h have n: "n = tb" by simp
    have b: "pair_body k1 k2 us rs (tb, idx (bl_tables w ! tb) k1) (tb, idx (bl_tables w ! tb) k2)
        (bl_key w, bl_queue w) = (ks, qs)"
      using two(2) by (simp add: bl_bucket_def n)
    have "parked w u" if "i < bl_size (bl_tables w) tb" "u \<in> set (qs (tb, i))" for i u
      using pair_body_set [OF b that(2)] that(1) ix [of k1] by (auto simp: parked_def cur bl_size_def)
    then show ?thesis using queue_ok_requeue [OF qok tb(2) b] by simp
  qed
  have pk: "parked w u \<or> u = t \<and> enqueuing (bl_pc w t)" if "parked ?w u" for u
    using that qs unfolding parked_def [of ?w] by (auto simp: cur)
  have key: "bl_key w u = ks u" if ck: "checked_key (bl_pc w u) \<noteq> None" and ut: "u \<noteq> t" for u
  proof (rule ccontr)
    assume ne: "bl_key w u \<noteq> ks u"
    obtain k1 k2 us rs n where t: "bl_pc w t = Two Held3 k1 k2 us rs n" and k: "bl_key w u = k1"
      using Section_key(2) [OF c, of u] ne ut by auto
    obtain st k' m where u: "bl_pc w u = Chk st k' m" "st \<in> {Held2, Unlock2}"
      using ck by (cases "bl_pc w u") (auto split: if_splits)
    have "m = n" using pc_okD(2) [OF p, of t n] pc_okD(2) [OF p, of u m] t u by auto
    moreover have "k' = k1" using pc_okD(4) [OF p, of u k'] u k by auto
    ultimately have "bl_bucket (bl_tables w) n k1 \<in> bl_holds (bl_tables w) (bl_pc w u)"
      "bl_bucket (bl_tables w) n k1 \<in> bl_holds (bl_tables w) (bl_pc w t)"
      using t u by (auto simp: bl_bucket_def)
    then show False using bl_holds_unique [OF i(2)] ut by blast
  qed
  have "tables_ok ?w" "count_ok ?w" using i(1,6) by (simp_all add: tables_ok_def count_ok_def)
  moreover have "owner_ok ?w"
    by (rule owner_okI) (use Section_holds [OF c] in \<open>auto simp: owner_okD [OF i(2)]\<close>)
  moreover have "pcs_ok ?w"
    unfolding pcs_ok_def
  proof
    fix u
    show "pc_ok (bl_tables ?w) (bl_current ?w) (bl_key ?w u) (bl_pc ?w u)"
    proof (cases "u = t")
      case True
      have "pc_ok (bl_tables w) (bl_current w) (bl_key w t) q" using lock_ok c p by blast
      then show ?thesis using True Section_key(1) [OF c, of t] by (cases "ks t = bl_key w t") (auto simp: pc_ok_def)
    next
      case False
      then show ?thesis using p [of u] key [OF _ False] by (auto simp: pc_ok_def)
    qed
  qed
  moreover have "queues_ok ?w" using qs cur by (simp add: queues_ok_def)
  moreover have "parked_ok ?w"
    using i(5) q pk by (auto simp: parked_ok_def)
  moreover have "capacity_ok ?w"
    by (rule capacity_step [OF i(7)]) (use lock_growing [OF disjI2 [OF disjI2 [OF c]]] in auto)
  ultimately show ?thesis by (simp add: bl_inv_def)
qed

text \<open>
  Publishing a table. A thread that has found the old table current holds a bucket of it,
  but the publisher holds them all.
\<close>

lemma Install_current:
  assumes inv: "bl_inv w" and c: "bl_code now w t (bl_pc w t) = Install new qn q" and u: "u \<noteq> t"
  shows "held_table (bl_pc w u) = None"
proof (rule ccontr)
  assume "held_table (bl_pc w u) \<noteq> None"
  then obtain tb where h: "held_table (bl_pc w u) = Some tb" by auto
  note i = bl_invD [OF inv] and p = pcs_okD [OF bl_invD(3) [OF inv]]
  have cur: "bl_current w = Some tb" by (rule pc_okD(2) [OF p h])
  obtain j where j: "j < bl_size (bl_tables w) tb" "(tb, j) \<in> bl_holds (bl_tables w) (bl_pc w u)"
    using held_bucket [OF p h] tables_okD(1,3) [OF i(1)] cur by blast
  from c show False
  proof (cases rule: Install_cases)
    case (grow n m)
    then have "m = tb" using pc_okD(2) [OF p, of t m] cur by simp
    then have "(tb, j) \<in> bl_holds (bl_tables w) (bl_pc w t)" using grow(1) j(1) by (simp add: Let_def)
    then show False using bl_holds_unique [OF i(2) j(2)] u by blast
  qed (use cur in simp)
qed

lemma Install_tables:
  assumes inv: "bl_inv w" and c: "bl_code now w t (bl_pc w t) = Install new qn q"
  shows "table_ok new" and "bl_current w = Some tb \<Longrightarrow> bl_size (bl_tables w) tb < length (entries new)"
    and "bl_holds (bl_tables w @ [new]) q = bl_holds (bl_tables w) (bl_pc w t)"
    and "pc_ok (bl_tables w @ [new]) (Some (length (bl_tables w))) (bl_key w t) q"
    and "growing (bl_pc w t) = Some n \<Longrightarrow> growing q = Some n \<or> LOAD_FACTOR * n \<le> length (entries new)"
proof -
  note i = bl_invD [OF inv] and p = pcs_okD [OF bl_invD(3) [OF inv], of t]
  have "table_ok new \<and> (bl_current w = Some tb \<longrightarrow> bl_size (bl_tables w) tb < length (entries new)) \<and>
    bl_holds (bl_tables w @ [new]) q = bl_holds (bl_tables w) (bl_pc w t) \<and>
    pc_ok (bl_tables w @ [new]) (Some (length (bl_tables w))) (bl_key w t) q \<and>
    (growing (bl_pc w t) = Some n \<longrightarrow> growing q = Some n \<or> LOAD_FACTOR * n \<le> length (entries new))"
    using c
  proof (cases rule: Install_cases)
    case (first want)
    have "table_ok new" by (rule HashTable_new_ok(1) [OF first(3)]) (simp add: LOAD_FACTOR_def)
    moreover have "pc_ok (bl_tables w @ [new]) (Some (length (bl_tables w))) (bl_key w t) q"
      unfolding first(5) using pc_okD(3) [OF p] first(1) by (intro use_table_ok) (auto simp: growing_Get)
    moreover have "growing q = Some n \<or> LOAD_FACTOR * n \<le> length (entries new)"
      if "growing (bl_pc w t) = Some n"
      using that unfolding first(1,5) by (auto simp: growing_Get bl_size_def)
    ultimately show ?thesis using first by simp
  next
    case (grow m b)
    have m: "0 < m" using pc_okD(3) [OF p, of m] grow(1) by simp
    note ok = HashTable_new_ok [OF grow(2) m]
    have b: "bl_current w = Some b" "b < length (bl_tables w)" "bl_size (bl_tables w) b < LOAD_FACTOR * m"
      using pc_okD(1,2,5) [OF p] grow(1) by auto
    have "bl_size (bl_tables w) b < length (entries new)" using b(3) ok(2) by linarith
    moreover have "bl_holds (bl_tables w @ [new]) q = bl_holds (bl_tables w) (bl_pc w t)"
      using grow(1,4) b(2) by (auto simp: bl_size_def nth_append)
    moreover have "pc_ok (bl_tables w @ [new]) (Some (length (bl_tables w))) (bl_key w t) q"
      using grow(4) b(2) by (simp add: pc_ok_def)
    ultimately show ?thesis using ok grow(1) b(1) by auto
  qed
  then show "table_ok new" "bl_current w = Some tb \<Longrightarrow> bl_size (bl_tables w) tb < length (entries new)"
    "bl_holds (bl_tables w @ [new]) q = bl_holds (bl_tables w) (bl_pc w t)"
    "pc_ok (bl_tables w @ [new]) (Some (length (bl_tables w))) (bl_key w t) q"
    "growing (bl_pc w t) = Some n \<Longrightarrow> growing q = Some n \<or> LOAD_FACTOR * n \<le> length (entries new)"
    by auto
qed

lemma Install_parked:
  assumes inv: "bl_inv w" and c: "bl_code now w t (bl_pc w t) = Install new qn q"
  shows "queue_ok new (bl_key w) qn"
    and "(\<exists>i<length (entries new). u \<in> set (qn i)) \<longleftrightarrow> parked w u"
proof -
  note i = bl_invD [OF inv] and p = pcs_okD [OF bl_invD(3) [OF inv], of t]
  have "queue_ok new (bl_key w) qn \<and> ((\<exists>i<length (entries new). u \<in> set (qn i)) \<longleftrightarrow> parked w u)"
    using c
  proof (cases rule: Install_cases)
    case (first want)
    then show ?thesis by (simp add: queue_ok_def parked_def)
  next
    case (grow m b)
    have cur: "bl_current w = Some b" using pc_okD(2) [OF p, of b] grow(1) by simp
    have "queue_ok new (bl_key w) qn"
      unfolding grow(3) by (rule rehash_ok) (use i(4) cur in \<open>simp add: queues_ok_def\<close>)
    moreover have "idx new (bl_key w u) < length (entries new)"
      by (rule idx_hash(2) [OF Install_tables(1) [OF inv c]])
    ultimately show ?thesis unfolding grow(3) by (auto simp: rehash_set parked_def cur)
  qed
  then show "queue_ok new (bl_key w) qn" "(\<exists>i<length (entries new). u \<in> set (qn i)) \<longleftrightarrow> parked w u"
    by auto
qed

lemma Install_inv:
  assumes inv: "bl_inv w" and c: "bl_code now w t (bl_pc w t) = Install new qn q"
    and w': "bl_exec w t (Install new qn q) = Some w'"
  shows "bl_inv w'"
proof -
  note i = bl_invD [OF inv] and p = pcs_okD [OF bl_invD(3) [OF inv]] and new = Install_tables [OF inv c]
  let ?n = "length (bl_tables w)"
  have w: "bl_tables w' = bl_tables w @ [new]" "bl_current w' = Some ?n" "bl_num w' = bl_num w"
    "bl_owner w' = bl_owner w" "bl_key w' = bl_key w" "bl_alive w' = bl_alive w"
    "bl_pc w' = (bl_pc w)(t := q)" "\<And>j. bl_queue w' (?n, j) = qn j"
    using w' by auto
  have at: "at_table (bl_pc w u) = Some tb \<Longrightarrow> tb < ?n" for u tb by (rule pc_okD(1) [OF p])
  have pk: "parked w' u \<longleftrightarrow> parked w u" for u
    using Install_parked(2) [OF inv c, of u] by (simp add: parked_def [of w'] w bl_size_def)
  have "sorted_wrt (<) (map (\<lambda>tb. length (entries tb)) (bl_tables w'))"
  proof (cases "bl_tables w" rule: rev_cases)
    case (snoc tbs tb)
    then have "bl_current w = Some (length tbs)" using i(1) by (simp add: tables_ok_def)
    from new(2) [OF this] snoc have "length (entries tb) < length (entries new)" by (simp add: bl_size_def)
    then show ?thesis using i(1) snoc by (fastforce simp: w tables_ok_def sorted_wrt_append)
  qed (simp add: w)
  then have "tables_ok w'" using i(1) new(1) by (auto simp: tables_ok_def w)
  moreover have "owner_ok w'"
  proof (rule owner_okI)
    fix b u
    have "bl_holds (bl_tables w @ [new]) (bl_pc w u) = bl_holds (bl_tables w) (bl_pc w u)"
      by (rule bl_holds_append) (rule at)
    then show "bl_owner w' b = Some u \<longleftrightarrow> b \<in> bl_holds (bl_tables w') (bl_pc w' u)"
      using owner_okD [OF i(2), of b u] new(3) by (simp add: w)
  qed
  moreover have "pcs_ok w'"
    unfolding pcs_ok_def
  proof
    fix u
    show "pc_ok (bl_tables w') (bl_current w') (bl_key w' u) (bl_pc w' u)"
    proof (cases "u = t")
      case True
      then show ?thesis using new(4) by (simp add: w)
    next
      case False
      have "stage_ok (bl_tables w @ [new]) (bl_pc w u)"
        by (rule stage_ok_append) (rule at, assumption, rule pc_okD(5) [OF p])
      moreover have "held_table (bl_pc w u) = None" by (rule Install_current [OF inv c False])
      ultimately show ?thesis using p [of u] False by (auto simp: w pc_ok_def)
    qed
  qed
  moreover have "queues_ok w'"
    using Install_parked(1) [OF inv c] by (simp add: queues_ok_def w)
  moreover have "parked_ok w'"
    using i(5) pk code_enqueuing [of now w t "bl_pc w t" q undefined undefined undefined new qn] c
      pc_okD(5) [OF p] by (auto simp: parked_ok_def w)
  moreover have "count_ok w'" using i(6) by (simp add: count_ok_def w)
  moreover have "capacity_ok w'"
  proof (rule capacity_step [OF i(7)])
    show "\<exists>tb'. bl_current w' = Some tb' \<and> bl_size (bl_tables w) tb \<le> bl_size (bl_tables w') tb'"
      if "bl_current w = Some tb" for tb
      using new(2) [OF that] by (simp add: w bl_size_def)
    show "growing (bl_pc w' u) = Some n \<or>
        (\<exists>tb. bl_current w' = Some tb \<and> LOAD_FACTOR * n \<le> bl_size (bl_tables w') tb)"
      if "growing (bl_pc w u) = Some n" for u n
      using new(5) [of n] that by (auto simp: w bl_size_def)
  qed (simp add: w)
  ultimately show ?thesis by (simp add: bl_inv_def)
qed

lemma bl_step_inv:
  assumes inv: "bl_inv w" and s: "bl_step now t w = Some w'"
  shows "bl_inv w'"
proof (cases "bl_code now w t (bl_pc w t)")
  case (Install new qn q)
  then show ?thesis by (intro Install_inv [OF inv Install]) (use s in \<open>simp add: bl_step_def\<close>)
qed (use s Jump_inv [OF inv] Acquire_inv [OF inv] Release_inv [OF inv] Section_inv [OF inv] in
    \<open>auto simp: bl_step_def split: option.splits\<close>)

section \<open>Calls keep the invariant\<close>

lemma idle_owner: "owner_ok w \<Longrightarrow> bl_pc w t = Idle \<Longrightarrow> bl_owner w b \<noteq> Some t"
  using owner_okD [of w b t] by simp

lemma bl_call_inv:
  assumes inv: "bl_inv w" and c: "bl_call t want w = Some w'"
  shows "bl_inv w'"
proof -
  note i = bl_invD [OF inv] and p = pcs_okD [OF bl_invD(3) [OF inv], of t]
  have idle: "bl_pc w t = Idle" and may: "may_call w t want"
    and w': "w' = w\<lparr>bl_pc := (bl_pc w)(t := Get want)\<rparr>"
    using c by (auto simp: bl_call_def split: if_splits)
  have "bl_inv (w\<lparr>bl_owner := bl_owner w, bl_pc := (bl_pc w)(t := Get want)\<rparr>)"
  proof (rule move_inv [OF inv])
    show "pc_ok (bl_tables w) (bl_current w) (bl_key w t) (Get want)"
      using may by (cases want) (auto simp: pc_ok_def)
    show "bl_owner w b = Some u \<longleftrightarrow> b \<in> bl_holds (bl_tables w) (if u = t then Get want else bl_pc w u)"
      for b u
      using owner_okD [OF i(2), of b u] idle_owner [OF i(2) idle, of b] by auto
    show "bl_alive w t \<and> \<not> parked w t" if "enqueuing (Get want)"
      using that may by (auto simp: enqueuing_Get)
  qed (simp add: idle)
  then show ?thesis by (simp add: w')
qed

lemma bl_new_inv:
  assumes inv: "bl_inv w" and c: "bl_new t w = Some w'"
  shows "bl_inv w'"
proof -
  note i = bl_invD [OF inv]
  have idle: "bl_pc w t = Idle" and al: "\<not> bl_alive w t" and n: "int (bl_num w) < 2 ^ 60"
    and w': "w' = w\<lparr>bl_num := Suc (bl_num w), bl_alive := (bl_alive w)(t := True),
       bl_pc := (bl_pc w)(t := Get (WGrow (Suc (bl_num w))))\<rparr>"
    using c by (auto simp: bl_new_def split: if_splits)
  have "{u. bl_alive w' u} = insert t {u. bl_alive w u}" by (auto simp: w')
  then have "count_ok w'" using i(6) al by (simp add: count_ok_def w')
  moreover have "capacity_ok w'"
    unfolding capacity_ok_def by (intro disjI2 exI [of _ t] exI [of _ "bl_num w'"]) (simp add: w')
  moreover have "owner_ok w'"
  proof (rule owner_okI)
    show "bl_owner w' b = Some u \<longleftrightarrow> b \<in> bl_holds (bl_tables w') (bl_pc w' u)" for b u
      using owner_okD [OF i(2), of b u] idle_owner [OF i(2) idle, of b] by (auto simp: w')
  qed
  moreover have "pcs_ok w'"
    using i(3) n by (auto simp: pcs_ok_def w' pc_ok_def)
  moreover have "parked_ok w'"
    using i(5) by (auto simp: parked_ok_def w')
  moreover have "tables_ok w'" "queues_ok w'" using i(1,4) by (simp_all add: w' tables_ok_def queues_ok_def)
  ultimately show ?thesis by (simp add: bl_inv_def)
qed

lemma bl_drop_inv:
  assumes inv: "bl_inv w" and c: "bl_drop t w = Some w'"
  shows "bl_inv w'"
proof -
  note i = bl_invD [OF inv]
  have idle: "bl_pc w t = Idle" and al: "bl_alive w t" and np: "\<not> parked w t"
    and w': "w' = w\<lparr>bl_num := bl_num w - 1, bl_alive := (bl_alive w)(t := False)\<rparr>"
    using c by (auto simp: bl_drop_def split: if_splits)
  have "{u. bl_alive w' u} = {u. bl_alive w u} - {t}" by (auto simp: w')
  then have "count_ok w'" using i(6) al by (simp add: count_ok_def w')
  moreover have "capacity_ok w'"
    by (rule capacity_step [OF i(7)]) (auto simp: w')
  moreover have "parked_ok w'"
    using i(5) idle np by (auto simp: parked_ok_def w')
  moreover have "owner_ok w'"
    by (rule owner_okI) (simp add: w' owner_okD [OF i(2)])
  moreover have "pcs_ok w'" "tables_ok w'" "queues_ok w'"
    using i(1,3,4) by (simp_all add: w' tables_ok_def queues_ok_def pcs_ok_def)
  ultimately show ?thesis by (simp add: bl_inv_def)
qed

theorem bl_reach_inv: "bl_reach w \<Longrightarrow> bl_inv w"
proof (induction rule: bl_reach.induct)
  case by_start
  show ?case
    by (auto simp: bl_init_def bl_inv_def tables_ok_def owner_ok_def pcs_ok_def pc_ok_def queues_ok_def
        parked_ok_def parked_def count_ok_def capacity_ok_def)
qed (auto intro: bl_step_inv bl_call_inv bl_new_inv bl_drop_inv)

end
