(* ===== verification/Bucket_Progress.thy ===== *)
theory Bucket_Progress
  imports Bucket_Locks
begin

text \<open>
  The calls that lock buckets return. Buckets are locked in the order of their indices, so a
  chain of threads that wait for each other ends in one that can run; and a thread starts over
  only after another one has published a table or requeued it, which each call does at most
  once. Hence every run without new calls is finite and ends with all calls returned.
\<close>

section \<open>Locks taken in an order\<close>

text \<open>
  Threads that own and wait for locks: a thread that owns one lock waits only for locks of
  smaller rank. Then whoever waits, some thread is not stuck.
\<close>

locale ordered_locks =
  fixes inv :: "'s \<Rightarrow> bool"
    and owner :: "'s \<Rightarrow> 'b \<Rightarrow> 't option"
    and waits :: "'s \<Rightarrow> 't \<Rightarrow> 'b option"
    and rank :: "'s \<Rightarrow> 'b \<Rightarrow> nat"
  assumes ordered: "inv s \<Longrightarrow> owner s b = Some t \<Longrightarrow> waits s t = Some c \<Longrightarrow> rank s c < rank s b"
begin

definition stuck :: "'s \<Rightarrow> 't \<Rightarrow> bool" where
  "stuck s t \<longleftrightarrow> (\<exists>b u. waits s t = Some b \<and> owner s b = Some u)"

lemma some_holder_runs:
  assumes "inv s" and "owner s b = Some t"
  shows "\<exists>c u. owner s c = Some u \<and> \<not> stuck s u"
  using assms(2)
proof (induction "rank s b" arbitrary: b t rule: less_induct)
  case less
  show ?case
  proof (cases "stuck s t")
    case True
    then obtain c u where "waits s t = Some c" "owner s c = Some u" by (auto simp: stuck_def)
    with less.hyps [of c u] ordered [OF assms(1) less.prems] show ?thesis by blast
  qed (use less.prems in blast)
qed

lemma no_deadlock:
  assumes "inv s"
  shows "\<not> stuck s t \<or> (\<exists>c u. owner s c = Some u \<and> \<not> stuck s u)"
  using some_holder_runs [OF assms] stuck_def by metis

end

section \<open>The order of the buckets\<close>

definition bl_waits :: "bl_world \<Rightarrow> tid \<Rightarrow> bptr option" where
  "bl_waits w t = (case bl_code 0 w t (bl_pc w t) of Acquire b q \<Rightarrow> Some b | _ \<Rightarrow> None)"

definition bl_rank :: "bl_world \<Rightarrow> bptr \<Rightarrow> nat" where
  "bl_rank w b = bl_size (bl_tables w) (fst b) - snd b"

lemma bl_waits_Acquire: "bl_waits w t = Some b \<longleftrightarrow> (\<exists>q. bl_code 0 w t (bl_pc w t) = Acquire b q)"
  by (auto simp: bl_waits_def split: bl_instr.splits)

text \<open>
  A thread that holds a bucket and waits for another one is in \<open>lock_bucket_pair\<close> or in one
  of the loops over all buckets; the bucket it waits for has the larger index.
\<close>

lemma waits_above:
  assumes inv: "bl_inv w" and b: "b \<in> bl_holds (bl_tables w) (bl_pc w t)" and c: "bl_waits w t = Some c"
  shows "fst c = fst b" and "snd b < snd c" and "snd c < bl_size (bl_tables w) (fst c)"
proof -
  note i = bl_invD [OF inv] and p = pcs_okD [OF bl_invD(3) [OF inv], of t]
  obtain q where q: "bl_code 0 w t (bl_pc w t) = Acquire c q" using c by (auto simp: bl_waits_Acquire)
  have "fst c = fst b \<and> snd b < snd c \<and> snd c < bl_size (bl_tables w) (fst c)"
  proof (cases "bl_pc w t")
    case (Two st k1 k2 us rs tb)
    then have "st = Second3"
      using q b by (auto simp: code_defs Let_def split: stage3.splits prod.splits)
    moreover have "idx (bl_tables w ! tb) k < length (entries (bl_tables w ! tb))" for k
      using pc_okD(1) [OF p] tables_okD(3) [OF i(1)] Two by (intro idx_hash(2)) auto
    ultimately show ?thesis
      using q b pc_okD(5) [OF p] Two by (auto simp: code_defs Let_def min_def bl_size_def split: if_splits)
  next
    case (All st want tb)
    then show ?thesis using q b by (auto simp: code_defs Let_def split: code_splits)
  next
    case (Get want)
    then show ?thesis using b by simp
  next
    case (Create want)
    then show ?thesis using b by simp
  qed (use q b in \<open>auto simp: code_defs Let_def split: code_splits\<close>)
  then show "fst c = fst b" "snd b < snd c" "snd c < bl_size (bl_tables w) (fst c)" by auto
qed

interpretation bl: ordered_locks bl_inv bl_owner bl_waits bl_rank
proof
  fix w b t c
  assume inv: "bl_inv w" and o: "bl_owner w b = Some t" and c: "bl_waits w t = Some c"
  have "b \<in> bl_holds (bl_tables w) (bl_pc w t)" using o owner_okD [OF bl_invD(2) [OF inv]] by blast
  from waits_above [OF inv this c] show "bl_rank w c < bl_rank w b" by (simp add: bl_rank_def)
qed

section \<open>A thread that is not stuck takes a step\<close>

lemma bl_step_blocked:
  assumes inv: "bl_inv w" and p: "bl_pc w t \<noteq> Idle" and nb: "\<not> bl.stuck w t"
  shows "\<exists>w'. bl_step now t w = Some w'"
proof -
  note i = bl_invD [OF inv] and ok = pcs_okD [OF bl_invD(3) [OF inv], of t]
  have stop: "bl_code now w t (bl_pc w t) \<noteq> Stop"
  proof (cases "bl_pc w t")
    case (Create want)
    obtain tb where "HashTable_new now LOAD_FACTOR = Some tb"
      using HashTable_new_Some [of LOAD_FACTOR now] by (auto simp: LOAD_FACTOR_def)
    with Create show ?thesis by (auto simp: code_defs split: option.splits)
  next
    case (All st want tb)
    have "bl_current w \<noteq> None"
      using tables_okD(2) [OF i(1)] pc_okD(1) [OF ok, of tb] All by fastforce
    moreover have "\<exists>x. HashTable_new now n = Some x" if "want = WGrow n" "st = HeldA" for n
    proof (rule HashTable_new_Some)
      have "0 < n \<and> int n \<le> 2 ^ 60" using pc_okD(3) [OF ok, of n] All that by simp
      then have "0 < n" "int n * 3 \<le> 2 ^ 62" by auto
      then have "int (n * 3) \<le> int (2 ^ 62)" by simp
      then show "n * LOAD_FACTOR \<le> 2 ^ 62" unfolding LOAD_FACTOR_def by (simp only: of_nat_le_iff)
      show "0 < n" by fact
    qed
    ultimately show ?thesis
      using All by (cases want) (auto simp: code_defs Let_def split: stageA.splits)
  qed (use p in \<open>auto simp: code_defs Let_def split: code_splits\<close>)
  have acq: "bl_owner w b = None" if "bl_code now w t (bl_pc w t) = Acquire b q" for b q
  proof -
    have "bl_code 0 w t (bl_pc w t) = Acquire b q"
      using that by (cases "bl_pc w t") (auto simp: code_defs Let_def split: code_splits)
    then have "bl_waits w t = Some b" by (auto simp: bl_waits_Acquire)
    with nb show ?thesis by (auto simp: bl.stuck_def)
  qed
  show ?thesis
    using stop acq by (cases "bl_code now w t (bl_pc w t)") (auto simp: bl_step_def)
qed

lemma bl_someone_runs:
  assumes inv: "bl_inv w" and p: "bl_pc w t \<noteq> Idle"
  shows "\<exists>u w'. bl_step now u w = Some w'"
proof -
  have "bl_pc w u \<noteq> Idle" if "bl_owner w c = Some u" for c u
    using idle_owner [OF bl_invD(2) [OF inv]] that by blast
  then show ?thesis using bl.no_deadlock [OF inv, of t] bl_step_blocked [OF inv, of _ now] p by blast
qed

section \<open>No call starts over for ever\<close>

text \<open>
  The calls that can still make others start over: growers before they publish, requeuers
  before they requeue.
\<close>

fun disturbs :: "bl_pc \<Rightarrow> bool" where
  "disturbs (Get (WPair k1 k2 us rs)) \<longleftrightarrow> True"
| "disturbs (Create (WPair k1 k2 us rs)) \<longleftrightarrow> True"
| "disturbs (Two st k1 k2 us rs tb) \<longleftrightarrow> st \<notin> {Unlock3, Other3}"
| "disturbs p \<longleftrightarrow> growing p \<noteq> None"

text \<open>
  The steps a call still needs if nothing is published and its thread is not requeued; a
  stale table or key costs one round more.
\<close>

definition round :: "HashTable list \<Rightarrow> nat option \<Rightarrow> nat" where
  "round tbs cur = (case cur of None \<Rightarrow> 10 | Some tb \<Rightarrow> 3 * bl_size tbs tb + 10)"

fun cost :: "HashTable list \<Rightarrow> nat option \<Rightarrow> usize \<Rightarrow> bl_pc \<Rightarrow> nat" where
  "cost tbs cur ky Idle = 0"
| "cost tbs cur ky (Get want) = round tbs cur + 1"
| "cost tbs cur ky (Create want) = round tbs cur"
| "cost tbs cur ky (One st k u tb) =
     (let stale = (if cur = Some tb then 0 else round tbs cur) in
      case st of Lock1 \<Rightarrow> stale + 4 | Check1 \<Rightarrow> stale + 3 | Retry1 \<Rightarrow> round tbs cur + 2
      | Held1 \<Rightarrow> 2 | Unlock1 \<Rightarrow> 1)"
| "cost tbs cur ky (Chk st k tb) =
     (let stale = (if cur = Some tb \<and> ky = k then 0 else round tbs cur) in
      case st of Load2 \<Rightarrow> (if cur = Some tb then 6 else round tbs cur + 6)
      | Lock2 \<Rightarrow> stale + 5 | Check2 \<Rightarrow> stale + 4
      | Key2 \<Rightarrow> (if ky = k then 3 else round tbs cur + 3)
      | Retry2 \<Rightarrow> round tbs cur + 2 | Held2 \<Rightarrow> 2 | Unlock2 \<Rightarrow> 1)"
| "cost tbs cur ky (Two st k1 k2 us rs tb) =
     (let stale = (if cur = Some tb then 0 else round tbs cur) in
      case st of Lock3 \<Rightarrow> stale + 7 | Check3 \<Rightarrow> stale + 6 | Retry3 \<Rightarrow> round tbs cur + 2
      | Second3 \<Rightarrow> 5 | Held3 \<Rightarrow> 4 | Unlock3 \<Rightarrow> 3 | Other3 \<Rightarrow> 2)"
| "cost tbs cur ky (All st want tb) =
     (let n = bl_size tbs tb; stale = (if cur = Some tb then 0 else round tbs cur) in
      case st of LockA i \<Rightarrow> (n - i) + n + stale + 5 | CheckA \<Rightarrow> n + stale + 4
      | RetryA i c \<Rightarrow> (n - i) + (if cur = Some c then round tbs cur + 3
          else 2 * bl_size tbs c + round tbs cur + 6)
      | HeldA \<Rightarrow> n + 3 | UnlockA i \<Rightarrow> (n - i) + 2)"
| "cost tbs cur ky (Fast st tb) =
     (let n = bl_size tbs tb in
      case st of LockF i \<Rightarrow> 3 * (n - i) + 1 | ReadF i \<Rightarrow> 3 * (n - i - 1) + 2)"

definition bl_cost :: "bl_world \<Rightarrow> tid \<Rightarrow> nat" where
  "bl_cost w t = cost (bl_tables w) (bl_current w) (bl_key w t) (bl_pc w t)"

definition bl_pending :: "tid set \<Rightarrow> bl_world \<Rightarrow> nat" where
  "bl_pending T w = card {t \<in> T. disturbs (bl_pc w t)} + (if bl_current w = None then 1 else 0)"

lemma use_table_cost:
  "cost tbs (Some tb) ky (use_table tbs want tb) < round tbs (Some tb)"
  by (cases want) (auto simp: round_def)

lemma disturbs_Create: "disturbs (Create want) \<longleftrightarrow> disturbs (Get want)"
  by (cases want) auto

lemma disturbs_use_table: "disturbs (use_table tbs want tb) \<Longrightarrow> disturbs (Get want)"
  by (cases want) (auto split: if_splits)

lemma code_cost:
  assumes "bl_code now w t p = Jump q \<or> bl_code now w t p = Acquire b q \<or> bl_code now w t p = Release b q
    \<or> bl_code now w t p = Section ks qs q"
  shows "cost (bl_tables w) (bl_current w) (bl_key w t) q < cost (bl_tables w) (bl_current w) (bl_key w t) p"
proof (cases p)
  case (Get want)
  with assms use_table_cost [of "bl_tables w" _ "bl_key w t" want] show ?thesis
    by (auto simp: code_defs less_Suc_eq split: option.splits)
next
  case (Create want)
  with assms use_table_cost [of "bl_tables w" _ "bl_key w t" want] show ?thesis
    by (auto simp: code_defs split: option.splits)
next
  case (All st want tb)
  with assms show ?thesis by (auto simp: code_defs Let_def round_def split: code_splits)
qed (use assms in \<open>auto simp: code_defs Let_def split: code_splits\<close>)

lemma code_disturbs:
  assumes "bl_code now w t p = Jump q \<or> bl_code now w t p = Acquire b q \<or> bl_code now w t p = Release b q
    \<or> bl_code now w t p = Section ks qs q \<or> bl_code now w t p = Install tb qn q"
    and "disturbs q" and "stage_ok (bl_tables w) p"
  shows "disturbs p"
proof (cases p)
  case (All st want tb)
  with assms show ?thesis by (cases want) (auto simp: code_defs Let_def split: code_splits)
qed (use assms in \<open>auto simp: code_defs Let_def disturbs_Create dest: disturbs_use_table split: code_splits\<close>)

lemma bl_pending_le:
  assumes "finite T" and pc: "bl_pc w' = (bl_pc w)(t := q)" and d: "disturbs q \<Longrightarrow> disturbs (bl_pc w t)"
    and c: "bl_current w \<noteq> None \<Longrightarrow> bl_current w' \<noteq> None"
  shows "bl_pending T w' \<le> bl_pending T w"
    and "t \<in> T \<Longrightarrow> disturbs (bl_pc w t) \<Longrightarrow> \<not> disturbs q \<Longrightarrow> bl_pending T w' < bl_pending T w"
    and "bl_current w = None \<Longrightarrow> bl_current w' \<noteq> None \<Longrightarrow> bl_pending T w' < bl_pending T w"
proof -
  let ?D = "\<lambda>w. {t \<in> T. disturbs (bl_pc w t)}"
  have sub: "?D w' \<subseteq> ?D w" using d by (auto simp: pc split: if_splits)
  have fin: "finite (?D w)" using assms(1) by simp
  note le = card_mono [OF fin sub]
  show "bl_pending T w' \<le> bl_pending T w" using le c by (auto simp: bl_pending_def)
  show "bl_pending T w' < bl_pending T w" if "t \<in> T" "disturbs (bl_pc w t)" "\<not> disturbs q"
  proof -
    have "?D w' \<subset> ?D w" using sub that by (auto simp: pc)
    from psubset_card_mono [OF fin this] c show ?thesis by (auto simp: bl_pending_def)
  qed
  show "bl_pending T w' < bl_pending T w" if "bl_current w = None" "bl_current w' \<noteq> None"
    using le that by (auto simp: bl_pending_def)
qed

lemma bl_step_decreases:
  assumes inv: "bl_inv w" and s: "bl_step now t w = Some w'" and T: "finite T" "t \<in> T"
  shows "bl_pending T w' < bl_pending T w \<or>
    bl_pending T w' \<le> bl_pending T w \<and> sum (bl_cost w') T < sum (bl_cost w) T"
proof -
  let ?p = "bl_pc w t"
  note st = pc_okD(5) [OF pcs_okD [OF bl_invD(3) [OF inv], of t]]
  have cost: "sum (bl_cost w') T < sum (bl_cost w) T"
    if "bl_cost w' t < bl_cost w t" "\<And>u. u \<noteq> t \<Longrightarrow> bl_cost w' u = bl_cost w u"
  proof (rule sum_strict_mono_ex1 [OF T(1)])
    show "\<forall>u\<in>T. bl_cost w' u \<le> bl_cost w u" using that by (metis le_less)
    show "\<exists>u\<in>T. bl_cost w' u < bl_cost w u" using T(2) that(1) by blast
  qed
  have easy: ?thesis
    if "bl_code now w t ?p = Jump q \<or> bl_code now w t ?p = Acquire b q \<or> bl_code now w t ?p = Release b q"
      and w': "bl_tables w' = bl_tables w" "bl_current w' = bl_current w" "bl_key w' = bl_key w"
        "bl_pc w' = (bl_pc w)(t := q)" for q b
  proof (intro disjI2 conjI)
    show "bl_pending T w' \<le> bl_pending T w"
      using that(1) w'(2) by (intro bl_pending_le(1) [OF T(1) w'(4)]) (auto intro: code_disturbs [OF _ _ st])
    show "sum (bl_cost w') T < sum (bl_cost w) T"
      using code_cost [of now w t ?p q b] that by (intro cost) (auto simp: bl_cost_def)
  qed
  show ?thesis
  proof (cases "bl_code now w t ?p")
    case (Jump q)
    then show ?thesis using s by (intro easy [of q undefined]) (auto simp: bl_step_def)
  next
    case (Acquire b q)
    then show ?thesis using s by (intro easy [of q b]) (auto simp: bl_step_def split: option.splits)
  next
    case (Release b q)
    then show ?thesis using s by (intro easy [of q b]) (auto simp: bl_step_def)
  next
    case (Section ks qs q)
    then have w': "w' = w\<lparr>bl_key := ks, bl_queue := qs, bl_pc := (bl_pc w)(t := q)\<rparr>"
      using s by (simp add: bl_step_def)
    have pc: "bl_pc w' = (bl_pc w)(t := q)" "bl_current w' = bl_current w" by (simp_all add: w')
    note pend = bl_pending_le [OF T(1) pc(1)]
    have own: ?thesis
      if q: "\<not> disturbs q" "\<And>k. cost (bl_tables w) (bl_current w) k q = 1"
        "cost (bl_tables w) (bl_current w) (bl_key w t) ?p = 2" "\<And>u. u \<noteq> t \<Longrightarrow> ks u = bl_key w u"
    proof (intro disjI2 conjI)
      show "bl_pending T w' \<le> bl_pending T w" using q(1) pc(2) by (intro pend(1)) auto
      show "sum (bl_cost w') T < sum (bl_cost w) T"
        by (rule cost) (use q in \<open>simp_all add: bl_cost_def w'\<close>)
    qed
    from Section show ?thesis
    proof (cases rule: Section_cases)
      case (two k1 k2 us rs tb)
      then show ?thesis using pend(2) T(2) pc(2) by auto
    qed (intro own; simp)+
  next
    case (Install new qn q)
    then have pc: "bl_pc w' = (bl_pc w)(t := q)" "bl_current w' \<noteq> None"
      using s by (auto simp: bl_step_def)
    have d: "disturbs q \<Longrightarrow> disturbs ?p" using Install by (auto intro: code_disturbs [OF _ _ st])
    note pend = bl_pending_le [OF T(1) pc(1)]
    from Install show ?thesis
    proof (cases rule: Install_cases)
      case (first want)
      then show ?thesis using pend(3) [OF d] pc(2) by blast
    next
      case (grow n tb)
      then show ?thesis using pend(2) [OF d] pc(2) T(2) by simp
    qed
  qed (use s in \<open>simp add: bl_step_def\<close>)
qed

section \<open>Runs without new calls\<close>

definition bl_runs :: "bl_world \<Rightarrow> bl_world \<Rightarrow> bool" where
  "bl_runs w w' \<longleftrightarrow> (\<exists>t now. bl_step now t w = Some w')"

definition bl_active :: "bl_world \<Rightarrow> tid set" where
  "bl_active w = {t. bl_pc w t \<noteq> Idle}"

lemma bl_step_pc:
  assumes "bl_step now t w = Some w'"
  shows "bl_pc w t \<noteq> Idle" and "u \<noteq> t \<Longrightarrow> bl_pc w' u = bl_pc w u"
  using assms by (cases "bl_code now w t (bl_pc w t)"; auto simp: bl_step_def split: option.splits)+

lemma bl_step_active:
  assumes "bl_step now t w = Some w'"
  shows "bl_active w' \<subseteq> bl_active w"
proof
  fix u assume "u \<in> bl_active w'"
  then show "u \<in> bl_active w"
    using bl_step_pc(1) [OF assms] bl_step_pc(2) [OF assms, of u] by (cases "u = t") (auto simp: bl_active_def)
qed

lemma bl_call_active:
  "bl_call t want w = Some w' \<Longrightarrow> bl_active w' \<subseteq> insert t (bl_active w)"
  "bl_new t w = Some w' \<Longrightarrow> bl_active w' \<subseteq> insert t (bl_active w)"
  "bl_drop t w = Some w' \<Longrightarrow> bl_active w' \<subseteq> insert t (bl_active w)"
  by (auto simp: bl_call_def bl_new_def bl_drop_def bl_active_def split: if_splits)

lemma bl_reach_active: "bl_reach w \<Longrightarrow> finite (bl_active w)"
proof (induction rule: bl_reach.induct)
  case by_start
  show ?case by (simp add: bl_active_def bl_init_def)
qed (blast dest: bl_step_active bl_call_active intro: finite_subset)+

definition bl_meas :: "tid set \<Rightarrow> bl_world \<Rightarrow> nat \<times> nat" where
  "bl_meas T w = (bl_pending T w, sum (bl_cost w) T)"

lemma bl_runs_wf: "finite T \<Longrightarrow> wf {(w', w). bl_inv w \<and> bl_active w \<subseteq> T \<and> bl_runs w w'}"
proof (rule wf_subset [OF wf_inv_image [where f = "bl_meas T", OF wf_lex_prod [OF wf_less_than wf_less_than]]])
  assume T: "finite T"
  show "{(w', w). bl_inv w \<and> bl_active w \<subseteq> T \<and> bl_runs w w'} \<subseteq> inv_image (less_than <*lex*> less_than) (bl_meas T)"
  proof clarsimp
    fix w' w assume inv: "bl_inv w" and a: "bl_active w \<subseteq> T" and r: "bl_runs w w'"
    from r obtain t now where s: "bl_step now t w = Some w'" by (auto simp: bl_runs_def)
    with a have "t \<in> T" using bl_step_pc(1) by (auto simp: bl_active_def)
    from bl_step_decreases [OF inv s T this]
    show "(bl_meas T w', bl_meas T w) \<in> less_than <*lex*> less_than" by (auto simp: bl_meas_def)
  qed
qed

lemma bl_runs_reach: "bl_reach w \<Longrightarrow> bl_runs\<^sup>*\<^sup>* w w' \<Longrightarrow> bl_reach w'"
  by (rotate_tac 1, induction rule: rtranclp_induct) (auto simp: bl_runs_def intro: by_code)

end
