(* ===== verification/Bucket_Claims.thy ===== *)
theory Bucket_Claims
  imports Bucket_Progress
begin

text \<open>
  What the locking of buckets guarantees to the functions of the parking lot: in a critical
  section of a key its bucket is the one of the current table, no other thread is in it, and
  it holds exactly the parked threads of the key; the table keeps its load factor; the calls
  return. The functions of \<open>Parking_Lot\<close> and the machine of \<open>Park_Machine\<close> take these
  facts as given when they run a critical section as one step under one lock per key.
\<close>

text \<open>The keys whose buckets a thread has locked and found to be current.\<close>

fun section_keys :: "bl_pc \<Rightarrow> usize set" where
  "section_keys (One st k u tb) = (if st \<in> {Held1, Unlock1} then {k} else {})"
| "section_keys (Chk st k tb) = (if st \<in> {Held2, Unlock2} then {k} else {})"
| "section_keys (Two st k1 k2 us rs tb) = (if st \<in> {Held3, Unlock3} then {k1, k2} else {})"
| "section_keys p = {}"

section \<open>Schedules\<close>

datatype bl_act = Code tid | Call tid want | New tid | Exit tid

fun bl_do :: "bl_act \<Rightarrow> bl_world \<Rightarrow> bl_world option" where
  "bl_do (Code t) w = bl_step 0 t w"
| "bl_do (Call t want) w = bl_call t want w"
| "bl_do (New t) w = bl_new t w"
| "bl_do (Exit t) w = bl_drop t w"

fun bl_run :: "bl_act list \<Rightarrow> bl_world \<Rightarrow> bl_world option" where
  "bl_run [] w = Some w"
| "bl_run (a # as) w = Option.bind (bl_do a w) (bl_run as)"

lemma bl_run_reach: "bl_reach w \<Longrightarrow> bl_run as w = Some w' \<Longrightarrow> bl_reach w'"
proof (induction as arbitrary: w)
  case (Cons a as)
  then obtain v where "bl_do a w = Some v" "bl_run as v = Some w'" by (auto simp: bind_eq_Some_conv)
  then show ?case using Cons by (cases a) (auto intro: bl_reach.intros)
qed simp

fun actor :: "bl_act \<Rightarrow> tid" where
  "actor (Code t) = t"
| "actor (Call t want) = t"
| "actor (New t) = t"
| "actor (Exit t) = t"

lemma bl_do_other: "bl_do a w = Some w' \<Longrightarrow> t \<noteq> actor a \<Longrightarrow> bl_pc w' t = bl_pc w t"
  by (cases a) (auto simp: bl_call_def bl_new_def bl_drop_def dest: bl_step_pc(2) split: if_splits)

lemma bl_run_other: "bl_run as w = Some w' \<Longrightarrow> t \<notin> actor ` set as \<Longrightarrow> bl_pc w' t = bl_pc w t"
proof (induction as arbitrary: w)
  case (Cons a as)
  then obtain v where v: "bl_do a w = Some v" "bl_run as v = Some w'" by (auto simp: bind_eq_Some_conv)
  then show ?case using Cons bl_do_other [OF v(1), of t] by simp
qed simp

lemma parked_code [code]:
  "parked w t = (case bl_current w of
     None \<Rightarrow> False
   | Some tb \<Rightarrow> list_ex (\<lambda>i. list_ex (\<lambda>u. u = t) (bl_queue w (tb, i))) [0..<bl_size (bl_tables w) tb])"
  by (auto simp: parked_def list_ex_iff split: option.splits)

lemma HashTable_new_code [code]:
  "HashTable_new now num_threads =
     (let new_size = next_power_of_two (num_threads * LOAD_FACTOR)
      in if int new_size < 2 ^ 64 then
        Some \<lparr>entries = map (\<lambda>i. Bucket_new now (word_of_nat i + 1)) [0..<new_size],
              hash_bits = hash_bits_of_size new_size\<rparr>
      else None)"
proof -
  have "int n < 2 ^ 64 \<longleftrightarrow> n < 2 ^ 64" for n :: nat
    by (metis of_nat_less_iff of_nat_numeral of_nat_power)
  then show ?thesis unfolding HashTable_new_def by simp
qed

text \<open>
  Thread 1 parks on the key 0 in the first table, of 16 buckets; thread 6 needs a larger one
  and moves it there; thread 2 unparks it, and it exits. Thread 9 runs
  \<open>check_wait_graph_fast\<close> from before the table grew.
\<close>

definition sched_park :: "bl_act list" where
  "sched_park = [New 1, Code 1, Code 1, Call 1 (WOne 0 Enqueue)] @ replicate 3 (Code 1)"

definition sched_grow :: "bl_act list" where
  "sched_grow = sched_park @ [Code 1, Code 1, Call 9 WFast, Code 9] @
     concat (map (\<lambda>t. [New t, Code t]) [2, 3, 4, 5]) @ [New 6] @ replicate 37 (Code 6)"

definition sched_exit :: "bl_act list" where
  "sched_exit = sched_grow @ [Call 2 (WOne 0 (Dequeue [1]))] @ replicate 5 (Code 2) @ [Exit 1, Code 9]"

definition world_of :: "bl_act list \<Rightarrow> bl_world" where
  "world_of as = the (bl_run as bl_init)"

lemma world_of_reach: "bl_run as bl_init \<noteq> None \<Longrightarrow> bl_reach (world_of as)"
  by (auto simp: world_of_def intro: bl_run_reach by_start)

lemma world_of_other: "bl_run as bl_init \<noteq> None \<Longrightarrow> t \<notin> actor ` set as \<Longrightarrow> bl_pc (world_of as) t = Idle"
  using bl_run_other [of as bl_init] by (auto simp: world_of_def bl_init_def)

lemma sched_park_run: "bl_reach (world_of sched_park)" "section_keys (bl_pc (world_of sched_park) 1) = {0}"
proof -
  have "bl_run sched_park bl_init \<noteq> None" by code_simp
  then show "bl_reach (world_of sched_park)" by (rule world_of_reach)
  have "bl_pc (world_of sched_park) 1 = One Held1 0 Enqueue 0" by code_simp
  then show "section_keys (bl_pc (world_of sched_park) 1) = {0}" by simp
qed

lemma sched_grow_reach: "bl_run sched_grow bl_init \<noteq> None"
  by code_simp

lemma sched_grow_run:
  "bl_current (world_of sched_grow) = Some 1" "bl_alive (world_of sched_grow) 1"
  "parked (world_of sched_grow) 1"
  by code_simp+

lemma sched_grow_idle: "growing (bl_pc (world_of sched_grow) t) = None"
proof (cases "t \<in> set (map actor sched_grow)")
  case True
  have "list_all (\<lambda>t. growing (bl_pc (world_of sched_grow) t) = None) (map actor sched_grow)" by code_simp
  with True show ?thesis by (simp only: list_all_iff)
next
  case False
  then show ?thesis using world_of_other [OF sched_grow_reach, of t] by simp
qed

section \<open>Critical sections\<close>

lemma section_holds:
  assumes "k \<in> section_keys p"
  shows "\<exists>tb. held_table p = Some tb \<and> bl_bucket tbs tb k \<in> bl_holds tbs p"
  using assms by (cases p) (auto simp: bl_bucket_def Let_def split: if_splits)

text \<open>A critical section of another thread leaves the queue of a bucket it does not hold alone.\<close>

lemma Section_frame:
  assumes inv: "bl_inv w" and c: "bl_code now w u (bl_pc w u) = Section ks qs q"
    and cur: "bl_current w = Some tb" and i: "i < bl_size (bl_tables w) tb"
    and b: "(tb, i) \<notin> bl_holds (bl_tables w) (bl_pc w u)"
  shows "qs (tb, i) = bl_queue w (tb, i)" and "v \<in> set (bl_queue w (tb, i)) \<Longrightarrow> ks v = bl_key w v"
proof -
  note I = bl_invD [OF inv]
  have q: "idx (bl_tables w ! tb) (bl_key w v) = j"
    if "j < bl_size (bl_tables w) tb" "v \<in> set (bl_queue w (tb, j))" for j v
    using I(4) cur that by (auto simp: queues_ok_def queue_ok_def bl_size_def)
  have "qs (tb, i) = bl_queue w (tb, i) \<and> (v \<in> set (bl_queue w (tb, i)) \<longrightarrow> ks v = bl_key w v)"
    using c
  proof (cases rule: Section_cases)
    case (enq k n)
    have "\<not> parked w u" using parked_okD [OF I(5), of u] enq(1) by simp
    then have "u \<notin> set (bl_queue w (tb, i))" using i cur by (auto simp: parked_def)
    then show ?thesis using enq b by auto
  next
    case (two k1 k2 us rs n)
    then have n: "bl_bucket (bl_tables w) n k1 = (tb, idx (bl_tables w ! tb) k1)"
      "bl_bucket (bl_tables w) n k2 = (tb, idx (bl_tables w ! tb) k2)" "n = tb"
      using pc_okD(2) [OF pcs_okD [OF I(3)], of u n] cur by (auto simp: bl_bucket_def)
    then have "i \<noteq> idx (bl_tables w ! tb) k1" "i \<noteq> idx (bl_tables w ! tb) k2" using two(1) b by auto
    then show ?thesis using two(2) q [OF i] n by (auto simp: pair_body_def pair_moved_def Let_def)
  qed (use b in auto)
  then show "qs (tb, i) = bl_queue w (tb, i)" "v \<in> set (bl_queue w (tb, i)) \<Longrightarrow> ks v = bl_key w v"
    by auto
qed

lemma section_stable:
  assumes inv: "bl_inv w" and h: "held_table (bl_pc w t) = Some tb"
    and b: "(tb, i) \<in> bl_holds (bl_tables w) (bl_pc w t)" "i < bl_size (bl_tables w) tb"
    and s: "bl_step now u w = Some w'" and u: "u \<noteq> t"
  shows "bl_current w' = Some tb \<and> bl_owner w' (tb, i) = Some t \<and>
    bl_queue w' (tb, i) = bl_queue w (tb, i) \<and> (\<forall>v\<in>set (bl_queue w (tb, i)). bl_key w' v = bl_key w v)"
proof -
  note I = bl_invD [OF inv] and p = pcs_okD [OF bl_invD(3) [OF inv]]
  have cur: "bl_current w = Some tb" by (rule pc_okD(2) [OF p h])
  have own: "bl_owner w (tb, i) = Some t" using owner_okD [OF I(2)] b(1) by blast
  have nu: "(tb, i) \<notin> bl_holds (bl_tables w) (bl_pc w u)" using bl_holds_unique [OF I(2) b(1)] u by blast
  show ?thesis
  proof (cases "bl_code now w u (bl_pc w u)")
    case (Install new qn q)
    then show ?thesis using Install_current [OF inv Install, of t] h u by simp
  next
    case (Release c q)
    then have "c \<noteq> (tb, i)" using Release_holds(1) [OF Release pc_okD(5) [OF p]] nu by blast
    then show ?thesis using s Release cur own by (auto simp: bl_step_def)
  next
    case (Section ks qs q)
    from Section_frame [OF inv Section cur b(2) nu] show ?thesis
      using s Section cur own by (auto simp: bl_step_def)
  qed (use s cur own in \<open>auto simp: bl_step_def split: option.splits\<close>)
qed

text \<open>
  Claim C2. A thread in a critical section of a key owns the key's bucket in the current
  table; no other thread is in a critical section of a key of that bucket, and no step of
  another thread changes the current table, the bucket's queue or the keys of the threads in it.
\<close>

theorem bucket_sections_exclusive:
  assumes w: "bl_reach w" and k: "k \<in> section_keys (bl_pc w t)"
  shows "\<exists>tb b. bl_current w = Some tb \<and> b = bl_bucket (bl_tables w) tb k \<and> bl_owner w b = Some t \<and>
    (\<forall>u k'. k' \<in> section_keys (bl_pc w u) \<and> bl_bucket (bl_tables w) tb k' = b \<longrightarrow> u = t) \<and>
    (\<forall>u now w'. u \<noteq> t \<and> bl_step now u w = Some w' \<longrightarrow>
       bl_current w' = Some tb \<and> bl_owner w' b = Some t \<and> bl_queue w' b = bl_queue w b \<and>
       (\<forall>v\<in>set (bl_queue w b). bl_key w' v = bl_key w v))"
proof -
  note inv = bl_reach_inv [OF w]
  note I = bl_invD [OF inv] and p = pcs_okD [OF bl_invD(3) [OF inv]]
  have sec: "bl_current w = Some tb \<and> bl_bucket (bl_tables w) tb k' \<in> bl_holds (bl_tables w) (bl_pc w u)"
    if "k' \<in> section_keys (bl_pc w u)" "held_table (bl_pc w u) = Some tb" for k' u tb
    using section_holds [OF that(1), of "bl_tables w"] that(2) pc_okD(2) [OF p that(2)] by auto
  obtain tb where h: "held_table (bl_pc w t) = Some tb" using section_holds [OF k] by blast
  let ?b = "bl_bucket (bl_tables w) tb k"
  have cur: "bl_current w = Some tb" and b: "?b \<in> bl_holds (bl_tables w) (bl_pc w t)" using sec [OF k h] by auto
  have lt: "snd ?b < bl_size (bl_tables w) tb"
    using idx_hash(2) [OF tables_okD(3) [OF I(1) tables_okD(1) [OF I(1) cur]]]
    by (simp add: bl_bucket_def bl_size_def)
  have ex: "u = t" if a: "k' \<in> section_keys (bl_pc w u)" "bl_bucket (bl_tables w) tb k' = ?b" for u k'
  proof -
    obtain n where n: "held_table (bl_pc w u) = Some n" using section_holds [OF a(1)] by blast
    then have "n = tb" using pc_okD(2) [OF p n] cur by simp
    with sec [OF a(1) n] a(2) have "?b \<in> bl_holds (bl_tables w) (bl_pc w u)" by simp
    then show ?thesis using bl_holds_unique [OF I(2) b] by blast
  qed
  have "bl_owner w ?b = Some t" using owner_okD [OF I(2)] b by blast
  with cur ex section_stable [OF inv h, of "snd ?b"] b lt show ?thesis
    by (intro exI [of _ tb] exI [of _ ?b]) (auto simp: bl_bucket_def)
qed

theorem bucket_sections_exclusive_witness:
  "bl_reach (world_of sched_park) \<and> 0 \<in> section_keys (bl_pc (world_of sched_park) 1) \<and>
   (\<exists>tb. bl_current (world_of sched_park) = Some tb \<and>
      bl_owner (world_of sched_park) (bl_bucket (bl_tables (world_of sched_park)) tb 0) = Some 1)"
  using bucket_sections_exclusive [OF sched_park_run(1), of 0 1] sched_park_run by auto

text \<open>
  Claim C5. A parked thread is in the queue of its own key's bucket in the current table and
  in no other, once, whatever tables were published and wherever it was requeued to; so the
  queue a critical section of a key finds holds all parked threads of the key. It is alive,
  so the pointers in the queues are valid.
\<close>

theorem parked_threads_found:
  assumes w: "bl_reach w" and cur: "bl_current w = Some tb"
  shows "(parked w u \<longleftrightarrow> u \<in> set (bl_queue w (bl_bucket (bl_tables w) tb (bl_key w u)))) \<and>
    (parked w u \<longrightarrow> bl_alive w u) \<and>
    (\<forall>i<bl_size (bl_tables w) tb. distinct (bl_queue w (tb, i)) \<and>
       (u \<in> set (bl_queue w (tb, i)) \<longrightarrow> bl_bucket (bl_tables w) tb (bl_key w u) = (tb, i)))"
proof -
  note I = bl_invD [OF bl_reach_inv [OF w]]
  have q: "queue_ok (bl_tables w ! tb) (bl_key w) (\<lambda>i. bl_queue w (tb, i))"
    using I(4) cur by (simp add: queues_ok_def)
  have "idx (bl_tables w ! tb) (bl_key w u) < length (entries (bl_tables w ! tb))"
    by (rule idx_hash(2) [OF tables_okD(3) [OF I(1) tables_okD(1) [OF I(1) cur]]])
  with q I(5) show ?thesis
    by (auto simp: queue_ok_def parked_def cur bl_bucket_def bl_size_def parked_ok_def)
qed

theorem parked_threads_found_witness:
  "bl_current (world_of sched_grow) = Some 1 \<and> parked (world_of sched_grow) 1 \<and>
   1 \<in> set (bl_queue (world_of sched_grow)
     (bl_bucket (bl_tables (world_of sched_grow)) 1 (bl_key (world_of sched_grow) 1)))"
  using parked_threads_found [OF world_of_reach [OF sched_grow_reach] sched_grow_run(1), of 1]
    sched_grow_run by blast

text \<open>
  Claim C38. Once no thread is growing the table, it has three buckets for every thread that
  has a \<open>ThreadData\<close>.
\<close>

theorem table_keeps_load_factor:
  assumes w: "bl_reach w" and g: "\<forall>t. growing (bl_pc w t) = None" and t: "bl_alive w t"
  shows "\<exists>tb. bl_current w = Some tb \<and> LOAD_FACTOR * card {u. bl_alive w u} \<le> bl_size (bl_tables w) tb"
proof -
  note I = bl_invD [OF bl_reach_inv [OF w]]
  have "finite {u. bl_alive w u}" "bl_num w = card {u. bl_alive w u}" using I(6) by (auto simp: count_ok_def)
  moreover from this have "bl_num w \<noteq> 0" using t by auto
  ultimately show ?thesis using I(7) g by (auto simp: capacity_ok_def)
qed

theorem table_keeps_load_factor_witness:
  "bl_alive (world_of sched_grow) 1 \<and> (\<exists>tb. bl_current (world_of sched_grow) = Some tb \<and>
     LOAD_FACTOR * card {u. bl_alive (world_of sched_grow) u} \<le> bl_size (bl_tables (world_of sched_grow)) tb)"
  using table_keeps_load_factor [OF world_of_reach [OF sched_grow_reach], of 1]
    sched_grow_idle sched_grow_run by blast

section \<open>The calls return\<close>

text \<open>
  Claim C4. Every call that locks buckets returns, however the threads are scheduled: from a
  reachable state there is no infinite run of the code, and a run that cannot be continued
  has returned from every call. In particular the bucket locks cannot deadlock.
\<close>

theorem bucket_calls_return:
  assumes w: "bl_reach w"
  shows "(\<nexists>f. f 0 = w \<and> (\<forall>i. bl_runs (f i) (f (Suc i)))) \<and>
    (\<forall>w'. bl_runs\<^sup>*\<^sup>* w w' \<and> (\<nexists>w''. bl_runs w' w'') \<longrightarrow> (\<forall>t. bl_pc w' t = Idle))"
proof (intro conjI notI allI impI)
  assume "\<exists>f. f 0 = w \<and> (\<forall>i. bl_runs (f i) (f (Suc i)))"
  then obtain f where f: "f 0 = w" "\<And>i. bl_runs (f i) (f (Suc i))" by blast
  have r: "bl_reach (f i)" for i
    by (induction i) (use f w in \<open>auto simp: bl_runs_def intro: by_code\<close>)
  have a: "bl_active (f i) \<subseteq> bl_active w" for i
  proof (induction i)
    case (Suc i)
    then show ?case using f(2) [of i] bl_step_active unfolding bl_runs_def by blast
  qed (simp add: f(1))
  have "(f (Suc i), f i) \<in> {(w', v). bl_inv v \<and> bl_active v \<subseteq> bl_active w \<and> bl_runs v w'}" for i
    using r [of i] a [of i] f(2) [of i] by (simp add: bl_reach_inv)
  then show False using bl_runs_wf [OF bl_reach_active [OF w]] unfolding wf_iff_no_infinite_down_chain by blast
next
  fix w' t
  assume "bl_runs\<^sup>*\<^sup>* w w' \<and> (\<nexists>w''. bl_runs w' w'')"
  moreover from this have "bl_inv w'" using bl_runs_reach [OF w] bl_reach_inv by blast
  ultimately show "bl_pc w' t = Idle"
    using bl_someone_runs [of w' t 0] unfolding bl_runs_def by blast
qed

theorem bucket_calls_return_witness:
  "bl_pc (world_of sched_park) 1 \<noteq> Idle \<and>
   (\<nexists>f. f 0 = world_of sched_park \<and> (\<forall>i. bl_runs (f i) (f (Suc i))))"
proof
  show "bl_pc (world_of sched_park) 1 \<noteq> Idle" using sched_park_run(2) by auto
  show "\<nexists>f. f 0 = world_of sched_park \<and> (\<forall>i. bl_runs (f i) (f (Suc i)))"
    using bucket_calls_return [OF sched_park_run(1)] by (rule conjunct1)
qed

section \<open>The fast check reads freed memory\<close>

text \<open>
  Claim C40. \<open>check_wait_graph_fast\<close> does not look at \<open>HASHTABLE\<close> again after it has locked
  a bucket, and the buckets of an old table keep their queue heads. So it can hold the bucket
  of an old table whose queue starts with a thread that has left the queue of the current
  table and has exited: it follows a dangling pointer.
\<close>

theorem fast_check_finds_freed_thread:
  "\<exists>w t tb i u q. bl_reach w \<and> bl_pc w t = Fast (ReadF i) tb \<and> bl_owner w (tb, i) = Some t \<and>
     bl_queue w (tb, i) = u # q \<and> \<not> parked w u \<and> \<not> bl_alive w u"
proof -
  let ?w = "world_of sched_exit"
  have "bl_run sched_exit bl_init \<noteq> None" by code_simp
  then have "bl_reach ?w" by (rule world_of_reach)
  moreover have "bl_pc ?w 9 = Fast (ReadF 0) 0" by code_simp
  moreover have "bl_owner ?w (0, 0) = Some 9" by code_simp
  moreover have "bl_queue ?w (0, 0) = [1]" by code_simp
  moreover have "\<not> parked ?w 1" by code_simp
  moreover have "\<not> bl_alive ?w 1" by code_simp
  ultimately show ?thesis by blast
qed

end
