(* ===== verification/Bucket_Keys.thy ===== *)
theory Bucket_Keys
  imports Bucket_Claims Lot_Grow
begin

text \<open>
  The bucket machine implements one queue per key. Seen through the keys, a step of the code
  is one operation on the queues of its keys or nothing at all: the tables, the buckets that
  keys share, the locks and the growth of the table do not show. The operations are the ones
  the functions of the parking lot are shown to perform when they run alone.
\<close>

section \<open>Queues by key\<close>

definition bl_waiting :: "bl_world \<Rightarrow> usize \<Rightarrow> tid list" where
  "bl_waiting w k = (case bl_current w of
     None \<Rightarrow> []
   | Some tb \<Rightarrow> filter (\<lambda>u. bl_key w u = k) (bl_queue w (bl_bucket (bl_tables w) tb k)))"

datatype key_op =
    KNone
  | KEnqueue tid usize
  | KDequeue "tid list" usize
  | KLeave tid usize
  | KRequeue usize usize "tid list" "tid list"

fun key_apply :: "key_op \<Rightarrow> (usize \<Rightarrow> tid list) \<Rightarrow> usize \<Rightarrow> tid list" where
  "key_apply KNone Q = Q"
| "key_apply (KEnqueue t k) Q = Q(k := Q k @ [t])"
| "key_apply (KDequeue us k) Q = Q(k := filter (\<lambda>u. u \<notin> set us) (Q k))"
| "key_apply (KLeave t k) Q = Q(k := filter (\<lambda>u. u \<noteq> t) (Q k))"
| "key_apply (KRequeue k1 k2 us rs) Q =
     (let moved = filter (\<lambda>u. u \<in> set rs \<and> u \<notin> set us) (Q k1);
          Q1 = Q(k1 := filter (\<lambda>u. u \<notin> set us \<and> u \<notin> set rs) (Q k1))
      in Q1(k2 := Q1 k2 @ moved))"

text \<open>The operation of the next step of a thread: the one of the critical section it is in.\<close>

fun key_op_of :: "tid \<Rightarrow> bl_pc \<Rightarrow> key_op" where
  "key_op_of t (One Held1 k Enqueue tb) = KEnqueue t k"
| "key_op_of t (One Held1 k (Dequeue us) tb) = KDequeue us k"
| "key_op_of t (Chk Held2 k tb) = KLeave t k"
| "key_op_of t (Two Held3 k1 k2 us rs tb) = KRequeue k1 k2 us rs"
| "key_op_of t p = KNone"

lemma bl_waiting_upd [simp]:
  "bl_waiting (w\<lparr>bl_pc := f\<rparr>) = bl_waiting w" "bl_waiting (w\<lparr>bl_owner := ow\<rparr>) = bl_waiting w"
  by (cases "bl_current w"; simp add: bl_waiting_def fun_eq_iff)+

lemma key_op_none:
  assumes "\<And>ks qs q. bl_code now w t p \<noteq> Section ks qs q"
  shows "key_op_of t p = KNone"
proof (cases "(t, p)" rule: key_op_of.cases)
  case (4 t k1 k2 us rs tb)
  then show ?thesis
    using assms by (cases "pair_body k1 k2 us rs (tb, idx (bl_tables w ! tb) k1)
      (tb, idx (bl_tables w ! tb) k2) (bl_key w, bl_queue w)") (auto simp: lock_bucket_pair_code_def Let_def)
qed (use assms in \<open>auto simp: lock_bucket_code_def lock_bucket_checked_code_def Let_def\<close>)

section \<open>The bodies of the critical sections\<close>

text \<open>Queues of a table whose threads are where their keys belong.\<close>

lemma queue_okD:
  assumes "queue_ok tb ks q" and "table_ok tb" and "u \<in> set (q i)" and "i < length (entries tb)"
  shows "i = idx tb (ks u)"
  using assms by (auto simp: queue_ok_def)

lemma enqueue_keys:
  assumes "\<And>j. j < length (entries tb) \<Longrightarrow> t \<notin> set (qs (n, j))" and "table_ok tb"
  shows "filter (\<lambda>u. (ks(t := k)) u = k') ((qs((n, idx tb k) := qs (n, idx tb k) @ [t])) (n, idx tb k')) =
    (if k' = k then filter (\<lambda>u. ks u = k) (qs (n, idx tb k)) @ [t] else filter (\<lambda>u. ks u = k') (qs (n, idx tb k')))"
proof -
  have "t \<notin> set (qs (n, idx tb k'))" for k' using assms(1) [OF idx_hash(2) [OF assms(2)]] .
  from this [of k'] this [of k] show ?thesis by (auto intro!: filter_cong)
qed

lemma dequeue_keys:
  "filter (\<lambda>u. ks u = k') ((qs(b k := dequeue S k ks (qs (b k)))) (b k')) =
    (if k' = k then filter (\<lambda>u. u \<notin> S) (filter (\<lambda>u. ks u = k) (qs (b k)))
     else filter (\<lambda>u. ks u = k') (qs (b k')))"
  by (auto simp: dequeue_def intro: filter_cong)

lemma requeue_keys:
  assumes q: "queue_ok tb ks (\<lambda>i. qs (n, i))" and ok: "table_ok tb"
    and b: "pair_body k1 k2 us rs (n, idx tb k1) (n, idx tb k2) (ks, qs) = (ks', qs')"
  shows "(\<lambda>k. filter (\<lambda>u. ks' u = k) (qs' (n, idx tb k))) =
    key_apply (KRequeue k1 k2 us rs) (\<lambda>k. filter (\<lambda>u. ks u = k) (qs (n, idx tb k)))"
proof
  fix k
  let ?m = "pair_moved us rs k1 ks (qs (n, idx tb k1))"
  let ?q1 = "qs((n, idx tb k1) := dequeue (set us \<union> set rs) k1 ks (qs (n, idx tb k1)))"
  let ?Q = "\<lambda>k. filter (\<lambda>u. ks u = k) (qs (n, idx tb k))"
  have ks': "ks' = (\<lambda>u. if u \<in> set ?m then k2 else ks u)"
    and qs': "qs' = ?q1((n, idx tb k2) := ?q1 (n, idx tb k2) @ ?m)"
    using b by (auto simp: pair_body_def Let_def)
  have lt: "idx tb k < length (entries tb)" for k by (rule idx_hash(2) [OF ok])
  have nm: "u \<notin> set ?m" if "u \<in> set (?q1 (n, idx tb k))" for u k
    using that queue_okD [OF q ok _ lt, of u k] by (auto simp: pair_moved_def dequeue_def split: if_splits)
  have rest: "filter (\<lambda>u. ks' u = k) (?q1 (n, idx tb k)) =
      (if k = k1 then filter (\<lambda>u. u \<notin> set us \<and> u \<notin> set rs) (?Q k1) else ?Q k)"
  proof -
    have "filter (\<lambda>u. ks' u = k) (?q1 (n, idx tb k)) = filter (\<lambda>u. ks u = k) (?q1 (n, idx tb k))"
      using nm unfolding ks' by (intro filter_cong) auto
    also have "\<dots> = (if k = k1 then filter (\<lambda>u. u \<notin> set us \<union> set rs) (?Q k1) else ?Q k)"
      by (rule dequeue_keys [where b = "\<lambda>k. (n, idx tb k)"])
    finally show ?thesis by simp
  qed
  have mv: "filter (\<lambda>u. ks' u = k) ?m = (if k = k2 then ?m else [])"
    unfolding ks' by (auto intro: filter_True filter_False)
  have m: "?m = filter (\<lambda>u. u \<in> set rs \<and> u \<notin> set us) (?Q k1)"
    by (auto simp: pair_moved_def intro: filter_cong)
  have "filter (\<lambda>u. ks' u = k) (qs' (n, idx tb k)) =
      filter (\<lambda>u. ks' u = k) (?q1 (n, idx tb k)) @ (if k = k2 then ?m else [])"
    using mv unfolding qs' by auto
  then show "filter (\<lambda>u. ks' u = k) (qs' (n, idx tb k)) = key_apply (KRequeue k1 k2 us rs) ?Q k"
    unfolding rest m by (simp add: Let_def)
qed

lemma rehash_keys:
  assumes q: "queue_ok (bl_tables w ! tb) (bl_key w) (\<lambda>i. bl_queue w (tb, i))"
    and ok: "table_ok (bl_tables w ! tb)"
  shows "filter (\<lambda>u. bl_key w u = k) (rehash w tb new (idx new k)) =
    filter (\<lambda>u. bl_key w u = k) (bl_queue w (tb, idx (bl_tables w ! tb) k))"
proof -
  let ?Q = "\<lambda>j. filter (\<lambda>u. idx new (bl_key w u) = idx new k) (bl_queue w (tb, j))"
  have "filter (\<lambda>u. bl_key w u = k) (concat (map ?Q [0..<bl_size (bl_tables w) tb])) =
      filter (\<lambda>u. bl_key w u = k) (?Q (idx (bl_tables w ! tb) k))"
  proof (rule filter_concat_one)
    show "idx (bl_tables w ! tb) k < bl_size (bl_tables w) tb"
      using idx_hash(2) [OF ok] by (simp add: bl_size_def)
    show "filter (\<lambda>u. bl_key w u = k) (?Q j) = []"
      if "j < bl_size (bl_tables w) tb" "j \<noteq> idx (bl_tables w ! tb) k" for j
      using that queue_okD [OF q ok] by (auto simp: bl_size_def filter_empty_conv)
  qed
  also have "\<dots> = filter (\<lambda>u. bl_key w u = k) (bl_queue w (tb, idx (bl_tables w ! tb) k))"
    by (auto intro: filter_cong)
  finally show ?thesis by (simp add: rehash_def)
qed

section \<open>The refinement\<close>

text \<open>
  Claim C3. Every step of the interleaved code performs, on the queues by key, exactly the
  operation of the critical section its thread is in, and otherwise leaves them as they are,
  whatever table is published or rehashed meanwhile.
\<close>

theorem bucket_step_refines_keys:
  assumes w: "bl_reach w" and s: "bl_step now t w = Some w'"
  shows "bl_waiting w' = key_apply (key_op_of t (bl_pc w t)) (bl_waiting w)"
proof -
  note inv = bl_reach_inv [OF w]
  note I = bl_invD [OF inv] and p = pcs_okD [OF bl_invD(3) [OF inv]]
  have qok: "queue_ok (bl_tables w ! tb) (bl_key w) (\<lambda>i. bl_queue w (tb, i))" "table_ok (bl_tables w ! tb)"
    if "bl_current w = Some tb" for tb
    using I(4) that tables_okD(1,3) [OF I(1)] by (auto simp: queues_ok_def)
  show ?thesis
  proof (cases "bl_code now w t (bl_pc w t)")
    case (Section ks qs q)
    then have w': "w' = w\<lparr>bl_key := ks, bl_queue := qs, bl_pc := (bl_pc w)(t := q)\<rparr>"
      using s by (simp add: bl_step_def)
    obtain tb where h: "held_table (bl_pc w t) = Some tb" using Section by (cases rule: Section_cases) auto
    have cur: "bl_current w = Some tb" by (rule pc_okD(2) [OF p h])
    note ok = qok [OF cur]
    have wt: "bl_waiting w' = (\<lambda>k. filter (\<lambda>u. ks u = k) (qs (tb, idx (bl_tables w ! tb) k)))"
      "bl_waiting w = (\<lambda>k. filter (\<lambda>u. bl_key w u = k) (bl_queue w (tb, idx (bl_tables w ! tb) k)))"
      by (auto simp: bl_waiting_def cur w' bl_bucket_def)
    from Section show ?thesis
    proof (cases rule: Section_cases)
      case (enq k n)
      then have n: "n = tb" using h by simp
      have "\<not> parked w t" using parked_okD [OF I(5), of t] enq(1) by simp
      then have "t \<notin> set (bl_queue w (tb, j))" if "j < length (entries (bl_tables w ! tb))" for j
        using that by (auto simp: parked_def cur bl_size_def)
      then have "filter (\<lambda>u. ks u = k') (qs (tb, idx (bl_tables w ! tb) k')) =
        (if k' = k then bl_waiting w k @ [t] else bl_waiting w k')" for k'
        unfolding wt enq(2,3) n bl_bucket_def by (rule enqueue_keys [OF _ ok(2)])
      then show ?thesis unfolding wt(1) enq(1) by (simp add: fun_eq_iff)
    next
      case (deq k us n)
      then have n: "n = tb" using h by simp
      show ?thesis unfolding wt deq(1-3) n bl_bucket_def
        using dequeue_keys [of "bl_key w" _ "bl_queue w" "\<lambda>k. (tb, idx (bl_tables w ! tb) k)" k "set us"]
        by (auto simp: fun_eq_iff)
    next
      case (chk k n)
      then have n: "n = tb" using h by simp
      have k: "bl_key w t = k" using pc_okD(4) [OF p, of t k] chk(1) by simp
      have "filter (\<lambda>u. u \<noteq> t) q = dequeue {t} k (bl_key w) q" for q
        unfolding dequeue_def by (rule filter_cong) (auto simp: k)
      then show ?thesis unfolding wt chk(1-3) n bl_bucket_def
        using dequeue_keys [of "bl_key w" _ "bl_queue w" "\<lambda>k. (tb, idx (bl_tables w ! tb) k)" k "{t}"]
        by (auto simp: fun_eq_iff)
    next
      case (two k1 k2 us rs n)
      then have n: "n = tb" using h by simp
      have "pair_body k1 k2 us rs (tb, idx (bl_tables w ! tb) k1) (tb, idx (bl_tables w ! tb) k2)
          (bl_key w, bl_queue w) = (ks, qs)"
        using two(2) by (simp add: bl_bucket_def n)
      from requeue_keys [OF ok this] show ?thesis unfolding wt two(1) by simp
    qed
  next
    case (Install new qn q)
    have none: "key_op_of t (bl_pc w t) = KNone" by (rule key_op_none [of now w]) (simp add: Install)
    have w': "bl_waiting w' k = filter (\<lambda>u. bl_key w u = k) (qn (idx new k))" for k
      using s Install by (auto simp: bl_step_def bl_waiting_def bl_bucket_def nth_append)
    from Install show ?thesis
    proof (cases rule: Install_cases)
      case (first want)
      then show ?thesis unfolding none by (auto simp: fun_eq_iff w') (simp add: bl_waiting_def)
    next
      case (grow n tb)
      have cur: "bl_current w = Some tb" using pc_okD(2) [OF p, of t tb] grow(1) by simp
      have "bl_waiting w' k = bl_waiting w k" for k
        unfolding w' grow(3) rehash_keys [OF qok [OF cur]] by (simp add: bl_waiting_def cur bl_bucket_def)
      then show ?thesis unfolding none by (simp add: fun_eq_iff)
    qed
  qed (use s key_op_none [of now w t "bl_pc w t"] in \<open>auto simp: bl_step_def split: option.splits\<close>)
qed

theorem bucket_step_refines_keys_witness:
  "\<exists>w'. bl_step 0 1 (world_of sched_park) = Some w' \<and>
     bl_waiting w' 0 = bl_waiting (world_of sched_park) 0 @ [1]"
proof -
  have "bl_step 0 1 (world_of sched_park) \<noteq> None" by code_simp
  then obtain w' where w': "bl_step 0 1 (world_of sched_park) = Some w'" by blast
  have "bl_pc (world_of sched_park) 1 = One Held1 0 Enqueue 0" by code_simp
  with bucket_step_refines_keys [OF sched_park_run(1) w'] w' show ?thesis by simp
qed

section \<open>The functions of the parking lot\<close>

text \<open>The same operations, performed by the functions of \<open>Parking_Lot\<close> on a well-formed lot.\<close>

lemma park_begin_key_op:
  assumes "lot_wf lot" and "\<not> enqueued lot t" and "validate s = (s', True)"
  shows "\<exists>lot'. park_begin t k validate token timed s lot = Some (True, s', lot') \<and> lot_wf lot' \<and>
    waiting lot' = key_apply (KEnqueue t k) (waiting lot)"
  using park_begin_append [where validate = validate and s = s, OF assms, of k token timed] by auto

lemma unpark_one_key_op:
  assumes "lot_wf lot" and "waiting lot k = t # ts"
  shows "\<exists>r s' lot'. unpark_one k now cb s lot = Some (r, s', lot') \<and> lot_wf lot' \<and>
    waiting lot' = key_apply (KDequeue [t] k) (waiting lot)"
proof -
  have "ts = filter (\<lambda>u. u \<notin> set [t]) (waiting lot k)"
    using waiting_distinct [OF assms(1), of k] assms(2) by (auto intro!: filter_True [symmetric])
  with unpark_one_head [OF assms refl prod.collapse [symmetric], of now cb s] show ?thesis by auto
qed

lemma park_timeout_key_op:
  assumes "lot_wf lot" and "timed_out (parker (threads lot t))" and "t \<in> set (waiting lot k)"
  shows "\<exists>r lot'. park_timeout t cb s lot = Some (TimedOut, r, lot') \<and> lot_wf lot' \<and>
    waiting lot' = key_apply (KLeave t k) (waiting lot)"
  using park_timeout_removed [OF assms, of cb s] by auto

lemma requeue_pick_filter:
  assumes "requeue_pick op ms = (wk, mv)" and "distinct ms"
  shows "filter (\<lambda>u. u \<in> set mv \<and> u \<notin> set wk) ms = mv"
  using assms by (cases op; cases ms) (auto intro: filter_True filter_False)

lemma unpark_requeue_key_op:
  assumes wf: "lot_wf lot" and v: "validate s = (s1, op)" and op: "op \<noteq> Abort"
    and pick: "requeue_pick op (waiting lot kf) = (wk, mv)"
  shows "\<exists>r s2 lot'. unpark_requeue kf kt now validate cb s lot = Some (r, s2, lot') \<and> lot_wf lot' \<and>
    waiting lot' = key_apply (KRequeue kf kt wk mv) (waiting lot)"
proof -
  have "key_apply (KRequeue kf kt wk mv) (waiting lot) =
      (let W = (waiting lot)(kf := filter (\<lambda>t. t \<notin> set wk \<union> set mv) (waiting lot kf)) in W(kt := W kt @ mv))"
    by (simp add: Let_def requeue_pick_filter [OF pick waiting_distinct [OF wf]])
  with unpark_requeue_moves [where validate = validate and s = s and cb = cb, OF wf v op pick refl
      prod.collapse [symmetric], of kt now]
  show ?thesis by fastforce
qed

end
