(* ===== verification/Deadlock_Locks.thy ===== *)
theory Deadlock_Locks
  imports Deadlock
begin

text \<open>
  How the locks feed the deadlock detector: the module \<open>deadlock\<close> of
  \<open>core/src/parking_lot.rs\<close>, which does nothing unless the feature is enabled, and the calls to
  it in \<open>raw_mutex.rs\<close>, \<open>raw_rwlock.rs\<close> and \<open>raw_condvar.rs\<close>. The theorem says that the resources
  recorded for a thread are the locks it holds, so an edge of the wait graph from a resource
  to a thread means that the thread holds the lock.
\<close>

section \<open>The module deadlock\<close>

definition deadlock_acquire_resource :: "bool \<Rightarrow> usize \<Rightarrow> DeadlockData \<Rightarrow> DeadlockData" where
  "deadlock_acquire_resource deadlock_detection k d =
     (if deadlock_detection then acquire_resource k d else d)"

definition deadlock_release_resource :: "bool \<Rightarrow> usize \<Rightarrow> DeadlockData \<Rightarrow> DeadlockData" where
  "deadlock_release_resource deadlock_detection k d =
     (if deadlock_detection then release_resource k d else d)"

section \<open>Calls of the mutex\<close>

text \<open>
  A call of the mutex by its holder-to-be or holder, with what it returns: \<open>lock\<close>, the
  \<open>try_lock\<close> functions, \<open>unlock\<close> and \<open>unlock_fair\<close>, \<open>bump\<close> (which does something only if there
  are parked threads), and the wait on a condition variable, which fails before it
  unlocks when the variable is used with another mutex.
\<close>

datatype mutex_op = MLock | MTryLock bool | MUnlock | MBump bool | MWait bool

fun mutex_detect :: "bool \<Rightarrow> usize \<Rightarrow> mutex_op \<Rightarrow> DeadlockData \<Rightarrow> DeadlockData" where
  "mutex_detect f a MLock d = deadlock_acquire_resource f a d"
| "mutex_detect f a (MTryLock result) d = (if result then deadlock_acquire_resource f a d else d)"
| "mutex_detect f a MUnlock d = deadlock_release_resource f a d"
| "mutex_detect f a (MBump parked) d =
     (if parked then deadlock_acquire_resource f a (deadlock_release_resource f a d) else d)"
| "mutex_detect f a (MWait bad_mutex) d =
     (if bad_mutex then d else deadlock_acquire_resource f a (deadlock_release_resource f a d))"

section \<open>Calls of the reader-writer lock\<close>

definition deadlock_acquire :: "bool \<Rightarrow> usize \<Rightarrow> DeadlockData \<Rightarrow> DeadlockData" where
  "deadlock_acquire f a d = deadlock_acquire_resource f (a + 1) (deadlock_acquire_resource f a d)"

definition deadlock_release :: "bool \<Rightarrow> usize \<Rightarrow> DeadlockData \<Rightarrow> DeadlockData" where
  "deadlock_release f a d = deadlock_release_resource f (a + 1) (deadlock_release_resource f a d)"

text \<open>
  The functions of the three kinds of lock make the same calls. An upgrade that has to wait
  for readers gives the lock up for the time of the wait; downgrades and the upgrades that
  do not wait make no calls.
\<close>

datatype rw_op = RLock | RTryLock bool | RUnlock | RBump bool | RUpgrade bool | RDowngrade

fun rw_detect :: "bool \<Rightarrow> usize \<Rightarrow> rw_op \<Rightarrow> DeadlockData \<Rightarrow> DeadlockData" where
  "rw_detect f a RLock d = deadlock_acquire f a d"
| "rw_detect f a (RTryLock result) d = (if result then deadlock_acquire f a d else d)"
| "rw_detect f a RUnlock d = deadlock_release f a d"
| "rw_detect f a (RBump parked) d = (if parked then deadlock_acquire f a (deadlock_release f a d) else d)"
| "rw_detect f a (RUpgrade waits) d = (if waits then deadlock_acquire f a (deadlock_release f a d) else d)"
| "rw_detect f a RDowngrade d = d"

section \<open>The locks a thread holds\<close>

datatype lock_call = OnMutex usize mutex_op | OnRwLock usize rw_op

fun detect :: "bool \<Rightarrow> lock_call \<Rightarrow> DeadlockData \<Rightarrow> DeadlockData" where
  "detect f (OnMutex a c) d = mutex_detect f a c d"
| "detect f (OnRwLock a c) d = rw_detect f a c d"

text \<open>
  How often the thread holds each mutex and each reader-writer lock (a lock may be read
  locked several times). \<open>None\<close>: the call releases or changes a lock that is not held, which
  the safety contracts of the functions forbid.
\<close>

record held_locks =
  mutexes :: "usize \<Rightarrow> nat"
  rwlocks :: "usize \<Rightarrow> nat"

definition none_held :: held_locks where
  "none_held = \<lparr>mutexes = (\<lambda>_. 0), rwlocks = (\<lambda>_. 0)\<rparr>"

definition take_one :: "usize \<Rightarrow> (usize \<Rightarrow> nat) \<Rightarrow> usize \<Rightarrow> nat" where
  "take_one a m = m(a := Suc (m a))"

definition drop_one :: "usize \<Rightarrow> (usize \<Rightarrow> nat) \<Rightarrow> (usize \<Rightarrow> nat) option" where
  "drop_one a m = (if m a = 0 then None else Some (m(a := m a - 1)))"

definition keep_one :: "usize \<Rightarrow> (usize \<Rightarrow> nat) \<Rightarrow> (usize \<Rightarrow> nat) option" where
  "keep_one a m = (if m a = 0 then None else Some m)"

fun mutex_hold :: "usize \<Rightarrow> mutex_op \<Rightarrow> (usize \<Rightarrow> nat) \<Rightarrow> (usize \<Rightarrow> nat) option" where
  "mutex_hold a MLock m = Some (take_one a m)"
| "mutex_hold a (MTryLock result) m = Some (if result then take_one a m else m)"
| "mutex_hold a MUnlock m = drop_one a m"
| "mutex_hold a _ m = keep_one a m"

fun rw_hold :: "usize \<Rightarrow> rw_op \<Rightarrow> (usize \<Rightarrow> nat) \<Rightarrow> (usize \<Rightarrow> nat) option" where
  "rw_hold a RLock r = Some (take_one a r)"
| "rw_hold a (RTryLock result) r = Some (if result then take_one a r else r)"
| "rw_hold a RUnlock r = drop_one a r"
| "rw_hold a _ r = keep_one a r"

fun hold :: "lock_call \<Rightarrow> held_locks \<Rightarrow> held_locks option" where
  "hold (OnMutex a c) h = map_option (\<lambda>m. h\<lparr>mutexes := m\<rparr>) (mutex_hold a c (mutexes h))"
| "hold (OnRwLock a c) h = map_option (\<lambda>r. h\<lparr>rwlocks := r\<rparr>) (rw_hold a c (rwlocks h))"

fun hold_run :: "lock_call list \<Rightarrow> held_locks \<Rightarrow> held_locks option" where
  "hold_run [] h = Some h"
| "hold_run (c # cs) h = Option.bind (hold c h) (hold_run cs)"

section \<open>The record is exact\<close>

definition recorded :: "held_locks \<Rightarrow> usize \<Rightarrow> nat" where
  "recorded h k = mutexes h k + rwlocks h k + rwlocks h (k - 1)"

definition tracks :: "DeadlockData \<Rightarrow> held_locks \<Rightarrow> bool" where
  "tracks d h \<longleftrightarrow> (\<forall>k. count (mset (resources d)) k = recorded h k)"

lemma count_acquire [simp]:
  "count (mset (resources (acquire_resource a d))) k = count (mset (resources d)) k + (if k = a then 1 else 0)"
  by (simp add: acquire_resource_def)

lemma count_release [simp]:
  "count (mset (resources (release_resource a d))) k = count (mset (resources d)) k - (if k = a then 1 else 0)"
  by (simp add: release_resource_mset)

lemma word_minus_one [simp]: "k - 1 = a \<longleftrightarrow> k = a + 1" for k a :: "'a::len word"
  by (auto simp: algebra_simps)

lemma tracks_mutex:
  assumes "tracks d h" and "mutex_hold a c (mutexes h) = Some m"
  shows "tracks (mutex_detect True a c d) (h\<lparr>mutexes := m\<rparr>)"
  using assms
  by (cases c) (auto simp: tracks_def recorded_def deadlock_acquire_resource_def
      deadlock_release_resource_def take_one_def drop_one_def keep_one_def split: if_splits)

lemma tracks_rw:
  assumes "tracks d h" and "rw_hold a c (rwlocks h) = Some r"
  shows "tracks (rw_detect True a c d) (h\<lparr>rwlocks := r\<rparr>)"
  using assms
  by (cases c) (auto simp: tracks_def recorded_def deadlock_acquire_resource_def deadlock_acquire_def
      deadlock_release_resource_def deadlock_release_def take_one_def drop_one_def keep_one_def split: if_splits)

lemma tracks_run:
  "tracks d h \<Longrightarrow> hold_run cs h = Some h' \<Longrightarrow> tracks (fold (detect True) cs d) h'"
proof (induction cs arbitrary: d h)
  case (Cons c cs)
  then obtain g where g: "hold c h = Some g" "hold_run cs g = Some h'" by (auto simp: bind_eq_Some_conv)
  have "tracks (detect True c d) g"
    using Cons.prems(1) g(1) by (cases c) (auto intro: tracks_mutex tracks_rw)
  from Cons.IH [OF this g(2)] show ?case by simp
qed simp

text \<open>
  Claim C39. The resources the detector records for a thread are exactly the locks it holds,
  as often as it holds them, the reader-writer locks at their two addresses, whatever lock
  functions it has called within their contracts. So an edge of the wait graph says truly
  that a thread holds a lock; without the feature nothing is recorded.
\<close>

theorem detector_knows_the_locks:
  assumes "hold_run cs none_held = Some h"
  shows "count (mset (resources (fold (detect True) cs (DeadlockData_new t)))) k =
      mutexes h k + rwlocks h k + rwlocks h (k - 1) \<and>
    ((Resource k, Thread t) \<in> set (thread_edges hp (\<lambda>_. fold (detect True) cs (DeadlockData_new t)) t) \<longrightarrow>
      0 < mutexes h k \<or> 0 < rwlocks h k \<or> 0 < rwlocks h (k - 1)) \<and>
    fold (detect False) cs (DeadlockData_new t) = DeadlockData_new t"
proof -
  let ?d = "fold (detect True) cs (DeadlockData_new t)"
  have "tracks (DeadlockData_new t) none_held"
    by (simp add: tracks_def recorded_def none_held_def DeadlockData_new_def)
  from tracks_run [OF this assms] have c: "count (mset (resources ?d)) k =
      mutexes h k + rwlocks h k + rwlocks h (k - 1)" by (simp add: tracks_def recorded_def)
  have "k \<in> set (resources ?d)" if "(Resource k, Thread t) \<in> set (thread_edges hp (\<lambda>_. ?d) t)"
    using that by (auto simp: thread_edges_def split: if_splits)
  then have "0 < count (mset (resources ?d)) k" if "(Resource k, Thread t) \<in> set (thread_edges hp (\<lambda>_. ?d) t)"
    using that by simp
  moreover have "fold (detect False) cs d = d" for d
  proof (induction cs arbitrary: d)
    case (Cons c cs)
    have "detect False c d = d"
    proof (cases c)
      case (OnMutex a m)
      then show ?thesis
        by (cases m) (auto simp: deadlock_acquire_resource_def deadlock_release_resource_def)
    next
      case (OnRwLock a r)
      then show ?thesis
        by (cases r) (auto simp: deadlock_acquire_resource_def deadlock_release_resource_def
            deadlock_acquire_def deadlock_release_def)
    qed
    then show ?case using Cons.IH by simp
  qed simp
  ultimately show ?thesis using c by auto
qed

theorem detector_knows_the_locks_witness:
  "count (mset (resources (fold (detect True)
     [OnMutex 64 MLock, OnRwLock 128 RLock, OnRwLock 128 (RTryLock True), OnMutex 64 MUnlock, OnRwLock 128 RUnlock]
     (DeadlockData_new 7)))) 129 = 1"
proof -
  let ?cs = "[OnMutex 64 MLock, OnRwLock 128 RLock, OnRwLock 128 (RTryLock True), OnMutex 64 MUnlock, OnRwLock 128 RUnlock]"
  have "hold_run ?cs none_held =
      Some \<lparr>mutexes = (\<lambda>_. 0)(64 := 1, 64 := 0), rwlocks = (\<lambda>_. 0)(128 := 1, 128 := 2, 128 := 1)\<rparr>"
    by (simp add: none_held_def take_one_def drop_one_def numeral_2_eq_2)
  from detector_knows_the_locks [OF this, of 7 129] show ?thesis by simp
qed

end
