(* ===== verification/Crate_Parts.thy ===== *)
theory Crate_Parts
  imports Lot_Grow Raw_RwLock Mutex_Guard Re_Guard Rw_Guard
begin

text \<open>
  The smaller parts of the crates: the unchecked unwrap of \<open>util.rs\<close>, the \<open>ThreadData\<close> a call
  works with, the parker of WebAssembly without threads, the thread ids of the reentrant
  mutex, and the constructors of the locks of \<open>parking_lot\<close>.
\<close>

section \<open>util.rs\<close>

text \<open>A diverging call: a panic with debug assertions, undefined behaviour without.\<close>

datatype 'a outcome = Value 'a | Panic | Undefined

definition unreachable :: "bool \<Rightarrow> 'a outcome" where
  "unreachable debug_assertions = (if debug_assertions then Panic else Undefined)"

definition unchecked_unwrap :: "bool \<Rightarrow> 'a option \<Rightarrow> 'a outcome" where
  "unchecked_unwrap debug_assertions s = (case s of Some x \<Rightarrow> Value x | None \<Rightarrow> unreachable debug_assertions)"

lemma unchecked_unwrap_safe: "unchecked_unwrap b s = Value x \<longleftrightarrow> s = Some x"
  by (auto simp: unchecked_unwrap_def unreachable_def split: option.splits)

lemma unchecked_unwrap_release: "unchecked_unwrap b s = Undefined \<longleftrightarrow> s = None \<and> \<not> b"
  by (auto simp: unchecked_unwrap_def unreachable_def split: option.splits)

section \<open>The thread data of a call\<close>

text \<open>
  \<open>with_thread_data\<close> of \<open>parking_lot.rs\<close>: the thread-local \<open>ThreadData\<close>, made at its first use, or
  one on the stack when the thread-local one is already destroyed; the latter is dropped at
  the end. \<open>tls\<close> and \<open>stack\<close> are the addresses of the two.
\<close>

datatype tls_state = Unused | Live | Destroyed

definition with_thread_data :: "nat \<Rightarrow> tid \<Rightarrow> tid \<Rightarrow> (tid \<Rightarrow> ParkingLot \<Rightarrow> ('r \<times> ParkingLot) option) \<Rightarrow>
    tls_state \<times> ParkingLot \<Rightarrow> ('r \<times> tls_state \<times> ParkingLot) option" where
  "with_thread_data now tls stack f sl = (case sl of (s, lot) \<Rightarrow>
     (case s of
        Live \<Rightarrow> map_option (\<lambda>(r, lot'). (r, Live, lot')) (f tls lot)
      | Unused \<Rightarrow> Option.bind (ThreadData_new now tls lot)
          (\<lambda>lot1. map_option (\<lambda>(r, lot'). (r, Live, lot')) (f tls lot1))
      | Destroyed \<Rightarrow> Option.bind (ThreadData_new now stack lot)
          (\<lambda>lot1. map_option (\<lambda>(r, lot'). (r, Destroyed, ThreadData_drop lot')) (f stack lot1))))"

text \<open>The number of threads counts the live thread-local objects, and no call leaks one.\<close>

lemma with_thread_data_count:
  assumes wf: "lot_wf lot" and q: "\<not> enqueued lot tls" "\<not> enqueued lot stack"
    and n: "Suc (NUM_THREADS lot) * LOAD_FACTOR \<le> 2 ^ 62"
    and f: "\<And>t l. lot_wf l \<Longrightarrow> \<exists>r l'. f t l = Some (r, l') \<and> lot_wf l' \<and> NUM_THREADS l' = NUM_THREADS l"
  shows "\<exists>r s' lot'. with_thread_data now tls stack f (s, lot) = Some (r, s', lot') \<and>
    NUM_THREADS lot' = NUM_THREADS lot + (if s = Unused then 1 else 0) \<and> (s' = Destroyed \<longleftrightarrow> s = Destroyed)"
proof (cases s)
  case Live
  then show ?thesis using f [OF wf, of tls] by (auto simp: with_thread_data_def)
next
  case Unused
  obtain l1 where l1: "ThreadData_new now tls lot = Some l1" "lot_wf l1" "NUM_THREADS l1 = Suc (NUM_THREADS lot)"
    using ThreadData_new_waiting [OF wf q(1) n] by blast
  then show ?thesis using f [OF l1(2), of tls] Unused by (auto simp: with_thread_data_def)
next
  case Destroyed
  obtain l1 where l1: "ThreadData_new now stack lot = Some l1" "lot_wf l1" "NUM_THREADS l1 = Suc (NUM_THREADS lot)"
    using ThreadData_new_waiting [OF wf q(2) n] by blast
  then show ?thesis
    using f [OF l1(2), of stack] Destroyed by (auto simp: with_thread_data_def ThreadData_drop_def)
qed

text \<open>
  The same function of \<open>word_lock.rs\<close>: the thread-local object is used only where a parker is
  expensive to construct. Neither is counted.
\<close>

definition wl_with_thread_data :: "bool \<Rightarrow> tid \<Rightarrow> tid \<Rightarrow> tls_state \<Rightarrow> (tid \<Rightarrow> 'r) \<Rightarrow> 'r" where
  "wl_with_thread_data is_cheap_to_construct tls stack s f =
     (let thread_data_ptr = (if \<not> is_cheap_to_construct \<and> s \<noteq> Destroyed then Some tls else None)
      in f (case thread_data_ptr of None \<Rightarrow> stack | Some t \<Rightarrow> t))"

section \<open>WebAssembly without threads\<close>

text \<open>Every function of the parker but the last panics, here \<open>None\<close>; there is nobody to unpark.\<close>

datatype Wasm0Parker = Wasm0Parker
datatype Wasm0Handle = Wasm0Handle

definition wasm0_new :: Wasm0Parker where "wasm0_new = Wasm0Parker"
definition wasm0_prepare_park :: "Wasm0Parker \<Rightarrow> unit option" where "wasm0_prepare_park p = None"
definition wasm0_timed_out :: "Wasm0Parker \<Rightarrow> bool option" where "wasm0_timed_out p = None"
definition wasm0_park :: "Wasm0Parker \<Rightarrow> unit option" where "wasm0_park p = None"
definition wasm0_park_until :: "nat \<Rightarrow> Wasm0Parker \<Rightarrow> bool option" where "wasm0_park_until deadline p = None"
definition wasm0_unpark_lock :: "Wasm0Parker \<Rightarrow> Wasm0Handle option" where "wasm0_unpark_lock p = None"
definition wasm0_unpark :: "Wasm0Handle \<Rightarrow> unit option" where "wasm0_unpark h = Some ()"

text \<open>The clock of that platform is a single instant, so no time-out is ever later than now.\<close>

datatype TimeoutInstant = TimeoutInstant

definition TimeoutInstant_now :: TimeoutInstant where "TimeoutInstant_now = TimeoutInstant"

definition TimeoutInstant_add :: "TimeoutInstant \<Rightarrow> nat \<Rightarrow> TimeoutInstant" where
  "TimeoutInstant_add i rhs = TimeoutInstant"

lemma TimeoutInstant_fixed: "TimeoutInstant_add i d = TimeoutInstant_now"
  by (simp add: TimeoutInstant_add_def TimeoutInstant_now_def)

section \<open>Thread ids\<close>

text \<open>\<open>nonzero_thread_id\<close>: the address of a thread-local variable; \<open>None\<close> is the panic of \<open>expect\<close>.\<close>

definition nonzero_thread_id :: "(tid \<Rightarrow> usize) \<Rightarrow> tid \<Rightarrow> usize option" where
  "nonzero_thread_id key_addr t = (if key_addr t = 0 then None else Some (key_addr t))"

text \<open>
  Thread-local variables of different threads have different addresses and none is at null;
  then the ids are what \<open>GetThreadId\<close> asks for.
\<close>

lemma nonzero_thread_id_unique:
  assumes "inj key_addr" and "\<And>t. key_addr t \<noteq> 0"
  shows "\<exists>i. nonzero_thread_id key_addr t = Some i \<and> i \<noteq> 0"
    and "nonzero_thread_id key_addr t = nonzero_thread_id key_addr u \<longleftrightarrow> t = u"
  using assms by (auto simp: nonzero_thread_id_def inj_eq)

section \<open>The locks of parking\_lot\<close>

definition RawMutex_INIT :: u8 where "RawMutex_INIT = 0"
definition RawFairMutex_INIT :: u8 where "RawFairMutex_INIT = RawMutex_INIT"
definition RawRwLock_INIT :: usize where "RawRwLock_INIT = 0"

definition const_mutex :: "'t \<Rightarrow> (u8, 't) Mutex" where
  "const_mutex val = Mutex_const_new RawMutex_INIT val"

definition const_fair_mutex :: "'t \<Rightarrow> (u8, 't) Mutex" where
  "const_fair_mutex val = Mutex_const_new RawFairMutex_INIT val"

definition const_rwlock :: "'t \<Rightarrow> (usize, 't) RwLock" where
  "const_rwlock val = RwLock_const_new RawRwLock_INIT val"

definition const_reentrant_mutex :: "'g \<Rightarrow> 't \<Rightarrow> (u8, 'g, 't) ReentrantMutex" where
  "const_reentrant_mutex thread_id_INIT val = ReentrantMutex_const_new RawMutex_INIT thread_id_INIT val"

text \<open>A new lock is unlocked and owned by nobody, and its value comes back out of it.\<close>

lemma const_locks_start_unlocked:
  "\<not> mutex_is_locked (mutex_raw (const_mutex v))" "Mutex_into_inner (const_mutex v) = v"
  "\<not> mutex_is_locked (mutex_raw (const_fair_mutex v))" "Mutex_into_inner (const_fair_mutex v) = v"
  "\<not> rw_is_locked (rwlock_raw (const_rwlock v))" "RwLock_into_inner (const_rwlock v) = v"
  "\<not> mutex_is_locked (rem_mutex (rem_raw (const_reentrant_mutex g v)))"
  "rem_owner (rem_raw (const_reentrant_mutex g v)) = 0" "rem_lock_count (rem_raw (const_reentrant_mutex g v)) = 0"
  "ReentrantMutex_into_inner (const_reentrant_mutex g v) = v"
  by (simp_all add: const_mutex_def const_fair_mutex_def const_rwlock_def const_reentrant_mutex_def
      Mutex_const_new_def Mutex_from_raw_def Mutex_into_inner_def RwLock_const_new_def RwLock_from_raw_def
      RwLock_into_inner_def ReentrantMutex_const_new_def ReentrantMutex_from_raw_def ReentrantMutex_into_inner_def
      RawMutex_INIT_def RawFairMutex_INIT_def RawRwLock_INIT_def mutex_is_locked_def rw_is_locked_def)

end
