(* ===== verification/Spec2Isabelle.thy ===== *)
theory Spec2Isabelle
  imports Spin_Wait Mutex_Safety Once RwLock_Claims Word_Lock_Safety Condvar_Claims Re_Mutex Deadlock_Claims Parker_Machines Condvar_Api Guard_Locks Bucket_Keys Deadlock_Locks Crate_Parts
begin

text \<open>
  A verification of the crates \<open>parking_lot_core\<close> (\<open>core/\<close>), \<open>parking_lot\<close> (\<open>src/\<close>) and \<open>lock_api\<close> (\<open>lock_api/\<close>).

  \<^bold>\<open>The program.\<close> A thread that has to wait is put into a queue of the global parking lot, under a key that is an
  address. The lot is a hash table of buckets, each a linked list of thread records behind a word lock; a thread parker of the platform
  puts the thread to sleep and wakes it. The raw locks of \<open>parking_lot\<close> are one byte or word each: their fast paths are exchanges on it, their
  slow paths park on its address. \<open>lock_api\<close> wraps raw locks into locks with guards, adds the reentrant mutex and the generic condition
  variable.

  \<^bold>\<open>Theories, from the bottom.\<close>

  \<^item> \<open>Lot_Prelude\<close>: machine integers, atomic operations and lemmas all theories share. Integers have the width of a
    64-bit target; an operation of an atomic returns its result and the new value.

  \<^item> \<open>Spin_Wait\<close> (\<open>core/src/spinwait.rs\<close>) and \<open>Hash_Table\<close> (table, hash and fair timer of \<open>core/src/parking_lot.rs\<close>).

  \<^item> \<open>Bucket_Queue\<close>, \<open>Bucket_Refine\<close>, \<open>Requeue_Refine\<close>, \<open>Parking_Lot\<close>, \<open>Lot_Refine\<close>, \<open>Lot_Grow\<close>, \<open>Lot_Spec\<close>
    (\<open>core/src/parking_lot.rs\<close>): the heap of thread records with the writes of \<open>park\<close>, \<open>unpark_all\<close>, \<open>unpark_one\<close>, \<open>unpark_requeue\<close>,
    \<open>unpark_filter\<close> and \<open>grow_hashtable\<close>, each as it acts between locking and unlocking its buckets. They return on well-formed queues and refine
    one list of threads per key, for keys that collide as well. The locale \<open>wait_queues\<close> is this interface; its instance is the heap.

  \<^item> \<open>Bucket_Locks\<close>, \<open>Bucket_Progress\<close>, \<open>Bucket_Claims\<close>, \<open>Bucket_Keys\<close> (\<open>core/src/parking_lot.rs\<close>): the locking of buckets while the table is
    created and grown and threads are requeued, one step per access to \<open>HASHTABLE\<close>, to a key and to a bucket lock. A critical section is in the bucket of the
    current table and alone there, so the functions above may be taken as they act between locking and unlocking; a parked thread is in the bucket of
    its key; seen by key, each step is one queue operation or nothing. The locale \<open>ordered_locks\<close> has the argument that locks taken in an
    order do not deadlock; with a measure for the retries it gives that every call returns.

  \<^item> \<open>Park_Machine\<close>: threads that interleave at the accesses of a shared state and at the bucket locks, over queues as lists. The
    locale \<open>park_client\<close> has the invariant of the lot for any program; the mutex, the reader-writer lock, \<open>Once\<close> and the
    condition variable are instances.

  \<^item> \<open>Raw_Mutex\<close>, \<open>Mutex_Safety\<close>, \<open>Raw_Fair_Mutex\<close> (\<open>src/src/raw_mutex.rs\<close>, \<open>raw_fair_mutex.rs\<close>): mutual exclusion, the parked bit,
    no lost wake-up, fair hand-off. \<open>Lock_Traits\<close> is the contract of \<open>RawMutex\<close> as a locale, with both mutexes as instances.

  \<^item> \<open>Re_Mutex\<close> (\<open>RawReentrantMutex\<close> of \<open>lock_api/src/remutex.rs\<close>), over any machine that meets \<open>raw_mutex\<close> and any thread ids that differ.

  \<^item> \<open>Raw_RwLock\<close>, \<open>RwLock_Bits\<close>, \<open>RwLock_Local\<close>, \<open>RwLock_Safety\<close>, \<open>RwLock_Claims\<close> (\<open>src/src/raw_rwlock.rs\<close>): the layout of the
    state word, what each access does to the holds, and that the word is exact in every interleaving.

  \<^item> \<open>Once\<close> (\<open>src/src/once.rs\<close>); \<open>Raw_Condvar\<close>, \<open>Condvar_Safety\<close>, \<open>Condvar_Claims\<close> (\<open>src/src/raw_condvar.rs\<close>, over any number of mutexes);
    \<open>Word_Lock\<close>, \<open>Word_Lock_Safety\<close> (\<open>core/src/word_lock.rs\<close>).

  \<^item> \<open>Deadlock\<close> (\<open>mod deadlock_impl\<close> of \<open>core/src/parking_lot.rs\<close>): the wait graph, the search for cycles and their normal form.
    \<open>Deadlock_Reports\<close>, \<open>Deadlock_Claims\<close>: the calls of \<open>check_deadlock\<close> interleaved with the sleeping threads they mark and wake, with
    \<open>DEADLOCK_DETECTION_LOCK\<close> and a channel per cycle; what a call returns is cycles, and it returns. \<open>Deadlock_Locks\<close> (\<open>mod deadlock\<close>
    and the calls the locks make to it): what the detector records is what a thread holds.

  \<^item> \<open>Elision\<close> (\<open>src/src/elision.rs\<close>): the instructions of the elided operations, which the reader-writer lock uses, and that they act as the plain
    ones. \<open>Crate_Parts\<close>: \<open>with_thread_data\<close>, \<open>util.rs\<close>, \<open>wasm.rs\<close>, the thread ids and the constructors of \<open>parking_lot\<close>.

  \<^item> \<open>Thread_Parker\<close>, \<open>Parker_Platforms\<close>, \<open>Parker_Windows\<close>, \<open>Parker_Machines\<close> (\<open>core/src/thread_parker/\<close>): the contract of \<open>ThreadParkerT\<close> as a
    locale with every platform as an instance, the time-outs handed to the systems, and a sleeping thread with its unparker step by step.

  \<^item> \<open>Condvar_Api\<close> (\<open>lock_api/src/condvar.rs\<close>): \<open>Condvar\<close> over any raw condition variable. The loops are partial functions whose
    value \<open>None\<close> is not returning; they are shown to return exactly when the source's loop exits.

  \<^item> \<open>Guard_Prog\<close>, \<open>Mutex_Guard\<close>, \<open>Re_Guard\<close>, \<open>Rw_Guard\<close> (\<open>lock_api/src/mutex.rs\<close>, \<open>remutex.rs\<close>, \<open>rwlock.rs\<close>): every function
    of the locks and their guards that locks, unlocks or uses the data, as a program over the functions of the raw lock. \<open>Guard_Safety\<close> types the
    programs a caller can write with them and shows that these call the raw lock only with the holds it asks for, panics included.

  \<^item> \<open>Guard_Machine\<close>, \<open>Guard_RwLock\<close>, \<open>Guard_Locks\<close>: threads that run such programs over a raw lock. The locale \<open>raw_lock\<close> is what the guards
    need of it; every machine with the contract \<open>raw_mutex\<close> has it, and so does the reentrant mutex over such a machine and the raw reader-writer
    lock. \<open>lawful_lock\<close> adds that every call ends with an outcome of its function, which the raw mutex and the raw reader-writer lock keep. So the data is used as the kind of the lock allows, from the guards down to the atomic accesses.

  \<^bold>\<open>Reading the machines.\<close> A step belongs to a thread and carries a number, which resolves what the thread cannot know: whether a weak
  exchange fails spuriously, whether the fair timer has run out, which function a thread calls next. A theorem about all runs is about all
  schedules, numbers of threads and programs. A program point is a constructor with the local variables of the function at that point; a function is
  complete when every path of the source from entry to return is a path of points. A sleeping thread with a time-out may expire at any time.

  \<^bold>\<open>Bounds and simplifications.\<close>

  \<^item> Atomic accesses are sequentially consistent; the orderings of the source are not modelled.

  \<^item> The reader-writer lock is for at most \<open>2 ^ 59\<close> threads (or holds), so that its reader count fits its 60 bits with room for the sums the
    unlock functions form. The number of thread records is below \<open>2 ^ 60\<close> in \<open>Bucket_Locks\<close>, so that the size of the table fits a word. No other
    theorem bounds the number of threads.

  \<^item> In \<open>Bucket_Locks\<close> a bucket's word lock is its holder, which \<open>Word_Lock_Safety\<close> justifies, and the body of a critical section is one step; which
    threads it takes is an argument of the call. Of the slow deadlock check it has the loop that locks all buckets; \<open>DEADLOCK_DETECTION_LOCK\<close>, the
    marking of the threads and the wait for their reports are in \<open>Deadlock_Reports\<close>, where the reading of the queues under all locks is one
    step, and so is the marking of a thread under its bucket's lock. In
    \<open>Park_Machine\<close> there is one bucket lock per key, which \<open>Bucket_Keys\<close> justifies, and a closure \<open>validate\<close> that ends with an access of the state is one step with
    the acquisition of the lock. In \<open>Word_Lock\<close> a walk over nodes, which only the holder of the queue lock touches, is one step.

  \<^item> Calls of the operating system, the clock, the functions of \<open>petgraph\<close> and the closures of the callers are arguments; what the code relies on of
    them is a hypothesis of the theorem, with a witness.

  \<^item> A program with guards is about one lock; what its closures do beside calling its functions and using its data is left out. The
    functions of the raw lock do not unwind: a thread whose raw call panics (a count of a reentrant mutex or of readers overflows) stops. A closure that
    may not be called, such as that of \<open>try_with_upgraded\<close>, owns no guard.

  \<^item> A thread whose count of readers would overflow panics: it is at a point of its own, \<open>RwPanicked\<close>, and stays there. The threads of
    a bounded lock never get there.

  \<^item> \<open>Deadlock_Reports\<close> has the threads that sleep when the first check begins and the checkers; threads that are awake beside them,
    and could park or unpark others meanwhile, are left out. Its theorems are for waits for one other thread each; a thread on two cycles
    is shown to run into the \<open>unreachable!\<close> of \<open>on_unpark\<close>.

  \<^item> Instants are numbers of nanoseconds. Where the debug build panics on an overflow, the model has \<open>None\<close> or the wrapped value, as its text says.

  \<^bold>\<open>Not modelled.\<close> Memory orderings, and what a hardware transaction does beside the instructions of \<open>elision.rs\<close>; the type aliases and tests of
  \<open>src/src/mutex.rs\<close>, \<open>rwlock.rs\<close>, \<open>fair_mutex.rs\<close>, \<open>remutex.rs\<close>, \<open>condvar.rs\<close>, \<open>deadlock.rs\<close>; the accessors of \<open>lock_api\<close> that only copy a
  pointer or a reference (\<open>raw\<close>, \<open>data_ptr\<close>, \<open>mutex\<close>, \<open>rwlock\<close>), \<open>Display\<close>, \<open>Deserialize\<close> and the traits of \<open>owning_ref\<close>; the marker traits
  \<open>Send\<close> and \<open>Sync\<close>, which the compiler checks; the depth-first search of \<open>petgraph\<close> and the backtraces of the deadlock detector;
  allocation and the destructors of thread-local variables; the declarations of system functions; benchmarks and tests.
\<close>

end
